(* ===== verification/Prelude.thy ===== *)
theory Prelude
  imports Main "HOL-Library.AList" "HOL-Library.Signed_Division" "HOL-Library.Char_ord"
    "HOL-Library.List_Lexorder"
begin

text \<open>
  Shared vocabulary of the development: the JavaScript values the sources receive from
  \<open>JSON.parse\<close> and \<open>process.env\<close>, the string and number primitives they call, thrown
  exceptions as the left part of a sum, and insertion-ordered \<open>Map\<close> objects as association
  lists.

  A JavaScript string is a list of code units below 256 (\<open>string\<close>); \<open>length\<close>,
  \<open>toLowerCase\<close>, \<open>trim\<close> and \<open>split\<close> are exact on that range. A \<open>number\<close> that is an
  integer is \<open>JNum\<close>; every other number (fractions, \<open>NaN\<close>, infinities) is \<open>JFloat\<close>
  with its printed form. Printing integers in decimal is exact below \<open>10\<^sup>21\<close>, where
  JavaScript switches to exponents.
\<close>

named_theorems js_simps \<open>evaluation rules for the JavaScript primitives\<close>
named_theorems step_simps \<open>one-step unfoldings of the stateful components\<close>
named_theorems inv_intros \<open>preservation of the components' invariants\<close>

section \<open>Values and exceptions\<close>

datatype jsval =
    JUndef
  | JNull
  | JBool bool
  | JNum int
  | JFloat string
  | JBigInt int
  | JStr string
  | JArr "jsval list"
  | JObj "(string \<times> jsval) list"

datatype exn = Error string | TypeError | SyntaxError | RangeError

type_synonym 'a res = "exn + 'a"

definition bind_res :: "'a res \<Rightarrow> ('a \<Rightarrow> 'b res) \<Rightarrow> 'b res" where
  "bind_res m f = (case m of Inl e \<Rightarrow> Inl e | Inr x \<Rightarrow> f x)"

lemma bind_res_simps [simp]: "bind_res (Inl e) f = Inl e" "bind_res (Inr x) f = f x"
  by (simp_all add: bind_res_def)

lemma bind_res_Inr_iff: "bind_res m f = Inr y \<longleftrightarrow> (\<exists>x. m = Inr x \<and> f x = Inr y)"
  by (cases m) auto

fun res_ok :: "'a res \<Rightarrow> bool" where
  "res_ok (Inl _) = False"
| "res_ok (Inr _) = True"

lemma res_ok_iff: "res_ok r \<longleftrightarrow> (\<exists>x. r = Inr x)"
  by (cases r) auto

text \<open>\<open>Array.prototype.map\<close> with a callback that may throw: left to right, first exception wins.\<close>

fun map_res :: "('a \<Rightarrow> 'b res) \<Rightarrow> 'a list \<Rightarrow> 'b list res" where
  "map_res f [] = Inr []"
| "map_res f (x # xs) = bind_res (f x) (\<lambda>y. bind_res (map_res f xs) (\<lambda>ys. Inr (y # ys)))"

lemma map_res_Inr_iff: "map_res f xs = Inr ys \<longleftrightarrow> list_all2 (\<lambda>x y. f x = Inr y) xs ys"
  by (induction xs arbitrary: ys) (auto simp: bind_res_Inr_iff list_all2_Cons1)

lemma map_res_total: "(\<And>x. x \<in> set xs \<Longrightarrow> f x = Inr (g x)) \<Longrightarrow> map_res f xs = Inr (map g xs)"
  by (induction xs) auto

lemma find_SomeD: "find P xs = Some x \<Longrightarrow> x \<in> set xs \<and> P x"
  by (induction xs) (auto split: if_splits)

section \<open>Truthiness and property access\<close>

fun truthy :: "jsval \<Rightarrow> bool" where
  "truthy JUndef = False"
| "truthy JNull = False"
| "truthy (JBool b) = b"
| "truthy (JNum n) = (n \<noteq> 0)"
| "truthy (JFloat s) = (s \<noteq> ''NaN'')"
| "truthy (JBigInt n) = (n \<noteq> 0)"
| "truthy (JStr s) = (s \<noteq> [])"
| "truthy (JArr _) = True"
| "truthy (JObj _) = True"

fun nullish :: "jsval \<Rightarrow> bool" where
  "nullish JUndef = True"
| "nullish JNull = True"
| "nullish _ = False"

fun is_object :: "jsval \<Rightarrow> bool" where  \<comment> \<open>truthy and \<open>typeof v === "object"\<close>\<close>
  "is_object (JArr vs) = True"
| "is_object (JObj kvs) = True"
| "is_object _ = False"

lemma is_object_truthy: "is_object v \<Longrightarrow> truthy v"
  by (cases v) auto

text \<open>
  Reading a named property of a value that is not nullish; the names the sources read are not
  those of a prototype.
\<close>

fun getp :: "jsval \<Rightarrow> string \<Rightarrow> jsval" where
  "getp (JObj kvs) k = (case map_of kvs k of Some v \<Rightarrow> v | None \<Rightarrow> JUndef)"
| "getp _ k = JUndef"

text \<open>The same with the \<open>TypeError\<close> that \<open>undefined.k\<close> and \<open>null.k\<close> raise.\<close>

definition getp_res :: "jsval \<Rightarrow> string \<Rightarrow> jsval res" where
  "getp_res v k = (if nullish v then Inl TypeError else Inr (getp v k))"

definition js_or :: "jsval \<Rightarrow> jsval \<Rightarrow> jsval" where  \<comment> \<open>\<open>a || b\<close>\<close>
  "js_or a b = (if truthy a then a else b)"

definition js_nullish_or :: "jsval \<Rightarrow> jsval \<Rightarrow> jsval" where  \<comment> \<open>\<open>a ?? b\<close>\<close>
  "js_nullish_or a b = (if nullish a then b else a)"

section \<open>Decimal numerals\<close>

definition digit_char :: "nat \<Rightarrow> char" where
  "digit_char d = ''0123456789'' ! d"

definition is_digit :: "char \<Rightarrow> bool" where
  "is_digit c \<longleftrightarrow> 48 \<le> (of_char c :: nat) \<and> (of_char c :: nat) \<le> 57"

definition digit_val :: "char \<Rightarrow> nat" where
  "digit_val c = of_char c - 48"

fun nat_dec :: "nat \<Rightarrow> string" where
  "nat_dec n = (if n < 10 then [digit_char n] else nat_dec (n div 10) @ [digit_char (n mod 10)])"

declare nat_dec.simps [simp del]
declare nat_dec.simps [js_simps] digit_char_def [js_simps]

definition int_dec :: "int \<Rightarrow> string" where
  "int_dec n = (if n < 0 then CHR ''-'' # nat_dec (nat (- n)) else nat_dec (nat n))"

declare int_dec_def [js_simps]

definition dec_nat :: "string \<Rightarrow> nat" where  \<comment> \<open>value of a string of digits\<close>
  "dec_nat s = foldl (\<lambda>a c. 10 * a + digit_val c) 0 s"

definition all_digits :: "string \<Rightarrow> bool" where  \<comment> \<open>\<open>/^[0-9]+$/\<close>\<close>
  "all_digits s \<longleftrightarrow> s \<noteq> [] \<and> list_all is_digit s"

lemma digit_char_props [simp]:
  assumes "d < 10"
  shows "is_digit (digit_char d)" "digit_val (digit_char d) = d"
proof -
  from assms have "d = 0 \<or> d = 1 \<or> d = 2 \<or> d = 3 \<or> d = 4 \<or> d = 5 \<or> d = 6 \<or> d = 7 \<or> d = 8 \<or> d = 9"
    by arith
  then show "is_digit (digit_char d)" "digit_val (digit_char d) = d"
    by (elim disjE; simp add: is_digit_def digit_val_def digit_char_def)+
qed

lemma dec_nat_snoc [simp]: "dec_nat (s @ [c]) = 10 * dec_nat s + digit_val c"
  by (simp add: dec_nat_def)

lemma dec_nat_nat_dec [simp]: "dec_nat (nat_dec n) = n"
proof (induction n rule: nat_dec.induct)
  case (1 n)
  show ?case
  proof (cases "n < 10")
    case True
    then show ?thesis by (subst nat_dec.simps) (simp add: dec_nat_def)
  next
    case False
    with "1.IH" show ?thesis by (subst nat_dec.simps) simp
  qed
qed

lemma all_digits_nat_dec [simp]: "all_digits (nat_dec n)"
proof (induction n rule: nat_dec.induct)
  case (1 n)
  then show ?case by (subst nat_dec.simps) (auto simp: all_digits_def)
qed

lemma nat_dec_inject [simp]: "nat_dec m = nat_dec n \<longleftrightarrow> m = n"
  by (metis dec_nat_nat_dec)

lemma nat_dec_nonempty [simp]: "nat_dec n \<noteq> []"
  using all_digits_nat_dec [of n] by (auto simp: all_digits_def)

lemma hd_nat_dec_digit: "is_digit (hd (nat_dec n))"
  using all_digits_nat_dec [of n] by (cases "nat_dec n") (auto simp: all_digits_def)

lemma int_dec_inject [simp]: "int_dec m = int_dec n \<longleftrightarrow> m = n"
proof -
  have minus: "CHR ''-'' # nat_dec a \<noteq> nat_dec b" for a b
  proof
    assume "CHR ''-'' # nat_dec a = nat_dec b"
    then have "hd (nat_dec b) = CHR ''-''" by (metis list.sel(1))
    with hd_nat_dec_digit [of b] show False by (simp add: is_digit_def)
  qed
  show ?thesis using minus minus [symmetric] by (auto simp: int_dec_def)
qed

lemma digit_char_val [simp]: "is_digit c \<Longrightarrow> digit_char (digit_val c) = c"
proof -
  assume c: "is_digit c"
  then have "digit_val c < 10" by (auto simp: is_digit_def digit_val_def)
  then have "is_digit (digit_char (digit_val c))" "digit_val (digit_char (digit_val c)) = digit_val c"
    by simp_all
  with c have "(of_char (digit_char (digit_val c)) :: nat) = of_char c"
    unfolding is_digit_def digit_val_def by linarith
  then show ?thesis by simp
qed

lemma nat_dec_dec_nat:
  assumes "all_digits s" "hd s \<noteq> CHR ''0''"
  shows "nat_dec (dec_nat s) = s \<and> dec_nat s \<noteq> 0"
  using assms
proof (induction s rule: rev_induct)
  case (snoc c s)
  then have c: "is_digit c" by (simp add: all_digits_def)
  then have d: "digit_val c < 10" by (auto simp: is_digit_def digit_val_def)
  show ?case
  proof (cases "s = []")
    case True
    have "digit_char 0 = CHR ''0''" by (simp add: digit_char_def)
    with True snoc.prems c have "digit_val c \<noteq> 0" using digit_char_val [OF c] by (metis append_Nil list.sel(1))
    moreover have "dec_nat [c] = digit_val c" by (simp add: dec_nat_def)
    moreover have "nat_dec (digit_val c) = [c]" using d c by (subst nat_dec.simps) simp
    ultimately show ?thesis using True by simp
  next
    case False
    with snoc have IH: "nat_dec (dec_nat s) = s" "dec_nat s \<noteq> 0" by (auto simp: all_digits_def)
    then have "nat_dec (10 * dec_nat s + digit_val c) = nat_dec (dec_nat s) @ [digit_char (digit_val c)]"
      using d by (subst nat_dec.simps) simp
    with IH c show ?thesis by simp
  qed
qed (simp add: all_digits_def)

lemma hd_nat_dec: "n \<noteq> 0 \<Longrightarrow> hd (nat_dec n) \<noteq> CHR ''0''"
proof (induction n rule: nat_dec.induct)
  case (1 n)
  show ?case
  proof (cases "n < 10")
    case True
    have "digit_val (CHR ''0'') = 0" by (simp add: digit_val_def)
    with True "1.prems" have "digit_char n \<noteq> CHR ''0''" using digit_char_props(2) [of n] by metis
    with True show ?thesis by (subst nat_dec.simps) simp
  next
    case False
    with "1.IH" show ?thesis by (subst nat_dec.simps) (simp add: div_eq_0_iff)
  qed
qed

lemma length_nat_dec: "n < 10 ^ k \<Longrightarrow> 0 < k \<Longrightarrow> length (nat_dec n) \<le> k"
proof (induction k arbitrary: n)
  case (Suc k)
  show ?case
  proof (cases "n < 10")
    case True
    then show ?thesis by (subst nat_dec.simps) simp
  next
    case False
    with Suc.prems have "n div 10 < 10 ^ k" "0 < k" by (auto intro: Nat.gr0I simp: less_mult_imp_div_less mult.commute)
    with Suc.IH False show ?thesis by (subst nat_dec.simps) simp
  qed
qed simp

section \<open>Strings\<close>

definition is_space :: "char \<Rightarrow> bool" where  \<comment> \<open>what \<open>String.prototype.trim\<close> strips\<close>
  "is_space c \<longleftrightarrow> of_char c \<in> {9, 10, 11, 12, 13, 32, 160 :: nat}"

definition js_trim :: "string \<Rightarrow> string" where
  "js_trim s = rev (dropWhile is_space (rev (dropWhile is_space s)))"

definition lower_char :: "char \<Rightarrow> char" where
  "lower_char c = (let n = (of_char c :: nat) in
     if 65 \<le> n \<and> n \<le> 90 \<or> 192 \<le> n \<and> n \<le> 222 \<and> n \<noteq> 215 then char_of (n + 32) else c)"

definition js_lower :: "string \<Rightarrow> string" where
  "js_lower s = map lower_char s"

lemma lower_char_idem [simp]: "lower_char (lower_char c) = lower_char c"
proof -
  have "(of_char c :: nat) < 256" by simp
  then show ?thesis by (auto simp: lower_char_def Let_def)
qed

lemma js_lower_idem [simp]: "js_lower (js_lower s) = js_lower s"
  by (simp add: js_lower_def)

lemma length_js_lower [simp]: "length (js_lower s) = length s"
  by (simp add: js_lower_def)

text \<open>\<open>s.split(c)\<close> for a one-character separator, and \<open>parts.join(sep)\<close>.\<close>

fun split_on :: "char \<Rightarrow> string \<Rightarrow> string list" where
  "split_on c [] = [[]]"
| "split_on c (x # xs) =
     (if x = c then [] # split_on c xs
      else (case split_on c xs of [] \<Rightarrow> [[x]] | p # ps \<Rightarrow> (x # p) # ps))"

fun join_with :: "string \<Rightarrow> string list \<Rightarrow> string" where
  "join_with sep [] = []"
| "join_with sep [x] = x"
| "join_with sep (x # y # ys) = x @ sep @ join_with sep (y # ys)"

lemma split_on_nonempty [simp]: "split_on c s \<noteq> []"
  by (induction s) (auto split: list.splits)

lemma join_split: "join_with [c] (split_on c s) = s"
proof (induction s)
  case (Cons x xs)
  then show ?case
    by (cases "split_on c xs"; cases "tl (split_on c xs)") auto
qed simp

lemma split_on_no_sep: "p \<in> set (split_on c s) \<Longrightarrow> c \<notin> set p"
  by (induction s arbitrary: p) (auto split: list.splits if_splits)

lemma split_on_single: "c \<notin> set s \<Longrightarrow> split_on c s = [s]"
  by (induction s) auto

lemma split_on_append: "c \<notin> set p \<Longrightarrow> split_on c (p @ c # s) = p # split_on c s"
  by (induction p) auto

definition starts_with :: "string \<Rightarrow> string \<Rightarrow> bool" where  \<comment> \<open>\<open>s.startsWith(p)\<close>\<close>
  "starts_with s p \<longleftrightarrow> take (length p) s = p"

definition ends_with :: "string \<Rightarrow> string \<Rightarrow> bool" where  \<comment> \<open>\<open>s.endsWith(p)\<close>\<close>
  "ends_with s p \<longleftrightarrow> length p \<le> length s \<and> drop (length s - length p) s = p"

fun includes_str :: "string \<Rightarrow> string \<Rightarrow> bool" where  \<comment> \<open>\<open>s.includes(p)\<close>\<close>
  "includes_str [] p = (p = [])"
| "includes_str (x # xs) p = (starts_with (x # xs) p \<or> includes_str xs p)"

text \<open>\<open>String(v)\<close>. Values that came from \<open>JSON.parse\<close> carry no callable \<open>toString\<close>.\<close>

fun js_string :: "jsval \<Rightarrow> string" where
  "js_string JUndef = ''undefined''"
| "js_string JNull = ''null''"
| "js_string (JBool b) = (if b then ''true'' else ''false'')"
| "js_string (JNum n) = int_dec n"
| "js_string (JFloat s) = s"
| "js_string (JBigInt n) = int_dec n"
| "js_string (JStr s) = s"
| "js_string (JArr vs) =
     join_with '','' (map (\<lambda>v. if nullish v then [] else js_string v) vs)"
| "js_string (JObj _) = ''[object Object]''"

text \<open>\<open>JSON.stringify\<close> without indentation. Undefined members of objects are left out.\<close>

definition hex_char :: "nat \<Rightarrow> char" where
  "hex_char d = (if d < 10 then char_of (48 + d) else char_of (87 + d))"

definition json_escape :: "char \<Rightarrow> string" where
  "json_escape c = (let n = (of_char c :: nat) in
     if n = 34 then [CHR 0x5C, c] else if n = 92 then [c, c]
     else if n = 8 then [CHR 0x5C, CHR ''b''] else if n = 9 then [CHR 0x5C, CHR ''t'']
     else if n = 10 then [CHR 0x5C, CHR ''n''] else if n = 12 then [CHR 0x5C, CHR ''f'']
     else if n = 13 then [CHR 0x5C, CHR ''r'']
     else if n < 32 then CHR 0x5C # ''u00'' @ [hex_char (n div 16), hex_char (n mod 16)]
     else [c])"

definition json_quote :: "string \<Rightarrow> string" where
  "json_quote s = CHR 0x22 # concat (map json_escape s) @ [CHR 0x22]"

fun json_stringify :: "jsval \<Rightarrow> string" where
  "json_stringify JUndef = ''null''"
| "json_stringify JNull = ''null''"
| "json_stringify (JBool b) = (if b then ''true'' else ''false'')"
| "json_stringify (JNum n) = int_dec n"
| "json_stringify (JFloat s) = (if s \<in> {''NaN'', ''Infinity'', ''-Infinity''} then ''null'' else s)"
| "json_stringify (JBigInt n) = int_dec n"
| "json_stringify (JStr s) = json_quote s"
| "json_stringify (JArr vs) = ''['' @ join_with '','' (map json_stringify vs) @ '']''"
| "json_stringify (JObj kvs) = ''{'' @ join_with '',''
     (map (\<lambda>(k, s). json_quote k @ '':'' @ s)
       (map (\<lambda>(k, v). (k, json_stringify v)) (filter (\<lambda>(k, v). v \<noteq> JUndef) kvs))) @ ''}''"

fun typeof :: "jsval \<Rightarrow> string" where
  "typeof JUndef = ''undefined''"
| "typeof (JBool _) = ''boolean''"
| "typeof (JNum _) = ''number''"
| "typeof (JFloat _) = ''number''"
| "typeof (JBigInt _) = ''bigint''"
| "typeof (JStr _) = ''string''"
| "typeof _ = ''object''"

section \<open>Numbers\<close>

definition MAX_SAFE_INTEGER :: int where
  "MAX_SAFE_INTEGER = 9007199254740991"

fun is_integer :: "jsval \<Rightarrow> bool" where  \<comment> \<open>\<open>Number.isInteger\<close>\<close>
  "is_integer (JNum _) = True"
| "is_integer _ = False"

fun is_safe_integer :: "jsval \<Rightarrow> bool" where  \<comment> \<open>\<open>Number.isSafeInteger\<close>\<close>
  "is_safe_integer (JNum n) = (\<bar>n\<bar> \<le> MAX_SAFE_INTEGER)"
| "is_safe_integer _ = False"

fun radix_digit :: "char \<Rightarrow> nat" where  \<comment> \<open>value of a digit in any radix up to 16; 99 otherwise\<close>
  "radix_digit c = (let n = (of_char c :: nat) in
     if 48 \<le> n \<and> n \<le> 57 then n - 48
     else if 97 \<le> n \<and> n \<le> 102 then n - 87
     else if 65 \<le> n \<and> n \<le> 70 then n - 55 else 99)"

definition radix_nat :: "nat \<Rightarrow> string \<Rightarrow> nat option" where
  "radix_nat b s =
     (if s \<noteq> [] \<and> list_all (\<lambda>c. radix_digit c < b) s
      then Some (foldl (\<lambda>a c. b * a + radix_digit c) 0 s) else None)"

text \<open>\<open>BigInt(s)\<close> of a string: \<open>None\<close> is the \<open>SyntaxError\<close>.\<close>

definition bigint_of_string :: "string \<Rightarrow> int option" where
  "bigint_of_string raw = (let s = js_trim raw in
     if s = [] then Some 0
     else if take 2 s \<in> {''0x'', ''0X''} then map_option int (radix_nat 16 (drop 2 s))
     else if take 2 s \<in> {''0o'', ''0O''} then map_option int (radix_nat 8 (drop 2 s))
     else if take 2 s \<in> {''0b'', ''0B''} then map_option int (radix_nat 2 (drop 2 s))
     else if hd s = CHR ''-'' then map_option (\<lambda>n. - int n) (radix_nat 10 (tl s))
     else if hd s = CHR ''+'' then map_option int (radix_nat 10 (tl s))
     else map_option int (radix_nat 10 s))"

lemma is_digit_not_space: "is_digit c \<Longrightarrow> \<not> is_space c"
  by (auto simp: is_digit_def is_space_def)

lemma js_trim_id: "list_all (\<lambda>c. \<not> is_space c) s \<Longrightarrow> js_trim s = s"
proof -
  assume a: "list_all (\<lambda>c. \<not> is_space c) s"
  then have "dropWhile is_space s = s" by (cases s) auto
  moreover from a have "dropWhile is_space (rev s) = rev s"
    by (cases "rev s") (auto simp: list_all_iff dest: arg_cong [of _ _ set])
  ultimately show ?thesis by (simp add: js_trim_def)
qed

lemma radix_digit_digit: "is_digit c \<Longrightarrow> radix_digit c = digit_val c"
  by (auto simp: is_digit_def digit_val_def)

lemma digit_val_less: "is_digit c \<Longrightarrow> digit_val c < 10"
  by (auto simp: is_digit_def digit_val_def)

lemma radix_nat_digits: "all_digits s \<Longrightarrow> radix_nat 10 s = Some (dec_nat s)"
proof -
  assume a: "all_digits s"
  have "foldl (\<lambda>a c. 10 * a + radix_digit c) n s = foldl (\<lambda>a c. 10 * a + digit_val c) n s" for n
    using a [unfolded all_digits_def, THEN conjunct2]
    by (induction s arbitrary: n) (auto simp: radix_digit_digit simp del: radix_digit.simps)
  with a show ?thesis
    by (auto simp: radix_nat_def all_digits_def list_all_iff radix_digit_digit digit_val_less
        dec_nat_def simp del: radix_digit.simps)
qed

lemma bigint_of_digits: "all_digits s \<Longrightarrow> bigint_of_string s = Some (int (dec_nat s))"
proof -
  assume a: "all_digits s"
  then have trim: "js_trim s = s"
    by (intro js_trim_id) (auto simp: all_digits_def list_all_iff is_digit_not_space)
  have nd: "\<not> is_digit (CHR ''x'')" "\<not> is_digit (CHR ''X'')" "\<not> is_digit (CHR ''o'')"
    "\<not> is_digit (CHR ''O'')" "\<not> is_digit (CHR ''b'')" "\<not> is_digit (CHR ''B'')"
    "\<not> is_digit (CHR ''-'')" "\<not> is_digit (CHR ''+'')"
    by (simp_all add: is_digit_def)
  from a obtain c cs where s: "s = c # cs" "is_digit c" "list_all is_digit cs"
    by (cases s) (auto simp: all_digits_def)
  with nd have "take 2 s \<notin> {''0x'', ''0X''} \<and> take 2 s \<notin> {''0o'', ''0O''}
    \<and> take 2 s \<notin> {''0b'', ''0B''} \<and> c \<noteq> CHR ''-'' \<and> c \<noteq> CHR ''+''"
    by (cases cs) auto
  with a s(1) show ?thesis
    unfolding bigint_of_string_def Let_def trim by (auto simp: radix_nat_digits)
qed

lemma bigint_of_int_dec [simp]: "0 \<le> n \<Longrightarrow> bigint_of_string (int_dec n) = Some n"
  by (simp add: int_dec_def bigint_of_digits)

text \<open>
  \<open>Number(s)\<close> of a string. A decimal literal with an integer value is \<open>JNum\<close>, any other
  finite literal is \<open>JFloat\<close> with the text it came from (its exact value: rounding to the
  nearest double is left out), a string that is no literal is \<open>NaN\<close>.
\<close>

definition decimal_num :: "string \<Rightarrow> bool \<Rightarrow> nat \<Rightarrow> int \<Rightarrow> jsval" where
  "decimal_num raw neg m sc = (let sg = (\<lambda>n. if neg then - n else n) in
     if sc \<ge> 0 then JNum (sg (int m * 10 ^ nat sc))
     else if int m mod 10 ^ nat (- sc) = 0 then JNum (sg (int m div 10 ^ nat (- sc)))
     else JFloat raw)"

definition signed_part :: "string \<Rightarrow> bool \<times> string" where
  "signed_part s = (case s of [] \<Rightarrow> (False, [])
     | c # cs \<Rightarrow> if c = CHR ''-'' then (True, cs) else if c = CHR ''+'' then (False, cs) else (False, s))"

definition js_number_str :: "string \<Rightarrow> jsval" where
  "js_number_str raw = (let s = js_trim raw; NaN = JFloat ''NaN'';
       radix = (\<lambda>b. case radix_nat b (drop 2 s) of Some n \<Rightarrow> JNum (int n) | None \<Rightarrow> NaN) in
     if s = [] then JNum 0
     else if take 2 s \<in> {''0x'', ''0X''} then radix 16
     else if take 2 s \<in> {''0o'', ''0O''} then radix 8
     else if take 2 s \<in> {''0b'', ''0B''} then radix 2
     else (let (neg, body) = signed_part s; ip = takeWhile is_digit body; r = dropWhile is_digit body;
         dot = (r \<noteq> [] \<and> hd r = CHR ''.'');
         fp = (if dot then takeWhile is_digit (tl r) else []);
         r2 = (if dot then dropWhile is_digit (tl r) else r) in
       if body = ''Infinity'' then JFloat (if neg then ''-Infinity'' else ''Infinity'')
       else if ip = [] \<and> fp = [] then NaN
       else if r2 = [] then decimal_num s neg (dec_nat (ip @ fp)) (- int (length fp))
       else if hd r2 = CHR ''e'' \<or> hd r2 = CHR ''E'' then
         (let (eneg, ed) = signed_part (tl r2) in
          if all_digits ed
          then decimal_num s neg (dec_nat (ip @ fp)) ((if eneg then - int (dec_nat ed) else int (dec_nat ed)) - int (length fp))
          else NaN)
       else NaN))"

fun js_number :: "jsval \<Rightarrow> jsval" where  \<comment> \<open>\<open>Number(v)\<close>\<close>
  "js_number JUndef = JFloat ''NaN''"
| "js_number JNull = JNum 0"
| "js_number (JBool b) = JNum (if b then 1 else 0)"
| "js_number (JNum n) = JNum n"
| "js_number (JFloat s) = JFloat s"
| "js_number (JBigInt n) = JNum n"
| "js_number (JStr s) = js_number_str s"
| "js_number v = js_number_str (js_string v)"

lemma js_number_digits: "all_digits s \<Longrightarrow> js_number_str s = JNum (int (dec_nat s))"
proof -
  assume a: "all_digits s"
  then have trim: "js_trim s = s"
    by (intro js_trim_id) (auto simp: all_digits_def list_all_iff is_digit_not_space)
  from a obtain c cs where s: "s = c # cs" "is_digit c" "list_all is_digit cs"
    by (cases s) (auto simp: all_digits_def)
  have nd: "\<not> is_digit (CHR ''x'')" "\<not> is_digit (CHR ''X'')" "\<not> is_digit (CHR ''o'')"
    "\<not> is_digit (CHR ''O'')" "\<not> is_digit (CHR ''b'')" "\<not> is_digit (CHR ''B'')"
    "\<not> is_digit (CHR ''-'')" "\<not> is_digit (CHR ''+'')" "\<not> is_digit (CHR ''I'')"
    by (simp_all add: is_digit_def)
  from s nd have pre: "take 2 s \<notin> {''0x'', ''0X''}" "take 2 s \<notin> {''0o'', ''0O''}" "take 2 s \<notin> {''0b'', ''0B''}"
    by (cases cs; auto)+
  from s nd have sg: "signed_part s = (False, s)" "s \<noteq> ''Infinity''" by (auto simp: signed_part_def)
  from a have w: "takeWhile is_digit s = s" "dropWhile is_digit s = []"
    by (auto simp: all_digits_def list_all_iff)
  from s(1) have "s \<noteq> []" by simp
  with pre sg w show ?thesis
    unfolding js_number_str_def Let_def trim by (simp add: decimal_num_def del: dropWhile_eq_Nil_conv takeWhile_eq_all_conv)
qed

text \<open>
  An environment: \<open>process.env\<close> has string values; a missing variable is undefined.
\<close>

type_synonym env = "string \<Rightarrow> string option"

definition env_val :: "env \<Rightarrow> string \<Rightarrow> jsval" where
  "env_val e k = (case e k of Some s \<Rightarrow> JStr s | None \<Rightarrow> JUndef)"

section \<open>Insertion-ordered maps\<close>

text \<open>
  A \<open>Map\<close> object is an association list in insertion order: \<open>AList.update\<close> overwrites in
  place or appends, \<open>AList.delete\<close> removes, \<open>map_of\<close> reads, \<open>length\<close> is \<open>size\<close>.
\<close>

type_synonym ('k, 'v) jmap = "('k \<times> 'v) list"

abbreviation jmap_wf :: "('k, 'v) jmap \<Rightarrow> bool" where
  "jmap_wf m \<equiv> distinct (map fst m)"

text \<open>A loop \<open>for (const [k, v] of m) if (p(k, v)) m.delete(k)\<close>.\<close>

definition jmap_evict :: "('k \<Rightarrow> 'v \<Rightarrow> bool) \<Rightarrow> ('k, 'v) jmap \<Rightarrow> ('k, 'v) jmap" where
  "jmap_evict p m = filter (\<lambda>(k, v). \<not> p k v) m"

lemma jmap_wf_update [simp, inv_intros]: "jmap_wf m \<Longrightarrow> jmap_wf (AList.update k v m)"
  by (rule distinct_update)

lemma jmap_wf_delete [simp, inv_intros]: "jmap_wf m \<Longrightarrow> jmap_wf (AList.delete k m)"
  by (rule distinct_delete)

lemma jmap_wf_evict [simp, inv_intros]: "jmap_wf m \<Longrightarrow> jmap_wf (jmap_evict p m)"
  unfolding jmap_evict_def by (induction m) auto

lemma map_of_evict:
  "jmap_wf m \<Longrightarrow> map_of (jmap_evict p m) k
     = (case map_of m k of Some v \<Rightarrow> if p k v then None else Some v | None \<Rightarrow> None)"
proof (induction m)
  case (Cons kv m)
  then show ?case
    by (cases kv) (auto simp: jmap_evict_def weak_map_of_SomeI split: option.splits
        dest: map_of_SomeD intro: rev_image_eqI)
qed (simp add: jmap_evict_def)

lemma map_of_update_eq [simp]: "map_of (AList.update k v m) k' = (if k' = k then Some v else map_of m k')"
  by (simp add: update_conv')

lemma map_of_delete_eq [simp]: "map_of (AList.delete k m) k' = (if k' = k then None else map_of m k')"
  by (simp add: delete_conv')

lemma length_update:
  "length (AList.update k v m) = (if k \<in> fst ` set m then length m else Suc (length m))"
  by (induction m) auto

lemma set_update_subset: "set (AList.update k v m) \<subseteq> insert (k, v) (set m)"
  by (induction m) auto

lemma update_memD: "(k', v') \<in> set (AList.update k v m) \<Longrightarrow> (k' = k \<and> v' = v) \<or> (k', v') \<in> set m"
  using set_update_subset by fastforce

lemma length_evict_le [simp]: "length (jmap_evict p m) \<le> length m"
  by (simp add: jmap_evict_def)

lemma set_evict_subset: "set (jmap_evict p m) \<subseteq> set m"
  by (auto simp: jmap_evict_def)

end
