(* ===== verification/Admission.thy ===== *)
theory Admission
  imports Prelude "HOL-Library.Sublist"
begin

text \<open>
  The admission policy: the parsers of \<^verbatim>\<open>src/lib/admission.mjs\<close> and \<open>resolveAdmission\<close> /
  \<open>resolveRootSources\<close> of \<^verbatim>\<open>src/gateway/gateway.mjs\<close>, which decide the root sources a gateway
  trusts and fail closed when a named source has no contract. The text of an error is kept up to
  its first parenthesis; the wording of warnings is left out and their number kept.
\<close>

section \<open>Parsers\<close>

definition ADMIT_ORDER :: "string list" where
  "ADMIT_ORDER = [''invited'', ''staked'', ''paid'']"

definition DEFAULT_ADMIT :: "string list" where
  "DEFAULT_ADMIT = [''invited'']"

definition PAY_PROTOCOL_ORDER :: "string list" where
  "PAY_PROTOCOL_ORDER = [''x402'', ''mpp'']"

definition admitPathOfSource :: "jsval \<Rightarrow> string option" where
  "admitPathOfSource label = (let s = js_string (js_nullish_or label (JStr [])) in
     if s \<in> {''members.json'', ''static'', ''invited''} then Some ''invited''
     else if s = ''staked'' \<or> starts_with s ''staked('' then Some ''staked''
     else if s = ''paid'' \<or> starts_with s ''paid('' then Some ''paid''
     else None)"

definition spec_raw :: "jsval \<Rightarrow> string" where  \<comment> \<open>\<open>String(spec ?? "").trim()\<close>\<close>
  "spec_raw spec = js_trim (js_string (js_nullish_or spec (JStr [])))"

definition spec_parts :: "jsval \<Rightarrow> string list" where
  "spec_parts spec = filter (\<lambda>p. p \<noteq> []) (map (\<lambda>x. js_lower (js_trim x)) (split_on (CHR '','') (spec_raw spec)))"

definition quoted :: "string \<Rightarrow> string" where
  "quoted s = [CHR 0x22] @ s @ [CHR 0x22]"

definition parse_list :: "string \<Rightarrow> string \<Rightarrow> string list \<Rightarrow> string list \<Rightarrow> string list res" where
  "parse_list name what order parts =
     (case find (\<lambda>p. p \<notin> set order) parts of
        Some p \<Rightarrow> Inl (Error (name @ '': unknown '' @ what @ '' '' @ quoted (take 16 p)
))
      | None \<Rightarrow>
          if parts = [] then Inl (Error (name @ '': no '' @ what @ '' selected''))
          else Inr (filter (\<lambda>p. p \<in> set parts) order))"

definition parseAdmit :: "string \<Rightarrow> jsval \<Rightarrow> string list res" where
  "parseAdmit name spec = parse_list name ''admission path'' ADMIT_ORDER (spec_parts spec)"

definition admitsFromRoots :: "jsval \<Rightarrow> bool \<Rightarrow> bool \<Rightarrow> string list res" where
  "admitsFromRoots spec hasStaked hasPaid = (let parts = spec_parts spec in
     case find (\<lambda>p. p \<noteq> ''static'' \<and> p \<noteq> ''onchain'') parts of
       Some p \<Rightarrow> Inl (Error (''SHADE_TREE_ROOTS: unknown source '' @ quoted (take 16 p)))
     | None \<Rightarrow>
         (let st = (''static'' \<in> set parts); on = (''onchain'' \<in> set parts) in
          if \<not> st \<and> \<not> on then Inl (Error ''SHADE_TREE_ROOTS: no source selected'')
          else if on \<and> \<not> hasStaked \<and> \<not> hasPaid
          then Inl (Error ''SHADE_TREE_ROOTS names onchain but no contract is configured'')
          else Inr ((if st then [''invited''] else []) @ (if on \<and> hasStaked then [''staked''] else [])
                 @ (if on \<and> hasPaid then [''paid''] else []))))"

definition describeAdmits :: "string list \<Rightarrow> string" where
  "describeAdmits admits = (let l = filter (\<lambda>p. p \<in> set admits) ADMIT_ORDER in
     ''admits: '' @ (if l = [] then ''(none)'' else join_with ''+'' l))"

definition parsePayProtocols :: "string \<Rightarrow> jsval \<Rightarrow> string list res" where
  "parsePayProtocols name spec =
     (if spec_raw spec = [] then Inr PAY_PROTOCOL_ORDER
      else parse_list name ''payment protocol'' PAY_PROTOCOL_ORDER (spec_parts spec))"

definition parseLeafSource :: "string \<Rightarrow> jsval \<Rightarrow> string res" where
  "parseLeafSource name spec = (let raw = js_lower (spec_raw spec) in
     if raw = [] \<or> raw = ''auto'' then Inr ''auto''
     else if raw \<in> set ADMIT_ORDER then Inr raw
     else Inl (Error (name @ '': expected auto, '' @ join_with '', '' ADMIT_ORDER @ '' (got '' @ quoted (take 16 raw) @ '')'')))"

definition envFlag :: "jsval \<Rightarrow> bool" where
  "envFlag v \<longleftrightarrow> js_lower (spec_raw v) \<in> {''1'', ''true'', ''yes'', ''on''}"

section \<open>The policy of a gateway\<close>

record root_contract =
  rc_address :: string
  rc_kind :: string

record admission_policy =
  ad_admits :: "string list"
  ad_static :: bool
  ad_onchain :: bool
  ad_contracts :: "root_contract list"
  ad_explicit :: bool
  ad_source :: string
  ad_warnings :: nat  \<comment> \<open>how many warnings are logged\<close>

definition contracts_of :: "string \<Rightarrow> root_contract list \<Rightarrow> root_contract list" where
  "contracts_of k cs = filter (\<lambda>c. rc_kind c = k) cs"

definition chosen_paths :: "jsval \<Rightarrow> jsval \<Rightarrow> root_contract list \<Rightarrow> (string list \<times> string \<times> nat) res" where
  "chosen_paths adm roots contracts =
     (if spec_raw adm \<noteq> [] then
        bind_res (parseAdmit ''SHADE_TREE_ADMIT'' (JStr (spec_raw adm))) (\<lambda>a.
          Inr (a, ''SHADE_TREE_ADMIT'', if spec_raw roots \<noteq> [] then 1 else 0))
      else if spec_raw roots \<noteq> [] then
        bind_res (admitsFromRoots (JStr (spec_raw roots)) (contracts_of ''staked'' contracts \<noteq> [])
            (contracts_of ''paid'' contracts \<noteq> [])) (\<lambda>a. Inr (a, ''SHADE_TREE_ROOTS'', 1))
      else Inr (DEFAULT_ADMIT, ''default'', if contracts \<noteq> [] then 1 else 0))"

definition resolveAdmission :: "jsval \<Rightarrow> jsval \<Rightarrow> root_contract list \<Rightarrow> admission_policy res" where
  "resolveAdmission adm roots contracts =
     bind_res (chosen_paths adm roots contracts) (\<lambda>(admits, source, warnings).
       if ''staked'' \<in> set admits \<and> contracts_of ''staked'' contracts = []
       then Inl (Error (source @ '' names staked but no StakedReputationSet is configured''))
       else if ''paid'' \<in> set admits \<and> contracts_of ''paid'' contracts = []
       then Inl (Error (source @ '' names paid but no PaidAccessSet is configured''))
       else (let admitted = filter (\<lambda>c. rc_kind c \<in> set admits) contracts in
         Inr \<lparr>ad_admits = admits, ad_static = (''invited'' \<in> set admits), ad_onchain = (admitted \<noteq> []),
              ad_contracts = admitted, ad_explicit = (source \<noteq> ''default''), ad_source = source,
              ad_warnings = warnings\<rparr>))"

definition resolveRootSources :: "jsval \<Rightarrow> root_contract list \<Rightarrow> (bool \<times> bool \<times> bool) res" where
  "resolveRootSources spec contracts =
     (if spec_raw spec = [] then Inr (True, False, False)
      else bind_res (admitsFromRoots (JStr (spec_raw spec)) (contracts_of ''staked'' contracts \<noteq> []) (contracts_of ''paid'' contracts \<noteq> []))
        (\<lambda>admits. Inr (''invited'' \<in> set admits, list_ex (\<lambda>p. p \<noteq> ''invited'') admits, True)))"

definition describeRootSources :: "bool \<Rightarrow> root_contract list \<Rightarrow> string" where
  "describeRootSources st contracts =
     (let parts = (if st then [''members.json''] else []) @ map (\<lambda>c. rc_kind c @ ''('' @ rc_address c @ '')'') contracts
      in ''roots: '' @ (if parts = [] then ''(none)'' else join_with '' + '' parts))"

section \<open>Lemmas\<close>

lemma parse_list_Inr:
  "parse_list name what order parts = Inr r \<longleftrightarrow> parts \<noteq> [] \<and> set parts \<subseteq> set order \<and> r = filter (\<lambda>p. p \<in> set parts) order"
proof (cases "find (\<lambda>p. p \<notin> set order) parts")
  case None
  then have "set parts \<subseteq> set order" by (auto simp: find_None_iff)
  with None show ?thesis by (auto simp: parse_list_def)
next
  case (Some p)
  then have "p \<in> set parts" "p \<notin> set order" using find_SomeD by fastforce+
  with Some show ?thesis by (auto simp: parse_list_def)
qed

lemma admitsFromRoots_Inr:
  assumes "admitsFromRoots spec s p = Inr r"
  shows "r \<noteq> [] \<and> subseq r ADMIT_ORDER"
proof -
  let ?st = "''static'' \<in> set (spec_parts spec)" and ?on = "''onchain'' \<in> set (spec_parts spec)"
  from assms have "?st \<or> ?on" "?on \<longrightarrow> s \<or> p"
    and r: "r = (if ?st then [''invited''] else []) @ (if ?on \<and> s then [''staked''] else []) @ (if ?on \<and> p then [''paid''] else [])"
    unfolding admitsFromRoots_def Let_def by (simp_all split: option.splits if_split_asm)
  then have "?st \<or> (?on \<and> s) \<or> (?on \<and> p)" by blast
  then have "r \<noteq> []" unfolding r by (cases ?st; cases "?on \<and> s"; cases "?on \<and> p"; simp)
  moreover have "subseq r ADMIT_ORDER"
    unfolding r ADMIT_ORDER_def by (cases ?st; cases "?on \<and> s"; cases "?on \<and> p"; simp)
  ultimately show ?thesis ..
qed

lemma parseAdmit_Inr:
  assumes "parseAdmit name spec = Inr r"
  shows "r \<noteq> [] \<and> subseq r ADMIT_ORDER"
proof -
  from assms have p: "spec_parts spec \<noteq> []" "set (spec_parts spec) \<subseteq> set ADMIT_ORDER"
      "r = filter (\<lambda>p. p \<in> set (spec_parts spec)) ADMIT_ORDER"
    by (simp_all add: parseAdmit_def parse_list_Inr)
  then obtain q where "q \<in> set (spec_parts spec)" "q \<in> set ADMIT_ORDER" by (cases "spec_parts spec") auto
  then have "r \<noteq> []" using p(3) by (auto simp: filter_empty_conv)
  with p(3) show ?thesis by (simp add: subseq_filter_left)
qed

section \<open>Properties\<close>

text \<open>
  C30: the admission policy fails closed and never widens silently. Whatever the two
  specifications, a resolved policy names a non-empty choice of paths in anonymity order, trusts
  exactly the configured contracts of the named kinds, has at least one contract behind each
  on-chain path it names, and, when neither variable is set, admits invited members only.
\<close>

theorem resolveAdmission_fail_closed:
  assumes "resolveAdmission adm roots contracts = Inr p"
    and kinds: "\<forall>c\<in>set contracts. rc_kind c \<in> {''staked'', ''paid''}"
  shows "ad_admits p \<noteq> [] \<and> subseq (ad_admits p) ADMIT_ORDER
    \<and> set (ad_contracts p) = {c \<in> set contracts. rc_kind c \<in> set (ad_admits p)}
    \<and> (\<forall>k\<in>set (ad_admits p). k = ''invited'' \<or> (\<exists>c\<in>set (ad_contracts p). rc_kind c = k))
    \<and> ad_static p = (''invited'' \<in> set (ad_admits p)) \<and> ad_onchain p = (ad_contracts p \<noteq> [])
    \<and> (spec_raw adm = [] \<and> spec_raw roots = [] \<longrightarrow> ad_admits p = [''invited''] \<and> ad_contracts p = [])"
proof -
  from assms(1) obtain a src w where sel: "chosen_paths adm roots contracts = Inr (a, src, w)"
    and staked: "''staked'' \<in> set a \<longrightarrow> contracts_of ''staked'' contracts \<noteq> []"
    and paid: "''paid'' \<in> set a \<longrightarrow> contracts_of ''paid'' contracts \<noteq> []"
    and p: "ad_admits p = a" "ad_static p = (''invited'' \<in> set a)" "ad_contracts p = filter (\<lambda>c. rc_kind c \<in> set a) contracts"
      "ad_onchain p = (ad_contracts p \<noteq> [])"
    unfolding resolveAdmission_def Let_def by (auto simp: bind_res_Inr_iff split: if_split_asm)
  have a: "a \<noteq> [] \<and> subseq a ADMIT_ORDER"
    using sel unfolding chosen_paths_def
    by (auto simp: bind_res_Inr_iff split: if_split_asm dest!: parseAdmit_Inr admitsFromRoots_Inr)
      (simp_all add: DEFAULT_ADMIT_def ADMIT_ORDER_def)
  have "set a \<subseteq> set ADMIT_ORDER" using a set_nths_subset subseq_conv_nths by metis
  moreover have "\<exists>c\<in>set (ad_contracts p). rc_kind c = k" if "k \<in> set a" "contracts_of k contracts \<noteq> []" for k
    using that p(3) by (auto simp: contracts_of_def filter_empty_conv)
  ultimately have backed: "\<forall>k\<in>set a. k = ''invited'' \<or> (\<exists>c\<in>set (ad_contracts p). rc_kind c = k)"
    using staked paid unfolding ADMIT_ORDER_def by auto
  have "spec_raw adm = [] \<and> spec_raw roots = [] \<longrightarrow> ad_admits p = [''invited''] \<and> ad_contracts p = []"
  proof
    assume "spec_raw adm = [] \<and> spec_raw roots = []"
    with sel have "a = [''invited'']" by (simp add: chosen_paths_def DEFAULT_ADMIT_def)
    with kinds p show "ad_admits p = [''invited''] \<and> ad_contracts p = []" by (auto simp: filter_empty_conv)
  qed
  with a p backed show ?thesis by auto
qed

theorem resolveAdmission_fail_closed_witness:
  "\<exists>p. resolveAdmission (JStr '' Paid,invited'') JUndef [\<lparr>rc_address = ''0xa'', rc_kind = ''staked''\<rparr>, \<lparr>rc_address = ''0xb'', rc_kind = ''paid''\<rparr>]
        = Inr p \<and> ad_admits p = [''invited'', ''paid''] \<and> set (ad_contracts p) = {\<lparr>rc_address = ''0xb'', rc_kind = ''paid''\<rparr>}"
proof -
  let ?cs = "[\<lparr>rc_address = ''0xa'', rc_kind = ''staked''\<rparr>, \<lparr>rc_address = ''0xb'', rc_kind = ''paid''\<rparr>]"
  obtain p where p: "resolveAdmission (JStr '' Paid,invited'') JUndef ?cs = Inr p" "ad_admits p = [''invited'', ''paid'']"
  proof -
    have "case resolveAdmission (JStr '' Paid,invited'') JUndef ?cs of Inr p \<Rightarrow> ad_admits p = [''invited'', ''paid''] | _ \<Rightarrow> False"
      by code_simp
    then show ?thesis using that by (cases "resolveAdmission (JStr '' Paid,invited'') JUndef ?cs") auto
  qed
  from resolveAdmission_fail_closed [OF p(1)] p(2)
  have "set (ad_contracts p) = {c \<in> set ?cs. rc_kind c \<in> {''invited'', ''paid''}}" by simp
  also have "\<dots> = {\<lparr>rc_address = ''0xb'', rc_kind = ''paid''\<rparr>}" by auto
  finally show ?thesis using p by blast
qed

end
