(* ===== verification/Onion.thy ===== *)
theory Onion
  imports Prelude "HOL-Library.Word"
begin

text \<open>
  Byte encodings and v3 onion addresses of \<^verbatim>\<open>src/lib/directory.mjs\<close>: the base-32 coder over
  32-bit shifts, hexadecimal buffers, and the conversion between an onion address and the ed25519
  key it encodes. A \<open>Buffer\<close> is a \<open>string\<close> whose characters are its bytes. SHA3-256 is an
  argument. The coder is related to the plain bit string it stands for, which gives both round
  trips.
\<close>

unbundle bit_operations_syntax

section \<open>Base 32\<close>

definition B32 :: string where
  "B32 = ''abcdefghijklmnopqrstuvwxyz234567''"

definition b32_index :: "char \<Rightarrow> nat option" where  \<comment> \<open>\<open>B32.indexOf\<close>, \<open>None\<close> for -1\<close>
  "b32_index c = find (\<lambda>i. B32 ! i = c) [0..<32]"

fun b32_decode_loop :: "string \<Rightarrow> 32 word \<Rightarrow> nat \<Rightarrow> string res" where
  "b32_decode_loop [] val bits = Inr []"
| "b32_decode_loop (ch # cs) val bits = (case b32_index ch of
     None \<Rightarrow> Inl (Error ''bad base32 char in onion'')
   | Some idx \<Rightarrow>
       let v = push_bit 5 val OR of_nat idx; b = bits + 5 in
       if b \<ge> 8
       then bind_res (b32_decode_loop cs v (b - 8)) (\<lambda>out. Inr (char_of (unat (signed_drop_bit (b - 8) v AND 0xff)) # out))
       else b32_decode_loop cs v b)"

definition base32Decode :: "string \<Rightarrow> string res" where
  "base32Decode s = b32_decode_loop (js_lower s) 0 0"

text \<open>The inner \<open>while\<close>: the characters it appends and the bits left.\<close>

fun b32_drain :: "32 word \<Rightarrow> nat \<Rightarrow> string \<times> nat" where
  "b32_drain val bits = (if bits \<ge> 5
     then (let b = bits - 5; (out, left) = b32_drain val b in (B32 ! unat (signed_drop_bit b val AND 31) # out, left))
     else ([], bits))"

declare b32_drain.simps [simp del]

fun b32_encode_loop :: "string \<Rightarrow> 32 word \<Rightarrow> nat \<Rightarrow> string" where
  "b32_encode_loop [] val bits = (if bits > 0 then [B32 ! unat (push_bit (5 - bits) val AND 31)] else [])"
| "b32_encode_loop (byte # bs) val bits =
     (let v = push_bit 8 val OR of_nat (of_char byte); (out, b) = b32_drain v (bits + 8) in out @ b32_encode_loop bs v b)"

definition base32Encode :: "string \<Rightarrow> string" where
  "base32Encode buf = b32_encode_loop buf 0 0"

section \<open>Hexadecimal buffers\<close>

text \<open>\<open>Buffer.from(s, "hex")\<close> stops at the first pair that is not two hex digits.\<close>

fun hex_decode :: "string \<Rightarrow> string" where
  "hex_decode (a # b # s) = (if radix_digit a < 16 \<and> radix_digit b < 16
     then char_of (16 * radix_digit a + radix_digit b) # hex_decode s else [])"
| "hex_decode s = []"

definition hex_encode :: "string \<Rightarrow> string" where  \<comment> \<open>\<open>buf.toString("hex")\<close>\<close>
  "hex_encode buf = concat (map (\<lambda>c. let n = (of_char c :: nat) in [hex_char (n div 16), hex_char (n mod 16)]) buf)"

section \<open>Addresses\<close>

definition onion_checksum :: "(string \<Rightarrow> string) \<Rightarrow> string \<Rightarrow> string" where
  "onion_checksum sha3 pubkey = take 2 (sha3 (''.onion checksum'' @ pubkey @ [CHR 0x03]))"

definition strip_onion :: "string \<Rightarrow> string" where  \<comment> \<open>\<open>.replace(/\\.onion$/, "")\<close>\<close>
  "strip_onion s = (if ends_with s ''.onion'' then take (length s - 6) s else s)"

definition onionToPubkey :: "(string \<Rightarrow> string) \<Rightarrow> string \<Rightarrow> string res" where
  "onionToPubkey sha3 onion = (let addr = js_lower (strip_onion onion) in
     if length addr \<noteq> 56 then Inl (Error ''not a v3 onion (expected 56 chars)'')
     else bind_res (base32Decode addr) (\<lambda>decoded.
       if length decoded \<noteq> 35 then Inl (Error ''v3 onion decodes to 35 bytes'')
       else let pubkey = take 32 decoded; checksum = take 2 (drop 32 decoded) in
         if decoded ! 34 \<noteq> CHR 0x03 then Inl (Error ''not onion version 3'')
         else if checksum \<noteq> onion_checksum sha3 pubkey then Inl (Error ''onion checksum mismatch'')
         else Inr (hex_encode pubkey)))"

definition pubkeyToOnion :: "(string \<Rightarrow> string) \<Rightarrow> string \<Rightarrow> string res" where
  "pubkeyToOnion sha3 pubHex = (let pubkey = hex_decode pubHex in
     if length pubkey \<noteq> 32 then Inl (Error ''pubkey must be 32 bytes'')
     else Inr (base32Encode (pubkey @ onion_checksum sha3 pubkey @ [CHR 0x03]) @ ''.onion''))"

section \<open>Bit strings\<close>

definition bitsn :: "nat \<Rightarrow> 'a::semiring_bits \<Rightarrow> bool list" where  \<comment> \<open>the low \<open>n\<close> bits, most significant first\<close>
  "bitsn n x = map (bit x) (rev [0..<n])"

lemma length_bitsn [simp]: "length (bitsn n x) = n" by (simp add: bitsn_def)
lemma bitsn_0 [simp]: "bitsn 0 x = []" by (simp add: bitsn_def)

lemma nth_bitsn: "i < n \<Longrightarrow> bitsn n x ! i = bit x (n - Suc i)"
  by (simp add: bitsn_def rev_nth)

lemma bitsn_eqI: "(\<And>i. i < n \<Longrightarrow> bit x i = bit y i) \<Longrightarrow> bitsn n x = bitsn n y"
  by (rule nth_equalityI) (auto simp: nth_bitsn)

lemma bitsn_inject:
  assumes "bitsn n x = bitsn n y" "(x::nat) < 2 ^ n" "y < 2 ^ n"
  shows "x = y"
proof (rule bit_eqI)
  fix i
  show "bit x i = bit y i"
  proof (cases "i < n")
    case True
    with assms(1) have "bitsn n x ! (n - Suc i) = bitsn n y ! (n - Suc i)" by simp
    with True show ?thesis by (simp add: nth_bitsn Suc_diff_Suc)
  next
    case False
    then have "2 ^ n \<le> (2::nat) ^ i" by (simp add: power_increasing)
    with assms(2,3) have "x < 2 ^ i" "y < 2 ^ i" by linarith+
    then show ?thesis by (simp add: bit_iff_odd)
  qed
qed

lemma bitsn_push:
  fixes v :: "32 word"
  assumes "m + n \<le> 32" "b < 2 ^ n"
  shows "bitsn (m + n) (push_bit n v OR of_nat b) = bitsn m v @ bitsn n b"
proof (rule nth_equalityI)
  fix i assume i: "i < length (bitsn (m + n) (push_bit n v OR of_nat b))"
  have hi: "\<not> bit b j" if "n \<le> j" for j
  proof -
    have "(2::nat) ^ n \<le> 2 ^ j" using that by (simp add: power_increasing)
    with assms(2) have "b < 2 ^ j" by linarith
    then show ?thesis by (simp add: bit_iff_odd)
  qed
  show "bitsn (m + n) (push_bit n v OR of_nat b) ! i = (bitsn m v @ bitsn n b) ! i"
  proof (cases "i < m")
    case True
    moreover have "m + n - Suc i - n = m - Suc i" by simp
    ultimately show ?thesis using i assms(1) hi by (auto simp: nth_bitsn nth_append bit_simps)
  next
    case False
    then have "\<not> n \<le> n + m - Suc i" "n + m - Suc i < 32" using i assms(1) by simp_all
    with False i show ?thesis by (simp add: nth_bitsn nth_append bit_simps add.commute [of m n])
  qed
qed simp

lemma bitsn_drop:
  fixes v :: "32 word"
  assumes "m + n \<le> 31"
  shows "bitsn m (unat (signed_drop_bit n v AND mask m)) @ bitsn n v = bitsn (m + n) v"
proof (rule nth_equalityI)
  fix i assume i: "i < length (bitsn m (unat (signed_drop_bit n v AND mask m)) @ bitsn n v)"
  with assms show "(bitsn m (unat (signed_drop_bit n v AND mask m)) @ bitsn n v) ! i = bitsn (m + n) v ! i"
    by (auto simp: nth_bitsn nth_append bit_simps unsigned_and_eq add.commute [of n m])
qed simp

section \<open>The coder and the bit string\<close>

lemma b32_index_Some: "b32_index c = Some i \<Longrightarrow> i < 32 \<and> B32 ! i = c"
  unfolding b32_index_def using find_SomeD by fastforce

lemma length_B32 [simp]: "length B32 = 32" by (simp add: B32_def)

lemma distinct_B32: "distinct B32" by (simp add: B32_def)

lemma b32_index_nth: "i < 32 \<Longrightarrow> b32_index (B32 ! i) = Some i"
proof -
  assume i: "i < 32"
  then have "b32_index (B32 ! i) \<noteq> None" by (auto simp: b32_index_def find_None_iff)
  then obtain j where j: "b32_index (B32 ! i) = Some j" by blast
  from b32_index_Some [OF this] i nth_eq_iff_index_eq [OF distinct_B32, of j i] have "i = j" by simp
  with j show ?thesis by simp
qed

definition b32_bits :: "char \<Rightarrow> bool list" where  \<comment> \<open>five bits of a character\<close>
  "b32_bits c = bitsn 5 (the (b32_index c))"

definition byte_bits :: "char \<Rightarrow> bool list" where
  "byte_bits c = bitsn 8 (of_char c :: nat)"

definition b32_string :: "string \<Rightarrow> bool" where
  "b32_string s \<longleftrightarrow> (\<forall>c\<in>set s. b32_index c \<noteq> None)"

lemma unat_and_mask: "unat ((v::32 word) AND mask n) < 2 ^ n"
  by (simp flip: take_bit_eq_mask add: unsigned_take_bit_eq take_bit_nat_less_exp)

lemma mask_literals: "(31::32 word) = mask 5" "(0xff::32 word) = mask 8"
  by (simp_all add: mask_eq_exp_minus_1)

lemma b32_bits_nth: "i < 32 \<Longrightarrow> b32_bits (B32 ! i) = bitsn 5 i"
  by (simp add: b32_bits_def b32_index_nth)

lemma b32_drain_bits:
  "b32_drain v b = (out, b') \<Longrightarrow> b \<le> 31 \<Longrightarrow>
     b' = b mod 5 \<and> b32_string out \<and> concat (map b32_bits out) @ bitsn b' v = bitsn b v"
proof (induction v b arbitrary: out b' rule: b32_drain.induct)
  case (1 v b)
  show ?case
  proof (cases "b \<ge> 5")
    case True
    obtain o1 b1 where d: "b32_drain v (b - 5) = (o1, b1)" by fastforce
    let ?i = "unat (signed_drop_bit (b - 5) v AND mask 5)"
    have i: "?i < 32" using unat_and_mask [of "signed_drop_bit (b - 5) v" 5] by simp
    from 1(2) d True have out: "out = B32 ! ?i # o1" "b' = b1"
      by (simp_all add: b32_drain.simps [of v b] mask_literals Let_def)
    have "b - 5 \<le> 31" using 1(3) by simp
    from 1(1) [OF True refl d this]
    have IH: "b1 = (b - 5) mod 5" "b32_string o1" "concat (map b32_bits o1) @ bitsn b1 v = bitsn (b - 5) v" by blast+
    have "bitsn 5 ?i @ bitsn (b - 5) v = bitsn b v"
      using bitsn_drop [of 5 "b - 5" v] True 1(3) by simp
    with IH i True show ?thesis by (simp add: out b32_bits_nth b32_string_def b32_index_nth mod_if)
  next
    case False
    with 1(2) show ?thesis by (simp add: b32_drain.simps [of v b] b32_string_def)
  qed
qed

lemma b32_encode_loop_bits:
  assumes "(b + 8 * length cs) mod 5 = 0" "b < 5"
  shows "b32_string (b32_encode_loop cs v b) \<and> concat (map b32_bits (b32_encode_loop cs v b)) = bitsn b v @ concat (map byte_bits cs)"
  using assms
proof (induction cs arbitrary: v b)
  case Nil
  then show ?case by (simp add: b32_string_def)
next
  case (Cons c cs)
  let ?v = "push_bit 8 v OR of_nat (of_char c)"
  obtain out b' where d: "b32_drain ?v (b + 8) = (out, b')" by fastforce
  from b32_drain_bits [OF d] Cons.prems(2)
  have D: "b' = (b + 8) mod 5" "b32_string out" "concat (map b32_bits out) @ bitsn b' ?v = bitsn (b + 8) ?v" by auto
  have "(b' + 8 * length cs) mod 5 = 0" using Cons.prems(1) D(1) by (simp add: mod_add_left_eq add.assoc)
  with D(1) have IH: "b32_string (b32_encode_loop cs ?v b')"
    "concat (map b32_bits (b32_encode_loop cs ?v b')) = bitsn b' ?v @ concat (map byte_bits cs)" using Cons.IH by auto
  have "bitsn (b + 8) ?v = bitsn b v @ byte_bits c"
    unfolding byte_bits_def using Cons.prems(2) by (intro bitsn_push) simp_all
  with D IH d show ?case by (auto simp: b32_string_def Let_def)
qed

lemma b32_decode_loop_bits:
  assumes "b < 8"
  shows "b32_decode_loop cs v b = Inr out \<Longrightarrow> (b + 5 * length cs) mod 8 = 0 \<Longrightarrow>
    b32_string cs \<and> concat (map byte_bits out) = bitsn b v @ concat (map b32_bits cs)"
  using assms
proof (induction cs arbitrary: v b out)
  case (Cons c cs)
  from Cons.prems(1) obtain i where i: "b32_index c = Some i" by (auto split: option.splits)
  then have i32: "i < 32" using b32_index_Some by blast
  let ?v = "push_bit 5 v OR of_nat i"
  have push: "bitsn (b + 5) ?v = bitsn b v @ b32_bits c"
    unfolding b32_bits_def using i i32 Cons.prems(3) bitsn_push [of b 5 i v] by simp
  show ?case
  proof (cases "b + 5 \<ge> 8")
    case True
    let ?x = "unat (signed_drop_bit (b + 5 - 8) ?v AND mask 8)"
    from Cons.prems(1) i True obtain o1 where o1: "b32_decode_loop cs ?v (b + 5 - 8) = Inr o1" "out = char_of ?x # o1"
      by (auto simp: Let_def bind_res_Inr_iff mask_literals)
    have "?x < 256" using unat_and_mask [of "signed_drop_bit (b + 5 - 8) ?v" 8] by simp
    then have "byte_bits (char_of ?x) @ bitsn (b + 5 - 8) ?v = bitsn (b + 5) ?v"
      using bitsn_drop [of 8 "b + 5 - 8" ?v] True Cons.prems(3) by (simp add: byte_bits_def add.commute [of b 5])
    moreover have "b32_string cs \<and> concat (map byte_bits o1) = bitsn (b + 5 - 8) ?v @ concat (map b32_bits cs)"
      using Cons.IH [OF o1(1)] Cons.prems(2,3) True by (simp add: mod_if)
    ultimately show ?thesis using push i o1(2) by (simp add: b32_string_def)
  next
    case False
    from Cons.prems(1) i False have "b32_decode_loop cs ?v (b + 5) = Inr out" by (simp add: Let_def)
    from Cons.IH [OF this] Cons.prems(2,3) False push i show ?thesis by (simp add: b32_string_def add.assoc)
  qed
qed (simp add: b32_string_def)

lemma b32_decode_loop_total: "b32_string cs \<Longrightarrow> \<exists>out. b32_decode_loop cs v b = Inr out"
proof (induction cs arbitrary: v b)
  case (Cons c cs)
  then obtain i where "b32_index c = Some i" by (auto simp: b32_string_def)
  with Cons show ?case by (fastforce simp: Let_def b32_string_def bind_res_Inr_iff)
qed simp

lemma concat_blocks_inject:
  assumes "\<And>x. x \<in> set xs \<union> set ys \<Longrightarrow> length (f x) = k" "inj_on f (set xs \<union> set ys)" "0 < k"
  shows "concat (map f xs) = concat (map f ys) \<Longrightarrow> xs = ys"
  using assms
proof (induction xs arbitrary: ys)
  case Nil
  then show ?case by (cases ys) auto
next
  case (Cons x xs)
  from Cons.prems(1,2,4) obtain y ys' where ys: "ys = y # ys'" by (cases ys) auto
  have "length (f x) = length (f y)" using Cons.prems(2) ys by simp
  with Cons.prems(1) ys have "f x = f y \<and> concat (map f xs) = concat (map f ys')" by simp
  moreover have "x = y" by (rule inj_onD [OF Cons.prems(3)]) (use calculation ys in auto)
  moreover have "inj_on f (set xs \<union> set ys')" by (rule inj_on_subset [OF Cons.prems(3)]) (auto simp: ys)
  ultimately show ?case using Cons.IH [of ys'] Cons.prems(2,4) ys by simp
qed

lemma byte_bits_inj: "inj byte_bits"
proof (rule injI)
  fix a b assume "byte_bits a = byte_bits b"
  then have "(of_char a :: nat) = of_char b" by (intro bitsn_inject [of 8]) (simp_all add: byte_bits_def)
  then show "a = b" by simp
qed

lemma b32_bits_inj: "b32_string s \<Longrightarrow> inj_on b32_bits (set s)"
proof (rule inj_onI)
  fix a b assume s: "b32_string s" "a \<in> set s" "b \<in> set s" and e: "b32_bits a = b32_bits b"
  then obtain i j where ij: "b32_index a = Some i" "b32_index b = Some j" unfolding b32_string_def by blast
  with e have "i = j" using b32_index_Some bitsn_inject [of 5 i j] by (auto simp: b32_bits_def)
  with ij b32_index_Some show "a = b" by blast
qed

lemma lower_b32: "b32_string s \<Longrightarrow> js_lower s = s"
proof -
  have "list_all (\<lambda>c. lower_char c = c) B32" by code_simp
  then have "c \<in> set B32 \<Longrightarrow> lower_char c = c" for c by (simp add: list_all_iff)
  moreover have "b32_index c \<noteq> None \<Longrightarrow> c \<in> set B32" for c
    using b32_index_Some [of c] by (auto simp: in_set_conv_nth)
  ultimately show "b32_string s \<Longrightarrow> js_lower s = s" by (auto simp: js_lower_def b32_string_def intro!: map_idI)
qed

lemma byte_bits_concat_inject: "concat (map byte_bits a) = concat (map byte_bits b) \<Longrightarrow> a = b"
  by (rule concat_blocks_inject [of a b byte_bits 8]) (auto simp: byte_bits_def intro: inj_on_subset [OF byte_bits_inj])

lemma b32_bits_concat_inject:
  "b32_string a \<Longrightarrow> b32_string b \<Longrightarrow> concat (map b32_bits a) = concat (map b32_bits b) \<Longrightarrow> a = b"
  using b32_bits_inj [of "a @ b"]
  by (intro concat_blocks_inject [of a b b32_bits 5]) (auto simp: b32_bits_def b32_string_def)

lemma base32Encode_bits:
  "8 * length buf mod 5 = 0 \<Longrightarrow> b32_string (base32Encode buf) \<and> concat (map b32_bits (base32Encode buf)) = concat (map byte_bits buf)"
  using b32_encode_loop_bits [of 0 buf 0] by (simp add: base32Encode_def)

lemma length_base32Encode:
  assumes "8 * length buf mod 5 = 0"
  shows "5 * length (base32Encode buf) = 8 * length buf"
proof -
  have "length (concat (map b32_bits s)) = 5 * length s" for s by (induction s) (simp_all add: b32_bits_def)
  moreover have "length (concat (map byte_bits s)) = 8 * length s" for s by (induction s) (simp_all add: byte_bits_def)
  ultimately show ?thesis using base32Encode_bits [OF assms] by metis
qed

lemma base32_decode_encode:
  assumes "8 * length buf mod 5 = 0"
  shows "base32Decode (base32Encode buf) = Inr buf"
proof -
  let ?s = "base32Encode buf"
  have s: "b32_string ?s" "concat (map b32_bits ?s) = concat (map byte_bits buf)" using base32Encode_bits [OF assms] by auto
  obtain out where out: "b32_decode_loop ?s 0 0 = Inr out" using b32_decode_loop_total [OF s(1)] by blast
  have "5 * length ?s mod 8 = 0" using length_base32Encode [OF assms] by simp
  with b32_decode_loop_bits [OF _ out] s have "out = buf" by (intro byte_bits_concat_inject) simp
  with out s lower_b32 show ?thesis by (simp add: base32Decode_def)
qed

lemma base32_encode_decode:
  assumes "base32Decode s = Inr buf" "5 * length s mod 8 = 0"
  shows "base32Encode buf = js_lower s \<and> 8 * length buf = 5 * length s"
proof -
  have d: "b32_string (js_lower s)" "concat (map byte_bits buf) = concat (map b32_bits (js_lower s))"
    using b32_decode_loop_bits [of 0 "js_lower s" 0 buf] assms by (simp_all add: base32Decode_def)
  have "length (concat (map b32_bits s)) = 5 * length s" for s by (induction s) (simp_all add: b32_bits_def)
  moreover have "length (concat (map byte_bits s)) = 8 * length s" for s by (induction s) (simp_all add: byte_bits_def)
  ultimately have len: "8 * length buf = 5 * length s" using d(2) by (metis length_js_lower)
  then have "8 * length buf mod 5 = 0" by simp
  from base32Encode_bits [OF this] d len show ?thesis by (auto intro: b32_bits_concat_inject)
qed

section \<open>Hexadecimal round trip\<close>

lemma radix_hex_char: "n < 16 \<Longrightarrow> radix_digit (hex_char n) = n"
  by (auto simp: hex_char_def Let_def)

lemma hex_decode_encode [simp]: "hex_decode (hex_encode buf) = buf"
proof (induction buf)
  case (Cons c buf)
  have n: "(of_char c :: nat) div 16 < 16" "(of_char c :: nat) mod 16 < 16" by (simp_all add: div_less_iff_less_mult)
  have "16 * ((of_char c :: nat) div 16) + of_char c mod 16 = of_char c" by simp
  with Cons n show ?case
    by (simp add: hex_encode_def Let_def radix_hex_char del: mult_div_mod_eq radix_digit.simps)
qed (simp add: hex_encode_def)

lemma length_hex_encode [simp]: "length (hex_encode buf) = 2 * length buf"
  by (induction buf) (simp_all add: hex_encode_def Let_def)

lemma hex_encode_Nil [simp]: "hex_encode buf = [] \<longleftrightarrow> buf = []"
  by (cases buf) (simp_all add: hex_encode_def Let_def)

lemma hex_encode_inject [simp]: "hex_encode a = hex_encode b \<longleftrightarrow> a = b"
  by (metis hex_decode_encode)

section \<open>Addresses and keys\<close>

lemma strip_onion_append: "strip_onion (s @ ''.onion'') = s"
  by (simp add: strip_onion_def ends_with_def)

lemma onion_of_key:
  assumes sha: "\<And>m. 2 \<le> length (sha3 m)" and k: "length k = 32"
  shows "pubkeyToOnion sha3 (hex_encode k) = Inr (base32Encode (k @ onion_checksum sha3 k @ [CHR 0x03]) @ ''.onion'')
    \<and> length (base32Encode (k @ onion_checksum sha3 k @ [CHR 0x03])) = 56
    \<and> b32_string (base32Encode (k @ onion_checksum sha3 k @ [CHR 0x03]))"
proof -
  let ?buf = "k @ onion_checksum sha3 k @ [CHR 0x03]"
  have len: "length ?buf = 35" using sha k by (simp add: onion_checksum_def)
  then have m: "8 * length ?buf mod 5 = 0" by simp
  from length_base32Encode [OF m] len base32Encode_bits [OF m] k show ?thesis by (simp add: pubkeyToOnion_def)
qed

lemma pubkey_of_onion_of_key:
  assumes sha: "\<And>m. 2 \<le> length (sha3 m)" and k: "length k = 32" and o: "pubkeyToOnion sha3 (hex_encode k) = Inr a"
  shows "onionToPubkey sha3 a = Inr (hex_encode k)"
proof -
  let ?buf = "k @ onion_checksum sha3 k @ [CHR 0x03]" and ?s = "base32Encode (k @ onion_checksum sha3 k @ [CHR 0x03])"
  from onion_of_key [of sha3, OF sha k] o have a: "a = ?s @ ''.onion''" and s: "length ?s = 56" "b32_string ?s" by auto
  have len: "length ?buf = 35" and c2: "length (onion_checksum sha3 k) = 2" using sha k by (simp_all add: onion_checksum_def)
  from len have "base32Decode ?s = Inr ?buf" by (intro base32_decode_encode) simp
  with a s lower_b32 [OF s(2)] len c2 k show ?thesis
    by (simp add: onionToPubkey_def strip_onion_append Let_def nth_append)
qed

lemma onion_of_pubkey_of_onion:
  assumes "onionToPubkey sha3 a = Inr h"
  shows "pubkeyToOnion sha3 h = Inr (js_lower (strip_onion a) @ ''.onion'') \<and> length (hex_decode h) = 32"
proof -
  let ?s = "js_lower (strip_onion a)"
  from assms obtain d where d: "base32Decode ?s = Inr d" "length d = 35" "length ?s = 56" "d ! 34 = CHR 0x03"
      "take 2 (drop 32 d) = onion_checksum sha3 (take 32 d)" and h: "h = hex_encode (take 32 d)"
    by (auto simp: onionToPubkey_def Let_def bind_res_Inr_iff split: if_split_asm)
  have "d = take 32 d @ take 2 (drop 32 d) @ [d ! 34]"
  proof (rule nth_equalityI)
    fix i assume "i < length d"
    then have "i = 34 \<or> i < 34" using d(2) by auto
    then show "d ! i = (take 32 d @ take 2 (drop 32 d) @ [d ! 34]) ! i" using d(2) by (auto simp: nth_append)
  qed (use d(2) in simp)
  then have "take 32 d @ onion_checksum sha3 (take 32 d) @ [CHR 0x03] = d" using d(4,5) by simp
  with base32_encode_decode [OF d(1)] d h show ?thesis by (simp add: pubkeyToOnion_def)
qed

text \<open>
  C32: address and key cannot disagree. Every 32-byte key has a v3 address, reading that address
  gives the key back, and any address that is accepted is, up to letter case and the
  \<^verbatim>\<open>.onion\<close> suffix, the one address of the key it is read as, so no two addresses name the same key.
\<close>

theorem onion_roundtrip:
  assumes sha: "\<And>m. 2 \<le> length (sha3 m)"
  shows "(length k = 32 \<longrightarrow> (\<exists>a. pubkeyToOnion sha3 (hex_encode k) = Inr a \<and> onionToPubkey sha3 a = Inr (hex_encode k)))
    \<and> (onionToPubkey sha3 b = Inr h \<longrightarrow> pubkeyToOnion sha3 h = Inr (js_lower (strip_onion b) @ ''.onion''))
    \<and> (onionToPubkey sha3 b = Inr h \<and> onionToPubkey sha3 c = Inr h \<longrightarrow> js_lower (strip_onion b) = js_lower (strip_onion c))"
proof (intro conjI impI)
  assume k: "length k = 32"
  obtain a where a: "pubkeyToOnion sha3 (hex_encode k) = Inr a" using onion_of_key [of sha3, OF sha k] by blast
  from pubkey_of_onion_of_key [of sha3, OF sha k a] a
  show "\<exists>a. pubkeyToOnion sha3 (hex_encode k) = Inr a \<and> onionToPubkey sha3 a = Inr (hex_encode k)" by blast
next
  assume "onionToPubkey sha3 b = Inr h"
  then show "pubkeyToOnion sha3 h = Inr (js_lower (strip_onion b) @ ''.onion'')" using onion_of_pubkey_of_onion by blast
next
  assume "onionToPubkey sha3 b = Inr h \<and> onionToPubkey sha3 c = Inr h"
  then show "js_lower (strip_onion b) = js_lower (strip_onion c)"
    using onion_of_pubkey_of_onion [of sha3 b h] onion_of_pubkey_of_onion [of sha3 c h] by auto
qed

theorem onion_roundtrip_witness:
  "\<exists>a. pubkeyToOnion (\<lambda>_. ''xy'') (hex_encode (replicate 32 (CHR ''k''))) = Inr a
     \<and> onionToPubkey (\<lambda>_. ''xy'') a = Inr (hex_encode (replicate 32 (CHR ''k'')))"
  using onion_roundtrip [of "\<lambda>_. ''xy''" "replicate 32 (CHR ''k'')"] by simp

end
