(* ===== verification/Artifacts.thy ===== *)
theory Artifacts
  imports Prelude
begin

text \<open>
  \<^verbatim>\<open>src/lib/zk-artifacts.mjs\<close>: the names of proving/verification key sets, the set a
  gateway accepts (\<open>loadArtifactSet\<close>, which fails closed on a mislabelled key), the lookup a
  proof envelope goes through (\<open>resolveArtifact\<close>) and the client's choice of a mutual set
  (\<open>selectArtifact\<close>). The file system is a map from absolute paths to contents, and the
  SHA-256 digest (hex) and the JSON reader are arguments.
\<close>

section \<open>Artifact identifiers\<close>

definition id_char :: "char \<Rightarrow> bool" where  \<comment> \<open>\<open>[a-z0-9]\<close>\<close>
  "id_char c \<longleftrightarrow> is_digit c \<or> (97 \<le> (of_char c :: nat) \<and> (of_char c :: nat) \<le> 122)"

definition artifact_id_re :: "string \<Rightarrow> bool" where  \<comment> \<open>\<open>ARTIFACT_ID_RE\<close>\<close>
  "artifact_id_re s \<longleftrightarrow> s \<noteq> [] \<and> id_char (hd s) \<and> length (tl s) \<le> 63
     \<and> list_all (\<lambda>c. id_char c \<or> c \<in> {CHR ''.'', CHR ''_'', CHR ''-''}) (tl s)"

fun isArtifactId :: "jsval \<Rightarrow> bool" where
  "isArtifactId (JStr s) = artifact_id_re s"
| "isArtifactId _ = False"

definition ARTIFACT_ID_HASH_CHARS :: nat where
  "ARTIFACT_ID_HASH_CHARS = 16"

definition artifactIdOf :: "(string \<Rightarrow> string) \<Rightarrow> string \<Rightarrow> string \<Rightarrow> string" where
  "artifactIdOf sha256 circuit vkeyBytes =
     circuit @ ''-'' @ take ARTIFACT_ID_HASH_CHARS (sha256 vkeyBytes)"

section \<open>The gateway's accepted set\<close>

record artifact_entry =
  ae_vkey :: jsval
  ae_path :: string
  ae_sha256 :: string

record artifact_set =
  as_accepted :: "(string, artifact_entry) jmap"
  as_ids :: "string list"
  as_legacyId :: string
  as_legacyAccepted :: bool
  as_explicit :: bool
  as_builtinId :: string

text \<open>The surroundings of the loader: files, the hash and the JSON reader (\<open>None\<close> is a throw).\<close>

record artifact_env =
  fs :: "string \<Rightarrow> string option"
  sha256 :: "string \<Rightarrow> string"
  json_parse :: "string \<Rightarrow> jsval option"
  repo_root :: string
  builtin_path :: string
  lock_path :: string

fun indexOf :: "char \<Rightarrow> string \<Rightarrow> nat option" where  \<comment> \<open>\<open>None\<close> is \<open>-1\<close>\<close>
  "indexOf c [] = None"
| "indexOf c (x # xs) = (if x = c then Some 0 else map_option Suc (indexOf c xs))"

fun parseArtifactItems :: "string list \<Rightarrow> (string option \<times> string) list res" where
  "parseArtifactItems [] = Inr []"
| "parseArtifactItems (raw # rest) =
     (let item = js_trim raw in
      if item = [] then parseArtifactItems rest
      else case indexOf (CHR ''='') item of
        None \<Rightarrow> bind_res (parseArtifactItems rest) (\<lambda>out. Inr ((None, item) # out))
      | Some eq \<Rightarrow>
          let i = js_trim (take eq item); p = js_trim (drop (Suc eq) item) in
          if \<not> artifact_id_re i then Inl (Error ''SHADE_TREE_ZK_ARTIFACTS: bad artifact id'')
          else if p = [] then Inl (Error ''SHADE_TREE_ZK_ARTIFACTS: missing vkey path'')
          else bind_res (parseArtifactItems rest) (\<lambda>out. Inr ((Some i, p) # out)))"

definition parseArtifactSpec :: "string \<Rightarrow> (string option \<times> string) list res" where
  "parseArtifactSpec spec = parseArtifactItems (split_on (CHR '','') spec)"

definition abs_path :: "string \<Rightarrow> string \<Rightarrow> string" where  \<comment> \<open>\<open>isAbsolute(p) ? p : resolve(root, p)\<close>\<close>
  "abs_path root p = (if starts_with p ''/'' then p else root @ ''/'' @ p)"

fun looks_like_vkey :: "jsval \<Rightarrow> bool" where
  "looks_like_vkey v \<longleftrightarrow> is_object v \<and> (case getp v ''IC'' of JArr _ \<Rightarrow> True | _ \<Rightarrow> False)"

text \<open>The loop of \<open>loadArtifactSet\<close> over the declared entries.\<close>

fun loadEntries ::
  "artifact_env \<Rightarrow> string \<Rightarrow> (string option \<times> string) list \<Rightarrow> (string, artifact_entry) jmap
     \<Rightarrow> (string, artifact_entry) jmap res" where
  "loadEntries E circuit [] acc = Inr acc"
| "loadEntries E circuit ((declared, p) # rest) acc =
     (let abs = abs_path (repo_root E) p in
      case fs E abs of
        None \<Rightarrow> Inl (Error ''SHADE_TREE_ZK_ARTIFACTS: vkey not found'')
      | Some bytes \<Rightarrow> (case json_parse E bytes of
          None \<Rightarrow> Inl (Error ''SHADE_TREE_ZK_ARTIFACTS: not a JSON verification key'')
        | Some vkey \<Rightarrow>
            if \<not> looks_like_vkey vkey
            then Inl (Error ''SHADE_TREE_ZK_ARTIFACTS: does not look like a snarkjs verification key'')
            else let derived = artifactIdOf (sha256 E) circuit bytes in
              if declared \<noteq> None \<and> declared \<noteq> Some derived
              then Inl (Error ''SHADE_TREE_ZK_ARTIFACTS: artifact id mismatch'')
              else if map_of acc derived \<noteq> None
              then Inl (Error ''SHADE_TREE_ZK_ARTIFACTS: duplicate artifact id'')
              else loadEntries E circuit rest
                (AList.update derived \<lparr>ae_vkey = vkey, ae_path = abs, ae_sha256 = sha256 E bytes\<rparr> acc)))"

definition lockArtifactIds :: "artifact_env \<Rightarrow> (string option \<times> string option) option" where
  "lockArtifactIds E =
     (case Option.bind (fs E (lock_path E)) (json_parse E) of
        None \<Rightarrow> None
      | Some lock \<Rightarrow>
          let circuits = (if nullish lock then JUndef else getp lock ''circuits'');
              c = js_or (if nullish circuits then JUndef else getp circuits ''rln'') (JObj []);
              idOf = (\<lambda>k. case getp c k of JStr s \<Rightarrow> if artifact_id_re s then Some s else None | _ \<Rightarrow> None)
          in Some (idOf ''artifactId'', idOf ''previousArtifactId''))"

text \<open>Which identifier an envelope without an \<open>artifact\<close> field means.\<close>

definition legacyIdFor :: "artifact_env \<Rightarrow> string \<Rightarrow> string option \<Rightarrow> string res" where
  "legacyIdFor E builtinId legacyEnv =
     (let configured = (case legacyEnv of None \<Rightarrow> [] | Some l \<Rightarrow> js_trim l) in
      if configured \<noteq> []
      then (if artifact_id_re configured then Inr configured
            else Inl (Error ''SHADE_TREE_ZK_ARTIFACT_LEGACY: bad artifact id''))
      else Inr (case lockArtifactIds E of Some (_, Some p) \<Rightarrow> p | _ \<Rightarrow> builtinId))"

definition loadArtifactSet ::
  "artifact_env \<Rightarrow> string \<Rightarrow> string option \<Rightarrow> string option \<Rightarrow> artifact_set res" where
  "loadArtifactSet E circuit spec legacyEnv =
     (let explicit = (case spec of None \<Rightarrow> False | Some s \<Rightarrow> js_trim s \<noteq> []) in
      bind_res (if explicit then parseArtifactSpec (the spec) else Inr [(None, builtin_path E)]) (\<lambda>entries.
      if entries = [] then Inl (Error ''SHADE_TREE_ZK_ARTIFACTS is set but names no artifact'')
      else bind_res (loadEntries E circuit entries []) (\<lambda>accepted.
        let ids = sort (map fst accepted);
            builtinId = (case fs E (builtin_path E) of
                Some bytes \<Rightarrow> artifactIdOf (sha256 E) circuit bytes | None \<Rightarrow> hd ids)
        in bind_res (legacyIdFor E builtinId legacyEnv) (\<lambda>legacyId.
          Inr \<lparr>as_accepted = accepted, as_ids = ids, as_legacyId = legacyId,
            as_legacyAccepted = (map_of accepted legacyId \<noteq> None),
            as_explicit = explicit, as_builtinId = builtinId\<rparr>))))"

section \<open>Resolving an envelope's claim\<close>

datatype artifact_resolution =
    ArtifactOk string jsval
  | ArtifactReject (ar_reason: string) (ar_label: string) (ar_ids: "string list")

definition artifactRepr :: "jsval \<Rightarrow> string" where
  "artifactRepr v = (case v of
      JStr s \<Rightarrow> json_quote (take 16 s)
    | JNum n \<Rightarrow> int_dec n
    | JFloat s \<Rightarrow> s
    | JBool b \<Rightarrow> (if b then ''true'' else ''false'')
    | _ \<Rightarrow> typeof v)"

definition resolveId :: "string \<Rightarrow> artifact_set \<Rightarrow> artifact_resolution" where
  "resolveId i S = (case map_of (as_accepted S) i of
      Some hit \<Rightarrow> ArtifactOk i (ae_vkey hit)
    | None \<Rightarrow>
        if i = as_legacyId S
        then ArtifactReject (''artifact-retired:'' @ i) ''artifact-retired'' (as_ids S)
        else ArtifactReject (''artifact-unknown:'' @ i) ''artifact-unknown'' (as_ids S))"

definition resolveArtifact :: "jsval \<Rightarrow> artifact_set \<Rightarrow> artifact_resolution" where
  "resolveArtifact field S = (case field of
      JUndef \<Rightarrow> resolveId (as_legacyId S) S
    | JNull \<Rightarrow> resolveId (as_legacyId S) S
    | JStr s \<Rightarrow> if artifact_id_re s then resolveId s S
        else ArtifactReject (''bad-artifact:'' @ artifactRepr field) ''bad-artifact'' (as_ids S)
    | _ \<Rightarrow> ArtifactReject (''bad-artifact:'' @ artifactRepr field) ''bad-artifact'' (as_ids S))"

section \<open>The client's pick\<close>

datatype pick = PickOk string | PickFail string

fun str_items :: "jsval list \<Rightarrow> string list" where  \<comment> \<open>\<open>xs.filter(isArtifactId)\<close>\<close>
  "str_items [] = []"
| "str_items (JStr s # vs) = (if artifact_id_re s then s # str_items vs else str_items vs)"
| "str_items (v # vs) = str_items vs"

definition selectArtifact :: "jsval list option \<Rightarrow> jsval list \<Rightarrow> pick" where
  "selectArtifact gatewayIds clientIds =
     (let mine = str_items clientIds in
      if mine = [] then PickFail ''no-client-artifact''
      else case gatewayIds of
        None \<Rightarrow> PickOk (hd mine)
      | Some [] \<Rightarrow> PickOk (hd mine)
      | Some gs \<Rightarrow>
          let theirs = str_items gs in
          (case filter (\<lambda>i. i \<in> set theirs) mine of
             i # _ \<Rightarrow> PickOk i
           | [] \<Rightarrow> PickFail (''no-mutual-artifact:client='' @ join_with ''|'' mine
                @ '',gateway='' @ join_with ''|'' (sort (remdups theirs)))))"

record prover_set =
  ps_id :: string
  ps_wasm :: string
  ps_zkey :: string
  ps_vkey :: string

fun loadProverEntries ::
  "artifact_env \<Rightarrow> string \<Rightarrow> (string option \<times> string) list \<Rightarrow> string list \<Rightarrow> prover_set list res" where
  "loadProverEntries E circuit [] seen = Inr []"
| "loadProverEntries E circuit ((declared, p) # rest) seen =
     (let dir = abs_path (repo_root E) p;
          vkeyPath = dir @ ''/verification_key.json'';
          wasm = dir @ ''/rln.wasm''; zkey = dir @ ''/rln_final.zkey'' in
      case fs E vkeyPath of
        None \<Rightarrow> Inl (Error ''SHADE_TREE_ZK_PROVER_ARTIFACTS: missing'')
      | Some bytes \<Rightarrow>
          if fs E wasm = None \<or> fs E zkey = None
          then Inl (Error ''SHADE_TREE_ZK_PROVER_ARTIFACTS: missing'')
          else let derived = artifactIdOf (sha256 E) circuit bytes in
            if declared \<noteq> None \<and> declared \<noteq> Some derived
            then Inl (Error ''SHADE_TREE_ZK_PROVER_ARTIFACTS: artifact id mismatch'')
            else if derived \<in> set seen
            then Inl (Error ''SHADE_TREE_ZK_PROVER_ARTIFACTS: duplicate artifact id'')
            else bind_res (loadProverEntries E circuit rest (derived # seen))
              (\<lambda>out. Inr (\<lparr>ps_id = derived, ps_wasm = wasm, ps_zkey = zkey, ps_vkey = vkeyPath\<rparr> # out)))"

text \<open>The unset case returns the built-in set, whose identifier is read from the shipped key file.\<close>

definition loadProverSets :: "artifact_env \<Rightarrow> string \<Rightarrow> prover_set \<Rightarrow> string option \<Rightarrow> prover_set list res" where
  "loadProverSets E circuit builtin spec =
     (case spec of
        None \<Rightarrow> Inr [builtin]
      | Some s \<Rightarrow> if js_trim s = [] then Inr [builtin]
          else bind_res (parseArtifactSpec s) (\<lambda>entries.
            bind_res (loadProverEntries E circuit entries []) (\<lambda>out.
              if out = [] then Inl (Error ''SHADE_TREE_ZK_PROVER_ARTIFACTS is set but names no artifact'')
              else Inr out)))"

section \<open>Lemmas\<close>

lemma loadEntries_content:
  assumes "loadEntries E circuit es acc = Inr m"
    and "\<And>i e. (i, e) \<in> set acc \<Longrightarrow> \<exists>bytes. fs E (ae_path e) = Some bytes
        \<and> i = artifactIdOf (sha256 E) circuit bytes \<and> json_parse E bytes = Some (ae_vkey e)"
    and "(i, e) \<in> set m"
  shows "\<exists>bytes. fs E (ae_path e) = Some bytes
        \<and> i = artifactIdOf (sha256 E) circuit bytes \<and> json_parse E bytes = Some (ae_vkey e)"
  using assms
proof (induction E circuit es acc rule: loadEntries.induct)
  case (2 E circuit declared p rest acc)
  then show ?case
    apply (simp add: Let_def split: option.splits if_splits)
    subgoal for bytes vkey
      by (rule "2.IH") (auto dest!: update_memD)
    done
qed auto

lemma loadEntries_wf: "loadEntries E circuit es acc = Inr m \<Longrightarrow> jmap_wf acc \<Longrightarrow> jmap_wf m"
  by (induction E circuit es acc rule: loadEntries.induct)
     (auto simp: Let_def split: option.splits if_splits)

lemma loadArtifactSet_accepted:
  assumes "loadArtifactSet E circuit spec legacyEnv = Inr S"
  shows "\<exists>entries. loadEntries E circuit entries [] = Inr (as_accepted S)
    \<and> as_ids S = sort (map fst (as_accepted S))
    \<and> as_legacyAccepted S = (map_of (as_accepted S) (as_legacyId S) \<noteq> None)"
proof -
  from assms obtain entries where "(if entries = [] then Inl (Error ''SHADE_TREE_ZK_ARTIFACTS is set but names no artifact'')
      else bind_res (loadEntries E circuit entries []) (\<lambda>accepted.
        let ids = sort (map fst accepted);
            builtinId = (case fs E (builtin_path E) of
                Some bytes \<Rightarrow> artifactIdOf (sha256 E) circuit bytes | None \<Rightarrow> hd ids)
        in bind_res (legacyIdFor E builtinId legacyEnv) (\<lambda>legacyId.
          Inr \<lparr>as_accepted = accepted, as_ids = ids, as_legacyId = legacyId,
            as_legacyAccepted = (map_of accepted legacyId \<noteq> None),
            as_explicit = (case spec of None \<Rightarrow> False | Some s \<Rightarrow> js_trim s \<noteq> []), as_builtinId = builtinId\<rparr>))) = Inr S"
    unfolding loadArtifactSet_def Let_def bind_res_Inr_iff by blast
  then show ?thesis
    by (cases "entries = []") (auto simp: Let_def bind_res_Inr_iff)
qed

lemma resolveArtifact_Ok_iff:
  "resolveArtifact field S = ArtifactOk i vk \<longleftrightarrow>
     (\<exists>e. map_of (as_accepted S) i = Some e \<and> vk = ae_vkey e) \<and>
     (if nullish field then i = as_legacyId S else field = JStr i \<and> artifact_id_re i)"
  by (cases field) (auto simp: resolveArtifact_def resolveId_def split: option.splits if_splits)

lemma filter_hd_first:
  assumes "filter P xs = x # ys"
  shows "\<exists>us vs. xs = us @ x # vs \<and> (\<forall>u\<in>set us. \<not> P u) \<and> P x"
proof -
  from assms obtain us vs where "xs = us @ x # vs" "\<forall>u\<in>set us. \<not> P u" "P x"
    by (auto simp: filter_eq_Cons_iff)
  then show ?thesis by blast
qed

end
