(* ===== verification/Caps.thy ===== *)
theory Caps
  imports Onion Artifacts
begin

text \<open>
  Signed statements of \<^verbatim>\<open>src/lib/directory.mjs\<close>: ed25519 over raw hexadecimal keys, and the
  gateway capability advertisement with its canonical form. The signature scheme, SHA3-256 and
  \<open>Buffer.from\<close> on values that are not strings are the record \<open>dir_lib\<close>.
\<close>

section \<open>Signatures\<close>

record dir_lib =
  sha3 :: "string \<Rightarrow> string"
  ed_verify :: "string \<Rightarrow> string \<Rightarrow> string \<Rightarrow> bool res"  \<comment> \<open>message, raw key, signature\<close>
  ed_sign :: "string \<Rightarrow> string \<Rightarrow> string"                \<comment> \<open>message, seed\<close>
  ed_pub :: "string \<Rightarrow> string"                           \<comment> \<open>raw key of a seed\<close>
  buffer_other :: "jsval \<Rightarrow> string res"

definition utf8_char :: "char \<Rightarrow> string" where
  "utf8_char c = (let n = (of_char c :: nat) in if n < 128 then [c] else [char_of (192 + n div 64), char_of (128 + n mod 64)])"

definition utf8 :: "string \<Rightarrow> string" where  \<comment> \<open>\<open>Buffer.from(s, "utf8")\<close>\<close>
  "utf8 s = concat (map utf8_char s)"

definition buffer_hex :: "dir_lib \<Rightarrow> jsval \<Rightarrow> string res" where  \<comment> \<open>\<open>Buffer.from(v, "hex")\<close>\<close>
  "buffer_hex L v = (case v of JStr s \<Rightarrow> Inr (hex_decode s) | _ \<Rightarrow> buffer_other L v)"

definition ed25519PublicKey :: "string \<Rightarrow> string res" where
  "ed25519PublicKey rawHex = (let raw = hex_decode rawHex in
     if length raw \<noteq> 32 then Inl (Error ''ed25519 pubkey must be 32 bytes'') else Inr raw)"

definition ed25519PrivateKey :: "string \<Rightarrow> string res" where
  "ed25519PrivateKey rawHex = (let raw = hex_decode rawHex in
     if length raw \<noteq> 32 then Inl (Error ''ed25519 seed must be 32 bytes'') else Inr raw)"

definition ed25519Sign :: "dir_lib \<Rightarrow> string \<Rightarrow> string \<Rightarrow> string res" where
  "ed25519Sign L msg privHex = bind_res (ed25519PrivateKey privHex) (\<lambda>k. Inr (hex_encode (ed_sign L msg k)))"

definition ed25519Verify :: "dir_lib \<Rightarrow> string \<Rightarrow> jsval \<Rightarrow> string \<Rightarrow> bool" where
  "ed25519Verify L msg sig pubHex =
     (case bind_res (ed25519PublicKey pubHex) (\<lambda>k. bind_res (buffer_hex L sig) (\<lambda>s. ed_verify L msg k s)) of
        Inr ok \<Rightarrow> ok | Inl _ \<Rightarrow> False)"

definition ed25519PubFromSeed :: "dir_lib \<Rightarrow> string \<Rightarrow> string res" where
  "ed25519PubFromSeed L seedHex = bind_res (ed25519PrivateKey seedHex) (\<lambda>k. Inr (hex_encode (ed_pub L k)))"

definition verifyOnionControl :: "dir_lib \<Rightarrow> string \<Rightarrow> string \<Rightarrow> jsval \<Rightarrow> bool" where
  "verifyOnionControl L onion challenge sig = (case onionToPubkey (sha3 L) onion of
     Inl _ \<Rightarrow> False | Inr pub \<Rightarrow> ed25519Verify L challenge sig pub)"

section \<open>Capabilities\<close>

definition CAPS_DOMAIN :: string where
  "CAPS_DOMAIN = ''Shade Tree gateway capabilities v1'' @ [CHR 0x0A]"

definition PRE_V4_CAPS_DOMAIN :: string where
  "PRE_V4_CAPS_DOMAIN = ''RGOE gateway capabilities v1'' @ [CHR 0x0A]"

definition REGION_BUCKETS :: "string list" where
  "REGION_BUCKETS = [''na'', ''sa'', ''eu'', ''af'', ''as'', ''oc'', ''aq'', ''unknown'']"

definition MAX_CAPS_ARTIFACTS :: nat where "MAX_CAPS_ARTIFACTS = 8"
definition MAX_CAPS_PAY_TIERS :: nat where "MAX_CAPS_PAY_TIERS = 8"

definition ADMIT_PATHS :: "string list" where
  "ADMIT_PATHS = [''invited'', ''staked'', ''paid'']"

definition PAY_PROTOCOLS :: "string list" where
  "PAY_PROTOCOLS = [''x402'', ''mpp'']"

definition onion_re :: "string \<Rightarrow> bool" where  \<comment> \<open>\<open>ONION_RE\<close>\<close>
  "onion_re s \<longleftrightarrow> length s = 62 \<and> drop 56 s = ''.onion'' \<and> list_all (\<lambda>c. b32_index c \<noteq> None) (take 56 s)"

definition nonzero_digits :: "nat \<Rightarrow> string \<Rightarrow> bool" where  \<comment> \<open>\<open>/^[1-9][0-9]{0,n}$/\<close>\<close>
  "nonzero_digits n s \<longleftrightarrow> all_digits s \<and> hd s \<noteq> CHR ''0'' \<and> length s \<le> Suc n"

definition chain_re :: "string \<Rightarrow> bool" where  \<comment> \<open>\<open>CHAIN_RE\<close>\<close>
  "chain_re s \<longleftrightarrow> take 7 s = ''eip155:'' \<and> nonzero_digits 15 (drop 7 s)"

definition asset_re :: "string \<Rightarrow> bool" where  \<comment> \<open>\<open>ASSET_RE\<close>\<close>
  "asset_re s \<longleftrightarrow> take 2 s = ''0x'' \<and> length s = 42 \<and> list_all (\<lambda>c. radix_digit c < 16) (drop 2 s)"

fun strings_of :: "jsval \<Rightarrow> string list" where  \<comment> \<open>the string elements of an array; \<open>[]\<close> for anything else\<close>
  "strings_of (JArr vs) = concat (map (\<lambda>v. case v of JStr s \<Rightarrow> [s] | _ \<Rightarrow> []) vs)"
| "strings_of _ = []"

fun plain_object :: "jsval \<Rightarrow> bool" where  \<comment> \<open>an object that is not an array\<close>
  "plain_object (JObj _) = True"
| "plain_object _ = False"

fun positive_safe :: "jsval \<Rightarrow> bool" where
  "positive_safe (JNum n) = (0 < n \<and> n \<le> MAX_SAFE_INTEGER)"
| "positive_safe _ = False"

definition canonicalRate :: "jsval \<Rightarrow> jsval option" where
  "canonicalRate rate =
     (if \<not> plain_object rate then None
      else if getp rate ''scope'' \<noteq> JStr ''grove-v4'' \<or> getp rate ''window'' \<noteq> JStr ''fixed'' then None
      else if \<not> list_all (\<lambda>f. positive_safe (getp rate f)) [''epochSeconds'', ''rootFreshnessSeconds'', ''payloadBytesPerSlot''] then None
      else if getp rate ''previousEpochsAccepted'' \<noteq> JNum 1 then None
      else Some (JObj [(''scope'', JStr ''grove-v4''), (''window'', JStr ''fixed''), (''epochSeconds'', getp rate ''epochSeconds''),
        (''previousEpochsAccepted'', JNum 1), (''rootFreshnessSeconds'', getp rate ''rootFreshnessSeconds''),
        (''payloadBytesPerSlot'', getp rate ''payloadBytesPerSlot'')]))"

definition canonicalAdmits :: "jsval \<Rightarrow> string list" where
  "canonicalAdmits v = filter (\<lambda>p. p \<in> set (map js_lower (strings_of v))) ADMIT_PATHS"

text \<open>A price: a string as it is, a positive integer printed. From \<open>10\<^sup>21\<close> on an integer prints with
  an exponent, which \<open>TIER_PRICE_RE\<close> refuses.\<close>

definition tier_price :: "jsval \<Rightarrow> string option" where
  "tier_price v = (case (case v of JStr s \<Rightarrow> Some s | JNum n \<Rightarrow> if 0 < n \<and> n < 10 ^ 21 then Some (int_dec n) else None | _ \<Rightarrow> None) of
     Some p \<Rightarrow> if nonzero_digits 39 p then Some p else None | None \<Rightarrow> None)"

fun object_keys :: "jsval \<Rightarrow> string list" where  \<comment> \<open>\<open>Object.keys\<close>, up to order\<close>
  "object_keys (JObj kvs) = remdups (map fst kvs)"
| "object_keys _ = []"

definition canonical_tiers :: "jsval \<Rightarrow> (string \<times> jsval) list" where
  "canonical_tiers tiers =
     concat (map (\<lambda>k. case tier_price (getp tiers k) of Some p \<Rightarrow> [(k, JStr p)] | None \<Rightarrow> [])
       (sort_key dec_nat (filter (\<lambda>k. nonzero_digits 4 k \<and> dec_nat k \<le> 65535) (object_keys tiers))))"

definition pay_onion :: "jsval \<Rightarrow> (string \<times> jsval) list" where
  "pay_onion v = (case v of JStr s \<Rightarrow> if onion_re (js_lower s) then [(''onion'', JStr (js_lower s))] else [] | _ \<Rightarrow> [])"

definition canonicalPay :: "jsval \<Rightarrow> jsval option" where
  "canonicalPay pay =
     (if \<not> plain_object pay then None
      else let protocols = filter (\<lambda>p. p \<in> set (map js_lower (strings_of (getp pay ''protocols'')))) PAY_PROTOCOLS in
      if protocols = [] then None
      else let onion = pay_onion (getp pay ''onion'') in
      case getp pay ''port'' of JNum port \<Rightarrow>
        if port < 1 \<or> port > 65535 then None
        else (case getp pay ''asset'' of JStr asset \<Rightarrow>
          if \<not> asset_re asset then None
          else (case getp pay ''chain'' of JStr chain \<Rightarrow>
            if \<not> chain_re chain then None
            else if \<not> plain_object (getp pay ''tiers'') then None
            else let tiers = canonical_tiers (getp pay ''tiers'') in
              if tiers = [] \<or> length tiers > MAX_CAPS_PAY_TIERS then None
              else Some (JObj ([(''protocols'', JArr (map JStr protocols))] @ onion @
                [(''port'', JNum port), (''asset'', JStr (js_lower asset)), (''chain'', JStr chain), (''tiers'', JObj tiers)]))
          | _ \<Rightarrow> None)
        | _ \<Rightarrow> None)
      | _ \<Rightarrow> None)"

definition caps_ports :: "jsval \<Rightarrow> int list" where
  "caps_ports v = (case v of
     JArr vs \<Rightarrow> sort (remdups (concat (map (\<lambda>p. case p of JNum n \<Rightarrow> if 1 \<le> n \<and> n \<le> 65535 then [n] else [] | _ \<Rightarrow> []) vs)))
   | _ \<Rightarrow> [])"

definition caps_artifacts :: "jsval \<Rightarrow> string list" where
  "caps_artifacts v = (let ids = sort (remdups (filter artifact_id_re (strings_of v))) in
     if length ids \<le> MAX_CAPS_ARTIFACTS then ids else [])"

definition opt_field :: "string \<Rightarrow> jsval option \<Rightarrow> (string \<times> jsval) list" where
  "opt_field k v = (case v of Some x \<Rightarrow> [(k, x)] | None \<Rightarrow> [])"

definition list_field :: "string \<Rightarrow> jsval list \<Rightarrow> (string \<times> jsval) list" where
  "list_field k vs = (if vs = [] then [] else [(k, JArr vs)])"

definition caps_region :: "jsval \<Rightarrow> jsval option" where
  "caps_region v = (case v of JStr s \<Rightarrow> if s \<in> set REGION_BUCKETS then Some v else None | _ \<Rightarrow> None)"

definition caps_proto :: "jsval \<Rightarrow> jsval option" where
  "caps_proto pr = (case (getp pr ''min'', getp pr ''max'') of
     (JNum lo, JNum hi) \<Rightarrow> if 1 \<le> lo \<and> lo \<le> hi then Some (JObj [(''min'', JNum lo), (''max'', JNum hi)]) else None
   | _ \<Rightarrow> None)"

definition canonicalCaps :: "jsval \<Rightarrow> jsval" where
  "canonicalCaps caps = JObj
     (list_field ''ports'' (map JNum (caps_ports (getp caps ''ports'')))
    @ opt_field ''region'' (caps_region (getp caps ''region''))
    @ opt_field ''proto'' (caps_proto (getp caps ''proto''))
    @ list_field ''artifacts'' (map JStr (caps_artifacts (getp caps ''artifacts'')))
    @ list_field ''admits'' (map JStr (canonicalAdmits (getp caps ''admits'')))
    @ opt_field ''pay'' (canonicalPay (getp caps ''pay''))
    @ opt_field ''rate'' (canonicalRate (getp caps ''rate'')))"

definition hasCaps :: "jsval \<Rightarrow> bool" where
  "hasCaps caps = list_ex (\<lambda>f. getp (canonicalCaps caps) f \<noteq> JUndef)
     [''ports'', ''region'', ''proto'', ''artifacts'', ''admits'', ''pay'', ''rate'']"

definition caps_statement :: "string \<Rightarrow> jsval \<Rightarrow> jsval \<Rightarrow> string" where
  "caps_statement domain onion caps = utf8 (domain @ json_stringify (JObj [(''onion'', JStr (js_string onion)), (''caps'', canonicalCaps caps)]))"

definition canonicalCapsBytes :: "jsval \<Rightarrow> jsval \<Rightarrow> string" where
  "canonicalCapsBytes = caps_statement CAPS_DOMAIN"

definition canonicalPreV4CapsBytes :: "jsval \<Rightarrow> jsval \<Rightarrow> string" where
  "canonicalPreV4CapsBytes = caps_statement PRE_V4_CAPS_DOMAIN"

definition signCaps :: "dir_lib \<Rightarrow> string \<Rightarrow> jsval \<Rightarrow> string \<Rightarrow> string res" where
  "signCaps L onion caps seedHex = ed25519Sign L (canonicalCapsBytes (JStr onion) caps) seedHex"

definition caps_sig_ok :: "dir_lib \<Rightarrow> (jsval \<Rightarrow> jsval \<Rightarrow> string) \<Rightarrow> string \<Rightarrow> jsval \<Rightarrow> jsval \<Rightarrow> bool" where
  "caps_sig_ok L bytes onion caps capsSig = (case capsSig of
     JStr s \<Rightarrow> s \<noteq> [] \<and> verifyOnionControl L onion (bytes (JStr onion) caps) capsSig
   | _ \<Rightarrow> False)"

definition verifyCapsSig :: "dir_lib \<Rightarrow> string \<Rightarrow> jsval \<Rightarrow> jsval \<Rightarrow> bool" where
  "verifyCapsSig L = caps_sig_ok L canonicalCapsBytes"

definition verifyPreV4CapsSig :: "dir_lib \<Rightarrow> string \<Rightarrow> jsval \<Rightarrow> jsval \<Rightarrow> bool" where
  "verifyPreV4CapsSig L = caps_sig_ok L canonicalPreV4CapsBytes"

section \<open>The canonical form is a fixed point\<close>

lemma map_of_list_field [simp]: "map_of (list_field k vs) k' = (if k' = k \<and> vs \<noteq> [] then Some (JArr vs) else None)"
  by (simp add: list_field_def)

lemma map_of_opt_field [simp]: "map_of (opt_field k v) k' = (if k' = k then v else None)"
  by (simp add: opt_field_def split: option.splits)

lemma getp_canonicalCaps:
  "getp (canonicalCaps c) ''ports'' = (if caps_ports (getp c ''ports'') = [] then JUndef else JArr (map JNum (caps_ports (getp c ''ports''))))"
  "getp (canonicalCaps c) ''region'' = (case caps_region (getp c ''region'') of Some v \<Rightarrow> v | None \<Rightarrow> JUndef)"
  "getp (canonicalCaps c) ''proto'' = (case caps_proto (getp c ''proto'') of Some v \<Rightarrow> v | None \<Rightarrow> JUndef)"
  "getp (canonicalCaps c) ''artifacts'' = (if caps_artifacts (getp c ''artifacts'') = [] then JUndef else JArr (map JStr (caps_artifacts (getp c ''artifacts''))))"
  "getp (canonicalCaps c) ''admits'' = (if canonicalAdmits (getp c ''admits'') = [] then JUndef else JArr (map JStr (canonicalAdmits (getp c ''admits''))))"
  "getp (canonicalCaps c) ''pay'' = (case canonicalPay (getp c ''pay'') of Some v \<Rightarrow> v | None \<Rightarrow> JUndef)"
  "getp (canonicalCaps c) ''rate'' = (case canonicalRate (getp c ''rate'') of Some v \<Rightarrow> v | None \<Rightarrow> JUndef)"
  by (simp_all add: canonicalCaps_def map_add_def split: option.split)

lemma concat_map_single: "concat (map (\<lambda>x. [f x]) xs) = map f xs"
  by (induction xs) simp_all

lemma strings_of_map [simp]: "strings_of (JArr (map JStr xs)) = xs"
  by (induction xs) simp_all

declare strings_of.simps(1) [simp del]

lemma caps_ports_idem: "caps_ports (if caps_ports v = [] then JUndef else JArr (map JNum (caps_ports v))) = caps_ports v"
proof -
  let ?f = "\<lambda>p. case p of JNum n \<Rightarrow> if 1 \<le> n \<and> n \<le> (65535::int) then [n] else [] | _ \<Rightarrow> []"
  have r: "\<forall>n\<in>set (caps_ports v). 1 \<le> n \<and> n \<le> 65535"
    by (auto simp: caps_ports_def split: jsval.splits if_split_asm)
  have "\<forall>n\<in>set xs. 1 \<le> n \<and> n \<le> 65535 \<Longrightarrow> concat (map ?f (map JNum xs)) = xs" for xs by (induction xs) auto
  from this [OF r] have "caps_ports (JArr (map JNum (caps_ports v))) = sort (remdups (caps_ports v))"
    unfolding caps_ports_def [of "JArr _"] by simp
  moreover have "sorted (caps_ports v)" "distinct (caps_ports v)"
    by (simp_all add: caps_ports_def split: jsval.splits)
  ultimately show ?thesis by (simp add: sorted_sort_id distinct_remdups_id caps_ports_def [of JUndef])
qed

lemma caps_artifacts_idem:
  "caps_artifacts (if caps_artifacts v = [] then JUndef else JArr (map JStr (caps_artifacts v))) = caps_artifacts v"
proof -
  have p: "sorted (caps_artifacts v)" "distinct (caps_artifacts v)" "length (caps_artifacts v) \<le> MAX_CAPS_ARTIFACTS"
      "\<forall>s\<in>set (caps_artifacts v). artifact_id_re s"
    by (simp_all add: caps_artifacts_def Let_def)
  then have "filter artifact_id_re (caps_artifacts v) = caps_artifacts v" by (simp add: filter_id_conv)
  with p show ?thesis
    by (simp add: caps_artifacts_def [of "JArr _"] caps_artifacts_def [of JUndef] Let_def sorted_sort_id distinct_remdups_id)
qed

lemma filter_fixed_order:
  assumes "\<forall>x\<in>set xs. js_lower x = x"
  shows "filter (\<lambda>p. p \<in> set (map js_lower (filter P xs))) xs = filter P xs"
proof -
  have "set (map js_lower (filter P xs)) = set (filter P xs)" using assms by force
  then show ?thesis by (auto intro: filter_cong)
qed

lemma lower_constants: "\<forall>p\<in>set ADMIT_PATHS. js_lower p = p" "\<forall>p\<in>set PAY_PROTOCOLS. js_lower p = p"
  by (simp_all add: ADMIT_PATHS_def PAY_PROTOCOLS_def js_lower_def lower_char_def)

lemma canonicalAdmits_idem:
  "canonicalAdmits (if canonicalAdmits v = [] then JUndef else JArr (map JStr (canonicalAdmits v))) = canonicalAdmits v"
  using filter_fixed_order [OF lower_constants(1)]
  by (simp add: canonicalAdmits_def)

lemma caps_region_idem: "caps_region (case caps_region v of Some x \<Rightarrow> x | None \<Rightarrow> JUndef) = caps_region v"
  by (auto simp: caps_region_def split: jsval.splits)

lemma caps_proto_idem: "caps_proto (case caps_proto v of Some x \<Rightarrow> x | None \<Rightarrow> JUndef) = caps_proto v"
  by (auto simp: caps_proto_def split: jsval.splits)

lemma canonicalRate_idem: "canonicalRate (case canonicalRate v of Some x \<Rightarrow> x | None \<Rightarrow> JUndef) = canonicalRate v"
  by (simp add: canonicalRate_def)

lemma tier_price_digits: "tier_price v = Some p \<Longrightarrow> nonzero_digits 39 p"
  by (auto simp: tier_price_def split: option.splits if_split_asm)

lemma canonical_tiers_shape:
  assumes "ts = canonical_tiers t"
  shows "distinct (map fst ts)" "sorted (map dec_nat (map fst ts))"
    "\<forall>(k, v)\<in>set ts. nonzero_digits 4 k \<and> dec_nat k \<le> 65535 \<and> (\<exists>p. v = JStr p \<and> nonzero_digits 39 p)"
proof -
  let ?ks = "sort_key dec_nat (filter (\<lambda>k. nonzero_digits 4 k \<and> dec_nat k \<le> 65535) (object_keys t))"
  let ?P = "\<lambda>k. tier_price (getp t k) \<noteq> None"
  have keys: "map fst ts = filter ?P ?ks"
  proof -
    have "map fst (concat (map (\<lambda>k. case tier_price (getp t k) of Some p \<Rightarrow> [(k, JStr p)] | None \<Rightarrow> []) ks)) = filter ?P ks" for ks
      by (induction ks) (auto split: option.splits)
    then show ?thesis by (simp add: assms canonical_tiers_def)
  qed
  have "distinct (object_keys t)" by (cases t) simp_all
  then show "distinct (map fst ts)" by (simp add: keys)
  have "sorted (map dec_nat ?ks)" by simp
  then show "sorted (map dec_nat (map fst ts))" unfolding keys by (rule sorted_filter)
  show "\<forall>(k, v)\<in>set ts. nonzero_digits 4 k \<and> dec_nat k \<le> 65535 \<and> (\<exists>p. v = JStr p \<and> nonzero_digits 39 p)"
    by (auto simp: assms canonical_tiers_def tier_price_digits split: option.splits)
qed

lemma canonical_tiers_idem: "canonical_tiers (JObj (canonical_tiers t)) = canonical_tiers t"
proof -
  define ts where "ts = canonical_tiers t"
  note shape = canonical_tiers_shape [OF ts_def]
  have "filter (\<lambda>k. nonzero_digits 4 k \<and> dec_nat k \<le> 65535) (map fst ts) = map fst ts"
    using shape(3) by (auto simp: filter_id_conv)
  moreover have "sort_key dec_nat (map fst ts) = map fst ts" using shape(2) by (rule sort_key_id_if_sorted)
  ultimately have "canonical_tiers (JObj ts) =
      concat (map (\<lambda>k. case tier_price (getp (JObj ts) k) of Some p \<Rightarrow> [(k, JStr p)] | None \<Rightarrow> []) (map fst ts))"
    using shape(1) by (simp add: canonical_tiers_def distinct_remdups_id)
  also have "\<dots> = concat (map (\<lambda>kv. [kv]) ts)"
  proof -
    have "(case tier_price (getp (JObj ts) (fst kv)) of Some p \<Rightarrow> [(fst kv, JStr p)] | None \<Rightarrow> []) = [kv]" if kv: "kv \<in> set ts" for kv
    proof -
      from kv shape(3) obtain k p where k: "kv = (k, JStr p)" "nonzero_digits 39 p" by (cases kv) auto
      with kv shape(1) have "map_of ts k = Some (JStr p)" by (simp add: map_of_is_SomeI)
      with k show ?thesis by (simp add: tier_price_def)
    qed
    then have "map (\<lambda>kv. case tier_price (getp (JObj ts) (fst kv)) of Some p \<Rightarrow> [(fst kv, JStr p)] | None \<Rightarrow> []) ts = map (\<lambda>kv. [kv]) ts"
      by (intro map_cong) auto
    then show ?thesis by (simp only: map_map comp_def)
  qed
  finally show ?thesis by (simp add: ts_def concat_map_single)
qed

lemma asset_lower: "asset_re s \<Longrightarrow> asset_re (js_lower s)"
proof -
  have d: "radix_digit c < 16 \<Longrightarrow> radix_digit (lower_char c) < 16" for c
    by (auto simp: lower_char_def Let_def split: if_split_asm)
  assume "asset_re s"
  then show ?thesis
    using d by (auto simp: asset_re_def js_lower_def list_all_iff take_map drop_map lower_char_def [of "CHR ''0''"] lower_char_def [of "CHR ''x''"])
qed

lemma canonicalPay_Some:
  assumes "canonicalPay v = Some out"
  shows "\<exists>port asset chain. plain_object v
    \<and> filter (\<lambda>p. p \<in> set (map js_lower (strings_of (getp v ''protocols'')))) PAY_PROTOCOLS \<noteq> []
    \<and> 1 \<le> port \<and> port \<le> 65535 \<and> asset_re asset \<and> chain_re chain
    \<and> canonical_tiers (getp v ''tiers'') \<noteq> [] \<and> length (canonical_tiers (getp v ''tiers'')) \<le> MAX_CAPS_PAY_TIERS
    \<and> out = JObj ([(''protocols'', JArr (map JStr (filter (\<lambda>p. p \<in> set (map js_lower (strings_of (getp v ''protocols'')))) PAY_PROTOCOLS)))]
        @ pay_onion (getp v ''onion'') @ [(''port'', JNum port), (''asset'', JStr (js_lower asset)), (''chain'', JStr chain),
          (''tiers'', JObj (canonical_tiers (getp v ''tiers'')))])"
proof -
  obtain port where port: "getp v ''port'' = JNum port"
    using assms by (cases "getp v ''port''") (simp_all add: canonicalPay_def Let_def split: if_split_asm)
  obtain asset where asset: "getp v ''asset'' = JStr asset"
    using assms port by (cases "getp v ''asset''") (simp_all add: canonicalPay_def Let_def split: if_split_asm)
  obtain chain where chain: "getp v ''chain'' = JStr chain"
    using assms port asset by (cases "getp v ''chain''") (simp_all add: canonicalPay_def Let_def split: if_split_asm)
  show ?thesis
    using assms port asset chain
    by (intro exI [of _ port] exI [of _ asset] exI [of _ chain]) (simp add: canonicalPay_def Let_def split: if_split_asm)
qed

lemma canonicalPay_idem: "canonicalPay (case canonicalPay v of Some x \<Rightarrow> x | None \<Rightarrow> JUndef) = canonicalPay v"
proof (cases "canonicalPay v")
  case (Some out)
  define protos where "protos = filter (\<lambda>p. p \<in> set (map js_lower (strings_of (getp v ''protocols'')))) PAY_PROTOCOLS"
  from canonicalPay_Some [OF Some, folded protos_def] obtain port asset chain where
      v: "protos \<noteq> []" "1 \<le> port" "port \<le> 65535" "asset_re asset" "chain_re chain"
        "canonical_tiers (getp v ''tiers'') \<noteq> []" "length (canonical_tiers (getp v ''tiers'')) \<le> MAX_CAPS_PAY_TIERS"
      and out: "out = JObj ([(''protocols'', JArr (map JStr protos))] @ pay_onion (getp v ''onion'') @
                [(''port'', JNum port), (''asset'', JStr (js_lower asset)), (''chain'', JStr chain), (''tiers'', JObj (canonical_tiers (getp v ''tiers'')))])"
    by blast
  have pr: "filter (\<lambda>p. p \<in> set (map js_lower protos)) PAY_PROTOCOLS = protos"
    unfolding protos_def by (rule filter_fixed_order) (rule lower_constants)
  have o: "pay_onion (getp out ''onion'') = pay_onion (getp v ''onion'')"
    and g: "getp out ''protocols'' = JArr (map JStr protos)" "getp out ''port'' = JNum port" "getp out ''asset'' = JStr (js_lower asset)"
      "getp out ''chain'' = JStr chain" "getp out ''tiers'' = JObj (canonical_tiers (getp v ''tiers''))" "plain_object out"
    by (auto simp: out pay_onion_def split: jsval.splits)
  have "canonicalPay out = Some out"
    unfolding canonicalPay_def Let_def g o strings_of_map pr canonical_tiers_idem
    using v asset_lower [OF v(4)] g(6) out by simp
  with Some show ?thesis by simp
qed (simp add: canonicalPay_def)

lemma canonicalCaps_idem [simp]: "canonicalCaps (canonicalCaps c) = canonicalCaps c"
  unfolding canonicalCaps_def [of "canonicalCaps c"] getp_canonicalCaps caps_ports_idem caps_region_idem caps_proto_idem
    caps_artifacts_idem canonicalAdmits_idem canonicalPay_idem canonicalRate_idem
  by (simp add: canonicalCaps_def)

lemma hasCaps_canonical [simp]: "hasCaps (canonicalCaps c) = hasCaps c"
  by (simp add: hasCaps_def)

lemma hasCaps_iff: "hasCaps c \<longleftrightarrow> canonicalCaps c \<noteq> JObj []"
proof
  assume "hasCaps c" then show "canonicalCaps c \<noteq> JObj []" by (auto simp: hasCaps_def)
next
  assume "canonicalCaps c \<noteq> JObj []"
  then have "caps_ports (getp c ''ports'') \<noteq> [] \<or> caps_region (getp c ''region'') \<noteq> None \<or> caps_proto (getp c ''proto'') \<noteq> None
      \<or> caps_artifacts (getp c ''artifacts'') \<noteq> [] \<or> canonicalAdmits (getp c ''admits'') \<noteq> []
      \<or> canonicalPay (getp c ''pay'') \<noteq> None \<or> canonicalRate (getp c ''rate'') \<noteq> None"
    by (auto simp: canonicalCaps_def list_field_def opt_field_def)
  moreover have "caps_region v = Some JUndef \<Longrightarrow> False" "caps_proto v = Some JUndef \<Longrightarrow> False"
    "canonicalPay v = Some JUndef \<Longrightarrow> False" "canonicalRate v = Some JUndef \<Longrightarrow> False" for v
    by (auto simp: caps_region_def caps_proto_def canonicalRate_def dest: canonicalPay_Some split: jsval.splits if_split_asm)
  ultimately show "hasCaps c"
    by (fastforce simp: hasCaps_def getp_canonicalCaps split: option.splits)
qed

lemma caps_statement_canonical [simp]: "caps_statement d onion (canonicalCaps c) = caps_statement d onion c"
  by (simp add: caps_statement_def)

text \<open>
  the capability advertisement has one canonical form. Normalising is idempotent, keeps
  whether there is anything to advertise, and fixes the signed bytes: whatever unknown fields, field
  order, duplicates or letter case a relay adds, the same signature verifies, before and after
  normalising.
\<close>

theorem canonicalCaps_stable:
  "canonicalCaps (canonicalCaps c) = canonicalCaps c \<and> (hasCaps c \<longleftrightarrow> canonicalCaps c \<noteq> JObj [])
   \<and> canonicalCapsBytes onion (canonicalCaps c) = canonicalCapsBytes onion c
   \<and> verifyCapsSig L addr (canonicalCaps c) sig = verifyCapsSig L addr c sig"
  by (simp add: hasCaps_iff canonicalCapsBytes_def verifyCapsSig_def caps_sig_ok_def split: jsval.split)

end
