(* ===== verification/Directory.thy ===== *)
theory Directory
  imports Complex_Main Caps
begin

text \<open>
  The fleet directory of \<^verbatim>\<open>src/lib/directory.mjs\<close>: canonical bytes, single-signer and
  threshold signatures, verification against the pinned signers, loading with the last-known-good
  cache, and weighted selection. A directory is the value \<open>JSON.parse\<close> returned. Verification
  is a \<open>res\<close> because \<open>canonicalDirectoryBytes\<close> throws on malformed gateway lists.
\<close>

section \<open>Signing\<close>

definition directory_entry :: "jsval \<Rightarrow> jsval res" where
  "directory_entry g = (if nullish g then Inl TypeError
     else Inr (JObj ([(''onion'', getp g ''onion''), (''pubkey'', getp g ''pubkey''), (''weight'', getp g ''weight''), (''health'', getp g ''health'')]
       @ (if hasCaps (getp g ''caps'')
          then (''caps'', canonicalCaps (getp g ''caps'')) # (case getp g ''capsSig'' of JStr s \<Rightarrow> [(''capsSig'', JStr s)] | _ \<Rightarrow> [])
          else []))))"

definition gateways_of :: "jsval \<Rightarrow> jsval" where  \<comment> \<open>\<open>dir.gateways || []\<close>\<close>
  "gateways_of dir = js_or (getp dir ''gateways'') (JArr [])"

definition canonicalDirectoryBytes :: "jsval \<Rightarrow> string res" where
  "canonicalDirectoryBytes dir = (case gateways_of dir of
     JArr gs \<Rightarrow> bind_res (map_res directory_entry gs) (\<lambda>es.
       Inr (utf8 (json_stringify (JObj [(''version'', getp dir ''version''), (''issued'', getp dir ''issued''), (''gateways'', JArr es)]))))
   | _ \<Rightarrow> Inl TypeError)"

fun setp :: "jsval \<Rightarrow> string \<Rightarrow> jsval \<Rightarrow> jsval" where  \<comment> \<open>\<open>{ ...v, k: x }\<close>, and assignment to an object's member\<close>
  "setp (JObj kvs) k x = JObj (AList.update k x kvs)"
| "setp v k x = v"

fun delp :: "jsval \<Rightarrow> string \<Rightarrow> jsval" where
  "delp (JObj kvs) k = JObj (AList.delete k kvs)"
| "delp v k = v"

definition signDirectory :: "dir_lib \<Rightarrow> jsval \<Rightarrow> string \<Rightarrow> jsval res" where
  "signDirectory L dir privHex = bind_res (canonicalDirectoryBytes dir) (\<lambda>b.
     bind_res (ed25519Sign L b privHex) (\<lambda>sig. Inr (setp dir ''signature'' (JStr sig))))"

definition signDirectoryThreshold :: "dir_lib \<Rightarrow> jsval \<Rightarrow> string list \<Rightarrow> jsval \<Rightarrow> jsval res" where
  "signDirectoryThreshold L dir privs threshold =
     (if privs = [] then Inl (Error ''signDirectoryThreshold needs a non-empty array of signer seeds'')
      else bind_res (canonicalDirectoryBytes dir) (\<lambda>b.
        bind_res (map_res (\<lambda>p. bind_res (ed25519PubFromSeed L p) (\<lambda>pub. bind_res (ed25519Sign L b p) (\<lambda>sig. Inr (pub, sig)))) privs) (\<lambda>ps.
          let th = (if nullish threshold then JNum (int (length privs)) else threshold) in
          Inr (setp (setp (setp (delp (delp dir ''signer'') ''signature'') ''signers'' (JArr (map (JStr \<circ> fst) ps)))
            ''signatures'' (JArr (map (JStr \<circ> snd) ps))) ''threshold'' th))))"

section \<open>Verification\<close>

datatype pinned_arg = NoPin | OnePin string | Pins "jsval list"

definition norm_key :: "string \<Rightarrow> string" where  \<comment> \<open>lower case, without a leading \<open>0x\<close>\<close>
  "norm_key p = (let l = js_lower p in if take 2 l = ''0x'' then drop 2 l else l)"

fun normalizePinnedSigners :: "pinned_arg \<Rightarrow> string list" where
  "normalizePinnedSigners NoPin = []"
| "normalizePinnedSigners (OnePin p) = (if p = [] then [] else [norm_key p])"
| "normalizePinnedSigners (Pins vs) = map norm_key (filter (\<lambda>p. p \<noteq> []) (strings_of (JArr vs)))"

definition isThresholdDirectory :: "jsval \<Rightarrow> bool" where
  "isThresholdDirectory dir \<longleftrightarrow> getp dir ''threshold'' \<noteq> JUndef \<or> getp dir ''signers'' \<noteq> JUndef \<or> getp dir ''signatures'' \<noteq> JUndef"

definition onion_key :: "dir_lib \<Rightarrow> jsval \<Rightarrow> string res" where  \<comment> \<open>\<open>onionToPubkey\<close> of any value\<close>
  "onion_key L v = (case v of JStr s \<Rightarrow> onionToPubkey (sha3 L) s | _ \<Rightarrow> Inl TypeError)"

definition onion_prefix :: "jsval \<Rightarrow> string res" where  \<comment> \<open>\<open>${g.onion?.slice(0, 12)}\<close>\<close>
  "onion_prefix v = (case v of JUndef \<Rightarrow> Inr ''undefined'' | JNull \<Rightarrow> Inr ''undefined'' | JStr s \<Rightarrow> Inr (take 12 s)
     | JArr vs \<Rightarrow> Inr (js_string (JArr (take 12 vs))) | _ \<Rightarrow> Inl TypeError)"

fun exn_message :: "exn \<Rightarrow> string" where  \<comment> \<open>the engine's own texts are abstracted to their class\<close>
  "exn_message (Error m) = m"
| "exn_message TypeError = ''TypeError''"
| "exn_message SyntaxError = ''SyntaxError''"
| "exn_message RangeError = ''RangeError''"

text \<open>The reason of the first bad entry, if any.\<close>

definition entry_error :: "dir_lib \<Rightarrow> bool \<Rightarrow> jsval \<Rightarrow> string option res" where
  "entry_error L acceptPreV4 g =
     (if nullish g then Inl TypeError
      else case onion_key L (getp g ''onion'') of
        Inl e \<Rightarrow> bind_res (onion_prefix (getp g ''onion'')) (\<lambda>p. Inr (Some (''bad-onion:'' @ p @ ''..:'' @ exn_message e)))
      | Inr derived \<Rightarrow>
          let onion = (case getp g ''onion'' of JStr s \<Rightarrow> s | _ \<Rightarrow> []); caps = getp g ''caps''; sig = getp g ''capsSig'' in
          if js_lower derived \<noteq> js_lower (js_string (getp g ''pubkey'')) then Inr (Some (''pubkey-onion-mismatch:'' @ take 12 onion @ ''..''))
          else if hasCaps caps \<and> \<not> verifyCapsSig L onion caps sig \<and> \<not> (acceptPreV4 \<and> verifyPreV4CapsSig L onion caps sig)
          then Inr (Some (''bad-caps-sig:'' @ take 12 onion @ ''..''))
          else Inr None)"

fun binding_loop :: "dir_lib \<Rightarrow> bool \<Rightarrow> jsval list \<Rightarrow> string option res" where
  "binding_loop L pre [] = Inr None"
| "binding_loop L pre (g # gs) = bind_res (entry_error L pre g) (\<lambda>r. case r of Some e \<Rightarrow> Inr (Some e) | None \<Rightarrow> binding_loop L pre gs)"

definition checkGatewayBindings :: "dir_lib \<Rightarrow> bool \<Rightarrow> jsval \<Rightarrow> string option res" where
  "checkGatewayBindings L pre dir = (case gateways_of dir of
     JArr gs \<Rightarrow> binding_loop L pre gs
   | JStr s \<Rightarrow> binding_loop L pre (map (\<lambda>c. JStr [c]) s)
   | _ \<Rightarrow> Inl TypeError)"

datatype dir_verdict =
    DirBad string
  | DirOk string                  \<comment> \<open>the pinned signer that matched\<close>
  | DirOkThreshold "string list" int

fun dir_ok :: "dir_verdict \<Rightarrow> bool" where
  "dir_ok (DirBad _) = False"
| "dir_ok _ = True"

text \<open>The pinned signers counted so far; a signer counts once.\<close>

fun count_signers :: "dir_lib \<Rightarrow> string list \<Rightarrow> string \<Rightarrow> (jsval \<times> jsval) list \<Rightarrow> string list \<Rightarrow> string list" where
  "count_signers L pinned bytes [] counted = counted"
| "count_signers L pinned bytes ((JStr s, JStr sig) # ps) counted =
     (let norm = norm_key s in
      if norm \<notin> set pinned \<or> norm \<in> set counted then count_signers L pinned bytes ps counted
      else if ed25519Verify L bytes (JStr sig) norm then count_signers L pinned bytes ps (counted @ [norm])
      else count_signers L pinned bytes ps counted)"
| "count_signers L pinned bytes (p # ps) counted = count_signers L pinned bytes ps counted"

definition finish_bindings :: "dir_lib \<Rightarrow> bool \<Rightarrow> jsval \<Rightarrow> dir_verdict \<Rightarrow> dir_verdict res" where
  "finish_bindings L pre dir v = bind_res (checkGatewayBindings L pre dir) (\<lambda>r. Inr (case r of Some e \<Rightarrow> DirBad e | None \<Rightarrow> v))"

definition verifyDirectoryThreshold :: "dir_lib \<Rightarrow> bool \<Rightarrow> jsval \<Rightarrow> pinned_arg \<Rightarrow> dir_verdict res" where
  "verifyDirectoryThreshold L pre dir pin =
     (if \<not> is_object dir then Inr (DirBad ''no-directory'')
      else case getp dir ''threshold'' of JNum th \<Rightarrow>
        if th < 1 then Inr (DirBad ''bad-threshold'')
        else (case (getp dir ''signers'', getp dir ''signatures'') of (JArr signers, JArr sigs) \<Rightarrow>
          if length signers \<noteq> length sigs then Inr (DirBad ''bad-signatures'')
          else if th > int (length signers) then Inr (DirBad ''threshold-exceeds-signers'')
          else bind_res (canonicalDirectoryBytes dir) (\<lambda>bytes.
            let counted = count_signers L (normalizePinnedSigners pin) bytes (zip signers sigs) [] in
            if int (length counted) < th
            then Inr (DirBad (''threshold-not-met:'' @ nat_dec (length counted) @ ''/'' @ int_dec th))
            else finish_bindings L pre dir (DirOkThreshold counted th))
        | _ \<Rightarrow> Inr (DirBad ''bad-signatures''))
      | _ \<Rightarrow> Inr (DirBad ''bad-threshold''))"

definition verifyDirectory :: "dir_lib \<Rightarrow> bool \<Rightarrow> jsval \<Rightarrow> pinned_arg \<Rightarrow> dir_verdict res" where
  "verifyDirectory L pre dir pin =
     (if \<not> is_object dir then Inr (DirBad ''no-directory'')
      else if isThresholdDirectory dir then verifyDirectoryThreshold L pre dir pin
      else if \<not> truthy (getp dir ''signature'') then Inr (DirBad ''unsigned'')
      else let pinned = normalizePinnedSigners pin; signer = getp dir ''signer'';
               go = bind_res (canonicalDirectoryBytes dir) (\<lambda>bytes.
                 case find (\<lambda>p. ed25519Verify L bytes (getp dir ''signature'') p) pinned of
                   Some p \<Rightarrow> if p = [] then Inr (DirBad ''bad-signature'') else finish_bindings L pre dir (DirOk p)
                 | None \<Rightarrow> Inr (DirBad ''bad-signature'')) in
        if nullish signer then go
        else (case signer of
            JStr s \<Rightarrow> if pinned \<noteq> [] \<and> js_lower s \<notin> set pinned then Inr (DirBad ''signer-not-pinned'') else go
          | _ \<Rightarrow> Inr (DirBad ''bad-signer-field'')))"

section \<open>Loading\<close>

text \<open>
  \<open>fresh\<close> and \<open>cached\<close> are what \<open>JSON.parse(await readFile(..))\<close> gives; \<open>None\<close> when no
  path is configured. The result comes with the value written to the cache.
  A verified value is an object, so \<open>if (fresh)\<close> holds of it.
\<close>

definition verified_read :: "dir_lib \<Rightarrow> pinned_arg \<Rightarrow> jsval res \<Rightarrow> jsval res" where
  "verified_read L pin r = bind_res r (\<lambda>dir. bind_res (verifyDirectory L False dir pin) (\<lambda>v.
     case v of DirBad reason \<Rightarrow> Inl (Error reason) | _ \<Rightarrow> Inr dir))"

definition loadDirectory :: "dir_lib \<Rightarrow> pinned_arg \<Rightarrow> jsval res option \<Rightarrow> jsval res option \<Rightarrow> (jsval \<times> string) res \<times> jsval option" where
  "loadDirectory L pin fresh cached =
     (let f = map_option (verified_read L pin) fresh;
          fresh_error = (case f of Some (Inl e) \<Rightarrow> exn_message e | _ \<Rightarrow> []) in
      case f of
        Some (Inr dir) \<Rightarrow> (Inr (dir, ''fresh''), if cached = None then None else Some dir)
      | _ \<Rightarrow> (case map_option (verified_read L pin) cached of
            Some (Inr dir) \<Rightarrow> (Inr (dir, ''cache''), None)
          | _ \<Rightarrow> (Inl (Error (''no verifiable directory (fresh: '' @ (if fresh_error = [] then ''none'' else fresh_error) @ '', no valid cache)'')), None)))"

section \<open>Selection\<close>

text \<open>
  Numbers of the weighted draw are rationals; \<open>fl\<close> is the rounding of each arithmetic result to
  a double and \<open>flt\<close> the value of a number that is not an integer. \<open>rng\<close> gives the successive
  draws of \<open>Math.random\<close>.
\<close>

record float_env =
  fl :: "rat \<Rightarrow> rat"
  flt :: "string \<Rightarrow> rat"

definition MAX_WEIGHT :: rat where "MAX_WEIGHT = 1000"

definition clampWeight :: "float_env \<Rightarrow> jsval \<Rightarrow> rat" where
  "clampWeight F g = (case js_number (getp g ''weight'') of
     JNum n \<Rightarrow> max 0 (min MAX_WEIGHT (of_int n))
   | JFloat s \<Rightarrow> if s \<in> {''NaN'', ''Infinity'', ''-Infinity''} then 1 else max 0 (min MAX_WEIGHT (flt F s))
   | _ \<Rightarrow> 1)"

fun weighted_walk :: "float_env \<Rightarrow> jsval list \<Rightarrow> rat \<Rightarrow> jsval option" where
  "weighted_walk F [] r = None"
| "weighted_walk F (g # gs) r = (let r' = fl F (r - clampWeight F g) in if r' < 0 then Some g else weighted_walk F gs r')"

definition gateway_list :: "jsval \<Rightarrow> jsval list" where
  "gateway_list dir = (case gateways_of dir of JArr gs \<Rightarrow> gs | _ \<Rightarrow> [])"

definition pick_pool :: "jsval list \<Rightarrow> jsval list \<Rightarrow> jsval list" where
  "pick_pool gateways exclude =
     (let all = filter (\<lambda>g. getp g ''onion'' \<notin> set exclude) gateways;
          healthy = filter (\<lambda>g. getp g ''health'' \<noteq> JStr ''down'') all
      in if healthy \<noteq> [] then healthy else all)"

definition pickGateway :: "float_env \<Rightarrow> jsval list \<Rightarrow> jsval list \<Rightarrow> rat \<Rightarrow> jsval option" where
  "pickGateway F gateways exclude u =
     (let pool = pick_pool gateways exclude;
          total = foldl (\<lambda>s g. fl F (s + clampWeight F g)) 0 pool in
      if pool = [] then None
      else if total \<le> 0 then
        (let i = \<lfloor>fl F (u * of_nat (length pool))\<rfloor> in if 0 \<le> i \<and> i < int (length pool) then Some (pool ! nat i) else None)
      else (case weighted_walk F pool (fl F (u * total)) of Some g \<Rightarrow> Some g | None \<Rightarrow> Some (last pool)))"

lemma weighted_walk_mem: "weighted_walk F gs r = Some g \<Longrightarrow> g \<in> set gs"
  by (induction gs arbitrary: r) (auto simp: Let_def split: if_split_asm)

lemma pickGateway_mem: "pickGateway F gs ex u = Some g \<Longrightarrow> g \<in> set (pick_pool gs ex)"
  by (auto simp: pickGateway_def Let_def nat_less_iff split: if_split_asm option.splits dest: weighted_walk_mem intro!: nth_mem)

lemma pick_pool_mem: "g \<in> set (pick_pool gs ex) \<Longrightarrow> g \<in> set gs \<and> getp g ''onion'' \<notin> set ex"
  by (auto simp: pick_pool_def Let_def split: if_split_asm)

function selection_loop :: "float_env \<Rightarrow> (nat \<Rightarrow> rat) \<Rightarrow> jsval list \<Rightarrow> nat \<Rightarrow> jsval list \<Rightarrow> jsval list" where
  "selection_loop F rng gs k exclude = (case pickGateway F gs exclude (rng k) of
     None \<Rightarrow> []
   | Some g \<Rightarrow> g # selection_loop F rng gs (Suc k) (getp g ''onion'' # exclude))"
  by auto
termination
proof (relation "measure (\<lambda>(F, rng, gs, k, ex). length (filter (\<lambda>g. getp g ''onion'' \<notin> set ex) gs))")
  fix F rng gs and k :: nat and ex g
  assume "pickGateway F gs ex (rng k) = Some g"
  then have g: "g \<in> set gs" "getp g ''onion'' \<notin> set ex" using pick_pool_mem [OF pickGateway_mem] by blast+
  let ?P = "\<lambda>g. getp g ''onion'' \<notin> set ex" and ?Q = "\<lambda>h. getp h ''onion'' \<noteq> getp g ''onion''"
  have "length (filter ?Q (filter ?P gs)) < length (filter ?P gs)"
    by (rule length_filter_less [of g]) (use g in auto)
  moreover have "filter (\<lambda>h. getp h ''onion'' \<notin> set (getp g ''onion'' # ex)) gs = filter ?Q (filter ?P gs)"
    by (simp add: conj_commute)
  ultimately show "((F, rng, gs, Suc k, getp g ''onion'' # ex), (F, rng, gs, k, ex))
      \<in> measure (\<lambda>(F, rng, gs, k, ex). length (filter (\<lambda>g. getp g ''onion'' \<notin> set ex) gs))" by simp
qed simp

declare selection_loop.simps [simp del]

definition selectionOrder :: "float_env \<Rightarrow> (nat \<Rightarrow> rat) \<Rightarrow> jsval \<Rightarrow> jsval list" where
  "selectionOrder F rng dir = selection_loop F rng (gateway_list dir) 0 []"

fun num_value :: "float_env \<Rightarrow> jsval \<Rightarrow> rat" where
  "num_value F (JNum n) = of_int n"
| "num_value F (JFloat s) = flt F s"
| "num_value F _ = 0"

text \<open>\<open>_fails\<close> is a number once this function has written it.\<close>

definition health_entry :: "float_env \<Rightarrow> bool option \<Rightarrow> jsval \<Rightarrow> jsval \<Rightarrow> jsval" where
  "health_entry F ok latencyMs g = (case ok of
     Some False \<Rightarrow>
       let fails = (case getp g ''_fails'' of JNum n \<Rightarrow> n | _ \<Rightarrow> 0) + 1; g1 = setp g ''_fails'' (JNum fails) in
       if fails \<ge> 2 then setp g1 ''health'' (JStr ''down'') else g1
   | Some True \<Rightarrow>
       let g1 = setp (setp g ''_fails'' (JNum 0)) ''health'' (JStr ''up''); old = getp g ''_latencyMs'' in
       if typeof latencyMs \<noteq> ''number'' then g1
       else if nullish old then setp g1 ''_latencyMs'' latencyMs
       else setp g1 ''_latencyMs'' (JNum \<lfloor>fl F (fl F (7 / 10 * num_value F old) + fl F (3 / 10 * num_value F latencyMs)) + 1 / 2\<rfloor>)
   | None \<Rightarrow> g)"

fun update_first :: "('a \<Rightarrow> bool) \<Rightarrow> ('a \<Rightarrow> 'a) \<Rightarrow> 'a list \<Rightarrow> 'a list" where
  "update_first P f [] = []"
| "update_first P f (x # xs) = (if P x then f x # xs else x # update_first P f xs)"

definition reportHealth :: "float_env \<Rightarrow> jsval list \<Rightarrow> jsval \<Rightarrow> bool option \<Rightarrow> jsval \<Rightarrow> jsval list" where
  "reportHealth F gateways onion ok latencyMs =
     update_first (\<lambda>g. getp g ''onion'' = onion) (health_entry F ok latencyMs) gateways"

section \<open>What an accepted directory guarantees\<close>

definition entry_bound :: "dir_lib \<Rightarrow> bool \<Rightarrow> jsval \<Rightarrow> bool" where
  "entry_bound L pre g \<longleftrightarrow> (\<exists>onion k. getp g ''onion'' = JStr onion \<and> onionToPubkey (sha3 L) onion = Inr k
     \<and> js_lower k = js_lower (js_string (getp g ''pubkey''))
     \<and> (hasCaps (getp g ''caps'') \<longrightarrow> verifyCapsSig L onion (getp g ''caps'') (getp g ''capsSig'')
          \<or> pre \<and> verifyPreV4CapsSig L onion (getp g ''caps'') (getp g ''capsSig'')))"

lemma entry_error_None: "entry_error L pre g = Inr None \<longleftrightarrow> \<not> nullish g \<and> entry_bound L pre g"
proof (cases "getp g ''onion''")
  case (JStr s)
  then show ?thesis
    by (cases "onionToPubkey (sha3 L) s") (auto simp: entry_error_def entry_bound_def onion_key_def onion_prefix_def Let_def)
qed (auto simp: entry_error_def entry_bound_def onion_key_def onion_prefix_def bind_res_Inr_iff)

lemma binding_loop_None: "binding_loop L pre gs = Inr None \<longleftrightarrow> (\<forall>g\<in>set gs. \<not> nullish g \<and> entry_bound L pre g)"
proof (induction gs)
  case (Cons g gs)
  have "binding_loop L pre (g # gs) = Inr None \<longleftrightarrow> entry_error L pre g = Inr None \<and> binding_loop L pre gs = Inr None"
    by (auto simp: bind_res_Inr_iff split: option.splits)
  with Cons show ?case by (simp add: entry_error_None)
qed simp

lemma finish_bindings_ok:
  assumes "canonicalDirectoryBytes dir = Inr bytes" "finish_bindings L pre dir v = Inr v'" "dir_ok v'"
  shows "v' = v \<and> (\<exists>gs. gateways_of dir = JArr gs \<and> (\<forall>g\<in>set gs. entry_bound L pre g))"
proof -
  from assms(1) obtain gs where gs: "gateways_of dir = JArr gs" by (auto simp: canonicalDirectoryBytes_def split: jsval.splits)
  from assms(2) gs obtain r where r: "binding_loop L pre gs = Inr r" "v' = (case r of Some e \<Rightarrow> DirBad e | None \<Rightarrow> v)"
    by (auto simp: finish_bindings_def checkGatewayBindings_def bind_res_Inr_iff)
  with assms(3) have "binding_loop L pre gs = Inr None \<and> v' = v" by (cases r) simp_all
  with gs binding_loop_None show ?thesis by blast
qed

definition valid_signer :: "dir_lib \<Rightarrow> string list \<Rightarrow> string \<Rightarrow> (jsval \<times> jsval) list \<Rightarrow> string \<Rightarrow> bool" where
  "valid_signer L pinned bytes ps k \<longleftrightarrow> k \<in> set pinned \<and>
     (\<exists>raw sig. (JStr raw, JStr sig) \<in> set ps \<and> norm_key raw = k \<and> ed25519Verify L bytes (JStr sig) k)"

lemma count_signers_set:
  "set (count_signers L pinned bytes ps counted) = set counted \<union> {k. valid_signer L pinned bytes ps k}"
  by (induction L pinned bytes ps counted rule: count_signers.induct) (auto simp: valid_signer_def Let_def)

lemma count_signers_distinct: "distinct counted \<Longrightarrow> distinct (count_signers L pinned bytes ps counted)"
  by (induction L pinned bytes ps counted rule: count_signers.induct) (auto simp: Let_def)

lemma count_signers_card: "length (count_signers L pinned bytes ps []) = card {k. valid_signer L pinned bytes ps k}"
  using distinct_card [OF count_signers_distinct [of "[]" L pinned bytes ps]] count_signers_set [of L pinned bytes ps "[]"] by simp

lemma threshold_ok_D:
  assumes "verifyDirectoryThreshold L pre dir pin = Inr v" "dir_ok v"
  shows "\<exists>bytes signers sigs ss th gs. canonicalDirectoryBytes dir = Inr bytes \<and> gateways_of dir = JArr gs
    \<and> getp dir ''signers'' = JArr signers \<and> getp dir ''signatures'' = JArr sigs \<and> getp dir ''threshold'' = JNum th
    \<and> v = DirOkThreshold ss th \<and> 1 \<le> th \<and> th \<le> int (length ss) \<and> distinct ss
    \<and> set ss = {k. valid_signer L (normalizePinnedSigners pin) bytes (zip signers sigs) k} \<and> (\<forall>g\<in>set gs. entry_bound L pre g)"
proof -
  from assms obtain th where th: "getp dir ''threshold'' = JNum th" "\<not> th < 1"
    by (cases "getp dir ''threshold''") (auto simp: verifyDirectoryThreshold_def split: if_split_asm)
  from assms th obtain signers where s: "getp dir ''signers'' = JArr signers"
    by (cases "getp dir ''signers''") (auto simp: verifyDirectoryThreshold_def split: if_split_asm)
  from assms th s obtain sigs where g: "getp dir ''signatures'' = JArr sigs"
    by (cases "getp dir ''signatures''") (auto simp: verifyDirectoryThreshold_def split: if_split_asm)
  from assms th s g obtain bytes where b: "canonicalDirectoryBytes dir = Inr bytes"
    by (auto simp: verifyDirectoryThreshold_def bind_res_Inr_iff split: if_split_asm)
  let ?ss = "count_signers L (normalizePinnedSigners pin) bytes (zip signers sigs) []"
  from assms th s g b have "th \<le> int (length ?ss)" and f: "finish_bindings L pre dir (DirOkThreshold ?ss th) = Inr v"
    by (auto simp: verifyDirectoryThreshold_def Let_def split: if_split_asm)
  with finish_bindings_ok [OF b f assms(2)] th s g b show ?thesis
    using count_signers_distinct [of "[]"] count_signers_set [of L "normalizePinnedSigners pin" bytes "zip signers sigs" "[]"] by auto
qed

lemma single_ok_D:
  assumes "verifyDirectory L pre dir pin = Inr v" "dir_ok v" "\<not> isThresholdDirectory dir"
  shows "\<exists>bytes p gs. canonicalDirectoryBytes dir = Inr bytes \<and> gateways_of dir = JArr gs \<and> v = DirOk p
    \<and> p \<in> set (normalizePinnedSigners pin) \<and> ed25519Verify L bytes (getp dir ''signature'') p \<and> (\<forall>g\<in>set gs. entry_bound L pre g)"
proof -
  let ?go = "bind_res (canonicalDirectoryBytes dir) (\<lambda>bytes.
     case find (\<lambda>p. ed25519Verify L bytes (getp dir ''signature'') p) (normalizePinnedSigners pin) of
       Some p \<Rightarrow> if p = [] then Inr (DirBad ''bad-signature'') else finish_bindings L pre dir (DirOk p)
     | None \<Rightarrow> Inr (DirBad ''bad-signature''))"
  have "?go = Inr v"
    using assms by (cases "getp dir ''signer''") (auto simp: verifyDirectory_def Let_def split: if_split_asm)
  then obtain bytes where b: "canonicalDirectoryBytes dir = Inr bytes"
    and r: "(case find (\<lambda>p. ed25519Verify L bytes (getp dir ''signature'') p) (normalizePinnedSigners pin) of
       Some p \<Rightarrow> if p = [] then Inr (DirBad ''bad-signature'') else finish_bindings L pre dir (DirOk p)
     | None \<Rightarrow> Inr (DirBad ''bad-signature'')) = Inr v" by (auto simp: bind_res_Inr_iff)
  from r assms(2) obtain p where p: "find (\<lambda>p. ed25519Verify L bytes (getp dir ''signature'') p) (normalizePinnedSigners pin) = Some p"
    and f: "finish_bindings L pre dir (DirOk p) = Inr v" by (auto split: option.splits if_split_asm)
  from finish_bindings_ok [OF b f assms(2)] find_SomeD [OF p] b show ?thesis by blast
qed

section \<open>Signing and verifying\<close>

lemma getp_setp: "k \<noteq> k' \<Longrightarrow> getp (setp v k x) k' = getp v k'"
  by (cases v) simp_all

lemma getp_setp_same: "plain_object v \<Longrightarrow> getp (setp v k x) k = x"
  by (cases v) simp_all

lemma canonicalDirectoryBytes_setp:
  "k \<notin> {''version'', ''issued'', ''gateways''} \<Longrightarrow> canonicalDirectoryBytes (setp dir k x) = canonicalDirectoryBytes dir"
  by (simp add: canonicalDirectoryBytes_def gateways_of_def getp_setp split: jsval.split)

lemma checkGatewayBindings_setp:
  "k \<noteq> ''gateways'' \<Longrightarrow> checkGatewayBindings L pre (setp dir k x) = checkGatewayBindings L pre dir"
  by (simp add: checkGatewayBindings_def gateways_of_def getp_setp)

lemma js_lower_hex [simp]: "js_lower (hex_encode k) = hex_encode k"
proof -
  have "lower_char (hex_char n) = hex_char n" if "n < 16" for n
    using that by (auto simp: hex_char_def lower_char_def Let_def)
  moreover have "(of_char c :: nat) div 16 < 16" for c :: char by (simp add: div_less_iff_less_mult)
  ultimately show ?thesis by (simp add: js_lower_def hex_encode_def map_concat comp_def Let_def)
qed

lemma no_0x: "take 2 (hex_encode k) \<noteq> ''0x''"
proof (cases k)
  case (Cons c cs)
  have "hex_char n \<noteq> CHR ''x''" if "n < 16" for n
  proof
    assume "hex_char n = CHR ''x''"
    then have "(of_char (hex_char n) :: nat) = 120" by simp
    with that show False by (auto simp: hex_char_def split: if_split_asm)
  qed
  then show ?thesis using Cons by (simp add: hex_encode_def Let_def)
qed (simp add: hex_encode_def)

lemma norm_key_hex [simp]: "norm_key (hex_encode k) = hex_encode k"
  using no_0x [of k] by (simp add: norm_key_def)

text \<open>What the signature scheme promises: the key of a seed has 32 bytes and accepts that seed's signatures.\<close>

definition ed_correct :: "dir_lib \<Rightarrow> bool" where
  "ed_correct L \<longleftrightarrow> (\<forall>seed m. length seed = 32 \<longrightarrow> length (ed_pub L seed) = 32 \<and> ed_verify L m (ed_pub L seed) (ed_sign L m seed) = Inr True)"

lemma ed25519_sign_verify:
  assumes "ed_correct L" "length seed = 32"
  shows "ed25519Sign L m (hex_encode seed) = Inr (hex_encode (ed_sign L m seed))"
    "ed25519PubFromSeed L (hex_encode seed) = Inr (hex_encode (ed_pub L seed))"
    "ed25519Verify L m (JStr (hex_encode (ed_sign L m seed))) (hex_encode (ed_pub L seed))"
  using assms by (simp_all add: ed25519Sign_def ed25519PrivateKey_def ed25519PubFromSeed_def ed25519Verify_def ed25519PublicKey_def
      buffer_hex_def ed_correct_def)

lemma signed_directory_verifies:
  assumes L: "ed_correct L" and seed: "length seed = 32" and dir: "plain_object dir" "\<not> isThresholdDirectory dir"
    and b: "canonicalDirectoryBytes dir = Inr bytes"
    and signer: "nullish (getp dir ''signer'') \<or> getp dir ''signer'' = JStr (hex_encode (ed_pub L seed))"
    and bound: "checkGatewayBindings L pre dir = Inr None" and nonempty: "ed_sign L bytes seed \<noteq> []"
  shows "\<exists>dir'. signDirectory L dir (hex_encode seed) = Inr dir'
    \<and> verifyDirectory L pre dir' (OnePin (hex_encode (ed_pub L seed))) = Inr (DirOk (hex_encode (ed_pub L seed)))"
proof -
  note S = ed25519_sign_verify [OF L seed]
  let ?pub = "hex_encode (ed_pub L seed)" and ?sig = "JStr (hex_encode (ed_sign L bytes seed))"
  let ?dir = "setp dir ''signature'' ?sig"
  have "ed_pub L seed \<noteq> []" using L seed by (auto simp: ed_correct_def)
  then have pub: "?pub \<noteq> []" and sig: "hex_encode (ed_sign L bytes seed) \<noteq> []" using nonempty by simp_all
  have sd: "signDirectory L dir (hex_encode seed) = Inr ?dir" by (simp add: signDirectory_def b S(1))
  have obj: "is_object ?dir" using dir(1) by (cases dir) simp_all
  have nt: "\<not> isThresholdDirectory ?dir" using dir(2) by (simp add: isThresholdDirectory_def getp_setp)
  have b': "canonicalDirectoryBytes ?dir = Inr bytes" by (simp add: canonicalDirectoryBytes_setp b)
  have fb: "finish_bindings L pre ?dir v = Inr v" for v by (simp add: finish_bindings_def checkGatewayBindings_setp bound)
  have "verifyDirectory L pre ?dir (OnePin ?pub) = Inr (DirOk ?pub)"
    using obj nt b' fb pub sig signer S(3) getp_setp_same [OF dir(1)]
    by (auto simp: verifyDirectory_def getp_setp Let_def)
  with sd show ?thesis by blast
qed

section \<open>The failover order\<close>

lemma selection_loop_props:
  "set (selection_loop F rng gs k ex) \<subseteq> set gs \<and> distinct (map (\<lambda>g. getp g ''onion'') (selection_loop F rng gs k ex))
   \<and> (\<forall>g\<in>set (selection_loop F rng gs k ex). getp g ''onion'' \<notin> set ex)"
proof (induction F rng gs k ex rule: selection_loop.induct)
  case (1 F rng gs k ex)
  show ?case
  proof (cases "pickGateway F gs ex (rng k)")
    case (Some g)
    with pick_pool_mem [OF pickGateway_mem [OF Some]] 1 [OF Some] show ?thesis
      by (auto simp: selection_loop.simps [of F rng gs k ex])
  qed (simp add: selection_loop.simps [of F rng gs k ex])
qed

text \<open>What the double arithmetic promises: a draw below one times a length stays below the length.\<close>

definition draws_ok :: "float_env \<Rightarrow> (nat \<Rightarrow> rat) \<Rightarrow> bool" where
  "draws_ok F rng \<longleftrightarrow> (\<forall>k n. 0 < n \<longrightarrow> 0 \<le> fl F (rng k * of_nat n) \<and> fl F (rng k * of_nat n) < of_nat n)"

lemma pickGateway_Some:
  assumes "draws_ok F rng" "pick_pool gs ex \<noteq> []"
  shows "\<exists>g. pickGateway F gs ex (rng k) = Some g"
proof -
  let ?n = "length (pick_pool gs ex)" and ?x = "fl F (rng k * of_nat (length (pick_pool gs ex)))"
  have "0 < ?n" using assms(2) by simp
  then have "0 \<le> ?x" "?x < of_nat ?n" using assms(1) unfolding draws_ok_def by blast+
  then have "0 \<le> \<lfloor>?x\<rfloor>" "\<lfloor>?x\<rfloor> < int ?n" by (simp_all add: floor_less_iff)
  with assms(2) show ?thesis by (auto simp: pickGateway_def Let_def split: option.split)
qed

lemma pick_pool_Nil: "pick_pool gs ex = [] \<longleftrightarrow> (\<forall>g\<in>set gs. getp g ''onion'' \<in> set ex)"
  by (auto simp: pick_pool_def Let_def filter_empty_conv)

lemma selection_loop_complete:
  "draws_ok F rng \<Longrightarrow> g \<in> set gs \<Longrightarrow>
     getp g ''onion'' \<in> set ex \<or> getp g ''onion'' \<in> (\<lambda>h. getp h ''onion'') ` set (selection_loop F rng gs k ex)"
proof (induction F rng gs k ex rule: selection_loop.induct)
  case (1 F rng gs k ex)
  show ?case
  proof (cases "pickGateway F gs ex (rng k)")
    case None
    have "pick_pool gs ex = []"
    proof (rule ccontr)
      assume "pick_pool gs ex \<noteq> []"
      from pickGateway_Some [OF 1(2) this, of k] None show False by simp
    qed
    with 1(3) show ?thesis by (simp add: pick_pool_Nil)
  next
    case (Some h)
    with 1(1) [OF Some 1(2,3)] show ?thesis by (auto simp: selection_loop.simps [of F rng gs k ex])
  qed
qed

lemma pick_pool_down:
  "d \<in> set (pick_pool gs ex) \<Longrightarrow> getp d ''health'' = JStr ''down'' \<Longrightarrow> g \<in> set gs \<Longrightarrow> getp g ''health'' \<noteq> JStr ''down'' \<Longrightarrow>
     getp g ''onion'' \<in> set ex"
  by (auto simp: pick_pool_def Let_def filter_empty_conv split: if_split_asm)

lemma selection_loop_down_last:
  "selection_loop F rng gs k ex = xs @ d # ys \<Longrightarrow> getp d ''health'' = JStr ''down'' \<Longrightarrow> g \<in> set gs \<Longrightarrow>
     getp g ''health'' \<noteq> JStr ''down'' \<Longrightarrow> getp g ''onion'' \<in> set ex \<or> getp g ''onion'' \<in> (\<lambda>h. getp h ''onion'') ` set xs"
proof (induction F rng gs k ex arbitrary: xs rule: selection_loop.induct)
  case (1 F rng gs k ex)
  from 1(2) obtain h where h: "pickGateway F gs ex (rng k) = Some h"
    by (auto simp: selection_loop.simps [of F rng gs k ex] split: option.splits)
  show ?case
  proof (cases xs)
    case Nil
    with 1(2) h have "h = d" by (simp add: selection_loop.simps [of F rng gs k ex])
    with pick_pool_down [OF pickGateway_mem [OF h]] 1(3-5) show ?thesis by blast
  next
    case (Cons x xs')
    have "selection_loop F rng gs k ex = h # selection_loop F rng gs (Suc k) (getp h ''onion'' # ex)"
      by (simp add: selection_loop.simps [of F rng gs k ex] h)
    with 1(2) Cons have "h # selection_loop F rng gs (Suc k) (getp h ''onion'' # ex) = x # xs' @ d # ys"
      by (metis append_Cons)
    then have "x = h" "selection_loop F rng gs (Suc k) (getp h ''onion'' # ex) = xs' @ d # ys" by blast+
    with 1(1) [OF h _ 1(3-5), of xs'] Cons show ?thesis by auto
  qed
qed

section \<open>Properties\<close>

text \<open>
  C37: an accepted directory is authentic and bound. If verification accepts, the canonical bytes
  carry a valid signature of a pinned signer, or, in threshold mode, of at least the declared number
  of distinct pinned signers (counting exactly the pinned keys with a valid signature, so duplicated
  and unpinned signers never help); and every gateway entry's key is the one its onion address
  encodes, with advertised capabilities signed by that key.
\<close>

theorem verifyDirectory_sound:
  assumes "verifyDirectory L pre dir pin = Inr v" "dir_ok v"
  shows "\<exists>bytes gs. canonicalDirectoryBytes dir = Inr bytes \<and> gateways_of dir = JArr gs \<and> (\<forall>g\<in>set gs. entry_bound L pre g)
    \<and> (case v of
         DirOk p \<Rightarrow> p \<in> set (normalizePinnedSigners pin) \<and> ed25519Verify L bytes (getp dir ''signature'') p
       | DirOkThreshold ss th \<Rightarrow> \<exists>signers sigs. getp dir ''signers'' = JArr signers \<and> getp dir ''signatures'' = JArr sigs
           \<and> getp dir ''threshold'' = JNum th \<and> 1 \<le> th \<and> distinct ss
           \<and> set ss = {k. valid_signer L (normalizePinnedSigners pin) bytes (zip signers sigs) k}
           \<and> th \<le> int (card {k. valid_signer L (normalizePinnedSigners pin) bytes (zip signers sigs) k})
       | DirBad _ \<Rightarrow> False)"
proof (cases "isThresholdDirectory dir")
  case True
  with assms have "verifyDirectoryThreshold L pre dir pin = Inr v" by (auto simp: verifyDirectory_def split: if_split_asm)
  from threshold_ok_D [OF this assms(2)] obtain bytes signers sigs ss th gs where
    r: "canonicalDirectoryBytes dir = Inr bytes" "gateways_of dir = JArr gs" "getp dir ''signers'' = JArr signers"
      "getp dir ''signatures'' = JArr sigs" "getp dir ''threshold'' = JNum th" "v = DirOkThreshold ss th" "1 \<le> th" "th \<le> int (length ss)"
      "distinct ss" "set ss = {k. valid_signer L (normalizePinnedSigners pin) bytes (zip signers sigs) k}" "\<forall>g\<in>set gs. entry_bound L pre g"
    by blast
  have "card {k. valid_signer L (normalizePinnedSigners pin) bytes (zip signers sigs) k} = length ss"
    using r(9,10) distinct_card by metis
  with r show ?thesis by auto
next
  case False
  from single_ok_D [OF assms False] show ?thesis by auto
qed

text \<open>A toy scheme: a signature is the seed, a key is its reversal.\<close>

definition toy_lib :: dir_lib where
  "toy_lib = \<lparr>sha3 = (\<lambda>_. ''xy''), ed_verify = (\<lambda>m k s. Inr (k = rev s)), ed_sign = (\<lambda>m s. s), ed_pub = rev, buffer_other = (\<lambda>_. Inl TypeError)\<rparr>"

definition toy_dir :: jsval where
  "toy_dir = JObj [(''version'', JNum 1), (''issued'', JNum 9), (''gateways'', JArr [])]"

definition toy_seed :: string where "toy_seed = replicate 32 (CHR ''s'')"

lemma toy_facts:
  "ed_correct toy_lib" "length toy_seed = 32" "plain_object toy_dir" "\<not> isThresholdDirectory toy_dir"
  "nullish (getp toy_dir ''signer'') \<or> getp toy_dir ''signer'' = JStr (hex_encode (ed_pub toy_lib toy_seed))" "checkGatewayBindings toy_lib False toy_dir = Inr None" "ed_sign toy_lib b toy_seed \<noteq> []"
  by (simp_all add: ed_correct_def toy_lib_def toy_seed_def toy_dir_def isThresholdDirectory_def checkGatewayBindings_def gateways_of_def js_or_def)

lemma toy_bytes: "\<exists>b. canonicalDirectoryBytes toy_dir = Inr b"
  by (simp add: canonicalDirectoryBytes_def toy_dir_def gateways_of_def js_or_def)

lemma toy_verifies:
  "\<exists>dir'. signDirectory toy_lib toy_dir (hex_encode toy_seed) = Inr dir'
    \<and> verifyDirectory toy_lib False dir' (OnePin (hex_encode toy_seed)) = Inr (DirOk (hex_encode toy_seed))"
proof -
  obtain b where b: "canonicalDirectoryBytes toy_dir = Inr b" using toy_bytes by blast
  have "ed_pub toy_lib toy_seed = toy_seed" by (simp add: toy_lib_def toy_seed_def)
  with signed_directory_verifies [OF toy_facts(1-4) b toy_facts(5-7)] show ?thesis by simp
qed

theorem verifyDirectory_sound_witness:
  "\<exists>dir' bytes. signDirectory toy_lib toy_dir (hex_encode toy_seed) = Inr dir' \<and> canonicalDirectoryBytes dir' = Inr bytes
     \<and> ed25519Verify toy_lib bytes (getp dir' ''signature'') (hex_encode toy_seed)"
proof -
  obtain dir' where d: "signDirectory toy_lib toy_dir (hex_encode toy_seed) = Inr dir'"
    "verifyDirectory toy_lib False dir' (OnePin (hex_encode toy_seed)) = Inr (DirOk (hex_encode toy_seed))" using toy_verifies by blast
  from verifyDirectory_sound [OF d(2)] d(1) show ?thesis by auto
qed

text \<open>
  signing and verifying fit. For every signature scheme whose keys accept their own
  signatures, a directory whose entries are bound verifies after \<open>signDirectory\<close> under a client
  that pins the signer's key.
\<close>

theorem signDirectory_verifies:
  assumes "ed_correct L" "length seed = 32" "plain_object dir" "\<not> isThresholdDirectory dir"
    and "canonicalDirectoryBytes dir = Inr bytes"
    and "nullish (getp dir ''signer'') \<or> getp dir ''signer'' = JStr (hex_encode (ed_pub L seed))"
    and "checkGatewayBindings L pre dir = Inr None" "ed_sign L bytes seed \<noteq> []"
  shows "\<exists>dir'. signDirectory L dir (hex_encode seed) = Inr dir'
    \<and> verifyDirectory L pre dir' (OnePin (hex_encode (ed_pub L seed))) = Inr (DirOk (hex_encode (ed_pub L seed)))"
  by (rule signed_directory_verifies [OF assms])

theorem signDirectory_verifies_witness:
  "\<exists>dir'. signDirectory toy_lib toy_dir (hex_encode toy_seed) = Inr dir'
    \<and> verifyDirectory toy_lib False dir' (OnePin (hex_encode (ed_pub toy_lib toy_seed))) = Inr (DirOk (hex_encode (ed_pub toy_lib toy_seed)))"
proof -
  obtain b where b: "canonicalDirectoryBytes toy_dir = Inr b" using toy_bytes by blast
  show ?thesis by (rule signDirectory_verifies [OF toy_facts(1-4) b toy_facts(5-7)])
qed

text \<open>
  a loaded directory is always a verified one. Loading returns the fresh file when it
  verifies, otherwise the cached copy when that verifies, and fails otherwise; what it writes to the
  cache verified too.
\<close>

theorem loadDirectory_verified:
  assumes "loadDirectory L pin fresh cached = (Inr (dir, source), written)"
  shows "\<exists>v. verifyDirectory L False dir pin = Inr v \<and> dir_ok v
    \<and> (source = ''fresh'' \<and> fresh = Some (Inr dir) \<or>
       source = ''cache'' \<and> cached = Some (Inr dir) \<and> (\<forall>d. fresh = Some (Inr d) \<longrightarrow> \<not> (\<exists>v. verifyDirectory L False d pin = Inr v \<and> dir_ok v)))
    \<and> (\<forall>w. written = Some w \<longrightarrow> w = dir \<and> source = ''fresh'')"
proof -
  have vr: "verified_read L pin r = Inr d \<longleftrightarrow> (\<exists>v. r = Inr d \<and> verifyDirectory L False d pin = Inr v \<and> dir_ok v)" for r d
  proof (cases r)
    case (Inr b)
    show ?thesis
    proof (cases "verifyDirectory L False b pin")
      case (Inr v)
      with \<open>r = Inr b\<close> show ?thesis by (cases v) (auto simp: verified_read_def)
    qed (use Inr in \<open>auto simp: verified_read_def\<close>)
  qed (simp add: verified_read_def)
  consider (fresh) r where "fresh = Some r" "verified_read L pin r = Inr dir" "source = ''fresh''" "written = None \<or> written = Some dir"
    | (cache) r where "cached = Some r" "verified_read L pin r = Inr dir" "source = ''cache''" "written = None"
        "\<forall>r. fresh = Some r \<longrightarrow> (\<exists>e. verified_read L pin r = Inl e)"
    using assms by (auto simp: loadDirectory_def Let_def split: option.splits sum.splits if_split_asm)
  then show ?thesis
  proof cases
    case fresh
    with vr [of r dir] show ?thesis by auto
  next
    case cache
    from vr [of r dir] cache(1,2) obtain v where v: "cached = Some (Inr dir)" "verifyDirectory L False dir pin = Inr v" "dir_ok v" by auto
    have "\<not> (\<exists>v. verifyDirectory L False d pin = Inr v \<and> dir_ok v)" if f: "fresh = Some (Inr d)" for d
      using vr [of "Inr d" d] cache(5) f by fastforce
    with v cache(3,4) show ?thesis by auto
  qed
qed

theorem loadDirectory_verified_witness:
  "\<exists>dir' v. loadDirectory toy_lib (OnePin (hex_encode toy_seed)) (Some (Inl SyntaxError)) (Some (Inr dir')) = (Inr (dir', ''cache''), None)
     \<and> verifyDirectory toy_lib False dir' (OnePin (hex_encode toy_seed)) = Inr v \<and> dir_ok v"
proof -
  obtain dir' where d: "verifyDirectory toy_lib False dir' (OnePin (hex_encode toy_seed)) = Inr (DirOk (hex_encode toy_seed))"
    using toy_verifies by blast
  then have l: "loadDirectory toy_lib (OnePin (hex_encode toy_seed)) (Some (Inl SyntaxError)) (Some (Inr dir')) = (Inr (dir', ''cache''), None)"
    by (simp add: loadDirectory_def verified_read_def)
  from loadDirectory_verified [OF l] l show ?thesis by blast
qed

text \<open>
  failover tries the whole fleet. Whatever the draws, the weights and the rounding, the order
  contains every onion of the directory exactly once, only entries of the directory, and a gateway
  marked down comes only after every onion that has an entry not marked down.
\<close>

theorem selectionOrder_complete:
  assumes "draws_ok F rng"
  shows "set (selectionOrder F rng dir) \<subseteq> set (gateway_list dir)
    \<and> distinct (map (\<lambda>g. getp g ''onion'') (selectionOrder F rng dir))
    \<and> (\<lambda>g. getp g ''onion'') ` set (selectionOrder F rng dir) = (\<lambda>g. getp g ''onion'') ` set (gateway_list dir)
    \<and> (\<forall>xs d ys g. selectionOrder F rng dir = xs @ d # ys \<and> getp d ''health'' = JStr ''down'' \<and> g \<in> set (gateway_list dir)
         \<and> getp g ''health'' \<noteq> JStr ''down'' \<longrightarrow> getp g ''onion'' \<in> (\<lambda>h. getp h ''onion'') ` set xs)"
proof -
  let ?o = "\<lambda>g. getp g ''onion''"
  note P = selection_loop_props [of F rng "gateway_list dir" 0 "[]"]
  have "?o ` set (gateway_list dir) \<subseteq> ?o ` set (selectionOrder F rng dir)"
    using selection_loop_complete [OF assms, of _ "gateway_list dir" "[]" 0] by (auto simp: selectionOrder_def)
  moreover have "?o ` set (selectionOrder F rng dir) \<subseteq> ?o ` set (gateway_list dir)" using P by (auto simp: selectionOrder_def)
  moreover have "\<forall>xs d ys g. selectionOrder F rng dir = xs @ d # ys \<and> getp d ''health'' = JStr ''down'' \<and> g \<in> set (gateway_list dir)
         \<and> getp g ''health'' \<noteq> JStr ''down'' \<longrightarrow> ?o g \<in> ?o ` set xs"
    using selection_loop_down_last [of F rng "gateway_list dir" 0 "[]"] unfolding selectionOrder_def by (metis empty_iff empty_set)
  ultimately show ?thesis using P by (simp add: selectionOrder_def)
qed

theorem selectionOrder_complete_witness:
  "map (\<lambda>g. getp g ''onion'') (selectionOrder \<lparr>fl = id, flt = (\<lambda>_. 0)\<rparr> (\<lambda>_. 0)
     (JObj [(''gateways'', JArr [JObj [(''onion'', JStr ''a''), (''health'', JStr ''down'')], JObj [(''onion'', JStr ''b'')]])])) = [JStr ''b'', JStr ''a'']"
proof -
  let ?F = "\<lparr>fl = id, flt = (\<lambda>_. 0)\<rparr>" and ?rng = "\<lambda>_. 0 :: rat"
  let ?a = "JObj [(''onion'', JStr ''a''), (''health'', JStr ''down'')]" and ?b = "JObj [(''onion'', JStr ''b'')]"
  let ?dir = "JObj [(''gateways'', JArr [?a, ?b])]"
  have gl: "gateway_list ?dir = [?a, ?b]" by (simp add: gateway_list_def gateways_of_def js_or_def)
  have ok: "draws_ok ?F ?rng" by (simp add: draws_ok_def)
  note P = selectionOrder_complete [OF ok, of ?dir]
  let ?l = "selectionOrder ?F ?rng ?dir"
  have s: "set ?l \<subseteq> {?a, ?b}" "distinct (map (\<lambda>g. getp g ''onion'') ?l)" using P gl by auto
  have i: "(\<lambda>g. getp g ''onion'') ` set ?l = {JStr ''a'', JStr ''b''}" using P gl by auto
  have first: "\<not> (\<exists>ys. ?l = ?a # ys)"
  proof
    assume "\<exists>ys. ?l = ?a # ys"
    then obtain ys where "?l = [] @ ?a # ys" by auto
    moreover have "?b \<in> set (gateway_list ?dir)" "getp ?b ''health'' \<noteq> JStr ''down''" "getp ?a ''health'' = JStr ''down''" by (simp_all add: gl)
    ultimately have "getp ?b ''onion'' \<in> (\<lambda>h. getp h ''onion'') ` set []" using P by blast
    then show False by simp
  qed
  let ?m = "map (\<lambda>g. getp g ''onion'') ?l"
  have m: "distinct ?m" "set ?m = {JStr ''a'', JStr ''b''}" using s i by simp_all
  then have "length ?m = 2" using distinct_card [OF m(1)] by simp
  then obtain x y where l: "?l = [x, y]" by (auto simp: numeral_2_eq_2 length_Suc_conv)
  with s(1) first have x: "x = ?b" by auto
  have "getp y ''onion'' = JStr ''a''" using m(2) l x by (simp add: doubleton_eq_iff)
  with l x show ?thesis by simp
qed

end
