(* ===== verification/Announce.thy ===== *)
theory Announce
  imports Directory
begin

text \<open>
  The announce protocol of \<^verbatim>\<open>src/bootnode/announce.mjs\<close>: building and verifying a gateway's
  signed announcement. \<open>verifyAnnounce\<close> has a part that runs before its first \<open>await\<close>
  (\<open>announce_checks\<close>) and a part that runs once the operator signature and the stake have been
  looked up (\<open>announce_finish\<close>); the bootnode interleaves other work between them. Signer recovery
  (\<open>ethers\<close>) and the stake reader are arguments.
\<close>

definition ANNOUNCE_VERSION :: int where "ANNOUNCE_VERSION = 1"
definition DEFAULT_ANNOUNCE_SKEW :: int where "DEFAULT_ANNOUNCE_SKEW = 120"

definition canonicalAnnounceBytes :: "jsval \<Rightarrow> string" where
  "canonicalAnnounceBytes rec = utf8 (json_stringify (JObj
     ([(''v'', getp rec ''v''), (''onion'', getp rec ''onion''), (''weight'', getp rec ''weight''), (''ts'', getp rec ''ts''), (''nonce'', getp rec ''nonce'')]
      @ (if hasCaps (getp rec ''caps'') then [(''caps'', canonicalCaps (getp rec ''caps''))] else []))))"

definition operatorAuthMessage :: "string \<Rightarrow> jsval \<Rightarrow> string" where
  "operatorAuthMessage onion operator = ''Shade Tree gateway operator authorization'' @ [CHR 0x0A] @ ''onion='' @ onion @ [CHR 0x0A]
     @ ''operator='' @ js_lower (js_string operator)"

text \<open>\<open>ts\<close> and \<open>nonce\<close> default to the clock and to fresh random bytes; here they are given.\<close>

definition buildAnnounce :: "dir_lib \<Rightarrow> string \<Rightarrow> jsval \<Rightarrow> string \<Rightarrow> jsval \<Rightarrow> jsval \<Rightarrow> int \<Rightarrow> string \<Rightarrow> jsval \<Rightarrow> jsval res" where
  "buildAnnounce L onion weight seedHex operator operatorSig ts nonce caps =
     (let base = [(''v'', JNum ANNOUNCE_VERSION), (''onion'', JStr onion), (''weight'', weight), (''ts'', JNum ts), (''nonce'', JStr nonce)] in
      bind_res (if hasCaps caps
         then bind_res (signCaps L onion (canonicalCaps caps) seedHex) (\<lambda>s. Inr (base @ [(''caps'', canonicalCaps caps), (''capsSig'', JStr s)]))
         else Inr base) (\<lambda>r.
      bind_res (ed25519Sign L (canonicalAnnounceBytes (JObj r)) seedHex) (\<lambda>sig.
        Inr (JObj (r @ [(''onionSig'', JStr sig)]
          @ (if truthy operator \<and> truthy operatorSig
             then [(''operator'', JStr (js_lower (js_string operator))), (''operatorSig'', operatorSig)] else []))))))"

definition verifyOperatorSig :: "(string \<Rightarrow> jsval \<Rightarrow> string res) option \<Rightarrow> string \<Rightarrow> jsval \<Rightarrow> jsval \<Rightarrow> bool" where
  "verifyOperatorSig ethers onion operator sig = (case ethers of
     None \<Rightarrow> False
   | Some recover \<Rightarrow> (case recover (operatorAuthMessage onion operator) sig of
       Inr addr \<Rightarrow> js_lower addr = js_lower (js_string operator) | Inl _ \<Rightarrow> False))"

record ann_ok =
  an_onion :: string
  an_pubkey :: string
  an_operator :: "string option"
  an_staked :: bool
  an_caps :: "jsval option"

type_synonym ann_verdict = "string + ann_ok"  \<comment> \<open>\<open>Inl\<close> is \<open>{ ok: false, reason }\<close>\<close>

text \<open>\<open>skew\<close> is \<open>None\<close> when it is \<open>Infinity\<close>.\<close>

definition ts_stale :: "float_env \<Rightarrow> int \<Rightarrow> int option \<Rightarrow> jsval \<Rightarrow> bool" where
  "ts_stale F now skew ts = (case ts of
     JNum t \<Rightarrow> (case skew of None \<Rightarrow> False | Some sk \<Rightarrow> \<bar>now - t\<bar> > sk)
   | JFloat s \<Rightarrow> (case skew of None \<Rightarrow> False | Some sk \<Rightarrow>
       if s = ''NaN'' then False else if s \<in> {''Infinity'', ''-Infinity''} then True else \<bar>of_int now - flt F s\<bar> > of_int sk)
   | _ \<Rightarrow> True)"

definition nonce_key :: "string \<Rightarrow> jsval \<Rightarrow> string" where
  "nonce_key onion rec = onion @ '':'' @ js_string (getp rec ''nonce'')"

text \<open>Up to the first \<open>await\<close>: the onion, its key and the verified capabilities.\<close>

definition announce_checks :: "dir_lib \<Rightarrow> float_env \<Rightarrow> int \<Rightarrow> int option \<Rightarrow> (string \<Rightarrow> bool) option \<Rightarrow> jsval \<Rightarrow> string + (string \<times> string \<times> jsval option)" where
  "announce_checks L F now skew seen rec =
     (if \<not> is_object rec then Inl ''no-announce''
      else if getp rec ''v'' \<noteq> JNum ANNOUNCE_VERSION then Inl (''bad-version:'' @ js_string (getp rec ''v''))
      else case getp rec ''onion'' of JStr onion \<Rightarrow>
        (case onionToPubkey (sha3 L) onion of
           Inl e \<Rightarrow> Inl (''bad-onion:'' @ exn_message e)
         | Inr pubkey \<Rightarrow>
             if ts_stale F now skew (getp rec ''ts'') then Inl (''stale-ts:'' @ js_string (getp rec ''ts''))
             else if (case seen of Some has \<Rightarrow> has (nonce_key onion rec) | None \<Rightarrow> False) then Inl ''replayed-nonce''
             else if \<not> truthy (getp rec ''onionSig'') \<or> \<not> verifyOnionControl L onion (canonicalAnnounceBytes rec) (getp rec ''onionSig'')
             then Inl ''bad-onion-sig''
             else if nullish (getp rec ''caps'') then Inr (onion, pubkey, None)
             else if getp rec ''capsSig'' \<noteq> JUndef \<and> \<not> verifyCapsSig L onion (getp rec ''caps'') (getp rec ''capsSig'') then Inl ''bad-caps-sig''
             else Inr (onion, pubkey, if hasCaps (canonicalCaps (getp rec ''caps'')) then Some (canonicalCaps (getp rec ''caps'')) else None))
      | _ \<Rightarrow> Inl ''no-onion'')"

text \<open>
  The rest, given the answers: \<open>isStaked\<close> is \<open>None\<close> when no reader is configured, and its
  answer may be a thrown error.
\<close>

definition announce_finish :: "(string \<Rightarrow> jsval \<Rightarrow> string res) option \<Rightarrow> (string \<Rightarrow> bool res) option \<Rightarrow> bool \<Rightarrow> jsval \<Rightarrow>
    string \<times> string \<times> jsval option \<Rightarrow> ann_verdict" where
  "announce_finish ethers isStaked requireStake rec p = (case p of (onion, pubkey, caps) \<Rightarrow>
     let operator = getp rec ''operator''; sig = getp rec ''operatorSig'';
         done = (\<lambda>opr staked. if requireStake \<and> \<not> staked then Inl ''not-staked''
           else Inr \<lparr>an_onion = onion, an_pubkey = pubkey, an_operator = opr, an_staked = staked, an_caps = caps\<rparr>) in
     if truthy operator \<and> truthy sig
     then (if \<not> verifyOperatorSig ethers onion operator sig then Inl ''bad-operator-sig''
           else let opr = js_lower (js_string operator) in
             (case isStaked of
                None \<Rightarrow> done (Some opr) False
              | Some f \<Rightarrow> (case f opr of
                  Inr b \<Rightarrow> done (Some opr) b
                | Inl e \<Rightarrow> if requireStake then Inl (''stake-check-failed:'' @ exn_message e) else done (Some opr) False)))
     else done None False)"

definition verifyAnnounce :: "dir_lib \<Rightarrow> float_env \<Rightarrow> (string \<Rightarrow> jsval \<Rightarrow> string res) option \<Rightarrow> (string \<Rightarrow> bool res) option \<Rightarrow> bool \<Rightarrow>
    int \<Rightarrow> int option \<Rightarrow> (string \<Rightarrow> bool) option \<Rightarrow> jsval \<Rightarrow> ann_verdict" where
  "verifyAnnounce L F ethers isStaked requireStake now skew seen rec =
     (case announce_checks L F now skew seen rec of Inl r \<Rightarrow> Inl r | Inr p \<Rightarrow> announce_finish ethers isStaked requireStake rec p)"

section \<open>Facts about an accepted announcement\<close>

lemma announce_checks_Inr:
  assumes "announce_checks L F now skew seen rec = Inr (onion, pubkey, caps)"
  shows "getp rec ''onion'' = JStr onion" "onionToPubkey (sha3 L) onion = Inr pubkey" "\<not> ts_stale F now skew (getp rec ''ts'')"
    "seen = Some has \<Longrightarrow> \<not> has (nonce_key onion rec)"
    "verifyOnionControl L onion (canonicalAnnounceBytes rec) (getp rec ''onionSig'')"
    "caps = Some c \<Longrightarrow> c = canonicalCaps (getp rec ''caps'') \<and> hasCaps c \<and>
       (getp rec ''capsSig'' \<noteq> JUndef \<longrightarrow> verifyCapsSig L onion c (getp rec ''capsSig''))"
proof -
  from assms obtain o' where o: "getp rec ''onion'' = JStr o'"
    by (cases "getp rec ''onion''") (auto simp: announce_checks_def split: if_split_asm)
  from assms o obtain k where k: "onionToPubkey (sha3 L) o' = Inr k"
    by (cases "onionToPubkey (sha3 L) o'") (auto simp: announce_checks_def split: if_split_asm)
  have stable: "verifyCapsSig L a (canonicalCaps c) s = verifyCapsSig L a c s" for a c s
    by (simp add: verifyCapsSig_def caps_sig_ok_def canonicalCapsBytes_def split: jsval.split)
  have eq: "o' = onion" "k = pubkey"
    using assms o k by (auto simp: announce_checks_def split: if_split_asm)
  show "getp rec ''onion'' = JStr onion" "onionToPubkey (sha3 L) onion = Inr pubkey" using o k eq by simp_all
  show "\<not> ts_stale F now skew (getp rec ''ts'')"
    "seen = Some has \<Longrightarrow> \<not> has (nonce_key onion rec)"
    "verifyOnionControl L onion (canonicalAnnounceBytes rec) (getp rec ''onionSig'')"
    using assms o k eq by (auto simp: announce_checks_def split: if_split_asm)
  show "caps = Some c \<Longrightarrow> c = canonicalCaps (getp rec ''caps'') \<and> hasCaps c \<and>
       (getp rec ''capsSig'' \<noteq> JUndef \<longrightarrow> verifyCapsSig L onion c (getp rec ''capsSig''))"
    using assms o k eq by (auto simp: announce_checks_def stable split: if_split_asm)
qed

lemma announce_finish_Inr:
  assumes "announce_finish ethers isStaked requireStake rec (onion, pubkey, caps) = Inr a"
  shows "an_onion a = onion \<and> an_pubkey a = pubkey \<and> an_caps a = caps"
    "requireStake \<Longrightarrow> \<exists>opr f. an_operator a = Some opr \<and> isStaked = Some f \<and> f opr = Inr True
       \<and> opr = js_lower (js_string (getp rec ''operator'')) \<and> verifyOperatorSig ethers onion (getp rec ''operator'') (getp rec ''operatorSig'')"
  using assms by (auto simp: announce_finish_def Let_def split: if_split_asm option.splits sum.splits)

section \<open>A gateway's own announcement is accepted\<close>

lemma announce_bytes_cong:
  "(\<And>k. k \<in> {''v'', ''onion'', ''weight'', ''ts'', ''nonce'', ''caps''} \<Longrightarrow> getp r k = getp r' k) \<Longrightarrow> canonicalAnnounceBytes r = canonicalAnnounceBytes r'"
  by (simp add: canonicalAnnounceBytes_def)

lemma hasCaps_undef [simp]: "\<not> hasCaps JUndef"
  by (simp add: hasCaps_def getp_canonicalCaps caps_ports_def caps_region_def caps_proto_def caps_artifacts_def canonicalAdmits_def
      canonicalPay_def canonicalRate_def)

definition seed_keys :: "dir_lib \<Rightarrow> string \<Rightarrow> string \<Rightarrow> bool" where  \<comment> \<open>the seed, and the onion address of its key\<close>
  "seed_keys L seed onion \<longleftrightarrow> ed_correct L \<and> length seed = 32 \<and> (\<forall>m. ed_sign L m seed \<noteq> []) \<and> (\<forall>m. 2 \<le> length (sha3 L m))
     \<and> pubkeyToOnion (sha3 L) (hex_encode (ed_pub L seed)) = Inr onion"

lemma seed_onion_key:
  assumes "seed_keys L seed onion"
  shows "onionToPubkey (sha3 L) onion = Inr (hex_encode (ed_pub L seed))"
  using assms by (intro pubkey_of_onion_of_key) (auto simp: seed_keys_def ed_correct_def)

lemma seed_signs:
  assumes "seed_keys L seed onion"
  shows "ed25519Sign L m (hex_encode seed) = Inr (hex_encode (ed_sign L m seed))" "hex_encode (ed_sign L m seed) \<noteq> []"
    "verifyOnionControl L onion m (JStr (hex_encode (ed_sign L m seed)))"
proof -
  from assms have k: "ed_correct L" "length seed = 32" by (simp_all add: seed_keys_def)
  show "ed25519Sign L m (hex_encode seed) = Inr (hex_encode (ed_sign L m seed))" using ed25519_sign_verify(1) [OF k] .
  show "hex_encode (ed_sign L m seed) \<noteq> []" using assms by (simp add: seed_keys_def)
  show "verifyOnionControl L onion m (JStr (hex_encode (ed_sign L m seed)))"
    using ed25519_sign_verify(3) [OF k] by (simp add: verifyOnionControl_def seed_onion_key [OF assms])
qed

definition unseen :: "(string \<Rightarrow> bool) option \<Rightarrow> string \<Rightarrow> bool" where
  "unseen seen k \<longleftrightarrow> (case seen of Some has \<Rightarrow> \<not> has k | None \<Rightarrow> True)"

lemma own_announce_accepted:
  assumes K: "seed_keys L seed onion" and fresh: "\<bar>now - ts\<bar> \<le> skew" and op: "\<not> truthy opr"
    and new: "unseen seen (onion @ '':'' @ nonce)"
  shows "\<exists>rec. buildAnnounce L onion weight (hex_encode seed) opr oprSig ts nonce caps = Inr rec
    \<and> announce_checks L F now (Some skew) seen rec = Inr (onion, hex_encode (ed_pub L seed), if hasCaps caps then Some (canonicalCaps caps) else None)
    \<and> (hasCaps caps \<longrightarrow> (\<exists>s. getp rec ''capsSig'' = JStr s)) \<and> getp rec ''operator'' = JUndef"
proof -
  let ?base = "[(''v'', JNum ANNOUNCE_VERSION), (''onion'', JStr onion), (''weight'', weight), (''ts'', JNum ts), (''nonce'', JStr nonce)]"
  let ?cs = "hex_encode (ed_sign L (canonicalCapsBytes (JStr onion) (canonicalCaps caps)) seed)"
  let ?r = "?base @ (if hasCaps caps then [(''caps'', canonicalCaps caps), (''capsSig'', JStr ?cs)] else [])"
  let ?sig = "hex_encode (ed_sign L (canonicalAnnounceBytes (JObj ?r)) seed)"
  let ?rec = "JObj (?r @ [(''onionSig'', JStr ?sig)])"
  have b: "buildAnnounce L onion weight (hex_encode seed) opr oprSig ts nonce caps = Inr ?rec"
    using op by (simp add: buildAnnounce_def signCaps_def seed_signs(1) [OF K] Let_def)
  have g: "getp ?rec k = getp (JObj ?r) k" if "k \<noteq> ''onionSig''" for k using that by (simp add: map_add_def)
  have bytes: "canonicalAnnounceBytes ?rec = canonicalAnnounceBytes (JObj ?r)" by (rule announce_bytes_cong) (rule g, auto)
  have f: "getp ?rec ''v'' = JNum ANNOUNCE_VERSION" "getp ?rec ''onion'' = JStr onion" "getp ?rec ''ts'' = JNum ts"
      "getp ?rec ''nonce'' = JStr nonce" "getp ?rec ''onionSig'' = JStr ?sig" "getp ?rec ''operator'' = JUndef"
      "getp ?rec ''caps'' = (if hasCaps caps then canonicalCaps caps else JUndef)" "getp ?rec ''capsSig'' = (if hasCaps caps then JStr ?cs else JUndef)"
    by (simp_all add: map_add_def)
  have caps: "verifyCapsSig L onion (canonicalCaps caps) (JStr ?cs)"
    using seed_signs(2,3) [OF K, of "canonicalCapsBytes (JStr onion) (canonicalCaps caps)"] by (simp add: verifyCapsSig_def caps_sig_ok_def)
  have ctl: "verifyOnionControl L onion (canonicalAnnounceBytes ?rec) (JStr ?sig)" unfolding bytes by (rule seed_signs(3) [OF K])
  have nn: "hasCaps caps \<Longrightarrow> \<not> nullish (canonicalCaps caps)" by (simp add: canonicalCaps_def)
  have seen: "\<not> (case seen of Some has \<Rightarrow> has (nonce_key onion ?rec) | None \<Rightarrow> False)"
    using new f(4) by (auto simp: nonce_key_def unseen_def split: option.splits)
  have chk: "announce_checks L F now (Some skew) seen ?rec = Inr (onion, hex_encode (ed_pub L seed), if hasCaps caps then Some (canonicalCaps caps) else None)"
    unfolding announce_checks_def f jsval.case seed_onion_key [OF K] sum.case
    using seen ctl caps fresh nn seed_signs(2) [OF K] by (simp add: ts_stale_def)
  from b chk f(6,8) show ?thesis by (intro exI [of _ ?rec]) simp
qed

section \<open>Properties\<close>

text \<open>
  C40: an accepted announcement proves control of its onion. Its canonical bytes, capabilities
  included, are signed by the key the address encodes; its timestamp is within the window and its
  nonce unseen; reported capabilities are the canonical form of the signed ones and carry a valid
  standalone signature whenever one is attached; and under the stake policy the chain confirmed the
  stake of the operator the announcement names, in lower case, the same one whose authorization of
  this onion verified.
\<close>

theorem verifyAnnounce_sound:
  assumes "verifyAnnounce L F ethers isStaked requireStake now skew seen rec = Inr a"
  shows "getp rec ''onion'' = JStr (an_onion a) \<and> onionToPubkey (sha3 L) (an_onion a) = Inr (an_pubkey a)
    \<and> ed25519Verify L (canonicalAnnounceBytes rec) (getp rec ''onionSig'') (an_pubkey a)
    \<and> \<not> ts_stale F now skew (getp rec ''ts'') \<and> (\<forall>has. seen = Some has \<longrightarrow> \<not> has (nonce_key (an_onion a) rec))
    \<and> (\<forall>c. an_caps a = Some c \<longrightarrow> c = canonicalCaps (getp rec ''caps'')
         \<and> (getp rec ''capsSig'' \<noteq> JUndef \<longrightarrow> verifyCapsSig L (an_onion a) c (getp rec ''capsSig'')))
    \<and> (requireStake \<longrightarrow> (\<exists>opr f. an_operator a = Some opr \<and> opr = js_lower (js_string (getp rec ''operator''))
         \<and> isStaked = Some f \<and> f opr = Inr True
         \<and> verifyOperatorSig ethers (an_onion a) (getp rec ''operator'') (getp rec ''operatorSig'')))"
proof -
  from assms obtain onion pubkey caps where
    c: "announce_checks L F now skew seen rec = Inr (onion, pubkey, caps)"
    and f: "announce_finish ethers isStaked requireStake rec (onion, pubkey, caps) = Inr a"
    by (auto simp: verifyAnnounce_def split: sum.splits)
  note C = announce_checks_Inr [OF c] and N = announce_finish_Inr [OF f]
  have "ed25519Verify L (canonicalAnnounceBytes rec) (getp rec ''onionSig'') pubkey"
    using C(5) by (simp add: verifyOnionControl_def C(2))
  with C N show ?thesis by (simp add: Ball_def) blast
qed

text \<open>
  a gateway's own announcement is accepted. An announcement built with the seed of the onion's
  key, with any capabilities, verifies on every verifier whose clock is within the window and that
  has not seen its nonce, and reports the canonical capabilities.
\<close>

theorem announce_roundtrip:
  assumes "seed_keys L seed onion" "\<bar>now - ts\<bar> \<le> skew" "\<not> truthy opr" "unseen seen (onion @ '':'' @ nonce)"
  shows "\<exists>rec. buildAnnounce L onion weight (hex_encode seed) opr oprSig ts nonce caps = Inr rec
    \<and> verifyAnnounce L F ethers isStaked False now (Some skew) seen rec
        = Inr \<lparr>an_onion = onion, an_pubkey = hex_encode (ed_pub L seed), an_operator = None, an_staked = False,
               an_caps = (if hasCaps caps then Some (canonicalCaps caps) else None)\<rparr>"
proof -
  obtain rec where r: "buildAnnounce L onion weight (hex_encode seed) opr oprSig ts nonce caps = Inr rec"
    "announce_checks L F now (Some skew) seen rec = Inr (onion, hex_encode (ed_pub L seed), if hasCaps caps then Some (canonicalCaps caps) else None)"
    "getp rec ''operator'' = JUndef" using own_announce_accepted [OF assms] by blast
  then show ?thesis by (intro exI [of _ rec]) (simp add: verifyAnnounce_def announce_finish_def)
qed

definition toy_onion :: string where
  "toy_onion = (case pubkeyToOnion (sha3 toy_lib) (hex_encode toy_seed) of Inr a \<Rightarrow> a | Inl _ \<Rightarrow> [])"

lemma toy_keys: "seed_keys toy_lib toy_seed toy_onion"
proof -
  have l: "length toy_seed = 32" by (rule toy_facts(2))
  have "\<And>m. 2 \<le> length (sha3 toy_lib m)" by (simp add: toy_lib_def)
  from onion_of_key [of "sha3 toy_lib", OF this l] obtain a where a: "pubkeyToOnion (sha3 toy_lib) (hex_encode toy_seed) = Inr a" by blast
  have "ed_pub toy_lib toy_seed = toy_seed" by (simp add: toy_lib_def toy_seed_def)
  with a toy_facts(1,2,7) show ?thesis by (simp add: seed_keys_def toy_onion_def) (simp add: toy_lib_def)
qed

theorem announce_roundtrip_witness:
  "\<exists>rec. buildAnnounce toy_lib toy_onion (JNum 100) (hex_encode toy_seed) JNull JNull 1000 ''n'' JNull = Inr rec
    \<and> (\<exists>a. verifyAnnounce toy_lib \<lparr>fl = id, flt = (\<lambda>_. 0)\<rparr> None None False 1060 (Some 120) (Some (\<lambda>_. False)) rec = Inr a \<and> an_onion a = toy_onion)"
  using announce_roundtrip [OF toy_keys, of 1060 1000 120 JNull "Some (\<lambda>_. False)" "''n''" "JNum 100" JNull JNull "\<lparr>fl = id, flt = (\<lambda>_. 0)\<rparr>" None None]
  by (auto simp: unseen_def)

theorem verifyAnnounce_sound_witness:
  "\<exists>rec. getp rec ''onion'' = JStr toy_onion \<and> ed25519Verify toy_lib (canonicalAnnounceBytes rec) (getp rec ''onionSig'') (hex_encode toy_seed)"
proof -
  have "\<bar>1060 - (1000::int)\<bar> \<le> 120" "\<not> truthy JNull" by simp_all
  from own_announce_accepted [OF toy_keys this, of None "''n''" "JNum 100" JNull JNull "\<lparr>fl = id, flt = (\<lambda>_. 0)\<rparr>"]
  have "\<exists>rec. announce_checks toy_lib \<lparr>fl = id, flt = (\<lambda>_. 0)\<rparr> 1060 (Some 120) None rec
      = Inr (toy_onion, hex_encode (ed_pub toy_lib toy_seed), if hasCaps JNull then Some (canonicalCaps JNull) else None)
      \<and> getp rec ''operator'' = JUndef" by (auto simp: unseen_def)
  then obtain rec where r: "announce_checks toy_lib \<lparr>fl = id, flt = (\<lambda>_. 0)\<rparr> 1060 (Some 120) None rec
      = Inr (toy_onion, hex_encode (ed_pub toy_lib toy_seed), if hasCaps JNull then Some (canonicalCaps JNull) else None)"
    "getp rec ''operator'' = JUndef" by blast
  have k: "ed_pub toy_lib toy_seed = toy_seed" by (simp add: toy_lib_def toy_seed_def)
  obtain a where a: "verifyAnnounce toy_lib \<lparr>fl = id, flt = (\<lambda>_. 0)\<rparr> None None False 1060 (Some 120) None rec = Inr a"
      "an_onion a = toy_onion" "an_pubkey a = hex_encode toy_seed"
    using r k by (simp add: verifyAnnounce_def announce_finish_def)
  from verifyAnnounce_sound [OF a(1)] a(2,3) show ?thesis by (intro exI [of _ rec]) simp
qed

end
