(* ===== verification/Bootnode.thy ===== *)
theory Bootnode
  imports Announce
begin

text \<open>
  The bootnode registry of \<^verbatim>\<open>src/bootnode/server.mjs\<close> (\<open>makeRegistry\<close>): announcements with
  their flood controls, gossip from peers, expiry, the signed directory and its deltas, the health
  prober and the persisted store. An announcement is two steps, before and after its \<open>await\<close>,
  so verifications of several announcements overlap as they do in the event loop. The clock is the
  millisecond clock; \<open>now()\<close> is its seconds. Token-bucket arithmetic is over the rationals.
\<close>

section \<open>State\<close>

record reg_cfg =
  rg_lib :: dir_lib
  rg_float :: float_env
  rg_ethers :: "(string \<Rightarrow> jsval \<Rightarrow> string res) option"
  rg_requireStake :: bool
  rg_ttlSec :: int
  rg_maxEntries :: nat
  rg_minReannounceSec :: int
  rg_rate :: rat
  rg_burst :: rat
  rg_seed :: string             \<comment> \<open>\<open>signer.priv\<close>, raw\<close>
  rg_deltaHistoryMax :: nat
  rg_sha256 :: "string \<Rightarrow> string"
  rg_persist :: bool
  rg_probing :: bool
  rg_failThreshold :: int

record entry =
  en_pubkey :: string
  en_weight :: jsval
  en_operator :: "string option"
  en_staked :: bool
  en_caps :: "jsval option"
  en_capsSig :: "string option"
  en_rec :: jsval
  en_expiresAt :: rat
  en_lastAt :: int

datatype origin = Direct | FromStore rat | Gossip rat  \<comment> \<open>where a record comes from, with the expiry it brings\<close>

record pend =
  pd_rec :: jsval
  pd_origin :: origin
  pd_checked :: "string \<times> string \<times> jsval option"

record bucket_state =
  tokens :: rat
  last_refill :: int

record registry =
  live :: "(string, entry) jmap"
  nonces :: "(string, int) jmap"
  bucket_st :: bucket_state
  pending :: "(nat, pend) jmap"
  history :: "(string, (string, string) jmap) jmap"
  probe_fails :: "(string, int) jmap"
  store :: "(jsval \<times> rat) list"
  answers :: "(nat \<times> (string + string)) list"  \<comment> \<open>the reason, or the accepted onion\<close>
  verifies :: nat                              \<comment> \<open>announcements that reached signature verification\<close>

definition secs :: "int \<Rightarrow> int" where "secs ms = ms div 1000"

section \<open>Nonce guard, token bucket, probe health\<close>

definition nonce_sweep :: "int \<Rightarrow> int \<Rightarrow> (string, int) jmap \<Rightarrow> (string, int) jmap" where
  "nonce_sweep ttlMs ms m = jmap_evict (\<lambda>_ seen_ms. seen_ms < ms - ttlMs) m"

definition makeAnnounceBucket :: "rat \<Rightarrow> int \<Rightarrow> bucket_state" where
  "makeAnnounceBucket burst t = \<lparr>tokens = burst, last_refill = t\<rparr>"

definition bucket_disabled :: "reg_cfg \<Rightarrow> bool" where
  "bucket_disabled C \<longleftrightarrow> \<not> rg_rate C > 0 \<and> \<not> rg_burst C > 0"

definition bucket_refill :: "reg_cfg \<Rightarrow> int \<Rightarrow> bucket_state \<Rightarrow> bucket_state" where
  "bucket_refill C t b = (if t > last_refill b
     then \<lparr>tokens = min (rg_burst C) (tokens b + of_int (t - last_refill b) * rg_rate C), last_refill = t\<rparr> else b)"

definition bucket_take :: "reg_cfg \<Rightarrow> int \<Rightarrow> bucket_state \<Rightarrow> bool \<times> bucket_state" where
  "bucket_take C t b = (if bucket_disabled C then (True, b)
     else let b' = bucket_refill C t b in
       if tokens b' < 1 then (False, b') else (True, b'\<lparr>tokens := tokens b' - 1\<rparr>))"

definition retryAfterSec :: "reg_cfg \<Rightarrow> bucket_state \<Rightarrow> int" where
  "retryAfterSec C b = (if rg_rate C > 0 then max 1 \<lceil>(1 - tokens b) / rg_rate C\<rceil> else 1)"

definition probe_record :: "string \<Rightarrow> bool \<Rightarrow> (string, int) jmap \<Rightarrow> (string, int) jmap" where
  "probe_record onion ok m = (if ok then AList.delete onion m
     else AList.update onion ((case map_of m onion of Some n \<Rightarrow> n | None \<Rightarrow> 0) + 1) m)"

definition isDown :: "reg_cfg \<Rightarrow> string \<Rightarrow> (string, int) jmap \<Rightarrow> bool" where
  "isDown C onion m \<longleftrightarrow> (case map_of m onion of Some n \<Rightarrow> n | None \<Rightarrow> 0) \<ge> rg_failThreshold C"

definition probe_retain :: "string list \<Rightarrow> (string, int) jmap \<Rightarrow> (string, int) jmap" where
  "probe_retain keep m = jmap_evict (\<lambda>k _. k \<notin> set keep) m"

section \<open>Announcements\<close>

definition persist :: "reg_cfg \<Rightarrow> registry \<Rightarrow> registry" where
  "persist C r = (if rg_persist C then r\<lparr>store := map (\<lambda>(_, e). (en_rec e, en_expiresAt e)) (live r)\<rparr> else r)"

definition reg_sweep :: "reg_cfg \<Rightarrow> bool \<Rightarrow> int \<Rightarrow> registry \<Rightarrow> registry" where
  "reg_sweep C reloading ms r =
     (let live' = jmap_evict (\<lambda>_ e. en_expiresAt e \<le> of_int (secs ms)) (live r);
          r' = r\<lparr>live := live', nonces := nonce_sweep (rg_ttlSec C * 1000) ms (nonces r),
                 probe_fails := (if rg_probing C then probe_retain (map fst live') (probe_fails r) else probe_fails r)\<rparr> in
      if length live' < length (live r) \<and> \<not> reloading then persist C r' else r')"

definition answer :: "nat \<Rightarrow> string + string \<Rightarrow> registry \<Rightarrow> registry" where
  "answer i a r = r\<lparr>answers := (i, a) # answers r\<rparr>"

definition onion_of :: "jsval \<Rightarrow> string option" where
  "onion_of rec = (case getp rec ''onion'' of JStr s \<Rightarrow> Some s | _ \<Rightarrow> None)"

definition lookup_live :: "string option \<Rightarrow> registry \<Rightarrow> entry option" where
  "lookup_live k r = (case k of Some s \<Rightarrow> map_of (live r) s | None \<Rightarrow> None)"

text \<open>The call of \<open>verify\<close> up to its first \<open>await\<close>.\<close>

definition start_verify :: "reg_cfg \<Rightarrow> int \<Rightarrow> int \<Rightarrow> (string \<Rightarrow> bool) option \<Rightarrow> origin \<Rightarrow> nat \<Rightarrow> jsval \<Rightarrow> registry \<Rightarrow> registry" where
  "start_verify C ms skew seen orig i rec r =
     (case announce_checks (rg_lib C) (rg_float C) (secs ms) (Some skew) seen rec of
        Inl reason \<Rightarrow> answer i (Inl reason) r
      | Inr p \<Rightarrow> r\<lparr>pending := AList.update i \<lparr>pd_rec = rec, pd_origin = orig, pd_checked = p\<rparr> (pending r)\<rparr>)"

definition announce_begin :: "reg_cfg \<Rightarrow> bool \<Rightarrow> int \<Rightarrow> origin \<Rightarrow> nat \<Rightarrow> jsval \<Rightarrow> registry \<Rightarrow> registry" where
  "announce_begin C reloading ms orig i rec r =
     (let existing = lookup_live (onion_of rec) r; full = (existing = None \<and> rg_maxEntries C \<le> length (live r));
          r1 = (if full then reg_sweep C reloading ms r else r) in
      if (case existing of Some e \<Rightarrow> secs ms - en_lastAt e < rg_minReannounceSec C | None \<Rightarrow> False)
      then answer i (Inl ''rate-limited'') r
      else if full \<and> rg_maxEntries C \<le> length (live r1) then answer i (Inl ''registry-full'') r1
      else (case (if orig = Direct then bucket_take C (secs ms) (bucket_st r1) else (True, bucket_st r1)) of
          (False, b) \<Rightarrow> answer i (Inl ''global-rate-limited'') (r1\<lparr>bucket_st := b\<rparr>)
        | (True, b) \<Rightarrow>
            start_verify C ms (if orig = Direct then DEFAULT_ANNOUNCE_SKEW else MAX_SAFE_INTEGER)
              (Some (\<lambda>k. map_of (nonces r1) k \<noteq> None)) orig i rec
              (r1\<lparr>bucket_st := b, verifies := (if orig = Direct then Suc (verifies r1) else verifies r1)\<rparr>)))"

definition ts_value :: "float_env \<Rightarrow> jsval \<Rightarrow> rat option" where  \<comment> \<open>\<open>typeof rec.ts === "number"\<close>\<close>
  "ts_value F v = (if typeof v = ''number'' then Some (num_value F v) else None)"

definition gossip_begin :: "reg_cfg \<Rightarrow> int \<Rightarrow> nat \<Rightarrow> jsval \<Rightarrow> registry \<Rightarrow> registry" where
  "gossip_begin C ms i rec r = (case onion_of rec of
     None \<Rightarrow> answer i (Inl ''no-onion'') r
   | Some onion \<Rightarrow> (case ts_value (rg_float C) (getp rec ''ts'') of
       None \<Rightarrow> answer i (Inl ''stale-ts'') r
     | Some ts \<Rightarrow>
         let expiry = ts + of_int (rg_ttlSec C); existing = map_of (live r) onion in
         if expiry \<le> of_int (secs ms) then answer i (Inl ''stale-gossip'') r
         else if (case existing of Some e \<Rightarrow> en_expiresAt e \<ge> expiry | None \<Rightarrow> False) then answer i (Inr onion) r
         else let full = (existing = None \<and> rg_maxEntries C \<le> length (live r));
                  r1 = (if full then reg_sweep C False ms r else r) in
           if full \<and> rg_maxEntries C \<le> length (live r1) then answer i (Inl ''registry-full'') r1
           else start_verify C ms MAX_SAFE_INTEGER None (Gossip expiry) i rec r1))"

definition clamp_weight :: "float_env \<Rightarrow> jsval \<Rightarrow> jsval" where
  "clamp_weight F w = (case w of
     JNum n \<Rightarrow> JNum (max 0 (min 1000 n))
   | JFloat s \<Rightarrow> if s \<in> {''NaN'', ''Infinity'', ''-Infinity''} then JNum 100
       else if flt F s < 0 then JNum 0 else if flt F s > 1000 then JNum 1000 else JFloat s
   | _ \<Rightarrow> JNum 100)"

definition new_entry :: "reg_cfg \<Rightarrow> int \<Rightarrow> jsval \<Rightarrow> origin \<Rightarrow> ann_ok \<Rightarrow> entry" where
  "new_entry C ms rec orig v = \<lparr>en_pubkey = an_pubkey v, en_weight = clamp_weight (rg_float C) (getp rec ''weight''),
     en_operator = an_operator v, en_staked = an_staked v, en_caps = an_caps v,
     en_capsSig = (case getp rec ''capsSig'' of JStr s \<Rightarrow> Some s | _ \<Rightarrow> None), en_rec = rec,
     en_expiresAt = (case orig of Direct \<Rightarrow> of_int (secs ms + rg_ttlSec C) | FromStore x \<Rightarrow> x | Gossip x \<Rightarrow> x), en_lastAt = secs ms\<rparr>"

text \<open>After the \<open>await\<close>: the stake reader's answers at that moment decide.\<close>

definition announce_end :: "reg_cfg \<Rightarrow> bool \<Rightarrow> int \<Rightarrow> (string \<Rightarrow> bool res) option \<Rightarrow> nat \<Rightarrow> registry \<Rightarrow> registry" where
  "announce_end C reloading ms isStaked i r = (case map_of (pending r) i of
     None \<Rightarrow> r
   | Some p \<Rightarrow>
       let r1 = r\<lparr>pending := AList.delete i (pending r)\<rparr>; rec = pd_rec p in
       (case announce_finish (rg_ethers C) isStaked (rg_requireStake C) rec (pd_checked p) of
          Inl reason \<Rightarrow> answer i (Inl reason) r1
        | Inr v \<Rightarrow>
            let r2 = r1\<lparr>nonces := (case pd_origin p of Gossip _ \<Rightarrow> nonces r1 | _ \<Rightarrow> AList.update (nonce_key (an_onion v) rec) ms (nonces r1)),
                        live := AList.update (an_onion v) (new_entry C ms rec (pd_origin p) v) (live r1)\<rparr> in
            answer i (Inr (an_onion v)) (if reloading then r2 else persist C r2)))"

text \<open>Reload on boot: the records of the store, one after the other, before the server listens.\<close>

definition load_entry :: "reg_cfg \<Rightarrow> int \<Rightarrow> (string \<Rightarrow> bool res) option \<Rightarrow> jsval \<Rightarrow> registry \<Rightarrow> registry" where
  "load_entry C ms isStaked ent r =
     (if \<not> truthy ent then r
      else case ts_value (rg_float C) (getp ent ''expiresAt'') of
        None \<Rightarrow> r
      | Some x \<Rightarrow> if x \<le> of_int (secs ms) then r
                  else announce_end C True ms isStaked 0 (announce_begin C True ms (FromStore x) 0 (getp ent ''rec'') r))"

definition loadPersisted :: "reg_cfg \<Rightarrow> int \<Rightarrow> (string \<Rightarrow> bool res) option \<Rightarrow> jsval res \<Rightarrow> registry \<Rightarrow> registry" where
  "loadPersisted C ms isStaked stored r = (case stored of
     Inl _ \<Rightarrow> r
   | Inr v \<Rightarrow> persist C (fold (load_entry C ms isStaked) (case getp v ''entries'' of JArr es \<Rightarrow> es | _ \<Rightarrow> []) r))"

section \<open>Directory and deltas\<close>

definition signer_pub :: "reg_cfg \<Rightarrow> string" where
  "signer_pub C = hex_encode (ed_pub (rg_lib C) (rg_seed C))"

definition gateway_json :: "reg_cfg \<Rightarrow> registry \<Rightarrow> string \<times> entry \<Rightarrow> jsval" where
  "gateway_json C r oe = (case oe of (onion, e) \<Rightarrow>
     JObj ([(''onion'', JStr onion), (''pubkey'', JStr (en_pubkey e)), (''weight'', en_weight e),
            (''health'', JStr (if rg_probing C \<and> isDown C onion (probe_fails r) then ''down'' else ''up''))]
       @ (case en_operator e of Some opr \<Rightarrow> if opr = [] then [] else [(''operator'', JStr opr), (''staked'', JBool (en_staked e))] | None \<Rightarrow> [])
       @ (case (en_caps e, en_capsSig e) of (Some c, Some s) \<Rightarrow> if s = [] then [] else [(''caps'', c), (''capsSig'', JStr s)] | _ \<Rightarrow> [])))"

definition unsigned_directory :: "reg_cfg \<Rightarrow> int \<Rightarrow> registry \<Rightarrow> jsval" where
  "unsigned_directory C ms r = JObj [(''version'', JNum 1), (''issued'', JNum (secs ms)),
     (''gateways'', JArr (map (gateway_json C r) (live r))), (''signer'', JStr (signer_pub C))]"

definition directory :: "reg_cfg \<Rightarrow> int \<Rightarrow> registry \<Rightarrow> jsval res \<times> registry" where
  "directory C ms r = (let r1 = reg_sweep C False ms r in
     (signDirectory (rg_lib C) (unsigned_directory C ms r1) (hex_encode (rg_seed C)), r1))"

definition etagKey :: "string \<Rightarrow> string" where
  "etagKey e = (let t = js_trim e; t1 = (if t \<noteq> [] \<and> hd t = CHR 0x22 then tl t else t) in
     js_lower (if t1 \<noteq> [] \<and> last t1 = CHR 0x22 then butlast t1 else t1))"

definition entry_map :: "jsval list \<Rightarrow> (string, string) jmap" where  \<comment> \<open>\<open>new Map(gateways.map(g => [g.onion, entryKey(g)]))\<close>\<close>
  "entry_map gs = fold (\<lambda>g. AList.update (js_string (getp g ''onion'')) (json_stringify g)) gs []"

definition recordVersion :: "reg_cfg \<Rightarrow> string \<Rightarrow> jsval list \<Rightarrow> registry \<Rightarrow> registry" where
  "recordVersion C etag gs r =
     (let h = AList.delete (etagKey etag) (history r) @ [(etagKey etag, entry_map gs)] in
      r\<lparr>history := drop (length h - rg_deltaHistoryMax C) h\<rparr>)"

definition dir_gateways :: "jsval \<Rightarrow> jsval list" where
  "dir_gateways dir = (case getp dir ''gateways'' of JArr gs \<Rightarrow> gs | _ \<Rightarrow> [])"

definition directoryWithEtag :: "reg_cfg \<Rightarrow> int \<Rightarrow> registry \<Rightarrow> (jsval \<times> string) res \<times> registry" where
  "directoryWithEtag C ms r = (case directory C ms r of
     (Inl e, r1) \<Rightarrow> (Inl e, r1)
   | (Inr dir, r1) \<Rightarrow>
       let etag = [CHR 0x22] @ rg_sha256 C (utf8 (json_stringify dir)) @ [CHR 0x22] in
       (Inr (dir, etag), recordVersion C etag (dir_gateways dir) r1))"

datatype delta_answer =
    FullDelta string                                            \<comment> \<open>\<open>{ full: true, base }\<close>\<close>
  | Delta string "jsval list" "string list" nat "string list"     \<comment> \<open>base, added, removed, unchanged, order\<close>

definition delta :: "reg_cfg \<Rightarrow> int \<Rightarrow> string option \<Rightarrow> registry \<Rightarrow> delta_answer res \<times> registry" where
  "delta C ms since r = (case directoryWithEtag C ms r of
     (Inl e, r1) \<Rightarrow> (Inl e, r1)
   | (Inr (dir, base), r1) \<Rightarrow>
       let sinceKey = etagKey (case since of Some s \<Rightarrow> s | None \<Rightarrow> []); gs = dir_gateways dir;
           onions = map (\<lambda>g. js_string (getp g ''onion'')) gs in
       (Inr (if sinceKey = [] then FullDelta base
        else case map_of (history r1) sinceKey of
          None \<Rightarrow> FullDelta base
        | Some old \<Rightarrow>
            let added = filter (\<lambda>g. map_of old (js_string (getp g ''onion'')) \<noteq> Some (json_stringify g)) gs;
                removed = filter (\<lambda>k. k \<notin> set onions) (map fst old) in
            Delta base added removed (card (set onions) - length added) onions), r1))"

section \<open>The registry as a machine\<close>

datatype reg_event =
    AnnounceIn nat jsval
  | GossipIn nat jsval
  | VerifiedIn nat "(string \<Rightarrow> bool res) option"
  | SweepTick
  | ProbeOutcome string bool
  | DirectoryGet
  | DeltaGet "string option"

fun reg_step :: "reg_cfg \<Rightarrow> int \<times> reg_event \<Rightarrow> registry \<Rightarrow> registry" where
  "reg_step C (ms, AnnounceIn i rec) r = (if map_of (pending r) i = None then announce_begin C False ms Direct i rec r else r)"
| "reg_step C (ms, GossipIn i rec) r = (if map_of (pending r) i = None then gossip_begin C ms i rec r else r)"
| "reg_step C (ms, VerifiedIn i isStaked) r = announce_end C False ms isStaked i r"
| "reg_step C (ms, SweepTick) r = reg_sweep C False ms r"
| "reg_step C (ms, ProbeOutcome onion ok) r = r\<lparr>probe_fails := probe_record onion ok (probe_fails r)\<rparr>"
| "reg_step C (ms, DirectoryGet) r = snd (directoryWithEtag C ms r)"
| "reg_step C (ms, DeltaGet since) r = snd (delta C ms since r)"

definition makeRegistry :: "reg_cfg \<Rightarrow> int \<Rightarrow> registry" where
  "makeRegistry C ms = \<lparr>live = [], nonces = [], bucket_st = makeAnnounceBucket (rg_burst C) (secs ms), pending = [], history = [],
     probe_fails = [], store = [], answers = [], verifies = 0\<rparr>"

text \<open>
  Reachable states in which at most \<open>P\<close> verifications overlap. A process starts empty or, on boot,
  with what it reloaded of any stored file.
\<close>

inductive reg_reach :: "reg_cfg \<Rightarrow> nat \<Rightarrow> registry \<Rightarrow> bool" for C P where
  reach_init: "reg_reach C P (makeRegistry C ms)"
| reach_boot: "reg_reach C P (loadPersisted C ms isStaked stored (makeRegistry C ms0))"
| reach_step: "reg_reach C P r \<Longrightarrow> length (pending (reg_step C e r)) \<le> P \<Longrightarrow> reg_reach C P (reg_step C e r)"

section \<open>Frame facts\<close>

lemma persist_sel [simp]:
  "live (persist C r) = live r" "pending (persist C r) = pending r" "bucket_st (persist C r) = bucket_st r" "nonces (persist C r) = nonces r"
  "verifies (persist C r) = verifies r" "history (persist C r) = history r" "probe_fails (persist C r) = probe_fails r"
  by (simp_all add: persist_def)

lemma reg_sweep_sel [simp]:
  "live (reg_sweep C rl ms r) = jmap_evict (\<lambda>_ e. en_expiresAt e \<le> of_int (secs ms)) (live r)"
  "pending (reg_sweep C rl ms r) = pending r" "bucket_st (reg_sweep C rl ms r) = bucket_st r"
  "verifies (reg_sweep C rl ms r) = verifies r" "history (reg_sweep C rl ms r) = history r"
  by (simp_all add: reg_sweep_def Let_def)

lemma answer_sel [simp]:
  "live (answer i a r) = live r" "pending (answer i a r) = pending r" "bucket_st (answer i a r) = bucket_st r" "verifies (answer i a r) = verifies r"
  by (simp_all add: answer_def)

lemma directory_sel [simp]:
  "snd (directory C ms r) = reg_sweep C False ms r"
  by (simp add: directory_def Let_def)

lemma directoryWithEtag_sel [simp]:
  "live (snd (directoryWithEtag C ms r)) = live (reg_sweep C False ms r)"
  "pending (snd (directoryWithEtag C ms r)) = pending r" "verifies (snd (directoryWithEtag C ms r)) = verifies r"
  "bucket_st (snd (directoryWithEtag C ms r)) = bucket_st r"
  by (simp_all add: directoryWithEtag_def directory_def recordVersion_def Let_def split: sum.split)

lemma snd_delta [simp]: "snd (delta C ms since r) = snd (directoryWithEtag C ms r)"
  by (simp add: delta_def Let_def split: prod.split sum.split)

section \<open>Invariant\<close>

definition entry_ok :: "reg_cfg \<Rightarrow> string \<times> entry \<Rightarrow> bool" where
  "entry_ok C oe = (case oe of (onion, e) \<Rightarrow> onionToPubkey (sha3 (rg_lib C)) onion = Inr (en_pubkey e)
     \<and> getp (en_rec e) ''onion'' = JStr onion
     \<and> verifyOnionControl (rg_lib C) onion (canonicalAnnounceBytes (en_rec e)) (getp (en_rec e) ''onionSig'')
     \<and> (\<forall>c s. en_caps e = Some c \<longrightarrow> en_capsSig e = Some s \<longrightarrow> hasCaps c \<and> canonicalCaps c = c \<and> verifyCapsSig (rg_lib C) onion c (JStr s))
     \<and> (rg_requireStake C \<longrightarrow> en_staked e \<and> en_operator e \<noteq> None))"

definition pend_ok :: "reg_cfg \<Rightarrow> nat \<times> pend \<Rightarrow> bool" where
  "pend_ok C ip \<longleftrightarrow> (\<exists>now skew seen. announce_checks (rg_lib C) (rg_float C) now skew seen (pd_rec (snd ip)) = Inr (pd_checked (snd ip)))"

definition reserved :: "registry \<Rightarrow> string set" where  \<comment> \<open>onions listed or being verified\<close>
  "reserved r = fst ` set (live r) \<union> (\<lambda>ip. fst (pd_checked (snd ip))) ` set (pending r)"

definition reg_inv :: "reg_cfg \<Rightarrow> nat \<Rightarrow> registry \<Rightarrow> bool" where
  "reg_inv C P r \<longleftrightarrow> jmap_wf (live r) \<and> jmap_wf (pending r) \<and> (\<forall>oe\<in>set (live r). entry_ok C oe) \<and> (\<forall>ip\<in>set (pending r). pend_ok C ip)
     \<and> card (reserved r) \<le> rg_maxEntries C + P - 1"

lemma finite_reserved [simp]: "finite (reserved r)" by (simp add: reserved_def)

lemma reserved_evict: "reserved (r\<lparr>live := jmap_evict p (live r)\<rparr>) \<subseteq> reserved r"
  using set_evict_subset [of p "live r"] by (auto simp: reserved_def)

lemma reserved_cong: "live r = live r' \<Longrightarrow> pending r = pending r' \<Longrightarrow> reserved r = reserved r'"
  by (simp add: reserved_def)

lemma reg_inv_sub:
  assumes "reg_inv C P r" "jmap_wf (live r')" "set (live r') \<subseteq> set (live r)" "pending r' = pending r"
  shows "reg_inv C P r'"
proof -
  have "reserved r' \<subseteq> reserved r" using assms(3,4) by (auto simp: reserved_def)
  then have "card (reserved r') \<le> card (reserved r)" by (simp add: card_mono)
  with assms show ?thesis by (auto simp: reg_inv_def)
qed

lemma reg_inv_sweep: "reg_inv C P r \<Longrightarrow> reg_inv C P (reg_sweep C rl ms r)"
  by (rule reg_inv_sub) (auto simp: reg_inv_def jmap_evict_def intro: jmap_wf_evict [unfolded jmap_evict_def])

lemma reg_inv_frame: "reg_inv C P r \<Longrightarrow> live r' = live r \<Longrightarrow> pending r' = pending r \<Longrightarrow> reg_inv C P r'"
  by (rule reg_inv_sub) (simp_all add: reg_inv_def)

lemma fst_pending_card: "card ((\<lambda>ip. fst (pd_checked (snd ip))) ` set m) \<le> length m"
  by (metis card_image_le card_length le_trans finite_set)

lemma checks_onion: "announce_checks L F now skew seen rec = Inr p \<Longrightarrow> onion_of rec = Some (fst p)"
  using announce_checks_Inr(1) [of L F now skew seen rec "fst p" "fst (snd p)" "snd (snd p)"] by (simp add: onion_of_def)

lemma reg_inv_start:
  assumes r: "reg_inv C P r" and new: "map_of (pending r) i = None" and P: "1 \<le> P"
    and pl: "length (pending (start_verify C ms skew seen orig i rec r)) \<le> P"
    and room: "\<And>k. onion_of rec = Some k \<Longrightarrow> map_of (live r) k = None \<Longrightarrow> length (live r) < rg_maxEntries C"
  shows "reg_inv C P (start_verify C ms skew seen orig i rec r)"
proof (cases "announce_checks (rg_lib C) (rg_float C) (secs ms) (Some skew) seen rec")
  case (Inl e)
  with r show ?thesis by (simp add: start_verify_def reg_inv_frame)
next
  case (Inr p)
  let ?pd = "\<lparr>pd_rec = rec, pd_origin = orig, pd_checked = p\<rparr>" and ?k = "fst p"
  let ?r = "r\<lparr>pending := AList.update i ?pd (pending r)\<rparr>"
  have r': "start_verify C ms skew seen orig i rec r = ?r" using Inr by (simp add: start_verify_def)
  have k: "onion_of rec = Some ?k" using checks_onion [OF Inr] .
  have ok: "pend_ok C (i, ?pd)" using Inr unfolding pend_ok_def by auto
  have sub: "reserved ?r \<subseteq> insert ?k (reserved r)"
    using set_update_subset [of i ?pd "pending r"] by (auto simp: reserved_def)
  have "card (reserved ?r) \<le> rg_maxEntries C + P - 1"
  proof (cases "map_of (live r) ?k")
    case None
    have "card (reserved ?r) \<le> card (fst ` set (live r)) + card ((\<lambda>ip. fst (pd_checked (snd ip))) ` set (pending ?r))"
      unfolding reserved_def by (simp add: card_Un_le)
    moreover have "card (fst ` set (live r)) \<le> length (live r)" by (metis card_image_le card_length le_trans finite_set)
    moreover have "card ((\<lambda>ip. fst (pd_checked (snd ip))) ` set (pending ?r)) \<le> P"
      using fst_pending_card [of "pending ?r"] pl r' by simp
    ultimately show ?thesis using room [OF k None] P by linarith
  next
    case (Some e)
    then have "?k \<in> reserved r" by (force simp: reserved_def dest: map_of_SomeD)
    with sub have "reserved ?r \<subseteq> reserved r" by auto
    then have "card (reserved ?r) \<le> card (reserved r)" by (simp add: card_mono)
    with r show ?thesis by (simp add: reg_inv_def)
  qed
  with r ok set_update_subset [of i ?pd "pending r"] show ?thesis unfolding r' reg_inv_def by auto
qed

lemma pending_start [simp]:
  "live (start_verify C ms skew seen orig i rec r) = live r" "bucket_st (start_verify C ms skew seen orig i rec r) = bucket_st r"
  "verifies (start_verify C ms skew seen orig i rec r) = verifies r"
  by (simp_all add: start_verify_def split: sum.split)

lemma reg_inv_announce_begin:
  assumes r: "reg_inv C P r" and new: "map_of (pending r) i = None" and P: "1 \<le> P"
    and pl: "length (pending (announce_begin C rl ms orig i rec r)) \<le> P"
  shows "reg_inv C P (announce_begin C rl ms orig i rec r)"
proof -
  let ?ex = "lookup_live (onion_of rec) r"
  let ?full = "?ex = None \<and> rg_maxEntries C \<le> length (live r)"
  let ?r1 = "if ?full then reg_sweep C rl ms r else r"
  have r1: "reg_inv C P ?r1" using r by (simp add: reg_inv_sweep)
  have p1: "pending ?r1 = pending r" by simp
  obtain ok b where b: "(if orig = Direct then bucket_take C (secs ms) (bucket_st ?r1) else (True, bucket_st ?r1)) = (ok, b)" by fastforce
  consider (limited) "announce_begin C rl ms orig i rec r = answer i (Inl ''rate-limited'') r"
    | (refused) a where "announce_begin C rl ms orig i rec r = answer i a (?r1\<lparr>bucket_st := b\<rparr>) \<or> announce_begin C rl ms orig i rec r = answer i a ?r1"
    | (go) v where "announce_begin C rl ms orig i rec r = start_verify C ms (if orig = Direct then DEFAULT_ANNOUNCE_SKEW else MAX_SAFE_INTEGER)
          (Some (\<lambda>k. map_of (nonces ?r1) k \<noteq> None)) orig i rec (?r1\<lparr>bucket_st := b, verifies := v\<rparr>)"
        "\<not> (?full \<and> rg_maxEntries C \<le> length (live ?r1))"
  proof -
    let ?lim = "case ?ex of Some e \<Rightarrow> secs ms - en_lastAt e < rg_minReannounceSec C | None \<Rightarrow> False"
    let ?v = "if orig = Direct then Suc (verifies ?r1) else verifies ?r1"
    have eq: "announce_begin C rl ms orig i rec r = (if ?lim then answer i (Inl ''rate-limited'') r
        else if ?full \<and> rg_maxEntries C \<le> length (live ?r1) then answer i (Inl ''registry-full'') ?r1
        else (case (ok, b) of (False, b) \<Rightarrow> answer i (Inl ''global-rate-limited'') (?r1\<lparr>bucket_st := b\<rparr>)
          | (True, b) \<Rightarrow> start_verify C ms (if orig = Direct then DEFAULT_ANNOUNCE_SKEW else MAX_SAFE_INTEGER)
              (Some (\<lambda>k. map_of (nonces ?r1) k \<noteq> None)) orig i rec (?r1\<lparr>bucket_st := b, verifies := ?v\<rparr>)))"
      unfolding b [symmetric] announce_begin_def Let_def by (rule refl)
    show ?thesis
    proof (cases ?lim)
      case True
      then show ?thesis by (intro that(1)) (simp only: eq if_True)
    next
      case lim: False
      show ?thesis
      proof (cases "?full \<and> rg_maxEntries C \<le> length (live ?r1)")
        case True
        show ?thesis by (rule that(2) [OF disjI2]) (simp only: eq if_not_P [OF lim] if_P [OF True])
      next
        case False
        note eq' = eq [unfolded if_not_P [OF lim] if_not_P [OF False]]
        show ?thesis
        proof (cases ok)
          case True
          show ?thesis by (rule that(3) [OF _ False]) (simp only: eq' True prod.case bool.case)
        next
          case ok: False
          show ?thesis by (rule that(2) [OF disjI1]) (simp only: eq' ok prod.case bool.case)
        qed
      qed
    qed
  qed
  then show ?thesis
  proof cases
    case limited
    with r show ?thesis by (simp add: reg_inv_frame)
  next
    case refused
    then show ?thesis using reg_inv_frame [OF r1] by auto
  next
    case go
    let ?r2 = "?r1\<lparr>bucket_st := b, verifies := v\<rparr>"
    have r2: "reg_inv C P ?r2" using r1 by (rule reg_inv_frame) simp_all
    have room: "length (live ?r2) < rg_maxEntries C" if "onion_of rec = Some k" "map_of (live ?r2) k = None" for k
    proof (cases ?full)
      case True
      with go(2) show ?thesis by simp
    next
      case False
      then have e: "?r1 = r" by (rule if_not_P)
      with that have "?ex = None" by (simp add: lookup_live_def)
      with False e show ?thesis by simp
    qed
    show ?thesis unfolding go(1)
      by (rule reg_inv_start [OF r2 _ P]) (use new p1 pl go(1) room in simp_all)
  qed
qed

lemma reg_inv_gossip_begin:
  assumes r: "reg_inv C P r" and new: "map_of (pending r) i = None" and P: "1 \<le> P"
    and pl: "length (pending (gossip_begin C ms i rec r)) \<le> P"
  shows "reg_inv C P (gossip_begin C ms i rec r)"
proof (cases "onion_of rec")
  case None
  with r show ?thesis by (simp add: gossip_begin_def reg_inv_frame)
next
  case k: (Some onion)
  let ?ex = "map_of (live r) onion"
  let ?full = "?ex = None \<and> rg_maxEntries C \<le> length (live r)"
  let ?r1 = "if ?full then reg_sweep C False ms r else r"
  have r1: "reg_inv C P ?r1" using r by (simp add: reg_inv_sweep)
  have p1: "pending ?r1 = pending r" by simp
  consider (refused) a where "gossip_begin C ms i rec r = answer i a r \<or> gossip_begin C ms i rec r = answer i a ?r1"
    | (go) x where "gossip_begin C ms i rec r = start_verify C ms MAX_SAFE_INTEGER None (Gossip x) i rec ?r1"
        "\<not> (?full \<and> rg_maxEntries C \<le> length (live ?r1))"
  proof (cases "ts_value (rg_float C) (getp rec ''ts'')")
    case None
    with k have "gossip_begin C ms i rec r = answer i (Inl ''stale-ts'') r" by (simp add: gossip_begin_def)
    then show ?thesis by (rule that(1) [OF disjI1])
  next
    case (Some ts)
    let ?x = "ts + of_int (rg_ttlSec C)"
    let ?held = "case ?ex of Some e \<Rightarrow> en_expiresAt e \<ge> ?x | None \<Rightarrow> False"
    have eq: "gossip_begin C ms i rec r = (if ?x \<le> of_int (secs ms) then answer i (Inl ''stale-gossip'') r
        else if ?held then answer i (Inr onion) r
        else if ?full \<and> rg_maxEntries C \<le> length (live ?r1) then answer i (Inl ''registry-full'') ?r1
        else start_verify C ms MAX_SAFE_INTEGER None (Gossip ?x) i rec ?r1)"
      unfolding gossip_begin_def k Some option.case Let_def by (rule refl)
    show ?thesis
    proof (cases "?x \<le> of_int (secs ms)")
      case True
      show ?thesis by (rule that(1) [OF disjI1]) (simp only: eq if_P [OF True])
    next
      case stale: False
      show ?thesis
      proof (cases ?held)
        case True
        show ?thesis by (rule that(1) [OF disjI1]) (simp only: eq if_not_P [OF stale] if_P [OF True])
      next
        case held: False
        note eq' = eq [unfolded if_not_P [OF stale] if_not_P [OF held]]
        show ?thesis
        proof (cases "?full \<and> rg_maxEntries C \<le> length (live ?r1)")
          case True
          show ?thesis by (rule that(1) [OF disjI2]) (simp only: eq' if_P [OF True])
        next
          case False
          show ?thesis by (rule that(2) [OF _ False]) (simp only: eq' if_not_P [OF False])
        qed
      qed
    qed
  qed
  then show ?thesis
  proof cases
    case refused
    with r r1 p1 show ?thesis by (auto intro: reg_inv_frame)
  next
    case go
    have room: "length (live ?r1) < rg_maxEntries C" if "onion_of rec = Some k'" "map_of (live ?r1) k' = None" for k'
    proof (cases ?full)
      case True
      with go(2) show ?thesis by simp
    next
      case False
      then have e: "?r1 = r" by (rule if_not_P)
      with that k have "?ex = None" by simp
      with False e show ?thesis by simp
    qed
    show ?thesis unfolding go(1)
      by (rule reg_inv_start [OF r1 _ P]) (use new p1 pl go(1) room in simp_all)
  qed
qed

lemma new_entry_ok:
  assumes c: "announce_checks (rg_lib C) (rg_float C) now skew seen rec = Inr (onion, pubkey, caps)"
    and f: "announce_finish ethers isStaked (rg_requireStake C) rec (onion, pubkey, caps) = Inr v"
  shows "an_onion v = onion" "entry_ok C (an_onion v, new_entry C ms rec orig v)"
proof -
  note A = announce_checks_Inr [OF c] and N = announce_finish_Inr [OF f]
  show "an_onion v = onion" using N(1) by simp
  have staked: "rg_requireStake C \<Longrightarrow> an_staked v"
    using f by (auto simp: announce_finish_def Let_def split: if_split_asm option.splits sum.splits)
  have caps: "hasCaps c \<and> canonicalCaps c = c \<and> verifyCapsSig (rg_lib C) onion c (JStr s)"
    if "caps = Some c" "getp rec ''capsSig'' = JStr s" for c s
    using A(6) [OF that(1)] that(2) by auto
  show "entry_ok C (an_onion v, new_entry C ms rec orig v)"
    using A(1,2,5) N staked caps by (auto simp: entry_ok_def new_entry_def split: jsval.splits)
qed

lemma reg_inv_announce_end:
  assumes r: "reg_inv C P r"
  shows "reg_inv C P (announce_end C rl ms isStaked i r)"
proof (cases "map_of (pending r) i")
  case (Some p)
  have wf: "jmap_wf (live r)" "jmap_wf (pending r)" using r by (simp_all add: reg_inv_def)
  have mem: "(i, p) \<in> set (pending r)" using Some by (rule map_of_SomeD)
  let ?r1 = "r\<lparr>pending := AList.delete i (pending r)\<rparr>"
  have del: "set (AList.delete i (pending r)) \<subseteq> set (pending r)" by (auto simp: AList.delete_eq)
  have r1: "reg_inv C P ?r1"
  proof -
    have "reserved ?r1 \<subseteq> reserved r" using del by (auto simp: reserved_def)
    then have "card (reserved ?r1) \<le> card (reserved r)" by (simp add: card_mono)
    with r del wf show ?thesis by (auto simp: reg_inv_def)
  qed
  obtain onion pubkey caps where pc: "pd_checked p = (onion, pubkey, caps)" by (cases "pd_checked p") auto
  obtain now skew seen where chk: "announce_checks (rg_lib C) (rg_float C) now skew seen (pd_rec p) = Inr (onion, pubkey, caps)"
    using r mem pc by (fastforce simp: reg_inv_def pend_ok_def)
  show ?thesis
  proof (cases "announce_finish (rg_ethers C) isStaked (rg_requireStake C) (pd_rec p) (onion, pubkey, caps)")
    case (Inl e)
    with Some pc r1 show ?thesis by (simp add: announce_end_def Let_def reg_inv_frame)
  next
    case (Inr v)
    note E = new_entry_ok(1) [OF chk Inr] new_entry_ok(2) [OF chk Inr, of ms "pd_origin p"]
    let ?e = "new_entry C ms (pd_rec p) (pd_origin p) v"
    let ?r2 = "?r1\<lparr>live := AList.update (an_onion v) ?e (live r)\<rparr>"
    have live: "set (AList.update (an_onion v) ?e (live r)) \<subseteq> insert (an_onion v, ?e) (set (live r))" by (rule set_update_subset)
    let ?f = "\<lambda>ip. fst (pd_checked (snd ip))"
    have on: "an_onion v \<in> reserved r" using mem pc E(1) by (force simp: reserved_def)
    have "fst ` set (AList.update (an_onion v) ?e (live r)) \<subseteq> insert (an_onion v) (fst ` set (live r))"
      using image_mono [OF live, of fst] by simp
    from Un_mono [OF this image_mono [OF del, of ?f]] have "reserved ?r2 \<subseteq> insert (an_onion v) (reserved r)"
      by (simp add: reserved_def)
    with on have "reserved ?r2 \<subseteq> reserved r" by (simp add: insert_absorb)
    then have "card (reserved ?r2) \<le> card (reserved r)" by (simp add: card_mono)
    with r1 r wf live E(2) have r2: "reg_inv C P ?r2" by (auto simp: reg_inv_def)
    show ?thesis
      by (rule reg_inv_frame [OF r2]) (use Some pc Inr in \<open>simp_all add: announce_end_def Let_def\<close>)
  qed
qed (use r in \<open>simp add: announce_end_def\<close>)

lemma pending_begin:
  "pending (announce_begin C rl ms orig i rec r) = pending r \<or>
     (\<exists>p. pending (announce_begin C rl ms orig i rec r) = AList.update i p (pending r))"
  by (auto simp: announce_begin_def Let_def start_verify_def answer_def split: prod.splits bool.splits sum.splits if_split_asm)

lemma reg_inv_load_entry:
  assumes P: "1 \<le> P" and r: "reg_inv C P r" and idle: "pending r = []"
  shows "reg_inv C P (load_entry C ms isStaked ent r) \<and> pending (load_entry C ms isStaked ent r) = []"
proof -
  let ?b = "\<lambda>x. announce_begin C True ms (FromStore x) 0 (getp ent ''rec'') r"
  have one: "reg_inv C P (announce_end C True ms isStaked 0 (?b x)) \<and> pending (announce_end C True ms isStaked 0 (?b x)) = []" for x
  proof -
    have p: "pending (?b x) = [] \<or> (\<exists>p. pending (?b x) = [(0, p)])"
      using pending_begin [of C True ms "FromStore x" 0 "getp ent ''rec''" r] idle by auto
    then have "length (pending (?b x)) \<le> P" using P by auto
    with reg_inv_announce_begin [OF r _ P, of 0] idle have "reg_inv C P (?b x)" by simp
    moreover have "pending (announce_end C True ms isStaked 0 (?b x)) = []"
      using p by (auto simp: announce_end_def Let_def split: sum.split)
    ultimately show ?thesis by (simp add: reg_inv_announce_end)
  qed
  show ?thesis using r idle one by (simp add: load_entry_def split: option.split)
qed

lemma reg_inv_loaded:
  assumes P: "1 \<le> P"
  shows "reg_inv C P (loadPersisted C ms isStaked stored (makeRegistry C ms0))"
proof -
  have init: "reg_inv C P (makeRegistry C ms0) \<and> pending (makeRegistry C ms0) = []"
    by (simp add: makeRegistry_def reg_inv_def reserved_def)
  have run: "reg_inv C P r \<and> pending r = [] \<Longrightarrow>
      reg_inv C P (fold (load_entry C ms isStaked) es r) \<and> pending (fold (load_entry C ms isStaked) es r) = []" for es r
    by (induction es arbitrary: r) (simp_all add: reg_inv_load_entry [OF P])
  show ?thesis
  proof (cases stored)
    case (Inr v)
    let ?es = "case getp v ''entries'' of JArr es \<Rightarrow> es | _ \<Rightarrow> []"
    have "reg_inv C P (fold (load_entry C ms isStaked) ?es (makeRegistry C ms0))" using run [OF init, of ?es] ..
    then have "reg_inv C P (persist C (fold (load_entry C ms isStaked) ?es (makeRegistry C ms0)))" by (rule reg_inv_frame) simp_all
    then show ?thesis by (simp only: loadPersisted_def Inr sum.case)
  qed (use init in \<open>simp add: loadPersisted_def\<close>)
qed

lemma reg_inv_reach:
  assumes P: "1 \<le> P"
  shows "reg_reach C P r \<Longrightarrow> reg_inv C P r"
proof (induction rule: reg_reach.induct)
  case (reach_init ms)
  then show ?case by (simp add: makeRegistry_def reg_inv_def reserved_def)
next
  case (reach_boot ms isStaked stored ms0)
  show ?case by (rule reg_inv_loaded [OF P])
next
  case (reach_step r e)
  obtain ms ev where e: "e = (ms, ev)" by fastforce
  show ?case
  proof (cases ev)
    case (AnnounceIn i rec)
    with reach_step.hyps(2) reach_step.IH e show ?thesis
      by (cases "map_of (pending r) i") (auto intro: reg_inv_announce_begin [OF _ _ P])
  next
    case (GossipIn i rec)
    with reach_step.hyps(2) reach_step.IH e show ?thesis
      by (cases "map_of (pending r) i") (auto intro: reg_inv_gossip_begin [OF _ _ P])
  next
    case (VerifiedIn i st)
    with e reg_inv_announce_end [OF reach_step.IH] show ?thesis by simp
  next
    case SweepTick
    with e reg_inv_sweep [OF reach_step.IH] show ?thesis by simp
  next
    case (ProbeOutcome onion ok)
    with e reach_step.IH show ?thesis by (auto intro: reg_inv_frame)
  next
    case DirectoryGet
    with e reg_inv_frame [OF reg_inv_sweep [OF reach_step.IH, of False ms], of "snd (directoryWithEtag C ms r)"] show ?thesis by simp
  next
    case (DeltaGet since)
    with e reg_inv_frame [OF reg_inv_sweep [OF reach_step.IH, of False ms], of "snd (directoryWithEtag C ms r)"] show ?thesis by simp
  qed
qed

section \<open>Rate of verifications\<close>

text \<open>Refilling and taking on a clock that does not run backwards: tokens spent plus tokens left never
  exceed the burst and the refill of the elapsed time.\<close>

definition clock_ok :: "(int \<times> reg_event) list \<Rightarrow> bool" where
  "clock_ok es \<longleftrightarrow> sorted (map fst es)"

definition credit :: "reg_cfg \<Rightarrow> int \<Rightarrow> registry \<Rightarrow> bool" where
  "credit C t0 r \<longleftrightarrow> of_nat (verifies r) + tokens (bucket_st r) \<le> rg_burst C + of_int (last_refill (bucket_st r) - t0) * rg_rate C
     \<and> t0 \<le> last_refill (bucket_st r) \<and> 0 \<le> tokens (bucket_st r)"

lemma credit_take:
  assumes "0 < rg_rate C" "0 \<le> rg_burst C" "credit C t0 r" "bucket_take C t (bucket_st r) = (ok, b)"
  shows "of_nat (verifies r) + (if ok then 1 else 0) + tokens b \<le> rg_burst C + of_int (last_refill b - t0) * rg_rate C
    \<and> t0 \<le> last_refill b \<and> 0 \<le> tokens b \<and> last_refill b = max t (last_refill (bucket_st r))"
proof -
  let ?b = "bucket_st r" and ?b' = "bucket_refill C t (bucket_st r)"
  have en: "\<not> bucket_disabled C" using assms(1) by (simp add: bucket_disabled_def)
  have ref: "of_nat (verifies r) + tokens ?b' \<le> rg_burst C + of_int (last_refill ?b' - t0) * rg_rate C
      \<and> t0 \<le> last_refill ?b' \<and> 0 \<le> tokens ?b' \<and> last_refill ?b' = max t (last_refill ?b)"
  proof (cases "t > last_refill ?b")
    case True
    have "tokens ?b' \<le> tokens ?b + of_int (t - last_refill ?b) * rg_rate C" using True by (simp add: bucket_refill_def)
    moreover have "of_int (last_refill ?b - t0) * rg_rate C + of_int (t - last_refill ?b) * rg_rate C = of_int (t - t0) * rg_rate C"
      by (simp add: algebra_simps)
    moreover have "last_refill ?b' = t" using True by (simp add: bucket_refill_def)
    moreover have "0 \<le> tokens ?b'" using True assms(1-3) by (simp add: bucket_refill_def credit_def)
    ultimately show ?thesis using assms(3) True by (simp add: credit_def)
  qed (use assms(3) in \<open>simp add: bucket_refill_def credit_def\<close>)
  show ?thesis
    using assms(4) en ref by (auto simp: bucket_take_def Let_def split: if_split_asm)
qed

lemma bucket_frame:
  "bucket_st (gossip_begin C ms i rec r) = bucket_st r" "verifies (gossip_begin C ms i rec r) = verifies r"
  "bucket_st (announce_end C rl ms st i r) = bucket_st r" "verifies (announce_end C rl ms st i r) = verifies r"
  by (simp_all add: gossip_begin_def announce_end_def Let_def split: option.split sum.split)

lemma credit_begin:
  assumes "0 < rg_rate C" "0 \<le> rg_burst C" "credit C t0 r"
  shows "credit C t0 (announce_begin C rl ms Direct i rec r)
    \<and> last_refill (bucket_st (announce_begin C rl ms Direct i rec r)) \<le> max (secs ms) (last_refill (bucket_st r))"
proof -
  let ?full = "lookup_live (onion_of rec) r = None \<and> rg_maxEntries C \<le> length (live r)"
  let ?r1 = "if ?full then reg_sweep C rl ms r else r"
  have f: "bucket_st ?r1 = bucket_st r" "verifies ?r1 = verifies r" by simp_all
  obtain ok b where b: "bucket_take C (secs ms) (bucket_st ?r1) = (ok, b)" by fastforce
  from credit_take [OF assms(1,2) _ b] assms(3) f have T: "of_nat (verifies r) + (if ok then 1 else 0) + tokens b \<le> rg_burst C + of_int (last_refill b - t0) * rg_rate C"
      "t0 \<le> last_refill b" "0 \<le> tokens b" "last_refill b = max (secs ms) (last_refill (bucket_st r))" by (auto simp: credit_def)
  let ?r' = "announce_begin C rl ms Direct i rec r"
  have "(bucket_st ?r' = bucket_st r \<and> verifies ?r' = verifies r) \<or> (bucket_st ?r' = b \<and> verifies ?r' = verifies r + (if ok then 1 else 0))"
  proof (cases ok)
    case True
    with b f show ?thesis by (simp add: announce_begin_def Let_def)
  next
    case False
    with b f show ?thesis by (simp add: announce_begin_def Let_def)
  qed
  with T assms(3) show ?thesis by (auto simp: credit_def split: if_split_asm)
qed

lemma credit_step:
  assumes "0 < rg_rate C" "0 \<le> rg_burst C" "credit C t0 r"
  shows "credit C t0 (reg_step C (ms, ev) r) \<and> last_refill (bucket_st (reg_step C (ms, ev) r)) \<le> max (secs ms) (last_refill (bucket_st r))"
  using assms(3) credit_begin [OF assms] by (cases ev) (auto simp: credit_def bucket_frame)

lemma credit_run:
  assumes "0 < rg_rate C" "0 \<le> rg_burst C"
  shows "credit C t0 r \<Longrightarrow> last_refill (bucket_st r) \<le> t1 \<Longrightarrow> \<forall>(ms, ev)\<in>set es. secs ms \<le> t1 \<Longrightarrow>
    credit C t0 (fold (reg_step C) es r) \<and> last_refill (bucket_st (fold (reg_step C) es r)) \<le> t1"
proof (induction es arbitrary: r)
  case (Cons e es)
  obtain ms ev where e: "e = (ms, ev)" by fastforce
  from credit_step [OF assms Cons.prems(1), of ms ev] Cons.prems(2,3) e
  have "credit C t0 (reg_step C e r)" "last_refill (bucket_st (reg_step C e r)) \<le> t1" by auto
  with Cons.IH [of "reg_step C e r"] Cons.prems(3) show ?case by simp
qed simp

section \<open>The served directory\<close>

lemma gateway_json_sel:
  "getp (gateway_json C r (onion, e)) ''onion'' = JStr onion" "getp (gateway_json C r (onion, e)) ''pubkey'' = JStr (en_pubkey e)"
  "\<not> nullish (gateway_json C r (onion, e))"
  by (simp_all add: gateway_json_def)

lemma gateway_json_caps:
  "getp (gateway_json C r (onion, e)) ''caps'' = (case (en_caps e, en_capsSig e) of (Some c, Some s) \<Rightarrow> if s = [] then JUndef else c | _ \<Rightarrow> JUndef)"
  "getp (gateway_json C r (onion, e)) ''capsSig'' = (case (en_caps e, en_capsSig e) of (Some c, Some s) \<Rightarrow> if s = [] then JUndef else JStr s | _ \<Rightarrow> JUndef)"
  by (cases "en_operator e"; cases "en_caps e"; cases "en_capsSig e"; simp add: gateway_json_def)+

lemma gateway_json_bound: "entry_ok C (onion, e) \<Longrightarrow> entry_bound (rg_lib C) pre (gateway_json C r (onion, e))"
  by (auto simp: entry_bound_def entry_ok_def gateway_json_sel gateway_json_caps split: option.split)

lemma unsigned_directory_sel:
  "plain_object (unsigned_directory C ms r)" "\<not> isThresholdDirectory (unsigned_directory C ms r)"
  "getp (unsigned_directory C ms r) ''signer'' = JStr (signer_pub C)"
  "gateways_of (unsigned_directory C ms r) = JArr (map (gateway_json C r) (live r))"
  by (simp_all add: unsigned_directory_def isThresholdDirectory_def gateways_of_def js_or_def)

lemma unsigned_directory_bytes: "\<exists>b. canonicalDirectoryBytes (unsigned_directory C ms r) = Inr b"
proof -
  have "directory_entry g = Inr (case directory_entry g of Inr x \<Rightarrow> x | Inl _ \<Rightarrow> JUndef)" if "g \<in> set (map (gateway_json C r) (live r))" for g
    using that gateway_json_sel(3) by (auto simp: directory_entry_def split: prod.splits)
  from map_res_total [OF this, of "map (gateway_json C r) (live r)" "\<lambda>g. g"] obtain es
    where "map_res directory_entry (map (gateway_json C r) (live r)) = Inr es" by auto
  then show ?thesis unfolding canonicalDirectoryBytes_def unsigned_directory_sel jsval.case by simp
qed

lemma directory_of_inv:
  assumes r: "reg_inv C P r" and L: "ed_correct (rg_lib C)" "length (rg_seed C) = 32" "\<And>m. ed_sign (rg_lib C) m (rg_seed C) \<noteq> []"
  shows "\<exists>dir. fst (directory C ms r) = Inr dir \<and> verifyDirectory (rg_lib C) False dir (OnePin (signer_pub C)) = Inr (DirOk (signer_pub C))
    \<and> dir_gateways dir = map (gateway_json C (reg_sweep C False ms r)) (live (reg_sweep C False ms r))"
proof -
  let ?r = "reg_sweep C False ms r" and ?d = "unsigned_directory C ms (reg_sweep C False ms r)"
  have inv: "reg_inv C P ?r" using r by (rule reg_inv_sweep)
  obtain b where b: "canonicalDirectoryBytes ?d = Inr b" using unsigned_directory_bytes by blast
  have "binding_loop (rg_lib C) False (map (gateway_json C ?r) (live ?r)) = Inr None"
    unfolding binding_loop_None
  proof
    fix g assume "g \<in> set (map (gateway_json C ?r) (live ?r))"
    then obtain onion e where g: "(onion, e) \<in> set (live ?r)" "g = gateway_json C ?r (onion, e)" by auto
    from inv g(1) have "entry_ok C (onion, e)" unfolding reg_inv_def by blast
    with g(2) show "\<not> nullish g \<and> entry_bound (rg_lib C) False g" by (simp add: gateway_json_bound gateway_json_sel)
  qed
  then have bound: "checkGatewayBindings (rg_lib C) False ?d = Inr None"
    by (simp only: checkGatewayBindings_def unsigned_directory_sel jsval.case)
  have signer: "nullish (getp ?d ''signer'') \<or> getp ?d ''signer'' = JStr (hex_encode (ed_pub (rg_lib C) (rg_seed C)))"
    by (simp add: unsigned_directory_sel signer_pub_def)
  obtain dir where dir: "signDirectory (rg_lib C) ?d (hex_encode (rg_seed C)) = Inr dir"
      "verifyDirectory (rg_lib C) False dir (OnePin (signer_pub C)) = Inr (DirOk (signer_pub C))"
    using signed_directory_verifies [OF L(1,2) unsigned_directory_sel(1,2) b signer bound L(3)] by (auto simp: signer_pub_def)
  from dir(1) obtain sig where "dir = setp ?d ''signature'' sig" by (auto simp: signDirectory_def bind_res_Inr_iff)
  then have "dir_gateways dir = map (gateway_json C ?r) (live ?r)" by (simp add: dir_gateways_def unsigned_directory_def)
  with dir show ?thesis by (auto simp: directory_def Let_def)
qed

section \<open>Deltas\<close>

lemma find_onion:
  assumes "distinct (map f gs)" "g \<in> set gs"
  shows "find (\<lambda>h. f h = f g) (filter Q gs) = (if Q g then Some g else None)"
  using assms
proof (induction gs)
  case (Cons x gs)
  show ?case
  proof (cases "x = g")
    case True
    with Cons.prems(1) have "f g \<notin> f ` set gs" by simp
    then have "\<forall>h\<in>set gs. f h \<noteq> f g" by (metis imageI)
    with True show ?thesis by (auto simp: find_None_iff)
  next
    case False
    with Cons.prems have "g \<in> set gs" "f x \<notin> f ` set gs" by simp_all
    then have "f x \<noteq> f g" by (metis imageI)
    with False Cons show ?thesis by simp
  qed
qed simp

text \<open>The client rebuilds each listed entry from the delta's bodies, else from the view it holds.\<close>

definition rebuild :: "(string, string) jmap \<Rightarrow> jsval list \<Rightarrow> string \<Rightarrow> string option" where
  "rebuild old added onion = (case find (\<lambda>g. js_string (getp g ''onion'') = onion) added of
     Some g \<Rightarrow> Some (json_stringify g) | None \<Rightarrow> map_of old onion)"

lemma rebuild_exact:
  assumes "distinct (map (\<lambda>g. js_string (getp g ''onion'')) gs)" "g \<in> set gs"
  shows "rebuild old (filter (\<lambda>g. map_of old (js_string (getp g ''onion'')) \<noteq> Some (json_stringify g)) gs) (js_string (getp g ''onion'')) = Some (json_stringify g)"
  using find_onion [OF assms, of "\<lambda>g. map_of old (js_string (getp g ''onion'')) \<noteq> Some (json_stringify g)"] by (simp add: rebuild_def)

section \<open>Properties\<close>

text \<open>A small registry on the toy scheme, with one gateway listed.\<close>

definition toy_cfg :: reg_cfg where
  "toy_cfg = \<lparr>rg_lib = toy_lib, rg_float = \<lparr>fl = id, flt = (\<lambda>_. 0)\<rparr>, rg_ethers = None, rg_requireStake = False, rg_ttlSec = 900,
     rg_maxEntries = 2, rg_minReannounceSec = 5, rg_rate = 2, rg_burst = 10, rg_seed = toy_seed, rg_deltaHistoryMax = 4,
     rg_sha256 = (\<lambda>_. ''ab''), rg_persist = True, rg_probing = False, rg_failThreshold = 3\<rparr>"

lemma toy_cfg_sel [simp]:
  "rg_lib toy_cfg = toy_lib" "rg_float toy_cfg = \<lparr>fl = id, flt = (\<lambda>_. 0)\<rparr>" "rg_ethers toy_cfg = None" "\<not> rg_requireStake toy_cfg"
  "rg_ttlSec toy_cfg = 900" "rg_maxEntries toy_cfg = 2" "rg_minReannounceSec toy_cfg = 5" "rg_rate toy_cfg = 2" "rg_burst toy_cfg = 10"
  "rg_seed toy_cfg = toy_seed" "rg_deltaHistoryMax toy_cfg = 4" "rg_sha256 toy_cfg = (\<lambda>_. ''ab'')"
  by (simp_all add: toy_cfg_def)

lemma toy_cfg_ok: "ed_correct (rg_lib toy_cfg)" "length (rg_seed toy_cfg) = 32" "ed_sign (rg_lib toy_cfg) m (rg_seed toy_cfg) \<noteq> []"
  using toy_facts by simp_all

lemma toy_listed: obtains r where "reg_reach toy_cfg 1 r" "map fst (live r) = [toy_onion]"
proof -
  have "\<bar>1000 - (1000::int)\<bar> \<le> DEFAULT_ANNOUNCE_SKEW" "\<not> truthy JNull" by (simp_all add: DEFAULT_ANNOUNCE_SKEW_def)
  from own_announce_accepted [OF toy_keys this, of "Some (\<lambda>k. map_of ([] :: (string, int) jmap) k \<noteq> None)" "''n''" "JNum 100" JNull JNull "\<lparr>fl = id, flt = (\<lambda>_. 0)\<rparr>"]
  have "\<exists>rec. announce_checks toy_lib \<lparr>fl = id, flt = (\<lambda>_. 0)\<rparr> 1000 (Some DEFAULT_ANNOUNCE_SKEW) (Some (\<lambda>k. map_of ([] :: (string, int) jmap) k \<noteq> None)) rec
      = Inr (toy_onion, hex_encode (ed_pub toy_lib toy_seed), if hasCaps JNull then Some (canonicalCaps JNull) else None) \<and> getp rec ''operator'' = JUndef"
    by (auto simp: unseen_def)
  then obtain rec where rec: "announce_checks toy_lib \<lparr>fl = id, flt = (\<lambda>_. 0)\<rparr> 1000 (Some DEFAULT_ANNOUNCE_SKEW) (Some (\<lambda>k. map_of ([] :: (string, int) jmap) k \<noteq> None)) rec
      = Inr (toy_onion, hex_encode (ed_pub toy_lib toy_seed), if hasCaps JNull then Some (canonicalCaps JNull) else None)" "getp rec ''operator'' = JUndef"
    by blast
  let ?r0 = "makeRegistry toy_cfg 1000000"
  let ?r1 = "reg_step toy_cfg (1000000, AnnounceIn 7 rec) ?r0" and ?e2 = "(1000000, VerifiedIn 7 None)"
  have t: "bucket_take toy_cfg 1000 (makeAnnounceBucket 10 1000) = (True, \<lparr>tokens = 9, last_refill = 1000\<rparr>)"
    by (simp add: bucket_take_def bucket_disabled_def bucket_refill_def makeAnnounceBucket_def Let_def)
  have p1: "pending ?r1 = [(7, \<lparr>pd_rec = rec, pd_origin = Direct, pd_checked = (toy_onion, hex_encode (ed_pub toy_lib toy_seed),
      if hasCaps JNull then Some (canonicalCaps JNull) else None)\<rparr>)]" "live ?r1 = []"
    using rec(1) t by (simp_all add: makeRegistry_def announce_begin_def lookup_live_def start_verify_def secs_def Let_def split: option.split)
  have p2: "pending (reg_step toy_cfg ?e2 ?r1) = []" "map fst (live (reg_step toy_cfg ?e2 ?r1)) = [toy_onion]"
    using p1 rec(2) by (simp_all add: announce_end_def announce_finish_def Let_def)
  have "reg_reach toy_cfg 1 ?r1" by (rule reg_reach.reach_step [OF reg_reach.reach_init]) (simp only: p1, simp)
  then have "reg_reach toy_cfg 1 (reg_step toy_cfg ?e2 ?r1)" by (rule reg_reach.reach_step) (simp only: p2, simp)
  then show ?thesis by (rule that) (rule p2)
qed

text \<open>
  C39: the registry's memory is bounded under concurrency. With at most \<open>P\<close> signature
  verifications in flight at any moment, whatever was reloaded on boot and whatever mix of
  announcements, gossip, expiry and requests arrives in whatever order, it never lists more than \<open>maxEntries + P - 1\<close> gateways (exactly
  \<open>maxEntries\<close> when verifications do not overlap), each onion once.
\<close>

theorem registry_bounded:
  assumes "reg_reach C P r" "1 \<le> P"
  shows "length (live r) \<le> rg_maxEntries C + P - 1 \<and> distinct (map fst (live r))"
proof -
  have inv: "reg_inv C P r" using reg_inv_reach [OF assms(2,1)] .
  then have "length (live r) = card (fst ` set (live r))" unfolding reg_inv_def by (metis distinct_card length_map set_map)
  also have "\<dots> \<le> card (reserved r)" by (intro card_mono) (auto simp: reserved_def)
  finally show ?thesis using inv by (simp add: reg_inv_def)
qed

theorem registry_bounded_witness:
  "\<exists>r. reg_reach toy_cfg 1 r \<and> map fst (live r) = [toy_onion] \<and> length (live r) \<le> 2"
proof -
  obtain r where r: "reg_reach toy_cfg 1 r" "map fst (live r) = [toy_onion]" by (rule toy_listed)
  have "length (live r) \<le> 2" using registry_bounded [OF r(1)] by simp
  with r show ?thesis by (intro exI conjI)
qed

text \<open>
  the flood control works. From start-up at second \<open>t0\<close> to second \<open>t1\<close>, whatever is
  sent, at most \<open>burst + rate * (t1 - t0)\<close> announcements reach signature verification.
\<close>

theorem announce_rate_bounded:
  assumes "0 < rg_rate C" "0 \<le> rg_burst C" "\<forall>(ms, ev)\<in>set es. secs ms \<le> t1" "secs ms0 \<le> t1"
  shows "of_nat (verifies (fold (reg_step C) es (makeRegistry C ms0))) \<le> rg_burst C + of_int (t1 - secs ms0) * rg_rate C"
proof -
  let ?r = "fold (reg_step C) es (makeRegistry C ms0)"
  have c: "credit C (secs ms0) (makeRegistry C ms0)"
    using assms(2) by (simp add: credit_def makeRegistry_def makeAnnounceBucket_def)
  have l: "last_refill (bucket_st (makeRegistry C ms0)) \<le> t1" using assms(4) by (simp add: makeRegistry_def makeAnnounceBucket_def)
  from credit_run [OF assms(1,2) c l assms(3)] have cr: "credit C (secs ms0) ?r" "last_refill (bucket_st ?r) \<le> t1" by auto
  have "of_int (last_refill (bucket_st ?r) - secs ms0) * rg_rate C \<le> of_int (t1 - secs ms0) * rg_rate C"
    using cr(2) assms(1) by (intro mult_right_mono) (simp_all add: of_int_le_iff del: of_int_diff)
  with cr(1) show ?thesis by (simp add: credit_def)
qed

theorem announce_rate_bounded_witness:
  "of_nat (verifies (fold (reg_step toy_cfg) [(1000, AnnounceIn 1 JNull), (4000, AnnounceIn 2 JNull)] (makeRegistry toy_cfg 0))) \<le> (18 :: rat)"
  using announce_rate_bounded [of toy_cfg "[(1000, AnnounceIn 1 JNull), (4000, AnnounceIn 2 JNull)]" 4 0]
  by (simp add: secs_def)

text \<open>
  C38: what the bootnode serves, a client accepts. In every reachable state, reload on boot included, the
  signed directory verifies under the bootnode's key, with every listed entry bound to its onion's key and its
  capabilities signed by it, and it lists exactly the unexpired gateways.
\<close>

theorem served_directory_verifies:
  assumes "reg_reach C P r" "1 \<le> P" "ed_correct (rg_lib C)" "length (rg_seed C) = 32" "\<And>m. ed_sign (rg_lib C) m (rg_seed C) \<noteq> []"
  shows "\<exists>dir. fst (directory C ms r) = Inr dir \<and> verifyDirectory (rg_lib C) False dir (OnePin (signer_pub C)) = Inr (DirOk (signer_pub C))
    \<and> map (\<lambda>g. getp g ''onion'') (dir_gateways dir) = map (JStr \<circ> fst) (filter (\<lambda>(k, e). \<not> en_expiresAt e \<le> of_int (secs ms)) (live r))"
proof -
  obtain dir where d: "fst (directory C ms r) = Inr dir" "verifyDirectory (rg_lib C) False dir (OnePin (signer_pub C)) = Inr (DirOk (signer_pub C))"
      "dir_gateways dir = map (gateway_json C (reg_sweep C False ms r)) (live (reg_sweep C False ms r))"
    using directory_of_inv [OF reg_inv_reach [OF assms(2,1)] assms(3-5)] by blast
  moreover have "map (\<lambda>g. getp g ''onion'') (map (gateway_json C r') xs) = map (JStr \<circ> fst) xs" for r' xs
    by (induction xs) (auto simp: gateway_json_sel)
  ultimately show ?thesis by (auto simp: jmap_evict_def)
qed

theorem served_directory_verifies_witness:
  "\<exists>r dir. reg_reach toy_cfg 1 r \<and> map fst (live r) = [toy_onion] \<and> fst (directory toy_cfg 1000000 r) = Inr dir
     \<and> verifyDirectory toy_lib False dir (OnePin (signer_pub toy_cfg)) = Inr (DirOk (signer_pub toy_cfg))"
proof -
  obtain r where r: "reg_reach toy_cfg 1 r" "map fst (live r) = [toy_onion]" by (rule toy_listed)
  from served_directory_verifies [OF r(1) _ toy_cfg_ok, of 1000000] have "\<exists>dir. fst (directory toy_cfg 1000000 r) = Inr dir
      \<and> verifyDirectory toy_lib False dir (OnePin (signer_pub toy_cfg)) = Inr (DirOk (signer_pub toy_cfg))" by auto
  then obtain dir where "fst (directory toy_cfg 1000000 r) = Inr dir"
    "verifyDirectory toy_lib False dir (OnePin (signer_pub toy_cfg)) = Inr (DirOk (signer_pub toy_cfg))" by (elim exE conjE)
  with r show ?thesis by (intro exI conjI)
qed

text \<open>
  a delta rebuilds the directory. Starting from the entries the client holds for the version
  it names, replacing those the delta ships and laying them out in the delta's order gives, entry by
  entry, the serialization of the current signed directory; the removed onions are those of the old
  version that are no longer listed.
\<close>

theorem delta_rebuilds:
  assumes "reg_reach C P r" "1 \<le> P" "ed_correct (rg_lib C)" "length (rg_seed C) = 32" "\<And>m. ed_sign (rg_lib C) m (rg_seed C) \<noteq> []"
    and d: "delta C ms (Some since) r = (Inr (Delta base added removed n order), r1)"
  shows "\<exists>dir old. fst (directory C ms r) = Inr dir \<and> map_of (history r1) (etagKey since) = Some old
    \<and> map (rebuild old added) order = map (Some \<circ> json_stringify) (dir_gateways dir)
    \<and> set removed = fst ` set old - set order"
proof -
  let ?o = "\<lambda>g. js_string (getp g ''onion'')"
  obtain dir where dir: "fst (directory C ms r) = Inr dir" "dir_gateways dir = map (gateway_json C (reg_sweep C False ms r)) (live (reg_sweep C False ms r))"
    using directory_of_inv [OF reg_inv_reach [OF assms(2,1)] assms(3-5)] by blast
  obtain r0 where r0: "directory C ms r = (Inr dir, r0)" using dir(1) by (cases "directory C ms r") auto
  then obtain base' where w: "directoryWithEtag C ms r = (Inr (dir, base'), r1)" using d by (auto simp: directoryWithEtag_def delta_def Let_def)
  have "map ?o (map (gateway_json C r') xs) = map fst xs" for r' xs by (induction xs) (auto simp: gateway_json_sel)
  moreover have "distinct (map fst (live (reg_sweep C False ms r)))"
    using reg_inv_sweep [OF reg_inv_reach [OF assms(2,1)], of False ms] by (simp add: reg_inv_def)
  ultimately have dis: "distinct (map ?o (dir_gateways dir))" unfolding dir(2) by (simp only:)
  from d w obtain old where old: "map_of (history r1) (etagKey since) = Some old"
    and eq: "added = filter (\<lambda>g. map_of old (?o g) \<noteq> Some (json_stringify g)) (dir_gateways dir)" "order = map ?o (dir_gateways dir)"
      "removed = filter (\<lambda>k. k \<notin> set order) (map fst old)"
    by (auto simp: delta_def Let_def split: if_split_asm option.splits)
  have "map (rebuild old added) order = map (Some \<circ> json_stringify) (dir_gateways dir)"
    unfolding eq(1,2) by (simp add: rebuild_exact [OF dis])
  with dir(1) old eq(3) show ?thesis by auto
qed

lemma toy_delta:
  assumes "reg_reach toy_cfg 1 r"
  shows "\<exists>base added removed n order r1. delta toy_cfg 1000000 (Some ''ab'') r = (Inr (Delta base added removed n order), r1)"
proof -
  obtain dir where "fst (directory toy_cfg 1000000 r) = Inr dir"
    using directory_of_inv [OF reg_inv_reach [OF _ assms] toy_cfg_ok] by auto
  then obtain r0 where r0: "directory toy_cfg 1000000 r = (Inr dir, r0)" by (cases "directory toy_cfg 1000000 r") auto
  have k: "etagKey ''ab'' = ''ab''" "etagKey [CHR 0x22, CHR ''a'', CHR ''b'', CHR 0x22] = ''ab''" by code_simp+
  have "map_of (drop (length h - 4) (h @ [(''ab'', m)])) ''ab'' \<noteq> None" for h and m :: "(string, string) jmap"
    by (simp add: map_of_eq_None_iff)
  then obtain old where "map_of (history (snd (directoryWithEtag toy_cfg 1000000 r))) ''ab'' = Some old"
    using r0 k by (fastforce simp: directoryWithEtag_def recordVersion_def Let_def)
  with r0 k show ?thesis by (auto simp: delta_def directoryWithEtag_def Let_def)
qed

theorem delta_rebuilds_witness:
  "\<exists>r dir old base added removed n order r1. reg_reach toy_cfg 1 r \<and> map fst (live r) = [toy_onion]
     \<and> delta toy_cfg 1000000 (Some ''ab'') r = (Inr (Delta base added removed n order), r1)
     \<and> fst (directory toy_cfg 1000000 r) = Inr dir \<and> map (rebuild old added) order = map (Some \<circ> json_stringify) (dir_gateways dir)"
proof -
  obtain r where r: "reg_reach toy_cfg 1 r" "map fst (live r) = [toy_onion]" by (rule toy_listed)
  obtain base added removed n order r1 where d: "delta toy_cfg 1000000 (Some ''ab'') r = (Inr (Delta base added removed n order), r1)"
    using toy_delta [OF r(1)] by blast
  have "\<exists>dir old. fst (directory toy_cfg 1000000 r) = Inr dir \<and> map (rebuild old added) order = map (Some \<circ> json_stringify) (dir_gateways dir)"
    using delta_rebuilds [OF r(1) order_refl toy_cfg_ok d] by blast
  then obtain dir old where "fst (directory toy_cfg 1000000 r) = Inr dir"
    "map (rebuild old added) order = map (Some \<circ> json_stringify) (dir_gateways dir)" by (elim exE conjE)
  with r d show ?thesis by (intro exI conjI)
qed

end
