(* ===== verification/ClientAck.thy ===== *)
theory ClientAck
  imports Artifacts Onion
begin

text \<open>
  How the client of \<^verbatim>\<open>src/client/shade-tree-client.mjs\<close> talks to one gateway: the bounded
  reader of the acknowledgement line, the refusals it learns from, and the choice of the protocol
  version and artifact before the envelope is built.
\<close>

section \<open>The acknowledgement\<close>

definition MAX_GATEWAY_ACK_BYTES :: nat where
  "MAX_GATEWAY_ACK_BYTES = 64 * 1024"

datatype ack_code = ACK_TIMEOUT | ACK_TOO_LARGE | ACK_TRANSPORT | ACK_EOF | ACK_CLOSED | WRITE_FAILED | ACK_INVALID

text \<open>What can happen to the candidate's socket while the client waits; \<open>AckWriteError\<close> is the
  failure of the envelope's own write, which races the reader.\<close>

datatype ack_event = AckData string | AckTimeout | AckError | AckEnd | AckClose | AckWriteError

datatype ack_state = AckWait string | Acked string string | AckFailed ack_code

fun ack_step :: "nat \<Rightarrow> ack_event \<Rightarrow> ack_state \<Rightarrow> ack_state" where
  "ack_step cap (AckData c) (AckWait buf) =
     (let line = takeWhile (\<lambda>x. x \<noteq> CHR 0x0A) c in
      if length buf + length line > cap then AckFailed ACK_TOO_LARGE
      else if CHR 0x0A \<notin> set c then AckWait (buf @ c)
      else Acked (buf @ line) (drop (Suc (length line)) c))"
| "ack_step cap AckTimeout (AckWait buf) = AckFailed ACK_TIMEOUT"
| "ack_step cap AckError (AckWait buf) = AckFailed ACK_TRANSPORT"
| "ack_step cap AckEnd (AckWait buf) = AckFailed ACK_EOF"
| "ack_step cap AckClose (AckWait buf) = AckFailed ACK_CLOSED"
| "ack_step cap AckWriteError (AckWait buf) = AckFailed WRITE_FAILED"
| "ack_step cap ev st = st"

text \<open>The state of the socket when the listeners are attached: a peer can be gone already.\<close>

datatype peer = PeerOpen | PeerEnded | PeerClosed

definition readGatewayAck :: "nat \<Rightarrow> peer \<Rightarrow> ack_event list \<Rightarrow> ack_state" where
  "readGatewayAck cap p evs = (case p of
     PeerClosed \<Rightarrow> AckFailed ACK_CLOSED
   | PeerEnded \<Rightarrow> AckFailed ACK_EOF
   | PeerOpen \<Rightarrow> fold (ack_step cap) evs (AckWait []))"

text \<open>The exchange writes the envelope only to a peer that is still there.\<close>

definition exchangeGatewayAck :: "nat \<Rightarrow> peer \<Rightarrow> ack_event list \<Rightarrow> bool \<times> ack_state" where
  "exchangeGatewayAck cap p evs = (p = PeerOpen, readGatewayAck cap p evs)"

section \<open>Versions and artifacts\<close>

definition CLIENT_PROTO_MIN :: int where "CLIENT_PROTO_MIN = 4"
definition CLIENT_PROTO_MAX :: int where "CLIENT_PROTO_MAX = 4"

datatype version_pick = Version int | NoVersion string

definition selectProtoVersion :: "(int \<times> int) option \<Rightarrow> int \<times> int \<Rightarrow> version_pick" where
  "selectProtoVersion gatewayRange clientRange = (case gatewayRange of
     None \<Rightarrow> Version (snd clientRange)
   | Some (gMin, gMax) \<Rightarrow>
       (let hi = min (snd clientRange) gMax; lo = max (fst clientRange) gMin in
        if hi < lo
        then NoVersion (''no-mutual-version:client='' @ int_dec (fst clientRange) @ ''-'' @ int_dec (snd clientRange)
               @ '',gateway='' @ int_dec gMin @ ''-'' @ int_dec gMax)
        else Version hi))"

definition client_range :: "int \<times> int" where  \<comment> \<open>\<open>CLIENT_PROTO_RANGE\<close>\<close>
  "client_range = (CLIENT_PROTO_MIN, CLIENT_PROTO_MAX)"

definition protoRange :: "jsval \<Rightarrow> (int \<times> int) option" where
  "protoRange v = (case (getp v ''min'', getp v ''max'') of
     (JNum a, JNum b) \<Rightarrow>
       if \<not> is_safe_integer (JNum a) \<or> \<not> is_safe_integer (JNum b) then None
       else if a < 0 \<or> b < a then None else Some (a, b)
   | _ \<Rightarrow> None)"

definition MAX_LEARNED_GATEWAY_ARTIFACTS :: nat where
  "MAX_LEARNED_GATEWAY_ARTIFACTS = 8"

definition first_uses :: "'a list \<Rightarrow> 'a list" where  \<comment> \<open>\<open>[...new Set(xs)]\<close>\<close>
  "first_uses xs = rev (remdups (rev xs))"

definition artifactIds :: "jsval \<Rightarrow> string list option" where
  "artifactIds v = (case v of
     JArr vs \<Rightarrow> (let ids = first_uses (str_items vs) in
       if ids \<noteq> [] \<and> length ids \<le> MAX_LEARNED_GATEWAY_ARTIFACTS then Some ids else None)
   | _ \<Rightarrow> None)"

section \<open>Refusals\<close>

definition ack_reason :: "jsval \<Rightarrow> string" where
  "ack_reason ack = (case getp ack ''err'' of JStr s \<Rightarrow> s | _ \<Rightarrow> [])"

definition retryableGatewayRefusal :: "jsval \<Rightarrow> bool" where
  "retryableGatewayRefusal ack \<longleftrightarrow>
     ack_reason ack \<in> {''too-many-connections'', ''nullifier-conn-limit'', ''gateway-error'', ''bad-target-dns''}
     \<or> starts_with (ack_reason ack) ''upstream:''"

datatype capability_refusal = RefusedProto "int \<times> int" | RefusedArtifacts "string list"

definition version_refusal :: "string \<Rightarrow> bool" where  \<comment> \<open>\<open>/^(unsupported|bad)-version/\<close>\<close>
  "version_refusal r \<longleftrightarrow> starts_with r ''unsupported-version'' \<or> starts_with r ''bad-version''"

definition artifact_refusal :: "string \<Rightarrow> bool" where  \<comment> \<open>\<open>/^gate:(artifact-(unknown|retired)|bad-artifact)/\<close>\<close>
  "artifact_refusal r \<longleftrightarrow> starts_with r ''gate:artifact-unknown'' \<or> starts_with r ''gate:artifact-retired''
     \<or> starts_with r ''gate:bad-artifact''"

definition capabilityRefusal :: "jsval \<Rightarrow> capability_refusal option" where
  "capabilityRefusal ack =
     (case (if version_refusal (ack_reason ack) then protoRange (getp ack ''proto'') else None) of
        Some p \<Rightarrow> Some (RefusedProto p)
      | None \<Rightarrow> if artifact_refusal (ack_reason ack)
          then map_option RefusedArtifacts (artifactIds (getp ack ''artifacts'')) else None)"

section \<open>The plan of a tunnel\<close>

record candidate =
  cd_onion :: string
  cd_proto :: jsval
  cd_artifacts :: jsval

record learned_caps =
  lc_proto :: "(int \<times> int) option"
  lc_artifacts :: "string list option"

text \<open>The negotiation state of a client. \<open>cn_artifacts\<close> are the identifiers it can prove with.\<close>

record negotiator =
  cn_onion :: "string option"       \<comment> \<open>the pinned gateway\<close>
  cn_range :: jsval                 \<comment> \<open>\<open>gatewayRange\<close>\<close>
  cn_gateway_artifacts :: jsval
  cn_artifacts :: "jsval list"
  cn_learned :: "(string, learned_caps) jmap"

definition either :: "'a option \<Rightarrow> 'a option \<Rightarrow> 'a option" where  \<comment> \<open>\<open>a || b\<close>\<close>
  "either a b = (case a of Some x \<Rightarrow> Some x | None \<Rightarrow> b)"

definition learned_of :: "negotiator \<Rightarrow> string \<Rightarrow> learned_caps" where
  "learned_of N onion = (case map_of (cn_learned N) onion of Some l \<Rightarrow> l | None \<Rightarrow> \<lparr>lc_proto = None, lc_artifacts = None\<rparr>)"

definition knownGatewayCaps :: "negotiator \<Rightarrow> candidate \<Rightarrow> nat \<Rightarrow> (int \<times> int) option \<times> string list option" where
  "knownGatewayCaps N cand n =
     (let l = learned_of N (strip_onion (cd_onion cand)); singular = (n = 1) in
      (either (lc_proto l) (either (protoRange (cd_proto cand)) (if singular then protoRange (cn_range N) else None)),
       either (lc_artifacts l) (either (artifactIds (cd_artifacts cand)) (if singular then artifactIds (cn_gateway_artifacts N) else None))))"

datatype plan = NoPlan string string | Plan int string "candidate list"

definition pick_artifact :: "negotiator \<Rightarrow> string list option \<Rightarrow> pick" where
  "pick_artifact N ids = selectArtifact (map_option (map JStr) ids) (cn_artifacts N)"

fun version_ok :: "version_pick \<Rightarrow> bool" where
  "version_ok (Version v) = True" | "version_ok (NoVersion r) = False"

fun pick_ok :: "pick \<Rightarrow> bool" where
  "pick_ok (PickOk a) = True" | "pick_ok (PickFail r) = False"

text \<open>The candidates that are not known to refuse the chosen profile.\<close>

definition may_accept :: "int \<Rightarrow> string \<Rightarrow> (int \<times> int) option \<times> string list option \<Rightarrow> bool" where
  "may_accept v a caps \<longleftrightarrow> (case fst caps of Some (lo, hi) \<Rightarrow> lo \<le> v \<and> v \<le> hi | None \<Rightarrow> True)
     \<and> (case snd caps of Some ids \<Rightarrow> a \<in> set ids | None \<Rightarrow> True)"

definition planEnvelope :: "negotiator \<Rightarrow> candidate list \<Rightarrow> plan" where
  "planEnvelope N cands =
     (let evaluated = map (\<lambda>c. let caps = knownGatewayCaps N c (length cands) in
            (c, caps, selectProtoVersion (fst caps) client_range, pick_artifact N (snd caps))) cands in
      case find (\<lambda>(c, caps, pv, pa). version_ok pv \<and> pick_ok pa) evaluated of
        Some (c, caps, Version v, PickOk a) \<Rightarrow>
          Plan v a (map fst (filter (\<lambda>(c, caps, pv, pa). may_accept v a caps) evaluated))
      | _ \<Rightarrow>
          (case filter (\<lambda>(c, caps, pv, pa). version_ok pv) evaluated of
             [] \<Rightarrow> NoPlan ''version'' (case evaluated of (c, caps, NoVersion r, pa) # _ \<Rightarrow> r | _ \<Rightarrow> ''no candidate'')
           | (c, caps, pv, pa) # _ \<Rightarrow> NoPlan ''artifact'' (case pa of PickFail r \<Rightarrow> r | PickOk a \<Rightarrow> ''undefined'')))"

text \<open>
  \<open>_gateRefusalError\<close>: what the refusal teaches about this gateway, the message, and whether it is
  a capability mismatch.
\<close>

definition learn :: "capability_refusal \<Rightarrow> string \<Rightarrow> negotiator \<Rightarrow> negotiator" where
  "learn r onion N =
     (let l = learned_of N onion;
          l' = (case r of RefusedProto p \<Rightarrow> l\<lparr>lc_proto := Some p\<rparr> | RefusedArtifacts ids \<Rightarrow> l\<lparr>lc_artifacts := Some ids\<rparr>);
          N' = N\<lparr>cn_learned := AList.update onion l' (cn_learned N)\<rparr> in
      if cn_onion N = Some onion
      then (case r of
          RefusedProto (a, b) \<Rightarrow> N'\<lparr>cn_range := JObj [(''min'', JNum a), (''max'', JNum b)]\<rparr>
        | RefusedArtifacts ids \<Rightarrow> N'\<lparr>cn_gateway_artifacts := JArr (map JStr ids)\<rparr>)
      else N')"

definition gateRefusalError :: "negotiator \<Rightarrow> jsval \<Rightarrow> string \<Rightarrow> negotiator \<times> string \<times> bool" where
  "gateRefusalError N ack onion =
     (let cand = strip_onion onion; err = ack_reason ack in
      case capabilityRefusal ack of
        Some r \<Rightarrow>
          (if cand = [] then N else learn r cand N,
           (case r of
              RefusedProto (a, b) \<Rightarrow> ''gate refused: '' @ err @ '' (gateway speaks '' @ int_dec a @ ''-'' @ int_dec b @ ''; ''
                @ (case selectProtoVersion (Some (a, b)) client_range of Version v \<Rightarrow> ''retry as v'' @ int_dec v | NoVersion e \<Rightarrow> e) @ '')''
            | RefusedArtifacts ids \<Rightarrow> ''gate refused: '' @ err @ '' (gateway accepts artifacts '' @ join_with '','' ids @ ''; ''
                @ (case pick_artifact N (Some ids) of PickOk i \<Rightarrow> ''retry with '' @ i | PickFail e \<Rightarrow> e) @ '')''),
           True)
      | None \<Rightarrow> (N, ''gate refused: '' @ (if err \<noteq> [] then err else ''unspecified refusal''), False))"

section \<open>Lemmas\<close>

lemma ack_step_final [simp]: "\<forall>b. st \<noteq> AckWait b \<Longrightarrow> ack_step cap ev st = st"
  by (cases st; cases ev) auto

lemma ack_fold_final: "\<forall>b. st \<noteq> AckWait b \<Longrightarrow> fold (ack_step cap) evs st = st"
  by (induction evs) simp_all

abbreviation before_nl :: "string \<Rightarrow> string" where
  "before_nl \<equiv> takeWhile (\<lambda>x. x \<noteq> CHR 0x0A)"

lemma before_nl_append: "CHR 0x0A \<notin> set b \<Longrightarrow> before_nl (b @ c) = b @ before_nl c"
  by (induction b) auto

lemma ack_data:
  assumes "CHR 0x0A \<notin> set b" "length b \<le> cap"
  shows "case fold (ack_step cap) (map AckData cs) (AckWait b) of
      Acked line rest \<Rightarrow> length line \<le> cap \<and> CHR 0x0A \<notin> set line \<and> (\<exists>later. b @ concat cs = line @ CHR 0x0A # rest @ later)
    | AckWait b' \<Rightarrow> b' = b @ concat cs \<and> CHR 0x0A \<notin> set b' \<and> length b' \<le> cap
    | AckFailed e \<Rightarrow> e = ACK_TOO_LARGE \<and> length (before_nl (b @ concat cs)) > cap"
  using assms
proof (induction cs arbitrary: b)
  case (Cons c cs)
  let ?line = "before_nl c"
  consider (large) "length b + length ?line > cap" | (more) "length b + length ?line \<le> cap" "CHR 0x0A \<notin> set c"
    | (whole) "length b + length ?line \<le> cap" "CHR 0x0A \<in> set c" by linarith
  then show ?case
  proof cases
    case large
    have "length ?line \<le> length (before_nl (c @ concat cs))"
      by (induction c) simp_all
    with large Cons.prems show ?thesis by (simp add: ack_fold_final before_nl_append Let_def)
  next
    case more
    then have l: "?line = c" by (auto simp: takeWhile_eq_all_conv)
    with more have st: "fold (ack_step cap) (map AckData (c # cs)) (AckWait b) = fold (ack_step cap) (map AckData cs) (AckWait (b @ c))"
      and b: "CHR 0x0A \<notin> set (b @ c)" "length (b @ c) \<le> cap" using Cons.prems by (simp_all add: Let_def l)
    show ?thesis unfolding st using Cons.IH [OF b] unfolding append_assoc concat.simps by simp
  next
    case whole
    obtain l r where lr: "c = l @ CHR 0x0A # r" "CHR 0x0A \<notin> set l" using split_list_first [OF whole(2)] by blast
    then have "?line = l" by (simp add: before_nl_append)
    with lr(1) have "c = ?line @ CHR 0x0A # drop (Suc (length ?line)) c" by simp
    moreover have "CHR 0x0A \<notin> set ?line" by (auto dest: set_takeWhileD)
    ultimately show ?thesis using whole Cons.prems
      by (auto simp: ack_fold_final Let_def intro!: exI [of _ "concat cs"])
  qed
qed simp

text \<open>
  The acknowledgement the client reads does not depend on how its bytes are cut into chunks. The
  line it delivers is bounded and complete, nothing after it is lost, and a peer that never sends a
  newline is cut off at the bound.
\<close>

theorem readGatewayAck_framing:
  "case readGatewayAck cap PeerOpen (map AckData cs) of
      Acked line rest \<Rightarrow> length line \<le> cap \<and> CHR 0x0A \<notin> set line \<and> (\<exists>later. concat cs = line @ CHR 0x0A # rest @ later)
    | AckWait b \<Rightarrow> b = concat cs \<and> CHR 0x0A \<notin> set b \<and> length b \<le> cap
    | AckFailed e \<Rightarrow> e = ACK_TOO_LARGE \<and> length (before_nl (concat cs)) > cap"
  using ack_data [of "[]" cap cs] unfolding append_Nil readGatewayAck_def peer.case by simp

lemma either_simps [simp]: "either (Some x) b = Some x" "either None b = b"
  by (simp_all add: either_def)

lemma first_uses_set [simp]: "set (first_uses xs) = set xs"
  by (simp add: first_uses_def)

lemma str_items_JStr [simp]: "set (str_items (map JStr ss)) = {s \<in> set ss. artifact_id_re s}"
  by (induction ss) auto

lemma selectProtoVersion_Version:
  "selectProtoVersion g (lo, hi) = Version v \<longleftrightarrow>
     (case g of None \<Rightarrow> v = hi | Some (a, b) \<Rightarrow> v = min hi b \<and> max lo a \<le> min hi b)"
  by (auto simp: selectProtoVersion_def Let_def split: option.splits)

lemma version_ok_iff: "version_ok pv \<longleftrightarrow> (\<exists>v. pv = Version v)"
  by (cases pv) simp_all

lemma pick_ok_iff: "pick_ok pa \<longleftrightarrow> (\<exists>a. pa = PickOk a)"
  by (cases pa) simp_all

lemma pick_artifact_PickOk:
  assumes "pick_artifact N ids = PickOk a" "case ids of Some l \<Rightarrow> l \<noteq> [] | None \<Rightarrow> True"
  shows "a \<in> set (str_items (cn_artifacts N)) \<and> (case ids of Some l \<Rightarrow> a \<in> set l | None \<Rightarrow> True)"
proof (cases ids)
  case None
  with assms(1) show ?thesis by (cases "str_items (cn_artifacts N)") (auto simp: pick_artifact_def selectArtifact_def Let_def split: if_splits)
next
  case (Some l)
  then obtain x l' where l: "l = x # l'" using assms(2) by (cases l) auto
  let ?mine = "str_items (cn_artifacts N)"
  obtain r where "filter (\<lambda>i. i \<in> set (str_items (map JStr l))) ?mine = a # r"
    using assms(1) Some l by (auto simp: pick_artifact_def selectArtifact_def Let_def split: if_splits list.splits simp del: str_items_JStr)
  then have "a \<in> set (filter (\<lambda>i. i \<in> set (str_items (map JStr l))) ?mine)" by simp
  with Some show ?thesis by simp
qed

lemma artifactIds_Some: "artifactIds v = Some ids \<Longrightarrow> ids \<noteq> []"
  by (auto simp: artifactIds_def Let_def split: jsval.splits if_splits)

definition learned_ok :: "negotiator \<Rightarrow> bool" where  \<comment> \<open>learned lists are not empty\<close>
  "learned_ok N \<longleftrightarrow> (\<forall>o' l ids. map_of (cn_learned N) o' = Some l \<and> lc_artifacts l = Some ids \<longrightarrow> ids \<noteq> [])"

lemma known_artifacts_nonempty:
  "learned_ok N \<Longrightarrow> snd (knownGatewayCaps N c n) = Some ids \<Longrightarrow> ids \<noteq> []"
  by (auto simp: knownGatewayCaps_def Let_def learned_of_def learned_ok_def either_def dest: artifactIds_Some split: option.splits if_splits)

lemma learned_ok_learn: "learned_ok N \<Longrightarrow> capabilityRefusal ack = Some r \<Longrightarrow> learned_ok (learn r onion N)"
  by (cases r) (auto simp: learned_ok_def learn_def Let_def update_conv' learned_of_def capabilityRefusal_def
      dest: artifactIds_Some split: option.splits if_splits prod.splits)

lemma learned_ok_refusal: "learned_ok N \<Longrightarrow> learned_ok (fst (gateRefusalError N ack onion))"
  by (auto simp: gateRefusalError_def Let_def learned_ok_learn split: option.splits)

lemma filter_evaluated:
  "map fst (filter (\<lambda>(c, caps, pv, pa). P caps) (map (\<lambda>c. (c, f c, g c, h c)) cs)) = filter (\<lambda>c. P (f c)) cs"
  by (induction cs) simp_all

text \<open>
  The plan of a tunnel commits to one protocol version and one artifact that the client can make.
  The gateways it tries are exactly the candidates, in their order, that are not known to refuse that
  profile, and there is at least one. Without a plan, no candidate could have been given a profile.
\<close>

theorem planEnvelope_sound:
  assumes ok: "learned_ok N"
  shows "case planEnvelope N cands of
      Plan v a cs \<Rightarrow> CLIENT_PROTO_MIN \<le> v \<and> v \<le> CLIENT_PROTO_MAX \<and> a \<in> set (str_items (cn_artifacts N))
        \<and> cs = filter (\<lambda>c. may_accept v a (knownGatewayCaps N c (length cands))) cands \<and> cs \<noteq> []
    | NoPlan stage reason \<Rightarrow> \<forall>c \<in> set cands. \<not> version_ok (selectProtoVersion (fst (knownGatewayCaps N c (length cands))) client_range)
        \<or> \<not> pick_ok (pick_artifact N (snd (knownGatewayCaps N c (length cands))))"
proof -
  let ?k = "\<lambda>c. knownGatewayCaps N c (length cands)"
  let ?e = "\<lambda>c. let caps = ?k c in (c, caps, selectProtoVersion (fst caps) client_range, pick_artifact N (snd caps))"
  let ?good = "\<lambda>(c, caps, pv, pa). version_ok pv \<and> pick_ok pa"
  show ?thesis
  proof (cases "find ?good (map ?e cands)")
    case None
    then have "\<forall>c \<in> set cands. \<not> ?good (?e c)" by (auto simp: find_None_iff)
    moreover obtain stage reason where "planEnvelope N cands = NoPlan stage reason"
      using None unfolding planEnvelope_def Let_def
      by (cases "filter (\<lambda>(c, caps, pv, pa). version_ok pv) (map ?e cands)") (auto simp: Let_def split: prod.splits)
    ultimately show ?thesis by (simp add: Let_def)
  next
    case (Some x)
    then have x: "x \<in> set (map ?e cands)" "?good x" by (auto dest: find_SomeD)
    then obtain c where c: "c \<in> set cands" "x = ?e c" by auto
    obtain v a where va: "selectProtoVersion (fst (?k c)) client_range = Version v" "pick_artifact N (snd (?k c)) = PickOk a"
      using x(2) c(2) by (auto simp: Let_def version_ok_iff pick_ok_iff)
    have plan: "planEnvelope N cands = Plan v a (filter (\<lambda>c. may_accept v a (?k c)) cands)"
      using Some c(2) va unfolding planEnvelope_def Let_def filter_evaluated by simp
    have v: "v = CLIENT_PROTO_MAX" "case fst (?k c) of Some (lo, hi) \<Rightarrow> lo \<le> v \<and> v \<le> hi | None \<Rightarrow> True"
      using va(1) by (auto simp: client_range_def selectProtoVersion_Version CLIENT_PROTO_MIN_def CLIENT_PROTO_MAX_def split: option.splits)
    have a: "a \<in> set (str_items (cn_artifacts N))" "case snd (?k c) of Some l \<Rightarrow> a \<in> set l | None \<Rightarrow> True"
      using pick_artifact_PickOk [OF va(2)] known_artifacts_nonempty [OF ok] by (auto split: option.splits)
    have "may_accept v a (?k c)" using v(2) a(2) by (simp add: may_accept_def)
    with c(1) have "filter (\<lambda>c. may_accept v a (?k c)) cands \<noteq> []" by (auto simp: filter_empty_conv)
    with a(1) v(1) show ?thesis by (simp add: plan CLIENT_PROTO_MIN_def CLIENT_PROTO_MAX_def)
  qed
qed

end
