(* ===== verification/Receipt.thy ===== *)
theory Receipt
  imports Announce
begin

text \<open>
  The egress success receipts of \<^verbatim>\<open>src/lib/receipt.mjs\<close>, which a gateway attaches to its
  acknowledgement, and the evidence the client of \<^verbatim>\<open>src/client/shade-tree-client.mjs\<close> makes of
  one. Lemmas: the round trip from gateway to client, and that no other statement the onion key signs
  has a receipt's bytes.
\<close>

section \<open>Receipts\<close>

definition RECEIPT_VERSION :: int where
  "RECEIPT_VERSION = 1"

definition RECEIPT_DOMAIN :: string where
  "RECEIPT_DOMAIN = ''Shade Tree egress success receipt v1'' @ [CHR 0x0A]"

definition canonicalReceiptBytes :: "jsval \<Rightarrow> jsval \<Rightarrow> jsval \<Rightarrow> jsval \<Rightarrow> string" where
  "canonicalReceiptBytes v onion epoch okv = utf8 RECEIPT_DOMAIN @ utf8 (json_stringify
     (JObj [(''v'', v), (''onion'', onion), (''epoch'', JStr (js_string epoch)), (''ok'', JBool (okv = JBool True))]))"

definition buildReceipt :: "dir_lib \<Rightarrow> string \<Rightarrow> int \<Rightarrow> string \<Rightarrow> jsval \<Rightarrow> jsval res" where
  "buildReceipt L onion epoch seedHex okv =
     (let e = JStr (int_dec epoch); k = JBool (okv = JBool True) in
      bind_res (ed25519Sign L (canonicalReceiptBytes (JNum RECEIPT_VERSION) (JStr onion) e k) seedHex) (\<lambda>sig.
        Inr (JObj [(''v'', JNum RECEIPT_VERSION), (''onion'', JStr onion), (''epoch'', e), (''ok'', k), (''sig'', JStr sig)])))"

datatype receipt_check = ReceiptOk string string string | BadReceipt string

definition canonical_epoch :: "string \<Rightarrow> bool" where  \<comment> \<open>\<open>/^(0|[1-9][0-9]*)$/\<close>\<close>
  "canonical_epoch s \<longleftrightarrow> s = ''0'' \<or> all_digits s \<and> hd s \<noteq> CHR ''0''"

definition same_onion :: "string \<Rightarrow> string \<Rightarrow> bool" where
  "same_onion a b \<longleftrightarrow> js_lower (strip_onion a) = js_lower (strip_onion b)"

definition verifyReceipt :: "dir_lib \<Rightarrow> jsval \<Rightarrow> string option \<Rightarrow> int option \<Rightarrow> int \<Rightarrow> receipt_check" where
  "verifyReceipt L rec onion cur skew =
     (if \<not> is_object rec then BadReceipt ''no-receipt''
      else if getp rec ''v'' \<noteq> JNum RECEIPT_VERSION then BadReceipt (''bad-version:'' @ js_string (getp rec ''v''))
      else if getp rec ''ok'' \<noteq> JBool True then BadReceipt ''not-success''
      else case getp rec ''onion'' of
        JStr ro \<Rightarrow>
          if (case onion of Some o' \<Rightarrow> o' \<noteq> [] \<and> \<not> same_onion ro o' | None \<Rightarrow> False) then BadReceipt ''onion-mismatch''
          else (case onionToPubkey (sha3 L) ro of
            Inl e \<Rightarrow> BadReceipt (''bad-onion:'' @ (case e of Error m \<Rightarrow> m | _ \<Rightarrow> []))
          | Inr pubkey \<Rightarrow>
              (case getp rec ''epoch'' of
                 JStr ep \<Rightarrow>
                   if \<not> canonical_epoch ep then BadReceipt ''bad-epoch''
                   else if (case cur of Some c \<Rightarrow> \<bar>int (dec_nat ep) - c\<bar> > skew | None \<Rightarrow> False) then BadReceipt (''stale-epoch:'' @ ep)
                   else if \<not> truthy (getp rec ''sig'')
                     \<or> \<not> ed25519Verify L (canonicalReceiptBytes (getp rec ''v'') (JStr ro) (JStr ep) (getp rec ''ok'')) (getp rec ''sig'') pubkey
                   then BadReceipt ''bad-sig''
                   else ReceiptOk ro pubkey ep
               | _ \<Rightarrow> BadReceipt ''bad-epoch''))
      | _ \<Rightarrow> BadReceipt ''no-onion'')"

text \<open>\<open>_verifyReceipt\<close>: the evidence of one acknowledgement. It is never a reason to fail.\<close>

datatype evidence = NoEvidence | GoodReceipt string string | BogusReceipt string

definition verify_receipt :: "dir_lib \<Rightarrow> jsval \<Rightarrow> string \<Rightarrow> int \<Rightarrow> evidence" where
  "verify_receipt L receipt usedOnion epoch =
     (if \<not> truthy receipt then NoEvidence
      else case verifyReceipt L receipt (Some usedOnion) (Some epoch) 1 of
        ReceiptOk ro k ep \<Rightarrow> GoodReceipt ro ep
      | BadReceipt reason \<Rightarrow> BogusReceipt reason)"

section \<open>Lemmas\<close>

lemma utf8_append: "utf8 (a @ b) = utf8 a @ utf8 b"
  by (simp add: utf8_def)

lemma utf8_Cons: "of_char c < (128 :: nat) \<Longrightarrow> utf8 (c # s) = c # utf8 s"
  by (simp add: utf8_def utf8_char_def Let_def)

lemma canonical_epoch_int_dec: "0 \<le> n \<Longrightarrow> canonical_epoch (int_dec n) \<and> int (dec_nat (int_dec n)) = n"
proof -
  assume n: "0 \<le> n"
  show ?thesis
  proof (cases "nat n = 0")
    case True
    have "nat_dec 0 = ''0''" by (simp add: nat_dec.simps digit_char_def)
    with True n show ?thesis by (simp add: canonical_epoch_def int_dec_def dec_nat_def digit_val_def)
  next
    case False
    with n hd_nat_dec [of "nat n"] show ?thesis by (simp add: canonical_epoch_def int_dec_def)
  qed
qed

text \<open>
  The receipt a gateway signs for its epoch is accepted by every client that dialed its onion, in
  that epoch or an adjacent one, and yields the onion, its key and the epoch.
\<close>

theorem receipt_roundtrip:
  assumes K: "seed_keys L seed onion" and ep: "0 \<le> epoch" "\<bar>epoch - cur\<bar> \<le> 1" and dialed: "same_onion onion usedOnion"
  shows "\<exists>rec. buildReceipt L onion epoch (hex_encode seed) (JBool True) = Inr rec
    \<and> verifyReceipt L rec (Some usedOnion) (Some cur) 1 = ReceiptOk onion (hex_encode (ed_pub L seed)) (int_dec epoch)
    \<and> verify_receipt L rec usedOnion cur = GoodReceipt onion (int_dec epoch)"
proof -
  let ?b = "canonicalReceiptBytes (JNum RECEIPT_VERSION) (JStr onion) (JStr (int_dec epoch)) (JBool True)"
  let ?rec = "JObj [(''v'', JNum RECEIPT_VERSION), (''onion'', JStr onion), (''epoch'', JStr (int_dec epoch)), (''ok'', JBool True),
    (''sig'', JStr (hex_encode (ed_sign L ?b seed)))]"
  have sig: "ed25519Verify L ?b (JStr (hex_encode (ed_sign L ?b seed))) (hex_encode (ed_pub L seed))"
    using seed_signs(3) [OF K, of ?b] by (simp add: verifyOnionControl_def seed_onion_key [OF K])
  have "buildReceipt L onion epoch (hex_encode seed) (JBool True) = Inr ?rec"
    by (simp add: buildReceipt_def seed_signs(1) [OF K] Let_def)
  moreover have v: "verifyReceipt L ?rec (Some usedOnion) (Some cur) 1 = ReceiptOk onion (hex_encode (ed_pub L seed)) (int_dec epoch)"
    using canonical_epoch_int_dec [OF ep(1)] ep(2) dialed sig seed_signs(2) [OF K]
    by (simp add: verifyReceipt_def seed_onion_key [OF K] del: getp.simps) (simp add: seed_onion_key [OF K])
  moreover have "verify_receipt L ?rec usedOnion cur = GoodReceipt onion (int_dec epoch)"
    using v by (simp add: verify_receipt_def)
  ultimately show ?thesis by blast
qed

text \<open>
  No announcement, directory or capability statement has the bytes of a receipt, whatever their
  contents, so a signature of the onion key on one is never a signature on the other.
\<close>

theorem receipt_bytes_separate:
  "canonicalReceiptBytes v onion epoch okv \<noteq> canonicalAnnounceBytes rec
   \<and> canonicalDirectoryBytes dir \<noteq> Inr (canonicalReceiptBytes v onion epoch okv)
   \<and> canonicalReceiptBytes v onion epoch okv \<noteq> canonicalCapsBytes o' caps
   \<and> canonicalReceiptBytes v onion epoch okv \<noteq> canonicalPreV4CapsBytes o' caps"
proof -
  have r: "take 12 (canonicalReceiptBytes v onion epoch okv) = ''Shade Tree e''"
    by (simp add: canonicalReceiptBytes_def RECEIPT_DOMAIN_def utf8_Cons)
  have obj: "take 1 (utf8 (json_stringify (JObj kvs))) = ''{''" for kvs by (simp add: utf8_Cons)
  have "take 1 (canonicalReceiptBytes v onion epoch okv) = ''S''"
    by (simp add: canonicalReceiptBytes_def RECEIPT_DOMAIN_def utf8_Cons)
  moreover have "take 1 (canonicalAnnounceBytes rec) = ''{''" unfolding canonicalAnnounceBytes_def by (rule obj)
  moreover have "take 1 b = ''{''" if "canonicalDirectoryBytes dir = Inr b" for b
    using that obj by (auto simp: canonicalDirectoryBytes_def bind_res_Inr_iff split: jsval.splits simp del: json_stringify.simps)
  moreover have "take 12 (canonicalCapsBytes o' caps) = ''Shade Tree g''" "take 1 (canonicalPreV4CapsBytes o' caps) = ''R''"
    by (simp_all add: canonicalCapsBytes_def canonicalPreV4CapsBytes_def caps_statement_def CAPS_DOMAIN_def PRE_V4_CAPS_DOMAIN_def utf8_Cons)
  ultimately show ?thesis using r by force
qed

end
