(* ===== verification/SlotState.thy ===== *)
theory SlotState
  imports Prelude
begin

text \<open>
  \<^verbatim>\<open>src/client/slot-state.mjs\<close>: the crash-safe allocator of RLN slots that every client
  process of a member shares through one small state file and a lock directory. The file is
  \<open>slot_file\<close>, the outcome of each file-system call is an input, and the critical section is the
  function \<open>critical\<close>. A step relation interleaves any number of processes, which may crash at
  any point, over the same critical section.
\<close>

section \<open>State and errors\<close>

datatype slot_code = UNAVAILABLE | CORRUPT | LOCKED | EPOCH_ROLLBACK

datatype slot_error = SlotErr slot_code string

datatype slot_file = Missing | Unreadable | NotJson | Json jsval

record slot_state =
  epoch :: int
  nextSlot :: int

definition SLOT_STATE_VERSION :: int where
  "SLOT_STATE_VERSION = 1"

definition DEFAULT_SLOT_LOCK_TIMEOUT_MS :: int where
  "DEFAULT_SLOT_LOCK_TIMEOUT_MS = 10000"

definition nonneg_safe :: "jsval \<Rightarrow> bool" where
  "nonneg_safe v \<longleftrightarrow> is_safe_integer v \<and> (case v of JNum n \<Rightarrow> 0 \<le> n | _ \<Rightarrow> False)"

fun num_of :: "jsval \<Rightarrow> int" where
  "num_of (JNum n) = n"
| "num_of _ = 0"

fun obj_keys :: "jsval \<Rightarrow> string list" where  \<comment> \<open>\<open>Object.keys\<close>\<close>
  "obj_keys (JObj kvs) = map fst kvs"
| "obj_keys _ = []"

definition parseState :: "jsval \<Rightarrow> slot_error + slot_state" where
  "parseState value = (case value of
      JObj kvs \<Rightarrow>
        if join_with '','' (sort (obj_keys value)) \<noteq> ''epoch,nextSlot,version''
           \<or> getp value ''version'' \<noteq> JNum SLOT_STATE_VERSION
        then Inl (SlotErr CORRUPT ''has an unknown shape or version'')
        else if \<not> nonneg_safe (getp value ''epoch'') \<or> \<not> nonneg_safe (getp value ''nextSlot'')
        then Inl (SlotErr CORRUPT ''contains an invalid epoch or nextSlot'')
        else Inr \<lparr>epoch = num_of (getp value ''epoch''), nextSlot = num_of (getp value ''nextSlot'')\<rparr>
    | _ \<Rightarrow> Inl (SlotErr CORRUPT ''is not an object''))"

fun loadState :: "slot_file \<Rightarrow> slot_error + slot_state option" where
  "loadState Missing = Inr None"
| "loadState Unreadable = Inl (SlotErr UNAVAILABLE ''cannot be read'')"
| "loadState NotJson = Inl (SlotErr CORRUPT ''is corrupt'')"
| "loadState (Json v) = (case parseState v of Inl e \<Rightarrow> Inl e | Inr s \<Rightarrow> Inr (Some s))"

definition stateJson :: "slot_state \<Rightarrow> jsval" where
  "stateJson s = JObj [(''version'', JNum SLOT_STATE_VERSION), (''epoch'', JNum (epoch s)),
     (''nextSlot'', JNum (nextSlot s))]"

text \<open>
  \<open>saveState\<close> writes a temporary file, flushes it, renames it over the state file and flushes the
  directory. The rename is the commit point: a failure before it leaves the old file, a failure
  after it (of the directory flush) leaves the new one; both throw.
\<close>

datatype save_outcome = SaveOk | FailBeforeRename | FailAfterRename

fun saveState :: "save_outcome \<Rightarrow> slot_state \<Rightarrow> slot_file \<Rightarrow> (slot_error + unit) \<times> slot_file" where
  "saveState SaveOk s f = (Inr (), Json (stateJson s))"
| "saveState FailBeforeRename s f = (Inl (SlotErr UNAVAILABLE ''cannot be durably updated''), f)"
| "saveState FailAfterRename s f =
     (Inl (SlotErr UNAVAILABLE ''cannot be durably updated''), Json (stateJson s))"

section \<open>The lock\<close>

text \<open>
  Each attempt is the outcome of one \<open>mkdirSync\<close> and the clock read after it. The loop waits
  and retries only on \<open>EEXIST\<close> before the deadline; \<open>None\<close> means the attempts so far did not
  end it.
\<close>

datatype mkdir_outcome = Created | EEXIST | MkdirFailed

fun acquireLock :: "int \<Rightarrow> (mkdir_outcome \<times> int) list \<Rightarrow> (slot_error + unit) option" where
  "acquireLock deadline [] = None"
| "acquireLock deadline ((Created, t) # as) = Some (Inr ())"
| "acquireLock deadline ((MkdirFailed, t) # as) =
     Some (Inl (SlotErr UNAVAILABLE ''lock cannot be created''))"
| "acquireLock deadline ((EEXIST, t) # as) =
     (if t \<ge> deadline then Some (Inl (SlotErr LOCKED ''remained locked''))
      else acquireLock deadline as)"

section \<open>Allocation\<close>

datatype allocation =
    Exhausted (al_epoch: int) (al_used: int)
  | Allocated (al_epoch: int) (al_slot: int) (al_used: int)

text \<open>The decision inside the lock, from the loaded state: a result, and the state to write.\<close>

definition critical :: "slot_state option \<Rightarrow> int \<Rightarrow> int \<Rightarrow> slot_error + (allocation \<times> slot_state option)" where
  "critical saved current k =
     (case saved of
        Some s \<Rightarrow>
          if epoch s > current then Inl (SlotErr EPOCH_ROLLBACK ''refuses epoch rollback'')
          else let nxt = (if epoch s < current then 0 else nextSlot s) in
            if nxt > k then Inl (SlotErr CORRUPT ''has nextSlot beyond limit'')
            else if nxt = k then Inr (Exhausted current k, None)
            else Inr (Allocated current nxt (nxt + 1), Some \<lparr>epoch = current, nextSlot = nxt + 1\<rparr>)
      | None \<Rightarrow>
          if 0 > k then Inl (SlotErr CORRUPT ''has nextSlot beyond limit'')
          else if 0 = k then Inr (Exhausted current k, None)
          else Inr (Allocated current 0 1, Some \<lparr>epoch = current, nextSlot = 1\<rparr>))"

text \<open>The outcomes of the file-system calls of one allocation.\<close>

record slot_io =
  io_mkdir :: bool
  io_lock :: "(mkdir_outcome \<times> int) list"
  io_start :: int
  io_save :: save_outcome
  io_rmdir :: bool

definition locked_section ::
  "save_outcome \<Rightarrow> slot_file \<Rightarrow> int \<Rightarrow> int \<Rightarrow> (slot_error + allocation) \<times> slot_file" where
  "locked_section sv f current k =
     (case loadState f of
        Inl e \<Rightarrow> (Inl e, f)
      | Inr saved \<Rightarrow> (case critical saved current k of
          Inl e \<Rightarrow> (Inl e, f)
        | Inr (r, None) \<Rightarrow> (Inr r, f)
        | Inr (r, Some s) \<Rightarrow> (case saveState sv s f of
            (Inl e, f') \<Rightarrow> (Inl e, f')
          | (Inr _, f') \<Rightarrow> (Inr r, f'))))"

definition allocatePersistentSlot ::
  "slot_io \<Rightarrow> string \<Rightarrow> int \<Rightarrow> jsval \<Rightarrow> jsval \<Rightarrow> slot_file
     \<Rightarrow> ((slot_error + allocation) \<times> slot_file) option" where
  "allocatePersistentSlot io path ep limit lockTimeoutMs f =
     (if path = [] then Some (Inl (SlotErr UNAVAILABLE ''a persistent RLN slot state path is required''), f)
      else if ep < 0 \<or> ep > MAX_SAFE_INTEGER \<or> \<not> is_safe_integer limit \<or> num_of limit < 1
      then Some (Inl (SlotErr UNAVAILABLE ''invalid epoch or slot limit''), f)
      else if \<not> is_safe_integer lockTimeoutMs \<or> num_of lockTimeoutMs < 0
      then Some (Inl (SlotErr UNAVAILABLE ''slot lock timeout must be a non-negative integer''), f)
      else if \<not> io_mkdir io then Some (Inl (SlotErr UNAVAILABLE ''directory cannot be created''), f)
      else case acquireLock (io_start io + num_of lockTimeoutMs) (io_lock io) of
        None \<Rightarrow> None
      | Some (Inl e) \<Rightarrow> Some (Inl e, f)
      | Some (Inr _) \<Rightarrow>
          (case locked_section (io_save io) f ep (num_of limit) of (r, f') \<Rightarrow>
             if \<not> io_rmdir io then Some (Inl (SlotErr UNAVAILABLE ''lock cannot be released''), f')
             else Some (r, f')))"

section \<open>What has been burned\<close>

text \<open>
  The slots a state file rules out for ever: those of earlier epochs and those below the saved
  counter. A file that does not parse rules out everything, since no allocation succeeds on it.
\<close>

definition burned :: "slot_file \<Rightarrow> (int \<times> int) set" where
  "burned f = (case loadState f of
      Inl _ \<Rightarrow> UNIV
    | Inr None \<Rightarrow> {}
    | Inr (Some s) \<Rightarrow> {(e, i). e < epoch s \<or> e = epoch s \<and> i < nextSlot s})"

text \<open>An allocator that burns the slots it returns.\<close>

locale slot_allocator =
  fixes alloc :: "'op \<Rightarrow> 'st \<Rightarrow> ('e + allocation) \<times> 'st"
    and burned :: "'st \<Rightarrow> (int \<times> int) set"
  assumes alloc_fresh: "alloc op st = (Inr (Allocated e i u), st') \<Longrightarrow> (e, i) \<notin> burned st \<and> (e, i) \<in> burned st'"
    and alloc_mono: "burned st \<subseteq> burned (snd (alloc op st))"
begin

text \<open>A run of allocations by any callers, and the slots it handed out in order.\<close>

fun run :: "'op list \<Rightarrow> 'st \<Rightarrow> (int \<times> int) list" where
  "run [] st = []"
| "run (op # ops) st = (case alloc op st of
     (Inr (Allocated e i u), st') \<Rightarrow> (e, i) # run ops st'
   | (r, st') \<Rightarrow> run ops st')"

lemma run_fresh: "p \<in> set (run ops st) \<Longrightarrow> p \<notin> burned st"
proof (induction ops arbitrary: st)
  case (Cons op ops)
  obtain r st' where r: "alloc op st = (r, st')" by fastforce
  with alloc_mono [of st op] have mono: "burned st \<subseteq> burned st'" by simp
  show ?case
  proof (cases "\<exists>e i u. r = Inr (Allocated e i u)")
    case True
    then obtain e i u where e: "r = Inr (Allocated e i u)" by blast
    with r alloc_fresh have "(e, i) \<notin> burned st" by blast
    with r e Cons mono show ?thesis by auto
  next
    case False
    with r Cons.prems have "p \<in> set (run ops st')" by (auto split: sum.splits allocation.splits)
    with Cons.IH mono show ?thesis by blast
  qed
qed simp

lemma run_distinct: "distinct (run ops st)"
proof (induction ops arbitrary: st)
  case (Cons op ops)
  obtain r st' where r: "alloc op st = (r, st')" by fastforce
  show ?case
  proof (cases "\<exists>e i u. r = Inr (Allocated e i u)")
    case True
    then obtain e i u where e: "r = Inr (Allocated e i u)" by blast
    with r alloc_fresh have "(e, i) \<in> burned st'" by blast
    with run_fresh have "(e, i) \<notin> set (run ops st')" by blast
    with r e Cons.IH show ?thesis by simp
  next
    case False
    with r Cons.IH show ?thesis by (auto split: sum.splits allocation.splits)
  qed
qed simp

end

section \<open>Lemmas of the critical section\<close>

definition args_ok :: "int \<Rightarrow> int \<Rightarrow> bool" where
  "args_ok e k \<longleftrightarrow> 0 \<le> e \<and> e \<le> MAX_SAFE_INTEGER \<and> 1 \<le> k \<and> k \<le> MAX_SAFE_INTEGER"

definition state_ok :: "slot_state \<Rightarrow> bool" where
  "state_ok s \<longleftrightarrow> 0 \<le> epoch s \<and> epoch s \<le> MAX_SAFE_INTEGER
     \<and> 0 \<le> nextSlot s \<and> nextSlot s \<le> MAX_SAFE_INTEGER"

lemma parse_stateJson [simp]: "state_ok s \<Longrightarrow> parseState (stateJson s) = Inr s"
proof -
  assume "state_ok s"
  moreover have "join_with '','' (sort [''version'', ''epoch'', ''nextSlot'']) = ''epoch,nextSlot,version''"
    by code_simp
  ultimately show ?thesis
    by (simp add: parseState_def stateJson_def state_ok_def nonneg_safe_def)
qed

lemma load_saved [simp]: "state_ok s \<Longrightarrow> loadState (Json (stateJson s)) = Inr (Some s)"
  by (simp add: parse_stateJson)

lemma loadState_ok: "loadState f = Inr (Some s) \<Longrightarrow> state_ok s"
proof -
  have "nonneg_safe v \<Longrightarrow> 0 \<le> num_of v \<and> num_of v \<le> MAX_SAFE_INTEGER" for v
    by (cases v) (auto simp: nonneg_safe_def)
  then show "loadState f = Inr (Some s) \<Longrightarrow> state_ok s"
    by (cases f) (auto simp: parseState_def state_ok_def split: sum.splits jsval.splits if_splits)
qed

lemma critical_Allocated:
  assumes "critical saved e k = Inr (Allocated e' i u, w)" and "args_ok e k"
    and "\<And>s. saved = Some s \<Longrightarrow> state_ok s"
  shows "e' = e \<and> 0 \<le> i \<and> i < k \<and> u = i + 1
    \<and> w = Some \<lparr>epoch = e, nextSlot = i + 1\<rparr> \<and> state_ok \<lparr>epoch = e, nextSlot = i + 1\<rparr>
    \<and> (case saved of None \<Rightarrow> i = 0 | Some s \<Rightarrow> epoch s \<le> e \<and> i = (if epoch s < e then 0 else nextSlot s))"
  using assms
  by (auto simp: critical_def Let_def args_ok_def state_ok_def split: option.splits if_splits)

lemma critical_no_write: "critical saved e k = Inr (r, None) \<Longrightarrow> r = Exhausted e k"
  by (auto simp: critical_def Let_def split: option.splits if_splits)

lemma critical_write: "critical saved e k = Inr (r, Some s) \<Longrightarrow> \<exists>i. r = Allocated e i (i + 1)"
  by (auto simp: critical_def Let_def split: option.splits if_splits)

lemma burned_saved: "state_ok s \<Longrightarrow>
    burned (Json (stateJson s)) = {(e, i). e < epoch s \<or> e = epoch s \<and> i < nextSlot s}"
  by (simp add: burned_def parse_stateJson)

lemma critical_burns:
  assumes "loadState f = Inr saved" and "critical saved e k = Inr (Allocated e' i u, w)" and "args_ok e k"
  shows "\<exists>s. w = Some s \<and> state_ok s \<and> (e', i) \<notin> burned f \<and> (e', i) \<in> burned (Json (stateJson s))
    \<and> burned f \<subseteq> burned (Json (stateJson s))"
proof -
  have ok: "\<And>s. saved = Some s \<Longrightarrow> state_ok s"
    using assms(1) loadState_ok by blast
  note C = critical_Allocated [OF assms(2,3) ok]
  let ?s = "\<lparr>epoch = e, nextSlot = i + 1\<rparr>"
  have b: "burned (Json (stateJson ?s)) = {(e', j). e' < e \<or> e' = e \<and> j < i + 1}"
    using C by (simp add: burned_saved)
  show ?thesis
    using C b assms(1)
    by (intro exI [of _ ?s]) (auto simp: burned_def [of f] split: option.splits if_splits)
qed

lemma locked_section_cases:
  assumes "locked_section sv f e k = (r, f')"
  shows "f' = f \<or> (\<exists>saved s i. loadState f = Inr saved \<and> critical saved e k = Inr (Allocated e i (i + 1), Some s)
     \<and> f' = Json (stateJson s))"
  using assms
  by (cases sv) (auto simp: locked_section_def split: sum.splits option.splits, (metis critical_write)+)

lemma locked_section_Allocated:
  assumes "locked_section sv f e k = (Inr (Allocated e' i u), f')"
  shows "\<exists>saved s. loadState f = Inr saved \<and> critical saved e k = Inr (Allocated e' i u, Some s)
     \<and> f' = Json (stateJson s)"
  using assms
  by (cases sv) (auto simp: locked_section_def split: sum.splits option.splits dest: critical_no_write)

text \<open>One allocation as an operation of the interface; an unfinished wait leaves the file alone.\<close>

type_synonym slot_op = "slot_io \<times> string \<times> int \<times> jsval \<times> jsval"

definition alloc_op :: "slot_op \<Rightarrow> slot_file \<Rightarrow> (slot_error + allocation) \<times> slot_file" where
  "alloc_op op f = (case op of (io, path, ep, limit, to) \<Rightarrow>
     case allocatePersistentSlot io path ep limit to f of
       None \<Rightarrow> (Inl (SlotErr LOCKED ''waiting''), f) | Some r \<Rightarrow> r)"

lemma alloc_op_cases:
  assumes "alloc_op (io, path, ep, limit, to) f = (r, f')"
  shows "f' = f \<and> (\<forall>a. r \<noteq> Inr a) \<or>
    args_ok ep (num_of limit) \<and> locked_section (io_save io) f ep (num_of limit) = (r, f') \<or>
    args_ok ep (num_of limit) \<and> (\<forall>a. r \<noteq> Inr a) \<and> snd (locked_section (io_save io) f ep (num_of limit)) = f'"
proof -
  have "is_safe_integer limit \<Longrightarrow> num_of limit \<le> MAX_SAFE_INTEGER"
    by (cases limit) auto
  with assms show ?thesis
    by (auto simp: alloc_op_def allocatePersistentSlot_def args_ok_def
        split: if_splits option.splits sum.splits prod.splits)
qed

lemma locked_section_mono:
  assumes "locked_section sv f e k = (r, f')" and "args_ok e k"
  shows "burned f \<subseteq> burned f'"
  using locked_section_cases [OF assms(1)]
proof (elim disjE exE conjE)
  fix saved s i
  assume "loadState f = Inr saved" "critical saved e k = Inr (Allocated e i (i + 1), Some s)"
    and f': "f' = Json (stateJson s)"
  from critical_burns [OF this(1,2) assms(2)] f' show ?thesis by auto
qed simp

interpretation slots: slot_allocator alloc_op burned
proof unfold_locales
  fix op :: slot_op and f e i u f'
  assume *: "alloc_op op f = (Inr (Allocated e i u), f')"
  obtain io path ep limit to where op: "op = (io, path, ep, limit, to)" by (cases op) auto
  with * alloc_op_cases [of io path ep limit to f] have A: "args_ok ep (num_of limit)"
      "locked_section (io_save io) f ep (num_of limit) = (Inr (Allocated e i u), f')"
    by auto
  obtain saved s where S: "loadState f = Inr saved"
      "critical saved ep (num_of limit) = Inr (Allocated e i u, Some s)" "f' = Json (stateJson s)"
    using locked_section_Allocated [OF A(2)] by blast
  from critical_burns [OF S(1,2) A(1)] S(3)
  show "(e, i) \<notin> burned f \<and> (e, i) \<in> burned f'" by auto
next
  fix op :: slot_op and f
  obtain io path ep limit to where op: "op = (io, path, ep, limit, to)" by (cases op) auto
  obtain r f' where r: "alloc_op op f = (r, f')" by fastforce
  obtain r' f'' where r': "locked_section (io_save io) f ep (num_of limit) = (r', f'')" by fastforce
  from alloc_op_cases [OF r [unfolded op]] locked_section_mono r r'
  show "burned f \<subseteq> burned (snd (alloc_op op f))" by fastforce
qed

section \<open>Interleaved processes\<close>

text \<open>
  Processes run the phases of \<open>allocatePersistentSlot\<close> one file-system call at a time: take the
  lock directory, load and decide, rename the new state into place (or fail before or after the
  rename), remove the lock directory and return. A process may crash in any phase; a crashed
  holder leaves the lock directory behind. \<open>handed\<close> lists the slots returned so far.
\<close>

datatype pc =
    Idle
  | InLock int int
  | Decided allocation "slot_state option"
  | Written allocation
  | Failing
  | Dead

record alloc_sys =
  disk :: slot_file
  holder :: "nat option"
  pcs :: "nat \<Rightarrow> pc"
  handed :: "(int \<times> int) list"

fun hand_out :: "allocation \<Rightarrow> (int \<times> int) list" where
  "hand_out (Allocated e i u) = [(e, i)]"
| "hand_out (Exhausted e u) = []"

inductive slot_step :: "alloc_sys \<Rightarrow> alloc_sys \<Rightarrow> bool" where
  lock: "pcs \<sigma> p = Idle \<Longrightarrow> holder \<sigma> = None \<Longrightarrow> args_ok e k \<Longrightarrow>
     slot_step \<sigma> (\<sigma>\<lparr>holder := Some p, pcs := (pcs \<sigma>)(p := InLock e k)\<rparr>)"
| decide: "pcs \<sigma> p = InLock e k \<Longrightarrow> loadState (disk \<sigma>) = Inr saved \<Longrightarrow> critical saved e k = Inr (r, w) \<Longrightarrow>
     slot_step \<sigma> (\<sigma>\<lparr>pcs := (pcs \<sigma>)(p := Decided r w)\<rparr>)"
| refuse: "pcs \<sigma> p = InLock e k \<Longrightarrow>
     (\<exists>err. loadState (disk \<sigma>) = Inl err) \<or> (\<exists>saved err. loadState (disk \<sigma>) = Inr saved \<and> critical saved e k = Inl err) \<Longrightarrow>
     slot_step \<sigma> (\<sigma>\<lparr>pcs := (pcs \<sigma>)(p := Failing)\<rparr>)"
| nothing: "pcs \<sigma> p = Decided r None \<Longrightarrow> slot_step \<sigma> (\<sigma>\<lparr>pcs := (pcs \<sigma>)(p := Written r)\<rparr>)"
| rename: "pcs \<sigma> p = Decided r (Some s) \<Longrightarrow> saveState SaveOk s (disk \<sigma>) = (Inr (), f') \<Longrightarrow>
     slot_step \<sigma> (\<sigma>\<lparr>disk := f', pcs := (pcs \<sigma>)(p := Written r)\<rparr>)"
| save_fails: "pcs \<sigma> p = Decided r (Some s) \<Longrightarrow> saveState sv s (disk \<sigma>) = (Inl err, f') \<Longrightarrow>
     slot_step \<sigma> (\<sigma>\<lparr>disk := f', pcs := (pcs \<sigma>)(p := Failing)\<rparr>)"
| return: "pcs \<sigma> p = Written r \<Longrightarrow>
     slot_step \<sigma> (\<sigma>\<lparr>holder := None, pcs := (pcs \<sigma>)(p := Idle), handed := handed \<sigma> @ hand_out r\<rparr>)"
| throw: "pcs \<sigma> p = Failing \<Longrightarrow> slot_step \<sigma> (\<sigma>\<lparr>holder := None, pcs := (pcs \<sigma>)(p := Idle)\<rparr>)"
| unlock_fails: "pcs \<sigma> p = Written r \<or> pcs \<sigma> p = Failing \<Longrightarrow> slot_step \<sigma> (\<sigma>\<lparr>pcs := (pcs \<sigma>)(p := Idle)\<rparr>)"
| crash: "slot_step \<sigma> (\<sigma>\<lparr>pcs := (pcs \<sigma>)(p := Dead)\<rparr>)"

inductive reachable_from :: "slot_file \<Rightarrow> alloc_sys \<Rightarrow> bool" for f where
  start: "reachable_from f \<lparr>disk = f, holder = None, pcs = (\<lambda>_. Idle), handed = []\<rparr>"
| step: "reachable_from f \<sigma> \<Longrightarrow> slot_step \<sigma> \<tau> \<Longrightarrow> reachable_from f \<tau>"

text \<open>
  The invariant: only the holder is past the lock; what is handed out is burned on disk, without
  repetition; a decision is fresh with respect to the disk and its write would burn it; a written
  slot is burned and not yet handed out.
\<close>

fun pc_ok :: "alloc_sys \<Rightarrow> nat \<Rightarrow> pc \<Rightarrow> bool" where
  "pc_ok \<sigma> p (InLock e k) \<longleftrightarrow> holder \<sigma> = Some p \<and> args_ok e k"
| "pc_ok \<sigma> p (Decided (Allocated e i u) w) \<longleftrightarrow> holder \<sigma> = Some p \<and> (e, i) \<notin> burned (disk \<sigma>)
     \<and> (\<exists>s. w = Some s \<and> (e, i) \<in> burned (Json (stateJson s)) \<and> burned (disk \<sigma>) \<subseteq> burned (Json (stateJson s)))"
| "pc_ok \<sigma> p (Decided (Exhausted e u) w) \<longleftrightarrow> holder \<sigma> = Some p \<and> w = None"
| "pc_ok \<sigma> p (Written r) \<longleftrightarrow> holder \<sigma> = Some p \<and> set (hand_out r) \<subseteq> burned (disk \<sigma>) - set (handed \<sigma>)"
| "pc_ok \<sigma> p Failing \<longleftrightarrow> holder \<sigma> = Some p"
| "pc_ok \<sigma> p Idle \<longleftrightarrow> True"
| "pc_ok \<sigma> p Dead \<longleftrightarrow> True"

definition slot_inv :: "alloc_sys \<Rightarrow> bool" where
  "slot_inv \<sigma> \<longleftrightarrow> distinct (handed \<sigma>) \<and> set (handed \<sigma>) \<subseteq> burned (disk \<sigma>) \<and> (\<forall>p. pc_ok \<sigma> p (pcs \<sigma> p))"

lemma pc_ok_holder: "pc_ok \<sigma> p c \<Longrightarrow> holder \<sigma> \<noteq> Some p \<Longrightarrow> c = Idle \<or> c = Dead"
  by (cases "(\<sigma>, p, c)" rule: pc_ok.cases) auto

lemma pc_ok_idle_or_dead [simp]: "c = Idle \<or> c = Dead \<Longrightarrow> pc_ok \<sigma> p c"
  by auto

text \<open>Changing the phase of one process is safe for the others, which are outside the lock.\<close>

lemma slot_inv_update:
  assumes inv: "slot_inv \<sigma>" and hold: "holder \<sigma> = Some p \<or> holder \<sigma> = None"
    and new: "pc_ok (\<sigma>\<lparr>disk := f', holder := h', pcs := (pcs \<sigma>)(p := c'), handed := l'\<rparr>) p c'"
    and log: "distinct l'" "set l' \<subseteq> burned f'"
  shows "slot_inv (\<sigma>\<lparr>disk := f', holder := h', pcs := (pcs \<sigma>)(p := c'), handed := l'\<rparr>)"
proof -
  have "pcs \<sigma> q = Idle \<or> pcs \<sigma> q = Dead" if "q \<noteq> p" for q
    using inv hold that pc_ok_holder [of \<sigma> q "pcs \<sigma> q"] by (auto simp: slot_inv_def)
  with new log show ?thesis by (simp add: slot_inv_def)
qed

lemma slot_inv_holder: "slot_inv \<sigma> \<Longrightarrow> pcs \<sigma> p \<notin> {Idle, Dead} \<Longrightarrow> holder \<sigma> = Some p"
  using pc_ok_holder [of \<sigma> p "pcs \<sigma> p"] by (auto simp: slot_inv_def)

lemma slot_inv_pc: "slot_inv \<sigma> \<Longrightarrow> pcs \<sigma> p = c \<Longrightarrow> pc_ok \<sigma> p c"
  by (auto simp: slot_inv_def)

lemma pc_ok_frame: "disk \<tau> = disk \<sigma> \<Longrightarrow> holder \<tau> = holder \<sigma> \<Longrightarrow> handed \<tau> = handed \<sigma> \<Longrightarrow>
    pc_ok \<tau> p c = pc_ok \<sigma> p c"
  by (cases "(\<sigma>, p, c)" rule: pc_ok.cases) auto

text \<open>A step that only moves one process keeps the invariant if its new phase is justified.\<close>

lemma slot_inv_move:
  assumes "slot_inv \<sigma>" and "pc_ok \<sigma> p c'"
  shows "slot_inv (\<sigma>\<lparr>pcs := (pcs \<sigma>)(p := c')\<rparr>)"
  using assms
  by (auto simp: slot_inv_def pc_ok_frame [of "\<sigma>\<lparr>pcs := (pcs \<sigma>)(p := c')\<rparr>" \<sigma>])

lemma slot_step_inv: "slot_step \<sigma> \<tau> \<Longrightarrow> slot_inv \<sigma> \<Longrightarrow> slot_inv \<tau>"
proof (induction rule: slot_step.induct)
  case (lock \<sigma> p e k)
  then have "slot_inv (\<sigma>\<lparr>disk := disk \<sigma>, holder := Some p, pcs := (pcs \<sigma>)(p := InLock e k), handed := handed \<sigma>\<rparr>)"
    by (intro slot_inv_update) (auto simp: slot_inv_def)
  then show ?case by simp
next
  case (decide \<sigma> p e k saved r w)
  from slot_inv_pc [OF decide.prems decide.hyps(1)] have h: "holder \<sigma> = Some p" "args_ok e k" by auto
  show ?case
  proof (rule slot_inv_move [OF decide.prems], cases r)
    case (Exhausted e' u)
    with h decide.hyps(3) show "pc_ok \<sigma> p (Decided r w)"
      by (cases w) (auto dest: critical_write)
  next
    case (Allocated e' i u)
    with h decide.hyps show "pc_ok \<sigma> p (Decided r w)"
      using critical_burns [of "disk \<sigma>" saved e k e' i u w] by auto
  qed
next
  case (refuse \<sigma> p e k)
  then show ?case by (auto intro!: slot_inv_move dest: slot_inv_pc)
next
  case (nothing \<sigma> p r)
  from slot_inv_pc [OF nothing.prems nothing.hyps] have "pc_ok \<sigma> p (Written r)"
    by (cases r) auto
  with nothing.prems show ?case by (rule slot_inv_move)
next
  case (rename \<sigma> p r s f')
  from slot_inv_pc [OF rename.prems rename.hyps(1)] rename.hyps(2) rename.prems
  have "slot_inv (\<sigma>\<lparr>disk := f', holder := holder \<sigma>, pcs := (pcs \<sigma>)(p := Written r), handed := handed \<sigma>\<rparr>)"
    by (intro slot_inv_update; cases r) (auto simp: slot_inv_def)
  then show ?case by simp
next
  case (save_fails \<sigma> p r s sv err f')
  from slot_inv_pc [OF save_fails.prems save_fails.hyps(1)]
  have "burned (disk \<sigma>) \<subseteq> burned f'" "holder \<sigma> = Some p"
    using save_fails.hyps(2) by (cases r; cases sv; auto)+
  with save_fails.prems
  have "slot_inv (\<sigma>\<lparr>disk := f', holder := holder \<sigma>, pcs := (pcs \<sigma>)(p := Failing), handed := handed \<sigma>\<rparr>)"
    by (intro slot_inv_update) (auto simp: slot_inv_def)
  then show ?case by simp
next
  case (return \<sigma> p r)
  from slot_inv_pc [OF return.prems return.hyps] return.prems
  have "slot_inv (\<sigma>\<lparr>disk := disk \<sigma>, holder := None, pcs := (pcs \<sigma>)(p := Idle), handed := handed \<sigma> @ hand_out r\<rparr>)"
    by (intro slot_inv_update; cases r) (auto simp: slot_inv_def)
  then show ?case by simp
next
  case (throw \<sigma> p)
  from slot_inv_pc [OF throw.prems throw.hyps] throw.prems
  have "slot_inv (\<sigma>\<lparr>disk := disk \<sigma>, holder := None, pcs := (pcs \<sigma>)(p := Idle), handed := handed \<sigma>\<rparr>)"
    by (intro slot_inv_update) (auto simp: slot_inv_def)
  then show ?case by simp
next
  case (unlock_fails \<sigma> p r)
  then show ?case by (auto intro!: slot_inv_move)
next
  case (crash \<sigma> p)
  then show ?case by (auto intro!: slot_inv_move)
qed

lemma reachable_slot_inv: "reachable_from f \<sigma> \<Longrightarrow> slot_inv \<sigma>"
proof (induction rule: reachable_from.induct)
  case start
  show ?case by (simp add: slot_inv_def)
next
  case (step \<sigma> \<tau>)
  then show ?case by (blast intro: slot_step_inv)
qed

section \<open>Properties\<close>

text \<open>
  C13: over any interleaving of client processes that share one state file, with crashes and
  file-system failures at any point, no slot of an epoch is handed out twice, and two processes
  are never past the lock at the same time.
\<close>

theorem slots_never_reused:
  assumes "reachable_from f \<sigma>"
  shows "distinct (handed \<sigma>) \<and> (\<forall>p q. pcs \<sigma> p \<notin> {Idle, Dead} \<and> pcs \<sigma> q \<notin> {Idle, Dead} \<longrightarrow> p = q)"
proof -
  note inv = reachable_slot_inv [OF assms]
  from inv have "distinct (handed \<sigma>)" by (simp add: slot_inv_def)
  moreover have "p = q" if "pcs \<sigma> p \<notin> {Idle, Dead}" "pcs \<sigma> q \<notin> {Idle, Dead}" for p q
    using slot_inv_holder [OF inv that(1)] slot_inv_holder [OF inv that(2)] by simp
  ultimately show ?thesis by blast
qed

text \<open>Process 0 allocates slot 0 of epoch 5, then process 1 takes the lock and crashes.\<close>

definition demo_sys :: alloc_sys where
  "demo_sys = \<lparr>disk = Json (stateJson \<lparr>epoch = 5, nextSlot = 1\<rparr>), holder = Some 1,
     pcs = (\<lambda>_. Idle)(0 := Idle, 1 := Dead), handed = [(5, 0)]\<rparr>"

lemma demo_sys_reachable: "reachable_from Missing demo_sys"
proof -
  let ?s0 = "\<lparr>disk = Missing, holder = None, pcs = (\<lambda>_. Idle), handed = []\<rparr> :: alloc_sys"
  let ?w = "\<lparr>epoch = 5, nextSlot = 1\<rparr>"
  let ?a = "Allocated 5 0 1"
  let ?s1 = "?s0\<lparr>holder := Some 0, pcs := (\<lambda>_. Idle)(0 := InLock 5 8)\<rparr>"
  let ?s2 = "?s1\<lparr>pcs := (\<lambda>_. Idle)(0 := Decided ?a (Some ?w))\<rparr>"
  let ?s3 = "?s2\<lparr>disk := Json (stateJson ?w), pcs := (\<lambda>_. Idle)(0 := Written ?a)\<rparr>"
  let ?s4 = "?s3\<lparr>holder := None, pcs := (\<lambda>_. Idle)(0 := Idle), handed := [(5, 0)]\<rparr>"
  let ?s5 = "?s4\<lparr>holder := Some 1, pcs := (\<lambda>_. Idle)(0 := Idle, 1 := InLock 5 8)\<rparr>"
  have ok: "args_ok 5 8" by (simp add: args_ok_def MAX_SAFE_INTEGER_def)
  have "slot_step ?s0 ?s1" using slot_step.lock [of ?s0 0 5 8] ok by simp
  from reachable_from.step [OF reachable_from.start this] have r: "reachable_from Missing ?s1" .
  have "slot_step ?s1 ?s2"
    using slot_step.decide [of ?s1 0 5 8 None ?a "Some ?w"] by (simp add: critical_def)
  from reachable_from.step [OF r this] have r: "reachable_from Missing ?s2" .
  have "slot_step ?s2 ?s3"
    using slot_step.rename [of ?s2 0 ?a ?w "Json (stateJson ?w)"] by simp
  from reachable_from.step [OF r this] have r: "reachable_from Missing ?s3" .
  have "slot_step ?s3 ?s4" using slot_step.return [of ?s3 0 ?a] by simp
  from reachable_from.step [OF r this] have r: "reachable_from Missing ?s4" .
  have "slot_step ?s4 ?s5" using slot_step.lock [of ?s4 1 5 8] ok by simp
  from reachable_from.step [OF r this] have r: "reachable_from Missing ?s5" .
  have "slot_step ?s5 demo_sys" using slot_step.crash [of ?s5 1] by (simp add: demo_sys_def)
  from reachable_from.step [OF r this] show ?thesis .
qed

theorem slots_never_reused_witness:
  "reachable_from Missing demo_sys \<and> handed demo_sys = [(5, 0)] \<and> distinct (handed demo_sys)"
  using demo_sys_reachable slots_never_reused [OF demo_sys_reachable] by (simp add: demo_sys_def)

text \<open>
  a sequence of allocations, whatever their epochs, limits, lock waits and file-system
  outcomes and whatever is in the file at the start, never returns the same (epoch, slot) twice,
  and never returns one the file had already burned.
\<close>

theorem allocations_fresh:
  "distinct (slots.run ops f) \<and> set (slots.run ops f) \<inter> burned f = {}"
  using slots.run_distinct slots.run_fresh by blast

text \<open>
  an allocation that returns a slot returns one below the limit, for the requested epoch, and
  has durably recorded the next counter before returning; the next allocation on that file for the
  same epoch continues from there.
\<close>

theorem allocation_durable:
  assumes "allocatePersistentSlot io path ep limit to f = Some (Inr (Allocated e i u), f')"
  shows "e = ep \<and> 0 \<le> i \<and> i < num_of limit \<and> u = i + 1
    \<and> loadState f' = Inr (Some \<lparr>epoch = ep, nextSlot = i + 1\<rparr>)"
proof -
  have "alloc_op (io, path, ep, limit, to) f = (Inr (Allocated e i u), f')"
    using assms by (simp add: alloc_op_def)
  from alloc_op_cases [OF this] have A: "args_ok ep (num_of limit)"
      "locked_section (io_save io) f ep (num_of limit) = (Inr (Allocated e i u), f')"
    by auto
  obtain saved s where S: "loadState f = Inr saved"
      "critical saved ep (num_of limit) = Inr (Allocated e i u, Some s)" "f' = Json (stateJson s)"
    using locked_section_Allocated [OF A(2)] by blast
  have "\<And>s. saved = Some s \<Longrightarrow> state_ok s" using S(1) loadState_ok by blast
  from critical_Allocated [OF S(2) A(1) this] S(3) show ?thesis by auto
qed

definition demo_io :: slot_io where
  "demo_io = \<lparr>io_mkdir = True, io_lock = [(EEXIST, 3), (Created, 9)], io_start = 0, io_save = SaveOk, io_rmdir = True\<rparr>"

theorem allocation_durable_witness:
  "allocatePersistentSlot demo_io ''/s'' 5 (JNum 8) (JNum 100) Missing
     = Some (Inr (Allocated 5 0 1), Json (stateJson \<lparr>epoch = 5, nextSlot = 1\<rparr>))
   \<and> loadState (Json (stateJson \<lparr>epoch = 5, nextSlot = 1\<rparr>)) = Inr (Some \<lparr>epoch = 5, nextSlot = 1\<rparr>)"
proof -
  have a: "allocatePersistentSlot demo_io ''/s'' 5 (JNum 8) (JNum 100) Missing
     = Some (Inr (Allocated 5 0 1), Json (stateJson \<lparr>epoch = 5, nextSlot = 1\<rparr>))"
    by (simp add: allocatePersistentSlot_def demo_io_def locked_section_def critical_def MAX_SAFE_INTEGER_def)
  from allocation_durable [OF a] a show ?thesis by auto
qed

text \<open>
  C31: the wait for the lock is bounded: once the clock observed after some attempt has reached the
  deadline, the loop has returned, with the lock, with the \<open>LOCKED\<close> error or with a creation
  error; it succeeds only if some attempt created the directory.
\<close>

theorem acquireLock_returns:
  assumes "(m, t) \<in> set as" and "deadline \<le> t"
  shows "\<exists>r. acquireLock deadline as = Some r \<and> (r = Inr () \<longrightarrow> (\<exists>t'. (Created, t') \<in> set as))"
  using assms
proof (induction as)
  case (Cons a as)
  obtain m' t' where "a = (m', t')" by (cases a)
  with Cons show ?case by (cases m') auto
qed simp

theorem acquireLock_returns_witness:
  "\<exists>r. acquireLock 10 [(EEXIST, 4), (EEXIST, 9), (EEXIST, 14)] = Some r"
  using acquireLock_returns [of EEXIST 14 "[(EEXIST, 4), (EEXIST, 9), (EEXIST, 14)]" 10] by auto

end
