(* ===== verification/Rln_Field.thy ===== *)
theory Rln_Field
  imports Prelude
begin

text \<open>
  The field arithmetic of \<^verbatim>\<open>src/lib/rln.mjs\<close>: reduction into the BN254 scalar
  field, subtraction, multiplication, the extended-Euclid inverse with its loop, and the
  recovery of the identity secret from two points of the share line. \<open>BigInt\<close> division and
  remainder truncate towards zero (\<open>sdiv\<close>, \<open>smod\<close>).
\<close>

section \<open>Reduction into the field\<close>

definition FIELD :: int where
  "FIELD = 21888242871839275222246405745257275088548364400416034343698204186575808495617"

lemma FIELD_pos [simp]: "0 < FIELD" "0 \<le> FIELD" "FIELD \<noteq> 0" "1 < FIELD"
  by (simp_all add: FIELD_def)

definition big_mod :: "int \<Rightarrow> int" where  \<comment> \<open>\<open>((n % FIELD) + FIELD) % FIELD\<close>\<close>
  "big_mod n = ((n smod FIELD) + FIELD) smod FIELD"

fun toField :: "jsval \<Rightarrow> int res" where
  "toField (JBigInt n) = Inr (big_mod n)"
| "toField (JNum n) = Inr (big_mod n)"
| "toField (JFloat _) = Inl RangeError"
| "toField (JStr s) = (case bigint_of_string s of Some n \<Rightarrow> Inr (big_mod n) | None \<Rightarrow> Inl SyntaxError)"
| "toField JUndef = Inl (Error ''toField: unsupported undefined'')"
| "toField JNull = Inl (Error ''toField: unsupported object'')"
| "toField (JBool _) = Inl (Error ''toField: unsupported boolean'')"
| "toField (JArr _) = Inl (Error ''toField: unsupported object'')"
| "toField (JObj _) = Inl (Error ''toField: unsupported object'')"

definition modSub :: "int \<Rightarrow> int \<Rightarrow> int" where
  "modSub a b = (((a - b) smod FIELD) + FIELD) smod FIELD"

definition modMul :: "int \<Rightarrow> int \<Rightarrow> int" where
  "modMul a b = (a * b) smod FIELD"

text \<open>The loop of \<open>modInv\<close>: \<open>while (r !== 0n)\<close> over the two remainder and coefficient pairs.\<close>

function modInv_loop :: "int \<Rightarrow> int \<Rightarrow> int \<Rightarrow> int \<Rightarrow> int" where
  "modInv_loop old_r r old_s s =
     (if r = 0 then old_s
      else let q = old_r sdiv r in modInv_loop r (old_r - q * r) s (old_s - q * s))"
  by pat_completeness auto

lemma rem_step: "old_r - (old_r sdiv r) * r = old_r smod r" for old_r r :: int
  using sdiv_mult_smod_eq [of old_r r] by (simp add: algebra_simps)

lemma abs_smod_less: "r \<noteq> 0 \<Longrightarrow> \<bar>a smod r\<bar> < \<bar>r\<bar>" for a r :: int
  by (simp add: smod_int_alt_def abs_mult abs_sgn_eq)

termination modInv_loop
  by (relation "measure (\<lambda>(old_r, r, old_s, s). nat \<bar>r\<bar>)")
     (auto simp: rem_step abs_smod_less)

declare modInv_loop.simps [simp del]

definition modInv :: "int \<Rightarrow> int res" where
  "modInv a = (let old_r = ((a smod FIELD) + FIELD) smod FIELD in
     if old_r = 0 then Inl (Error ''modInv(0)'')
     else Inr (((modInv_loop old_r FIELD 1 0 smod FIELD) + FIELD) smod FIELD))"

section \<open>The truncating operations are arithmetic modulo FIELD\<close>

lemma smod_nonneg: "0 \<le> a \<Longrightarrow> 0 < b \<Longrightarrow> a smod b = a mod b" for a b :: int
  by (rule smod_mod_positive) simp_all

lemma big_mod_mod [simp]: "big_mod n = n mod FIELD"
proof -
  have "0 \<le> n smod FIELD + FIELD"
    using abs_smod_less [of FIELD n] by simp
  moreover have "n smod FIELD = n - FIELD * (n sdiv FIELD)"
    using sdiv_mult_smod_eq [of n FIELD] by (simp add: algebra_simps)
  then have "(n smod FIELD + FIELD) mod FIELD = n mod FIELD"
    by (metis add.commute minus_mod_self2 mod_add_self1 mod_diff_right_eq mod_mult_self1_is_0
        diff_zero)
  ultimately show ?thesis
    by (simp add: big_mod_def smod_nonneg)
qed

lemma modSub_mod [simp]: "modSub a b = (a - b) mod FIELD"
  unfolding modSub_def by (rule big_mod_mod [unfolded big_mod_def])

lemma modMul_mod: "0 \<le> a \<Longrightarrow> 0 \<le> b \<Longrightarrow> modMul a b = (a * b) mod FIELD"
  by (simp add: modMul_def smod_nonneg)

lemma toField_range: "toField v = Inr n \<Longrightarrow> 0 \<le> n \<and> n < FIELD"
  by (cases v) (auto split: option.splits)

section \<open>The inverse\<close>

text \<open>
  The loop invariant of the extended Euclidean algorithm: both remainders are multiples of the
  argument modulo FIELD, with the coefficients the loop carries, and the pair keeps its gcd.
\<close>

lemma modInv_loop_inverse:
  assumes "(old_s * a) mod FIELD = old_r mod FIELD" and "(s * a) mod FIELD = r mod FIELD"
    and "0 \<le> old_r" and "0 \<le> r"
  shows "(modInv_loop old_r r old_s s * a) mod FIELD = gcd old_r r mod FIELD"
  using assms
proof (induction old_r r old_s s rule: modInv_loop.induct)
  case (1 old_r r old_s s)
  show ?case
  proof (cases "r = 0")
    case True
    with "1.prems" show ?thesis by (simp add: modInv_loop.simps)
  next
    case False
    let ?q = "old_r sdiv r"
    have rem: "old_r - ?q * r = old_r mod r"
      using "1.prems" False by (simp add: rem_step smod_nonneg)
    have "((old_s - ?q * s) * a) mod FIELD = (old_s * a - ?q * (s * a)) mod FIELD"
      by (simp add: algebra_simps)
    also have "\<dots> = (old_r - ?q * r) mod FIELD"
      using "1.prems"(1,2) by (metis mod_diff_cong mod_mult_cong)
    finally have "(modInv_loop r (old_r - ?q * r) s (old_s - ?q * s) * a) mod FIELD
        = gcd r (old_r - ?q * r) mod FIELD"
      using "1.IH" [OF False refl "1.prems"(2)] "1.prems"(3,4) False rem by simp
    moreover have "gcd r (old_r mod r) = gcd old_r r"
      by (metis gcd.commute gcd_red_int)
    ultimately show ?thesis
      using False rem by (simp add: modInv_loop.simps [of old_r] Let_def)
  qed
qed

lemma modInv_cases:
  "modInv a = (if a mod FIELD = 0 then Inl (Error ''modInv(0)'')
     else Inr (modInv_loop (a mod FIELD) FIELD 1 0 mod FIELD))"
  by (simp add: modInv_def Let_def big_mod_mod [unfolded big_mod_def])

lemma modInv_correct:
  assumes "coprime a FIELD"
  shows "\<exists>i. modInv a = Inr i \<and> 0 \<le> i \<and> i < FIELD \<and> (i * a) mod FIELD = 1"
proof -
  let ?i = "modInv_loop (a mod FIELD) FIELD 1 0"
  have "(?i * a) mod FIELD = gcd (a mod FIELD) FIELD mod FIELD"
    by (rule modInv_loop_inverse) simp_all
  also have "gcd (a mod FIELD) FIELD = 1"
    using assms by (metis coprime_iff_gcd_eq_1 gcd.commute gcd_red_int)
  finally have inv: "(?i * a) mod FIELD = 1" by simp
  moreover have "a mod FIELD \<noteq> 0"
  proof
    assume "a mod FIELD = 0"
    then have "FIELD dvd a" by auto
    then have "is_unit FIELD" by (rule coprime_common_divisor [OF assms]) (rule dvd_refl)
    then have "FIELD \<le> 1" by (rule zdvd_imp_le) simp
    then show False using FIELD_pos(4) by linarith
  qed
  moreover have "((?i mod FIELD) * a) mod FIELD = (?i * a) mod FIELD"
    by (rule mod_mult_left_eq)
  ultimately show ?thesis
    using pos_mod_bound [OF FIELD_pos(1), of ?i] pos_mod_sign [OF FIELD_pos(1), of ?i]
    by (intro exI [of _ "?i mod FIELD"]) (simp only: modInv_cases if_False)
qed

section \<open>Recovering the identity secret from two shares\<close>

record share =
  share_x :: string
  share_y :: string

definition reconstructSecret :: "share \<Rightarrow> share \<Rightarrow> string res" where
  "reconstructSecret shareA shareB =
     bind_res (toField (JStr (share_x shareA))) (\<lambda>xA.
     bind_res (toField (JStr (share_y shareA))) (\<lambda>yA.
     bind_res (toField (JStr (share_x shareB))) (\<lambda>xB.
     bind_res (toField (JStr (share_y shareB))) (\<lambda>yB.
       if xA = xB then Inl (Error ''reconstructSecret: identical evaluation points'')
       else bind_res (modInv (modSub xB xA)) (\<lambda>i.
         let a1 = modMul (modSub yB yA) i; a0 = modSub yA (modMul a1 xA)
         in Inr (int_dec a0))))))"

text \<open>A share whose fields are decimal strings of the point \<open>(x, y)\<close>.\<close>

definition share_at :: "int \<Rightarrow> int \<Rightarrow> share" where
  "share_at x y = \<lparr>share_x = int_dec x, share_y = int_dec y\<rparr>"

text \<open>The point of the degree-one line of an identity secret that a proof publishes.\<close>

definition line_share :: "int \<Rightarrow> int \<Rightarrow> int \<Rightarrow> share" where
  "line_share a0 a1 x = share_at x ((a0 + a1 * x) mod FIELD)"

section \<open>Correctness of the reconstruction\<close>

lemma reconstruct_arith:
  assumes i: "(i * (xB - xA)) mod FIELD = 1"
    and yA: "yA mod FIELD = (a0 + a1 * xA) mod FIELD" and yB: "yB mod FIELD = (a0 + a1 * xB) mod FIELD"
  shows "(yA - ((yB - yA) * i) * xA) mod FIELD = a0 mod FIELD"
proof -
  have "(yB - yA) mod FIELD = ((a0 + a1 * xB) - (a0 + a1 * xA)) mod FIELD"
    using yB yA by (rule mod_diff_cong)
  also have "(a0 + a1 * xB) - (a0 + a1 * xA) = a1 * (xB - xA)"
    by (simp add: algebra_simps)
  finally have "((yB - yA) * i) mod FIELD = (a1 * (xB - xA) * i) mod FIELD"
    by (rule mod_mult_cong) (rule refl)
  also have "a1 * (xB - xA) * i = a1 * (i * (xB - xA))"
    by simp
  also have "(a1 * (i * (xB - xA))) mod FIELD = a1 mod FIELD"
    using mod_mult_right_eq [of a1 "i * (xB - xA)" FIELD] i by simp
  finally have "(((yB - yA) * i) * xA) mod FIELD = (a1 * xA) mod FIELD"
    by (metis mod_mult_left_eq)
  with yA have "(yA - ((yB - yA) * i) * xA) mod FIELD = ((a0 + a1 * xA) - a1 * xA) mod FIELD"
    by (rule mod_diff_cong)
  then show ?thesis by simp
qed

lemma reconstruct_eval:
  assumes "0 \<le> i" "0 \<le> xA"
  shows "modSub yA (modMul (modMul (modSub yB yA) i) xA) = (yA - ((yB - yA) * i) * xA) mod FIELD"
  using assms by (simp add: modMul_mod mod_diff_right_eq mod_mult_left_eq)

lemma reconstructSecret_points:
  assumes "0 \<le> xA" "xA < FIELD" "0 \<le> xB" "xB < FIELD" "0 \<le> yA" "yA < FIELD" "0 \<le> yB" "yB < FIELD"
    and "xA \<noteq> xB" and "modInv ((xB - xA) mod FIELD) = Inr i" "0 \<le> i"
  shows "reconstructSecret (share_at xA yA) (share_at xB yB)
    = Inr (int_dec ((yA - ((yB - yA) * i) * xA) mod FIELD))"
  using assms
  by (simp add: reconstructSecret_def share_at_def Let_def reconstruct_eval modSub_mod [of xB xA]
      del: modSub_mod)

lemma reconstruct_line:
  assumes x: "0 \<le> xA" "xA < FIELD" "0 \<le> xB" "xB < FIELD" "coprime (xB - xA) FIELD"
    and a0: "0 \<le> a0" "a0 < FIELD"
  shows "reconstructSecret (line_share a0 a1 xA) (line_share a0 a1 xB) = Inr (int_dec a0)"
proof -
  let ?yA = "(a0 + a1 * xA) mod FIELD" and ?yB = "(a0 + a1 * xB) mod FIELD"
  from x(5) have cop: "coprime ((xB - xA) mod FIELD) FIELD"
    by (metis FIELD_pos(3) coprime_mod_left_iff)
  obtain i where i: "modInv ((xB - xA) mod FIELD) = Inr i" "0 \<le> i"
      "(i * ((xB - xA) mod FIELD)) mod FIELD = 1"
    using modInv_correct [OF cop] by blast
  from i(3) have i': "(i * (xB - xA)) mod FIELD = 1" by (simp add: mod_mult_right_eq)
  have ne: "xA \<noteq> xB"
    using i(3) by auto
  have "(?yA - ((?yB - ?yA) * i) * xA) mod FIELD = a0 mod FIELD"
    by (rule reconstruct_arith [OF i']) simp_all
  moreover have "reconstructSecret (share_at xA ?yA) (share_at xB ?yB)
      = Inr (int_dec ((?yA - ((?yB - ?yA) * i) * xA) mod FIELD))"
    by (rule reconstructSecret_points) (use x ne i in simp_all)
  ultimately show ?thesis
    using a0 by (simp only: line_share_def) simp
qed

lemma reconstruct_same_x:
  assumes "0 \<le> x" "0 \<le> yA" "0 \<le> yB"
  shows "reconstructSecret (share_at x yA) (share_at x yB)
    = Inl (Error ''reconstructSecret: identical evaluation points'')"
  using assms by (simp add: reconstructSecret_def share_at_def)

end
