(* ===== verification/Rln.thy ===== *)
theory Rln
  imports Rln_Field Artifacts
begin

text \<open>
  \<^verbatim>\<open>src/lib/rln.mjs\<close> above the field arithmetic: tier limits, epochs, the request-bound
  signal, rate commitments, the leaf a slash names, proving one slot, and the gateway's
  \<open>verifyEnvelope\<close> with its cheap-first order. The \<open>rlnjs\<close> and \<open>poseidon-lite\<close> packages
  (hashes, prover, Groth16 verifier, Semaphore identity) are the fields of \<open>rln_lib\<close>; process
  configuration is \<open>rln_cfg\<close>.
\<close>

section \<open>Configuration and libraries\<close>

record rln_cfg =
  K_SLOTS :: int
  RLN_IDENTIFIER :: int
  EPOCH_SECONDS :: int

record public_signals =
  pub_x :: string
  pub_y :: string
  pub_root :: string
  pub_nullifier :: string
  pub_externalNullifier :: string

record prove_input =
  in_identitySecret :: int
  in_userMessageLimit :: int
  in_messageId :: int
  in_leafIndex :: nat
  in_group :: "int list"
  in_x :: int
  in_epoch :: int
  in_rlnIdentifier :: int

record rln_lib =
  poseidon1 :: "int \<Rightarrow> int"
  poseidon2 :: "int \<Rightarrow> int \<Rightarrow> int"
  calculateExternalNullifier :: "int \<Rightarrow> int \<Rightarrow> int"
  calculateSignalHash :: "string \<Rightarrow> int"
  identity_parts :: "string \<Rightarrow> int \<times> int"  \<comment> \<open>nullifier and trapdoor of \<open>new Identity(seed)\<close>\<close>
  rln_prove :: "prover_set \<Rightarrow> prove_input \<Rightarrow> jsval \<times> public_signals"
  rln_verify :: "jsval \<Rightarrow> jsval \<Rightarrow> jsval \<Rightarrow> jsval \<Rightarrow> string + bool"
    \<comment> \<open>verification key, SNARK proof, epoch, identifier; \<open>Inl\<close> is a thrown message\<close>

section \<open>Tier limits\<close>

definition MAX_LIMIT :: int where
  "MAX_LIMIT = 65535"

definition limit_in_range :: "int \<Rightarrow> int res" where
  "limit_in_range n = (if n < 1 \<or> n > MAX_LIMIT
     then Inl (Error (''limit: out of range 1..65535 (got '' @ int_dec n @ '')'')) else Inr n)"

definition normLimit :: "rln_cfg \<Rightarrow> jsval \<Rightarrow> int res" where
  "normLimit C limit = (case limit of
      JUndef \<Rightarrow> limit_in_range (K_SLOTS C)
    | JBigInt n \<Rightarrow> limit_in_range n
    | JNum n \<Rightarrow> if is_safe_integer (JNum n) then limit_in_range n
        else Inl (Error ''limit: not an integer (number)'')
    | JStr s \<Rightarrow> if all_digits s then limit_in_range (int (dec_nat s))
        else Inl (Error ''limit: not an integer (string)'')
    | v \<Rightarrow> Inl (Error (''limit: not an integer ('' @ typeof v @ '')'')))"

fun parseTierParts :: "rln_cfg \<Rightarrow> string list \<Rightarrow> int list res" where
  "parseTierParts C [] = Inr []"
| "parseTierParts C (part # rest) =
     (let t = js_trim part in
      if t = [] then parseTierParts C rest
      else if \<not> all_digits t then Inl (Error (''SHADE_TREE_TIERS: bad tier '' @ take 16 t))
      else bind_res (normLimit C (JStr t)) (\<lambda>n.
        bind_res (parseTierParts C rest) (\<lambda>ns. Inr (n # ns))))"

definition parseTiers :: "rln_cfg \<Rightarrow> string option \<Rightarrow> int list res" where
  "parseTiers C spec =
     bind_res (normLimit C (JNum (K_SLOTS C))) (\<lambda>k.
       let raw = (case spec of None \<Rightarrow> [] | Some s \<Rightarrow> js_trim s) in
       if raw = [] then Inr [k]
       else bind_res (parseTierParts C (split_on (CHR '','') raw)) (\<lambda>ns.
         Inr (sort (remdups (k # ns)))))"

section \<open>Epochs and the request signal\<close>

definition currentEpoch :: "rln_cfg \<Rightarrow> int \<Rightarrow> int" where
  "currentEpoch C nowMs = nowMs div (1000 * EPOCH_SECONDS C)"

definition externalNullifierFor :: "rln_lib \<Rightarrow> rln_cfg \<Rightarrow> int \<Rightarrow> int" where
  "externalNullifierFor L C epoch = calculateExternalNullifier L (big_mod epoch) (RLN_IDENTIFIER C)"

definition LF :: string where
  "LF = [CHR 0x0A]"

definition requestSignal :: "string \<Rightarrow> string \<Rightarrow> string" where
  "requestSignal target nonce = ''shade-tree:v4'' @ LF @ target @ LF @ nonce"

definition newline_char :: "char \<Rightarrow> bool" where
  "newline_char c \<longleftrightarrow> c = CHR 0x0A \<or> c = CHR 0x0D"

fun signalFieldSafe :: "jsval \<Rightarrow> nat \<Rightarrow> bool" where
  "signalFieldSafe (JStr s) maxLen =
     (0 < length s \<and> length s \<le> maxLen \<and> \<not> list_ex newline_char s)"
| "signalFieldSafe _ maxLen = False"

section \<open>Commitments and the leaf to slash\<close>

definition identitySecretOf :: "rln_lib \<Rightarrow> int \<Rightarrow> int" where
  "identitySecretOf L secret = (let (nul, trapdoor) = identity_parts L (int_dec secret)
     in poseidon2 L nul trapdoor)"  \<comment> \<open>of \<open>identityFor(secret)\<close>, the seed already reduced\<close>

definition rateCommitmentBig :: "rln_lib \<Rightarrow> int \<Rightarrow> int \<Rightarrow> int" where
  "rateCommitmentBig L identitySecret limit = poseidon2 L (poseidon1 L identitySecret) limit"

definition deriveCommitment :: "rln_lib \<Rightarrow> rln_cfg \<Rightarrow> jsval \<Rightarrow> jsval \<Rightarrow> string res" where
  "deriveCommitment L C identitySecret limit =
     bind_res (toField identitySecret) (\<lambda>s.
     bind_res (normLimit C limit) (\<lambda>n. Inr (int_dec (rateCommitmentBig L s n))))"

definition deriveCommitments :: "rln_lib \<Rightarrow> rln_cfg \<Rightarrow> jsval \<Rightarrow> int list \<Rightarrow> (int \<times> string) list res" where
  "deriveCommitments L C identitySecret tiers =
     map_res (\<lambda>limit. bind_res (deriveCommitment L C identitySecret (JNum limit))
       (\<lambda>c. Inr (limit, c))) tiers"

record slash_tier =
  sl_commitment :: string
  sl_limit :: int
  sl_resolved :: bool

text \<open>
  \<open>hasLeaf\<close> is the optional local membership test. The fallback entry is the default tier's
  candidate, or the first one; the tier list of the configuration is never empty.
\<close>

definition resolveSlashLeaf ::
  "rln_lib \<Rightarrow> rln_cfg \<Rightarrow> jsval \<Rightarrow> int list \<Rightarrow> (string \<Rightarrow> bool) option \<Rightarrow> slash_tier res" where
  "resolveSlashLeaf L C identitySecret tiers hasLeaf =
     bind_res (deriveCommitments L C identitySecret tiers) (\<lambda>cands.
       case (case hasLeaf of None \<Rightarrow> None | Some h \<Rightarrow> find (\<lambda>(l, c). h c) cands) of
         Some (l, c) \<Rightarrow> Inr \<lparr>sl_commitment = c, sl_limit = l, sl_resolved = True\<rparr>
       | None \<Rightarrow> (case find (\<lambda>(l, c). l = K_SLOTS C) cands of
           Some (l, c) \<Rightarrow> Inr \<lparr>sl_commitment = c, sl_limit = l, sl_resolved = False\<rparr>
         | None \<Rightarrow> (case cands of
             (l, c) # _ \<Rightarrow> Inr \<lparr>sl_commitment = c, sl_limit = l, sl_resolved = False\<rparr>
           | [] \<Rightarrow> Inl TypeError)))"

section \<open>Proving one slot\<close>

record slot_proof =
  sp_proof :: jsval
  sp_nullifier :: string
  sp_externalNullifier :: string
  sp_slot :: int
  sp_share :: share
  sp_artifact :: string

definition getProver :: "prover_set list \<Rightarrow> string option \<Rightarrow> prover_set res" where
  "getProver sets artifact = (case artifact of
      None \<Rightarrow> (case sets of s # _ \<Rightarrow> Inr s | [] \<Rightarrow> Inl (Error ''proveForSlot: no prover artifact set''))
    | Some i \<Rightarrow> (case find (\<lambda>s. ps_id s = i) sets of
        Some s \<Rightarrow> Inr s | None \<Rightarrow> Inl (Error ''proveForSlot: no prover artifact set'')))"

fun index_of :: "'a list \<Rightarrow> 'a \<Rightarrow> nat option" where  \<comment> \<open>\<open>group.indexOf\<close>\<close>
  "index_of [] y = None"
| "index_of (x # xs) y = (if x = y then Some 0 else map_option Suc (index_of xs y))"

definition wireProof :: "jsval \<Rightarrow> int \<Rightarrow> int \<Rightarrow> jsval" where
  "wireProof snark epoch ident =
     JObj [(''snarkProof'', snark), (''epoch'', JStr (int_dec epoch)), (''rlnIdentifier'', JStr (int_dec ident))]"

definition proveForSlot ::
  "rln_lib \<Rightarrow> rln_cfg \<Rightarrow> prover_set list \<Rightarrow> jsval \<Rightarrow> int \<Rightarrow> int \<Rightarrow> string \<Rightarrow> int list \<Rightarrow> string option
     \<Rightarrow> jsval \<Rightarrow> slot_proof res" where
  "proveForSlot L C sets secret epoch i signal grp artifact limit =
     bind_res (toField secret) (\<lambda>seed.
     let identitySecret = identitySecretOf L seed in
     bind_res (normLimit C (if nullish limit then JNum (K_SLOTS C) else limit)) (\<lambda>limitBig.
     let slotBig = big_mod i in
     if slotBig \<ge> limitBig then Inl (Error ''proveForSlot: slot >= limit'')
     else let leaf = rateCommitmentBig L identitySecret limitBig in
     case index_of grp leaf of
       None \<Rightarrow> Inl (Error ''proveForSlot: rateCommitment not in group'')
     | Some index \<Rightarrow>
         let x = calculateSignalHash L signal in
         if x \<le> 0 then Inl (Error ''proveForSlot: signal hashes to x<=0 (would leak secret)'')
         else bind_res (getProver sets artifact) (\<lambda>ps.
           let (snark, pub) = rln_prove L ps
             \<lparr>in_identitySecret = identitySecret, in_userMessageLimit = limitBig, in_messageId = slotBig,
              in_leafIndex = index, in_group = grp, in_x = x, in_epoch = big_mod epoch,
              in_rlnIdentifier = RLN_IDENTIFIER C\<rparr>
           in Inr \<lparr>sp_proof = wireProof snark (big_mod epoch) (RLN_IDENTIFIER C),
                sp_nullifier = pub_nullifier pub, sp_externalNullifier = pub_externalNullifier pub,
                sp_slot = i, sp_share = \<lparr>share_x = pub_x pub, share_y = pub_y pub\<rparr>,
                sp_artifact = ps_id ps\<rparr>)))"

section \<open>Verifying an envelope\<close>

record verified =
  vf_nullifier :: string
  vf_externalNullifier :: string
  vf_share :: share
  vf_artifact :: string

datatype verdict =
    Accept verified
  | Reject (rj_reason: string) (rj_label: "string option") (rj_artifacts: "string list option")

definition reject :: "string \<Rightarrow> verdict" where
  "reject r = Reject r None None"

text \<open>
  The checks in source order: shape, epoch freshness, share binding, target binding, group
  root and artifact (\<open>verifyCheap\<close>, which hands on the resolved key), and the SNARK last.
\<close>

definition verifyCheap ::
  "rln_lib \<Rightarrow> rln_cfg \<Rightarrow> artifact_set \<Rightarrow> jsval \<Rightarrow> string list \<Rightarrow> int \<Rightarrow> verdict + string \<times> jsval" where
  "verifyCheap L C S env recentRoots nowMs =
     (if \<not> is_object env then Inl (reject ''no-envelope'') else
      let pf = getp env ''proof'' in
      if \<not> truthy pf \<or> \<not> truthy (getp pf ''snarkProof'')
         \<or> \<not> truthy (getp (getp pf ''snarkProof'') ''publicSignals'')
      then Inl (reject ''no-proof'') else
      let ps = getp (getp pf ''snarkProof'') ''publicSignals'';
          sh = js_or (getp env ''share'') (JObj [(''x'', getp ps ''x''), (''y'', getp ps ''y'')]);
          now = currentEpoch C nowMs in
      if \<not> list_ex (\<lambda>e. int_dec (externalNullifierFor L C e) = js_string (getp ps ''externalNullifier''))
            [now, now - 1]
      then Inl (reject ''stale-external-nullifier'') else
      if js_string (getp sh ''x'') \<noteq> js_string (getp ps ''x'') then Inl (reject ''signal-mismatch'') else
      if nullish (getp env ''nonce'') \<or> nullish (getp env ''target'') then Inl (reject ''unbound-target'') else
      if \<not> signalFieldSafe (getp env ''target'') 256 \<or> \<not> signalFieldSafe (getp env ''nonce'') 128
      then Inl (reject ''bad-signal-field'') else
      if int_dec (calculateSignalHash L (requestSignal (js_string (getp env ''target'')) (js_string (getp env ''nonce''))))
         \<noteq> js_string (getp ps ''x'')
      then Inl (reject ''target-not-bound'') else
      if js_string (getp ps ''root'') \<notin> set recentRoots then Inl (reject ''wrong-group-root'') else
      case resolveArtifact (getp env ''artifact'') S of
        ArtifactReject reason label ids \<Rightarrow> Inl (Reject reason (Some label) (Some ids))
      | ArtifactOk artId vkey \<Rightarrow> Inr (artId, vkey))"

definition verifyEnvelope ::
  "rln_lib \<Rightarrow> rln_cfg \<Rightarrow> artifact_set \<Rightarrow> jsval \<Rightarrow> string list \<Rightarrow> int \<Rightarrow> verdict" where
  "verifyEnvelope L C S env recentRoots nowMs =
     (case verifyCheap L C S env recentRoots nowMs of
        Inl v \<Rightarrow> v
      | Inr (artId, vkey) \<Rightarrow>
          let pf = getp env ''proof''; ps = getp (getp pf ''snarkProof'') ''publicSignals'' in
          (case rln_verify L vkey (getp pf ''snarkProof'') (getp pf ''epoch'')
               (js_nullish_or (getp pf ''rlnIdentifier'') (JStr (int_dec (RLN_IDENTIFIER C)))) of
             Inl msg \<Rightarrow> reject (''verify-threw:'' @ msg)
           | Inr valid \<Rightarrow>
               if \<not> valid then reject ''invalid-proof''
               else Accept \<lparr>vf_nullifier = js_string (getp ps ''nullifier''),
                      vf_externalNullifier = js_string (getp ps ''externalNullifier''),
                      vf_share = \<lparr>share_x = js_string (getp ps ''x''), share_y = js_string (getp ps ''y'')\<rparr>,
                      vf_artifact = artId\<rparr>))"

section \<open>Lemmas\<close>

lemma limit_in_range_Inr: "limit_in_range n = Inr m \<longleftrightarrow> m = n \<and> 1 \<le> n \<and> n \<le> MAX_LIMIT"
  by (auto simp: limit_in_range_def)

lemma normLimit_bounds: "normLimit C v = Inr n \<Longrightarrow> 1 \<le> n \<and> n \<le> MAX_LIMIT"
  by (auto simp: normLimit_def limit_in_range_Inr split: jsval.splits if_splits)

lemma normLimit_JNum: "1 \<le> n \<Longrightarrow> n \<le> MAX_LIMIT \<Longrightarrow> normLimit C (JNum n) = Inr n"
  by (simp add: normLimit_def limit_in_range_def MAX_LIMIT_def MAX_SAFE_INTEGER_def)

lemma parseTierParts_bounds:
  "parseTierParts C ps = Inr ns \<Longrightarrow> n \<in> set ns \<Longrightarrow> 1 \<le> n \<and> n \<le> MAX_LIMIT"
  by (induction ps arbitrary: ns)
     (auto simp: Let_def bind_res_Inr_iff split: if_splits dest: normLimit_bounds)

lemma deriveCommitments_Inr:
  assumes "deriveCommitments L C v tiers = Inr cands"
  shows "map fst cands = tiers"
    and "\<And>l c. (l, c) \<in> set cands \<Longrightarrow> deriveCommitment L C v (JNum l) = Inr c"
proof -
  from assms have *: "list_all2 (\<lambda>t lc. bind_res (deriveCommitment L C v (JNum t)) (\<lambda>c. Inr (t, c)) = Inr lc) tiers cands"
    by (simp add: deriveCommitments_def map_res_Inr_iff)
  then show "map fst cands = tiers"
    by (induction rule: list_all2_induct) (auto simp: bind_res_Inr_iff)
  from * show "deriveCommitment L C v (JNum l) = Inr c" if "(l, c) \<in> set cands" for l c
    using that by (induction rule: list_all2_induct) (auto simp: bind_res_Inr_iff)
qed

lemma deriveCommitments_total:
  assumes "\<And>t. t \<in> set tiers \<Longrightarrow> 1 \<le> t \<and> t \<le> MAX_LIMIT" and "toField v = Inr s"
  shows "deriveCommitments L C v tiers = Inr (map (\<lambda>t. (t, int_dec (rateCommitmentBig L s t))) tiers)"
  unfolding deriveCommitments_def
  by (rule map_res_total) (use assms in \<open>simp add: deriveCommitment_def normLimit_JNum\<close>)

lemma append_sep_inject:
  assumes "a @ [c] @ b = a' @ [c] @ b'" and "c \<notin> set a" and "c \<notin> set a'"
  shows "a = a' \<and> b = b'"
  using assms
proof (induction a arbitrary: a')
  case Nil
  then show ?case by (cases a') auto
next
  case (Cons x xs)
  then show ?case by (cases a') auto
qed

lemma signalFieldSafe_JStr: "signalFieldSafe v k \<Longrightarrow> \<exists>s. v = JStr s \<and> CHR 0x0A \<notin> set s"
  by (cases v) (auto simp: newline_char_def list_ex_iff)

lemma verifyCheap_verifier: "verifyCheap (L\<lparr>rln_verify := V\<rparr>) C S env roots nowMs = verifyCheap L C S env roots nowMs"
  by (simp add: verifyCheap_def externalNullifierFor_def cong: if_cong)

lemma verifyCheap_not_Accept: "verifyCheap L C S env roots nowMs \<noteq> Inl (Accept v)"
  by (simp add: verifyCheap_def reject_def Let_def split: artifact_resolution.splits)

lemma verifyCheap_Inr:
  assumes "verifyCheap L C S env roots nowMs = Inr (artId, vkey)"
    and "ps = getp (getp (getp env ''proof'') ''snarkProof'') ''publicSignals''"
  shows "\<exists>e t n. e \<in> {currentEpoch C nowMs, currentEpoch C nowMs - 1}
    \<and> js_string (getp ps ''externalNullifier'') = int_dec (externalNullifierFor L C e)
    \<and> getp env ''target'' = JStr t \<and> getp env ''nonce'' = JStr n
    \<and> signalFieldSafe (JStr t) 256 \<and> signalFieldSafe (JStr n) 128
    \<and> js_string (getp ps ''x'') = int_dec (calculateSignalHash L (requestSignal t n))
    \<and> js_string (getp ps ''root'') \<in> set roots
    \<and> resolveArtifact (getp env ''artifact'') S = ArtifactOk artId vkey"
proof -
  have safe: "signalFieldSafe (getp env ''target'') 256" "signalFieldSafe (getp env ''nonce'') 128"
    using assms by (simp_all add: verifyCheap_def Let_def split: if_splits)
  then obtain t n where tn: "getp env ''target'' = JStr t" "getp env ''nonce'' = JStr n"
    by (auto dest!: signalFieldSafe_JStr)
  with assms safe show ?thesis
    by (simp add: verifyCheap_def Let_def del: signalFieldSafe.simps
        split: if_splits artifact_resolution.splits) metis
qed

section \<open>A concrete instance\<close>

text \<open>Small stand-ins for the packages, a gateway that accepts one key, and one good envelope.\<close>

definition demo_lib :: rln_lib where
  "demo_lib = \<lparr>poseidon1 = (\<lambda>a. a + 1), poseidon2 = (\<lambda>a b. 100 * a + b),
     calculateExternalNullifier = (\<lambda>e i. e + i), calculateSignalHash = (\<lambda>s. int (length s)),
     identity_parts = (\<lambda>s. (int (length s), 7)),
     rln_prove = (\<lambda>ps i. (JObj [], \<lparr>pub_x = int_dec (in_x i), pub_y = ''5'', pub_root = ''9'',
        pub_nullifier = ''77'', pub_externalNullifier = int_dec (in_epoch i + in_rlnIdentifier i)\<rparr>)),
     rln_verify = (\<lambda>vk sn ep ri. Inr (vk = JObj [(''IC'', JArr [])]))\<rparr>"

definition demo_cfg :: rln_cfg where
  "demo_cfg = \<lparr>K_SLOTS = 8, RLN_IDENTIFIER = 1, EPOCH_SECONDS = 120\<rparr>"

definition demo_set :: artifact_set where
  "demo_set = \<lparr>as_accepted = [(''rln-a'', \<lparr>ae_vkey = JObj [(''IC'', JArr [])], ae_path = ''/k'', ae_sha256 = ''a''\<rparr>)],
     as_ids = [''rln-a''], as_legacyId = ''rln-a'', as_legacyAccepted = True, as_explicit = True,
     as_builtinId = ''rln-a''\<rparr>"

definition demo_env :: "string \<Rightarrow> jsval" where
  "demo_env y = JObj [(''v'', JNum 4), (''target'', JStr ''a.io:443''), (''nonce'', JStr ''n1''),
     (''proof'', JObj [(''snarkProof'', JObj [(''publicSignals'', JObj [(''x'', JStr ''25''),
        (''y'', JStr y), (''root'', JStr ''9''), (''nullifier'', JStr ''77''),
        (''externalNullifier'', JStr ''11'')])])])]"

definition demo_verified :: verified where
  "demo_verified = \<lparr>vf_nullifier = ''77'', vf_externalNullifier = ''11'',
     vf_share = \<lparr>share_x = ''25'', share_y = ''5''\<rparr>, vf_artifact = ''rln-a''\<rparr>"

lemma demo_accepts: "verifyEnvelope demo_lib demo_cfg demo_set (demo_env ''5'') [''9''] 1200000 = Accept demo_verified"
  by code_simp

lemma resolveSlashLeaf_total:
  assumes tiers: "tiers \<noteq> []" "\<forall>t\<in>set tiers. 1 \<le> t \<and> t \<le> MAX_LIMIT" and "toField v = Inr s"
  shows "\<exists>r. resolveSlashLeaf L C v tiers (Some has) = Inr r \<and> sl_limit r \<in> set tiers
    \<and> sl_commitment r = int_dec (rateCommitmentBig L s (sl_limit r))
    \<and> sl_resolved r = (\<exists>t\<in>set tiers. has (int_dec (rateCommitmentBig L s t)))
    \<and> (sl_resolved r \<longrightarrow> has (sl_commitment r))"
proof -
  let ?c = "map (\<lambda>t. (t, int_dec (rateCommitmentBig L s t))) tiers"
  have cands: "deriveCommitments L C v tiers = Inr ?c"
    by (rule deriveCommitments_total) (use assms in auto)
  have hit: "find (\<lambda>(l, c). has c) ?c = Some lc \<Longrightarrow>
      fst lc \<in> set tiers \<and> snd lc = int_dec (rateCommitmentBig L s (fst lc)) \<and> has (snd lc)" for lc
    by (cases lc) (auto dest!: find_SomeD)
  have miss: "find (\<lambda>(l, c). has c) ?c = None \<longleftrightarrow> \<not> (\<exists>t\<in>set tiers. has (int_dec (rateCommitmentBig L s t)))"
    by (auto simp: find_None_iff)
  have dflt: "find (\<lambda>(l, c). l = K_SLOTS C) ?c = Some lc \<Longrightarrow>
      fst lc \<in> set tiers \<and> snd lc = int_dec (rateCommitmentBig L s (fst lc))" for lc
    by (cases lc) (auto dest!: find_SomeD)
  show ?thesis
  proof (cases "find (\<lambda>(l, c). has c) ?c")
    case (Some lc)
    then have "resolveSlashLeaf L C v tiers (Some has)
        = Inr \<lparr>sl_commitment = snd lc, sl_limit = fst lc, sl_resolved = True\<rparr>"
      by (simp add: resolveSlashLeaf_def cands split: prod.splits)
    moreover have "\<exists>t\<in>set tiers. has (int_dec (rateCommitmentBig L s t))"
      using hit [OF Some] by metis
    ultimately show ?thesis
      using hit [OF Some] by auto
  next
    case None
    then obtain lc where lc: "resolveSlashLeaf L C v tiers (Some has)
        = Inr \<lparr>sl_commitment = snd lc, sl_limit = fst lc, sl_resolved = False\<rparr>"
        "fst lc \<in> set tiers" "snd lc = int_dec (rateCommitmentBig L s (fst lc))"
    proof (cases "find (\<lambda>(l, c). l = K_SLOTS C) ?c")
      case None
      then show ?thesis
        using \<open>find (\<lambda>(l, c). has c) ?c = None\<close> tiers(1) that [of "hd ?c"]
        by (simp add: resolveSlashLeaf_def cands list.case_eq_if list.map_sel)
    next
      case (Some d)
      then show ?thesis
        using \<open>find (\<lambda>(l, c). has c) ?c = None\<close> that [of d] dflt [OF Some]
        by (cases d) (simp add: resolveSlashLeaf_def cands)
    qed
    with None miss show ?thesis by simp
  qed
qed

section \<open>Properties\<close>

text \<open>
  C1: two shares of one line, published at distinct evaluation points, give back the identity
  secret: for every line \<open>y = a0 + a1 x\<close> over the field and every two points whose difference
  is invertible, \<open>reconstructSecret\<close> returns \<open>a0\<close> in decimal. (FIELD is prime, so every two
  distinct points have an invertible difference.)
\<close>

theorem overspend_reveals_secret:
  assumes "0 \<le> xA" "xA < FIELD" "0 \<le> xB" "xB < FIELD" "coprime (xB - xA) FIELD"
    and "0 \<le> a0" "a0 < FIELD"
  shows "reconstructSecret (line_share a0 a1 xA) (line_share a0 a1 xB) = Inr (int_dec a0)"
  by (rule reconstruct_line) (use assms in simp_all)

theorem overspend_reveals_secret_witness:
  "reconstructSecret (line_share 42 17 3) (line_share 42 17 4) = Inr (int_dec 42)"
  by (rule overspend_reveals_secret) (simp_all add: FIELD_def)

text \<open>
  the newline-delimited request signal determines target and nonce whenever both pass the
  verifier's \<open>signalFieldSafe\<close> check, so no two distinct (target, nonce) pairs hash the same
  message.
\<close>

theorem requestSignal_injective:
  assumes "signalFieldSafe (JStr t) m" "signalFieldSafe (JStr t') m'"
    and "requestSignal t n = requestSignal t' n'"
  shows "t = t' \<and> n = n'"
proof -
  from assms(3) have "t @ [CHR 0x0A] @ n = t' @ [CHR 0x0A] @ n'"
    by (simp add: requestSignal_def LF_def)
  then show ?thesis
    by (rule append_sep_inject) (use assms(1,2) in \<open>auto simp: newline_char_def list_ex_iff\<close>)
qed

theorem requestSignal_injective_witness:
  "requestSignal ''a:443'' ''n'' \<noteq> requestSignal ''a:44'' ''3n''"
  using requestSignal_injective [of "''a:443''" 256 "''a:44''" 256 "''n''" "''3n''"]
  by (auto simp: newline_char_def)

text \<open>
  C7: an accepted envelope passed every check: its external nullifier is this or the previous
  epoch's, the published share is the one at the committed point, the committed point is the hash
  of this target and nonce, the root is currently trusted, the verification key is one the gateway
  holds, and the SNARK verified under that key; what the gateway acts on are the proof's public
  signals.
\<close>

theorem verifyEnvelope_sound:
  assumes "verifyEnvelope L C S env roots nowMs = Accept v"
  shows "\<exists>ps t n vkey e. ps = getp (getp (getp env ''proof'') ''snarkProof'') ''publicSignals''
    \<and> e \<in> {currentEpoch C nowMs, currentEpoch C nowMs - 1}
    \<and> vf_externalNullifier v = int_dec (externalNullifierFor L C e)
    \<and> getp env ''target'' = JStr t \<and> getp env ''nonce'' = JStr n
    \<and> signalFieldSafe (JStr t) 256 \<and> signalFieldSafe (JStr n) 128
    \<and> share_x (vf_share v) = int_dec (calculateSignalHash L (requestSignal t n))
    \<and> vf_share v = \<lparr>share_x = js_string (getp ps ''x''), share_y = js_string (getp ps ''y'')\<rparr>
    \<and> vf_nullifier v = js_string (getp ps ''nullifier'')
    \<and> js_string (getp ps ''root'') \<in> set roots
    \<and> resolveArtifact (getp env ''artifact'') S = ArtifactOk (vf_artifact v) vkey
    \<and> rln_verify L vkey (getp (getp env ''proof'') ''snarkProof'') (getp (getp env ''proof'') ''epoch'')
        (js_nullish_or (getp (getp env ''proof'') ''rlnIdentifier'') (JStr (int_dec (RLN_IDENTIFIER C)))) = Inr True"
proof -
  from assms obtain artId vkey where cheap: "verifyCheap L C S env roots nowMs = Inr (artId, vkey)"
    by (auto simp: verifyEnvelope_def verifyCheap_not_Accept split: sum.splits)
  with assms verifyCheap_Inr [OF cheap refl] show ?thesis
    by (auto simp: verifyEnvelope_def reject_def Let_def simp del: signalFieldSafe.simps
        split: sum.splits if_splits)
qed

theorem verifyEnvelope_sound_witness:
  "verifyEnvelope demo_lib demo_cfg demo_set (demo_env ''5'') [''9''] 1200000 = Accept demo_verified
    \<and> (\<exists>t n. share_x (vf_share demo_verified) = int_dec (calculateSignalHash demo_lib (requestSignal t n)))"
  using demo_accepts verifyEnvelope_sound [OF demo_accepts] by blast

text \<open>
  the SNARK is the last check: every rejection other than the verifier's own
  (\<open>invalid-proof\<close>, \<open>verify-threw:\<close>) is decided without it, since it is the verdict under
  every verifier.
\<close>

theorem verifyEnvelope_cheap_first:
  assumes "verifyEnvelope (L\<lparr>rln_verify := V\<rparr>) C S env roots nowMs = Reject r l a"
    and "r \<noteq> ''invalid-proof''" and "take 13 r \<noteq> ''verify-threw:''"
  shows "verifyEnvelope (L\<lparr>rln_verify := V'\<rparr>) C S env roots nowMs = Reject r l a"
  using assms
  by (auto simp: verifyEnvelope_def verifyCheap_verifier reject_def Let_def split: sum.splits if_splits)

theorem verifyEnvelope_cheap_first_witness:
  "verifyEnvelope (demo_lib\<lparr>rln_verify := (\<lambda>_ _ _ _. Inr True)\<rparr>) demo_cfg demo_set (demo_env ''5'') [] 1200000
    = reject ''wrong-group-root''"
proof -
  have "verifyEnvelope (demo_lib\<lparr>rln_verify := (\<lambda>_ _ _ _. Inr False)\<rparr>) demo_cfg demo_set (demo_env ''5'') [] 1200000
    = Reject ''wrong-group-root'' None None"
    by code_simp
  from verifyEnvelope_cheap_first [OF this] show ?thesis by (simp add: reject_def)
qed

text \<open>
  the leaf a slash names belongs to the reconstructed secret at a tier the gateway knows;
  it is marked resolved exactly when some tier's leaf is in the local set, and then it is such a
  leaf. With valid tiers and a secret in the field the resolution always returns.
\<close>

theorem resolveSlashLeaf_correct:
  assumes tiers: "tiers \<noteq> []" "\<forall>t\<in>set tiers. 1 \<le> t \<and> t \<le> MAX_LIMIT" and "toField v = Inr s"
  shows "\<exists>r. resolveSlashLeaf L C v tiers (Some has) = Inr r \<and> sl_limit r \<in> set tiers
    \<and> sl_commitment r = int_dec (rateCommitmentBig L s (sl_limit r))
    \<and> sl_resolved r = (\<exists>t\<in>set tiers. has (int_dec (rateCommitmentBig L s t)))
    \<and> (sl_resolved r \<longrightarrow> has (sl_commitment r))"
  by (rule resolveSlashLeaf_total) (use assms in auto)

theorem resolveSlashLeaf_correct_witness:
  "\<exists>r. resolveSlashLeaf demo_lib demo_cfg (JStr ''42'') [8, 32] (Some (\<lambda>c. c = ''4332'')) = Inr r
    \<and> sl_limit r \<in> {8, 32} \<and> sl_resolved r"
proof -
  have "bigint_of_string ''42'' = Some 42" by code_simp
  then have t: "toField (JStr ''42'') = Inr 42" by (simp add: FIELD_def)
  have "int_dec (rateCommitmentBig demo_lib 42 32) = ''4332''"
    by (simp add: rateCommitmentBig_def demo_lib_def js_simps)
  then have l: "\<exists>t\<in>set [8, 32]. int_dec (rateCommitmentBig demo_lib 42 t) = ''4332''" by simp
  have b: "\<forall>t\<in>set [8, 32]. 1 \<le> t \<and> t \<le> MAX_LIMIT" by (simp add: MAX_LIMIT_def)
  obtain r where "resolveSlashLeaf demo_lib demo_cfg (JStr ''42'') [8, 32] (Some (\<lambda>c. c = ''4332'')) = Inr r"
    "sl_limit r \<in> set [8, 32]" "sl_resolved r"
    using resolveSlashLeaf_correct [OF _ b t, of demo_lib demo_cfg "\<lambda>c. c = ''4332''"] l by blast
  then show ?thesis by (intro exI [of _ r]) simp
qed

end
