(* ===== verification/Client.thy ===== *)
theory Client
  imports ClientAck Receipt SlotState Rln Admission
begin

text \<open>
  The client of \<^verbatim>\<open>src/client/shade-tree-client.mjs\<close>: which tree it proves against, its
  pool of slots, the envelope of a tunnel, and \<open>connect\<close> with its failover over gateways. The Tor
  dial, the socket and the prover are arguments; progress events and the test-only slot reuse are
  left out. Slots come from \<open>SlotState\<close>, the answers of gateways are read by \<open>ClientAck\<close>.
\<close>

section \<open>The member's tree\<close>

fun exn_text :: "exn \<Rightarrow> string" where  \<comment> \<open>\<open>e.message\<close>; the texts of engine errors are abstracted\<close>
  "exn_text (Error m) = m"
| "exn_text e = []"

type_synonym loaded = "int list \<times> nat"  \<comment> \<open>the group's leaves and the loader's count\<close>

definition leaf_sources :: "string \<Rightarrow> root_contract list \<Rightarrow> root_contract list" where
  "leaf_sources only all = (if only = ''auto'' then all
     else filter (\<lambda>c. (if rc_kind c = [] then ''staked'' else rc_kind c) = only) all)"

definition source_label :: "root_contract \<Rightarrow> string" where
  "source_label c = (if rc_kind c = [] then ''staked'' else rc_kind c) @ ''('' @ rc_address c @ '')''"

definition tried_entry :: "string \<Rightarrow> loaded res \<Rightarrow> string" where
  "tried_entry label r = label @ (case r of
     Inr (g, n) \<Rightarrow> '' ('' @ nat_dec n @ '' leaves)'' | Inl e \<Rightarrow> '' (unreadable: '' @ exn_text e @ '')'')"

text \<open>The contracts in order; the first that holds the leaf wins, the others are remembered.\<close>

fun scan_sources :: "(root_contract \<Rightarrow> loaded res) \<Rightarrow> int \<Rightarrow> root_contract list \<Rightarrow> string list \<Rightarrow> string list + int list \<times> string" where
  "scan_sources load leaf [] tried = Inl tried"
| "scan_sources load leaf (c # cs) tried = (case load c of
     Inr (g, n) \<Rightarrow> if leaf \<in> set g then Inr (g, source_label c)
       else scan_sources load leaf cs (tried @ [tried_entry (source_label c) (load c)])
   | Inl e \<Rightarrow> scan_sources load leaf cs (tried @ [tried_entry (source_label c) (load c)]))"

definition discoverGroup :: "string \<Rightarrow> root_contract list \<Rightarrow> loaded res \<Rightarrow> (root_contract \<Rightarrow> loaded res) \<Rightarrow> int res \<Rightarrow> (int list \<times> string) res" where
  "discoverGroup only all loadStatic loadContract leafOf =
     (let sources = leaf_sources only all in
      if only \<noteq> ''auto'' \<and> only \<noteq> ''invited'' \<and> sources = []
      then Inl (Error (''ShadeTreeClient: SHADE_TREE_LEAF_SOURCE='' @ only @ '' but no '' @ only @ '' set is configured''))
      else if sources = [] then bind_res loadStatic (\<lambda>(g, n). Inr (g, ''members.json''))
      else bind_res leafOf (\<lambda>leaf.
        let wantStatic = only = ''auto'' \<or> only = ''invited'' in
        case (if wantStatic then loadStatic else Inl TypeError) of
          Inr (g, n) \<Rightarrow>
            if leaf \<in> set g then Inr (g, ''members.json'')
            else (case scan_sources loadContract leaf sources [tried_entry ''members.json'' loadStatic] of
                Inr r \<Rightarrow> Inr r | Inl tried \<Rightarrow> Inl (Error (''ShadeTreeClient: your leaf is in none of: '' @ join_with '', '' tried)))
        | Inl e \<Rightarrow>
            (case scan_sources loadContract leaf sources (if wantStatic then [tried_entry ''members.json'' loadStatic] else []) of
                Inr r \<Rightarrow> Inr r | Inl tried \<Rightarrow> Inl (Error (''ShadeTreeClient: your leaf is in none of: '' @ join_with '', '' tried)))))"

definition member_leaf :: "rln_lib \<Rightarrow> rln_cfg \<Rightarrow> jsval \<Rightarrow> jsval \<Rightarrow> int res" where
  "member_leaf L C secret limit = bind_res (toField secret) (\<lambda>seed.
     bind_res (normLimit C limit) (\<lambda>n. Inr (rateCommitmentBig L (identitySecretOf L seed) n)))"

section \<open>The slot pool\<close>

record budget_error =
  be_epoch :: int
  be_limit :: int
  be_used :: int
  be_resetAtMs :: "int option"
  be_retryAfterMs :: "int option"

definition epochBudgetError :: "int \<Rightarrow> int \<Rightarrow> int \<Rightarrow> int \<Rightarrow> int \<Rightarrow> budget_error" where
  "epochBudgetError ep limit used epochSeconds nowMs =
     (let reset = (ep + 1) * epochSeconds * 1000;
          finite = (if \<bar>reset\<bar> \<le> MAX_SAFE_INTEGER \<and> epochSeconds > 0 then Some reset else None) in
      \<lparr>be_epoch = ep, be_limit = limit, be_used = used, be_resetAtMs = finite,
       be_retryAfterMs = map_option (\<lambda>r. max 0 (r - nowMs)) finite\<rparr>)"

datatype client_error = SlotFailed slot_error | BudgetExhausted budget_error | Thrown exn

text \<open>The cached promise of the group: absent, resolved, or rejected.\<close>

datatype group_promise = NoPromise | Resolved "int list" | Rejected exn

record pool =
  pl_epoch :: "int option"
  pl_cursor :: int
  pl_group :: group_promise
  pl_source :: "string option"

definition makeSlotPool :: pool where
  "makeSlotPool = \<lparr>pl_epoch = None, pl_cursor = 0, pl_group = NoPromise, pl_source = None\<rparr>"

definition rollover :: "int \<Rightarrow> pool \<Rightarrow> pool" where
  "rollover ep P = P\<lparr>pl_epoch := Some ep, pl_cursor := 0, pl_group := NoPromise\<rparr>"

definition ensureEpoch :: "int \<Rightarrow> pool \<Rightarrow> pool" where
  "ensureEpoch ep P = (if pl_epoch P \<noteq> Some ep then rollover ep P else P)"

text \<open>The loader's answer counts only when no promise is cached.\<close>

definition ensureGroup :: "(int list \<times> string option) res \<Rightarrow> pool \<Rightarrow> int list res \<times> pool" where
  "ensureGroup answer P = (case pl_group P of
     Resolved g \<Rightarrow> (Inr g, P)
   | Rejected e \<Rightarrow> (Inl e, P)
   | NoPromise \<Rightarrow> (case answer of
       Inr (g, src) \<Rightarrow> (Inr g, P\<lparr>pl_group := Resolved g, pl_source := (case src of Some s \<Rightarrow> Some s | None \<Rightarrow> pl_source P)\<rparr>)
     | Inl e \<Rightarrow> (Inl e, P\<lparr>pl_group := Rejected e\<rparr>)))"

definition pool_leafSource :: "(int list \<times> string option) res \<Rightarrow> pool \<Rightarrow> string option res \<times> pool" where
  "pool_leafSource answer P = (case ensureGroup answer P of
     (Inl e, P') \<Rightarrow> (Inl e, P')
   | (Inr g, P') \<Rightarrow> (Inr (admitPathOfSource (case pl_source P' of Some s \<Rightarrow> JStr s | None \<Rightarrow> JNull)), P'))"

definition statePath :: "jsval \<Rightarrow> string res \<Rightarrow> string \<Rightarrow> client_error + string" where
  "statePath slotStatePath leafOf dir = (case slotStatePath of
     JUndef \<Rightarrow> (case leafOf of
         Inl e \<Rightarrow> Inl (Thrown e)
       | Inr l \<Rightarrow> if \<not> all_digits l then Inl (SlotFailed (SlotErr UNAVAILABLE ''cannot derive state path from a non-decimal member leaf''))
           else Inr (dir @ ''/'' @ l @ ''.json''))
   | JStr s \<Rightarrow> if js_trim s = [] \<or> js_lower (js_trim s) \<in> {''0'', ''off''}
       then Inl (SlotFailed (SlotErr UNAVAILABLE ''persistent slot state cannot be disabled'')) else Inr s
   | _ \<Rightarrow> Inl (SlotFailed (SlotErr UNAVAILABLE ''persistent slot state cannot be disabled'')))"

text \<open>The world of one allocation: file-system outcomes, path, lock timeout, epoch, clock.\<close>

record slot_world =
  sw_io :: slot_io
  sw_path :: "client_error + string"
  sw_timeout :: jsval
  sw_epoch :: int
  sw_epochSeconds :: int
  sw_now :: int

definition pool_nextSlot :: "int \<Rightarrow> slot_world \<Rightarrow> pool \<Rightarrow> slot_file \<Rightarrow> (client_error + int \<times> int) \<times> pool \<times> slot_file" where
  "pool_nextSlot K W P f =
     (let P1 = ensureEpoch (sw_epoch W) P in
      case sw_path W of
        Inl e \<Rightarrow> (Inl e, P1, f)
      | Inr path \<Rightarrow> (case alloc_op (sw_io W, path, sw_epoch W, JNum K, sw_timeout W) f of
          (Inl e, f') \<Rightarrow> (Inl (SlotFailed e), P1, f')
        | (Inr (Exhausted ep u), f') \<Rightarrow>
            (Inl (BudgetExhausted (epochBudgetError (sw_epoch W) K u (sw_epochSeconds W) (sw_now W))), P1\<lparr>pl_cursor := u\<rparr>, f')
        | (Inr (Allocated ep i u), f') \<Rightarrow> (Inr (ep, i), P1\<lparr>pl_cursor := u\<rparr>, f')))"

section \<open>The envelope of a tunnel\<close>

record built =
  bt_envelope :: jsval
  bt_epoch :: int
  bt_slot :: int
  bt_artifact :: "string option"

type_synonym prover = "int \<Rightarrow> int \<Rightarrow> string \<Rightarrow> int list \<Rightarrow> string option \<Rightarrow> slot_proof res"

definition envelope_json :: "int \<Rightarrow> string \<Rightarrow> string \<Rightarrow> string option \<Rightarrow> slot_proof \<Rightarrow> jsval" where
  "envelope_json version target nonce art sp = JObj
     ([(''v'', JNum version), (''target'', JStr target), (''nonce'', JStr nonce)]
      @ (case art of Some a \<Rightarrow> if a \<noteq> [] then [(''artifact'', JStr a)] else [] | None \<Rightarrow> [])
      @ [(''proof'', sp_proof sp), (''nullifier'', JStr (sp_nullifier sp)), (''externalNullifier'', JStr (sp_externalNullifier sp)),
         (''share'', JObj [(''x'', JStr (share_x (sp_share sp))), (''y'', JStr (share_y (sp_share sp)))])])"

text \<open>The slot is burned before the group is loaded and the proof made. \<open>None\<close> asks for no artifact field.\<close>

definition buildEnvelope :: "prover \<Rightarrow> int \<Rightarrow> string \<Rightarrow> string \<Rightarrow> int \<Rightarrow> string option \<Rightarrow> slot_world \<Rightarrow> (int list \<times> string option) res
    \<Rightarrow> pool \<Rightarrow> slot_file \<Rightarrow> (client_error + built) \<times> pool \<times> slot_file" where
  "buildEnvelope prove K target nonce version artifact W answer P f =
     (let signal = requestSignal target nonce in
      case pool_nextSlot K W P f of
        (Inl e, P1, f1) \<Rightarrow> (Inl e, P1, f1)
      | (Inr (ep, slot), P1, f1) \<Rightarrow> (case ensureGroup answer P1 of
          (Inl e, P2) \<Rightarrow> (Inl (Thrown e), P2, f1)
        | (Inr g, P2) \<Rightarrow> (case prove ep slot signal g artifact of
            Inl e \<Rightarrow> (Inl (Thrown e), P2, f1)
          | Inr sp \<Rightarrow> (let art = (case artifact of None \<Rightarrow> None | Some a \<Rightarrow> Some (sp_artifact sp)) in
              (Inr \<lparr>bt_envelope = envelope_json version target nonce art sp, bt_epoch = ep, bt_slot = slot, bt_artifact = art\<rparr>, P2, f1)))))"

section \<open>Choosing gateways\<close>

record client =
  cl_neg :: negotiator
  cl_pool :: pool
  cl_leafPin :: string
  cl_maxAnon :: bool

text \<open>The path of the member's own leaf: the pin, else where it was found, else invited.\<close>

definition leafSource :: "(int list \<times> string option) res \<Rightarrow> client \<Rightarrow> string res \<times> client" where
  "leafSource answer c = (if cl_leafPin c \<noteq> ''auto'' then (Inr (cl_leafPin c), c)
     else case pool_leafSource answer (cl_pool c) of
       (Inl e, P) \<Rightarrow> (Inl e, c\<lparr>cl_pool := P\<rparr>)
     | (Inr s, P) \<Rightarrow> (Inr (case s of Some p \<Rightarrow> p | None \<Rightarrow> ''invited''), c\<lparr>cl_pool := P\<rparr>))"

definition client_admission :: "(int list \<times> string option) res \<Rightarrow> client \<Rightarrow> (string \<times> bool) res \<times> client" where
  "client_admission answer c = (case leafSource answer c of
     (Inl e, c1) \<Rightarrow> (Inl e, c1)
   | (Inr s, c1) \<Rightarrow>
       (if cl_maxAnon c \<and> s \<noteq> ''invited'' then Inl (Error (''--max-anon: your leaf is in the '' @ s @ '' set'')) else Inr (s, cl_maxAnon c), c1))"

text \<open>
  The world of gateway choice: the caller's own onion, whether a directory is configured, what the
  selection answers for a leaf source, and the local hostname file.
\<close>

record choice_world =
  cw_onion :: "string option"
  cw_directory :: bool
  cw_select :: "string \<times> bool \<Rightarrow> candidate list res"
  cw_hostname :: "string option"

definition clientCandidates :: "choice_world \<Rightarrow> (int list \<times> string option) res \<Rightarrow> client \<Rightarrow> candidate list res \<times> client" where
  "clientCandidates W answer c = (case cl_neg c of N \<Rightarrow>
     let only = (\<lambda>o' arts. [\<lparr>cd_onion = o', cd_proto = JUndef, cd_artifacts = arts\<rparr>]) in
     case cn_onion N of
       Some o' \<Rightarrow>
         if cl_maxAnon c then (case client_admission answer c of
             (Inl e, c1) \<Rightarrow> (Inl e, c1) | (Inr a, c1) \<Rightarrow> (Inr (only o' (cn_gateway_artifacts N)), c1))
         else (Inr (only o' (cn_gateway_artifacts N)), c)
     | None \<Rightarrow>
         let local = (\<lambda>c1. case cw_hostname W of
               Some h \<Rightarrow> (Inr (only (strip_onion (js_trim h)) JNull), c1)
             | None \<Rightarrow> (Inl (Error ''ShadeTreeClient: no gateway''), c1)) in
         if \<not> cw_directory W then local c
         else (case client_admission answer c of
             (Inl e, c1) \<Rightarrow> (Inl e, c1)
           | (Inr a, c1) \<Rightarrow> (case cw_select W a of
               Inl e \<Rightarrow> (Inl e, c1)
             | Inr [] \<Rightarrow> local c1
             | Inr cands \<Rightarrow> (Inr (map (\<lambda>k. k\<lparr>cd_onion := strip_onion (cd_onion k), cd_proto := JUndef,
                   cd_artifacts := js_or (cd_artifacts k) JNull\<rparr>) cands), c1))))"

definition connect_candidates :: "choice_world \<Rightarrow> (int list \<times> string option) res \<Rightarrow> client \<Rightarrow> candidate list res \<times> client" where
  "connect_candidates W answer c = (case cw_onion W of
     Some o' \<Rightarrow> if o' \<noteq> [] then (Inr [\<lparr>cd_onion = strip_onion o', cd_proto = JUndef, cd_artifacts = cn_gateway_artifacts (cl_neg c)\<rparr>], c)
       else clientCandidates W answer c
   | None \<Rightarrow> clientCandidates W answer c)"

section \<open>Failover\<close>

text \<open>What one attempt meets: the outcomes of the dials, the socket, and its events. The timer ends a wait.\<close>

record attempt_world =
  aw_dials :: "unit res list"
  aw_nodelay :: "unit res"
  aw_peer :: peer
  aw_events :: "ack_event list"

definition dial :: "nat \<Rightarrow> unit res list \<Rightarrow> unit res" where
  "dial attempts outs = (case filter res_ok (take attempts outs) of
     r # _ \<Rightarrow> r
   | [] \<Rightarrow> (if take attempts outs = [] then Inl TypeError else List.last (take attempts outs)))"

text \<open>What a tunnel attempt does. Sockets are named by the position of their candidate.\<close>

datatype act = Opened nat | Wrote nat string | Destroyed nat | Report string bool | ReceiptReport string bool

record client_cfg =
  cf_attempts :: nat
  cf_ackMaxBytes :: nat
  cf_json :: "string \<Rightarrow> jsval res"       \<comment> \<open>\<open>JSON.parse\<close> of the line's text\<close>

fun plain_ack :: "jsval \<Rightarrow> bool" where
  "plain_ack (JObj kvs) = (case getp (JObj kvs) ''ok'' of JBool b \<Rightarrow> True | _ \<Rightarrow> False)"
| "plain_ack _ = False"

definition gate_answer :: "client_cfg \<Rightarrow> ack_state \<Rightarrow> ack_code + jsval \<times> string" where
  "gate_answer C st = (case st of
     AckFailed e \<Rightarrow> Inl e
   | AckWait b \<Rightarrow> Inl ACK_TIMEOUT
   | Acked line rest \<Rightarrow> (case cf_json C line of
       Inl e \<Rightarrow> Inl ACK_INVALID
     | Inr ack \<Rightarrow> if plain_ack ack then Inr (ack, rest) else Inl ACK_INVALID))"

datatype last_error = NoError | DialError exn | AckError ack_code | Refusal string

datatype gate_result =
    Through nat string jsval string          \<comment> \<open>position, onion, acknowledgement, early bytes\<close>
  | Terminal string
  | NoGateway last_error

fun gate_loop :: "client_cfg \<Rightarrow> bool \<Rightarrow> string \<Rightarrow> (nat \<Rightarrow> attempt_world) \<Rightarrow> nat \<Rightarrow> string list \<Rightarrow> last_error \<Rightarrow> negotiator
    \<Rightarrow> act list \<times> negotiator \<times> gate_result" where
  "gate_loop C rep wire W i [] err N = ([], N, NoGateway err)"
| "gate_loop C rep wire W i (onion # os) err N =
     (let w = W i; down = (if rep then [Report onion False] else []);
          next_one = (\<lambda>acts err' N'. case gate_loop C rep wire W (Suc i) os err' N' of (as, N2, r) \<Rightarrow> (acts @ as, N2, r)) in
      case dial (cf_attempts C) (aw_dials w) of
        Inl e \<Rightarrow> next_one down (DialError e) N
      | Inr u \<Rightarrow> (case aw_nodelay w of
          Inl e \<Rightarrow> next_one ([Opened i, Destroyed i] @ down) (DialError e) N
        | Inr u \<Rightarrow> (case exchangeGatewayAck (cf_ackMaxBytes C) (aw_peer w) (aw_events w @ [AckTimeout]) of
            (wrote, st) \<Rightarrow>
              let opened = Opened i # (if wrote then [Wrote i wire] else []) in
              (case gate_answer C st of
                 Inl e \<Rightarrow> next_one (opened @ [Destroyed i] @ down) (AckError e) N
               | Inr (ack, rest) \<Rightarrow>
                   if getp ack ''ok'' = JBool True
                   then (opened @ (if rep then [Report onion True] else []), N, Through i onion ack rest)
                   else (case gateRefusalError N ack onion of
                     (N', msg, mismatch) \<Rightarrow>
                       if mismatch then next_one (opened @ [Destroyed i]) (Refusal msg) N'
                       else if retryableGatewayRefusal ack then next_one (opened @ [Destroyed i] @ down) (Refusal msg) N'
                       else (opened @ [Destroyed i], N', Terminal msg))))))"

section \<open>Connecting\<close>

record connect_world =
  co_choice :: choice_world
  co_group :: "(int list \<times> string option) res"
  co_slot :: slot_world
  co_target :: string
  co_nonce :: string
  co_attempts :: "nat \<Rightarrow> attempt_world"

record tunnel =
  tu_onion :: string
  tu_slot :: int
  tu_rest :: string                \<comment> \<open>bytes that arrived behind the acknowledgement\<close>
  tu_receipt :: evidence
  tu_artifact :: "string option"

datatype connect_result =
    Connected tunnel
  | NoCandidates exn | NoProfile string string | NotBuilt client_error | Refused string | Unreachable last_error

definition wire_of :: "built \<Rightarrow> string" where
  "wire_of b = json_stringify (bt_envelope b) @ [CHR 0x0A]"

text \<open>
  One tunnel. The result comes with the envelope that was built, if any, and with what was done to
  sockets and reported to the selection.
\<close>

definition connect :: "client_cfg \<Rightarrow> dir_lib \<Rightarrow> prover \<Rightarrow> int \<Rightarrow> connect_world \<Rightarrow> client \<Rightarrow> slot_file
    \<Rightarrow> (connect_result \<times> built option \<times> act list) \<times> client \<times> slot_file" where
  "connect C L prove K W c f = (case connect_candidates (co_choice W) (co_group W) c of
     (Inl e, c1) \<Rightarrow> ((NoCandidates e, None, []), c1, f)
   | (Inr cands, c1) \<Rightarrow> (case planEnvelope (cl_neg c1) cands of
       NoPlan stage reason \<Rightarrow> ((NoProfile stage reason, None, []), c1, f)
     | Plan v a tries \<Rightarrow> (case buildEnvelope prove K (co_target W) (co_nonce W) v (Some a) (co_slot W) (co_group W) (cl_pool c1) f of
         (Inl e, P, f1) \<Rightarrow> ((NotBuilt e, None, []), c1\<lparr>cl_pool := P\<rparr>, f1)
       | (Inr b, P, f1) \<Rightarrow>
           (case gate_loop C (cn_onion (cl_neg c1) = None) (wire_of b) (co_attempts W) 0 (map cd_onion tries) NoError (cl_neg c1) of
              (acts, N, r) \<Rightarrow> (case r of
                 NoGateway e \<Rightarrow> ((Unreachable e, Some b, acts), c1\<lparr>cl_pool := P, cl_neg := N\<rparr>, f1)
               | Terminal msg \<Rightarrow> ((Refused msg, Some b, acts), c1\<lparr>cl_pool := P, cl_neg := N\<rparr>, f1)
               | Through i onion ack rest \<Rightarrow>
                   (let ev = verify_receipt L (getp ack ''receipt'') onion (sw_epoch (co_slot W)) in
                    ((Connected \<lparr>tu_onion = onion, tu_slot = bt_slot b, tu_rest = rest, tu_receipt = ev, tu_artifact = bt_artifact b\<rparr>,
                      Some b, acts @ (case ev of NoEvidence \<Rightarrow> [] | GoodReceipt o' e \<Rightarrow> [ReceiptReport onion True] | BogusReceipt e \<Rightarrow> [ReceiptReport onion False])),
                     c1\<lparr>cl_pool := P, cl_neg := N\<rparr>, f1)))))))"

section \<open>Lemmas: the failover\<close>

abbreviation opened_in :: "act list \<Rightarrow> nat set" where
  "opened_in as \<equiv> {i. Opened i \<in> set as}"

abbreviation destroyed_in :: "act list \<Rightarrow> nat set" where
  "destroyed_in as \<equiv> {i. Destroyed i \<in> set as}"

text \<open>What a run of the failover may have done, for each way it ends.\<close>

definition attempts_ok :: "bool \<Rightarrow> string \<Rightarrow> nat \<Rightarrow> string list \<Rightarrow> act list \<Rightarrow> gate_result \<Rightarrow> bool" where
  "attempts_ok rep wire i os as r \<longleftrightarrow>
     (\<forall>j w. Wrote j w \<in> set as \<longrightarrow> w = wire \<and> j \<in> opened_in as)
     \<and> opened_in as \<subseteq> {i..<i + length os} \<and> destroyed_in as \<subseteq> opened_in as
     \<and> (\<forall>onion. Report onion True \<in> set as \<longleftrightarrow> rep \<and> (\<exists>j ack rest. r = Through j onion ack rest))
     \<and> (\<forall>onion b. ReceiptReport onion b \<notin> set as)
     \<and> (case r of
          Through j onion ack rest \<Rightarrow> j \<in> opened_in as \<and> i \<le> j \<and> j < i + length os \<and> onion = os ! (j - i)
            \<and> Wrote j wire \<in> set as \<and> getp ack ''ok'' = JBool True \<and> destroyed_in as = opened_in as - {j}
        | _ \<Rightarrow> destroyed_in as = opened_in as)"

lemma attempts_ok_Nil: "attempts_ok rep wire i os [] (NoGateway e)"
  by (simp add: attempts_ok_def)

lemma attempts_ok_step:
  assumes tail: "attempts_ok rep wire (Suc i) os as r"
    and acts: "set acts \<subseteq> {Opened i, Wrote i wire, Destroyed i, Report onion False}" "Opened i \<in> set acts \<longleftrightarrow> Destroyed i \<in> set acts"
      "Wrote i wire \<in> set acts \<longrightarrow> Opened i \<in> set acts"
  shows "attempts_ok rep wire i (onion # os) (acts @ as) r"
proof -
  have o: "opened_in (acts @ as) = opened_in acts \<union> opened_in as" "destroyed_in (acts @ as) = destroyed_in acts \<union> destroyed_in as" by auto
  have a: "opened_in acts = destroyed_in acts" "opened_in acts \<subseteq> {i}" using acts by auto
  have t: "\<And>j w. Wrote j w \<in> set as \<Longrightarrow> w = wire \<and> j \<in> opened_in as" "opened_in as \<subseteq> {Suc i..<Suc i + length os}"
    "destroyed_in as \<subseteq> opened_in as" "\<And>k. Report k True \<in> set as \<longleftrightarrow> rep \<and> (\<exists>j ack rest. r = Through j k ack rest)"
    "\<And>k b. ReceiptReport k b \<notin> set as" using tail unfolding attempts_ok_def by blast+
  have w: "Wrote k v \<in> set (acts @ as) \<Longrightarrow> v = wire \<and> k \<in> opened_in (acts @ as)" for k v using acts(1,3) t(1) by auto
  have common: "opened_in (acts @ as) \<subseteq> {i..<i + length (onion # os)}" "destroyed_in (acts @ as) \<subseteq> opened_in (acts @ as)"
    unfolding o using a t(2,3) by auto
  have rt: "Report k True \<in> set (acts @ as) \<longleftrightarrow> rep \<and> (\<exists>j ack rest. r = Through j k ack rest)" for k using acts(1) t(4) by auto
  have rr: "ReceiptReport k b \<notin> set (acts @ as)" for k b using acts(1) t(5) by auto
  have last_part: "case r of
        Through j k ack rest \<Rightarrow> j \<in> opened_in (acts @ as) \<and> i \<le> j \<and> j < i + length (onion # os) \<and> k = (onion # os) ! (j - i)
          \<and> Wrote j wire \<in> set (acts @ as) \<and> getp ack ''ok'' = JBool True \<and> destroyed_in (acts @ as) = opened_in (acts @ as) - {j}
      | _ \<Rightarrow> destroyed_in (acts @ as) = opened_in (acts @ as)"
  proof (cases r)
    case (Through j k ack rest)
    then have j: "j \<in> opened_in as" "Suc i \<le> j" "j < Suc i + length os" "k = os ! (j - Suc i)" "Wrote j wire \<in> set as"
      "getp ack ''ok'' = JBool True" "destroyed_in as = opened_in as - {j}" using tail unfolding attempts_ok_def by simp_all
    have "k = (onion # os) ! (j - i)" using j(2,4) by (simp add: Suc_diff_Suc [symmetric])
    moreover have "destroyed_in (acts @ as) = opened_in (acts @ as) - {j}" unfolding o j(7) using a j(2) by auto
    ultimately show ?thesis using j unfolding Through gate_result.case by simp
  next
    case (Terminal m)
    then show ?thesis using tail a(1) unfolding attempts_ok_def o by simp
  next
    case (NoGateway e)
    then show ?thesis using tail a(1) unfolding attempts_ok_def o by simp
  qed
  show ?thesis unfolding attempts_ok_def using w common rt rr last_part by blast
qed

lemma gate_answer_Inr: "gate_answer C (snd (exchangeGatewayAck cap p evs)) = Inr (ack, rest) \<Longrightarrow> fst (exchangeGatewayAck cap p evs)"
  by (cases p) (auto simp: exchangeGatewayAck_def readGatewayAck_def gate_answer_def)

lemma gate_loop_ok: "gate_loop C rep wire W i os err N = (as, N', r) \<Longrightarrow> attempts_ok rep wire i os as r"
proof (induction os arbitrary: i err N as N' r)
  case Nil
  then show ?case by (auto simp: attempts_ok_Nil)
next
  case (Cons onion os)
  let ?w = "W i" and ?down = "if rep then [Report onion False] else []"
  have rec: "attempts_ok rep wire i (onion # os) as r"
    if step: "(case gate_loop C rep wire W (Suc i) os err' M of (as', N2, r') \<Rightarrow> (acts @ as', N2, r')) = (as, N', r)"
      and acts: "set acts \<subseteq> {Opened i, Wrote i wire, Destroyed i, Report onion False}" "Opened i \<in> set acts \<longleftrightarrow> Destroyed i \<in> set acts"
      "Wrote i wire \<in> set acts \<longrightarrow> Opened i \<in> set acts" for acts err' M
  proof -
    obtain as' N2 r' where t: "gate_loop C rep wire W (Suc i) os err' M = (as', N2, r')" by (metis prod_cases3)
    with step have e: "as = acts @ as'" "r' = r" by auto
    show ?thesis unfolding e(1) by (rule attempts_ok_step [OF Cons.IH [OF t [unfolded e(2)]] acts])
  qed
  show ?case
  proof (cases "dial (cf_attempts C) (aw_dials ?w)")
    case (Inl e)
    with Cons.prems show ?thesis by (intro rec [where err' = "DialError e" and M = N and acts = "?down"]) (auto simp: Let_def)
  next
    case dialed: (Inr u)
    show ?thesis
    proof (cases "aw_nodelay ?w")
      case (Inl e)
      with dialed Cons.prems show ?thesis
        by (intro rec [where err' = "DialError e" and M = N and acts = "[Opened i, Destroyed i] @ ?down"]) (auto simp: Let_def)
    next
      case nodelay: (Inr u')
      obtain wrote st where x: "exchangeGatewayAck (cf_ackMaxBytes C) (aw_peer ?w) (aw_events ?w @ [AckTimeout]) = (wrote, st)" by fastforce
      let ?opened = "Opened i # (if wrote then [Wrote i wire] else [])"
      show ?thesis
      proof (cases "gate_answer C st")
        case (Inl e)
        with dialed nodelay x Cons.prems show ?thesis
          by (intro rec [where err' = "AckError e" and M = N and acts = "?opened @ [Destroyed i] @ ?down"]) (auto simp: Let_def)
      next
        case (Inr y)
        obtain ack rest where y: "y = (ack, rest)" by fastforce
        have wrote using gate_answer_Inr [of C "cf_ackMaxBytes C" "aw_peer ?w" "aw_events ?w @ [AckTimeout]" ack rest] x Inr y by simp
        obtain M msg mis where g: "gateRefusalError N ack onion = (M, msg, mis)" by (metis prod_cases3)
        show ?thesis
        proof (cases "getp ack ''ok'' = JBool True")
          case True
          with dialed nodelay x Inr y Cons.prems have "as = ?opened @ (if rep then [Report onion True] else [])" "r = Through i onion ack rest"
            by (simp_all add: Let_def)
          with True \<open>wrote\<close> show ?thesis by (auto simp: attempts_ok_def)
        next
          case False
          consider (mis) mis | (retry) "\<not> mis" "retryableGatewayRefusal ack" | (terminal) "\<not> mis" "\<not> retryableGatewayRefusal ack" by blast
          then show ?thesis
          proof cases
            case mis
            with False dialed nodelay x Inr y g Cons.prems show ?thesis
              by (intro rec [where err' = "Refusal msg" and M = M and acts = "?opened @ [Destroyed i]"]) (auto simp: Let_def)
          next
            case retry
            with False dialed nodelay x Inr y g Cons.prems show ?thesis
              by (intro rec [where err' = "Refusal msg" and M = M and acts = "?opened @ [Destroyed i] @ ?down"]) (auto simp: Let_def)
          next
            case terminal
            with False dialed nodelay x Inr y g Cons.prems have "as = ?opened @ [Destroyed i]" "r = Terminal msg" by (simp_all add: Let_def)
            then show ?thesis by (auto simp: attempts_ok_def)
          qed
        qed
      qed
    qed
  qed
qed

section \<open>Lemmas: slots\<close>

lemma pool_nextSlot_burns:
  assumes "pool_nextSlot K W P f = (r, P', f')"
  shows "burned f \<subseteq> burned f' \<and> (\<forall>e i. r = Inr (e, i) \<longrightarrow> (e, i) \<notin> burned f \<and> (e, i) \<in> burned f')"
proof (cases "sw_path W")
  case (Inl e)
  with assms show ?thesis by (auto simp: pool_nextSlot_def Let_def)
next
  case (Inr path)
  let ?op = "(sw_io W, path, sw_epoch W, JNum K, sw_timeout W)"
  obtain a f1 where a: "alloc_op ?op f = (a, f1)" by fastforce
  have "f' = f1" using assms Inr a by (auto simp: pool_nextSlot_def Let_def split: sum.splits allocation.splits)
  moreover have "burned f \<subseteq> burned f1" using slots.alloc_mono [of f ?op] a by simp
  moreover have "a = Inr (Allocated e i (pl_cursor P'))" if "r = Inr (e, i)" for e i
    using assms Inr a that by (auto simp: pool_nextSlot_def Let_def split: sum.splits allocation.splits)
  ultimately show ?thesis using slots.alloc_fresh a by metis
qed



lemma connect_acts:
  assumes "connect C L prove K W c f = ((r, bo, as), c', f')"
  shows "bo = None \<and> as = [] \<and> (\<forall>t. r \<noteq> Connected t) \<or>
    (\<exists>b cands c1 v a tries g as'. bo = Some b \<and> connect_candidates (co_choice W) (co_group W) c = (Inr cands, c1)
      \<and> planEnvelope (cl_neg c1) cands = Plan v a tries
      \<and> attempts_ok (cn_onion (cl_neg c1) = None) (wire_of b) 0 (map cd_onion tries) as' g
      \<and> (case g of
          Through i onion ack rest \<Rightarrow> (\<exists>t. r = Connected t \<and> tu_onion t = onion \<and> tu_slot t = bt_slot b \<and> tu_rest t = rest)
            \<and> (\<exists>more. as = as' @ more \<and> set more \<subseteq> {ReceiptReport onion True, ReceiptReport onion False})
        | _ \<Rightarrow> (\<forall>t. r \<noteq> Connected t) \<and> as = as'))"
proof -
  obtain cr c1 where cr: "connect_candidates (co_choice W) (co_group W) c = (cr, c1)" by fastforce
  show ?thesis
  proof (cases cr)
    case (Inl e)
    with assms cr show ?thesis by (auto simp: connect_def)
  next
    case (Inr cands)
    show ?thesis
    proof (cases "planEnvelope (cl_neg c1) cands")
      case (NoPlan stage reason)
      with assms cr Inr show ?thesis by (auto simp: connect_def)
    next
      case (Plan v a tries)
      obtain x P f1 where x: "buildEnvelope prove K (co_target W) (co_nonce W) v (Some a) (co_slot W) (co_group W) (cl_pool c1) f = (x, P, f1)"
        by (metis prod_cases3)
      show ?thesis
      proof (cases x)
        case (Inl e)
        with assms cr Inr Plan x show ?thesis by (auto simp: connect_def)
      next
        case b: (Inr b)
        obtain as' N g where g: "gate_loop C (cn_onion (cl_neg c1) = None) (wire_of b) (co_attempts W) 0 (map cd_onion tries) NoError (cl_neg c1) = (as', N, g)"
          by (metis prod_cases3)
        note ok = gate_loop_ok [OF g]
        have "bo = Some b" and "case g of
          Through i onion ack rest \<Rightarrow> (\<exists>t. r = Connected t \<and> tu_onion t = onion \<and> tu_slot t = bt_slot b \<and> tu_rest t = rest)
            \<and> (\<exists>more. as = as' @ more \<and> set more \<subseteq> {ReceiptReport onion True, ReceiptReport onion False})
        | _ \<Rightarrow> (\<forall>t. r \<noteq> Connected t) \<and> as = as'"
          using assms cr Inr Plan x b g by (cases g; auto simp: connect_def Let_def split: evidence.splits)+
        with cr Inr Plan ok show ?thesis by blast
      qed
    qed
  qed
qed

section \<open>Properties\<close>

text \<open>
  one tunnel commits to one gateway. Every envelope \<open>connect\<close> writes is the same, whatever failed
  before; at the end at most one socket is left open, and exactly one when a tunnel is returned,
  on a gateway that was planned for; only that gateway is reported healthy.
\<close>

theorem connect_one_gateway:
  assumes run: "connect C L prove K W c f = ((r, bo, as), c', f')"
  shows "(\<forall>j w. Wrote j w \<in> set as \<longrightarrow> (\<exists>b. bo = Some b \<and> w = wire_of b) \<and> j \<in> opened_in as)
    \<and> (case r of
        Connected t \<Rightarrow> (\<exists>j b cands c1 v a tries. bo = Some b \<and> Wrote j (wire_of b) \<in> set as \<and> opened_in as - destroyed_in as = {j}
          \<and> connect_candidates (co_choice W) (co_group W) c = (Inr cands, c1) \<and> planEnvelope (cl_neg c1) cands = Plan v a tries
          \<and> j < length tries \<and> tu_onion t = cd_onion (tries ! j) \<and> tu_slot t = bt_slot b)
          \<and> (\<forall>o'. Report o' True \<in> set as \<longrightarrow> o' = tu_onion t)
      | _ \<Rightarrow> opened_in as = destroyed_in as \<and> (\<forall>o'. Report o' True \<notin> set as))"
  using connect_acts [OF run]
proof (elim disjE exE conjE)
  assume "bo = None" "as = []" "\<forall>t. r \<noteq> Connected t"
  then show ?thesis by (cases r) simp_all
next
  fix b cands c1 v a tries g as'
  assume h: "bo = Some b" "connect_candidates (co_choice W) (co_group W) c = (Inr cands, c1)" "planEnvelope (cl_neg c1) cands = Plan v a tries"
    and ok: "attempts_ok (cn_onion (cl_neg c1) = None) (wire_of b) 0 (map cd_onion tries) as' g"
    and g: "case g of
          Through i onion ack rest \<Rightarrow> (\<exists>t. r = Connected t \<and> tu_onion t = onion \<and> tu_slot t = bt_slot b \<and> tu_rest t = rest)
            \<and> (\<exists>more. as = as' @ more \<and> set more \<subseteq> {ReceiptReport onion True, ReceiptReport onion False})
        | _ \<Rightarrow> (\<forall>t. r \<noteq> Connected t) \<and> as = as'"
  show ?thesis
  proof (cases g)
    case (Through i onion ack rest)
    then obtain t more where t: "r = Connected t" "tu_onion t = onion" "tu_slot t = bt_slot b" and m: "as = as' @ more"
      "set more \<subseteq> {ReceiptReport onion True, ReceiptReport onion False}" using g by auto
    have same: "opened_in as = opened_in as'" "destroyed_in as = destroyed_in as'" "\<And>j w. Wrote j w \<in> set as \<longleftrightarrow> Wrote j w \<in> set as'"
      "\<And>k b. Report k b \<in> set as \<longleftrightarrow> Report k b \<in> set as'" using m by auto
    have a: "\<And>j w. Wrote j w \<in> set as' \<Longrightarrow> w = wire_of b \<and> j \<in> opened_in as'" "i \<in> opened_in as'" "i < length (map cd_onion tries)"
      "onion = map cd_onion tries ! i" "Wrote i (wire_of b) \<in> set as'" "destroyed_in as' = opened_in as' - {i}"
      "\<And>k. Report k True \<in> set as' \<Longrightarrow> k = onion"
      using ok unfolding attempts_ok_def Through gate_result.case by auto
    have tried: "i < length tries" "tu_onion t = cd_onion (tries ! i)" using a(3,4) t(2) by simp_all
    have one: "opened_in as - destroyed_in as = {i}" unfolding same(1,2) a(6) using a(2) by auto
    have w: "\<forall>j w. Wrote j w \<in> set as \<longrightarrow> (\<exists>b. bo = Some b \<and> w = wire_of b) \<and> j \<in> opened_in as"
      unfolding same(3) same(1) using a(1) h(1) by simp
    have healthy: "\<forall>o'. Report o' True \<in> set as \<longrightarrow> o' = tu_onion t" unfolding same(4) t(2) using a(7) by blast
    have wrote: "Wrote i (wire_of b) \<in> set as" unfolding same(3) by (rule a(5))
    show ?thesis unfolding t(1) connect_result.case
      by (intro conjI w healthy exI) (rule h(1) wrote one h(2) h(3) tried t(3))+
  next
    case (Terminal m)
    then have "as = as'" "opened_in as = destroyed_in as" "\<forall>k. Report k True \<notin> set as" "\<forall>t. r \<noteq> Connected t"
      "\<And>j w. Wrote j w \<in> set as \<Longrightarrow> w = wire_of b \<and> j \<in> opened_in as" using g ok by (auto simp: attempts_ok_def)
    with h(1) show ?thesis by (cases r) simp_all
  next
    case (NoGateway m)
    then have "as = as'" "opened_in as = destroyed_in as" "\<forall>k. Report k True \<notin> set as" "\<forall>t. r \<noteq> Connected t"
      "\<And>j w. Wrote j w \<in> set as \<Longrightarrow> w = wire_of b \<and> j \<in> opened_in as" using g ok by (auto simp: attempts_ok_def)
    with h(1) show ?thesis by (cases r) simp_all
  qed
qed







text \<open>
  The leaf source of a member is the one it is pinned to, and the group holds its leaf whenever a
  contract is configured; without one the static group is used as it is.
\<close>

theorem discoverGroup_sound:
  assumes ok: "discoverGroup only all st ld leafOf = Inr (g, src)"
    and pin: "only \<in> {''auto'', ''invited'', ''staked'', ''paid''}" and kinds: "\<forall>c \<in> set all. rc_kind c \<in> {''staked'', ''paid''}"
  shows "(only \<noteq> ''auto'' \<longrightarrow> admitPathOfSource (JStr src) = Some only)
    \<and> (leaf_sources only all \<noteq> [] \<longrightarrow> (\<exists>leaf. leafOf = Inr leaf \<and> leaf \<in> set g))
    \<and> (src = ''members.json'' \<and> (\<exists>n. st = Inr (g, n)) \<or> (\<exists>c n. c \<in> set (leaf_sources only all) \<and> src = source_label c \<and> ld c = Inr (g, n)))"
proof -
  have found: "\<exists>c n. c \<in> set cs \<and> src = source_label c \<and> ld c = Inr (g, n) \<and> leaf \<in> set g"
    if "scan_sources ld leaf cs tried = Inr (g, src)" for leaf cs tried
    using that by (induction cs arbitrary: tried) (fastforce split: sum.splits prod.splits if_splits)+
  have path: "admitPathOfSource (JStr (source_label c)) = Some only" if "c \<in> set (leaf_sources only all)" "only \<noteq> ''auto''" for c
  proof -
    have "rc_kind c = only" "only = ''staked'' \<or> only = ''paid''" using that kinds by (auto simp: leaf_sources_def split: if_splits)
    then show ?thesis by (auto simp: source_label_def admitPathOfSource_def starts_with_def js_nullish_or_def)
  qed
  have static: "admitPathOfSource (JStr ''members.json'') = Some ''invited''" by (simp add: admitPathOfSource_def js_nullish_or_def)
  let ?src = "leaf_sources only all"
  show ?thesis
  proof (cases "?src = []")
    case True
    then have "only = ''auto'' \<or> only = ''invited''" "\<exists>n. st = Inr (g, n)" "src = ''members.json''"
      using ok by (auto simp: discoverGroup_def Let_def bind_res_Inr_iff split: if_splits)
    with True static show ?thesis by auto
  next
    case False
    then obtain leaf where leaf: "leafOf = Inr leaf"
      using ok by (auto simp: discoverGroup_def Let_def bind_res_Inr_iff split: if_splits)
    let ?want = "only = ''auto'' \<or> only = ''invited''"
    consider (st) n where "?want" "st = Inr (g, n)" "leaf \<in> set g" "src = ''members.json''" | (scan) tried where "scan_sources ld leaf ?src tried = Inr (g, src)"
      using ok False leaf by (auto simp: discoverGroup_def Let_def bind_res_Inr_iff split: if_splits sum.splits)
    then show ?thesis
    proof cases
      case st
      with leaf static show ?thesis by auto
    next
      case scan
      then obtain c n where "c \<in> set ?src" "src = source_label c" "ld c = Inr (g, n)" "leaf \<in> set g"
        using found by blast
      with leaf path show ?thesis by auto
    qed
  qed
qed

text \<open>
  a failed load of the group outlives the failure. The rejected promise stays cached for the rest
  of the epoch: a later tunnel of the same epoch burns its slot and fails with the old error, although
  the source would answer now, and the cache is as before.
\<close>

theorem failed_group_burns_slots:
  assumes "pl_group P = Rejected e" "pl_epoch P = Some (sw_epoch W)" "pool_nextSlot K W P f = (Inr (ep, i), P1, f1)"
  shows "buildEnvelope prove K target nonce v art W (Inr (g, src)) P f = (Inl (Thrown e), P1, f1)
    \<and> pl_group P1 = Rejected e \<and> (ep, i) \<in> burned f1 - burned f"
proof -
  have "pl_group P1 = Rejected e"
    using assms by (auto simp: pool_nextSlot_def ensureEpoch_def Let_def split: sum.splits allocation.splits prod.splits)
  with assms(3) pool_nextSlot_burns [OF assms(3)] show ?thesis by (simp add: buildEnvelope_def ensureGroup_def)
qed

text \<open>
  An exhausted budget says when to come back: after the wait it announces, the epoch has changed,
  and it never announces more than one epoch for the current one.
\<close>

theorem budget_retry_next_epoch:
  assumes "be_retryAfterMs (epochBudgetError ep limit used (EPOCH_SECONDS C) now) = Some d" "currentEpoch C now = ep"
  shows "ep < currentEpoch C (now + d) \<and> 0 < d \<and> d \<le> 1000 * EPOCH_SECONDS C"
proof -
  define E where "E = 1000 * EPOCH_SECONDS C"
  have E: "0 < E" and d0: "d = max 0 (ep * E + E - now)"
    using assms(1) by (auto simp: E_def epochBudgetError_def Let_def algebra_simps split: if_splits)
  have "now = ep * E + now mod E" using assms(2) div_mult_mod_eq [of now E] by (simp add: currentEpoch_def E_def [symmetric])
  then have now: "ep * E \<le> now" "now < ep * E + E" using pos_mod_bound [OF E, of now] pos_mod_sign [OF E, of now] by linarith+
  with d0 have d: "d = ep * E + E - now" by simp
  then have "now + d = (ep + 1) * E" by (simp add: algebra_simps)
  then have "currentEpoch C (now + d) = ep + 1" using E by (simp add: currentEpoch_def E_def [symmetric])
  with d now show ?thesis by (simp add: E_def)
qed

text \<open>What the proof system promises. For an input that satisfies the circuit (the member's leaf is at the
  index and the message id is below its limit) the public signals are those of the input and the proof
  verifies.\<close>

definition circuit_input :: "rln_lib \<Rightarrow> prove_input \<Rightarrow> bool" where
  "circuit_input L inp \<longleftrightarrow> in_leafIndex inp < length (in_group inp) \<and> in_messageId inp < in_userMessageLimit inp
     \<and> in_group inp ! in_leafIndex inp = rateCommitmentBig L (in_identitySecret inp) (in_userMessageLimit inp)"

definition prover_correct :: "rln_lib \<Rightarrow> (prover_set \<Rightarrow> jsval) \<Rightarrow> (int list \<Rightarrow> string) \<Rightarrow> bool" where
  "prover_correct L vk root_of \<longleftrightarrow> (\<forall>ps inp. circuit_input L inp \<longrightarrow> (case rln_prove L ps inp of (snark, pub) \<Rightarrow>
     is_object snark \<and> getp snark ''publicSignals'' = JObj [(''x'', JStr (pub_x pub)), (''y'', JStr (pub_y pub)), (''root'', JStr (pub_root pub)),
        (''nullifier'', JStr (pub_nullifier pub)), (''externalNullifier'', JStr (pub_externalNullifier pub))]
     \<and> pub_x pub = int_dec (in_x inp) \<and> pub_root pub = root_of (in_group inp)
     \<and> pub_externalNullifier pub = int_dec (calculateExternalNullifier L (in_epoch inp) (in_rlnIdentifier inp))
     \<and> rln_verify L (vk ps) snark (JStr (int_dec (in_epoch inp))) (JStr (int_dec (in_rlnIdentifier inp))) = Inr True))"

lemma index_of_nth: "index_of xs y = Some i \<Longrightarrow> i < length xs \<and> xs ! i = y"
  by (induction xs arbitrary: i) (auto split: if_splits)

lemma proveForSlot_Inr:
  assumes "proveForSlot L C sets secret ep i sig g art limit = Inr sp"
  shows "\<exists>ps inp. getProver sets art = Inr ps \<and> in_x inp = calculateSignalHash L sig \<and> in_group inp = g \<and> in_epoch inp = big_mod ep
    \<and> circuit_input L inp \<and> in_rlnIdentifier inp = RLN_IDENTIFIER C
    \<and> (case rln_prove L ps inp of (snark, pub) \<Rightarrow>
        sp = \<lparr>sp_proof = wireProof snark (big_mod ep) (RLN_IDENTIFIER C), sp_nullifier = pub_nullifier pub,
          sp_externalNullifier = pub_externalNullifier pub, sp_slot = i, sp_share = \<lparr>share_x = pub_x pub, share_y = pub_y pub\<rparr>, sp_artifact = ps_id ps\<rparr>)"
proof -
  obtain x where x: "toField secret = Inr x" using assms by (auto simp: proveForSlot_def bind_res_Inr_iff)
  obtain n where n: "normLimit C (if nullish limit then JNum (K_SLOTS C) else limit) = Inr n"
    using assms by (auto simp: proveForSlot_def bind_res_Inr_iff Let_def)
  obtain index where c: "big_mod i < n" "index_of g (rateCommitmentBig L (identitySecretOf L x) n) = Some index"
    using assms by (auto simp: proveForSlot_def x n Let_def split: if_splits option.splits)
  obtain ps where ps: "getProver sets art = Inr ps"
    using assms c by (auto simp: proveForSlot_def x n Let_def bind_res_Inr_iff split: if_splits)
  define inp where "inp = \<lparr>in_identitySecret = identitySecretOf L x, in_userMessageLimit = n, in_messageId = big_mod i, in_leafIndex = index,
       in_group = g, in_x = calculateSignalHash L sig, in_epoch = big_mod ep, in_rlnIdentifier = RLN_IDENTIFIER C\<rparr>"
  have "sp = (case rln_prove L ps inp of (snark, pub) \<Rightarrow>
        \<lparr>sp_proof = wireProof snark (big_mod ep) (RLN_IDENTIFIER C), sp_nullifier = pub_nullifier pub,
          sp_externalNullifier = pub_externalNullifier pub, sp_slot = i, sp_share = \<lparr>share_x = pub_x pub, share_y = pub_y pub\<rparr>, sp_artifact = ps_id ps\<rparr>)"
    using assms c ps unfolding proveForSlot_def x n Let_def inp_def by (auto split: if_splits prod.splits)
  moreover have "circuit_input L inp" using c by (simp add: circuit_input_def inp_def index_of_nth)
  ultimately show ?thesis using ps by (intro exI [of _ ps] exI [of _ inp]) (simp add: inp_def case_prod_unfold)
qed

text \<open>
  C33: the envelope a member builds is one the gateway accepts. With a correct proof system, a group
  whose root the gateway trusts, and an artifact it accepts with the prover's key, the envelope passes
  \<open>verifyEnvelope\<close> during its epoch and the next one, under the nullifier it carries.
\<close>

theorem own_envelope_accepted:
  assumes built: "buildEnvelope (\<lambda>ep i sig g art. proveForSlot L C sets secret ep i sig g art (JNum K)) K target nonce v (Some a) W answer P f = (Inr b, P', f')"
    and lib: "prover_correct L vk root_of"
    and roots: "\<forall>g. pl_group (ensureEpoch (sw_epoch W) P) = Resolved g \<or> (\<exists>src. answer = Inr (g, src)) \<longrightarrow> root_of g \<in> set roots"
    and fields: "signalFieldSafe (JStr target) 256" "signalFieldSafe (JStr nonce) 128"
    and artifact: "a \<noteq> []" "\<forall>ps. getProver sets (Some a) = Inr ps \<longrightarrow> resolveArtifact (JStr a) S = ArtifactOk a (vk ps)"
    and fresh: "sw_epoch W = currentEpoch C now \<or> sw_epoch W = currentEpoch C now - 1"
  shows "\<exists>vf. verifyEnvelope L C S (bt_envelope b) roots now = Accept vf \<and> JStr (vf_nullifier vf) = getp (bt_envelope b) ''nullifier''
    \<and> vf_artifact vf = a \<and> bt_epoch b = sw_epoch W"
proof -
  obtain ep i P1 where n: "pool_nextSlot K W P f = (Inr (ep, i), P1, f')"
    using built by (auto simp: buildEnvelope_def Let_def split: sum.splits prod.splits)
  obtain path u where al: "alloc_op (sw_io W, path, sw_epoch W, JNum K, sw_timeout W) f = (Inr (Allocated ep i u), f')"
    and p1: "pl_group P1 = pl_group (ensureEpoch (sw_epoch W) P)"
    using n by (auto simp: pool_nextSlot_def Let_def split: sum.splits allocation.splits prod.splits)
  have ep: "ep = sw_epoch W"
    using al by (auto simp: alloc_op_def split: option.splits dest: allocation_durable)
  obtain g P2 where g: "ensureGroup answer P1 = (Inr g, P2)" using built n by (auto simp: buildEnvelope_def Let_def split: sum.splits prod.splits)
  then have root: "root_of g \<in> set roots" using roots p1 by (auto simp: ensureGroup_def split: group_promise.splits sum.splits)
  obtain sp where sp: "proveForSlot L C sets secret ep i (requestSignal target nonce) g (Some a) (JNum K) = Inr sp"
    and b: "b = \<lparr>bt_envelope = envelope_json v target nonce (Some (sp_artifact sp)) sp, bt_epoch = ep, bt_slot = i, bt_artifact = Some (sp_artifact sp)\<rparr>"
    using built n g by (auto simp: buildEnvelope_def Let_def split: sum.splits)
  obtain ps inp where pr1: "getProver sets (Some a) = Inr ps"
    and ok: "circuit_input L inp" and inp: "in_x inp = calculateSignalHash L (requestSignal target nonce)" "in_group inp = g" "in_epoch inp = big_mod ep" "in_rlnIdentifier inp = RLN_IDENTIFIER C"
    and spv: "case rln_prove L ps inp of (snark, pub) \<Rightarrow>
        sp = \<lparr>sp_proof = wireProof snark (big_mod ep) (RLN_IDENTIFIER C), sp_nullifier = pub_nullifier pub,
          sp_externalNullifier = pub_externalNullifier pub, sp_slot = i, sp_share = \<lparr>share_x = pub_x pub, share_y = pub_y pub\<rparr>, sp_artifact = ps_id ps\<rparr>"
    using proveForSlot_Inr [OF sp] by (elim exE conjE) (rule that; assumption)
  obtain snark pub where pr2: "rln_prove L ps inp = (snark, pub)" by fastforce
  note pr = pr1 pr2 spv [unfolded pr2 prod.case]
  have id: "ps_id ps = a" using pr(1) by (auto simp: getProver_def split: option.splits dest: find_SomeD)
  note law = lib [unfolded prover_correct_def, THEN spec [of _ ps], THEN spec [of _ inp], THEN mp [OF _ ok], unfolded pr(2) prod.case inp]
  let ?env = "bt_envelope b"
  have e: "getp ?env ''proof'' = wireProof snark (big_mod ep) (RLN_IDENTIFIER C)" "getp ?env ''nonce'' = JStr nonce" "getp ?env ''target'' = JStr target"
    "getp ?env ''artifact'' = JStr a" "getp ?env ''nullifier'' = JStr (pub_nullifier pub)" "is_object ?env"
    "getp ?env ''share'' = JObj [(''x'', JStr (pub_x pub)), (''y'', JStr (pub_y pub))]"
    using artifact(1) by (simp_all add: b pr(3) envelope_json_def id)
  have w: "getp (wireProof snark x y) ''snarkProof'' = snark" "getp (wireProof snark x y) ''epoch'' = JStr (int_dec x)"
    "getp (wireProof snark x y) ''rlnIdentifier'' = JStr (int_dec y)" "truthy (wireProof snark x y)" for x y by (simp_all add: wireProof_def)
  have ext: "externalNullifierFor L C ep = calculateExternalNullifier L (big_mod ep) (RLN_IDENTIFIER C)" by (simp add: externalNullifierFor_def)
  have cheap: "verifyCheap L C S ?env roots now = Inr (a, vk ps)"
    unfolding verifyCheap_def Let_def e w using law ext fresh fields root artifact(2) pr(1)
    by (auto simp: ep js_or_def is_object_truthy w(4) e(6))
  have "verifyEnvelope L C S ?env roots now = Accept \<lparr>vf_nullifier = pub_nullifier pub, vf_externalNullifier = pub_externalNullifier pub,
      vf_share = \<lparr>share_x = pub_x pub, share_y = pub_y pub\<rparr>, vf_artifact = a\<rparr>"
    unfolding verifyEnvelope_def cheap Let_def e w using law by (simp add: js_nullish_or_def)
  with e(5) show ?thesis by (simp add: b ep)
qed

section \<open>A concrete run\<close>

text \<open>Two tunnels of one member over two gateways: the first gateway hangs up on the envelope, the
  second accepts it.\<close>

definition demo_proof :: slot_proof where
  "demo_proof = \<lparr>sp_proof = JObj [], sp_nullifier = ''7'', sp_externalNullifier = ''11'', sp_slot = 0,
     sp_share = \<lparr>share_x = ''1'', share_y = ''2''\<rparr>, sp_artifact = ''a1''\<rparr>"

definition demo_choice :: choice_world where
  "demo_choice = \<lparr>cw_onion = None, cw_directory = True,
     cw_select = (\<lambda>_. Inr (map (\<lambda>o'. \<lparr>cd_onion = o', cd_proto = JUndef, cd_artifacts = JUndef\<rparr>) [''g1.onion'', ''g2.onion''])),
     cw_hostname = None\<rparr>"

definition demo_slots :: slot_world where
  "demo_slots = \<lparr>sw_io = demo_io, sw_path = Inr ''/s'', sw_timeout = JNum 100, sw_epoch = 5, sw_epochSeconds = 120, sw_now = 600000\<rparr>"

definition demo_connect :: connect_world where
  "demo_connect = \<lparr>co_choice = demo_choice, co_group = Inr ([1], Some ''members.json''), co_slot = demo_slots, co_target = ''a.io:443'',
     co_nonce = ''n1'', co_attempts = (\<lambda>i. \<lparr>aw_dials = [Inr ()], aw_nodelay = Inr (), aw_peer = PeerOpen,
       aw_events = (if i = 0 then [AckClose] else [AckData [CHR ''k'', CHR 0x0A]])\<rparr>)\<rparr>"

definition demo_client :: client where
  "demo_client = \<lparr>cl_neg = \<lparr>cn_onion = None, cn_range = JNull, cn_gateway_artifacts = JNull, cn_artifacts = [JStr ''a1''], cn_learned = []\<rparr>,
     cl_pool = makeSlotPool, cl_leafPin = ''auto'', cl_maxAnon = False\<rparr>"

definition demo_cfg_client :: client_cfg where
  "demo_cfg_client = \<lparr>cf_attempts = 4, cf_ackMaxBytes = 16, cf_json = (\<lambda>_. Inr (JObj [(''ok'', JBool True)]))\<rparr>"

definition demo_dir_lib :: dir_lib where
  "demo_dir_lib = \<lparr>sha3 = (\<lambda>_. ''xy''), ed_verify = (\<lambda>_ _ _. Inr True), ed_sign = (\<lambda>_ _. ''s''), ed_pub = (\<lambda>_. replicate 32 (CHR ''k'')),
     buffer_other = (\<lambda>_. Inl TypeError)\<rparr>"




definition demo_tunnel :: "(connect_result \<times> built option \<times> act list) \<times> client \<times> slot_file" where
  "demo_tunnel = connect demo_cfg_client demo_dir_lib (\<lambda>_ _ _ _ _. Inr demo_proof) 8 demo_connect demo_client Missing"

lemma demo_tunnel_acts:
  "map (\<lambda>a. case a of Wrote j w \<Rightarrow> Wrote j [] | _ \<Rightarrow> a) (snd (snd (fst demo_tunnel)))
     = [Opened 0, Wrote 0 [], Destroyed 0, Report ''g1'' False, Opened 1, Wrote 1 [], Report ''g2'' True]"
  "(case fst (fst demo_tunnel) of Connected t \<Rightarrow> Some (tu_onion t) | _ \<Rightarrow> None) = Some ''g2''"
  by code_simp+

theorem connect_one_gateway_witness:
  "\<exists>t as. fst (fst demo_tunnel) = Connected t \<and> tu_onion t = ''g2'' \<and> snd (snd (fst demo_tunnel)) = as \<and> opened_in as = {0, 1} \<and> opened_in as - destroyed_in as = {1}
    \<and> (\<exists>b. Wrote 1 (wire_of b) \<in> set as)"
proof -
  obtain r bo as c' f' where d: "demo_tunnel = ((r, bo, as), c', f')" by (metis prod.exhaust)
  obtain t where t: "r = Connected t" "tu_onion t = ''g2''" using demo_tunnel_acts(2) by (cases r) (simp_all add: d)
  have m: "map (\<lambda>a. case a of Wrote j w \<Rightarrow> Wrote j [] | _ \<Rightarrow> a) as
     = [Opened 0, Wrote 0 [], Destroyed 0, Report ''g1'' False, Opened 1, Wrote 1 [], Report ''g2'' True]" using demo_tunnel_acts(1) by (simp add: d)
  note g = connect_one_gateway [OF d [unfolded demo_tunnel_def], unfolded t connect_result.case]
  have op: "Opened i \<in> set as \<longleftrightarrow> Opened i \<in> set (map (\<lambda>a. case a of Wrote j w \<Rightarrow> Wrote j [] | _ \<Rightarrow> a) as)" for i
    by (induction as) (auto split: act.splits)
  have e: "Destroyed i \<in> set as \<longleftrightarrow> Destroyed i \<in> set (map (\<lambda>a. case a of Wrote j w \<Rightarrow> Wrote j [] | _ \<Rightarrow> a) as)" for i
    by (induction as) (auto split: act.splits)
  have od: "opened_in as = {0, 1}" "destroyed_in as = {0}" unfolding op e m by auto
  obtain j b where "Wrote j (wire_of b) \<in> set as" "opened_in as - destroyed_in as = {j}"
    using g [THEN conjunct2, THEN conjunct1] by (elim exE conjE) (rule that; assumption)
  with od have "Wrote 1 (wire_of b) \<in> set as" "opened_in as - destroyed_in as = {1}" by auto
  with t od show ?thesis by (auto simp: d)
qed

theorem failed_group_burns_slots_witness:
  "\<exists>P1. buildEnvelope (\<lambda>_ _ _ _ _. Inr demo_proof) 8 ''a.io:443'' ''n1'' 4 (Some ''a1'') demo_slots (Inr ([1], None))
      (makeSlotPool\<lparr>pl_epoch := Some 5, pl_group := Rejected TypeError\<rparr>) Missing
    = (Inl (Thrown TypeError), P1, Json (stateJson \<lparr>epoch = 5, nextSlot = 1\<rparr>))"
proof -
  let ?P = "makeSlotPool\<lparr>pl_epoch := Some 5, pl_group := Rejected TypeError\<rparr>"
  have P: "pl_group ?P = Rejected TypeError" "pl_epoch ?P = Some (sw_epoch demo_slots)" by (simp_all add: demo_slots_def)
  have "fst (pool_nextSlot 8 demo_slots ?P Missing) = Inr (5, 0)"
    "snd (snd (pool_nextSlot 8 demo_slots ?P Missing)) = Json (stateJson \<lparr>epoch = 5, nextSlot = 1\<rparr>)" by code_simp+
  then obtain P1 where n: "pool_nextSlot 8 demo_slots ?P Missing = (Inr (5, 0), P1, Json (stateJson \<lparr>epoch = 5, nextSlot = 1\<rparr>))"
    by (metis prod.collapse)
  from failed_group_burns_slots [OF P n] show ?thesis by blast
qed

text \<open>A proof system whose proofs are their public signals, and a member of a one-leaf group.\<close>

definition honest_lib :: rln_lib where
  "honest_lib = \<lparr>poseidon1 = (\<lambda>a. a), poseidon2 = (\<lambda>a b. 3), calculateExternalNullifier = (\<lambda>e r. e), calculateSignalHash = (\<lambda>_. 5),
     identity_parts = (\<lambda>_. (1, 2)),
     rln_prove = (\<lambda>ps inp. let pub = \<lparr>pub_x = int_dec (in_x inp), pub_y = ''2'', pub_root = ''9'', pub_nullifier = ''7'',
         pub_externalNullifier = int_dec (in_epoch inp)\<rparr> in
       (JObj [(''publicSignals'', JObj [(''x'', JStr (pub_x pub)), (''y'', JStr (pub_y pub)), (''root'', JStr (pub_root pub)),
          (''nullifier'', JStr (pub_nullifier pub)), (''externalNullifier'', JStr (pub_externalNullifier pub))])], pub)),
     rln_verify = (\<lambda>_ _ _ _. Inr True)\<rparr>"

lemma honest_lib_correct: "prover_correct honest_lib (\<lambda>_. JNull) (\<lambda>_. ''9'')"
  by (simp add: prover_correct_def honest_lib_def Let_def)

definition honest_sets :: "prover_set list" where
  "honest_sets = [\<lparr>ps_id = ''a1'', ps_wasm = [], ps_zkey = [], ps_vkey = []\<rparr>]"

definition honest_accepts :: artifact_set where
  "honest_accepts = \<lparr>as_accepted = [(''a1'', \<lparr>ae_vkey = JNull, ae_path = [], ae_sha256 = []\<rparr>)], as_ids = [''a1''], as_legacyId = ''a1'',
     as_legacyAccepted = True, as_explicit = False, as_builtinId = ''a1''\<rparr>"

definition honest_cfg :: rln_cfg where
  "honest_cfg = \<lparr>K_SLOTS = 8, RLN_IDENTIFIER = 99, EPOCH_SECONDS = 120\<rparr>"

definition honest_build :: "(client_error + built) \<times> pool \<times> slot_file" where
  "honest_build = buildEnvelope (\<lambda>ep i sig g art. proveForSlot honest_lib honest_cfg honest_sets (JBigInt 42) ep i sig g art (JNum 8)) 8
     ''a.io:443'' ''n1'' 4 (Some ''a1'') demo_slots (Inr ([3], None)) makeSlotPool Missing"

lemma honest_built: "\<exists>b P f. honest_build = (Inr b, P, f)"
proof -
  have "case fst honest_build of Inr b \<Rightarrow> True | Inl e \<Rightarrow> False" by code_simp
  then obtain b where "fst honest_build = Inr b" by (cases "fst honest_build") simp_all
  then show ?thesis by (metis prod.collapse)
qed

theorem own_envelope_accepted_witness:
  "\<exists>b P f vf. honest_build = (Inr b, P, f)
     \<and> verifyEnvelope honest_lib honest_cfg honest_accepts (bt_envelope b) [''9''] 600000 = Accept vf \<and> vf_artifact vf = ''a1''"
proof -
  obtain b P f where b: "honest_build = (Inr b, P, f)" using honest_built by blast
  have f: "signalFieldSafe (JStr ''a.io:443'') 256" "signalFieldSafe (JStr ''n1'') 128" by code_simp+
  have r: "\<forall>g. pl_group (ensureEpoch (sw_epoch demo_slots) makeSlotPool) = Resolved g \<or> (\<exists>src. (Inr ([3], None) :: (int list \<times> string option) res) = Inr (g, src))
      \<longrightarrow> (\<lambda>_. ''9'') g \<in> set [''9'']" by simp
  have a: "(''a1'' :: string) \<noteq> []" "\<forall>ps. getProver honest_sets (Some ''a1'') = Inr ps \<longrightarrow> resolveArtifact (JStr ''a1'') honest_accepts = ArtifactOk ''a1'' ((\<lambda>_. JNull) ps)"
  proof -
    have "artifact_id_re ''a1''" by code_simp
    then show "\<forall>ps. getProver honest_sets (Some ''a1'') = Inr ps \<longrightarrow> resolveArtifact (JStr ''a1'') honest_accepts = ArtifactOk ''a1'' ((\<lambda>_. JNull) ps)"
      by (simp add: resolveArtifact_def resolveId_def honest_accepts_def)
  qed simp
  have e: "sw_epoch demo_slots = currentEpoch honest_cfg 600000 \<or> sw_epoch demo_slots = currentEpoch honest_cfg 600000 - 1"
    by (simp add: demo_slots_def currentEpoch_def honest_cfg_def)
  from own_envelope_accepted [OF b [unfolded honest_build_def] honest_lib_correct r f a e] b show ?thesis by blast
qed

end
