(* ===== verification/Egress.thy ===== *)
theory Egress
  imports Prelude "HOL-Library.Word"
begin

text \<open>
  Egress targets of \<^verbatim>\<open>src/gateway/gateway.mjs\<close>: the allow/deny policy over \<open>host:port\<close>
  (\<open>makeEgressPolicy\<close>, \<open>validTarget\<close>), the classification of addresses
  (\<open>isPublicEgressAddress\<close>, with \<open>>>>\<close> on 32-bit words) and the resolution that pins numeric
  addresses (\<open>resolveEgressTarget\<close>). \<open>net.isIP\<close> of Node is modelled by its grammar; the DNS
  answer is an argument.
\<close>

section \<open>Policy over host and port\<close>

datatype port_pat = AnyPort | Port int

record egress_pattern =
  ep_host :: string
  ep_port :: port_pat

definition split_last :: "char \<Rightarrow> string \<Rightarrow> (string \<times> string) option" where  \<comment> \<open>around \<open>lastIndexOf\<close>\<close>
  "split_last c s = (if c \<in> set s
     then Some (rev (tl (dropWhile (\<lambda>x. x \<noteq> c) (rev s))), rev (takeWhile (\<lambda>x. x \<noteq> c) (rev s))) else None)"

definition digits_1_5 :: "string \<Rightarrow> bool" where  \<comment> \<open>\<open>/^\d{1,5}$/\<close>\<close>
  "digits_1_5 s \<longleftrightarrow> all_digits s \<and> length s \<le> 5"

definition parseEgressPattern :: "string \<Rightarrow> egress_pattern option" where
  "parseEgressPattern spec = (case split_last (CHR '':'') spec of
     None \<Rightarrow> None
   | Some (h, portStr) \<Rightarrow>
       if h = [] \<or> portStr = [] then None
       else if portStr = ''*'' then Some \<lparr>ep_host = js_lower h, ep_port = AnyPort\<rparr>
       else if \<not> digits_1_5 portStr then None
       else (let port = int (dec_nat portStr) in
         if port < 1 \<or> port > 65535 then None else Some \<lparr>ep_host = js_lower h, ep_port = Port port\<rparr>))"

definition matchEgressPattern :: "egress_pattern \<Rightarrow> string \<Rightarrow> int \<Rightarrow> bool" where
  "matchEgressPattern pat host port \<longleftrightarrow>
     (ep_port pat = AnyPort \<or> ep_port pat = Port port) \<and>
     (if ep_host pat = ''*'' then True
      else if starts_with (ep_host pat) ''*.'' then ends_with host (tl (ep_host pat))
      else ep_host pat = host)"

record egress_policy =
  pol_allows :: "egress_pattern list"
  pol_denies :: "egress_pattern list"

definition parse_patterns :: "string \<Rightarrow> egress_pattern list" where
  "parse_patterns spec = List.map_filter parseEgressPattern (filter (\<lambda>s. s \<noteq> []) (map js_trim (split_on (CHR '','') spec)))"

definition makeEgressPolicy :: "string option \<Rightarrow> string option \<Rightarrow> egress_policy" where
  "makeEgressPolicy allow deny =
     \<lparr>pol_allows = parse_patterns (case allow of Some a \<Rightarrow> a | None \<Rightarrow> ''*:443''),
      pol_denies = parse_patterns (case deny of Some d \<Rightarrow> d | None \<Rightarrow> [])\<rparr>"

definition strip_dot :: "string \<Rightarrow> string" where  \<comment> \<open>\<open>.replace(/\.$/, "")\<close>\<close>
  "strip_dot h = (if h \<noteq> [] \<and> last h = CHR ''.'' then butlast h else h)"

definition isAllowed :: "egress_policy \<Rightarrow> string \<Rightarrow> int \<Rightarrow> bool" where
  "isAllowed pol host p \<longleftrightarrow> host \<noteq> [] \<and> 1 \<le> p \<and> p \<le> 65535 \<and>
     (let h = strip_dot (js_lower host) in
      h \<noteq> [] \<and> hd h \<noteq> CHR ''.'' \<and> \<not> includes_str h ''..''
      \<and> \<not> list_ex (\<lambda>pat. matchEgressPattern pat h p) (pol_denies pol)
      \<and> list_ex (\<lambda>pat. matchEgressPattern pat h p) (pol_allows pol))"

datatype target_check = BadTarget string | Target (tg_host: string) (tg_port: int)

definition host_char :: "char \<Rightarrow> bool" where  \<comment> \<open>\<open>[a-zA-Z0-9.\-]\<close>\<close>
  "host_char c \<longleftrightarrow> (let n = (of_char c :: nat) in
     48 \<le> n \<and> n \<le> 57 \<or> 65 \<le> n \<and> n \<le> 90 \<or> 97 \<le> n \<and> n \<le> 122 \<or> n = 45 \<or> n = 46)"

definition validTarget :: "egress_policy \<Rightarrow> jsval \<Rightarrow> target_check" where
  "validTarget pol target = (case target of
     JStr t \<Rightarrow> (case split_last (CHR '':'') t of
         None \<Rightarrow> BadTarget ''bad-target''
       | Some (h, ps) \<Rightarrow>
           if h = [] \<or> \<not> list_all host_char h \<or> \<not> digits_1_5 ps then BadTarget ''bad-target''
           else (let port = int (dec_nat ps) in
             if port < 1 \<or> port > 65535 then BadTarget ''bad-target''
             else if \<not> isAllowed pol h port then BadTarget ''bad-target-policy''
             else Target h port))
   | _ \<Rightarrow> BadTarget ''bad-target'')"

section \<open>Addresses\<close>

definition v4_octet :: "string \<Rightarrow> bool" where
  \<comment> \<open>\<open>[0-9]|[1-9][0-9]|1[0-9][0-9]|2[0-4][0-9]|25[0-5]\<close>\<close>
  "v4_octet s \<longleftrightarrow> all_digits s \<and> length s \<le> 3 \<and> (length s > 1 \<longrightarrow> hd s \<noteq> CHR ''0'') \<and> dec_nat s \<le> 255"

definition is_ipv4 :: "string \<Rightarrow> bool" where
  "is_ipv4 s \<longleftrightarrow> (let ps = split_on (CHR ''.'') s in length ps = 4 \<and> list_all v4_octet ps)"

definition hex_char_lo :: "char \<Rightarrow> bool" where
  "hex_char_lo c \<longleftrightarrow> radix_digit c < 16"

definition v6_seg :: "string \<Rightarrow> bool" where
  "v6_seg s \<longleftrightarrow> s \<noteq> [] \<and> length s \<le> 4 \<and> list_all hex_char_lo s"

fun split_dcolon :: "string \<Rightarrow> string \<times> string option" where  \<comment> \<open>at the first \<open>::\<close>\<close>
  "split_dcolon (a # b # cs) = (if a = CHR '':'' \<and> b = CHR '':'' then ([], Some cs)
     else (let (l, r) = split_dcolon (b # cs) in (a # l, r)))"
| "split_dcolon s = (s, None)"

definition segs :: "string \<Rightarrow> string list" where
  "segs s = (if s = [] then [] else split_on (CHR '':'') s)"

definition seg_count :: "string list \<Rightarrow> nat" where  \<comment> \<open>an IPv4 tail counts for two\<close>
  "seg_count gs = length gs + (if gs \<noteq> [] \<and> is_ipv4 (last gs) then 1 else 0)"

definition segs_ok :: "bool \<Rightarrow> string list \<Rightarrow> bool" where
  "segs_ok v4_allowed gs \<longleftrightarrow> gs = [] \<or> (list_all v6_seg (butlast gs) \<and> (v6_seg (last gs) \<or> v4_allowed \<and> is_ipv4 (last gs)))"

definition is_ipv6_body :: "string \<Rightarrow> bool" where
  "is_ipv6_body s = (case split_dcolon s of
     (l, None) \<Rightarrow> segs_ok True (segs l) \<and> seg_count (segs l) = 8
   | (l, Some r) \<Rightarrow> segs_ok False (segs l) \<and> segs_ok True (segs r) \<and> length (segs l) + seg_count (segs r) \<le> 7)"

definition zone_char :: "char \<Rightarrow> bool" where
  "zone_char c \<longleftrightarrow> host_char c \<or> c = CHR '':''"

definition is_ipv6 :: "string \<Rightarrow> bool" where
  "is_ipv6 s \<longleftrightarrow> is_ipv6_body (takeWhile (\<lambda>c. c \<noteq> CHR ''%'') s)
     \<and> (let z = dropWhile (\<lambda>c. c \<noteq> CHR ''%'') s in z = [] \<or> (tl z \<noteq> [] \<and> list_all zone_char (tl z)))"

definition isIP :: "string \<Rightarrow> int" where
  "isIP s = (if is_ipv4 s then 4 else if is_ipv6 s then 6 else 0)"

definition ipv4Int :: "string \<Rightarrow> 32 word option" where
  "ipv4Int address = (case map (\<lambda>p. js_number (JStr p)) (split_on (CHR ''.'') address) of
     [JNum a, JNum b, JNum c, JNum d] \<Rightarrow>
       if list_ex (\<lambda>n. n < 0 \<or> n > 255) [a, b, c, d] then None
       else Some (push_bit 24 (word_of_int a) + push_bit 16 (word_of_int b) + push_bit 8 (word_of_int c) + word_of_int d)
   | _ \<Rightarrow> None)"

definition IPV4_NON_PUBLIC :: "(string \<times> nat) list" where
  "IPV4_NON_PUBLIC = [
     (''0.0.0.0'', 8), (''10.0.0.0'', 8), (''100.64.0.0'', 10), (''127.0.0.0'', 8),
     (''169.254.0.0'', 16), (''172.16.0.0'', 12), (''192.0.0.0'', 24),
     (''192.0.2.0'', 24), (''192.31.196.0'', 24), (''192.52.193.0'', 24),
     (''192.88.99.0'', 24), (''192.168.0.0'', 16), (''192.175.48.0'', 24),
     (''198.18.0.0'', 15), (''198.51.100.0'', 24), (''203.0.113.0'', 24),
     (''224.0.0.0'', 4), (''240.0.0.0'', 4)]"

text \<open>\<open>null >>> shift\<close> is 0.\<close>

definition inIpv4Cidr :: "32 word \<Rightarrow> string \<Rightarrow> nat \<Rightarrow> bool" where
  "inIpv4Cidr value base prefix \<longleftrightarrow>
     drop_bit (32 - prefix) value = drop_bit (32 - prefix) (case ipv4Int base of Some b \<Rightarrow> b | None \<Rightarrow> 0)"

definition nat_hex :: "nat \<Rightarrow> string" where  \<comment> \<open>\<open>toString(16)\<close> below \<open>2\<^sup>1\<^sup>6\<close>\<close>
  "nat_hex n = (let ds = [n div 4096 mod 16, n div 256 mod 16, n div 16 mod 16, n mod 16];
      nz = dropWhile (\<lambda>d. d = 0) ds in map hex_char (if nz = [] then [0] else nz))"

definition v4_tail :: "string \<Rightarrow> string option" where
  \<comment> \<open>\<open>/(\d+\.\d+\.\d+\.\d+)$/\<close> on a well-formed IPv6 address\<close>
  "v4_tail s = (let t = rev (takeWhile (\<lambda>c. is_digit c \<or> c = CHR ''.'') (rev s)) in
     if CHR ''.'' \<in> set t then Some t else None)"

definition v6_words :: "string \<Rightarrow> string list option" where
  "v6_words source = (case split_dcolon source of
     (l, None) \<Rightarrow> if length (segs l) = 8 then Some (segs l) else None
   | (l, Some r) \<Rightarrow> if length (segs l) + length (segs r) < 8
       then Some (segs l @ replicate (8 - length (segs l) - length (segs r)) ''0'' @ segs r) else None)"

definition ipv6BigInt :: "string \<Rightarrow> int option" where
  "ipv6BigInt address = (let source = takeWhile (\<lambda>c. c \<noteq> CHR ''%'') (js_lower address) in
     if isIP source \<noteq> 6 then None
     else Option.bind
       (case v4_tail source of
          None \<Rightarrow> Some source
        | Some t \<Rightarrow> map_option (\<lambda>v4. take (length source - length t) source
             @ nat_hex (unat (drop_bit 16 v4) mod 65536) @ '':'' @ nat_hex (unat v4 mod 65536)) (ipv4Int t))
       (\<lambda>source'. Option.bind (v6_words source') (\<lambda>words.
          if list_all v6_seg words
          then Some (foldl (\<lambda>v w. v * 65536 + int (the (radix_nat 16 w))) 0 words) else None)))"

definition inIpv6Cidr :: "int \<Rightarrow> string \<Rightarrow> nat \<Rightarrow> bool" where
  "inIpv6Cidr value base prefix \<longleftrightarrow> (case ipv6BigInt base of
     Some b \<Rightarrow> value div 2 ^ (128 - prefix) = b div 2 ^ (128 - prefix) | None \<Rightarrow> False)"

definition IPV6_SPECIAL :: "(string \<times> nat) list" where
  "IPV6_SPECIAL = [(''2001::'', 23), (''2001:db8::'', 32), (''2002::'', 16), (''2620:4f:8000::'', 48), (''3fff::'', 20)]"

definition isPublicEgressAddress :: "string \<Rightarrow> bool" where
  "isPublicEgressAddress address =
     (if isIP address = 4 then
        (case ipv4Int address of
           Some v \<Rightarrow> \<not> list_ex (\<lambda>(base, prefix). inIpv4Cidr v base prefix) IPV4_NON_PUBLIC
         | None \<Rightarrow> False)
      else if isIP address = 6 then
        (case ipv6BigInt address of
           Some v \<Rightarrow> inIpv6Cidr v ''2000::'' 3 \<and> \<not> list_ex (\<lambda>(base, prefix). inIpv6Cidr v base prefix) IPV6_SPECIAL
         | None \<Rightarrow> False)
      else False)"

definition privateTargetsAllowed :: "env \<Rightarrow> bool" where
  "privateTargetsAllowed e \<longleftrightarrow> env_val e ''SHADE_TREE_ALLOW_PRIVATE_TARGETS'' = JStr ''1''"

section \<open>Resolution\<close>

record dns_answer =
  an_address :: string
  an_family :: int  \<comment> \<open>0 when missing\<close>

datatype dns_result =
    LookupFailed                        \<comment> \<open>threw, or not an array\<close>
  | LookupTimedOut
  | Answers "dns_answer option list"    \<comment> \<open>\<open>None\<close>: a falsy entry\<close>

datatype resolved =
    Refused string
  | Pinned (rv_host: string) (rv_port: int) (rv_addresses: "(string \<times> int) list")

definition MAX_EGRESS_ADDRESSES :: nat where "MAX_EGRESS_ADDRESSES = 8"

definition answer_ok :: "dns_answer option \<Rightarrow> bool" where
  "answer_ok a = (case a of Some r \<Rightarrow> isIP (an_address r) \<noteq> 0 | None \<Rightarrow> False)"

definition first_occurrences :: "'a list \<Rightarrow> 'a list" where  \<comment> \<open>a \<open>filter\<close> over a \<open>seen\<close> set\<close>
  "first_occurrences l = rev (remdups (rev l))"

definition pinned_addresses :: "dns_answer option list \<Rightarrow> (string \<times> int) list" where
  "pinned_addresses answers = take MAX_EGRESS_ADDRESSES (first_occurrences
     (map (\<lambda>r. (an_address r, if an_family r \<noteq> 0 then an_family r else isIP (an_address r))) (List.map_filter id answers)))"

definition resolveEgressTarget :: "bool \<Rightarrow> dns_result \<Rightarrow> string \<Rightarrow> int \<Rightarrow> resolved" where
  "resolveEgressTarget allowPrivateTargets lookup host port =
     (if isIP host \<noteq> 0 then
        (if \<not> allowPrivateTargets \<and> \<not> isPublicEgressAddress host then Refused ''bad-target-address''
         else Pinned host port [(host, isIP host)])
      else case lookup of
          LookupFailed \<Rightarrow> Refused ''bad-target-dns''
        | LookupTimedOut \<Rightarrow> Refused ''bad-target-dns''
        | Answers answers \<Rightarrow>
            if answers = [] then Refused ''bad-target-dns''
            else if \<not> list_all answer_ok answers
              \<or> (\<not> allowPrivateTargets \<and> list_ex (\<lambda>r. \<not> isPublicEgressAddress (an_address r)) (List.map_filter id answers))
            then Refused ''bad-target-address''
            else Pinned host port (pinned_addresses answers))"

section \<open>Lemmas\<close>

lemma map_filter_id_mem: "x \<in> set (List.map_filter id xs) \<longleftrightarrow> Some x \<in> set xs"
  by (induction xs) (auto simp: List.map_filter_simps split: option.splits)

lemma first_occurrences_set [simp]: "set (first_occurrences l) = set l" "distinct (first_occurrences l)"
  by (simp_all add: first_occurrences_def)

lemma lower_char_dot: "lower_char c = CHR ''.'' \<longleftrightarrow> c = CHR ''.''"
proof
  assume a: "lower_char c = CHR ''.''"
  let ?n = "of_char c :: nat"
  have n: "?n < 256" by simp
  have "\<not> (65 \<le> ?n \<and> ?n \<le> 90 \<or> 192 \<le> ?n \<and> ?n \<le> 222 \<and> ?n \<noteq> 215)"
  proof
    assume u: "65 \<le> ?n \<and> ?n \<le> 90 \<or> 192 \<le> ?n \<and> ?n \<le> 222 \<and> ?n \<noteq> 215"
    with a have "char_of (?n + 32) = CHR ''.''" by (simp add: lower_char_def Let_def)
    then have "(of_char (char_of (?n + 32) :: char) :: nat) = 46" by simp
    with u n show False by auto
  qed
  with a show "c = CHR ''.''" by (simp add: lower_char_def Let_def split: if_split_asm)
qed (simp add: lower_char_def)

definition dotted :: "nat \<Rightarrow> nat \<Rightarrow> nat \<Rightarrow> nat \<Rightarrow> string" where
  "dotted a b c d = nat_dec a @ CHR ''.'' # nat_dec b @ CHR ''.'' # nat_dec c @ CHR ''.'' # nat_dec d"

lemma dot_not_digit: "CHR ''.'' \<notin> set (nat_dec n)"
  using all_digits_nat_dec [of n] by (auto simp: all_digits_def list_all_iff is_digit_def)

lemma split_dotted: "split_on (CHR ''.'') (dotted a b c d) = [nat_dec a, nat_dec b, nat_dec c, nat_dec d]"
  by (simp add: dotted_def split_on_append split_on_single dot_not_digit)

lemma v4_octet_nat_dec: "n < 256 \<Longrightarrow> v4_octet (nat_dec n)"
proof -
  assume n: "n < 256"
  then have "length (nat_dec n) \<le> 3" by (intro length_nat_dec) simp_all
  moreover have "hd (nat_dec n) \<noteq> CHR ''0''" if "length (nat_dec n) > 1"
  proof -
    have "n \<noteq> 0" using that by (intro notI) (simp add: js_simps)
    then show ?thesis by (rule hd_nat_dec)
  qed
  ultimately show ?thesis using n by (simp add: v4_octet_def)
qed

lemma isIP_dotted: "a < 256 \<Longrightarrow> b < 256 \<Longrightarrow> c < 256 \<Longrightarrow> d < 256 \<Longrightarrow> isIP (dotted a b c d) = 4"
  by (simp add: isIP_def is_ipv4_def split_dotted v4_octet_nat_dec)

definition v4_value :: "nat \<Rightarrow> nat \<Rightarrow> nat \<Rightarrow> nat \<Rightarrow> nat" where
  "v4_value a b c d = ((a * 256 + b) * 256 + c) * 256 + d"

lemma ipv4Int_dotted:
  assumes "a < 256" "b < 256" "c < 256" "d < 256"
  shows "ipv4Int (dotted a b c d) = Some (of_nat (v4_value a b c d))"
proof -
  have "push_bit 24 (word_of_int (int a)) + push_bit 16 (word_of_int (int b)) + push_bit 8 (word_of_int (int c)) + word_of_int (int d)
      = (of_nat (v4_value a b c d) :: 32 word)"
    by (simp add: push_bit_eq_mult v4_value_def algebra_simps)
  with assms show ?thesis
    by (simp add: ipv4Int_def split_dotted js_number_digits)
qed

lemma v4_value_less: "a < 256 \<Longrightarrow> b < 256 \<Longrightarrow> c < 256 \<Longrightarrow> d < 256 \<Longrightarrow> v4_value a b c d < 4294967296"
  by (simp add: v4_value_def)

lemma drop_bit_of_nat_eq:
  assumes "v < 4294967296" "w < 4294967296"
  shows "drop_bit k (of_nat v :: 32 word) = drop_bit k (of_nat w) \<longleftrightarrow> v div 2 ^ k = w div 2 ^ k"
proof -
  have "unat (drop_bit k w) = unat w div 2 ^ k" for w :: "32 word"
    by (simp only: unat_drop_bit_eq) (simp add: drop_bit_eq_div)
  moreover have "unat (of_nat v :: 32 word) = v" if "v < 4294967296" for v
    using that by (simp add: unat_of_nat)
  ultimately have "unat (drop_bit k (of_nat v :: 32 word)) = v div 2 ^ k" if "v < 4294967296" for v
    using that by simp
  with assms show ?thesis by (metis word_unat_eq_iff)
qed

lemma inIpv4Cidr_dotted:
  assumes "a < 256" "b < 256" "c < 256" "d < 256" "a' < 256" "b' < 256" "c' < 256" "d' < 256"
  shows "inIpv4Cidr (of_nat (v4_value a b c d)) (dotted a' b' c' d') p
    \<longleftrightarrow> v4_value a b c d div 2 ^ (32 - p) = v4_value a' b' c' d' div 2 ^ (32 - p)"
  using assms by (simp add: inIpv4Cidr_def ipv4Int_dotted drop_bit_of_nat_eq v4_value_less)

text \<open>The table of the source, octet by octet.\<close>

definition special_v4 :: "nat \<Rightarrow> nat \<Rightarrow> nat \<Rightarrow> bool" where
  "special_v4 a b c \<longleftrightarrow> a = 0 \<or> a = 10 \<or> (a = 100 \<and> 64 \<le> b \<and> b < 128) \<or> a = 127
     \<or> (a = 169 \<and> b = 254) \<or> (a = 172 \<and> 16 \<le> b \<and> b < 32)
     \<or> (a = 192 \<and> (b = 168 \<or> (b = 0 \<and> (c = 0 \<or> c = 2)) \<or> (b = 31 \<and> c = 196) \<or> (b = 52 \<and> c = 193) \<or> (b = 88 \<and> c = 99) \<or> (b = 175 \<and> c = 48)))
     \<or> (a = 198 \<and> (b = 18 \<or> b = 19 \<or> (b = 51 \<and> c = 100))) \<or> (a = 203 \<and> b = 0 \<and> c = 113) \<or> 224 \<le> a"

definition non_public_octets :: "(nat \<times> nat \<times> nat \<times> nat) list" where
  "non_public_octets = [(0, 0, 0, 8), (10, 0, 0, 8), (100, 64, 0, 10), (127, 0, 0, 8), (169, 254, 0, 16), (172, 16, 0, 12),
     (192, 0, 0, 24), (192, 0, 2, 24), (192, 31, 196, 24), (192, 52, 193, 24), (192, 88, 99, 24), (192, 168, 0, 16),
     (192, 175, 48, 24), (198, 18, 0, 15), (198, 51, 100, 24), (203, 0, 113, 24), (224, 0, 0, 4), (240, 0, 0, 4)]"

lemma IPV4_NON_PUBLIC_dotted: "IPV4_NON_PUBLIC = map (\<lambda>(a, b, c, p). (dotted a b c 0, p)) non_public_octets"
  by code_simp

lemma v4_prefix:
  assumes "a < 256" "b < 256" "c < 256" "d < 256"
  shows "v4_value a b c d div 16777216 = a"
    and "v4_value a b c d div 65536 = a * 256 + b"
    and "v4_value a b c d div 256 = (a * 256 + b) * 256 + c"
    and "v4_value a b c d div 4194304 = a * 4 + b div 64"
    and "v4_value a b c d div 1048576 = a * 16 + b div 16"
    and "v4_value a b c d div 131072 = a * 128 + b div 2"
    and "v4_value a b c d div 268435456 = a div 16"
  using assms by (simp_all add: v4_value_def)

lemma radix_eq: "b < r \<Longrightarrow> a * r + b = n \<longleftrightarrow> a = n div r \<and> b = n mod r" for a b r n :: nat
  by auto

lemma radix_eq3:
  "b < 256 \<Longrightarrow> c < 256 \<Longrightarrow> 65536 * a + b * 256 + c = n \<longleftrightarrow> a = n div 65536 \<and> b = n div 256 mod 256 \<and> c = n mod 256"
  for a b c n :: nat
proof -
  assume b: "b < 256" "c < 256"
  have "65536 * a + b * 256 + c = n \<longleftrightarrow> (a * 256 + b) * 256 + c = n" by (simp add: algebra_simps)
  also have "\<dots> \<longleftrightarrow> a * 256 + b = n div 256 \<and> c = n mod 256" by (rule radix_eq [OF b(2)])
  also have "\<dots> \<longleftrightarrow> a = n div 256 div 256 \<and> b = n div 256 mod 256 \<and> c = n mod 256"
    using radix_eq [OF b(1), of a "n div 256"] by blast
  finally show ?thesis by (simp add: div_mult2_eq [symmetric])
qed

lemma non_public_octets_special:
  assumes "a < 256" "b < 256" "c < 256" "d < 256"
  shows "list_ex (\<lambda>(a', b', c', p). v4_value a b c d div 2 ^ (32 - p) = v4_value a' b' c' 0 div 2 ^ (32 - p)) non_public_octets
    \<longleftrightarrow> special_v4 a b c"
proof -
  have lt: "b div 64 < 4" "b div 16 < 16" "b div 2 < 128" using assms by auto
  have rng: "b div 64 = Suc 0 \<longleftrightarrow> 64 \<le> b \<and> b < 128" "b div 16 = Suc 0 \<longleftrightarrow> 16 \<le> b \<and> b < 32"
      "b div 2 = 9 \<longleftrightarrow> b = 18 \<or> b = 19" "a div 16 = 14 \<or> a div 16 = 15 \<longleftrightarrow> 224 \<le> a"
    using assms by auto
  have base: "v4_value x y z 0 = ((x * 256 + y) * 256 + z) * 256" for x y z by (simp add: v4_value_def)
  show ?thesis
    using rng(4) by (simp add: non_public_octets_def base v4_prefix [OF assms] radix_eq radix_eq3 assms lt rng(1-3) special_v4_def) argo
qed

lemma isPublic_dotted:
  assumes "a < 256" "b < 256" "c < 256" "d < 256"
  shows "isPublicEgressAddress (dotted a b c d) \<longleftrightarrow> \<not> special_v4 a b c"
proof -
  have "list_ex (\<lambda>(base, prefix). inIpv4Cidr (of_nat (v4_value a b c d)) base prefix) IPV4_NON_PUBLIC
    \<longleftrightarrow> list_ex (\<lambda>(a', b', c', p). inIpv4Cidr (of_nat (v4_value a b c d)) (dotted a' b' c' 0) p) non_public_octets"
    by (simp add: IPV4_NON_PUBLIC_dotted list_ex_iff case_prod_beta)
  also have "\<dots> \<longleftrightarrow> list_ex (\<lambda>(a', b', c', p). v4_value a b c d div 2 ^ (32 - p) = v4_value a' b' c' 0 div 2 ^ (32 - p)) non_public_octets"
    unfolding list_ex_iff
    by (rule bex_cong [OF refl]) (auto simp: non_public_octets_def inIpv4Cidr_dotted assms)
  also have "\<dots> \<longleftrightarrow> special_v4 a b c" by (rule non_public_octets_special [OF assms])
  finally show ?thesis
    using assms by (simp add: isPublicEgressAddress_def isIP_dotted ipv4Int_dotted)
qed

lemma resolve_pinned:
  assumes "resolveEgressTarget False lookup host port = Pinned h p addrs"
  shows "h = host \<and> p = port \<and> addrs \<noteq> [] \<and> length addrs \<le> 8 \<and> distinct addrs
    \<and> (\<forall>(a, f)\<in>set addrs. isIP a \<noteq> 0 \<and> isPublicEgressAddress a)
    \<and> (isIP host = 0 \<longrightarrow> (\<exists>answers. lookup = Answers answers \<and>
         (\<forall>r. r \<in> set answers \<longrightarrow> (\<exists>x. r = Some x \<and> isPublicEgressAddress (an_address x)))))"
proof (cases "isIP host = 0")
  case False
  with assms show ?thesis by (auto simp: resolveEgressTarget_def split: if_split_asm)
next
  case True
  with assms obtain answers where l: "lookup = Answers answers" "answers \<noteq> []" "list_all answer_ok answers"
      "\<not> list_ex (\<lambda>r. \<not> isPublicEgressAddress (an_address r)) (List.map_filter id answers)"
      and p: "h = host" "p = port" "addrs = pinned_addresses answers"
    by (auto simp: resolveEgressTarget_def split: if_split_asm dns_result.splits)
  have all: "\<exists>x. r = Some x \<and> isIP (an_address x) \<noteq> 0 \<and> isPublicEgressAddress (an_address x)" if "r \<in> set answers" for r
    using l(3,4) that by (cases r) (auto simp: list_all_iff list_ex_iff answer_ok_def map_filter_id_mem)
  let ?m = "map (\<lambda>r. (an_address r, if an_family r \<noteq> 0 then an_family r else isIP (an_address r))) (List.map_filter id answers)"
  have mem: "isIP a \<noteq> 0 \<and> isPublicEgressAddress a" if "(a, f) \<in> set (pinned_addresses answers)" for a f
  proof -
    from that have "(a, f) \<in> set ?m" 
      unfolding pinned_addresses_def by (auto dest: in_set_takeD)
    then obtain x where "Some x \<in> set answers" "a = an_address x" by (auto simp: map_filter_id_mem)
    with all show ?thesis by fastforce
  qed
  obtain x where "Some x \<in> set answers" using l(2) all by (cases answers) auto
  then have "?m \<noteq> []" using map_filter_id_mem [of x answers] by auto
  then have "first_occurrences ?m \<noteq> []" by (simp add: first_occurrences_def)
  then have ne: "pinned_addresses answers \<noteq> []" unfolding pinned_addresses_def MAX_EGRESS_ADDRESSES_def by simp
  have d: "distinct (pinned_addresses answers)" "length (pinned_addresses answers) \<le> 8"
    unfolding pinned_addresses_def MAX_EGRESS_ADDRESSES_def by (simp_all add: distinct_take)
  have "\<exists>x. r = Some x \<and> isPublicEgressAddress (an_address x)" if "r \<in> set answers" for r
    using all [OF that] by blast
  with ne d mem l(1) True show ?thesis unfolding p by auto
qed

lemma resolve_pinned_public:
  "resolveEgressTarget False ans h p = Pinned h' p' addrs \<Longrightarrow> a \<in> set addrs \<Longrightarrow> isPublicEgressAddress (fst a)"
  using resolve_pinned [of ans h p h' p' addrs] by (cases a) auto

lemma resolve_pinned_nonempty: "resolveEgressTarget pr ans h p = Pinned h' p' addrs \<Longrightarrow> addrs \<noteq> []"
proof (cases "isIP h = 0")
  case True
  assume "resolveEgressTarget pr ans h p = Pinned h' p' addrs"
  with True obtain answers where a: "answers \<noteq> []" "list_all answer_ok answers" "addrs = pinned_addresses answers"
    by (auto simp: resolveEgressTarget_def split: if_split_asm dns_result.splits)
  then obtain x where "Some x \<in> set answers" by (cases answers; cases "hd answers") (auto simp: answer_ok_def)
  then have "List.map_filter id answers \<noteq> []" using map_filter_id_mem [of x answers] by auto
  with a(3) show ?thesis by (simp add: pinned_addresses_def MAX_EGRESS_ADDRESSES_def first_occurrences_def)
qed (auto simp: resolveEgressTarget_def split: if_split_asm)

section \<open>Properties\<close>

text \<open>
  the IPv4 filter blocks exactly the special-purpose blocks. For every dotted address the word
  arithmetic over the CIDR table decides the same as the octet-wise description of the
  special-purpose ranges (loopback, private, link-local, shared, documentation, benchmarking,
  multicast and reserved space, and the rest of the table).
\<close>

theorem isPublicEgressAddress_v4:
  assumes "a < 256" "b < 256" "c < 256" "d < 256"
  shows "isPublicEgressAddress (dotted a b c d) \<longleftrightarrow> \<not> special_v4 a b c"
  by (rule isPublic_dotted) (use assms in auto)

theorem isPublicEgressAddress_v4_witness:
  "\<not> isPublicEgressAddress (dotted 169 254 169 254) \<and> isPublicEgressAddress (dotted 1 1 1 1)"
  using isPublicEgressAddress_v4 [of 169 254 169 254] isPublicEgressAddress_v4 [of 1 1 1 1]
  by (simp add: special_v4_def)

text \<open>
  C20: only vetted numeric addresses are dialled. Unless private targets are allowed, a resolved
  target carries between one and eight distinct addresses, every one an IP literal that passed the
  public-address check, and every answer of the resolver passed it, whatever the resolver says.
\<close>

theorem resolveEgressTarget_public:
  assumes "resolveEgressTarget False lookup host port = Pinned h p addrs"
  shows "h = host \<and> p = port \<and> addrs \<noteq> [] \<and> length addrs \<le> 8 \<and> distinct addrs
    \<and> (\<forall>(a, f)\<in>set addrs. isIP a \<noteq> 0 \<and> isPublicEgressAddress a)
    \<and> (isIP host = 0 \<longrightarrow> (\<exists>answers. lookup = Answers answers \<and>
         (\<forall>r. r \<in> set answers \<longrightarrow> (\<exists>x. r = Some x \<and> isPublicEgressAddress (an_address x)))))"
  using resolve_pinned [OF assms] .

theorem resolveEgressTarget_public_witness:
  "resolveEgressTarget False (Answers [Some \<lparr>an_address = dotted 93 184 216 34, an_family = 4\<rparr>]) ''example.com'' 443
     = Pinned ''example.com'' 443 [(dotted 93 184 216 34, 4)] \<and> isPublicEgressAddress (dotted 93 184 216 34)"
proof -
  have "isIP ''example.com'' = 0" by code_simp
  moreover have "isPublicEgressAddress (dotted 93 184 216 34)" by (simp add: isPublic_dotted special_v4_def)
  ultimately have r: "resolveEgressTarget False (Answers [Some \<lparr>an_address = dotted 93 184 216 34, an_family = 4\<rparr>]) ''example.com'' 443
     = Pinned ''example.com'' 443 [(dotted 93 184 216 34, 4)]"
    by (simp add: resolveEgressTarget_def answer_ok_def isIP_dotted pinned_addresses_def first_occurrences_def
        List.map_filter_simps MAX_EGRESS_ADDRESSES_def)
  from resolveEgressTarget_public [OF r] r show ?thesis by simp
qed

text \<open>\<open>lastIndexOf\<close> splits at the last colon.\<close>

lemma split_last_Some: "split_last c t = Some (h, ps) \<longleftrightarrow> t = h @ c # ps \<and> c \<notin> set ps"
proof
  assume r: "split_last c t = Some (h, ps)"
  then have mem: "c \<in> set (rev t)" and h: "h = rev (tl (dropWhile (\<lambda>x. x \<noteq> c) (rev t)))"
      and ps: "ps = rev (takeWhile (\<lambda>x. x \<noteq> c) (rev t))"
    by (auto simp: split_last_def split: if_split_asm)
  let ?d = "dropWhile (\<lambda>x. x \<noteq> c) (rev t)"
  from mem have "?d \<noteq> []" by (auto simp: dropWhile_eq_Nil_conv)
  then have "?d = c # tl ?d" using hd_dropWhile [of "\<lambda>x. x \<noteq> c" "rev t"] by (cases ?d) auto
  then have "rev t = takeWhile (\<lambda>x. x \<noteq> c) (rev t) @ c # tl ?d" by (metis takeWhile_dropWhile_id)
  then have "t = rev (takeWhile (\<lambda>x. x \<noteq> c) (rev t) @ c # tl ?d)" by (metis rev_rev_ident)
  moreover have "c \<notin> set ps" using ps set_takeWhileD by fastforce
  ultimately show "t = h @ c # ps \<and> c \<notin> set ps" using h ps by simp
next
  assume a: "t = h @ c # ps \<and> c \<notin> set ps"
  then have "takeWhile (\<lambda>x. x \<noteq> c) (rev ps @ c # rev h) = rev ps" "dropWhile (\<lambda>x. x \<noteq> c) (rev ps @ c # rev h) = c # rev h"
    by (subst takeWhile_append2 dropWhile_append2; auto)+
  with a show "split_last c t = Some (h, ps)" by (simp add: split_last_def)
qed

lemma digits_no_colon: "digits_1_5 ps \<Longrightarrow> CHR '':'' \<notin> set ps"
  by (auto simp: digits_1_5_def all_digits_def list_all_iff is_digit_def)

definition canonical_host :: "string \<Rightarrow> string" where
  "canonical_host h = strip_dot (js_lower h)"

definition host_admitted :: "egress_policy \<Rightarrow> string \<Rightarrow> int \<Rightarrow> bool" where  \<comment> \<open>of a canonical host\<close>
  "host_admitted pol h p \<longleftrightarrow> h \<noteq> [] \<and> hd h \<noteq> CHR ''.'' \<and> \<not> includes_str h ''..''
     \<and> (\<exists>pat\<in>set (pol_allows pol). matchEgressPattern pat h p)
     \<and> \<not> (\<exists>pat\<in>set (pol_denies pol). matchEgressPattern pat h p)"

lemma validTarget_iff:
  "validTarget pol v = Target h p \<longleftrightarrow>
     (\<exists>ps. v = JStr (h @ CHR '':'' # ps) \<and> digits_1_5 ps \<and> p = int (dec_nat ps)) \<and> 1 \<le> p \<and> p \<le> 65535
     \<and> h \<noteq> [] \<and> list_all host_char h \<and> host_admitted pol (canonical_host h) p"
proof
  assume r: "validTarget pol v = Target h p"
  then obtain t ps where v: "v = JStr t" "split_last (CHR '':'') t = Some (h, ps)"
    and rest: "h \<noteq> []" "list_all host_char h" "digits_1_5 ps" "p = int (dec_nat ps)" "1 \<le> p" "p \<le> 65535" "isAllowed pol h p"
    by (auto simp: validTarget_def Let_def split: jsval.splits option.splits if_split_asm)
  then show "(\<exists>ps. v = JStr (h @ CHR '':'' # ps) \<and> digits_1_5 ps \<and> p = int (dec_nat ps)) \<and> 1 \<le> p \<and> p \<le> 65535
     \<and> h \<noteq> [] \<and> list_all host_char h \<and> host_admitted pol (canonical_host h) p"
    by (auto simp: split_last_Some isAllowed_def host_admitted_def canonical_host_def Let_def list_ex_iff)
next
  assume "(\<exists>ps. v = JStr (h @ CHR '':'' # ps) \<and> digits_1_5 ps \<and> p = int (dec_nat ps)) \<and> 1 \<le> p \<and> p \<le> 65535
     \<and> h \<noteq> [] \<and> list_all host_char h \<and> host_admitted pol (canonical_host h) p"
  then obtain ps where v: "v = JStr (h @ CHR '':'' # ps)" "digits_1_5 ps" "p = int (dec_nat ps)" "1 \<le> p" "p \<le> 65535"
      "h \<noteq> []" "list_all host_char h" "host_admitted pol (canonical_host h) p" by blast
  moreover have "split_last (CHR '':'') (h @ CHR '':'' # ps) = Some (h, ps)" using digits_no_colon [OF v(2)] by (simp add: split_last_Some)
  moreover have "isAllowed pol h p" using v by (simp add: isAllowed_def host_admitted_def canonical_host_def Let_def list_ex_iff)
  ultimately show "validTarget pol v = Target h p" by (simp add: validTarget_def Let_def)
qed

lemma host_char_lower: "host_char (lower_char c) = host_char c"
  by (auto simp: host_char_def lower_char_def Let_def)

lemma hosts_lower: "list_all host_char (js_lower h) = list_all host_char h"
  by (simp add: js_lower_def list_all_iff host_char_lower)

lemma canonical_host_dot:
  assumes "h \<noteq> []" "last h \<noteq> CHR ''.''"
  shows "canonical_host (h @ ''.'') = canonical_host h"
proof -
  have "js_lower (h @ ''.'') = js_lower h @ ''.''" by (simp add: js_lower_def lower_char_def)
  moreover have "last (js_lower h) \<noteq> CHR ''.''" using assms lower_char_dot by (simp add: js_lower_def last_map)
  ultimately show ?thesis by (simp add: canonical_host_def strip_dot_def)
qed

text \<open>
  C21: the policy is default-deny and cannot be dodged by spelling. A target is admitted exactly when
  it is a \<open>host:port\<close> string over the host characters, with a port from 1 to 65535, whose canonical
  host (lower case, one trailing dot removed) is not empty, has no empty leading or inner label,
  and matches an allow pattern and no deny pattern at that port. Two hosts that differ only in case
  get the same decision, and so does a host with a dot appended.
\<close>

theorem validTarget_policy:
  "(validTarget pol v = Target h p \<longleftrightarrow>
     (\<exists>ps. v = JStr (h @ CHR '':'' # ps) \<and> digits_1_5 ps \<and> p = int (dec_nat ps)) \<and> 1 \<le> p \<and> p \<le> 65535
     \<and> h \<noteq> [] \<and> list_all host_char h \<and> host_admitted pol (canonical_host h) p)
   \<and> (js_lower h' = js_lower h \<longrightarrow>
       (validTarget pol (JStr (h' @ CHR '':'' # ps)) = Target h' p \<longleftrightarrow> validTarget pol (JStr (h @ CHR '':'' # ps)) = Target h p))
   \<and> (h \<noteq> [] \<and> last h \<noteq> CHR ''.'' \<longrightarrow>
       (validTarget pol (JStr ((h @ ''.'') @ CHR '':'' # ps)) = Target (h @ ''.'') p \<longleftrightarrow>
        validTarget pol (JStr (h @ CHR '':'' # ps)) = Target h p))"
proof (intro conjI impI)
  assume same: "js_lower h' = js_lower h"
  then have "h' = [] \<longleftrightarrow> h = []" by (auto simp: js_lower_def)
  moreover have "list_all host_char h' = list_all host_char h" using hosts_lower [of h] hosts_lower [of h'] same by simp
  moreover have "canonical_host h' = canonical_host h" by (simp add: canonical_host_def same)
  ultimately show "validTarget pol (JStr (h' @ CHR '':'' # ps)) = Target h' p \<longleftrightarrow> validTarget pol (JStr (h @ CHR '':'' # ps)) = Target h p"
    unfolding validTarget_iff by simp
next
  assume "h \<noteq> [] \<and> last h \<noteq> CHR ''.''"
  moreover have "host_char (CHR ''.'')" by (simp add: host_char_def)
  ultimately show "validTarget pol (JStr ((h @ ''.'') @ CHR '':'' # ps)) = Target (h @ ''.'') p \<longleftrightarrow>
        validTarget pol (JStr (h @ CHR '':'' # ps)) = Target h p"
    unfolding validTarget_iff by (simp add: canonical_host_dot)
qed (rule validTarget_iff)

theorem validTarget_policy_witness:
  "validTarget (makeEgressPolicy None (Some ''*.evil.com:443'')) (JStr ''Example.com:443'') = Target ''Example.com'' 443
   \<and> validTarget (makeEgressPolicy None (Some ''*.evil.com:443'')) (JStr ''eXaMPLE.com:443'') = Target ''eXaMPLE.com'' 443
   \<and> validTarget (makeEgressPolicy None (Some ''*.evil.com:443'')) (JStr ''Example.com.:443'') = Target ''Example.com.'' 443
   \<and> validTarget (makeEgressPolicy None (Some ''*.evil.com:443'')) (JStr ''Sub.EVIL.com.:443'') \<noteq> Target ''Sub.EVIL.com.'' 443"
proof -
  let ?pol = "makeEgressPolicy None (Some ''*.evil.com:443'')"
  have r: "validTarget ?pol (JStr ''Example.com:443'') = Target ''Example.com'' 443" by code_simp
  have bad: "validTarget ?pol (JStr ''Sub.EVIL.com:443'') \<noteq> Target ''Sub.EVIL.com'' 443" by code_simp
  have low: "js_lower ''eXaMPLE.com'' = js_lower ''Example.com''" by code_simp
  from validTarget_policy [of ?pol "JStr []" "''Example.com''" 443 "''eXaMPLE.com''" "''443''"] r low
    validTarget_policy [of ?pol "JStr []" "''Sub.EVIL.com''" 443 "[]" "''443''"] bad
  show ?thesis by simp
qed

end
