(* ===== verification/Ttl.thy ===== *)
theory Ttl
  imports Prelude
begin

text \<open>
  The contract every time-bounded store of the gateway shares (the spent set, its envelope cache,
  the payload budget, the fleet tally): a sweep with a cutoff removes exactly the expired entries
  and touches no other.
\<close>

locale ttl_store =
  fixes lookup :: "'st \<Rightarrow> 'k \<Rightarrow> 'v option"
    and sweep :: "int \<Rightarrow> 'st \<Rightarrow> 'st"
    and expired :: "int \<Rightarrow> 'v \<Rightarrow> bool"
    and wf :: "'st \<Rightarrow> bool"
  assumes sweep_lookup: "wf st \<Longrightarrow> lookup (sweep c st) k =
      (case lookup st k of Some v \<Rightarrow> if expired c v then None else Some v | None \<Rightarrow> None)"
    and sweep_wf: "wf st \<Longrightarrow> wf (sweep c st)"
    and expired_mono: "c \<le> c' \<Longrightarrow> expired c v \<Longrightarrow> expired c' v"
begin

lemma sweep_keeps: "wf st \<Longrightarrow> lookup st k = Some v \<Longrightarrow> \<not> expired c v \<Longrightarrow> lookup (sweep c st) k = Some v"
  by (simp add: sweep_lookup)

lemma sweep_adds_nothing: "wf st \<Longrightarrow> lookup (sweep c st) k = Some v \<Longrightarrow> lookup st k = Some v \<and> \<not> expired c v"
  by (auto simp: sweep_lookup split: option.splits if_splits)

lemma sweep_sweep: "wf st \<Longrightarrow> c \<le> c' \<Longrightarrow> lookup (sweep c' (sweep c st)) k = lookup (sweep c' st) k"
  by (auto simp: sweep_lookup sweep_wf dest: expired_mono split: option.splits)

lemma sweep_idem: "wf st \<Longrightarrow> lookup (sweep c (sweep c st)) k = lookup (sweep c st) k"
  by (rule sweep_sweep) simp_all

end

text \<open>Evicting by predicate from an insertion-ordered map satisfies the contract.\<close>

lemma ttl_store_evict:
  assumes "\<And>c c' v. c \<le> c' \<Longrightarrow> p c v \<Longrightarrow> p c' v"
  shows "ttl_store map_of (\<lambda>c. jmap_evict (\<lambda>_. p c)) p jmap_wf"
  using assms by unfold_locales (simp_all add: map_of_evict)

end
