(* ===== verification/FleetTally.thy ===== *)
theory FleetTally
  imports Ttl Rln_Field
begin

text \<open>
  The shared spent-nullifier tally of \<^verbatim>\<open>src/gateway/fleet-tally.mjs\<close>: the canonical wire
  encoding, the bounded per-epoch buckets of \<open>makeFleetTally\<close>, the in-process loopback transport,
  the HTTP push transport (inbound request handler, outbound pushes with their in-flight caps,
  peer list) and the configuration entry point.

  A bucket's \<open>Set\<close> is a duplicate-free list. The clock is an argument: the two reads of
  \<open>now()\<close> inside one synchronous \<open>ingest\<close> are the same instant.
\<close>

section \<open>Wire encoding and validators\<close>

definition canonical_dec_re :: "string \<Rightarrow> bool" where  \<comment> \<open>\<open>/^(?:0|[1-9][0-9]{0,76})$/\<close>\<close>
  "canonical_dec_re s \<longleftrightarrow> s = ''0'' \<or>
     (s \<noteq> [] \<and> is_digit (hd s) \<and> hd s \<noteq> CHR ''0'' \<and> list_all is_digit (tl s) \<and> length (tl s) \<le> 76)"

definition canonicalTallyField :: "jsval \<Rightarrow> string option" where
  "canonicalTallyField value = (case value of
     JStr s \<Rightarrow> if \<not> canonical_dec_re s then None
       else (case bigint_of_string s of Some n \<Rightarrow> if n < FIELD then Some s else None | None \<Rightarrow> None)
   | _ \<Rightarrow> None)"

definition positiveInt :: "jsval \<Rightarrow> int \<Rightarrow> int \<Rightarrow> int \<Rightarrow> int" where
  "positiveInt value fallback mn mx = (case js_number value of
     JNum n \<Rightarrow> if is_safe_integer (JNum n) \<and> n \<ge> mn \<and> n \<le> mx then n else fallback
   | _ \<Rightarrow> fallback)"

definition printable_char :: "char \<Rightarrow> bool" where  \<comment> \<open>\<open>[\x21-\x7e]\<close>\<close>
  "printable_char c \<longleftrightarrow> 0x21 \<le> (of_char c :: nat) \<and> (of_char c :: nat) \<le> 0x7e"

definition validTallyToken :: "jsval \<Rightarrow> bool" where
  "validTallyToken value = (case value of
     JStr s \<Rightarrow> length s \<ge> 32 \<and> length s \<le> 256 \<and> list_all printable_char s
   | _ \<Rightarrow> False)"

definition bearerMatches :: "jsval \<Rightarrow> jsval \<Rightarrow> bool" where
  "bearerMatches header token = (case (header, token) of
     (JStr h, JStr t) \<Rightarrow> validTallyToken token \<and> h = ''Bearer '' @ t
   | _ \<Rightarrow> False)"

definition is_alpha :: "char \<Rightarrow> bool" where
  "is_alpha c \<longleftrightarrow> (let n = (of_char c :: nat) in 65 \<le> n \<and> n \<le> 90 \<or> 97 \<le> n \<and> n \<le> 122)"

definition url_scheme_re :: "string \<Rightarrow> bool" where  \<comment> \<open>\<open>/^[A-Za-z][A-Za-z0-9+.-]*:\/\//\<close>\<close>
  "url_scheme_re s \<longleftrightarrow> s \<noteq> [] \<and> is_alpha (hd s)
     \<and> starts_with (dropWhile (\<lambda>c. is_alpha c \<or> is_digit c \<or> c \<in> set ''+.-'') s) ''://''"

definition validPeer :: "jsval \<Rightarrow> bool" where
  "validPeer peer = (case peer of
     JStr s \<Rightarrow> length s \<ge> 1 \<and> length s \<le> 320 \<and> \<not> list_ex is_space s \<and> \<not> url_scheme_re s
   | _ \<Rightarrow> False)"

section \<open>The tally\<close>

record bucket =
  bset :: "string list"
  bat :: int

record tally =
  tally_ttl :: int
  maxPerEpoch :: int
  maxEpochBuckets :: int
  maxTotal :: int
  buckets :: "(string, bucket) jmap"
  total :: int

definition DEFAULT_MAX_PER_EPOCH :: int where "DEFAULT_MAX_PER_EPOCH = 50000"
definition DEFAULT_MAX_EPOCH_BUCKETS :: int where "DEFAULT_MAX_EPOCH_BUCKETS = 4"
definition DEFAULT_MAX_TOTAL :: int where "DEFAULT_MAX_TOTAL = 100000"

text \<open>\<open>makeFleetTally\<close>: the argument record with a default TTL (two epochs, which depends on the
  configured epoch length) and the clamps; subscribing is \<open>fleet\<close> membership below.\<close>

definition makeFleetTally :: "int \<Rightarrow> jsval \<Rightarrow> jsval \<Rightarrow> jsval \<Rightarrow> jsval \<Rightarrow> tally" where
  "makeFleetTally default_ttl ttl per_epoch epochs tot =
     \<lparr>tally_ttl = positiveInt ttl default_ttl 1 (7 * 24 * 60 * 60 * 1000),
      maxPerEpoch = positiveInt per_epoch DEFAULT_MAX_PER_EPOCH 1 200000,
      maxEpochBuckets = positiveInt epochs DEFAULT_MAX_EPOCH_BUCKETS 1 16,
      maxTotal = positiveInt tot DEFAULT_MAX_TOTAL 1 500000,
      buckets = [], total = 0\<rparr>"

definition old_bucket :: "int \<Rightarrow> bucket \<Rightarrow> bool" where
  "old_bucket cutoff b \<longleftrightarrow> bat b < cutoff"

definition bucket_sizes :: "(string, bucket) jmap \<Rightarrow> int" where
  "bucket_sizes m = sum_list (map (\<lambda>(k, b). int (length (bset b))) m)"

definition tally_prune :: "int \<Rightarrow> tally \<Rightarrow> tally" where
  "tally_prune now t = (let cutoff = now - tally_ttl t in
     t\<lparr>total := total t - bucket_sizes (filter (\<lambda>(k, b). old_bucket cutoff b) (buckets t)),
       buckets := jmap_evict (\<lambda>_. old_bucket cutoff) (buckets t)\<rparr>)"

definition bucket_add :: "string \<Rightarrow> string \<Rightarrow> bucket \<Rightarrow> tally \<Rightarrow> bool \<times> tally" where
  "bucket_add n k b t =
     (if n \<in> set (bset b) then (True, t)
      else if int (length (bset b)) \<ge> maxPerEpoch t \<or> total t \<ge> maxTotal t then (False, t)
      else (True, t\<lparr>buckets := AList.update k (b\<lparr>bset := n # bset b\<rparr>) (buckets t), total := total t + 1\<rparr>))"

definition ingest :: "int \<Rightarrow> jsval \<Rightarrow> jsval \<Rightarrow> tally \<Rightarrow> bool \<times> tally" where
  "ingest now nullifier ep t = (case (canonicalTallyField nullifier, canonicalTallyField ep) of
     (Some n, Some k) \<Rightarrow>
       (let t1 = tally_prune now t in
        (case map_of (buckets t1) k of
           Some b \<Rightarrow> bucket_add n k b t1
         | None \<Rightarrow>
             if int (length (buckets t1)) \<ge> maxEpochBuckets t1 \<or> total t1 \<ge> maxTotal t1 then (False, t1)
             else (let b = \<lparr>bset = [], bat = now\<rparr>
                   in bucket_add n k b (t1\<lparr>buckets := AList.update k b (buckets t1)\<rparr>))))
   | _ \<Rightarrow> (False, t))"

definition tally_has :: "int \<Rightarrow> jsval \<Rightarrow> jsval \<Rightarrow> tally \<Rightarrow> bool \<times> tally" where  \<comment> \<open>\<open>has\<close>\<close>
  "tally_has now nullifier ep t = (let t1 = tally_prune now t in
     (case (canonicalTallyField nullifier, canonicalTallyField ep) of
        (Some n, Some k) \<Rightarrow> (case map_of (buckets t1) k of Some b \<Rightarrow> n \<in> set (bset b) | None \<Rightarrow> False)
      | _ \<Rightarrow> False, t1))"

text \<open>\<open>record\<close>: the new tally and what is handed to \<open>transport.publish\<close>.\<close>

definition tally_record :: "int \<Rightarrow> jsval \<Rightarrow> jsval \<Rightarrow> tally \<Rightarrow> (string \<times> string) option \<times> tally" where
  "tally_record now nullifier ep t = (case (canonicalTallyField nullifier, canonicalTallyField ep) of
     (Some n, Some k) \<Rightarrow> (Some (n, k), snd (ingest now (JStr n) (JStr k) t))
   | _ \<Rightarrow> (None, t))"

text \<open>
  Gateways sharing one \<open>makeLoopbackTransport\<close>: a list of tallies, each with the flag that it is
  still subscribed. \<open>publish\<close> delivers to every subscriber, the publisher included.
\<close>

type_synonym fleet = "(bool \<times> tally) list"

definition loopback_publish :: "int \<Rightarrow> string \<times> string \<Rightarrow> fleet \<Rightarrow> fleet" where
  "loopback_publish now msg fl =
     map (\<lambda>(subscribed, t). (subscribed,
       if subscribed then snd (ingest now (JStr (fst msg)) (JStr (snd msg)) t) else t)) fl"

definition fleet_record :: "int \<Rightarrow> nat \<Rightarrow> jsval \<Rightarrow> jsval \<Rightarrow> fleet \<Rightarrow> fleet" where
  "fleet_record now i nullifier ep fl =
     (if i < length fl then
        (let (msg, t) = tally_record now nullifier ep (snd (fl ! i));
             fl1 = fl[i := (fst (fl ! i), t)]
         in (case msg of Some m \<Rightarrow> loopback_publish now m fl1 | None \<Rightarrow> fl1))
      else fl)"

definition fleet_close :: "nat \<Rightarrow> fleet \<Rightarrow> fleet" where  \<comment> \<open>\<open>close()\<close> unsubscribes\<close>
  "fleet_close i fl = (if i < length fl then fl[i := (False, snd (fl ! i))] else fl)"

section \<open>The HTTP push transport\<close>

definition MAX_PEERS :: nat where "MAX_PEERS = 64"
definition MAX_IN_FLIGHT_PER_PEER :: int where "MAX_IN_FLIGHT_PER_PEER = 4"
definition MAX_IN_FLIGHT_TOTAL :: int where "MAX_IN_FLIGHT_TOTAL = 128"
definition DEFAULT_WIRE_MAX_BYTES :: int where "DEFAULT_WIRE_MAX_BYTES = 8 * 1024"

text \<open>
  \<open>subs\<close> holds the subscriber tokens; the callbacks are the tallies of the fleet. \<open>timeouts\<close>
  are the clamped server timeouts (request, headers, keep-alive, connection check).
\<close>

record http_transport =
  tt_path :: string
  tt_token :: string
  tt_timeoutMs :: int
  tt_maxBytes :: int
  tt_timeouts :: "int \<times> int \<times> int \<times> int"
  tt_maxConnections :: int
  tt_subs :: "nat list"
  peerList :: "string list"
  inFlightByPeer :: "(string, int) jmap"
  saturatedPeers :: "string list"
  inFlightTotal :: int
  tt_closed :: bool

definition path_re :: "string \<Rightarrow> bool" where  \<comment> \<open>\<open>/^\/[A-Za-z0-9/_-]{0,127}$/\<close>\<close>
  "path_re s \<longleftrightarrow> s \<noteq> [] \<and> hd s = CHR ''/'' \<and> length (tl s) \<le> 127
     \<and> list_all (\<lambda>c. is_alpha c \<or> is_digit c \<or> c \<in> set ''/_-'') (tl s)"

record tally_opts =
  o_peers :: jsval
  o_path :: jsval
  o_token :: jsval
  o_timeoutMs :: jsval
  o_maxBytes :: jsval
  o_headersTimeoutMs :: jsval
  o_requestTimeoutMs :: jsval
  o_keepAliveTimeoutMs :: jsval
  o_connectionCheckMs :: jsval
  o_maxConnections :: jsval

definition default_opts :: tally_opts where
  "default_opts = \<lparr>o_peers = JArr [], o_path = JStr ''/fleet-tally'', o_token = JUndef, o_timeoutMs = JNum 4000,
     o_maxBytes = JNum DEFAULT_WIRE_MAX_BYTES, o_headersTimeoutMs = JNum 10000, o_requestTimeoutMs = JNum 30000,
     o_keepAliveTimeoutMs = JNum 5000, o_connectionCheckMs = JNum 1000, o_maxConnections = JNum 256\<rparr>"

fun str_of :: "jsval \<Rightarrow> string" where
  "str_of (JStr s) = s"
| "str_of _ = []"

definition makeHttpTallyTransport :: "int \<Rightarrow> tally_opts \<Rightarrow> http_transport res" where
  "makeHttpTallyTransport default_timeout o' =
     (if \<not> validTallyToken (o_token o')
      then Inl (Error ''makeHttpTallyTransport: authToken must be 32..256 printable non-space characters'')
      else case o_peers o' of
        JArr peers \<Rightarrow>
          if length peers > MAX_PEERS
          then Inl (Error ''makeHttpTallyTransport: peers must contain at most 64 entries'')
          else if list_ex (\<lambda>p. \<not> validPeer p) peers then Inl (Error ''makeHttpTallyTransport: invalid peer'')
          else (case o_path o' of
              JStr path \<Rightarrow>
                if \<not> path_re path then Inl (Error ''makeHttpTallyTransport: invalid path'')
                else (let req = positiveInt (o_requestTimeoutMs o') 30000 100 120000 in
                  Inr \<lparr>tt_path = path, tt_token = str_of (o_token o'),
                    tt_timeoutMs = positiveInt (o_timeoutMs o') default_timeout 1 60000,
                    tt_maxBytes = positiveInt (o_maxBytes o') DEFAULT_WIRE_MAX_BYTES 128 (64 * 1024),
                    tt_timeouts = (req, positiveInt (o_headersTimeoutMs o') 10000 100 req,
                      positiveInt (o_keepAliveTimeoutMs o') 5000 100 60000,
                      positiveInt (o_connectionCheckMs o') 1000 10 10000),
                    tt_maxConnections = positiveInt (o_maxConnections o') 256 1 4096,
                    tt_subs = [], peerList = rev (remdups (rev (map str_of peers))),
                    inFlightByPeer = [], saturatedPeers = [], inFlightTotal = 0, tt_closed = False\<rparr>)
            | _ \<Rightarrow> Inl (Error ''makeHttpTallyTransport: invalid path''))
      | _ \<Rightarrow> Inl (Error ''makeHttpTallyTransport: peers must contain at most 64 entries''))"

text \<open>
  One inbound request: method, URL, the authorization header, the declared content length and the
  body as it arrived. The result is the status code and the announcement handed to \<open>deliver\<close>.
  \<open>JSON.parse\<close> is the argument \<open>json_parse\<close>.
\<close>

record http_request =
  rq_method :: string
  rq_url :: string
  rq_auth :: jsval
  rq_length :: "int option"
  rq_body :: string

definition tally_request ::
  "(string \<Rightarrow> jsval option) \<Rightarrow> http_request \<Rightarrow> http_transport \<Rightarrow> int \<times> (string \<times> string) option" where
  "tally_request json_parse rq tt =
     (if tt_closed tt then (503, None)
      else if rq_method rq \<noteq> ''POST'' \<or> hd (split_on (CHR ''?'') (rq_url rq)) \<noteq> tt_path tt then (404, None)
      else if \<not> bearerMatches (rq_auth rq) (JStr (tt_token tt)) then (401, None)
      else if (case rq_length rq of Some n \<Rightarrow> n > tt_maxBytes tt | None \<Rightarrow> False) then (413, None)
      else if int (length (rq_body rq)) > tt_maxBytes tt then (413, None)
      else case json_parse (rq_body rq) of
          None \<Rightarrow> (400, None)
        | Some msg \<Rightarrow>
            (case (canonicalTallyField (getp msg ''nullifier''), canonicalTallyField (getp msg ''epoch'')) of
               (Some n, Some e) \<Rightarrow> (200, Some (n, e))
             | _ \<Rightarrow> (400, None)))"

definition peer_pending :: "http_transport \<Rightarrow> string \<Rightarrow> int" where
  "peer_pending tt p = (case map_of (inFlightByPeer tt) p of Some c \<Rightarrow> c | None \<Rightarrow> 0)"

text \<open>\<open>publish\<close>: the pushes it starts, as (peer, (nullifier, epoch)), and the new state.\<close>

fun push_all :: "string list \<Rightarrow> string \<times> string \<Rightarrow> http_transport \<Rightarrow> (string \<times> (string \<times> string)) list \<times> http_transport" where
  "push_all [] body tt = ([], tt)"
| "push_all (p # ps) body tt =
     (if peer_pending tt p \<ge> MAX_IN_FLIGHT_PER_PEER \<or> inFlightTotal tt \<ge> MAX_IN_FLIGHT_TOTAL
      then push_all ps body (if p \<in> set (saturatedPeers tt) then tt else tt\<lparr>saturatedPeers := p # saturatedPeers tt\<rparr>)
      else (let (posts, tt') = push_all ps body
              (tt\<lparr>inFlightByPeer := AList.update p (peer_pending tt p + 1) (inFlightByPeer tt),
                  inFlightTotal := inFlightTotal tt + 1\<rparr>)
            in ((p, body) # posts, tt')))"

definition http_publish :: "jsval \<Rightarrow> jsval \<Rightarrow> http_transport \<Rightarrow> (string \<times> (string \<times> string)) list \<times> http_transport" where
  "http_publish nullifier ep tt =
     (if tt_closed tt then ([], tt)
      else case (canonicalTallyField nullifier, canonicalTallyField ep) of
          (Some n, Some e) \<Rightarrow> push_all (peerList tt) (n, e) tt
        | _ \<Rightarrow> ([], tt))"

text \<open>The \<open>finally\<close> of one push, whether it succeeded or failed.\<close>

definition push_settled :: "string \<Rightarrow> http_transport \<Rightarrow> http_transport" where
  "push_settled p tt =
     (let pend = (case map_of (inFlightByPeer tt) p of Some c \<Rightarrow> if c = 0 then 1 else c | None \<Rightarrow> 1);
          left = max 0 (pend - 1); tot = max 0 (inFlightTotal tt - 1) in
      tt\<lparr>inFlightByPeer := (if left \<noteq> 0 then AList.update p left (inFlightByPeer tt)
                              else AList.delete p (inFlightByPeer tt)),
         inFlightTotal := tot,
         saturatedPeers := (if left < MAX_IN_FLIGHT_PER_PEER \<and> tot < MAX_IN_FLIGHT_TOTAL
                            then removeAll p (saturatedPeers tt) else saturatedPeers tt)\<rparr>)"

definition addPeer :: "jsval \<Rightarrow> http_transport \<Rightarrow> bool \<times> http_transport" where
  "addPeer peer tt =
     (if tt_closed tt \<or> \<not> validPeer peer then (False, tt)
      else if str_of peer \<in> set (peerList tt) then (True, tt)
      else if length (peerList tt) \<ge> MAX_PEERS then (False, tt)
      else (True, tt\<lparr>peerList := peerList tt @ [str_of peer]\<rparr>))"

definition http_subscribe :: "nat \<Rightarrow> http_transport \<Rightarrow> http_transport" where
  "http_subscribe s tt = tt\<lparr>tt_subs := (if s \<in> set (tt_subs tt) then tt_subs tt else tt_subs tt @ [s])\<rparr>"

definition http_unsubscribe :: "nat \<Rightarrow> http_transport \<Rightarrow> http_transport" where
  "http_unsubscribe s tt = tt\<lparr>tt_subs := removeAll s (tt_subs tt)\<rparr>"

definition http_close :: "http_transport \<Rightarrow> http_transport" where
  "http_close tt = (if tt_closed tt then tt else tt\<lparr>tt_closed := True, tt_subs := [], peerList := []\<rparr>)"

text \<open>Where a push goes: \<open>.onion\<close> over Tor, anything else plain HTTP to host and port.\<close>

datatype route = TorPost string jsval | PlainPost string jsval | RouteThrows

definition onion_re :: "string \<Rightarrow> bool" where  \<comment> \<open>\<open>/\.onion(:\d+)?$/\<close>\<close>
  "onion_re p \<longleftrightarrow> ends_with p ''.onion''
     \<or> (takeWhile is_digit (rev p) \<noteq> [] \<and> ends_with (rev (dropWhile is_digit (rev p))) ''.onion:'')"

definition onion_split :: "string \<Rightarrow> (string \<times> string option) option" where
  \<comment> \<open>\<open>/^(.+\.onion)(?::(\d+))?$/\<close>\<close>
  "onion_split p = (let ds = rev (takeWhile is_digit (rev p)); r = rev (dropWhile is_digit (rev p)) in
     if ds \<noteq> [] \<and> ends_with r '':'' \<and> ends_with (butlast r) ''.onion'' \<and> length (butlast r) > 6
     then Some (butlast r, Some ds)
     else if ends_with p ''.onion'' \<and> length p > 6 then Some (p, None) else None)"

definition defaultPost :: "string \<Rightarrow> route" where
  "defaultPost peer = (let p = js_trim peer in
     if onion_re p then (case onion_split p of
       Some (onion, prt) \<Rightarrow> TorPost onion (js_number (case prt of Some d \<Rightarrow> JStr d | None \<Rightarrow> JNum 80))
     | None \<Rightarrow> RouteThrows)
     else (let parts = split_on (CHR '':'') p; host = hd parts;
              portStr = (if length parts > 1 then JStr (parts ! 1) else JUndef) in
          PlainPost (if host = [] then ''127.0.0.1'' else host) (js_or (js_number portStr) (JNum 80))))"

definition parseListen :: "jsval \<Rightarrow> string \<times> jsval" where
  "parseListen raw = (let s = js_trim (js_string (js_or raw (JStr []))) in
     if s = [] then (''127.0.0.1'', JNum 0)
     else if CHR '':'' \<in> set s then
       (let parts = split_on (CHR '':'') s; h = hd parts in
        (if h = [] then ''127.0.0.1'' else h, js_or (js_number (JStr (parts ! 1))) (JNum 0)))
     else (''127.0.0.1'', js_or (js_number (JStr s)) (JNum 0)))"

text \<open>\<open>makeConfiguredFleetTally\<close> without an injected transport: \<open>None\<close> keeps the gateway on its
  local defence.\<close>

definition tally_peers :: "env \<Rightarrow> string list" where
  "tally_peers e = filter (\<lambda>s. s \<noteq> []) (map js_trim (split_on (CHR '','')
     (js_string (js_or (env_val e ''SHADE_TREE_FLEET_TALLY_PEERS'') (JStr [])))))"

definition makeConfiguredFleetTally :: "int \<Rightarrow> int \<Rightarrow> env \<Rightarrow> ((string \<times> jsval) \<times> http_transport \<times> tally) option" where
  "makeConfiguredFleetTally default_ttl push_default e =
     (let peers = tally_peers e in
      if peers = [] then None
      else if length peers > MAX_PEERS then None
      else if \<not> validTallyToken (env_val e ''SHADE_TREE_FLEET_TALLY_TOKEN'') then None
      else (let path = js_or (env_val e ''SHADE_TREE_FLEET_TALLY_PATH'') (JStr ''/fleet-tally'');
                timeoutMs = positiveInt (env_val e ''SHADE_TREE_FLEET_TALLY_TIMEOUT_MS'') push_default 1 60000;
                perEpoch = positiveInt (env_val e ''SHADE_TREE_FLEET_TALLY_MAX_PER_EPOCH'') DEFAULT_MAX_PER_EPOCH 1 200000;
                epochs = positiveInt (env_val e ''SHADE_TREE_FLEET_TALLY_MAX_EPOCHS'') DEFAULT_MAX_EPOCH_BUCKETS 1 16;
                tot = positiveInt (env_val e ''SHADE_TREE_FLEET_TALLY_MAX_TOTAL'') DEFAULT_MAX_TOTAL 1 500000 in
        case makeHttpTallyTransport push_default (default_opts\<lparr>o_peers := JArr (map JStr peers), o_path := path,
               o_token := env_val e ''SHADE_TREE_FLEET_TALLY_TOKEN'', o_timeoutMs := JNum timeoutMs\<rparr>) of
          Inl _ \<Rightarrow> None
        | Inr tt \<Rightarrow> Some (parseListen (env_val e ''SHADE_TREE_FLEET_TALLY_LISTEN''), tt,
            makeFleetTally default_ttl (JNum default_ttl) (JNum perEpoch) (JNum epochs) (JNum tot))))"

section \<open>Invariant\<close>

definition tally_inv :: "tally \<Rightarrow> bool" where
  "tally_inv t \<longleftrightarrow> jmap_wf (buckets t) \<and> total t = bucket_sizes (buckets t)
     \<and> (\<forall>(k, b)\<in>set (buckets t). distinct (bset b) \<and> int (length (bset b)) \<le> maxPerEpoch t)
     \<and> int (length (buckets t)) \<le> maxEpochBuckets t \<and> total t \<le> maxTotal t
     \<and> 1 \<le> maxPerEpoch t \<and> 1 \<le> maxEpochBuckets t \<and> 1 \<le> maxTotal t"

definition tally_caps :: "tally \<Rightarrow> int \<times> int \<times> int \<times> int" where
  "tally_caps t = (tally_ttl t, maxPerEpoch t, maxEpochBuckets t, maxTotal t)"

lemma positiveInt_range: "mn \<le> fallback \<Longrightarrow> fallback \<le> mx \<Longrightarrow> mn \<le> positiveInt v fallback mn mx \<and> positiveInt v fallback mn mx \<le> mx"
  by (auto simp: positiveInt_def split: jsval.splits)

lemma bucket_sizes_simps [simp]:
  "bucket_sizes [] = 0" "bucket_sizes (kb # m) = int (length (bset (snd kb))) + bucket_sizes m"
  by (simp_all add: bucket_sizes_def case_prod_beta)

lemma bucket_sizes_nonneg [simp]: "0 \<le> bucket_sizes m"
  by (induction m) auto

lemma bucket_sizes_filter:
  "bucket_sizes m - bucket_sizes (filter (\<lambda>(k, b). p b) m) = bucket_sizes (jmap_evict (\<lambda>_. p) m)"
  by (induction m) (auto simp: jmap_evict_def)

lemma bucket_sizes_evict_le: "bucket_sizes (jmap_evict p m) \<le> bucket_sizes m"
  by (induction m) (auto simp: jmap_evict_def)

lemma bucket_sizes_update:
  "jmap_wf m \<Longrightarrow> bucket_sizes (AList.update k b m) = bucket_sizes m + int (length (bset b))
     - (case map_of m k of Some b0 \<Rightarrow> int (length (bset b0)) | None \<Rightarrow> 0)"
  by (induction m) (auto split: option.splits simp del: map_of_eq_Some_iff)

lemma tally_inv_make: "1 \<le> d \<Longrightarrow> tally_inv (makeFleetTally d a b c e)"
  using positiveInt_range [of 1 DEFAULT_MAX_PER_EPOCH 200000 b]
    positiveInt_range [of 1 DEFAULT_MAX_EPOCH_BUCKETS 16 c] positiveInt_range [of 1 DEFAULT_MAX_TOTAL 500000 e]
  by (simp add: tally_inv_def makeFleetTally_def DEFAULT_MAX_PER_EPOCH_def DEFAULT_MAX_EPOCH_BUCKETS_def
      DEFAULT_MAX_TOTAL_def)

lemma tally_prune_sel [simp]:
  "buckets (tally_prune now t) = jmap_evict (\<lambda>_. old_bucket (now - tally_ttl t)) (buckets t)"
  "tally_caps (tally_prune now t) = tally_caps t" "maxPerEpoch (tally_prune now t) = maxPerEpoch t"
  "maxEpochBuckets (tally_prune now t) = maxEpochBuckets t" "maxTotal (tally_prune now t) = maxTotal t"
  "tally_ttl (tally_prune now t) = tally_ttl t"
  "total (tally_prune now t) = total t - bucket_sizes (filter (\<lambda>(k, b). old_bucket (now - tally_ttl t) b) (buckets t))"
  by (simp_all add: tally_prune_def Let_def tally_caps_def)

lemma tally_inv_prune [inv_intros]:
  assumes "tally_inv t" shows "tally_inv (tally_prune now t)"
proof -
  let ?p = "old_bucket (now - tally_ttl t)"
  have "total (tally_prune now t) = bucket_sizes (jmap_evict (\<lambda>_. ?p) (buckets t))"
    using assms by (simp add: tally_inv_def bucket_sizes_filter)
  moreover have "\<dots> \<le> maxTotal t"
    using assms bucket_sizes_evict_le [of "\<lambda>_. ?p" "buckets t"] by (simp add: tally_inv_def)
  moreover have "int (length (jmap_evict (\<lambda>_. ?p) (buckets t))) \<le> maxEpochBuckets t"
    using assms length_evict_le [of "\<lambda>_. ?p" "buckets t"] unfolding tally_inv_def by linarith
  moreover have "\<forall>(k, b)\<in>set (jmap_evict (\<lambda>_. ?p) (buckets t)). distinct (bset b) \<and> int (length (bset b)) \<le> maxPerEpoch t"
    using assms set_evict_subset [of "\<lambda>_. ?p" "buckets t"] unfolding tally_inv_def by blast
  ultimately show ?thesis
    using assms by (simp add: tally_inv_def)
qed

lemma tally_inv_update:
  assumes "tally_inv t" "distinct (bset b)" "int (length (bset b)) \<le> maxPerEpoch t"
    and "k \<in> fst ` set (buckets t) \<or> int (length (buckets t)) < maxEpochBuckets t"
    and "tot = bucket_sizes (AList.update k b (buckets t))" "tot \<le> maxTotal t"
  shows "tally_inv (t\<lparr>buckets := AList.update k b (buckets t), total := tot\<rparr>)"
  using assms by (auto simp: tally_inv_def length_update dest!: update_memD)

lemma tally_inv_bucket_add:
  assumes inv: "tally_inv t" and k: "map_of (buckets t) k = Some b" and r: "bucket_add n k b t = (ok, t')"
  shows "tally_inv t'"
proof (cases "n \<in> set (bset b) \<or> int (length (bset b)) \<ge> maxPerEpoch t \<or> total t \<ge> maxTotal t")
  case True
  with r inv show ?thesis by (auto simp: bucket_add_def split: if_splits)
next
  case False
  from k have mem: "(k, b) \<in> set (buckets t)" by (rule map_of_SomeD)
  with inv have b: "distinct (bset b)" by (auto simp: tally_inv_def)
  have "total t + 1 = bucket_sizes (AList.update k (b\<lparr>bset := n # bset b\<rparr>) (buckets t))"
    using inv k by (simp add: tally_inv_def bucket_sizes_update)
  then have "tally_inv (t\<lparr>buckets := AList.update k (b\<lparr>bset := n # bset b\<rparr>) (buckets t), total := total t + 1\<rparr>)"
    using inv b False mem by (intro tally_inv_update) (auto simp: rev_image_eqI)
  with False r show ?thesis by (auto simp: bucket_add_def)
qed

lemma tally_inv_open:
  assumes inv: "tally_inv t" and k: "map_of (buckets t) k = None"
    and "int (length (buckets t)) < maxEpochBuckets t"
  shows "tally_inv (t\<lparr>buckets := AList.update k \<lparr>bset = [], bat = now\<rparr> (buckets t)\<rparr>)"
proof -
  have "tally_inv (t\<lparr>buckets := AList.update k \<lparr>bset = [], bat = now\<rparr> (buckets t), total := total t\<rparr>)"
    using assms by (intro tally_inv_update) (auto simp: tally_inv_def bucket_sizes_update)
  then show ?thesis by simp
qed

lemma bucket_add_caps [simp]: "tally_caps (snd (bucket_add n k b t)) = tally_caps t"
  by (simp add: bucket_add_def tally_caps_def)

lemma tally_inv_ingest [inv_intros]:
  assumes "tally_inv t" shows "tally_inv (snd (ingest now n ep t))"
proof (cases "canonicalTallyField n"; cases "canonicalTallyField ep")
  fix n' k assume c: "canonicalTallyField n = Some n'" "canonicalTallyField ep = Some k"
  let ?t = "tally_prune now t"
  have inv: "tally_inv ?t" using assms by (rule tally_inv_prune)
  show ?thesis
  proof (cases "map_of (buckets ?t) k")
    case None
    show ?thesis
    proof (cases "int (length (buckets ?t)) \<ge> maxEpochBuckets ?t \<or> total ?t \<ge> maxTotal ?t")
      case True
      with c None inv show ?thesis by (simp add: ingest_def Let_def del: tally_prune_sel)
    next
      case False
      let ?b = "\<lparr>bset = [], bat = now\<rparr>" and ?t2 = "?t\<lparr>buckets := AList.update k \<lparr>bset = [], bat = now\<rparr> (buckets ?t)\<rparr>"
      have "tally_inv ?t2" using False None inv by (intro tally_inv_open) auto
      moreover have "map_of (buckets ?t2) k = Some ?b" by simp
      moreover obtain ok t' where "bucket_add n' k ?b ?t2 = (ok, t')" by fastforce
      ultimately show ?thesis using c None False tally_inv_bucket_add [of ?t2 k ?b n' ok t']
        by (simp add: ingest_def Let_def del: tally_prune_sel)
    qed
  next
    case (Some b)
    obtain ok t' where "bucket_add n' k b ?t = (ok, t')" by fastforce
    with c Some tally_inv_bucket_add [OF inv Some] show ?thesis
      by (simp add: ingest_def Let_def del: tally_prune_sel)
  qed
qed (use assms in \<open>simp_all add: ingest_def\<close>)

lemma tally_caps_ingest [simp]: "tally_caps (snd (ingest now n ep t)) = tally_caps t"
proof -
  have eq: "tally_caps (t\<lparr>buckets := m\<rparr>) = tally_caps t" for m and t :: tally by (simp add: tally_caps_def)
  show ?thesis
    by (auto simp: ingest_def Let_def eq split: option.splits)
qed

section \<open>What the tally knows\<close>

definition known :: "tally \<Rightarrow> string \<Rightarrow> string \<Rightarrow> bool" where
  "known t n k = (case map_of (buckets t) k of Some b \<Rightarrow> n \<in> set (bset b) | None \<Rightarrow> False)"

lemma canonicalTallyField_SomeD: "canonicalTallyField v = Some s \<Longrightarrow> v = JStr s \<and> canonicalTallyField (JStr s) = Some s"
  by (auto simp: canonicalTallyField_def split: jsval.splits if_splits option.splits)

lemma known_prune:
  "tally_inv t \<Longrightarrow> known (tally_prune now t) n k \<longleftrightarrow>
     known t n k \<and> (case map_of (buckets t) k of Some b \<Rightarrow> \<not> old_bucket (now - tally_ttl t) b | None \<Rightarrow> False)"
  by (simp add: known_def map_of_evict tally_inv_def split: option.split del: map_of_eq_Some_iff)

lemma known_bucket_add:
  assumes "map_of (buckets t) k = Some b"
  shows "known (snd (bucket_add n k b t)) n' k' \<longleftrightarrow> known t n' k' \<or> (n' = n \<and> k' = k \<and> fst (bucket_add n k b t))"
  using assms by (auto simp: bucket_add_def known_def simp del: map_of_eq_Some_iff)

text \<open>An accepted announcement is known afterwards; nothing else becomes known, and nothing is lost
  except what the sweep removes.\<close>

lemma known_ingest:
  assumes "canonicalTallyField nv = Some n" "canonicalTallyField kv = Some k"
  shows "known (snd (ingest now nv kv t)) n' k' \<longleftrightarrow>
     known (tally_prune now t) n' k' \<or> (n' = n \<and> k' = k \<and> fst (ingest now nv kv t))"
proof (cases "map_of (buckets (tally_prune now t)) k")
  case None
  let ?t = "tally_prune now t"
  let ?b = "\<lparr>bset = [], bat = now\<rparr>" and ?t2 = "?t\<lparr>buckets := AList.update k \<lparr>bset = [], bat = now\<rparr> (buckets ?t)\<rparr>"
  have k: "known ?t2 n' k' = known ?t n' k'" using None by (auto simp: known_def simp del: tally_prune_sel)
  have "known (snd (bucket_add n k ?b ?t2)) n' k' \<longleftrightarrow> known ?t2 n' k' \<or> (n' = n \<and> k' = k \<and> fst (bucket_add n k ?b ?t2))"
    by (rule known_bucket_add) simp
  with k None assms show ?thesis
    by (simp add: ingest_def Let_def del: tally_prune_sel)
next
  case (Some b)
  with assms known_bucket_add [OF Some, of n n' k'] show ?thesis
    by (simp add: ingest_def Let_def del: tally_prune_sel)
qed

lemma known_ingest_origin:
  "tally_inv t \<Longrightarrow> known (snd (ingest now nv kv t)) n k \<Longrightarrow> known t n k \<or> (nv = JStr n \<and> kv = JStr k)"
proof (cases "canonicalTallyField nv"; cases "canonicalTallyField kv")
  fix n0 k0
  assume t: "tally_inv t" and r: "known (snd (ingest now nv kv t)) n k"
    and c: "canonicalTallyField nv = Some n0" "canonicalTallyField kv = Some k0"
  from r [unfolded known_ingest [OF c]] known_prune [OF t]
    canonicalTallyField_SomeD [OF c(1)] canonicalTallyField_SomeD [OF c(2)]
  show ?thesis by auto
qed (simp_all add: ingest_def)

interpretation tally_ttl_store: ttl_store
  "\<lambda>t. map_of (buckets t)" "\<lambda>c t. tally_prune (c + tally_ttl t) t" old_bucket tally_inv
proof (unfold_locales, goal_cases)
  case (1 st c k)
  then have "jmap_wf (buckets st)" by (simp add: tally_inv_def)
  then show ?case by (simp add: map_of_evict)
next
  case 2
  then show ?case by (rule tally_inv_prune)
next
  case 3
  then show ?case by (simp add: old_bucket_def)
qed

lemma tally_has_iff:
  "fst (tally_has now (JStr n) (JStr k) t) \<longleftrightarrow>
     canonicalTallyField (JStr n) = Some n \<and> canonicalTallyField (JStr k) = Some k \<and> known (tally_prune now t) n k"
proof (cases "canonicalTallyField (JStr n)"; cases "canonicalTallyField (JStr k)")
  fix n' k' assume c: "canonicalTallyField (JStr n) = Some n'" "canonicalTallyField (JStr k) = Some k'"
  from canonicalTallyField_SomeD [OF c(1)] canonicalTallyField_SomeD [OF c(2)] c show ?thesis
    by (simp add: tally_has_def Let_def known_def del: tally_prune_sel split: option.split)
qed (simp_all add: tally_has_def Let_def)

lemma tally_inv_record [inv_intros]: "tally_inv t \<Longrightarrow> tally_inv (snd (tally_record now nv kv t))"
  by (auto simp: tally_record_def intro: tally_inv_ingest split: option.split)

lemma tally_inv_has [inv_intros]: "tally_inv t \<Longrightarrow> tally_inv (snd (tally_has now nv kv t))"
  by (simp add: tally_has_def Let_def tally_inv_prune del: tally_prune_sel)

lemma snd_tally_record: "snd (tally_record now nv kv t) = snd (ingest now nv kv t)"
  by (auto simp: tally_record_def ingest_def split: option.split dest: canonicalTallyField_SomeD)

text \<open>
  The pushes of the HTTP transport as a machine: the transport and the pushes that have started
  and not yet settled. A push settles once.
\<close>

inductive http_step :: "http_transport \<times> string list \<Rightarrow> http_transport \<times> string list \<Rightarrow> bool" where
  publish: "http_publish nv kv tt = (posts, tt') \<Longrightarrow> http_step (tt, out) (tt', map fst posts @ out)"
| settle: "p \<in> set out \<Longrightarrow> http_step (tt, out) (push_settled p tt, remove1 p out)"
| add: "addPeer v tt = (ok, tt') \<Longrightarrow> http_step (tt, out) (tt', out)"
| close: "http_step (tt, out) (http_close tt, out)"

inductive_cases http_stepE: "http_step (tt, out) st'"

definition pushes_inv :: "http_transport \<times> string list \<Rightarrow> bool" where
  "pushes_inv st = (case st of (tt, out) \<Rightarrow>
     jmap_wf (inFlightByPeer tt) \<and> (\<forall>p. peer_pending tt p = int (count_list out p))
     \<and> (\<forall>p. int (count_list out p) \<le> MAX_IN_FLIGHT_PER_PEER)
     \<and> inFlightTotal tt = int (length out) \<and> inFlightTotal tt \<le> MAX_IN_FLIGHT_TOTAL
     \<and> distinct (peerList tt) \<and> length (peerList tt) \<le> MAX_PEERS
     \<and> (\<forall>p\<in>set (peerList tt). validPeer (JStr p)))"

lemma peer_pending_frame [simp]:
  "peer_pending (tt\<lparr>saturatedPeers := xs\<rparr>) p = peer_pending tt p"
  "peer_pending (tt\<lparr>peerList := ps\<rparr>) p = peer_pending tt p"
  "peer_pending (tt\<lparr>tt_closed := c, tt_subs := ss\<rparr>) p = peer_pending tt p"
  by (simp_all add: peer_pending_def)

lemma pushes_inv_perm:
  "pushes_inv (tt, out) \<Longrightarrow> (\<And>q. count_list out' q = count_list out q) \<Longrightarrow> length out' = length out \<Longrightarrow> pushes_inv (tt, out')"
  by (simp add: pushes_inv_def)

lemma pushes_inv_push_all:
  "push_all ps body tt = (posts, tt') \<Longrightarrow> pushes_inv (tt, out) \<Longrightarrow>
     pushes_inv (tt', map fst posts @ out) \<and> (\<forall>x\<in>set posts. fst x \<in> set ps \<and> snd x = body)"
proof (induction ps arbitrary: tt posts out)
  case (Cons p ps)
  show ?case
  proof (cases "peer_pending tt p \<ge> MAX_IN_FLIGHT_PER_PEER \<or> inFlightTotal tt \<ge> MAX_IN_FLIGHT_TOTAL")
    case True
    let ?tt = "if p \<in> set (saturatedPeers tt) then tt else tt\<lparr>saturatedPeers := p # saturatedPeers tt\<rparr>"
    have "pushes_inv (?tt, out)" using Cons.prems(2) by (simp add: pushes_inv_def)
    moreover have "push_all ps body ?tt = (posts, tt')" using Cons.prems(1) True by simp
    ultimately show ?thesis using Cons.IH [of ?tt posts out] by simp
  next
    case False
    let ?tt = "tt\<lparr>inFlightByPeer := AList.update p (peer_pending tt p + 1) (inFlightByPeer tt),
                  inFlightTotal := inFlightTotal tt + 1\<rparr>"
    obtain posts' where r: "push_all ps body ?tt = (posts', tt')" "posts = (p, body) # posts'"
      using Cons.prems(1) False by (auto split: prod.splits)
    have "peer_pending ?tt q = peer_pending tt q + (if q = p then 1 else 0)" for q
      by (simp add: peer_pending_def)
    then have "pushes_inv (?tt, p # out)"
      using Cons.prems(2) False by (auto simp: pushes_inv_def)
    then have moved: "pushes_inv (tt', map fst posts' @ p # out)" using Cons.IH [OF r(1)] by blast
    have posts: "\<forall>x\<in>set posts'. fst x \<in> set ps \<and> snd x = body"
      using Cons.IH [OF r(1) \<open>pushes_inv (?tt, p # out)\<close>] by blast
    from moved have "pushes_inv (tt', map fst posts @ out)"
      by (rule pushes_inv_perm) (simp_all add: r(2))
    with posts show ?thesis using r(2) by auto
  qed
qed simp

lemma count_list_remove1: "count_list (remove1 p xs) q = count_list xs q - (if q = p \<and> p \<in> set xs then 1 else 0)"
  by (induction xs) auto

lemma pushes_inv_settle:
  assumes inv: "pushes_inv (tt, out)" and p: "p \<in> set out"
  shows "pushes_inv (push_settled p tt, remove1 p out)"
proof -
  have c: "count_list out p > 0" using p count_list_0_iff [of out p] by blast
  with inv have pos: "peer_pending tt p \<ge> 1" by (simp add: pushes_inv_def)
  have pend: "peer_pending (push_settled p tt) q = peer_pending tt q - (if q = p then 1 else 0)" for q
    using pos by (auto simp: push_settled_def peer_pending_def Let_def split: option.splits)
  have "count_list (remove1 p out) q = count_list out q - (if q = p then 1 else 0)" for q
    using p by (simp add: count_list_remove1)
  with pend inv c have 1: "peer_pending (push_settled p tt) q = int (count_list (remove1 p out) q)" for q
    by (auto simp: pushes_inv_def)
  have len: "length out > 0" using p by (cases out) auto
  have tot: "inFlightTotal (push_settled p tt) = max 0 (inFlightTotal tt - 1)"
    "peerList (push_settled p tt) = peerList tt"
    by (simp_all add: push_settled_def Let_def)
  have wf: "jmap_wf (inFlightByPeer (push_settled p tt))"
    using inv by (simp add: push_settled_def Let_def pushes_inv_def)
  have cap: "int (count_list (remove1 p out) q) \<le> MAX_IN_FLIGHT_PER_PEER" for q
  proof -
    have "count_list (remove1 p out) q \<le> count_list out q" by (simp add: count_list_remove1)
    moreover have "int (count_list out q) \<le> MAX_IN_FLIGHT_PER_PEER" using inv by (simp add: pushes_inv_def)
    ultimately show ?thesis by linarith
  qed
  have "inFlightTotal (push_settled p tt) = int (length (remove1 p out))"
      "inFlightTotal (push_settled p tt) \<le> MAX_IN_FLIGHT_TOTAL"
    using tot inv len p by (auto simp: pushes_inv_def length_remove1 of_nat_diff Suc_leI)
  with 1 wf cap tot inv show ?thesis by (simp add: pushes_inv_def)
qed

lemma pushes_inv_add:
  assumes "pushes_inv (tt, out)" "addPeer v tt = (ok, tt')"
  shows "pushes_inv (tt', out)"
proof (cases "tt' = tt")
  case False
  then have "validPeer v" "str_of v \<notin> set (peerList tt)" "length (peerList tt) < MAX_PEERS"
      "tt' = tt\<lparr>peerList := peerList tt @ [str_of v]\<rparr>"
    using assms(2) by (auto simp: addPeer_def split: if_splits)
  moreover from \<open>validPeer v\<close> have "v = JStr (str_of v)" by (cases v) (auto simp: validPeer_def)
  ultimately show ?thesis using assms(1) by (auto simp: pushes_inv_def)
qed (use assms in simp)

lemma pushes_inv_step: "http_step st st' \<Longrightarrow> pushes_inv st \<Longrightarrow> pushes_inv st'"
proof (induction rule: http_step.induct)
  case (publish nv kv tt posts tt' out)
  then show ?case
    using pushes_inv_push_all [of "peerList tt" _ tt posts tt' out]
    by (auto simp: http_publish_def split: if_splits option.splits)
next
  case (settle p out tt)
  then show ?case by (rule pushes_inv_settle [rotated])
next
  case (add v tt ok tt' out)
  then show ?case by (blast intro: pushes_inv_add)
next
  case (close tt out)
  then show ?case by (simp add: http_close_def pushes_inv_def)
qed

lemma pushes_inv_init:
  "makeHttpTallyTransport d o' = Inr tt \<Longrightarrow> pushes_inv (tt, [])"
proof -
  assume m: "makeHttpTallyTransport d o' = Inr tt"
  then obtain peers where p: "length peers \<le> MAX_PEERS" "list_all validPeer peers"
      "peerList tt = rev (remdups (rev (map str_of peers)))" "inFlightByPeer tt = []" "inFlightTotal tt = 0"
    by (cases "o_peers o'"; cases "o_path o'")
      (auto simp: makeHttpTallyTransport_def Let_def list_ex_iff list_all_iff not_less split: if_splits)
  have "validPeer (JStr (str_of v))" if "validPeer v" for v using that by (cases v) (auto simp: validPeer_def)
  moreover have "length (remdups (rev (map str_of peers))) \<le> length peers"
    using length_remdups_leq [of "rev (map str_of peers)"] by simp
  ultimately show ?thesis using p
    by (auto simp: pushes_inv_def peer_pending_def list_all_iff MAX_IN_FLIGHT_PER_PEER_def MAX_IN_FLIGHT_TOTAL_def)
qed

section \<open>Histories\<close>

datatype tally_op = Ingest jsval jsval | Has jsval jsval | Record jsval jsval | Prune

fun tally_step :: "int \<times> tally_op \<Rightarrow> tally \<Rightarrow> tally" where
  "tally_step (now, Ingest n k) t = snd (ingest now n k t)"
| "tally_step (now, Has n k) t = snd (tally_has now n k t)"
| "tally_step (now, Record n k) t = snd (tally_record now n k t)"
| "tally_step (now, Prune) t = tally_prune now t"

fun announced :: "int \<times> tally_op \<Rightarrow> (jsval \<times> jsval) option" where
  "announced (now, Ingest n k) = Some (n, k)"
| "announced (now, Record n k) = Some (n, k)"
| "announced _ = None"

lemma tally_step_inv [inv_intros]: "tally_inv t \<Longrightarrow> tally_inv (tally_step x t)"
  by (cases x; cases "snd x") (auto intro: inv_intros)

lemma tally_step_caps: "tally_caps (tally_step x t) = tally_caps t"
  by (cases x; cases "snd x") (auto simp: snd_tally_record tally_has_def Let_def)

lemma tally_run_inv:
  "tally_inv t \<Longrightarrow> tally_inv (fold tally_step ops t) \<and> tally_caps (fold tally_step ops t) = tally_caps t"
proof (induction ops arbitrary: t)
  case (Cons x ops)
  with Cons.IH [OF tally_step_inv [OF Cons.prems], of x] show ?case by (simp add: tally_step_caps)
qed simp

lemma tally_step_origin:
  "tally_inv t \<Longrightarrow> known (tally_step x t) n k \<Longrightarrow> known t n k \<or> announced x = Some (JStr n, JStr k)"
  by (cases x; cases "snd x")
    (auto simp: snd_tally_record tally_has_def Let_def known_prune dest: known_ingest_origin simp del: tally_prune_sel)

lemma tally_run_origin:
  "tally_inv t \<Longrightarrow> known (fold tally_step ops t) n k \<Longrightarrow> known t n k \<or> Some (JStr n, JStr k) \<in> announced ` set ops"
proof (induction ops arbitrary: t)
  case (Cons x ops)
  then have "known (tally_step x t) n k \<or> Some (JStr n, JStr k) \<in> announced ` set ops"
    by (auto intro: inv_intros)
  with tally_step_origin [OF Cons.prems(1), of x n k] show ?case by auto
qed simp

lemma canonical_dec_re_iff: "canonical_dec_re s \<longleftrightarrow> (\<exists>n. s = nat_dec n \<and> length s \<le> 77)"
proof
  assume c: "canonical_dec_re s"
  show "\<exists>n. s = nat_dec n \<and> length s \<le> 77"
  proof (cases "s = ''0''")
    case True
    then have "s = nat_dec 0" by (simp add: js_simps)
    with True show ?thesis by (intro exI [of _ 0]) simp
  next
    case False
    with c obtain d ds where s: "s = d # ds" "is_digit d" "d \<noteq> CHR ''0''" "list_all is_digit ds" "length ds \<le> 76"
      by (cases s) (auto simp: canonical_dec_re_def)
    then have "s = nat_dec (dec_nat s)" using nat_dec_dec_nat [of s] by (simp add: all_digits_def)
    with s show ?thesis by (intro exI [of _ "dec_nat s"]) simp
  qed
next
  assume "\<exists>n. s = nat_dec n \<and> length s \<le> 77"
  then obtain n where s: "s = nat_dec n" "length s \<le> 77" by blast
  show "canonical_dec_re s"
  proof (cases "n = 0")
    case True
    with s show ?thesis by (simp add: canonical_dec_re_def js_simps)
  next
    case False
    obtain d ds where ds: "nat_dec n = d # ds" by (cases "nat_dec n") simp_all
    with all_digits_nat_dec [of n] hd_nat_dec [OF False] s show ?thesis
      by (simp add: canonical_dec_re_def all_digits_def)
  qed
qed

text \<open>
  A spend propagates: when gateway \<open>i\<close> records a nullifier on the loopback bus, every gateway
  \<open>j\<close> that is still subscribed and has room for it answers true to a lookup of that pair until
  the epoch bucket that holds it is older than the TTL.
\<close>

lemma spend_propagates:
  assumes "i < length fl" "j < length fl" and "tally_inv (snd (fl ! j))" "fst (fl ! j)" "j \<noteq> i"
    and "canonicalTallyField nv = Some n" "canonicalTallyField kv = Some k"
    and room: "fst (ingest now nv kv (snd (fl ! j)))"
    and t: "t = snd (fleet_record now i nv kv fl ! j)"
    and fresh: "\<forall>b. map_of (buckets t) k = Some b \<longrightarrow> later - tally_ttl t \<le> bat b"
  shows "fst (tally_has later nv kv t)"
proof -
  have v: "nv = JStr n" "kv = JStr k" using assms(6,7) canonicalTallyField_SomeD by blast+
  have "t = snd (ingest now nv kv (snd (fl ! j)))"
    using t assms(1,2,4,5,6,7) v
    by (simp add: fleet_record_def tally_record_def loopback_publish_def Let_def case_prod_beta)
  then have known: "known t n k" and inv: "tally_inv t"
    using known_ingest [OF assms(6,7), of now "snd (fl ! j)" n k] room assms(3) by (auto intro: inv_intros)
  from known obtain b where b: "map_of (buckets t) k = Some b" by (auto simp: known_def split: option.splits)
  with fresh have "\<not> old_bucket (later - tally_ttl t) b" by (auto simp: old_bucket_def)
  with known b have "known (tally_prune later t) n k" by (simp add: known_prune [OF inv])
  with assms(6,7) v show ?thesis by (simp add: tally_has_iff)
qed

section \<open>Properties\<close>

text \<open>
  the wire encoding is canonical. A value is accepted as a field element exactly when it is
  the decimal numeral of an integer in \<open>[0, FIELD)\<close>; so every field element has one accepted
  spelling and nothing else (numbers, leading zeros, signs, values past the modulus) is accepted.
\<close>

theorem canonicalTallyField_iff:
  "canonicalTallyField v = Some s \<longleftrightarrow> (\<exists>n. 0 \<le> n \<and> n < FIELD \<and> s = int_dec n \<and> v = JStr s)"
proof
  assume a: "canonicalTallyField v = Some s"
  then have v: "v = JStr s" using canonicalTallyField_SomeD by blast
  with a have c: "canonical_dec_re s" "\<exists>n. bigint_of_string s = Some n \<and> n < FIELD"
    by (auto simp: canonicalTallyField_def split: if_splits option.splits)
  then obtain n where "s = nat_dec n" by (auto simp: canonical_dec_re_iff)
  with c(2) v show "\<exists>n. 0 \<le> n \<and> n < FIELD \<and> s = int_dec n \<and> v = JStr s"
    by (intro exI [of _ "int n"]) (simp add: int_dec_def bigint_of_digits)
next
  assume "\<exists>n. 0 \<le> n \<and> n < FIELD \<and> s = int_dec n \<and> v = JStr s"
  then obtain n where n: "0 \<le> n" "n < FIELD" "s = int_dec n" "v = JStr s" by blast
  then have "nat n < 10 ^ 77" by (simp add: FIELD_def nat_less_iff)
  then have "length (nat_dec (nat n)) \<le> 77" by (rule length_nat_dec) simp
  with n have "canonical_dec_re s" by (auto simp: canonical_dec_re_iff int_dec_def)
  with n show "canonicalTallyField v = Some s" by (simp add: canonicalTallyField_def)
qed

text \<open>
  memory is bounded whatever peers send. A tally built with any options and driven by any
  sequence of announcements, lookups, records and sweeps holds at most 16 epoch buckets, at most
  its aggregate cap (itself at most 500000) and its counter is the number of stored nullifiers.
\<close>

theorem tally_bounded:
  assumes "1 \<le> default_ttl"
    and t_def: "t = fold tally_step ops (makeFleetTally default_ttl ttl per_epoch epochs tot)"
  shows "length (buckets t) \<le> 16 \<and> bucket_sizes (buckets t) \<le> 500000 \<and> total t = bucket_sizes (buckets t)
    \<and> (\<forall>k b. map_of (buckets t) k = Some b \<longrightarrow> length (bset b) \<le> 200000 \<and> distinct (bset b))"
proof -
  let ?init = "makeFleetTally default_ttl ttl per_epoch epochs tot"
  have run: "tally_inv t" "tally_caps t = tally_caps ?init"
    using tally_run_inv [OF tally_inv_make [OF assms(1)]] unfolding t_def by blast+
  have "maxPerEpoch ?init \<le> 200000" "maxEpochBuckets ?init \<le> 16" "maxTotal ?init \<le> 500000"
    using positiveInt_range [of 1 DEFAULT_MAX_PER_EPOCH 200000 per_epoch]
      positiveInt_range [of 1 DEFAULT_MAX_EPOCH_BUCKETS 16 epochs]
      positiveInt_range [of 1 DEFAULT_MAX_TOTAL 500000 tot]
    by (simp_all add: makeFleetTally_def DEFAULT_MAX_PER_EPOCH_def DEFAULT_MAX_EPOCH_BUCKETS_def DEFAULT_MAX_TOTAL_def)
  with run(2) have caps: "maxPerEpoch t \<le> 200000" "maxEpochBuckets t \<le> 16" "maxTotal t \<le> 500000"
    by (simp_all add: tally_caps_def)
  have "length (bset b) \<le> 200000 \<and> distinct (bset b)" if "map_of (buckets t) k = Some b" for k b
    using map_of_SomeD [OF that] run(1) caps(1) unfolding tally_inv_def by fastforce
  with run(1) caps show ?thesis by (auto simp: tally_inv_def)
qed

theorem tally_bounded_witness:
  "length (buckets (fold tally_step [(0, Ingest (JStr ''7'') (JStr ''1'')), (5, Record (JStr ''8'') (JStr ''1''))]
     (makeFleetTally 1000 JUndef JUndef JUndef JUndef))) \<le> 16"
  using tally_bounded [OF _ refl, of 1000 "[(0, Ingest (JStr ''7'') (JStr ''1'')), (5, Record (JStr ''8'') (JStr ''1''))]"
      JUndef JUndef JUndef JUndef] by linarith

text \<open>
  the tally never invents a spend. If a lookup answers true, the very pair it was asked about
  was announced by a peer or recorded locally earlier in the history of this tally.
\<close>

theorem tally_no_false_positive:
  assumes "1 \<le> default_ttl"
    and "fst (tally_has now (JStr n) (JStr k) (fold tally_step ops (makeFleetTally default_ttl ttl per_epoch epochs tot)))"
  shows "Some (JStr n, JStr k) \<in> announced ` set ops"
proof -
  let ?init = "makeFleetTally default_ttl ttl per_epoch epochs tot"
  let ?t = "fold tally_step ops ?init"
  have inv: "tally_inv ?t" using tally_run_inv [OF tally_inv_make [OF assms(1)]] by blast
  with assms(2) have "known ?t n k" by (simp add: tally_has_iff known_prune)
  moreover have "\<not> known ?init n k" by (simp add: known_def makeFleetTally_def)
  ultimately show ?thesis using tally_run_origin [OF tally_inv_make [OF assms(1)]] by blast
qed

theorem tally_no_false_positive_witness:
  "Some (JStr ''7'', JStr ''1'') \<in> announced ` set [(0 :: int, Ingest (JStr ''7'') (JStr ''1''))]"
proof (rule tally_no_false_positive [of 1000 0 "''7''" "''1''" _ JUndef JUndef JUndef JUndef])
  have "canonicalTallyField (JStr ''7'') = Some ''7''" "canonicalTallyField (JStr ''1'') = Some ''1''"
    by code_simp+
  then show "fst (tally_has 0 (JStr ''7'') (JStr ''1'') (fold tally_step [(0, Ingest (JStr ''7'') (JStr ''1''))]
      (makeFleetTally 1000 JUndef JUndef JUndef JUndef)))"
    by (simp add: tally_has_def ingest_def makeFleetTally_def tally_prune_def bucket_add_def positiveInt_def
        jmap_evict_def old_bucket_def DEFAULT_MAX_PER_EPOCH_def DEFAULT_MAX_EPOCH_BUCKETS_def DEFAULT_MAX_TOTAL_def Let_def)
qed simp

definition demo_tally :: tally where
  "demo_tally = \<lparr>tally_ttl = 100, maxPerEpoch = 5, maxEpochBuckets = 2, maxTotal = 10, buckets = [], total = 0\<rparr>"

text \<open>
  outbound pushes are bounded. From a freshly built transport, under any interleaving of
  publishes, settling pushes, added peers and close, each peer has at most 4 pushes in flight and
  all together at most 128, the counters are the true counts, and the peer list stays duplicate
  free, valid and at most 64 long.
\<close>

theorem pushes_bounded:
  assumes "makeHttpTallyTransport d opts = Inr tt0" and "http_step\<^sup>*\<^sup>* (tt0, []) (tt, out)"
  shows "inFlightTotal tt = int (length out) \<and> length out \<le> 128
    \<and> (\<forall>p. peer_pending tt p = int (count_list out p) \<and> count_list out p \<le> 4)
    \<and> distinct (peerList tt) \<and> length (peerList tt) \<le> 64 \<and> (\<forall>p\<in>set (peerList tt). validPeer (JStr p))"
proof -
  from assms(2) have "pushes_inv (tt, out)"
    by (induction rule: rtranclp_induct2) (auto intro: pushes_inv_step pushes_inv_init [OF assms(1)])
  then show ?thesis
    by (auto simp: pushes_inv_def MAX_IN_FLIGHT_TOTAL_def MAX_IN_FLIGHT_PER_PEER_def MAX_PEERS_def)
qed

definition demo_token :: string where "demo_token = replicate 32 (CHR ''t'')"

definition demo_http :: http_transport where
  "demo_http = (case makeHttpTallyTransport 4000 (default_opts\<lparr>o_peers := JArr [JStr ''a:1'', JStr ''b:2'', JStr ''a:1''], o_token := JStr demo_token\<rparr>) of
     Inr tt \<Rightarrow> tt)"

lemma demo_http_ok:
  "makeHttpTallyTransport 4000 (default_opts\<lparr>o_peers := JArr [JStr ''a:1'', JStr ''b:2'', JStr ''a:1''], o_token := JStr demo_token\<rparr>)
     = Inr demo_http" "peerList demo_http = [''a:1'', ''b:2'']" "tt_token demo_http = demo_token" "\<not> tt_closed demo_http"
  by code_simp+

theorem pushes_bounded_witness:
  "\<exists>tt out. out = [''a:1'', ''b:2''] \<and> http_step\<^sup>*\<^sup>* (demo_http, []) (tt, out) \<and> inFlightTotal tt = 2"
proof -
  let ?r = "http_publish (JStr ''7'') (JStr ''1'') demo_http"
  have posts: "map fst (fst ?r) @ [] = [''a:1'', ''b:2'']" by code_simp
  have "http_step (demo_http, []) (snd ?r, map fst (fst ?r) @ [])" by (rule http_step.publish) simp
  then have step: "http_step\<^sup>*\<^sup>* (demo_http, []) (snd ?r, [''a:1'', ''b:2''])" unfolding posts by (rule r_into_rtranclp)
  from pushes_bounded [OF demo_http_ok(1) step] have "inFlightTotal (snd ?r) = 2" by simp
  with step show ?thesis by blast
qed

text \<open>
  only an authenticated announcement reaches the tally. Whatever the request and the JSON
  parser, the handler answers one of 200, 400, 401, 404, 413, 503; it delivers a pair only with
  200, only for a POST to the configured path on an open transport whose authorization header is
  exactly \<open>Bearer\<close> with the configured token, whose body fits the byte cap, and the pair is
  canonical and is read from the two fields \<open>nullifier\<close> and \<open>epoch\<close> alone.
\<close>

theorem tally_request_authenticated:
  assumes "tally_request json_parse rq tt = (status, delivered)"
  shows "status \<in> {200, 400, 401, 404, 413, 503} \<and> (status = 200 \<longleftrightarrow> delivered \<noteq> None)
    \<and> (\<forall>n e. delivered = Some (n, e) \<longrightarrow> \<not> tt_closed tt \<and> rq_method rq = ''POST''
        \<and> rq_auth rq = JStr (''Bearer '' @ tt_token tt) \<and> int (length (rq_body rq)) \<le> tt_maxBytes tt
        \<and> (\<exists>msg. json_parse (rq_body rq) = Some msg \<and> getp msg ''nullifier'' = JStr n \<and> getp msg ''epoch'' = JStr e))"
proof -
  have auth: "bearerMatches a (JStr t) \<Longrightarrow> a = JStr (''Bearer '' @ t)" for a t
    by (auto simp: bearerMatches_def split: jsval.splits)
  show ?thesis using assms
    by (auto simp: tally_request_def split: if_splits option.splits
        dest: auth canonicalTallyField_SomeD)
qed

theorem tally_request_authenticated_witness:
  "tally_request (\<lambda>s. Some (JObj [(''nullifier'', JStr ''7''), (''epoch'', JStr ''1''), (''target'', JStr s)]))
     \<lparr>rq_method = ''POST'', rq_url = ''/fleet-tally?x'', rq_auth = JStr (''Bearer '' @ demo_token), rq_length = None, rq_body = ''b''\<rparr> demo_http
     = (200, Some (''7'', ''1'')) \<and> \<not> tt_closed demo_http"
proof -
  let ?jp = "\<lambda>s. Some (JObj [(''nullifier'', JStr ''7''), (''epoch'', JStr ''1''), (''target'', JStr s)])"
  let ?rq = "\<lparr>rq_method = ''POST'', rq_url = ''/fleet-tally?x'', rq_auth = JStr (''Bearer '' @ demo_token), rq_length = None, rq_body = ''b''\<rparr>"
  have r: "tally_request ?jp ?rq demo_http = (200, Some (''7'', ''1''))" by code_simp
  from tally_request_authenticated [OF r] r show ?thesis by simp
qed

end
