(* ===== verification/SpentSet.thy ===== *)
theory SpentSet
  imports Rln FleetTally
begin

text \<open>
  \<open>makeSpentSet\<close> of \<^verbatim>\<open>src/gateway/gateway.mjs\<close>: the share-collecting spent set with the
  per-gateway envelope cache, the optional fleet tally and the slash of an over-spend, together
  with \<open>resolveSlashTier\<close>.

  The slasher is a callee: \<open>admit\<close> returns the call it makes (leaf, secret, tier). The state
  changes of the source's \<open>admit\<close> all happen before its first \<open>await\<close>, so one call is one
  step. The shared tally is an interface of two operations; \<open>has\<close> and \<open>record\<close> swallow
  their own exceptions.
\<close>

section \<open>Data\<close>

record spent_entry =
  xs :: "string list"
  first :: share
  slashed :: bool
  seen_at :: int

record spent_set =
  ss_ttlMs :: int
  replayWindowMs :: int
  seen :: "(string, spent_entry) jmap"
  seenEnv :: "(string, int) jmap"

record 't tally_ops =
  op_has :: "int \<Rightarrow> string \<Rightarrow> string \<Rightarrow> 't \<Rightarrow> bool \<times> 't"
  op_record :: "int \<Rightarrow> string \<Rightarrow> string \<Rightarrow> 't \<Rightarrow> 't"

datatype admission =
    First
  | Replay
  | BadShare
  | FleetReplay
  | ReplayedEnvelope
  | RateSlashed
  | Slash "string option"

fun adm_ok :: "admission \<Rightarrow> bool" where
  "adm_ok First = True"
| "adm_ok Replay = True"
| "adm_ok _ = False"

fun adm_reason :: "admission \<Rightarrow> string option" where
  "adm_reason First = None"
| "adm_reason Replay = None"
| "adm_reason BadShare = Some ''no-share''"
| "adm_reason FleetReplay = Some ''replayed-envelope''"
| "adm_reason ReplayedEnvelope = Some ''replayed-envelope''"
| "adm_reason RateSlashed = Some ''rate-slashed''"
| "adm_reason (Slash _) = Some ''over-spend-slashed''"

fun adm_action :: "admission \<Rightarrow> string" where
  "adm_action First = ''first''"
| "adm_action Replay = ''replay''"
| "adm_action BadShare = ''bad-share''"
| "adm_action FleetReplay = ''replayed-envelope''"
| "adm_action ReplayedEnvelope = ''replayed-envelope''"
| "adm_action RateSlashed = ''slashed''"
| "adm_action (Slash _) = ''slash''"

record slash_call =
  sc_commitment :: string
  sc_secret :: string
  sc_tier :: slash_tier

section \<open>Operations\<close>

text \<open>\<open>leaves\<close> is \<open>None\<close> in on-chain root mode.\<close>

definition resolveSlashTier :: "rln_lib \<Rightarrow> rln_cfg \<Rightarrow> int list \<Rightarrow> string list option \<Rightarrow> string \<Rightarrow> slash_tier res" where
  "resolveSlashTier L C tiers leaves identitySecret =
     resolveSlashLeaf L C (JStr identitySecret) tiers (map_option (\<lambda>ls c. c \<in> set ls) leaves)"

definition deriveSlashLeaf :: "rln_lib \<Rightarrow> rln_cfg \<Rightarrow> int list \<Rightarrow> string list option \<Rightarrow> string \<Rightarrow> string res" where
  "deriveSlashLeaf L C tiers leaves identitySecret =
     bind_res (resolveSlashTier L C tiers leaves identitySecret) (\<lambda>r. Inr (sl_commitment r))"

definition makeSpentSet :: "int \<Rightarrow> int \<Rightarrow> spent_set" where
  "makeSpentSet ttl window = \<lparr>ss_ttlMs = ttl, replayWindowMs = window, seen = [], seenEnv = []\<rparr>"

definition envKeyOf :: "string \<Rightarrow> share \<Rightarrow> string option \<Rightarrow> string" where
  "envKeyOf nullifier sh nonce =
     nullifier @ ''|'' @ share_x sh @ ''|'' @ (case nonce of Some n \<Rightarrow> n | None \<Rightarrow> [])"

definition admit ::
  "(share \<Rightarrow> share \<Rightarrow> string res) \<Rightarrow> (string \<Rightarrow> slash_tier res) \<Rightarrow> 't tally_ops option \<Rightarrow> int \<Rightarrow>
   string \<Rightarrow> share option \<Rightarrow> string option \<Rightarrow> string \<Rightarrow> spent_set \<times> 't \<Rightarrow>
   admission \<times> slash_call option \<times> spent_set \<times> 't" where
  "admit reconstruct derive sharedTally now nullifier sh nonce ep st = (case st of (ss, t) \<Rightarrow>
     (case sh of
        None \<Rightarrow> (BadShare, None, ss, t)
      | Some s \<Rightarrow>
        let ek = envKeyOf nullifier s nonce in
        (case map_of (seen ss) nullifier of
           None \<Rightarrow>
             (let (elsewhere, t') = (case sharedTally of Some ops \<Rightarrow> op_has ops now nullifier ep t | None \<Rightarrow> (False, t)) in
              if elsewhere then (FleetReplay, None, ss, t')
              else (First, None,
                ss\<lparr>seen := AList.update nullifier \<lparr>xs = [share_x s], first = s, slashed = False, seen_at = now\<rparr> (seen ss),
                   seenEnv := AList.update ek now (seenEnv ss)\<rparr>, t'))
         | Some e \<Rightarrow>
             if slashed e then (RateSlashed, None, ss, t)
             else if share_x s \<in> set (xs e) then
               (case map_of (seenEnv ss) ek of
                  Some firstAt \<Rightarrow> if now - firstAt \<le> replayWindowMs ss then (Replay, None, ss, t)
                                 else (ReplayedEnvelope, None, ss, t)
                | None \<Rightarrow> (ReplayedEnvelope, None, ss, t))
             else
               (let ss' = ss\<lparr>seen := AList.update nullifier (e\<lparr>slashed := True\<rparr>) (seen ss)\<rparr> in
                case bind_res (reconstruct (first e) s) (\<lambda>secret. bind_res (derive secret) (\<lambda>tier. Inr (secret, tier))) of
                  Inr (secret, tier) \<Rightarrow>
                    (Slash (Some (sl_commitment tier)),
                     Some \<lparr>sc_commitment = sl_commitment tier, sc_secret = secret, sc_tier = tier\<rparr>, ss', t)
                | Inl _ \<Rightarrow> (Slash None, None, ss', t)))))"

definition commit :: "'t tally_ops option \<Rightarrow> int \<Rightarrow> string \<Rightarrow> string \<Rightarrow> spent_set \<times> 't \<Rightarrow> spent_set \<times> 't" where
  "commit sharedTally now nullifier ep st = (case st of (ss, t) \<Rightarrow>
     (case sharedTally of
        Some ops \<Rightarrow> if map_of (seen ss) nullifier = None then (ss, t) else (ss, op_record ops now nullifier ep t)
      | None \<Rightarrow> (ss, t)))"

definition old_entry :: "int \<Rightarrow> spent_entry \<Rightarrow> bool" where
  "old_entry cutoff e \<longleftrightarrow> seen_at e < cutoff"

definition spent_sweep :: "int \<Rightarrow> spent_set \<Rightarrow> spent_set" where
  "spent_sweep now ss = (let cutoff = now - ss_ttlMs ss in
     ss\<lparr>seen := jmap_evict (\<lambda>_. old_entry cutoff) (seen ss),
        seenEnv := jmap_evict (\<lambda>_ a. a < cutoff) (seenEnv ss)\<rparr>)"

section \<open>Invariant and the sweep contract\<close>

definition spent_inv :: "spent_set \<Rightarrow> bool" where
  "spent_inv ss \<longleftrightarrow> jmap_wf (seen ss) \<and> jmap_wf (seenEnv ss)
     \<and> (\<forall>n e. map_of (seen ss) n = Some e \<longrightarrow> xs e = [share_x (first e)])"

lemma spent_inv_make [simp]: "spent_inv (makeSpentSet ttl w)"
  by (simp add: spent_inv_def makeSpentSet_def)

lemma spent_sweep_sel [simp]:
  "seen (spent_sweep now ss) = jmap_evict (\<lambda>_. old_entry (now - ss_ttlMs ss)) (seen ss)"
  "seenEnv (spent_sweep now ss) = jmap_evict (\<lambda>_ a. a < now - ss_ttlMs ss) (seenEnv ss)"
  "ss_ttlMs (spent_sweep now ss) = ss_ttlMs ss"
  by (simp_all add: spent_sweep_def Let_def)

lemma spent_inv_sweep [inv_intros]: "spent_inv ss \<Longrightarrow> spent_inv (spent_sweep now ss)"
  unfolding spent_inv_def by (auto simp: map_of_evict simp del: map_of_eq_Some_iff split: option.splits if_splits)

interpretation spent_ttl: ttl_store
  "\<lambda>ss. map_of (seen ss)" "\<lambda>c ss. spent_sweep (c + ss_ttlMs ss) ss" old_entry spent_inv
proof (unfold_locales, goal_cases)
  case (1 st c k)
  then have "jmap_wf (seen st)" by (simp add: spent_inv_def)
  then show ?case by (simp add: map_of_evict)
next
  case 2
  then show ?case by (rule spent_inv_sweep)
next
  case 3
  then show ?case by (simp add: old_entry_def)
qed

lemma admit_cases:
  assumes "admit rc dv tly now n (Some s) nonce ep (ss, t) = (r, call, ss', t')"
  obtains
    (fresh) "map_of (seen ss) n = None" "r = FleetReplay" "ss' = ss" "call = None"
  | (first) "map_of (seen ss) n = None" "r = First" "call = None"
      "ss' = ss\<lparr>seen := AList.update n \<lparr>xs = [share_x s], first = s, slashed = False, seen_at = now\<rparr> (seen ss),
                 seenEnv := AList.update (envKeyOf n s nonce) now (seenEnv ss)\<rparr>"
  | (slashed) e where "map_of (seen ss) n = Some e" "slashed e" "r = RateSlashed" "ss' = ss" "call = None"
  | (same) e where "map_of (seen ss) n = Some e" "\<not> slashed e" "share_x s \<in> set (xs e)" "ss' = ss" "call = None"
      "r = (case map_of (seenEnv ss) (envKeyOf n s nonce) of
              Some a \<Rightarrow> if now - a \<le> replayWindowMs ss then Replay else ReplayedEnvelope | None \<Rightarrow> ReplayedEnvelope)"
  | (over) e c where "map_of (seen ss) n = Some e" "\<not> slashed e" "share_x s \<notin> set (xs e)" "r = Slash c"
      "ss' = ss\<lparr>seen := AList.update n (e\<lparr>slashed := True\<rparr>) (seen ss)\<rparr>"
proof (cases "map_of (seen ss) n")
  case None
  with assms show ?thesis
    by (auto simp: admit_def Let_def split: prod.splits if_splits intro: fresh first)
next
  case (Some e)
  show ?thesis
  proof (cases "slashed e")
    case True
    with Some assms show ?thesis by (intro slashed [of e]) (auto simp: admit_def Let_def)
  next
    case False
    show ?thesis
    proof (cases "share_x s \<in> set (xs e)")
      case True
      with False Some assms show ?thesis
        by (intro same [of e]) (auto simp: admit_def Let_def split: option.splits if_splits)
    next
      case x: False
      with False Some assms show ?thesis
        by (auto simp: admit_def Let_def split: sum.splits prod.splits intro: over [of e])
    qed
  qed
qed

lemma admit_none: "admit rc dv tly now n None nonce ep (ss, t) = (BadShare, None, ss, t)"
  by (simp add: admit_def)

lemma spent_inv_admit [inv_intros]:
  assumes inv: "spent_inv ss" and a: "admit rc dv tly now n sh nonce ep (ss, t) = (r, call, ss', t')"
  shows "spent_inv ss'"
proof (cases sh)
  case None
  with a inv show ?thesis by (simp add: admit_none)
next
  case (Some s)
  from a [unfolded Some] show ?thesis
  proof (cases rule: admit_cases)
    case (over e c)
    then have "xs e = [share_x (first e)]" using inv by (auto simp: spent_inv_def simp del: map_of_eq_Some_iff)
    with over inv show ?thesis by (auto simp: spent_inv_def simp del: map_of_eq_Some_iff)
  qed (use inv in \<open>auto simp: spent_inv_def simp del: map_of_eq_Some_iff\<close>)
qed

lemma admit_no_tally: "snd (snd (snd (admit rc dv None now n sh nonce ep (ss, t)))) = t"
  by (auto simp: admit_def Let_def split: option.splits sum.splits)

section \<open>Histories\<close>

datatype spent_op = Admit string "share option" "string option" string | Commit string string | Sweep

fun spent_step ::
  "(share \<Rightarrow> share \<Rightarrow> string res) \<Rightarrow> (string \<Rightarrow> slash_tier res) \<Rightarrow> 't tally_ops option \<Rightarrow> int \<times> spent_op \<Rightarrow>
   spent_set \<times> 't \<Rightarrow> spent_set \<times> 't" where
  "spent_step rc dv tly (now, Admit n sh nonce ep) st = snd (snd (admit rc dv tly now n sh nonce ep st))"
| "spent_step rc dv tly (now, Commit n ep) st = commit tly now n ep st"
| "spent_step rc dv tly (now, Sweep) st = (spent_sweep now (fst st), snd st)"

text \<open>While an entry lives no operation changes its first sighting, and only a sweep past its
  retention removes it; a slashed entry stays slashed.\<close>

lemma spent_step_entry:
  assumes inv: "spent_inv (fst st)" and e: "map_of (seen (fst st)) n = Some e"
  shows "spent_inv (fst (spent_step rc dv tly x st)) \<and> ss_ttlMs (fst (spent_step rc dv tly x st)) = ss_ttlMs (fst st)
    \<and> ((\<exists>e'. map_of (seen (fst (spent_step rc dv tly x st))) n = Some e' \<and> seen_at e' = seen_at e
            \<and> (slashed e \<longrightarrow> slashed e'))
       \<or> (\<exists>s. x = (s, Sweep) \<and> seen_at e < s - ss_ttlMs (fst st)))"
proof (cases x)
  case (Pair now op)
  obtain ss t where st: "st = (ss, t)" by fastforce
  show ?thesis
  proof (cases op)
    case (Admit m sh nonce ep)
    obtain r call ss' t' where a: "admit rc dv tly now m sh nonce ep (ss, t) = (r, call, ss', t')"
      by (metis prod_cases4)
    have inv': "spent_inv ss'" using inv a st by (auto intro: spent_inv_admit)
    have "\<exists>e'. map_of (seen ss') n = Some e' \<and> seen_at e' = seen_at e \<and> (slashed e \<longrightarrow> slashed e')"
    proof (cases sh)
      case None
      with a e st show ?thesis by (auto simp: admit_none)
    next
      case (Some s)
      from a [unfolded Some] show ?thesis by (cases rule: admit_cases) (use e st in auto)
    qed
    moreover have "ss_ttlMs ss' = ss_ttlMs ss"
    proof (cases sh)
      case None
      with a show ?thesis by (auto simp: admit_none)
    next
      case (Some s)
      from a [unfolded Some] show ?thesis by (cases rule: admit_cases) auto
    qed
    ultimately show ?thesis using inv' a st Pair Admit by simp
  next
    case (Commit m ep)
    with Pair st inv e show ?thesis by (auto simp: commit_def split: option.split)
  next
    case Sweep
    have wf: "jmap_wf (seen ss)" using inv st by (simp add: spent_inv_def)
    have "spent_inv (spent_sweep now ss)" using inv st by (auto intro: inv_intros)
    with Sweep Pair st e show ?thesis by (auto simp: map_of_evict [OF wf] old_entry_def simp del: map_of_eq_Some_iff)
  qed
qed

lemma spent_run_entry:
  assumes "spent_inv (fst st)" "map_of (seen (fst st)) n = Some e"
  shows "(\<exists>e'. map_of (seen (fst (fold (spent_step rc dv tly) ops st))) n = Some e' \<and> seen_at e' = seen_at e
            \<and> (slashed e \<longrightarrow> slashed e'))
       \<or> (\<exists>s. (s, Sweep) \<in> set ops \<and> seen_at e < s - ss_ttlMs (fst st))"
  using assms
proof (induction ops arbitrary: st e)
  case (Cons x ops)
  let ?st = "spent_step rc dv tly x st"
  from spent_step_entry [OF Cons.prems, of rc dv tly x]
  have inv: "spent_inv (fst ?st)" and ttl: "ss_ttlMs (fst ?st) = ss_ttlMs (fst st)"
    and alt: "(\<exists>e'. map_of (seen (fst ?st)) n = Some e' \<and> seen_at e' = seen_at e \<and> (slashed e \<longrightarrow> slashed e'))
       \<or> (\<exists>s. x = (s, Sweep) \<and> seen_at e < s - ss_ttlMs (fst st))" by blast+
  from alt show ?case
  proof
    assume "\<exists>e'. map_of (seen (fst ?st)) n = Some e' \<and> seen_at e' = seen_at e \<and> (slashed e \<longrightarrow> slashed e')"
    then obtain e' where e': "map_of (seen (fst ?st)) n = Some e'" "seen_at e' = seen_at e" "slashed e \<longrightarrow> slashed e'"
      by blast
    from Cons.IH [OF inv e'(1)] e'(2,3) ttl show ?case by auto
  qed auto
qed auto

section \<open>The shared tally as an interface\<close>

text \<open>
  What the spent set relies on: \<open>has\<close> reports exactly the live pairs, asking does not forget
  anything that is still live later, and recording a pair the store has room for makes it live.
\<close>

locale shared_tally =
  fixes ops :: "'t tally_ops"
    and live :: "int \<Rightarrow> 't \<Rightarrow> string \<Rightarrow> string \<Rightarrow> bool"
    and room :: "int \<Rightarrow> 't \<Rightarrow> string \<Rightarrow> string \<Rightarrow> bool"
    and wf :: "'t \<Rightarrow> bool"
  assumes has_live: "wf t \<Longrightarrow> fst (op_has ops now n e t) = live now t n e"
    and has_wf: "wf t \<Longrightarrow> wf (snd (op_has ops now n e t))"
    and has_keeps: "wf t \<Longrightarrow> now \<le> later \<Longrightarrow> live later (snd (op_has ops now n e t)) n' e' = live later t n' e'"
    and record_wf: "wf t \<Longrightarrow> wf (op_record ops now n e t)"
    and record_live: "wf t \<Longrightarrow> room now t n e \<Longrightarrow> live now (op_record ops now n e t) n e"
begin

lemma elsewhere_rejected:
  assumes "wf t" "live now t n ep" "map_of (seen ss) n = None"
  shows "fst (admit rc dv (Some ops) now n (Some s) nonce ep (ss, t)) = FleetReplay"
  using assms has_live [OF assms(1), of now n ep] by (simp add: admit_def Let_def case_prod_beta)

lemma not_elsewhere_admitted:
  assumes "wf t" "\<not> live now t n ep" "map_of (seen ss) n = None"
  shows "fst (admit rc dv (Some ops) now n (Some s) nonce ep (ss, t)) = First"
  using assms has_live [OF assms(1), of now n ep] by (simp add: admit_def Let_def case_prod_beta)

lemma committed_is_live:
  assumes "wf t" "map_of (seen ss) n = Some e" "room now t n ep"
  shows "live now (snd (commit (Some ops) now n ep (ss, t))) n ep"
  using assms record_live by (simp add: commit_def)

lemma admit_wf: "wf t \<Longrightarrow> wf (snd (snd (snd (admit rc dv (Some ops) now n sh nonce ep (ss, t)))))"
  by (auto simp: admit_def Let_def case_prod_beta has_wf split: option.splits sum.splits)

end

definition fleet_ops :: "tally tally_ops" where
  "fleet_ops = \<lparr>op_has = (\<lambda>now n e. tally_has now (JStr n) (JStr e)),
                op_record = (\<lambda>now n e t. snd (tally_record now (JStr n) (JStr e) t))\<rparr>"

definition tally_live :: "int \<Rightarrow> tally \<Rightarrow> string \<Rightarrow> string \<Rightarrow> bool" where
  "tally_live now t n e \<longleftrightarrow> canonicalTallyField (JStr n) = Some n \<and> canonicalTallyField (JStr e) = Some e
     \<and> known (tally_prune now t) n e"

definition tally_room :: "int \<Rightarrow> tally \<Rightarrow> string \<Rightarrow> string \<Rightarrow> bool" where
  "tally_room now t n e \<longleftrightarrow> 0 \<le> tally_ttl t \<and> fst (ingest now (JStr n) (JStr e) t)"

lemma known_prune_prune:
  "tally_inv t \<Longrightarrow> now \<le> later \<Longrightarrow> known (tally_prune later (tally_prune now t)) n e = known (tally_prune later t) n e"
  using tally_inv_prune [of t now]
  by (auto simp: known_prune map_of_evict tally_inv_def old_bucket_def simp del: map_of_eq_Some_iff
      split: option.split)

lemma ingest_canonical: "fst (ingest now nv kv t) \<Longrightarrow> \<exists>n k. canonicalTallyField nv = Some n \<and> canonicalTallyField kv = Some k"
  by (auto simp: ingest_def split: option.splits)

lemma known_ingest_prune:
  assumes inv: "tally_inv t" and ttl: "0 \<le> tally_ttl t" and ok: "fst (ingest now (JStr n) (JStr k) t)"
  shows "known (tally_prune now (snd (ingest now (JStr n) (JStr k) t))) n k"
proof -
  let ?t' = "snd (ingest now (JStr n) (JStr k) t)"
  obtain n' k' where c': "canonicalTallyField (JStr n) = Some n'" "canonicalTallyField (JStr k) = Some k'"
    using ingest_canonical [OF ok] by blast
  then have c: "canonicalTallyField (JStr n) = Some n" "canonicalTallyField (JStr k) = Some k"
    using canonicalTallyField_SomeD by fastforce+
  have inv': "tally_inv ?t'" using inv by (rule tally_inv_ingest)
  have ttl': "tally_ttl ?t' = tally_ttl t" using tally_caps_ingest [of now "JStr n" "JStr k" t] by (simp add: tally_caps_def)
  have "known ?t' n k" using known_ingest [OF c, of now t n k] ok by simp
  moreover have "\<not> old_bucket (now - tally_ttl ?t') b" if "map_of (buckets ?t') k = Some b" for b
    using that ttl inv
    by (auto simp: ttl' ingest_def c bucket_add_def Let_def map_of_evict tally_inv_def old_bucket_def
        simp del: map_of_eq_Some_iff split: option.splits if_splits)
  moreover from calculation(1) obtain b where "map_of (buckets ?t') k = Some b"
    by (auto simp: known_def split: option.splits)
  ultimately show ?thesis by (simp add: known_prune [OF inv'])
qed

interpretation fleet: shared_tally fleet_ops tally_live tally_room tally_inv
proof (unfold_locales, goal_cases)
  case (1 t now n e)
  then show ?case by (simp add: fleet_ops_def tally_live_def tally_has_iff)
next
  case (2 t now n e)
  then show ?case by (simp add: fleet_ops_def tally_inv_has)
next
  case (3 t now later n e n' e')
  then show ?case by (simp add: fleet_ops_def tally_live_def tally_has_def Let_def known_prune_prune del: tally_prune_sel)
next
  case (4 t now n e)
  then show ?case by (simp add: fleet_ops_def tally_inv_record)
next
  case (5 t now n e)
  then have "fst (ingest now (JStr n) (JStr e) t)" by (simp add: tally_room_def)
  with ingest_canonical have "canonicalTallyField (JStr n) = Some n \<and> canonicalTallyField (JStr e) = Some e"
    using canonicalTallyField_SomeD by fastforce
  with 5 known_ingest_prune [of t now n e] show ?case
    by (simp add: fleet_ops_def tally_live_def tally_room_def snd_tally_record del: tally_prune_sel)
qed

lemma line_share_x: "share_x (line_share a0 a1 x) = int_dec x"
  by (simp add: line_share_def share_at_def)

section \<open>Properties\<close>

text \<open>
  C12: at most one first admission per nullifier and retention period. If the same nullifier is
  admitted as \<open>first\<close> twice, with any operations in between (other admissions, commits, sweeps,
  any tally), then a sweep ran in between more than \<open>ttlMs\<close> after the first admission.
\<close>

theorem nullifier_first_once:
  assumes "spent_inv ss" and "admit rc dv tly now n (Some s) nonce ep (ss, t) = (First, call, st1)"
    and "fst (admit rc dv tly now' n (Some s') nonce' ep' (fold (spent_step rc dv tly) ops st1)) = First"
  shows "\<exists>w. (w, Sweep) \<in> set ops \<and> now + ss_ttlMs ss < w"
proof -
  obtain ss1 t1 where st1: "st1 = (ss1, t1)" by fastforce
  have inv: "spent_inv ss1" using spent_inv_admit [OF assms(1) assms(2) [unfolded st1]] .
  from assms(2) [unfolded st1] have e: "\<exists>e. map_of (seen ss1) n = Some e \<and> seen_at e = now" and "ss_ttlMs ss1 = ss_ttlMs ss"
    by (cases rule: admit_cases; auto split: option.splits if_splits)+
  let ?st = "fold (spent_step rc dv tly) ops st1"
  have "map_of (seen (fst ?st)) n = None"
  proof -
    obtain r c a b where r: "admit rc dv tly now' n (Some s') nonce' ep' (fst ?st, snd ?st) = (r, c, a, b)"
      by (metis prod_cases4)
    with assms(3) have "r = First" by simp
    with r show ?thesis by (cases rule: admit_cases) (auto split: option.splits if_splits)
  qed
  with e spent_run_entry [of st1 n _ rc dv tly ops] inv st1 \<open>ss_ttlMs ss1 = ss_ttlMs ss\<close>
  show ?thesis by force
qed

definition demo_share :: "string \<Rightarrow> share" where "demo_share x = \<lparr>share_x = x, share_y = ''1''\<rparr>"

definition demo_spent :: "spent_op list \<Rightarrow> spent_set" where
  "demo_spent ops = fst (fold (spent_step reconstructSecret (\<lambda>_. Inl TypeError) None) (map (Pair 0) ops) (makeSpentSet 10 5, ()))"

theorem nullifier_first_once_witness:
  "\<exists>w. (w, Sweep) \<in> set [(11 :: int, Sweep)] \<and> 0 + ss_ttlMs (makeSpentSet 10 5) < w"
proof (rule nullifier_first_once [of _ reconstructSecret "\<lambda>_. Inl TypeError" None 0 "''n''" "demo_share ''3''" None "''e''" "()"
      None "(demo_spent [Admit ''n'' (Some (demo_share ''3'')) None ''e''], ())" 12 "demo_share ''4''" None "''e''"])
  show "admit reconstructSecret (\<lambda>_. Inl TypeError) None 0 ''n'' (Some (demo_share ''3'')) None ''e'' (makeSpentSet 10 5, ())
      = (First, None, demo_spent [Admit ''n'' (Some (demo_share ''3'')) None ''e''], ())"
    by (simp add: demo_spent_def admit_def makeSpentSet_def)
  show "fst (admit reconstructSecret (\<lambda>_. Inl TypeError) None 12 ''n'' (Some (demo_share ''4'')) None ''e''
      (fold (spent_step reconstructSecret (\<lambda>_. Inl TypeError) None) [(11, Sweep)]
         (demo_spent [Admit ''n'' (Some (demo_share ''3'')) None ''e''], ()))) = First"
    by (simp add: demo_spent_def admit_def makeSpentSet_def jmap_evict_def old_entry_def)
qed simp

text \<open>Operations that cannot touch a live, unslashed entry of \<open>n\<close> with the single point \<open>x\<close>.\<close>

fun harmless :: "string \<Rightarrow> string \<Rightarrow> int \<Rightarrow> int \<times> spent_op \<Rightarrow> bool" where
  "harmless n x until (now, Admit m (Some s) nonce ep) \<longleftrightarrow> m \<noteq> n \<or> share_x s = x"
| "harmless n x until (now, Sweep) \<longleftrightarrow> now \<le> until"
| "harmless n x until _ \<longleftrightarrow> True"

lemma harmless_step:
  assumes inv: "spent_inv (fst st)" and e: "map_of (seen (fst st)) n = Some e" "\<not> slashed e" "xs e = [x]"
    and h: "harmless n x (seen_at e + ss_ttlMs (fst st)) op"
  shows "map_of (seen (fst (spent_step rc dv tly op st))) n = Some e"
proof (cases op)
  case (Pair now o1)
  obtain ss t where st: "st = (ss, t)" by fastforce
  show ?thesis
  proof (cases o1)
    case (Admit m sh nonce ep)
    obtain r call ss' t' where a: "admit rc dv tly now m sh nonce ep (ss, t) = (r, call, ss', t')" by (metis prod_cases4)
    have "map_of (seen ss') n = Some e"
    proof (cases sh)
      case None
      with a e st show ?thesis by (auto simp: admit_none)
    next
      case (Some s)
      from a [unfolded Some] show ?thesis
        by (cases rule: admit_cases) (use e st h Pair Admit Some in \<open>auto split: if_splits\<close>)
    qed
    with a st Pair Admit show ?thesis by simp
  next
    case (Commit m ep)
    with Pair st e show ?thesis by (auto simp: commit_def split: option.split)
  next
    case Sweep
    have "jmap_wf (seen ss)" using inv st by (simp add: spent_inv_def)
    with Sweep Pair st e h show ?thesis by (simp add: map_of_evict old_entry_def del: map_of_eq_Some_iff)
  qed
qed

lemma harmless_run:
  assumes "spent_inv (fst st)" "map_of (seen (fst st)) n = Some e" "\<not> slashed e" "xs e = [x]"
    and "\<forall>op\<in>set ops. harmless n x (seen_at e + ss_ttlMs (fst st)) op"
  shows "map_of (seen (fst (fold (spent_step rc dv tly) ops st))) n = Some e
    \<and> spent_inv (fst (fold (spent_step rc dv tly) ops st))
    \<and> ss_ttlMs (fst (fold (spent_step rc dv tly) ops st)) = ss_ttlMs (fst st)"
  using assms
proof (induction ops arbitrary: st)
  case (Cons op ops)
  let ?st = "spent_step rc dv tly op st"
  have "map_of (seen (fst ?st)) n = Some e" using harmless_step [OF Cons.prems(1-4)] Cons.prems(5) by simp
  with Cons.IH [of ?st] spent_step_entry [OF Cons.prems(1,2), of rc dv tly op] Cons.prems(3-5) show ?case by simp
qed simp

lemma overspend_call:
  assumes "0 \<le> xA" "xA < FIELD" "0 \<le> xB" "xB < FIELD" "coprime (xB - xA) FIELD" "0 \<le> a0" "a0 < FIELD"
    and tiers: "tiers \<noteq> []" "\<forall>l\<in>set tiers. 1 \<le> l \<and> l \<le> MAX_LIMIT"
    and e: "map_of (seen ss) n = Some e" "\<not> slashed e" "xs e = [int_dec xA]" "first e = line_share a0 a1 xA"
  shows "\<exists>l c. l \<in> set tiers \<and> sc_secret c = int_dec a0 \<and> sc_commitment c = int_dec (rateCommitmentBig L a0 l)
    \<and> admit reconstructSecret (resolveSlashTier L C tiers (Some leaves)) tly now n (Some (line_share a0 a1 xB)) nonce ep (ss, t)
      = (Slash (Some (sc_commitment c)), Some c, ss\<lparr>seen := AList.update n (e\<lparr>slashed := True\<rparr>) (seen ss)\<rparr>, t)"
proof -
  let ?dv = "resolveSlashTier L C tiers (Some leaves)"
  have ne: "xA \<noteq> xB" using assms(5) by (auto simp: FIELD_def)
  have rec: "reconstructSecret (first e) (line_share a0 a1 xB) = Inr (int_dec a0)"
    unfolding e(4) by (rule reconstruct_line) (use assms in simp_all)
  have "toField (JStr (int_dec a0)) = Inr a0" using assms(6,7) by simp
  from resolveSlashLeaf_total [OF tiers this, of L C "\<lambda>c. c \<in> set leaves"]
  obtain tier where tier: "?dv (int_dec a0) = Inr tier" "sl_limit tier \<in> set tiers"
      "sl_commitment tier = int_dec (rateCommitmentBig L a0 (sl_limit tier))"
    by (auto simp: resolveSlashTier_def)
  let ?c = "\<lparr>sc_commitment = sl_commitment tier, sc_secret = int_dec a0, sc_tier = tier\<rparr>"
  have "admit reconstructSecret ?dv tly now n (Some (line_share a0 a1 xB)) nonce ep (ss, t)
      = (Slash (Some (sl_commitment tier)), Some ?c, ss\<lparr>seen := AList.update n (e\<lparr>slashed := True\<rparr>) (seen ss)\<rparr>, t)"
    using e(1-3) ne by (simp add: admit_def rec tier(1) Let_def line_share_x)
  with tier show ?thesis by (intro exI [of _ "sl_limit tier"] exI [of _ ?c]) simp
qed

text \<open>
  C11: an over-spend is slashed, once, with the right leaf. A member's line is evaluated at two
  distinct points under one nullifier. Between the two admissions anything may happen that leaves
  the first sighting in place (other nullifiers, resends of the first point, commits, sweeps within
  its retention). Then the second admission is refused and submits the slash of the reconstructed
  secret's leaf at a tier the gateway knows; and after any further operations, sweeps included, a
  share under that nullifier is refused with no further slash, unless a sweep ran more than
  \<open>ttlMs\<close> after the first sighting.
\<close>

theorem overspend_slashed_once:
  assumes "0 \<le> xA" "xA < FIELD" "0 \<le> xB" "xB < FIELD" "coprime (xB - xA) FIELD" "0 \<le> a0" "a0 < FIELD"
    and tiers: "tiers \<noteq> []" "\<forall>l\<in>set tiers. 1 \<le> l \<and> l \<le> MAX_LIMIT"
    and inv: "spent_inv ss" and dv: "dv = resolveSlashTier L C tiers (Some leaves)"
    and A: "admit reconstructSecret dv tly now n (Some (line_share a0 a1 xA)) nonce ep (ss, t) = (First, cA, st1)"
    and mid: "\<forall>op\<in>set mid. harmless n (int_dec xA) (now + ss_ttlMs ss) op"
    and B: "admit reconstructSecret dv tly now' n (Some (line_share a0 a1 xB)) nonce' ep'
        (fold (spent_step reconstructSecret dv tly) mid st1) = (r, call, st2)"
  shows "(\<exists>l c. l \<in> set tiers \<and> r = Slash (Some (sc_commitment c)) \<and> call = Some c \<and> sc_secret c = int_dec a0
            \<and> sc_commitment c = int_dec (rateCommitmentBig L a0 l))
    \<and> ((\<exists>w. (w, Sweep) \<in> set ops \<and> now + ss_ttlMs ss < w)
       \<or> (\<exists>st'. admit reconstructSecret dv tly now'' n (Some s) nonce'' ep''
            (fold (spent_step reconstructSecret dv tly) ops st2) = (RateSlashed, None, st')))"
proof -
  let ?st = "fold (spent_step reconstructSecret dv tly) mid st1"
  obtain ss1 t1 ssm tm where st: "st1 = (ss1, t1)" "?st = (ssm, tm)" by fastforce
  have inv1: "spent_inv ss1" using spent_inv_admit [OF inv A [unfolded st(1)]] .
  define e where "e = \<lparr>xs = [int_dec xA], first = line_share a0 a1 xA, slashed = False, seen_at = now\<rparr>"
  have "map_of (seen ss1) n = Some e \<and> ss_ttlMs ss1 = ss_ttlMs ss" using A [unfolded st(1)]
    by (cases rule: admit_cases) (auto simp: e_def line_share_x split: option.splits if_splits)
  then have e: "map_of (seen ss1) n = Some e" "\<not> slashed e" "xs e = [int_dec xA]" "first e = line_share a0 a1 xA"
      "seen_at e = now" and ttl: "ss_ttlMs ss1 = ss_ttlMs ss" by (simp_all add: e_def)
  from harmless_run [of st1 n e "int_dec xA" mid reconstructSecret dv tly] inv1 e ttl mid st
  have m: "map_of (seen ssm) n = Some e" "spent_inv ssm" "ss_ttlMs ssm = ss_ttlMs ss" by auto
  from overspend_call [OF assms(1-7) tiers m(1) e(2-4), of L C leaves tly now' nonce' ep' tm]
  obtain l c where c: "l \<in> set tiers" "sc_secret c = int_dec a0" "sc_commitment c = int_dec (rateCommitmentBig L a0 l)"
    and r: "r = Slash (Some (sc_commitment c))" "call = Some c"
      "st2 = (ssm\<lparr>seen := AList.update n (e\<lparr>slashed := True\<rparr>) (seen ssm)\<rparr>, tm)"
    using B [unfolded st(2)] by (auto simp: dv [symmetric])
  have inv2: "spent_inv (fst st2)" using m(2) e(3) r(3) spent_inv_admit [OF m(2), of reconstructSecret dv tly now' n _ nonce' ep' tm r call]
      B [unfolded st(2)] by (metis fst_conv)
  have e2: "map_of (seen (fst st2)) n = Some (e\<lparr>slashed := True\<rparr>)" using r(3) by simp
  have "(\<exists>w. (w, Sweep) \<in> set ops \<and> now + ss_ttlMs ss < w) \<or>
      (\<exists>e'. map_of (seen (fst (fold (spent_step reconstructSecret dv tly) ops st2))) n = Some e' \<and> slashed e')"
    using spent_run_entry [OF inv2 e2, of reconstructSecret dv tly ops] r(3) m(3) e(5) by force
  moreover have "\<exists>st'. admit reconstructSecret dv tly now'' n (Some s) nonce'' ep'' (u, v) = (RateSlashed, None, st')"
    if "map_of (seen u) n = Some e'" "slashed e'" for u v e'
    using that by (simp add: admit_def)
  ultimately show ?thesis using c r by (metis prod.collapse)
qed

theorem overspend_slashed_once_witness:
  "\<exists>st1 st2 c st'. admit reconstructSecret (resolveSlashTier demo_lib demo_cfg [8, 32] (Some [])) None 0 ''n''
        (Some (line_share 42 17 3)) None ''e'' (makeSpentSet 10 5, ()) = (First, None, st1)
    \<and> admit reconstructSecret (resolveSlashTier demo_lib demo_cfg [8, 32] (Some [])) None 1 ''n''
        (Some (line_share 42 17 4)) None ''e'' st1 = (Slash (Some (sc_commitment c)), Some c, st2)
    \<and> sc_secret c = int_dec 42
    \<and> admit reconstructSecret (resolveSlashTier demo_lib demo_cfg [8, 32] (Some [])) None 11 ''n''
        (Some (line_share 42 17 5)) None ''e'' (spent_sweep 10 (fst st2), snd st2) = (RateSlashed, None, st')"
proof -
  let ?dv = "resolveSlashTier demo_lib demo_cfg [8, 32] (Some [])"
  obtain cA st1 where A: "admit reconstructSecret ?dv None 0 ''n'' (Some (line_share 42 17 3)) None ''e'' (makeSpentSet 10 5, ())
      = (First, cA, st1)" and cA: "cA = None" by (simp add: admit_def makeSpentSet_def)
  obtain r call st2 where B: "admit reconstructSecret ?dv None 1 ''n'' (Some (line_share 42 17 4)) None ''e'' st1 = (r, call, st2)"
    by (metis prod_cases3)
  then have B': "admit reconstructSecret ?dv None 1 ''n'' (Some (line_share 42 17 4)) None ''e''
      (fold (spent_step reconstructSecret ?dv None) [] st1) = (r, call, st2)" by simp
  have "coprime (4 - 3) FIELD" by simp
  then have "(\<exists>l c. l \<in> set [8, 32] \<and> r = Slash (Some (sc_commitment c)) \<and> call = Some c \<and> sc_secret c = int_dec 42
            \<and> sc_commitment c = int_dec (rateCommitmentBig demo_lib 42 l))
    \<and> ((\<exists>w. (w, Sweep) \<in> set [(10, Sweep)] \<and> 0 + ss_ttlMs (makeSpentSet 10 5) < w)
      \<or> (\<exists>st'. admit reconstructSecret ?dv None 11 ''n'' (Some (line_share 42 17 5)) None ''e''
            (fold (spent_step reconstructSecret ?dv None) [(10, Sweep)] st2) = (RateSlashed, None, st')))"
    by (intro overspend_slashed_once [OF _ _ _ _ _ _ _ _ _ _ refl A _ B']) (simp_all add: FIELD_def MAX_LIMIT_def)
  then have "(\<exists>c. r = Slash (Some (sc_commitment c)) \<and> call = Some c \<and> sc_secret c = int_dec 42)
      \<and> (\<exists>st'. admit reconstructSecret ?dv None 11 ''n'' (Some (line_share 42 17 5)) None ''e''
            (spent_sweep 10 (fst st2), snd st2) = (RateSlashed, None, st'))"
    by (auto simp: makeSpentSet_def)
  with A B cA show ?thesis by blast
qed

text \<open>
  an exact resend is never slashed and is tolerated only inside the window. Presenting the same
  share and nonce again while the entry is live is admitted as an idempotent retry when it comes at
  most \<open>replayWindowMs\<close> after the first sighting and is refused as a replayed envelope after
  that; in both cases the state does not change and nothing is slashed.
\<close>

theorem exact_resend_window:
  assumes A: "admit rc dv tly now n (Some s) nonce ep (ss, t) = (First, call, ss1, t1)"
  shows "admit rc dv tly later n (Some s) nonce ep' (ss1, t1)
    = (if later - now \<le> replayWindowMs ss then Replay else ReplayedEnvelope, None, ss1, t1)"
proof -
  from A have "map_of (seen ss1) n = Some \<lparr>xs = [share_x s], first = s, slashed = False, seen_at = now\<rparr>"
      "map_of (seenEnv ss1) (envKeyOf n s nonce) = Some now" "replayWindowMs ss1 = replayWindowMs ss"
    by (cases rule: admit_cases; auto split: option.splits if_splits)+
  then show ?thesis by (simp add: admit_def Let_def)
qed

theorem exact_resend_window_witness:
  "fst (admit reconstructSecret (\<lambda>_. Inl TypeError) None 5 ''n'' (Some (demo_share ''3'')) None ''e''
      (demo_spent [Admit ''n'' (Some (demo_share ''3'')) None ''e''], ())) = Replay
   \<and> fst (admit reconstructSecret (\<lambda>_. Inl TypeError) None 6 ''n'' (Some (demo_share ''3'')) None ''e''
      (demo_spent [Admit ''n'' (Some (demo_share ''3'')) None ''e''], ())) = ReplayedEnvelope"
proof -
  have A: "admit reconstructSecret (\<lambda>_. Inl TypeError) None 0 ''n'' (Some (demo_share ''3'')) None ''e'' (makeSpentSet 10 5, ())
      = (First, None, demo_spent [Admit ''n'' (Some (demo_share ''3'')) None ''e''], ())"
    by (simp add: demo_spent_def admit_def makeSpentSet_def)
  have "replayWindowMs (makeSpentSet 10 5) = 5" by (simp add: makeSpentSet_def)
  with exact_resend_window [OF A, of 5 "''e''"] exact_resend_window [OF A, of 6 "''e''"] show ?thesis by simp
qed

text \<open>A live bucket keeps its start time and its nullifiers through every operation of the tally.\<close>

lemma ingest_bucket:
  assumes inv: "tally_inv t" and b: "map_of (buckets t) k = Some b" "now - tally_ttl t \<le> bat b"
  shows "\<exists>b'. map_of (buckets (snd (ingest now nv kv t))) k = Some b' \<and> bat b' = bat b \<and> set (bset b) \<subseteq> set (bset b')"
proof -
  have kept: "map_of (buckets (tally_prune now t)) k = Some b"
    using inv b by (simp add: map_of_evict tally_inv_def old_bucket_def del: map_of_eq_Some_iff)
  have add: "\<exists>b'. map_of (buckets (snd (bucket_add n m c u))) k = Some b' \<and> bat b' = bat b \<and> set (bset b) \<subseteq> set (bset b')"
    if "map_of (buckets u) k = Some b" "m = k \<longrightarrow> c = b" for n m c u
    using that by (auto simp: bucket_add_def simp del: map_of_eq_Some_iff)
  show ?thesis
  proof (cases "canonicalTallyField nv"; cases "canonicalTallyField kv")
    fix n m assume c: "canonicalTallyField nv = Some n" "canonicalTallyField kv = Some m"
    show ?thesis
    proof (cases "map_of (buckets (tally_prune now t)) m")
      case None
      with kept have "m \<noteq> k" by auto
      with c None kept add [of "(tally_prune now t)\<lparr>buckets := AList.update m \<lparr>bset = [], bat = now\<rparr> (buckets (tally_prune now t))\<rparr>"]
      show ?thesis by (auto simp: ingest_def Let_def simp del: tally_prune_sel map_of_eq_Some_iff)
    next
      case (Some d)
      with kept have "m = k \<longrightarrow> d = b" by auto
      with c Some add [OF kept this, of n] show ?thesis by (simp add: ingest_def Let_def del: tally_prune_sel map_of_eq_Some_iff)
    qed
  qed (use b in \<open>simp_all add: ingest_def\<close>)
qed

lemma tally_step_bucket:
  assumes "tally_inv t" "map_of (buckets t) k = Some b" "fst x - tally_ttl t \<le> bat b"
  shows "\<exists>b'. map_of (buckets (tally_step x t)) k = Some b' \<and> bat b' = bat b \<and> set (bset b) \<subseteq> set (bset b')"
proof -
  obtain now op where x: "x = (now, op)" by fastforce
  have kept: "map_of (buckets (tally_prune now t)) k = Some b"
    using assms x by (simp add: map_of_evict tally_inv_def old_bucket_def del: map_of_eq_Some_iff)
  from ingest_bucket [OF assms(1,2)] assms(3) kept show ?thesis
    by (cases op) (simp_all add: x snd_tally_record tally_has_def Let_def del: tally_prune_sel map_of_eq_Some_iff)
qed

lemma tally_run_bucket:
  assumes "tally_inv t" "map_of (buckets t) k = Some b" "\<forall>x\<in>set ops. fst x - tally_ttl t \<le> bat b"
  shows "\<exists>b'. map_of (buckets (fold tally_step ops t)) k = Some b' \<and> bat b' = bat b \<and> set (bset b) \<subseteq> set (bset b')"
  using assms
proof (induction ops arbitrary: t b)
  case (Cons x ops)
  have "tally_ttl (tally_step x t) = tally_ttl t" using tally_step_caps [of x t] by (simp add: tally_caps_def)
  moreover obtain b1 where b1: "map_of (buckets (tally_step x t)) k = Some b1" "bat b1 = bat b" "set (bset b) \<subseteq> set (bset b1)"
    using tally_step_bucket [OF Cons.prems(1,2), of x] Cons.prems(3) by auto
  ultimately show ?case using Cons.IH [OF tally_step_inv [OF Cons.prems(1)] b1(1)] Cons.prems(3) by fastforce
qed simp

text \<open>
  C18: a captured envelope fanned out to a peer is refused there. Gateway \<open>i\<close> records an
  established nullifier on the shared bus; gateway \<open>j\<close> is subscribed and its tally has room for the
  announcement. Then, after any further announcements, lookups, records and sweeps of its tally and as
  long as the epoch bucket (started at \<open>bat b\<close>) is within the TTL, gateway \<open>j\<close>, if it has not
  admitted that nullifier itself, refuses the envelope as a fleet replay.
\<close>

theorem cross_gateway_replay_rejected:
  assumes "i < length fl" "j < length fl" "j \<noteq> i" "tally_inv (snd (fl ! j))" "fst (fl ! j)"
    and "fst (ingest now (JStr n) (JStr ep) (snd (fl ! j)))"
    and t: "t = snd (fleet_record now i (JStr n) (JStr ep) fl ! j)"
    and b: "map_of (buckets t) ep = Some b" "\<forall>x\<in>set ops. fst x \<le> bat b + tally_ttl t" "later \<le> bat b + tally_ttl t"
    and "map_of (seen ss) n = None"
  shows "fst (admit rc dv (Some fleet_ops) later n (Some s) nonce ep (ss, fold tally_step ops t)) = FleetReplay"
proof -
  obtain n' k' where c': "canonicalTallyField (JStr n) = Some n'" "canonicalTallyField (JStr ep) = Some k'"
    using ingest_canonical [OF assms(6)] by blast
  then have c: "canonicalTallyField (JStr n) = Some n" "canonicalTallyField (JStr ep) = Some ep"
    using canonicalTallyField_SomeD by fastforce+
  have t': "t = snd (ingest now (JStr n) (JStr ep) (snd (fl ! j)))"
    using t assms(1,2,3,5) c
    by (simp add: fleet_record_def tally_record_def loopback_publish_def Let_def case_prod_beta)
  then have inv: "tally_inv t" using assms(4) by (simp add: tally_inv_ingest)
  have "known t n ep" using known_ingest [OF c, of now "snd (fl ! j)" n ep] assms(6) t' by simp
  then have n: "n \<in> set (bset b)" using b(1) by (simp add: known_def)
  let ?t = "fold tally_step ops t"
  have inv': "tally_inv ?t" and ttl: "tally_ttl ?t = tally_ttl t" using tally_run_inv [OF inv, of ops] by (simp_all add: tally_caps_def)
  have "\<forall>x\<in>set ops. fst x - tally_ttl t \<le> bat b" using b(2) by (auto simp: algebra_simps)
  from tally_run_bucket [OF inv b(1) this] obtain b' where
    b': "map_of (buckets ?t) ep = Some b'" "bat b' = bat b" "n \<in> set (bset b')" using n by blast
  then have "known (tally_prune later ?t) n ep"
    unfolding known_prune [OF inv'] using b(3) ttl by (simp add: known_def old_bucket_def)
  then have "tally_live later ?t n ep" using c by (simp add: tally_live_def)
  with inv' assms(11) show ?thesis by (intro fleet.elsewhere_rejected)
qed

theorem cross_gateway_replay_rejected_witness:
  "fst (admit reconstructSecret (\<lambda>_. Inl TypeError) (Some fleet_ops) 50 ''7'' (Some (demo_share ''3'')) None ''1''
     (makeSpentSet 10 5, fold tally_step [(20, Ingest (JStr ''8'') (JStr ''1'')), (30, Prune)]
        (snd (fleet_record 0 0 (JStr ''7'') (JStr ''1'') [(True, demo_tally), (True, demo_tally)] ! 1)))) = FleetReplay"
proof -
  have c: "canonicalTallyField (JStr ''7'') = Some ''7''" "canonicalTallyField (JStr ''1'') = Some ''1''"
    by code_simp+
  note eval = demo_tally_def tally_inv_def ingest_def tally_prune_def bucket_add_def jmap_evict_def old_bucket_def
    fleet_record_def tally_record_def loopback_publish_def c Let_def
  let ?fl = "[(True, demo_tally), (True, demo_tally)]"
  show ?thesis
    by (rule cross_gateway_replay_rejected [of 0 ?fl 1 0 "''7''" "''1''" _ "\<lparr>bset = [''7''], bat = 0\<rparr>" _ 50])
      (simp_all add: eval makeSpentSet_def)
qed

text \<open>
  the tally is fail-open: it can only turn an admission into a fleet replay. Against the run
  without any tally, an admission with a shared tally, whatever that tally answers, either is
  refused as a fleet replay or has the same verdict, the same slash call and the same local state.
\<close>

theorem tally_fail_open:
  "(let (r, call, ss', t') = admit rc dv (Some ops) now n sh nonce ep (ss, t);
        (r0, call0, ss0, t0) = admit rc dv None now n sh nonce ep (ss, t)
    in (r = FleetReplay \<and> r0 = First) \<or> (r = r0 \<and> call = call0 \<and> ss' = ss0))"
proof (cases sh)
  case (Some s)
  show ?thesis
  proof (cases "map_of (seen ss) n")
    case None
    with Some show ?thesis by (cases "op_has ops now n ep t") (simp add: admit_def Let_def)
  next
    case (Some e)
    with \<open>sh = Some s\<close> have "admit rc dv (Some ops) now n sh nonce ep (ss, t) = admit rc dv None now n sh nonce ep (ss, t)"
      by (simp add: admit_def Let_def)
    then show ?thesis by (simp add: case_prod_beta Let_def)
  qed
qed (simp add: admit_def)

end
