(* ===== verification/ConnLimits.thy ===== *)
theory ConnLimits
  imports Ttl Rln_Field
begin

text \<open>
  The resource limits of \<^verbatim>\<open>src/gateway/gateway.mjs\<close>: \<open>makeConnLimiter\<close> (concurrent
  connections, and concurrent tunnels per nullifier), \<open>makePayloadBudget\<close> (combined bytes per
  RLN slot) and \<open>payloadTransform\<close> (the relay that enforces the budget).
\<close>

section \<open>Connection limiter\<close>

record conn_limiter =
  maxConns :: int
  maxPerNullifier :: int
  conns :: int
  perNullifier :: "(string, int) jmap"

definition makeConnLimiter :: "int \<Rightarrow> int \<Rightarrow> conn_limiter" where
  "makeConnLimiter mc mn = \<lparr>maxConns = mc, maxPerNullifier = mn, conns = 0, perNullifier = []\<rparr>"

definition acquire :: "conn_limiter \<Rightarrow> bool \<times> conn_limiter" where
  "acquire l = (if maxConns l > 0 \<and> conns l \<ge> maxConns l then (False, l)
     else (True, l\<lparr>conns := conns l + 1\<rparr>))"

definition release :: "conn_limiter \<Rightarrow> conn_limiter" where
  "release l = (if conns l > 0 then l\<lparr>conns := conns l - 1\<rparr> else l)"

definition nullifierCount :: "conn_limiter \<Rightarrow> string \<Rightarrow> int" where
  "nullifierCount l n = (case map_of (perNullifier l) n of Some c \<Rightarrow> c | None \<Rightarrow> 0)"

definition acquireNullifier :: "string \<Rightarrow> conn_limiter \<Rightarrow> bool \<times> conn_limiter" where
  "acquireNullifier n l = (let cur = nullifierCount l n in
     if maxPerNullifier l > 0 \<and> cur \<ge> maxPerNullifier l then (False, l)
     else (True, l\<lparr>perNullifier := AList.update n (cur + 1) (perNullifier l)\<rparr>))"

definition releaseNullifier :: "string \<Rightarrow> conn_limiter \<Rightarrow> conn_limiter" where
  "releaseNullifier n l = (let cur = nullifierCount l n in
     if cur \<le> 1 then l\<lparr>perNullifier := AList.delete n (perNullifier l)\<rparr>
     else l\<lparr>perNullifier := AList.update n (cur - 1) (perNullifier l)\<rparr>)"

definition trackedNullifiers :: "conn_limiter \<Rightarrow> nat" where
  "trackedNullifiers l = length (perNullifier l)"

definition limiter_inv :: "conn_limiter \<Rightarrow> bool" where
  "limiter_inv l \<longleftrightarrow> 0 \<le> conns l \<and> (maxConns l > 0 \<longrightarrow> conns l \<le> maxConns l)
     \<and> jmap_wf (perNullifier l)
     \<and> (\<forall>n c. map_of (perNullifier l) n = Some c \<longrightarrow> 1 \<le> c \<and> (maxPerNullifier l > 0 \<longrightarrow> c \<le> maxPerNullifier l))"

lemma limiter_inv_init [simp]: "0 \<le> mc \<Longrightarrow> limiter_inv (makeConnLimiter mc mn)"
  by (simp add: limiter_inv_def makeConnLimiter_def)

lemma limiter_inv_acquire [inv_intros]: "limiter_inv l \<Longrightarrow> acquire l = (b, l') \<Longrightarrow> limiter_inv l'"
  by (auto simp: limiter_inv_def acquire_def split: if_splits)

lemma limiter_inv_release [inv_intros]: "limiter_inv l \<Longrightarrow> limiter_inv (release l)"
  by (auto simp: limiter_inv_def release_def)

lemma nullifierCount_bounds:
  assumes "limiter_inv l"
  shows "0 \<le> nullifierCount l n" and "maxPerNullifier l > 0 \<Longrightarrow> nullifierCount l n \<le> maxPerNullifier l"
proof -
  have "map_of (perNullifier l) n = Some c \<Longrightarrow> 1 \<le> c \<and> (maxPerNullifier l > 0 \<longrightarrow> c \<le> maxPerNullifier l)" for c
    using assms unfolding limiter_inv_def by blast
  then show "0 \<le> nullifierCount l n" "maxPerNullifier l > 0 \<Longrightarrow> nullifierCount l n \<le> maxPerNullifier l"
    by (cases "map_of (perNullifier l) n"; fastforce simp: nullifierCount_def)+
qed

lemma limiter_inv_set:
  assumes "limiter_inv l" "1 \<le> c" "maxPerNullifier l > 0 \<longrightarrow> c \<le> maxPerNullifier l"
  shows "limiter_inv (l\<lparr>perNullifier := AList.update n c (perNullifier l)\<rparr>)"
  using assms unfolding limiter_inv_def by (simp del: map_of_eq_Some_iff)

lemma limiter_inv_del: "limiter_inv l \<Longrightarrow> limiter_inv (l\<lparr>perNullifier := AList.delete n (perNullifier l)\<rparr>)"
  unfolding limiter_inv_def by (simp del: map_of_eq_Some_iff)

lemma limiter_inv_acquireNullifier [inv_intros]:
  "limiter_inv l \<Longrightarrow> acquireNullifier n l = (b, l') \<Longrightarrow> limiter_inv l'"
  using nullifierCount_bounds [of l n]
  by (auto simp: acquireNullifier_def Let_def intro!: limiter_inv_set split: if_splits)

lemma limiter_inv_releaseNullifier [inv_intros]: "limiter_inv l \<Longrightarrow> limiter_inv (releaseNullifier n l)"
  using nullifierCount_bounds [of l n]
  by (auto simp: releaseNullifier_def Let_def intro!: limiter_inv_set limiter_inv_del)

lemma nullifierCount_acquire:
  "acquireNullifier n l = (True, l') \<Longrightarrow>
     nullifierCount l' m = nullifierCount l m + (if m = n then 1 else 0)"
  by (auto simp: acquireNullifier_def nullifierCount_def Let_def split: if_splits)

lemma nullifierCount_release:
  "limiter_inv l \<Longrightarrow>
     nullifierCount (releaseNullifier n l) m = (if m = n then max 0 (nullifierCount l n - 1) else nullifierCount l m)"
  using nullifierCount_bounds(1) [of l n]
  by (auto simp: releaseNullifier_def nullifierCount_def Let_def)

section \<open>Payload budget\<close>

record budget_entry =
  used :: int
  active :: int
  at :: int

record payload_budget =
  maxBytes :: int
  ttlMs :: int
  entries :: "(string, budget_entry) jmap"

definition makePayloadBudget :: "jsval \<Rightarrow> jsval \<Rightarrow> payload_budget res" where
  "makePayloadBudget mb ttl = (case (js_number mb, ttl) of
      (JNum m, JNum t) \<Rightarrow>
        if \<not> is_safe_integer (JNum m) \<or> m < 0
        then Inl (Error ''payload budget maxBytes must be a non-negative safe integer'')
        else if \<not> is_safe_integer (JNum t) \<or> t \<le> 0
        then Inl (Error ''payload budget ttlMs must be a positive safe integer'')
        else Inr \<lparr>maxBytes = m, ttlMs = t, entries = []\<rparr>
    | (JNum m, _) \<Rightarrow>
        if \<not> is_safe_integer (JNum m) \<or> m < 0
        then Inl (Error ''payload budget maxBytes must be a non-negative safe integer'')
        else Inl (Error ''payload budget ttlMs must be a positive safe integer'')
    | _ \<Rightarrow> Inl (Error ''payload budget maxBytes must be a non-negative safe integer''))"

definition budget_key :: "string \<Rightarrow> string \<Rightarrow> string" where  \<comment> \<open>\<open>keyOf\<close>\<close>
  "budget_key nullifier ep = ep @ [CHR 0x00] @ nullifier"

definition stale_entry :: "int \<Rightarrow> budget_entry \<Rightarrow> bool" where
  "stale_entry cutoff e \<longleftrightarrow> active e = 0 \<and> at e < cutoff"

definition budget_sweep :: "int \<Rightarrow> payload_budget \<Rightarrow> payload_budget" where
  "budget_sweep now b = b\<lparr>entries := jmap_evict (\<lambda>_. stale_entry (now - ttlMs b)) (entries b)\<rparr>"

definition entryFor :: "int \<Rightarrow> string \<Rightarrow> payload_budget \<Rightarrow> budget_entry \<times> payload_budget" where
  "entryFor now key b = (case map_of (entries b) key of
      Some e \<Rightarrow> (e, b)
    | None \<Rightarrow> let e = \<lparr>used = 0, active = 0, at = now\<rparr>; b' = budget_sweep now b
        in (e, b'\<lparr>entries := AList.update key e (entries b')\<rparr>))"

definition put_entry :: "string \<Rightarrow> budget_entry \<Rightarrow> payload_budget \<Rightarrow> payload_budget" where
  "put_entry key e b = b\<lparr>entries := AList.update key e (entries b)\<rparr>"

text \<open>\<open>None\<close> is \<open>Infinity\<close>, the answer of a disabled budget.\<close>

definition remaining :: "int \<Rightarrow> string \<Rightarrow> payload_budget \<Rightarrow> int option \<times> payload_budget" where
  "remaining now key b = (if maxBytes b = 0 then (None, b)
     else case entryFor now key b of (e, b') \<Rightarrow> (Some (max 0 (maxBytes b - used e)), b'))"

definition budget_acquire :: "int \<Rightarrow> string \<Rightarrow> payload_budget \<Rightarrow> int option \<times> payload_budget" where
  "budget_acquire now key b = (if maxBytes b = 0 then (None, b)
     else case entryFor now key b of (e, b') \<Rightarrow>
       (Some (max 0 (maxBytes b - used e)), put_entry key (e\<lparr>active := active e + 1\<rparr>) b'))"

definition budget_release :: "int \<Rightarrow> string \<Rightarrow> payload_budget \<Rightarrow> payload_budget" where
  "budget_release now key b = (if maxBytes b = 0 then b
     else case map_of (entries b) key of
       None \<Rightarrow> b
     | Some e \<Rightarrow> let a = max 0 (active e - 1)
         in put_entry key (if a = 0 then e\<lparr>active := a, at := now\<rparr> else e\<lparr>active := a\<rparr>) b)"

record take_result =
  tk_allowed :: int
  tk_used :: "int option"
  tk_remaining :: "int option"
  tk_exhausted :: bool

definition take_bytes :: "int \<Rightarrow> string \<Rightarrow> int \<Rightarrow> payload_budget \<Rightarrow> take_result res \<times> payload_budget" where
  "take_bytes now key requested b =
     (if \<not> is_safe_integer (JNum requested) \<or> requested < 0
      then (Inl (Error ''payload budget request must be a non-negative safe integer''), b)
      else if maxBytes b = 0
      then (Inr \<lparr>tk_allowed = requested, tk_used = None, tk_remaining = None, tk_exhausted = False\<rparr>, b)
      else case entryFor now key b of (e, b') \<Rightarrow>
        let allowed = min requested (max 0 (maxBytes b - used e)); u = used e + allowed in
        (Inr \<lparr>tk_allowed = allowed, tk_used = Some u, tk_remaining = Some (maxBytes b - u),
           tk_exhausted = (u \<ge> maxBytes b)\<rparr>, put_entry key (e\<lparr>used := u\<rparr>) b'))"

text \<open>
  \<open>payloadTransform\<close>: one chunk of one relay direction. The result is what is pushed downstream,
  how many bytes the direction counter receives and whether the limit callback fires; an exception
  of the budget becomes the stream's error.
\<close>

record 'b relay_out =
  ro_pushed :: "'b list"
  ro_counted :: nat
  ro_limit :: "int option"

definition payloadTransform :: "int \<Rightarrow> string \<Rightarrow> 'b list \<Rightarrow> payload_budget \<Rightarrow> 'b relay_out res \<times> payload_budget" where
  "payloadTransform now key chunk b = (case take_bytes now key (int (length chunk)) b of
      (Inl e, b') \<Rightarrow> (Inl e, b')
    | (Inr t, b') \<Rightarrow>
        let out = take (nat (tk_allowed t)) chunk in
        (Inr \<lparr>ro_pushed = (if tk_allowed t > 0 then out else []),
              ro_counted = (if tk_allowed t > 0 then length out else 0),
              ro_limit = (if tk_exhausted t then tk_used t else None)\<rparr>, b'))"

section \<open>Lemmas of the budget\<close>

interpretation budget_ttl: ttl_store map_of "\<lambda>c. jmap_evict (\<lambda>_. stale_entry c)" stale_entry jmap_wf
  by (rule ttl_store_evict) (auto simp: stale_entry_def)

definition budget_inv :: "payload_budget \<Rightarrow> bool" where
  "budget_inv b \<longleftrightarrow> 0 \<le> maxBytes b \<and> 0 < ttlMs b \<and> jmap_wf (entries b)
     \<and> (\<forall>e \<in> snd ` set (entries b). 0 \<le> used e \<and> used e \<le> maxBytes b \<and> 0 \<le> active e)"

lemma budget_inv_entry: "budget_inv b \<Longrightarrow> map_of (entries b) key = Some e \<Longrightarrow>
    0 \<le> used e \<and> used e \<le> maxBytes b \<and> 0 \<le> active e"
  unfolding budget_inv_def by (metis map_of_SomeD snd_conv imageI)

lemma budget_inv_sweep [inv_intros]: "budget_inv b \<Longrightarrow> budget_inv (budget_sweep now b)"
  using set_evict_subset by (fastforce simp: budget_inv_def budget_sweep_def)

lemma budget_inv_put [inv_intros]:
  "budget_inv b \<Longrightarrow> 0 \<le> used e \<Longrightarrow> used e \<le> maxBytes b \<Longrightarrow> 0 \<le> active e \<Longrightarrow> budget_inv (put_entry key e b)"
  unfolding budget_inv_def put_entry_def by (auto dest!: update_memD)

lemma entryFor_inv:
  assumes "budget_inv b" and "entryFor now key b = (e, b')"
  shows "budget_inv b' \<and> 0 \<le> used e \<and> used e \<le> maxBytes b \<and> 0 \<le> active e
    \<and> maxBytes b' = maxBytes b \<and> ttlMs b' = ttlMs b \<and> map_of (entries b') key = Some e"
proof (cases "map_of (entries b) key")
  case None
  have "budget_inv (put_entry key \<lparr>used = 0, active = 0, at = now\<rparr> (budget_sweep now b))"
    by (intro budget_inv_put budget_inv_sweep assms(1))
       (use assms(1) in \<open>simp_all add: budget_sweep_def budget_inv_def\<close>)
  moreover from None assms(2) have "b' = put_entry key e (budget_sweep now b)" "e = \<lparr>used = 0, active = 0, at = now\<rparr>"
    by (auto simp: entryFor_def Let_def put_entry_def)
  ultimately show ?thesis
    using assms(1) by (simp add: put_entry_def budget_sweep_def budget_inv_def)
next
  case (Some e0)
  with assms budget_inv_entry [OF assms(1) Some] show ?thesis by (auto simp: entryFor_def)
qed

text \<open>An operation on a slot sweeps the others; a slot whose entry is still there afterwards kept it.\<close>

lemma entryFor_other:
  assumes "budget_inv b" "key \<noteq> k" "entryFor now key b = (e', b')"
  shows "map_of (entries b') k = map_of (entries b) k \<or>
    map_of (entries b') k = None \<and> (\<exists>e. map_of (entries b) k = Some e \<and> stale_entry (now - ttlMs b) e)"
  using assms
  by (auto simp: entryFor_def Let_def budget_sweep_def budget_inv_def map_of_evict
      simp del: map_of_eq_Some_iff split: option.splits if_splits)

lemma take_bytes_spec:
  assumes "budget_inv b" and "maxBytes b > 0" and "take_bytes now key n b = (Inr t, b')"
  shows "budget_inv b' \<and> maxBytes b' = maxBytes b \<and> ttlMs b' = ttlMs b
    \<and> 0 \<le> tk_allowed t \<and> tk_allowed t \<le> n
    \<and> (\<exists>e. entryFor now key b = (e, snd (entryFor now key b))
         \<and> tk_allowed t = min n (maxBytes b - used e)
         \<and> map_of (entries b') key = Some (e\<lparr>used := used e + tk_allowed t\<rparr>)
         \<and> tk_used t = Some (used e + tk_allowed t)
         \<and> tk_exhausted t = (used e + tk_allowed t = maxBytes b))"
proof -
  obtain e b1 where e: "entryFor now key b = (e, b1)" by fastforce
  note E = entryFor_inv [OF assms(1) e]
  from assms(2,3) E have n: "0 \<le> n" "tk_allowed t = min n (maxBytes b - used e)"
      "b' = put_entry key (e\<lparr>used := used e + tk_allowed t\<rparr>) b1"
      "tk_used t = Some (used e + tk_allowed t)" "tk_exhausted t = (used e + tk_allowed t \<ge> maxBytes b)"
    by (auto simp: take_bytes_def e Let_def split: if_splits)
  have "budget_inv b'"
    unfolding n(3) by (rule budget_inv_put) (use E n in auto)
  with E n e show ?thesis by (auto simp: put_entry_def)
qed

section \<open>Runs of budget operations\<close>

datatype budget_op = Acquire string | Release string | Take string int | Sweep

text \<open>One operation: the bytes it allowed for slot \<open>k\<close>, and the new budget.\<close>

fun budget_step :: "string \<Rightarrow> int \<Rightarrow> budget_op \<Rightarrow> payload_budget \<Rightarrow> int \<times> payload_budget" where
  "budget_step k now (Acquire key) b = (0, snd (budget_acquire now key b))"
| "budget_step k now (Release key) b = (0, budget_release now key b)"
| "budget_step k now (Take key n) b = (case take_bytes now key n b of
     (Inl _, b') \<Rightarrow> (0, b') | (Inr t, b') \<Rightarrow> (if key = k then tk_allowed t else 0, b'))"
| "budget_step k now Sweep b = (0, budget_sweep now b)"

fun budget_run :: "string \<Rightarrow> (int \<times> budget_op) list \<Rightarrow> payload_budget \<Rightarrow> int \<times> payload_budget" where
  "budget_run k [] b = (0, b)"
| "budget_run k ((now, op) # ops) b = (case budget_step k now op b of (n, b') \<Rightarrow>
     case budget_run k ops b' of (m, b'') \<Rightarrow> (n + m, b''))"

text \<open>
  A step forgets slot \<open>k\<close> when it drops the slot's entry, so that the slot starts again with a
  full allowance.
\<close>

definition forgets :: "string \<Rightarrow> int \<Rightarrow> budget_op \<Rightarrow> payload_budget \<Rightarrow> bool" where
  "forgets k now op b \<longleftrightarrow>
     map_of (entries b) k \<noteq> None \<and> map_of (entries (snd (budget_step k now op b))) k = None"

fun forget_count :: "string \<Rightarrow> (int \<times> budget_op) list \<Rightarrow> payload_budget \<Rightarrow> nat" where
  "forget_count k [] b = 0"
| "forget_count k ((now, op) # ops) b =
     (if forgets k now op b then 1 else 0) + forget_count k ops (snd (budget_step k now op b))"

definition used_of :: "string \<Rightarrow> payload_budget \<Rightarrow> int" where
  "used_of k b = (case map_of (entries b) k of Some e \<Rightarrow> used e | None \<Rightarrow> 0)"

lemma used_of_bounds:
  assumes "budget_inv b"
  shows "0 \<le> used_of k b \<and> used_of k b \<le> maxBytes b"
proof (cases "map_of (entries b) k")
  case (Some e)
  with budget_inv_entry [OF assms Some] show ?thesis by (simp add: used_of_def)
qed (use assms in \<open>simp add: used_of_def budget_inv_def\<close>)

lemma used_of_put: "used_of k (put_entry key e b) = (if key = k then used e else used_of k b)"
  by (simp add: used_of_def put_entry_def)

lemma entryFor_used: "entryFor now key b = (e, b') \<Longrightarrow> used e = used_of key b"
  by (auto simp: entryFor_def used_of_def Let_def split: option.splits)

text \<open>Only a step that finds the entry idle for longer than the retention time forgets it.\<close>

lemma entryFor_used_of:
  assumes "budget_inv b" "entryFor now key b = (e, b')"
    and "map_of (entries b') k = None \<longrightarrow> map_of (entries b) k = None"
  shows "used_of k b' = used_of k b"
proof (cases "key = k")
  case True
  with assms(2) show ?thesis by (auto simp: entryFor_def used_of_def Let_def split: option.splits)
next
  case False
  from entryFor_other [OF assms(1) False assms(2)] assms(3) show ?thesis by (auto simp: used_of_def)
qed

lemma entries_put: "map_of (entries (put_entry key e b)) k = (if k = key then Some e else map_of (entries b) k)"
  by (simp add: put_entry_def del: map_of_eq_Some_iff)

lemma budget_step_frame:
  assumes inv: "budget_inv b" "maxBytes b > 0" and step: "budget_step k now op b = (n, b')"
  shows "budget_inv b' \<and> maxBytes b' = maxBytes b \<and> ttlMs b' = ttlMs b"
proof (cases op)
  case (Acquire key)
  obtain e b1 where e: "entryFor now key b = (e, b1)" by fastforce
  from step Acquire e inv have "b' = put_entry key (e\<lparr>active := active e + 1\<rparr>) b1"
    by (auto simp: budget_acquire_def)
  with entryFor_inv [OF inv(1) e] show ?thesis by (auto intro!: budget_inv_put) (simp_all add: put_entry_def)
next
  case (Release key)
  with step inv have b': "b' = budget_release now key b" by auto
  show ?thesis
  proof (cases "map_of (entries b) key")
    case None
    with b' inv show ?thesis by (simp add: budget_release_def)
  next
    case (Some e)
    with budget_inv_entry [OF inv(1) Some] b' inv show ?thesis
      by (auto simp: budget_release_def Let_def intro!: budget_inv_put) (simp_all add: put_entry_def)
  qed
next
  case (Take key m)
  obtain r b1 where r: "take_bytes now key m b = (r, b1)" by fastforce
  show ?thesis
  proof (cases r)
    case (Inl err)
    with r step Take inv show ?thesis by (auto simp: take_bytes_def Let_def split: if_splits prod.splits)
  next
    case (Inr t)
    with take_bytes_spec [OF inv r [unfolded Inr]] r step Take show ?thesis by auto
  qed
next
  case Sweep
  with step have "b' = budget_sweep now b" by auto
  with budget_inv_sweep [OF inv(1)] show ?thesis by (simp add: budget_sweep_def)
qed

lemma budget_step_used:
  assumes inv: "budget_inv b" "maxBytes b > 0" and step: "budget_step k now op b = (n, b')"
  shows "if forgets k now op b then n = 0 \<and> used_of k b' = 0 else used_of k b' = used_of k b + n"
proof (cases op)
  case (Acquire key)
  obtain e b1 where e: "entryFor now key b = (e, b1)" by fastforce
  from step Acquire e inv have b': "n = 0" "b' = put_entry key (e\<lparr>active := active e + 1\<rparr>) b1"
    by (auto simp: budget_acquire_def)
  have "forgets k now op b \<longleftrightarrow> map_of (entries b) k \<noteq> None \<and> map_of (entries b') k = None"
    using step by (simp add: forgets_def)
  with b' entryFor_used [OF e] entryFor_used_of [OF inv(1) e, of k] show ?thesis
    by (auto simp: used_of_put entries_put used_of_def)
next
  case (Release key)
  with step inv have b': "n = 0" "b' = budget_release now key b" by auto
  have "used_of k b' = used_of k b" "map_of (entries b) k \<noteq> None \<Longrightarrow> map_of (entries b') k \<noteq> None"
    using b' inv(2) by (auto simp: budget_release_def Let_def used_of_put entries_put used_of_def split: option.splits)
  with b' step show ?thesis by (auto simp: forgets_def)
next
  case (Take key m)
  obtain r b1 where r: "take_bytes now key m b = (r, b1)" by fastforce
  obtain e b2 where e: "entryFor now key b = (e, b2)" by fastforce
  have f: "forgets k now op b \<longleftrightarrow> map_of (entries b) k \<noteq> None \<and> map_of (entries b') k = None"
    using step by (simp add: forgets_def)
  show ?thesis
  proof (cases r)
    case (Inl err)
    with r step Take inv f show ?thesis by (auto simp: take_bytes_def Let_def split: if_splits prod.splits)
  next
    case (Inr t)
    note T = take_bytes_spec [OF inv r [unfolded Inr]]
    have b1: "b1 = put_entry key (e\<lparr>used := used e + tk_allowed t\<rparr>) b2"
      using r Inr e inv by (auto simp: take_bytes_def Let_def split: if_splits)
    from step Take r Inr have b': "b' = b1" "n = (if key = k then tk_allowed t else 0)" by auto
    show ?thesis
      unfolding f b'(1) b1 using b'(2) entryFor_used [OF e] entryFor_used_of [OF inv(1) e, of k]
      by (auto simp: used_of_put entries_put used_of_def)
  qed
next
  case Sweep
  with step have b': "n = 0" "b' = budget_sweep now b" by auto
  have "jmap_wf (entries b)" using inv by (simp add: budget_inv_def)
  with b' step show ?thesis
    by (auto simp: forgets_def budget_sweep_def used_of_def map_of_evict simp del: map_of_eq_Some_iff split: option.splits if_splits)
qed

lemma forgets_stale:
  assumes inv: "budget_inv b" "maxBytes b > 0" and f: "forgets k now op b"
  shows "\<exists>e. map_of (entries b) k = Some e \<and> active e = 0 \<and> at e < now - ttlMs b"
proof -
  obtain e where e: "map_of (entries b) k = Some e" using f by (auto simp: forgets_def)
  have "stale_entry (now - ttlMs b) e"
  proof (cases op)
    case (Acquire key)
    obtain e1 b1 where ent: "entryFor now key b = (e1, b1)" by fastforce
    with Acquire f inv have "map_of (entries b1) k = None" "key \<noteq> k"
      by (auto simp: forgets_def budget_acquire_def entries_put split: if_splits)
    with entryFor_other [OF inv(1) _ ent] e show ?thesis by fastforce
  next
    case (Release key)
    with f inv show ?thesis by (auto simp: forgets_def budget_release_def Let_def entries_put split: option.splits if_splits)
  next
    case (Take key m)
    obtain e1 b1 where ent: "entryFor now key b = (e1, b1)" by fastforce
    with Take f inv have "map_of (entries b1) k = None" "key \<noteq> k"
      by (auto simp: forgets_def take_bytes_def Let_def entries_put split: if_splits)
    with entryFor_other [OF inv(1) _ ent] e show ?thesis by fastforce
  next
    case Sweep
    have "jmap_wf (entries b)" using inv by (simp add: budget_inv_def)
    with Sweep f e show ?thesis
      by (auto simp: forgets_def budget_sweep_def map_of_evict simp del: map_of_eq_Some_iff split: if_splits)
  qed
  with e show ?thesis by (auto simp: stale_entry_def)
qed

text \<open>The bytes of a run: one ceiling, and one more for every time the slot was forgotten.\<close>

lemma budget_run_used:
  assumes "budget_inv b" "maxBytes b > 0" "budget_run k ops b = (n, b')"
  shows "budget_inv b' \<and> maxBytes b' = maxBytes b \<and> ttlMs b' = ttlMs b
    \<and> n + used_of k b \<le> maxBytes b * (1 + int (forget_count k ops b))"
  using assms
proof (induction ops arbitrary: b n)
  case Nil
  then show ?case using used_of_bounds [of b k] by simp
next
  case (Cons x ops)
  obtain now op where x: "x = (now, op)" by (cases x)
  obtain n1 b1 where s: "budget_step k now op b = (n1, b1)" by fastforce
  obtain n2 b2 where r: "budget_run k ops b1 = (n2, b2)" by fastforce
  note S = budget_step_frame [OF Cons.prems(1,2) s] and U = budget_step_used [OF Cons.prems(1,2) s]
  have IH: "budget_inv b2 \<and> maxBytes b2 = maxBytes b \<and> ttlMs b2 = ttlMs b
      \<and> n2 + used_of k b1 \<le> maxBytes b * (1 + int (forget_count k ops b1))"
    using Cons.IH [of b1 n2] Cons.prems x s r S by auto
  have n: "n = n1 + n2" "b' = b2" using Cons.prems(3) x s r by auto
  show ?case
  proof (cases "forgets k now op b")
    case True
    with IH U n x s used_of_bounds [OF Cons.prems(1), of k] show ?thesis by (simp add: distrib_left)
  next
    case False
    with IH U n x s show ?thesis by simp
  qed
qed

text \<open>
  What an entry's time says: over a run at non-decreasing times, no socket of an idle slot was
  opened or closed later than the \<open>at\<close> of its entry.
\<close>

definition touched :: "string \<Rightarrow> (int \<times> budget_op) list \<Rightarrow> int set" where
  "touched k ops = {u. (u, Acquire k) \<in> set ops \<or> (u, Release k) \<in> set ops}"

definition idle_since :: "string \<Rightarrow> int set \<Rightarrow> payload_budget \<Rightarrow> bool" where
  "idle_since k T b \<longleftrightarrow> (\<forall>e. map_of (entries b) k = Some e \<longrightarrow> active e = 0 \<longrightarrow> (\<forall>u\<in>T. u \<le> at e))"

lemma entryFor_cases:
  assumes "entryFor now key b = (e, b')"
  obtains (old) "map_of (entries b) key = Some e" "b' = b"
  | (new) "map_of (entries b) key = None" "e = \<lparr>used = 0, active = 0, at = now\<rparr>" "b' = put_entry key e (budget_sweep now b)"
  using assms by (auto simp: entryFor_def Let_def put_entry_def split: option.splits)

lemma idle_since_other:
  assumes "idle_since k T b" "map_of (entries b') k = map_of (entries b) k \<or> map_of (entries b') k = None"
  shows "idle_since k T b'"
  using assms by (auto simp: idle_since_def)

lemma idle_since_step:
  assumes inv: "budget_inv b" "maxBytes b > 0" and idle: "idle_since k T b" and le: "\<forall>u\<in>T. u \<le> now"
    and step: "budget_step k now op b = (n, b')"
  shows "idle_since k (T \<union> touched k [(now, op)]) b'"
proof (cases op)
  case (Acquire key)
  obtain e b1 where e: "entryFor now key b = (e, b1)" by fastforce
  from step Acquire e inv have b': "b' = put_entry key (e\<lparr>active := active e + 1\<rparr>) b1" by (auto simp: budget_acquire_def)
  show ?thesis
  proof (cases "key = k")
    case True
    with b' entryFor_inv [OF inv(1) e] show ?thesis by (auto simp: idle_since_def entries_put)
  next
    case False
    then have T: "T \<union> touched k [(now, op)] = T" by (simp add: touched_def Acquire)
    from False entryFor_other [OF inv(1) False e] show ?thesis
      unfolding T b' by (intro idle_since_other [OF idle]) (auto simp: entries_put)
  qed
next
  case (Release key)
  with step have b': "b' = budget_release now key b" by auto
  show ?thesis
  proof (cases "key = k")
    case True
    with b' inv le show ?thesis
      by (auto simp: idle_since_def budget_release_def entries_put Let_def touched_def Release split: option.splits if_splits)
  next
    case False
    then have T: "T \<union> touched k [(now, op)] = T" by (simp add: touched_def Release)
    show ?thesis unfolding T b' by (rule idle_since_other [OF idle])
        (use False in \<open>auto simp: budget_release_def entries_put Let_def split: option.splits\<close>)
  qed
next
  case (Take key m)
  have T: "T \<union> touched k [(now, op)] = T" by (simp add: touched_def Take)
  obtain e b1 where e: "entryFor now key b = (e, b1)" by fastforce
  have b': "b' = b \<or> (\<exists>u. b' = put_entry key (e\<lparr>used := u\<rparr>) b1)"
    using step Take inv e by (auto simp: take_bytes_def Let_def split: if_splits prod.splits sum.splits)
  show ?thesis
  proof (cases "key = k")
    case True
    from e show ?thesis
    proof (cases rule: entryFor_cases)
      case old
      with b' idle True show ?thesis unfolding T by (auto simp: idle_since_def entries_put)
    next
      case new
      with b' idle le True show ?thesis unfolding T by (auto simp: idle_since_def entries_put)
    qed
  next
    case False
    show ?thesis unfolding T by (rule idle_since_other [OF idle])
        (use False b' entryFor_other [OF inv(1) False e] in \<open>auto simp: entries_put\<close>)
  qed
next
  case Sweep
  have T: "T \<union> touched k [(now, op)] = T" by (simp add: touched_def Sweep)
  have wf: "jmap_wf (entries b)" using inv by (simp add: budget_inv_def)
  have "b' = budget_sweep now b" using Sweep step by simp
  then have "map_of (entries b') k = map_of (entries b) k \<or> map_of (entries b') k = None"
    using map_of_evict [OF wf] by (simp add: budget_sweep_def del: map_of_eq_Some_iff split: option.split)
  then show ?thesis unfolding T by (rule idle_since_other [OF idle])
qed

lemma idle_since_run:
  assumes "budget_inv b" "maxBytes b > 0" "sorted (map fst ops)" "budget_run k ops b = (n, b')"
  shows "idle_since k (touched k ops) b'"
  using assms(3,4)
proof (induction ops arbitrary: n b' rule: rev_induct)
  case (snoc x ops)
  obtain now op where x: "x = (now, op)" by (cases x)
  obtain n1 b1 where r: "budget_run k ops b = (n1, b1)" by fastforce
  obtain n2 b2 where s: "budget_step k now op b1 = (n2, b2)" by fastforce
  have "budget_run k (ops @ [(now, op)]) b = (n1 + n2, b2)"
    using r s by (induction ops arbitrary: b n1) (auto split: prod.splits)
  with snoc.prems x have b': "b' = b2" by simp
  have inv: "budget_inv b1" "maxBytes b1 > 0" using budget_run_used [OF assms(1,2) r] assms(2) by auto
  have le: "\<forall>u\<in>touched k ops. u \<le> now" using snoc.prems(1) x by (fastforce simp: touched_def sorted_append)
  have "touched k (ops @ [x]) = touched k ops \<union> touched k [(now, op)]" by (auto simp: touched_def x)
  with idle_since_step [OF inv snoc.IH [OF _ r] le s] snoc.prems(1) b' show ?case by (simp add: sorted_append)
qed (simp add: touched_def idle_since_def)

section \<open>Relaying under a budget\<close>

text \<open>Chunks of the two directions in arrival order; the outputs of the two directions.\<close>

fun relay :: "string \<Rightarrow> (int \<times> bool \<times> 'b list) list \<Rightarrow> payload_budget \<Rightarrow> 'b list \<times> 'b list" where
  "relay key [] b = ([], [])"
| "relay key ((now, up, chunk) # cs) b = (case payloadTransform now key chunk b of
     (Inl _, b') \<Rightarrow> ([], [])
   | (Inr out, b') \<Rightarrow> (case relay key cs b' of (u, d) \<Rightarrow>
       if up then (ro_pushed out @ u, d) else (u, ro_pushed out @ d)))"

definition direction :: "bool \<Rightarrow> (int \<times> bool \<times> 'b list) list \<Rightarrow> 'b list" where
  "direction up cs = concat (map (\<lambda>(now, u, chunk). if u = up then chunk else []) cs)"

lemma direction_simps [simp]:
  "direction up [] = []"
  "direction up ((now, u, chunk) # cs) = (if u = up then chunk else []) @ direction up cs"
  by (simp_all add: direction_def)

lemma payloadTransform_held:
  assumes "budget_inv b" "maxBytes b > 0" "map_of (entries b) key = Some e"
    and "int (length chunk) \<le> MAX_SAFE_INTEGER"
  shows "\<exists>out b'. payloadTransform now key chunk b = (Inr out, b') \<and> budget_inv b' \<and> maxBytes b' = maxBytes b
    \<and> ro_pushed out = take (nat (maxBytes b - used e)) chunk
    \<and> map_of (entries b') key = Some (e\<lparr>used := used e + min (int (length chunk)) (maxBytes b - used e)\<rparr>)"
proof -
  note E = budget_inv_entry [OF assms(1,3)]
  have ent: "entryFor now key b = (e, b)" using assms(3) by (simp add: entryFor_def)
  obtain t b' where t: "take_bytes now key (int (length chunk)) b = (Inr t, b')"
    using assms(2,4) by (simp add: take_bytes_def ent Let_def)
  note T = take_bytes_spec [OF assms(1,2) t] 
  have allowed: "tk_allowed t = min (int (length chunk)) (maxBytes b - used e)"
    using T ent by auto
  have "take (nat (tk_allowed t)) chunk = take (nat (maxBytes b - used e)) chunk"
    using E by (auto simp: allowed min_def)
  with T t ent allowed show ?thesis
    by (auto simp: payloadTransform_def Let_def)
qed

section \<open>Accounting of active tunnels\<close>

definition active_of :: "string \<Rightarrow> payload_budget \<Rightarrow> int" where
  "active_of k b = (case map_of (entries b) k of Some e \<Rightarrow> active e | None \<Rightarrow> 0)"

lemma maxBytes_put [simp]: "maxBytes (put_entry key e b) = maxBytes b"
  by (simp add: put_entry_def)

lemma active_of_put [simp]: "active_of k (put_entry key e b) = (if k = key then active e else active_of k b)"
  by (simp add: active_of_def put_entry_def)

lemma active_of_sweep [simp]:
  assumes "budget_inv b" shows "active_of k (budget_sweep now b) = active_of k b"
proof -
  have "jmap_wf (entries b)" using assms by (simp add: budget_inv_def)
  then have "map_of (entries (budget_sweep now b)) k = (case map_of (entries b) k of
      Some e \<Rightarrow> if stale_entry (now - ttlMs b) e then None else Some e | None \<Rightarrow> None)"
    by (simp add: budget_sweep_def map_of_evict)
  then show ?thesis by (auto simp: active_of_def stale_entry_def split: option.splits)
qed

lemma active_of_entryFor:
  assumes "budget_inv b" "entryFor now key b = (e, b')"
  shows "active_of k b' = active_of k b" and "active e = active_of key b"
proof -
  show "active_of k b' = active_of k b"
  proof (cases "map_of (entries b) key")
    case None
    with assms(2) have b': "b' = put_entry key e (budget_sweep now b)" "active e = 0"
      by (auto simp: entryFor_def Let_def put_entry_def)
    show ?thesis unfolding b'(1) using b'(2) None assms(1) by (auto simp: active_of_def [of key])
  qed (use assms(2) in \<open>auto simp: entryFor_def\<close>)
  show "active e = active_of key b"
    using assms(2) by (auto simp: entryFor_def active_of_def Let_def split: option.splits)
qed

lemma budget_acquire_spec:
  assumes "budget_inv b" "budget_acquire now key b = (left, b')"
  shows "budget_inv b' \<and> maxBytes b' = maxBytes b
    \<and> (maxBytes b \<noteq> 0 \<longrightarrow> active_of k b' = active_of k b + (if k = key then 1 else 0))"
proof (cases "maxBytes b = 0")
  case False
  obtain e b1 where e: "entryFor now key b = (e, b1)" by fastforce
  note E = entryFor_inv [OF assms(1) e] and A = active_of_entryFor [OF assms(1) e]
  from False e assms(2) have "b' = put_entry key (e\<lparr>active := active e + 1\<rparr>) b1" by (simp add: budget_acquire_def)
  moreover have "budget_inv (put_entry key (e\<lparr>active := active e + 1\<rparr>) b1)"
    by (rule budget_inv_put) (use E in auto)
  ultimately show ?thesis using E A by auto
qed (use assms in \<open>simp add: budget_acquire_def\<close>)

lemma budget_release_spec:
  assumes "budget_inv b"
  shows "budget_inv (budget_release now key b) \<and> maxBytes (budget_release now key b) = maxBytes b
    \<and> (maxBytes b \<noteq> 0 \<longrightarrow> active_of k (budget_release now key b) = (if k = key then max 0 (active_of k b - 1) else active_of k b))"
proof (cases "maxBytes b = 0 \<or> map_of (entries b) key = None")
  case True
  then show ?thesis using assms by (auto simp: budget_release_def active_of_def)
next
  case False
  then obtain e where e: "map_of (entries b) key = Some e" "maxBytes b \<noteq> 0" by auto
  let ?a = "max 0 (active e - 1)"
  let ?e = "if ?a = 0 then e\<lparr>active := ?a, at := now\<rparr> else e\<lparr>active := ?a\<rparr>"
  have r: "budget_release now key b = put_entry key ?e b" using e by (simp add: budget_release_def Let_def)
  have "used ?e = used e" "active ?e = ?a" by auto
  moreover have "budget_inv (put_entry key ?e b)"
    by (rule budget_inv_put [OF assms]) (use budget_inv_entry [OF assms e(1)] in auto)
  ultimately show ?thesis unfolding r using e(1) by (simp add: active_of_def put_entry_def)
qed

lemma take_bytes_keeps:
  assumes "budget_inv b" "take_bytes now key n b = (r, b')"
  shows "budget_inv b' \<and> maxBytes b' = maxBytes b \<and> active_of k b' = active_of k b"
proof (cases "\<not> is_safe_integer (JNum n) \<or> n < 0 \<or> maxBytes b = 0")
  case True
  with assms show ?thesis by (auto simp: take_bytes_def split: if_split_asm)
next
  case False
  obtain e b1 where e: "entryFor now key b = (e, b1)" by fastforce
  note E = entryFor_inv [OF assms(1) e] and A = active_of_entryFor [OF assms(1) e]
  let ?u = "used e + min n (max 0 (maxBytes b - used e))"
  from False e assms(2) have "b' = put_entry key (e\<lparr>used := ?u\<rparr>) b1"
    by (auto simp: take_bytes_def Let_def)
  moreover have "budget_inv (put_entry key (e\<lparr>used := ?u\<rparr>) b1)"
    by (rule budget_inv_put) (use E False in auto)
  ultimately show ?thesis using E A by auto
qed

lemma payloadTransform_keeps:
  assumes "budget_inv b" "payloadTransform now key chunk b = (r, b')"
  shows "budget_inv b' \<and> maxBytes b' = maxBytes b \<and> active_of k b' = active_of k b"
proof -
  obtain t where "take_bytes now key (int (length chunk)) b = (t, b')"
    using assms(2) by (auto simp: payloadTransform_def Let_def split: prod.splits sum.splits)
  then show ?thesis by (rule take_bytes_keeps [OF assms(1)])
qed

section \<open>Properties\<close>

text \<open>
  C14: one RLN slot never relays more than the configured ceiling while the gateway remembers it.
  Over any sequence, at non-decreasing times, of sockets opening, closing and relaying in both
  directions and of sweeps, for this slot and any other, the bytes allowed for the slot are at most
  the ceiling less what it had used, plus one ceiling for every time its entry was forgotten; and
  an entry is forgotten only when no socket of the slot is open and none was opened or closed in
  the last \<open>ttlMs\<close>. Retries on new sockets share the same budget.
\<close>

theorem payload_ceiling:
  assumes "budget_inv b" and "maxBytes b > 0" and "sorted (map fst ops)"
  shows "fst (budget_run k ops b) \<le> maxBytes b * (1 + int (forget_count k ops b)) - used_of k b
    \<and> (\<forall>ops1 w op ops2. ops = ops1 @ (w, op) # ops2 \<and> forgets k w op (snd (budget_run k ops1 b)) \<longrightarrow>
         active_of k (snd (budget_run k ops1 b)) = 0 \<and> (\<forall>u\<in>touched k ops1. u + ttlMs b < w))"
proof -
  obtain n b' where r: "budget_run k ops b = (n, b')" by fastforce
  have "active_of k (snd (budget_run k ops1 b)) = 0 \<and> (\<forall>u\<in>touched k ops1. u + ttlMs b < w)"
    if split: "ops = ops1 @ (w, op) # ops2" and f: "forgets k w op (snd (budget_run k ops1 b))" for ops1 w op ops2
  proof -
    obtain n1 b1 where r1: "budget_run k ops1 b = (n1, b1)" by fastforce
    note inv = budget_run_used [OF assms(1,2) r1]
    have "sorted (map fst ops1)" using assms(3) split by (simp add: sorted_append)
    from idle_since_run [OF assms(1,2) this r1] have idle: "idle_since k (touched k ops1) b1" .
    obtain e where e: "map_of (entries b1) k = Some e" "active e = 0" "at e < w - ttlMs b1"
      using forgets_stale [of b1 k w op] inv assms(2) f r1 by auto
    with idle inv have "\<forall>u\<in>touched k ops1. u + ttlMs b < w" by (fastforce simp: idle_since_def)
    with e r1 show ?thesis by (simp add: active_of_def)
  qed
  with budget_run_used [OF assms(1,2) r] r show ?thesis by auto
qed

definition demo_budget :: payload_budget where
  "demo_budget = \<lparr>maxBytes = 10, ttlMs = 100, entries = []\<rparr>"

definition demo_ops :: "(int \<times> budget_op) list" where
  "demo_ops = [(0, Acquire ''k''), (1, Take ''k'' 7), (2, Release ''k''), (50, Sweep), (60, Acquire ''k''), (61, Take ''k'' 7),
     (62, Release ''k'')]"

lemmas budget_eval = demo_budget_def demo_ops_def budget_acquire_def budget_release_def take_bytes_def entryFor_def
  budget_sweep_def put_entry_def jmap_evict_def stale_entry_def MAX_SAFE_INTEGER_def Let_def forgets_def

theorem payload_ceiling_witness:
  "fst (budget_run ''k'' demo_ops demo_budget) = 10 \<and> fst (budget_run ''k'' demo_ops demo_budget) \<le> 10
   \<and> fst (budget_run ''k'' (demo_ops @ [(200, Sweep), (201, Acquire ''k''), (202, Take ''k'' 7)]) demo_budget) = 17
   \<and> 62 + ttlMs demo_budget < 200"
proof -
  let ?late = "demo_ops @ [(200, Sweep), (201, Acquire ''k''), (202, Take ''k'' 7)]"
  have "budget_inv demo_budget" "maxBytes demo_budget > 0" "sorted (map fst demo_ops)" "sorted (map fst ?late)"
    by (simp_all add: demo_budget_def demo_ops_def budget_inv_def)
  note ceiling = payload_ceiling [OF this(1,2)] and times = this(3,4)
  have "forget_count ''k'' demo_ops demo_budget = 0" by (simp add: budget_eval)
  with ceiling [OF times(1), of "''k''"] have "fst (budget_run ''k'' demo_ops demo_budget) \<le> 10"
    by (simp add: demo_budget_def used_of_def)
  moreover have "forgets ''k'' 200 Sweep (snd (budget_run ''k'' demo_ops demo_budget))" by (simp add: budget_eval)
  with ceiling [OF times(2), of "''k''"] have "\<forall>u\<in>touched ''k'' demo_ops. u + ttlMs demo_budget < 200" by blast
  then have "62 + ttlMs demo_budget < 200" by (simp add: touched_def demo_ops_def)
  moreover have "fst (budget_run ''k'' demo_ops demo_budget) = 10" "fst (budget_run ''k'' ?late demo_budget) = 17"
    by (simp_all add: budget_eval)
  ultimately show ?thesis by blast
qed

text \<open>
  what the two relay directions of a held slot push is exact: each direction's output is a
  prefix of what arrived in it, and the two outputs together have the length of the input capped at
  the remaining budget. Below the ceiling the relay is the identity.
\<close>

theorem relay_exact:
  assumes "budget_inv b" and "maxBytes b > 0" and "map_of (entries b) key = Some e"
    and "\<forall>c\<in>set cs. int (length (snd (snd c))) \<le> MAX_SAFE_INTEGER"
    and "relay key cs b = (u, d)"
  shows "(\<exists>r. direction True cs = u @ r) \<and> (\<exists>r. direction False cs = d @ r)
    \<and> int (length u + length d) = min (int (length (direction True cs) + length (direction False cs))) (maxBytes b - used e)"
  using assms
proof (induction cs arbitrary: b e u d)
  case Nil
  with budget_inv_entry [OF Nil.prems(1,3)] show ?case by simp
next
  case (Cons x cs)
  obtain now up chunk where x: "x = (now, up, chunk)" by (cases x)
  note E = budget_inv_entry [OF Cons.prems(1,3)]
  obtain out b' where out: "payloadTransform now key chunk b = (Inr out, b')" "budget_inv b'"
      "maxBytes b' = maxBytes b" "ro_pushed out = take (nat (maxBytes b - used e)) chunk"
      "map_of (entries b') key = Some (e\<lparr>used := used e + min (int (length chunk)) (maxBytes b - used e)\<rparr>)"
    using payloadTransform_held [OF Cons.prems(1,2,3), of chunk now] Cons.prems(4) x by auto
  obtain u' d' where r: "relay key cs b' = (u', d')" by fastforce
  let ?left = "maxBytes b - used e - min (int (length chunk)) (maxBytes b - used e)"
  have IH: "(\<exists>r. direction True cs = u' @ r) \<and> (\<exists>r. direction False cs = d' @ r)
      \<and> int (length u' + length d') = min (int (length (direction True cs) + length (direction False cs))) ?left"
    using Cons.IH [OF out(2) _ out(5) _ r] Cons.prems(2,4) out(3) by (simp add: algebra_simps)
  show ?case
  proof (cases "int (length chunk) \<le> maxBytes b - used e")
    case True
    then have "ro_pushed out = chunk" using out(4) by simp
    with IH True x out(1) r Cons.prems(5) show ?thesis by (cases up) auto
  next
    case False
    then have "int (length u' + length d') = 0" using IH E by auto
    then have "length u' + length d' = 0" by linarith
    then have none: "u' = []" "d' = []" by simp_all
    from False have len: "int (length (ro_pushed out)) = maxBytes b - used e" using E out(4) by auto
    obtain rest where "chunk = ro_pushed out @ rest" using out(4) by (metis append_take_drop_id)
    then have "\<exists>r. chunk @ w = ro_pushed out @ r" for w by simp
    with len none False x out(1) r Cons.prems(5) show ?thesis by (cases up) auto
  qed
qed

theorem relay_exact_witness:
  "relay ''k'' [(0, True, ''abcd''), (1, False, ''wxyz''), (2, True, ''ef'')] (demo_budget\<lparr>entries := [(''k'', \<lparr>used = 3, active = 1, at = 0\<rparr>)]\<rparr>)
     = (''abcd'', ''wxy'')
   \<and> int (length ''abcd'' + length ''wxy'') = 7"
proof -
  let ?b = "demo_budget\<lparr>entries := [(''k'', \<lparr>used = 3, active = 1, at = 0\<rparr>)]\<rparr>"
  let ?cs = "[(0, True, ''abcd''), (1, False, ''wxyz''), (2, True, ''ef'')]"
  have r: "relay ''k'' ?cs ?b = (''abcd'', ''wxy'')"
    by (simp add: demo_budget_def payloadTransform_def take_bytes_def entryFor_def put_entry_def
        MAX_SAFE_INTEGER_def Let_def numeral_eq_Suc)
  have "budget_inv ?b" "maxBytes ?b > 0" "map_of (entries ?b) ''k'' = Some \<lparr>used = 3, active = 1, at = 0\<rparr>"
    "\<forall>c\<in>set ?cs. int (length (snd (snd c))) \<le> MAX_SAFE_INTEGER"
    by (simp_all add: demo_budget_def budget_inv_def MAX_SAFE_INTEGER_def)
  from relay_exact [OF this r] r show ?thesis by simp
qed

text \<open>
  the limiter keeps its caps: from a fresh limiter, any sequence of connection and nullifier
  acquisitions and releases keeps the connection count and every nullifier's tunnel count within
  their caps and never negative, and a refused acquisition changes nothing.
\<close>

datatype limiter_op = Acq | Rel | AcqN string | RelN string

fun limiter_step :: "limiter_op \<Rightarrow> conn_limiter \<Rightarrow> conn_limiter" where
  "limiter_step Acq l = snd (acquire l)"
| "limiter_step Rel l = release l"
| "limiter_step (AcqN n) l = snd (acquireNullifier n l)"
| "limiter_step (RelN n) l = releaseNullifier n l"

lemma limiter_step_inv: "limiter_inv l \<Longrightarrow> limiter_inv (limiter_step op l)"
  by (cases op) (auto intro: limiter_inv_release limiter_inv_releaseNullifier
      limiter_inv_acquire [OF _ surjective_pairing] limiter_inv_acquireNullifier [OF _ surjective_pairing])

lemma limiter_step_caps [simp]:
  "maxConns (limiter_step op l) = maxConns l" "maxPerNullifier (limiter_step op l) = maxPerNullifier l"
  by (cases op; simp add: acquire_def release_def acquireNullifier_def releaseNullifier_def Let_def)+

lemma limiter_run_inv:
  "limiter_inv l \<Longrightarrow> limiter_inv (fold limiter_step ops l) \<and> maxConns (fold limiter_step ops l) = maxConns l
    \<and> maxPerNullifier (fold limiter_step ops l) = maxPerNullifier l"
  by (induction ops arbitrary: l) (auto simp: limiter_step_inv)

theorem limiter_caps:
  assumes "0 < mc" and "0 < mn"
  shows "0 \<le> conns (fold limiter_step ops (makeConnLimiter mc mn))
    \<and> conns (fold limiter_step ops (makeConnLimiter mc mn)) \<le> mc
    \<and> 0 \<le> nullifierCount (fold limiter_step ops (makeConnLimiter mc mn)) n
    \<and> nullifierCount (fold limiter_step ops (makeConnLimiter mc mn)) n \<le> mn"
proof -
  let ?l = "fold limiter_step ops (makeConnLimiter mc mn)"
  have init: "limiter_inv (makeConnLimiter mc mn)"
    using assms by (simp add: makeConnLimiter_def limiter_inv_def)
  have run: "limiter_inv ?l" "maxConns ?l = maxConns (makeConnLimiter mc mn)"
      "maxPerNullifier ?l = maxPerNullifier (makeConnLimiter mc mn)"
    using limiter_run_inv [OF init, of ops] by auto
  from run(1) have inv: "limiter_inv ?l" .
  from run(2,3) have caps: "maxConns ?l = mc" "maxPerNullifier ?l = mn"
    by (simp_all add: makeConnLimiter_def)
  with inv nullifierCount_bounds [OF inv, of n] assms show ?thesis
    by (simp add: limiter_inv_def)
qed

theorem limiter_caps_witness:
  "nullifierCount (fold limiter_step [Acq, AcqN ''n'', Acq, AcqN ''n'', AcqN ''n'', Acq] (makeConnLimiter 2 2)) ''n'' \<le> 2"
  using limiter_caps [of 2 2 "[Acq, AcqN ''n'', Acq, AcqN ''n'', AcqN ''n'', Acq]" "''n''"] by simp

end
