(* ===== verification/Wire.thy ===== *)
theory Wire
  imports Rln
begin

text \<open>
  The wire edge of \<^verbatim>\<open>src/gateway/gateway.mjs\<close>: reading the newline-terminated envelope, the
  protocol version gate, the closed set of metric labels, the hardening knobs, the success reply
  and the egress self-check.
\<close>

section \<open>Metric labels\<close>

definition DROP_LABELS :: "string list" where
  "DROP_LABELS = [
    ''too-many-connections'', ''envelope-timeout'', ''envelope-too-large'', ''bad-envelope'',
    ''bad-version'', ''unsupported-version'', ''wrong-group-root'', ''root-not-recent'',
    ''invalid-proof'', ''bad-share'', ''bad-signal'', ''bad-external-nullifier'', ''bad-nullifier'',
    ''artifact-unknown'', ''artifact-retired'', ''bad-artifact'', ''bad-target'', ''bad-target-policy'',
    ''bad-target-address'', ''bad-target-dns'',
    ''replayed-envelope'', ''rate-slashed'', ''over-spend-slashed'', ''nullifier-conn-limit'',
    ''payload-limit'',
    ''upstream-timeout'', ''upstream-refused'', ''upstream-unreachable'', ''upstream-reset'',
    ''upstream-error'', ''internal-error'']"

definition gatewayDropLabel :: "jsval \<Rightarrow> string" where
  "gatewayDropLabel reason =
     (let raw = js_lower (js_string (js_or reason (JStr ''internal-error'')));
          base = hd (split_on (CHR '':'') raw) in
      if base \<in> set DROP_LABELS then base
      else if includes_str base ''artifact'' then ''bad-artifact''
      else if includes_str base ''version'' then ''bad-version''
      else if includes_str base ''root'' then ''root-not-recent''
      else if includes_str base ''proof'' then ''invalid-proof''
      else ''internal-error'')"

definition upstreamDropLabel :: "string \<Rightarrow> string" where
  "upstreamDropLabel code =
     (if code \<in> {''ECONNREFUSED''} then ''upstream-refused''
      else if code \<in> {''ENETUNREACH'', ''EHOSTUNREACH'', ''ENETDOWN''} then ''upstream-unreachable''
      else if code \<in> {''ECONNRESET'', ''EPIPE''} then ''upstream-reset''
      else if code \<in> {''ETIMEDOUT''} then ''upstream-timeout''
      else ''upstream-error'')"

section \<open>Hardening knobs\<close>

definition envInt :: "env \<Rightarrow> string \<Rightarrow> int \<Rightarrow> int" where
  "envInt e name dflt = (case e name of
     None \<Rightarrow> dflt
   | Some raw \<Rightarrow> if raw = [] then dflt
       else (case js_number (JStr raw) of
          JNum n \<Rightarrow> if is_safe_integer (JNum n) \<and> n \<ge> 0 then n else dflt
        | _ \<Rightarrow> dflt))"

record hardening =
  h_envelopeTimeoutMs :: int
  h_idleTimeoutMs :: int
  h_maxPayloadBytes :: int
  h_maxConns :: int
  h_maxConnsPerNullifier :: int
  h_dnsTimeoutMs :: int

definition HARDENING :: "env \<Rightarrow> hardening" where
  "HARDENING e = \<lparr>h_envelopeTimeoutMs = envInt e ''SHADE_TREE_ENVELOPE_TIMEOUT_MS'' 30000,
     h_idleTimeoutMs = envInt e ''SHADE_TREE_TUNNEL_IDLE_TIMEOUT_MS'' 300000,
     h_maxPayloadBytes = envInt e ''SHADE_TREE_TUNNEL_MAX_PAYLOAD_BYTES'' (40 * 1024 * 1024),
     h_maxConns = envInt e ''SHADE_TREE_MAX_CONNS'' 1024,
     h_maxConnsPerNullifier = envInt e ''SHADE_TREE_MAX_CONNS_PER_NULLIFIER'' 8,
     h_dnsTimeoutMs = envInt e ''SHADE_TREE_DNS_TIMEOUT_MS'' 5000\<rparr>"

section \<open>Protocol version\<close>

definition PROTO_MIN :: int where "PROTO_MIN = 4"
definition PROTO_MAX :: int where "PROTO_MAX = 4"
definition LEGACY_ENVELOPE_VERSION :: int where "LEGACY_ENVELOPE_VERSION = 3"

datatype version_check = VersionOk int | VersionBad (vb_reason: string) (vb_label: string)

definition versionRepr :: "jsval \<Rightarrow> string" where
  "versionRepr v = (case v of
     JUndef \<Rightarrow> ''undefined'' | JNull \<Rightarrow> ''null''
   | JNum n \<Rightarrow> int_dec n | JFloat s \<Rightarrow> s
   | JStr s \<Rightarrow> json_quote (take 16 s)
   | _ \<Rightarrow> typeof v)"

definition acceptEnvelopeVersion :: "jsval \<Rightarrow> int \<times> int \<Rightarrow> version_check" where
  "acceptEnvelopeVersion v rng =
     (case (if nullish v then JNum LEGACY_ENVELOPE_VERSION else v) of
        JNum n \<Rightarrow> if n < fst rng \<or> n > snd rng
          then VersionBad (''unsupported-version:'' @ int_dec n) ''unsupported-version'' else VersionOk n
      | _ \<Rightarrow> VersionBad (''bad-version:'' @ versionRepr v) ''bad-version'')"

section \<open>Reading the envelope\<close>

definition MAX_ENVELOPE :: nat where "MAX_ENVELOPE = 64 * 1024"

datatype read_state =
    Pending string                  \<comment> \<open>the buffer so far\<close>
  | Line string string              \<comment> \<open>the line and the bytes after it\<close>
  | ReadError string string         \<comment> \<open>message and bounded reason\<close>

datatype read_event = Chunk string | StreamEnd | Deadline | SocketError string

definition newline :: char where "newline = CHR 0x0A"

fun read_step :: "read_event \<Rightarrow> read_state \<Rightarrow> read_state" where
  "read_step (Chunk c) (Pending buf) =
     (let b = buf @ c; line = takeWhile (\<lambda>x. x \<noteq> newline) b in
      if length line > MAX_ENVELOPE then ReadError ''envelope too large'' ''envelope-too-large''
      else if newline \<notin> set b then Pending b
      else Line line (drop (Suc (length line)) b))"
| "read_step StreamEnd (Pending buf) = ReadError ''closed before envelope'' ''bad-envelope''"
| "read_step Deadline (Pending buf) = ReadError ''envelope timeout'' ''envelope-timeout''"
| "read_step (SocketError m) (Pending buf) = ReadError m ''bad-envelope''"
| "read_step ev st = st"  \<comment> \<open>the listeners are gone\<close>

definition readEnvelope :: "read_event list \<Rightarrow> read_state" where
  "readEnvelope evs = fold read_step evs (Pending [])"

section \<open>Success reply and self-check\<close>

text \<open>\<open>makeReceipt\<close> is absent, throws, or gives a value.\<close>

definition successAck :: "jsval res option \<Rightarrow> jsval" where
  "successAck makeReceipt = (case makeReceipt of
     Some (Inr r) \<Rightarrow> if truthy r then JObj [(''ok'', JBool True), (''receipt'', r)] else JObj [(''ok'', JBool True)]
   | _ \<Rightarrow> JObj [(''ok'', JBool True)])"

datatype probe_event = ProbeConnected | ProbeError string | ProbeTimeout | ProbeThrew string

fun probe_step :: "probe_event \<Rightarrow> (bool \<times> string) option \<Rightarrow> (bool \<times> string) option" where
  "probe_step ev (Some r) = Some r"
| "probe_step ProbeConnected None = Some (True, ''connected'')"
| "probe_step (ProbeError m) None = Some (False, ''connect-error:'' @ m)"
| "probe_step ProbeTimeout None = Some (False, ''timeout'')"
| "probe_step (ProbeThrew m) None = Some (False, ''connect-threw:'' @ m)"

definition checkEgress :: "probe_event list \<Rightarrow> (bool \<times> string) option" where
  "checkEgress evs = fold probe_step evs None"

section \<open>Lemmas\<close>

lemma read_step_done: "(\<And>b. st \<noteq> Pending b) \<Longrightarrow> fold read_step evs st = st"
proof (induction evs)
  case (Cons ev evs)
  then show ?case by (cases st) auto
qed simp

lemma takeWhile_append_le: "length (takeWhile P xs) \<le> length (takeWhile P (xs @ ys))"
  by (induction xs) auto

lemma drop_labels_mem:
  "''bad-artifact'' \<in> set DROP_LABELS" "''bad-version'' \<in> set DROP_LABELS" "''root-not-recent'' \<in> set DROP_LABELS"
  "''invalid-proof'' \<in> set DROP_LABELS" "''internal-error'' \<in> set DROP_LABELS" "''upstream-refused'' \<in> set DROP_LABELS"
  "''upstream-unreachable'' \<in> set DROP_LABELS" "''upstream-reset'' \<in> set DROP_LABELS" "''upstream-timeout'' \<in> set DROP_LABELS"
  "''upstream-error'' \<in> set DROP_LABELS" "''too-many-connections'' \<in> set DROP_LABELS" "''envelope-timeout'' \<in> set DROP_LABELS"
  "''envelope-too-large'' \<in> set DROP_LABELS" "''bad-envelope'' \<in> set DROP_LABELS" "''bad-target'' \<in> set DROP_LABELS"
  "''bad-target-policy'' \<in> set DROP_LABELS" "''bad-target-address'' \<in> set DROP_LABELS" "''bad-target-dns'' \<in> set DROP_LABELS"
  "''nullifier-conn-limit'' \<in> set DROP_LABELS" "''payload-limit'' \<in> set DROP_LABELS"
  by (simp_all add: DROP_LABELS_def)

lemma gatewayDropLabel_mem: "gatewayDropLabel reason \<in> set DROP_LABELS"
  unfolding gatewayDropLabel_def Let_def by (simp add: drop_labels_mem)

lemma upstreamDropLabel_mem: "upstreamDropLabel code \<in> set DROP_LABELS"
  unfolding upstreamDropLabel_def by (simp add: drop_labels_mem)

lemma line_rest:
  assumes "newline \<in> set b"
  shows "takeWhile (\<lambda>x. x \<noteq> newline) b @ newline # drop (Suc (length (takeWhile (\<lambda>x. x \<noteq> newline) b))) b = b"
  using assms by (induction b) auto

lemma takeWhile_no: "newline \<notin> set b \<Longrightarrow> takeWhile (\<lambda>x. x \<noteq> newline) b = b"
  by (induction b) auto

section \<open>Properties\<close>

text \<open>
  envelope framing does not depend on packet boundaries and is capped. However the client's
  bytes are cut into chunks, the reader delivers exactly the bytes before the first newline, keeps
  everything after it, and never delivers a line above \<open>MAX_ENVELOPE\<close>; it waits only while no
  newline has come within the cap, and rejects as too large as soon as the first line exceeds it.
\<close>

theorem readEnvelope_framing:
  "(case readEnvelope (map Chunk cs) of
      Line line rest \<Rightarrow> length line \<le> MAX_ENVELOPE \<and> newline \<notin> set line
        \<and> (\<exists>later. concat cs = line @ newline # rest @ later)
    | Pending b \<Rightarrow> b = concat cs \<and> newline \<notin> set (concat cs) \<and> length (concat cs) \<le> MAX_ENVELOPE
    | ReadError m r \<Rightarrow> r = ''envelope-too-large'' \<and> length (takeWhile (\<lambda>x. x \<noteq> newline) (concat cs)) > MAX_ENVELOPE)"
proof -
  let ?tw = "takeWhile (\<lambda>x. x \<noteq> newline)"
  have "(case fold read_step (map Chunk cs) (Pending b0) of
      Line line rest \<Rightarrow> length line \<le> MAX_ENVELOPE \<and> newline \<notin> set line \<and> (\<exists>later. b0 @ concat cs = line @ newline # rest @ later)
    | Pending b \<Rightarrow> b = b0 @ concat cs \<and> newline \<notin> set (b0 @ concat cs) \<and> length (b0 @ concat cs) \<le> MAX_ENVELOPE
    | ReadError m r \<Rightarrow> r = ''envelope-too-large'' \<and> length (?tw (b0 @ concat cs)) > MAX_ENVELOPE)"
    if "newline \<notin> set b0" "length b0 \<le> MAX_ENVELOPE" for b0
    using that
  proof (induction cs arbitrary: b0)
    case (Cons c cs)
    let ?b = "b0 @ c"
    show ?case
    proof (cases "length (?tw ?b) > MAX_ENVELOPE")
      case True
      have "length (?tw ?b) \<le> length (?tw (?b @ concat cs))"
        by (rule takeWhile_append_le)
      with True have "length (?tw (b0 @ concat (c # cs))) > MAX_ENVELOPE" by simp
      with True show ?thesis by (simp add: Let_def read_step_done)
    next
      case small: False
      show ?thesis
      proof (cases "newline \<in> set ?b")
        case True
        define b where "b = ?b"
        have b: "newline \<in> set b" "\<not> length (?tw b) > MAX_ENVELOPE" using True small by (simp_all add: b_def)
        have step: "fold read_step (map Chunk (c # cs)) (Pending b0) = Line (?tw b) (drop (Suc (length (?tw b))) b)"
          using b by (simp add: Let_def read_step_done b_def [symmetric])
        have "newline \<notin> set (?tw b)" using set_takeWhileD by fastforce
        moreover have "\<exists>later. b0 @ concat (c # cs) = ?tw b @ newline # drop (Suc (length (?tw b))) b @ later"
        proof
          show "b0 @ concat (c # cs) = ?tw b @ newline # drop (Suc (length (?tw b))) b @ concat cs"
            using line_rest [OF b(1)] b_def by (metis append.assoc append_Cons concat.simps(2))
        qed
        ultimately show ?thesis unfolding step using b by (simp only: read_state.case not_less simp_thms)
      next
        case False
        with small have "newline \<notin> set ?b" "length ?b \<le> MAX_ENVELOPE" by (simp_all add: takeWhile_no)
        have step: "fold read_step (map Chunk (c # cs)) (Pending b0) = fold read_step (map Chunk cs) (Pending ?b)"
          using small False by (simp add: Let_def)
        have eq: "(b0 @ c) @ concat cs = b0 @ concat (c # cs)" by simp
        show ?thesis unfolding step using Cons.IH [OF \<open>newline \<notin> set ?b\<close> \<open>length ?b \<le> MAX_ENVELOPE\<close>]
          unfolding eq .
      qed
    qed
  qed simp
  from this [of "[]", unfolded append_Nil] show ?thesis unfolding readEnvelope_def by simp
qed

text \<open>
  the version gate accepts exactly the integers of the supported range: no string, fraction,
  boolean, object or missing version passes, and a version in range always does.
\<close>

theorem acceptEnvelopeVersion_iff:
  "(\<exists>n. acceptEnvelopeVersion v (PROTO_MIN, PROTO_MAX) = VersionOk n) \<longleftrightarrow> v = JNum 4"
  by (cases v) (auto simp: acceptEnvelopeVersion_def PROTO_MIN_def PROTO_MAX_def LEGACY_ENVELOPE_VERSION_def)

text \<open>
  every drop label is one of a fixed list, whatever the reason string a client provoked, so no
  client-controlled text reaches a metric label.
\<close>

theorem gatewayDropLabel_closed:
  "gatewayDropLabel reason \<in> set DROP_LABELS \<and> upstreamDropLabel code \<in> set DROP_LABELS"
  by (simp add: gatewayDropLabel_mem upstreamDropLabel_mem)

text \<open>
  the closed label set loses the reason of the proof-binding rejections. The reasons the
  verifier gives for a stale external nullifier, a share mismatch, an unbound or unsafe target and a
  target not bound by the proof are all counted as \<open>internal-error\<close>.
\<close>

theorem binding_rejections_counted_internal:
  "gatewayDropLabel (JStr ''stale-external-nullifier'') = ''internal-error''
   \<and> gatewayDropLabel (JStr ''signal-mismatch'') = ''internal-error''
   \<and> gatewayDropLabel (JStr ''unbound-target'') = ''internal-error''
   \<and> gatewayDropLabel (JStr ''bad-signal-field'') = ''internal-error''
   \<and> gatewayDropLabel (JStr ''target-not-bound'') = ''internal-error''"
  by code_simp

end
