(* ===== verification/Roots.thy ===== *)
theory Roots
  imports Admission
begin

text \<open>
  The accepted admission roots of a gateway: \<open>initRoots\<close> of \<^verbatim>\<open>src/gateway/gateway.mjs\<close>. The
  state is what its closures share (the static root and leaves, the last chain read, the degraded
  sources) and the module's \<open>recentRoots\<close>; the events are the file watch and the provider's
  poll. Reading a file or the chain is the environment: its result is an argument.
\<close>

section \<open>State\<close>

record root_source =
  rs_contract :: string
  rs_roots :: "string list"
  rs_leafCount :: "int option"
  rs_stale :: bool
  rs_error :: "string option"

record chain_read =  \<comment> \<open>what \<open>loadGroupOnchain\<close> returns\<close>
  cr_recentRoots :: "string list"
  cr_perSource :: "root_source list option"
  cr_errors :: "(string \<times> string) list"
  cr_leafCount :: "int option"
  cr_stale :: bool
  cr_error :: "string option"

record static_read =  \<comment> \<open>what \<open>loadStatic\<close> returns\<close>
  sr_root :: "string option"
  sr_count :: int
  sr_leaves :: "string list"

record root_state =
  want_static :: bool
  want_onchain :: bool
  root_contracts :: "root_contract list"
  provider_contract :: "string option"
  staticRoot :: "string option"
  staticCount :: int
  localLeaves :: "string list option"
  chainRoots :: "string list"
  perSource :: "root_source list"
  degraded :: "string list"
  recentRoots :: "string list"

definition static_part :: "root_state \<Rightarrow> string list" where  \<comment> \<open>\<open>want.static && staticRoot\<close>\<close>
  "static_part st = (if want_static st then (case staticRoot st of Some r \<Rightarrow> if r = [] then [] else [r] | None \<Rightarrow> []) else [])"

definition recompute :: "root_state \<Rightarrow> root_state" where
  "recompute st = st\<lparr>recentRoots := remdups (static_part st @ chainRoots st)\<rparr>"

text \<open>The gauge of one chain source: degraded when any configured contract of that kind is.\<close>

definition root_degraded :: "root_state \<Rightarrow> string \<Rightarrow> bool" where
  "root_degraded st k \<longleftrightarrow> list_ex (\<lambda>c. js_lower (rc_address c) \<in> set (degraded st)) (contracts_of k (root_contracts st))"

definition static_load :: "static_read \<Rightarrow> root_state \<Rightarrow> root_state" where
  "static_load r st = recompute (st\<lparr>staticRoot := sr_root r, staticCount := sr_count r, localLeaves := Some (sr_leaves r)\<rparr>)"

definition lone_source :: "root_state \<Rightarrow> chain_read \<Rightarrow> root_source" where
  "lone_source st r = \<lparr>rs_contract = (case provider_contract st of Some c \<Rightarrow> c | None \<Rightarrow> rc_address (hd (root_contracts st))),
     rs_roots = cr_recentRoots r, rs_leafCount = cr_leafCount r, rs_stale = cr_stale r, rs_error = cr_error r\<rparr>"

definition refresh :: "chain_read \<Rightarrow> root_state \<Rightarrow> root_state" where
  "refresh r st =
     (let ps = (case cr_perSource r of Some l \<Rightarrow> l | None \<Rightarrow> [lone_source st r]);
          failed = map (\<lambda>(c, _). js_lower c) (cr_errors r)
            @ map (\<lambda>s. js_lower (rs_contract s)) (filter (\<lambda>s. rs_stale s \<or> rs_error s \<noteq> None) ps)
      in recompute (st\<lparr>chainRoots := cr_recentRoots r, perSource := ps, degraded := remdups failed\<rparr>))"

definition all_degraded :: "string \<Rightarrow> root_state \<Rightarrow> root_state" where
  "all_degraded msg st = recompute (st\<lparr>chainRoots := [],
     perSource := map (\<lambda>c. \<lparr>rs_contract = rc_address c, rs_roots = [], rs_leafCount = None, rs_stale = False, rs_error = Some msg\<rparr>) (root_contracts st),
     degraded := remdups (map (\<lambda>c. js_lower (rc_address c)) (root_contracts st))\<rparr>)"

section \<open>Startup and polling\<close>

definition blank_roots :: "bool \<Rightarrow> bool \<Rightarrow> root_contract list \<Rightarrow> string option \<Rightarrow> root_state" where
  "blank_roots s o' cs pc = \<lparr>want_static = s, want_onchain = o', root_contracts = cs, provider_contract = pc,
     staticRoot = None, staticCount = 0, localLeaves = None, chainRoots = [], perSource = [], degraded = [], recentRoots = []\<rparr>"

definition start_static :: "static_read res \<Rightarrow> root_state \<Rightarrow> root_state res" where
  "start_static loaded st = (if want_static st then bind_res loaded (\<lambda>r. Inr (static_load r st)) else Inr st)"

definition start_chain :: "chain_read res \<Rightarrow> root_state \<Rightarrow> root_state res" where
  "start_chain chain st =
     (if want_onchain st then
        (case chain of
           Inr r \<Rightarrow> Inr (refresh r st)
         | Inl e \<Rightarrow>
             if static_part st \<noteq> [] then Inr (all_degraded (case e of Error m \<Rightarrow> m | _ \<Rightarrow> []) st)
             else Inl (Error ''no admission root available''))
      else Inr st)"

definition initRoots ::
  "bool \<Rightarrow> bool \<Rightarrow> root_contract list \<Rightarrow> string option \<Rightarrow> static_read res \<Rightarrow> chain_read res \<Rightarrow> root_state res" where
  "initRoots s o' contracts pc loaded chain =
     bind_res (start_static loaded (blank_roots s o' contracts pc)) (\<lambda>st.
     bind_res (start_chain chain st) (\<lambda>st'. Inr (recompute st')))"

datatype root_event =
    FileChanged "static_read res"       \<comment> \<open>the watch on \<open>members.json\<close>\<close>
  | Polled "chain_read res"             \<comment> \<open>a poll without error, then its refresh\<close>
  | PollExpired string                  \<comment> \<open>the provider reports that the freshness window ended\<close>

fun root_step :: "root_event \<Rightarrow> root_state \<Rightarrow> root_state" where
  "root_step (FileChanged (Inr r)) st = (if want_static st then static_load r st else st)"
| "root_step (FileChanged (Inl _)) st = st"
| "root_step (Polled (Inr r)) st = (if want_onchain st then refresh r st else st)"
| "root_step (Polled (Inl _)) st = st"
| "root_step (PollExpired msg) st = (if want_onchain st then all_degraded msg st else st)"

section \<open>Invariant\<close>

definition roots_inv :: "root_state \<Rightarrow> bool" where
  "roots_inv st \<longleftrightarrow> recentRoots st = remdups (static_part st @ chainRoots st)
     \<and> (\<not> want_onchain st \<longrightarrow> chainRoots st = []) \<and> (\<not> want_static st \<longrightarrow> staticRoot st = None)"

lemma recompute_sel [simp]:
  "staticRoot (recompute st) = staticRoot st" "chainRoots (recompute st) = chainRoots st"
  "want_static (recompute st) = want_static st" "want_onchain (recompute st) = want_onchain st"
  "root_contracts (recompute st) = root_contracts st" "degraded (recompute st) = degraded st"
  "perSource (recompute st) = perSource st" "static_part (recompute st) = static_part st"
  "recentRoots (recompute st) = remdups (static_part st @ chainRoots st)"
  by (simp_all add: recompute_def static_part_def)

lemmas root_defs = static_load_def refresh_def all_degraded_def Let_def

lemma roots_inv_recompute: "\<not> want_onchain st \<longrightarrow> chainRoots st = [] \<Longrightarrow> \<not> want_static st \<longrightarrow> staticRoot st = None \<Longrightarrow> roots_inv (recompute st)"
  by (simp add: roots_inv_def)

lemma root_event_cases:
  obtains (changed) r where "ev = FileChanged (Inr r)" | (change_err) e where "ev = FileChanged (Inl e)"
    | (polled) r where "ev = Polled (Inr r)" | (poll_err) e where "ev = Polled (Inl e)" | (expired) m where "ev = PollExpired m"
proof (cases ev)
  case (FileChanged r)
  then show ?thesis using that by (cases r) auto
next
  case (Polled r)
  then show ?thesis using that by (cases r) auto
next
  case (PollExpired m)
  then show ?thesis using that by auto
qed

lemma roots_inv_step [inv_intros]: "roots_inv st \<Longrightarrow> roots_inv (root_step ev st)"
proof -
  assume inv: "roots_inv st"
  then have "\<not> want_onchain st \<longrightarrow> chainRoots st = []" "\<not> want_static st \<longrightarrow> staticRoot st = None"
    by (simp_all add: roots_inv_def)
  with inv show ?thesis
    by (cases ev rule: root_event_cases) (simp_all add: root_defs roots_inv_recompute)
qed

lemma root_step_want [simp]:
  "want_static (root_step ev st) = want_static st" "want_onchain (root_step ev st) = want_onchain st"
  "root_contracts (root_step ev st) = root_contracts st"
  by (cases ev rule: root_event_cases; simp add: root_defs)+

lemma start_static_frame:
  "start_static loaded (blank_roots s o' cs pc) = Inr st \<Longrightarrow>
     want_static st = s \<and> want_onchain st = o' \<and> chainRoots st = [] \<and> (\<not> s \<longrightarrow> staticRoot st = None)"
  by (cases s) (auto simp: start_static_def blank_roots_def bind_res_Inr_iff static_load_def)

lemma start_chain_frame:
  assumes "start_chain chain st = Inr st'"
  shows "want_static st' = want_static st \<and> want_onchain st' = want_onchain st \<and> staticRoot st' = staticRoot st
     \<and> (\<not> want_onchain st \<longrightarrow> chainRoots st' = chainRoots st)"
  using assms by (cases "want_onchain st"; cases chain) (auto simp: start_chain_def root_defs split: if_split_asm)

lemma initRoots_stages:
  assumes "initRoots s o' cs pc loaded chain = Inr st"
  obtains st1 st2 where "start_static loaded (blank_roots s o' cs pc) = Inr st1" "start_chain chain st1 = Inr st2"
    "st = recompute st2"
  using assms unfolding initRoots_def by (auto simp: bind_res_Inr_iff)

lemma initRoots_inv:
  assumes "initRoots s o' cs pc loaded chain = Inr st"
  shows "roots_inv st \<and> want_static st = s \<and> want_onchain st = o'"
proof -
  obtain st1 st2 where s1: "start_static loaded (blank_roots s o' cs pc) = Inr st1"
    and s2: "start_chain chain st1 = Inr st2" and st: "st = recompute st2"
    using initRoots_stages [OF assms] .
  from start_static_frame [OF s1] start_chain_frame [OF s2] show ?thesis
    unfolding st by (simp add: roots_inv_recompute)
qed

lemma initRoots_chain_down:
  assumes "initRoots s True cs pc loaded (Inl e) = Inr st"
  shows "s \<and> recentRoots st \<noteq> []"
proof -
  obtain st1 st2 where s1: "start_static loaded (blank_roots s True cs pc) = Inr st1"
    and s2: "start_chain (Inl e) st1 = Inr st2" and st: "st = recompute st2"
    using initRoots_stages [OF assms] .
  from start_static_frame [OF s1] s2 have "static_part st1 \<noteq> []" by (simp add: start_chain_def split: if_split_asm)
  moreover have "static_part st2 = static_part st1" using start_chain_frame [OF s2] by (simp add: static_part_def)
  moreover have "s" using \<open>static_part st1 \<noteq> []\<close> start_static_frame [OF s1] by (simp add: static_part_def split: if_split_asm)
  ultimately show ?thesis unfolding st by simp
qed

text \<open>The chain roots a state trusts after a sequence of events: those of the last successful read
  with no expiry after it.\<close>

fun last_chain :: "root_event list \<Rightarrow> string list \<Rightarrow> string list" where
  "last_chain [] cur = cur"
| "last_chain (Polled (Inr r) # evs) cur = last_chain evs (cr_recentRoots r)"
| "last_chain (PollExpired m # evs) cur = last_chain evs []"
| "last_chain (ev # evs) cur = last_chain evs cur"

fun last_static :: "root_event list \<Rightarrow> string option \<Rightarrow> string option" where
  "last_static [] cur = cur"
| "last_static (FileChanged (Inr r) # evs) cur = last_static evs (sr_root r)"
| "last_static (ev # evs) cur = last_static evs cur"

lemma last_chain_expired: "last_chain (evs @ [PollExpired m]) cur = []"
  by (induction evs cur rule: last_chain.induct) simp_all

lemma last_chain_step: "want_onchain st \<Longrightarrow> last_chain (ev # evs) (chainRoots st) = last_chain evs (chainRoots (root_step ev st))"
  by (cases ev rule: root_event_cases) (auto simp: root_defs)

lemma last_static_step: "want_static st \<Longrightarrow> last_static (ev # evs) (staticRoot st) = last_static evs (staticRoot (root_step ev st))"
  by (cases ev rule: root_event_cases) (auto simp: root_defs)

lemma root_run:
  "roots_inv st \<Longrightarrow> roots_inv (fold root_step evs st)
     \<and> want_static (fold root_step evs st) = want_static st \<and> want_onchain (fold root_step evs st) = want_onchain st
     \<and> (want_onchain st \<longrightarrow> chainRoots (fold root_step evs st) = last_chain evs (chainRoots st))
     \<and> (want_static st \<longrightarrow> staticRoot (fold root_step evs st) = last_static evs (staticRoot st))"
proof (induction evs arbitrary: st)
  case (Cons ev evs)
  from Cons.IH [OF roots_inv_step [OF Cons.prems], of ev]
    last_chain_step [of st ev evs] last_static_step [of st ev evs] show ?case by simp
qed simp

section \<open>Properties\<close>

text \<open>
  C22: startup fails closed and polling keeps trust exact. If startup succeeds then, after any
  sequence of file changes, polls and freshness expiries, the accepted roots are exactly the last
  good static root (when the policy admits invited members) together with the roots of the last
  successful chain read that no expiry followed (when it admits an on-chain source): an expiry
  removes every chain root until a fresh read. A startup whose chain read fails is refused unless a
  static root is trusted.
\<close>

theorem recentRoots_exact:
  assumes init: "initRoots s o' cs pc loaded chain = Inr st0" and st: "st = fold root_step evs st0"
  shows "set (recentRoots st) =
      (if s then {r. last_static evs (staticRoot st0) = Some r \<and> r \<noteq> []} else {})
      \<union> (if o' then set (last_chain evs (chainRoots st0)) else {})
    \<and> (o' \<longrightarrow> set (last_chain (evs @ [PollExpired m]) (chainRoots st0)) = {})
    \<and> (o' \<and> chain = Inl e \<longrightarrow> s \<and> recentRoots st0 \<noteq> [])"
proof -
  from init have inv: "roots_inv st0" and w: "want_static st0 = s" "want_onchain st0 = o'"
    using initRoots_inv by blast+
  from root_run [OF inv, of evs] w st have run: "roots_inv st" "want_static st = s" "want_onchain st = o'"
      "o' \<longrightarrow> chainRoots st = last_chain evs (chainRoots st0)" "s \<longrightarrow> staticRoot st = last_static evs (staticRoot st0)"
    by auto
  then have "set (recentRoots st) = set (static_part st) \<union> set (chainRoots st)" by (simp add: roots_inv_def)
  moreover have "set (static_part st) = (if s then {r. last_static evs (staticRoot st0) = Some r \<and> r \<noteq> []} else {})"
  proof -
    have "static_part st = (if s then case last_static evs (staticRoot st0) of Some r \<Rightarrow> if r = [] then [] else [r] | None \<Rightarrow> [] else [])"
      using run by (simp add: static_part_def)
    then show ?thesis by (cases s; cases "last_static evs (staticRoot st0)"; simp; blast?)
  qed
  moreover have "set (chainRoots st) = (if o' then set (last_chain evs (chainRoots st0)) else {})"
    using run by (simp add: roots_inv_def)
  moreover have "o' \<and> chain = Inl e \<longrightarrow> s \<and> recentRoots st0 \<noteq> []"
    using init initRoots_chain_down [of s cs pc loaded e st0] by (cases o') auto
  ultimately show ?thesis by (simp add: last_chain_expired)
qed

theorem recentRoots_exact_witness:
  "\<exists>st. initRoots True True [\<lparr>rc_address = ''0xa'', rc_kind = ''staked''\<rparr>] None
       (Inr \<lparr>sr_root = Some ''7'', sr_count = 1, sr_leaves = [''1'']\<rparr>) (Inl TypeError) = Inr st
     \<and> set (recentRoots (fold root_step [Polled (Inr \<lparr>cr_recentRoots = [''9''], cr_perSource = None, cr_errors = [], cr_leafCount = None, cr_stale = False, cr_error = None\<rparr>),
          FileChanged (Inl TypeError)] st)) = {''7'', ''9''}"
proof -
  let ?init = "initRoots True True [\<lparr>rc_address = ''0xa'', rc_kind = ''staked''\<rparr>] None
       (Inr \<lparr>sr_root = Some ''7'', sr_count = 1, sr_leaves = [''1'']\<rparr>) (Inl TypeError)"
  have "case ?init of Inr st \<Rightarrow> staticRoot st = Some ''7'' \<and> chainRoots st = [] | Inl e \<Rightarrow> False"
    by (simp add: initRoots_def start_static_def start_chain_def root_defs static_part_def blank_roots_def recompute_def)
  then obtain st where st: "?init = Inr st" "staticRoot st = Some ''7''"
    by (cases ?init) auto
  let ?evs = "[Polled (Inr \<lparr>cr_recentRoots = [''9''], cr_perSource = None, cr_errors = [], cr_leafCount = None, cr_stale = False, cr_error = None\<rparr>),
          FileChanged (Inl TypeError)]"
  have "set (recentRoots (fold root_step ?evs st)) =
      (if True then {r. last_static ?evs (staticRoot st) = Some r \<and> r \<noteq> []} else {})
      \<union> (if True then set (last_chain ?evs (chainRoots st)) else {})"
    using recentRoots_exact [OF st(1) refl, of ?evs "[]" TypeError] by blast
  also have "\<dots> = {''7'', ''9''}" using st(2) by auto
  finally show ?thesis using st(1) by blast
qed

end
