(* ===== verification/Gateway.thy ===== *)
theory Gateway
  imports SpentSet ConnLimits Egress Wire Roots
begin

text \<open>
  The connection handler of \<^verbatim>\<open>src/gateway/gateway.mjs\<close> (\<open>makeHandler\<close>) over the gateway's
  shared state: the limiter, the payload budget, the spent set with its fleet tally and the accepted
  roots. Every socket is a small state machine; an event is one callback of the event loop, so
  handlers of different sockets interleave at exactly the points where the source awaits.

  A socket that the handler destroys keeps its resources until its \<open>close\<close> event, as in Node.
  \<open>JSON.parse\<close> and the receipt signer are arguments of the configuration.
\<close>

section \<open>State\<close>

record gw_cfg =
  g_lib :: rln_lib
  g_rln :: rln_cfg
  g_artifacts :: artifact_set
  g_policy :: egress_policy
  g_private :: bool
  g_idleMs :: int
  g_tiers :: "int list"
  g_leaves :: "string list option"
  g_shared :: bool
  g_json :: "string \<Rightarrow> jsval option"
  g_receipt :: "jsval res option"

record tunnel =
  tn_env :: jsval
  tn_rest :: string
  tn_host :: string
  tn_port :: int

datatype phase =
    Reading string
  | Verifying tunnel verdict
  | Resolving tunnel verified
  | Dialing tunnel verified "(string \<times> int) list" nat "int option"
      \<comment> \<open>candidates, \<open>candidateIndex\<close>, deadline\<close>
  | Relaying tunnel verified string
      \<comment> \<open>the address the tunnel is connected to\<close>
  | Finished

record conn =
  ph :: phase
  destroyed :: bool
  closed :: bool                \<comment> \<open>the \<open>close\<close> event has fired\<close>
  holds_conn :: bool
  holds_null :: "string option"
  holds_budget :: "string option"
  tunnel_open :: bool

record gw =
  gw_limiter :: conn_limiter
  gw_budget :: payload_budget
  gw_spent :: spent_set
  gw_tally :: tally
  gw_roots :: "string list"
  socks :: "(nat, conn) jmap"
  replies :: "(nat \<times> jsval) list"
  drops :: "string list"
  passes :: nat
  tunnel_closes :: "string list"
  slashes :: "slash_call list"
  published :: "(string \<times> string) list"
  relayed :: "(nat \<times> bool \<times> string) list"
      \<comment> \<open>bytes pushed downstream; \<open>True\<close> is agent to destination\<close>

definition err_reply :: "string \<Rightarrow> jsval" where
  "err_reply e = JObj [(''ok'', JBool False), (''err'', JStr e)]"

definition proto_json :: jsval where
  "proto_json = JObj [(''min'', JNum PROTO_MIN), (''max'', JNum PROTO_MAX)]"

definition put_conn :: "nat \<Rightarrow> conn \<Rightarrow> gw \<Rightarrow> gw" where
  "put_conn i c g = g\<lparr>socks := AList.update i c (socks g)\<rparr>"

text \<open>\<open>M.tunnels.inc(drop)\<close>, \<open>reply\<close> and \<open>socket.destroy()\<close>, which end a handler.\<close>

definition refuse :: "nat \<Rightarrow> conn \<Rightarrow> string \<Rightarrow> jsval \<Rightarrow> gw \<Rightarrow> gw" where
  "refuse i c label obj g =
     put_conn i (c\<lparr>ph := Finished, destroyed := True\<rparr>) (g\<lparr>drops := label # drops g, replies := (i, obj) # replies g\<rparr>)"

section \<open>The handler, one callback at a time\<close>

definition fresh_conn :: conn where
  "fresh_conn = \<lparr>ph = Reading [], destroyed = False, closed = False, holds_conn = True, holds_null = None,
     holds_budget = None, tunnel_open = False\<rparr>"

definition on_accept :: "nat \<Rightarrow> gw \<Rightarrow> gw" where
  "on_accept i g = (case acquire (gw_limiter g) of
     (False, l) \<Rightarrow> refuse i (fresh_conn\<lparr>holds_conn := False\<rparr>) ''too-many-connections''
                     (err_reply ''too-many-connections'') (g\<lparr>gw_limiter := l\<rparr>)
   | (True, l) \<Rightarrow> put_conn i fresh_conn (g\<lparr>gw_limiter := l\<rparr>))"

text \<open>The line has been read: parse, version gate, lexical target check, then \<open>verify\<close> is called.\<close>

definition on_line :: "gw_cfg \<Rightarrow> int \<Rightarrow> nat \<Rightarrow> conn \<Rightarrow> string \<Rightarrow> string \<Rightarrow> gw \<Rightarrow> gw" where
  "on_line C now i c line rest g =
     (case g_json C line of
        None \<Rightarrow> refuse i c ''bad-envelope'' (err_reply ''bad-envelope:SyntaxError'') g
      | Some env \<Rightarrow>
          if \<not> is_object env then refuse i c ''bad-envelope'' (err_reply ''bad-envelope:TypeError'') g
          else (case acceptEnvelopeVersion (getp env ''v'') (PROTO_MIN, PROTO_MAX) of
              VersionBad reason label \<Rightarrow>
                refuse i c (gatewayDropLabel (JStr label))
                  (JObj [(''ok'', JBool False), (''err'', JStr reason), (''proto'', proto_json)]) g
            | VersionOk _ \<Rightarrow>
                (case validTarget (g_policy C) (getp env ''target'') of
                   BadTarget reason \<Rightarrow> refuse i c reason (err_reply reason) g
                 | Target h p \<Rightarrow>
                     put_conn i (c\<lparr>ph := Verifying
                       \<lparr>tn_env = env, tn_rest = rest, tn_host = h, tn_port = p\<rparr>
                       (verifyEnvelope (g_lib C) (g_rln C) (g_artifacts C) env (gw_roots g) now)\<rparr>) g)))"

definition on_read :: "gw_cfg \<Rightarrow> int \<Rightarrow> nat \<Rightarrow> read_event \<Rightarrow> gw \<Rightarrow> gw" where
  "on_read C now i ev g = (case map_of (socks g) i of
     Some c \<Rightarrow> (case ph c of
         Reading buf \<Rightarrow> if closed c \<and> ev \<noteq> Deadline then g else
           (case read_step ev (Pending buf) of
              Pending b \<Rightarrow> put_conn i (c\<lparr>ph := Reading b\<rparr>) g
            | Line line rest \<Rightarrow> on_line C now i c line rest g
            | ReadError m r \<Rightarrow> refuse i c r (err_reply (''bad-envelope:'' @ m)) g)
       | _ \<Rightarrow> g)
   | None \<Rightarrow> g)"

definition nonce_of :: "jsval \<Rightarrow> string option" where
  "nonce_of env = (let n = getp env ''nonce'' in if nullish n then None else Some (js_string n))"

definition tally_of :: "gw_cfg \<Rightarrow> tally tally_ops option" where
  "tally_of C = (if g_shared C then Some fleet_ops else None)"

definition derive_of :: "gw_cfg \<Rightarrow> string \<Rightarrow> slash_tier res" where
  "derive_of C = resolveSlashTier (g_lib C) (g_rln C) (g_tiers C) (g_leaves C)"

text \<open>Admitted: the nullifier slot, the payload budget, and then the resolver is called.\<close>

definition on_admitted :: "int \<Rightarrow> nat \<Rightarrow> conn \<Rightarrow> tunnel \<Rightarrow> verified \<Rightarrow> gw \<Rightarrow> gw" where
  "on_admitted now i c t v g =
     (case acquireNullifier (vf_nullifier v) (gw_limiter g) of
        (False, l) \<Rightarrow> refuse i c ''nullifier-conn-limit'' (err_reply ''nullifier-conn-limit'') (g\<lparr>gw_limiter := l\<rparr>)
      | (True, l) \<Rightarrow>
          if destroyed c
          then put_conn i (c\<lparr>ph := Finished\<rparr>) (g\<lparr>gw_limiter := releaseNullifier (vf_nullifier v) l\<rparr>)
          else (let key = budget_key (vf_nullifier v) (vf_externalNullifier v);
                    (left, b) = budget_acquire now key (gw_budget g);
                    c' = c\<lparr>holds_null := Some (vf_nullifier v), holds_budget := Some key\<rparr>;
                    g' = g\<lparr>gw_limiter := l, gw_budget := b\<rparr> in
            if (case left of Some r \<Rightarrow> r \<le> 0 | None \<Rightarrow> False)
            then refuse i c' ''payload-limit'' (err_reply ''payload-limit'') g'
            else put_conn i (c'\<lparr>ph := Resolving t v\<rparr>) g'))"

definition on_verified :: "gw_cfg \<Rightarrow> int \<Rightarrow> nat \<Rightarrow> gw \<Rightarrow> gw" where
  "on_verified C now i g = (case map_of (socks g) i of
     Some c \<Rightarrow> (case ph c of
         Verifying t (Reject reason label artifacts) \<Rightarrow>
           refuse i c (gatewayDropLabel (JStr (case label of Some l \<Rightarrow> l | None \<Rightarrow> reason)))
             (case artifacts of
                Some ids \<Rightarrow> JObj [(''ok'', JBool False), (''err'', JStr (''gate:'' @ reason)), (''artifacts'', JArr (map JStr ids))]
              | None \<Rightarrow> err_reply (''gate:'' @ reason)) g
       | Verifying t (Accept v) \<Rightarrow>
           (case admit reconstructSecret (derive_of C) (tally_of C) now (vf_nullifier v) (Some (vf_share v))
                   (nonce_of (tn_env t)) (vf_externalNullifier v) (gw_spent g, gw_tally g) of
              (r, call, ss, ty) \<Rightarrow>
                let g' = g\<lparr>gw_spent := ss, gw_tally := ty,
                           slashes := (case call of Some s \<Rightarrow> s # slashes g | None \<Rightarrow> slashes g)\<rparr> in
                if \<not> adm_ok r
                then refuse i c (gatewayDropLabel (JStr (the (adm_reason r)))) (err_reply (the (adm_reason r))) g'
                else on_admitted now i c t v g')
       | _ \<Rightarrow> g)
   | None \<Rightarrow> g)"

definition deadline_passed :: "int \<Rightarrow> int option \<Rightarrow> bool" where
  "deadline_passed now dl = (case dl of Some d \<Rightarrow> now \<ge> d | None \<Rightarrow> False)"

definition dialNext :: "int \<Rightarrow> nat \<Rightarrow> conn \<Rightarrow> tunnel \<Rightarrow> verified \<Rightarrow> (string \<times> int) list \<Rightarrow> nat \<Rightarrow> int option \<Rightarrow> gw \<Rightarrow> gw" where
  "dialNext now i c t v cands idx dl g =
     (if deadline_passed now dl then refuse i c ''upstream-timeout'' (err_reply ''upstream:ETIMEDOUT'') g
      else put_conn i (c\<lparr>ph := Dialing t v cands (Suc idx) dl\<rparr>) g)"

definition on_resolved :: "gw_cfg \<Rightarrow> int \<Rightarrow> nat \<Rightarrow> dns_result \<Rightarrow> gw \<Rightarrow> gw" where
  "on_resolved C now i ans g = (case map_of (socks g) i of
     Some c \<Rightarrow> (case ph c of
         Resolving t v \<Rightarrow>
           (case resolveEgressTarget (g_private C) ans (tn_host t) (tn_port t) of
              Refused reason \<Rightarrow> refuse i c reason (err_reply reason) g
            | Pinned h p addrs \<Rightarrow>
                if destroyed c then put_conn i (c\<lparr>ph := Finished\<rparr>) g
                else dialNext now i c t v addrs 0 (if g_idleMs C > 0 then Some (now + g_idleMs C) else None) g)
       | _ \<Rightarrow> g)
   | None \<Rightarrow> g)"

text \<open>One chunk of an established relay; \<open>up\<close> is agent to destination.\<close>

definition relay_chunk :: "int \<Rightarrow> nat \<Rightarrow> conn \<Rightarrow> verified \<Rightarrow> bool \<Rightarrow> string \<Rightarrow> gw \<Rightarrow> gw" where
  "relay_chunk now i c v up chunk g =
     (case payloadTransform now (budget_key (vf_nullifier v) (vf_externalNullifier v)) chunk (gw_budget g) of
        (Inl _, b) \<Rightarrow> put_conn i (c\<lparr>destroyed := True\<rparr>) (g\<lparr>gw_budget := b\<rparr>)
      | (Inr out, b) \<Rightarrow>
          let g' = g\<lparr>gw_budget := b, relayed := (i, up, ro_pushed out) # relayed g\<rparr> in
          (case ro_limit out of
             Some _ \<Rightarrow> put_conn i (c\<lparr>destroyed := True\<rparr>) (g'\<lparr>tunnel_closes := ''payload-limit'' # tunnel_closes g'\<rparr>)
           | None \<Rightarrow> put_conn i c g'))"

definition on_connected :: "gw_cfg \<Rightarrow> int \<Rightarrow> nat \<Rightarrow> gw \<Rightarrow> gw" where
  "on_connected C now i g = (case map_of (socks g) i of
     Some c \<Rightarrow> (case ph c of
         Dialing t v cands idx dl \<Rightarrow>
           if destroyed c then g
           else (case commit (tally_of C) now (vf_nullifier v) (vf_externalNullifier v) (gw_spent g, gw_tally g) of
               (ss, ty) \<Rightarrow>
                 let c' = c\<lparr>ph := Relaying t v (fst (cands ! (idx - 1))), tunnel_open := True\<rparr>;
                     g' = g\<lparr>gw_spent := ss, gw_tally := ty, passes := Suc (passes g),
                            replies := (i, successAck (g_receipt C)) # replies g,
                            published := (if g_shared C \<and> map_of (seen (gw_spent g)) (vf_nullifier v) \<noteq> None
                              then (case fst (tally_record now (JStr (vf_nullifier v)) (JStr (vf_externalNullifier v)) (gw_tally g)) of
                                      Some msg \<Rightarrow> msg # published g | None \<Rightarrow> published g)
                              else published g)\<rparr>
                 in if tn_rest t = [] then put_conn i c' g' else relay_chunk now i c' v True (tn_rest t) g')
       | _ \<Rightarrow> g)
   | None \<Rightarrow> g)"

definition on_upstream_error :: "int \<Rightarrow> nat \<Rightarrow> string \<Rightarrow> gw \<Rightarrow> gw" where
  "on_upstream_error now i code g = (case map_of (socks g) i of
     Some c \<Rightarrow> (case ph c of
         Dialing t v cands idx dl \<Rightarrow>
           if idx < length cands \<and> \<not> destroyed c then dialNext now i c t v cands idx dl g
           else refuse i c (upstreamDropLabel code) (err_reply (''upstream:'' @ code)) g
       | Relaying t v a \<Rightarrow>
           if destroyed c then g
           else put_conn i (c\<lparr>destroyed := True\<rparr>) (g\<lparr>tunnel_closes := ''upstream-error'' # tunnel_closes g\<rparr>)
       | _ \<Rightarrow> g)
   | None \<Rightarrow> g)"

definition on_upstream_timeout :: "int \<Rightarrow> nat \<Rightarrow> gw \<Rightarrow> gw" where
  "on_upstream_timeout now i g = (case map_of (socks g) i of
     Some c \<Rightarrow> (case ph c of
         Dialing t v cands idx dl \<Rightarrow>
           if idx < length cands \<and> \<not> deadline_passed now dl \<and> \<not> destroyed c then dialNext now i c t v cands idx dl g
           else refuse i c ''upstream-timeout'' (err_reply ''upstream:ETIMEDOUT'') g
       | Relaying t v a \<Rightarrow>
           put_conn i (c\<lparr>destroyed := True\<rparr>) (g\<lparr>tunnel_closes := ''idle-timeout'' # tunnel_closes g\<rparr>)
       | _ \<Rightarrow> g)
   | None \<Rightarrow> g)"

definition on_chunk :: "int \<Rightarrow> nat \<Rightarrow> bool \<Rightarrow> string \<Rightarrow> gw \<Rightarrow> gw" where
  "on_chunk now i up chunk g = (case map_of (socks g) i of
     Some c \<Rightarrow> (case ph c of
         Relaying t v a \<Rightarrow> if destroyed c then g else relay_chunk now i c v up chunk g
       | _ \<Rightarrow> g)
   | None \<Rightarrow> g)"

text \<open>
  The socket's \<open>close\<close> event: every listener registered so far runs once. A handler still
  waiting (for the envelope deadline, the verifier or the resolver) keeps its phase.
\<close>

definition on_close :: "int \<Rightarrow> nat \<Rightarrow> gw \<Rightarrow> gw" where
  "on_close now i g = (case map_of (socks g) i of
     Some c \<Rightarrow>
       if closed c then g
       else put_conn i (c\<lparr>destroyed := True, closed := True, holds_conn := False, holds_null := None,
                          holds_budget := None, tunnel_open := False,
                          ph := (case ph c of Reading b \<Rightarrow> Reading b | Verifying t v \<Rightarrow> Verifying t v | Resolving t v \<Rightarrow> Resolving t v | _ \<Rightarrow> Finished)\<rparr>)
             (g\<lparr>gw_limiter := (case holds_null c of Some n \<Rightarrow> releaseNullifier n | None \<Rightarrow> id)
                               ((if holds_conn c then release else id) (gw_limiter g)),
               gw_budget := (case holds_budget c of Some k \<Rightarrow> budget_release now k | None \<Rightarrow> id) (gw_budget g)\<rparr>)
   | None \<Rightarrow> g)"

datatype gw_event =
    AcceptEv nat
  | ReadEv nat read_event
  | VerifiedEv nat
  | ResolvedEv nat dns_result
  | ConnectedEv nat
  | UpstreamErrorEv nat string
  | UpstreamTimeoutEv nat
  | ChunkEv nat bool string
  | CloseEv nat
  | SpentSweepEv
  | BudgetSweepEv
  | RootsEv "string list"
  | PeerSpendEv string string  \<comment> \<open>an announcement delivered to the tally\<close>

fun gw_step :: "gw_cfg \<Rightarrow> int \<times> gw_event \<Rightarrow> gw \<Rightarrow> gw" where
  "gw_step C (now, AcceptEv i) g = (if map_of (socks g) i = None then on_accept i g else g)"
| "gw_step C (now, ReadEv i ev) g = on_read C now i ev g"
| "gw_step C (now, VerifiedEv i) g = on_verified C now i g"
| "gw_step C (now, ResolvedEv i ans) g = on_resolved C now i ans g"
| "gw_step C (now, ConnectedEv i) g = on_connected C now i g"
| "gw_step C (now, UpstreamErrorEv i code) g = on_upstream_error now i code g"
| "gw_step C (now, UpstreamTimeoutEv i) g = on_upstream_timeout now i g"
| "gw_step C (now, ChunkEv i up chunk) g = on_chunk now i up chunk g"
| "gw_step C (now, CloseEv i) g = on_close now i g"
| "gw_step C (now, SpentSweepEv) g = g\<lparr>gw_spent := spent_sweep now (gw_spent g)\<rparr>"
| "gw_step C (now, BudgetSweepEv) g = g\<lparr>gw_budget := budget_sweep now (gw_budget g)\<rparr>"
| "gw_step C (now, RootsEv rs) g = g\<lparr>gw_roots := rs\<rparr>"
| "gw_step C (now, PeerSpendEv n e) g = g\<lparr>gw_tally := snd (ingest now (JStr n) (JStr e) (gw_tally g))\<rparr>"

definition gw_init :: "conn_limiter \<Rightarrow> payload_budget \<Rightarrow> spent_set \<Rightarrow> tally \<Rightarrow> string list \<Rightarrow> gw" where
  "gw_init l b ss ty rs = \<lparr>gw_limiter = l, gw_budget = b, gw_spent = ss, gw_tally = ty, gw_roots = rs, socks = [],
     replies = [], drops = [], passes = 0, tunnel_closes = [], slashes = [], published = [], relayed = []\<rparr>"

text \<open>What \<open>main\<close> builds: both stores and the tally live two epochs.\<close>

definition start_gateway :: "gw_cfg \<Rightarrow> int \<Rightarrow> int \<Rightarrow> jsval \<Rightarrow> int \<Rightarrow> string list \<Rightarrow> gw res" where
  "start_gateway C mc mn mb w rs = (let ttl = 2 * EPOCH_SECONDS (g_rln C) * 1000 in
     case makePayloadBudget mb (JNum ttl) of
       Inl e \<Rightarrow> Inl e
     | Inr b \<Rightarrow> Inr (gw_init (makeConnLimiter mc mn) b (makeSpentSet ttl w)
                 (makeFleetTally ttl JUndef JUndef JUndef JUndef) rs))"

section \<open>Invariant\<close>

definition cnt :: "('c \<Rightarrow> bool) \<Rightarrow> ('k, 'c) jmap \<Rightarrow> int" where
  "cnt P m = (\<Sum>(k, c)\<leftarrow>m. if P c then 1 else 0)"

lemma cnt_simps [simp]: "cnt P [] = 0" "cnt P (kc # m) = (if P (snd kc) then 1 else 0) + cnt P m"
  by (simp_all add: cnt_def case_prod_beta)

lemma cnt_nonneg [simp]: "0 \<le> cnt P m"
  by (induction m) auto

lemma cnt_update:
  "jmap_wf m \<Longrightarrow> cnt P (AList.update k c m) = cnt P m + (if P c then 1 else 0)
     - (case map_of m k of Some c0 \<Rightarrow> if P c0 then 1 else 0 | None \<Rightarrow> 0)"
  by (induction m) (auto split: option.splits simp del: map_of_eq_Some_iff)

lemma cnt_pos: "map_of m k = Some c \<Longrightarrow> P c \<Longrightarrow> 1 \<le> cnt P m"
proof (induction m)
  case (Cons kc m)
  then show ?case using cnt_nonneg [of P m] by (auto split: if_splits)
qed simp

lemma cnt_zero: "cnt P m = 0 \<longleftrightarrow> (\<forall>(k, c)\<in>set m. \<not> P c)"
proof (induction m)
  case (Cons kc m)
  have "1 + cnt P m \<noteq> 0" using cnt_nonneg [of P m] by linarith
  with Cons show ?case by (auto simp: case_prod_beta)
qed simp

text \<open>
  The resources the shared structures count are exactly the ones open sockets hold, and a socket in
  a later phase passed the earlier checks.
\<close>

definition tunnel_ok :: "gw_cfg \<Rightarrow> tunnel \<Rightarrow> bool" where
  "tunnel_ok C t \<longleftrightarrow> validTarget (g_policy C) (getp (tn_env t) ''target'') = Target (tn_host t) (tn_port t)"

definition address_ok :: "gw_cfg \<Rightarrow> string \<Rightarrow> bool" where
  "address_ok C a \<longleftrightarrow> g_private C \<or> isPublicEgressAddress a"

fun phase_ok :: "gw_cfg \<Rightarrow> phase \<Rightarrow> bool" where
  "phase_ok C (Reading b) = True"
| "phase_ok C (Verifying t v) = tunnel_ok C t"
| "phase_ok C (Resolving t v) = tunnel_ok C t"
| "phase_ok C (Dialing t v cands idx dl) =
     (tunnel_ok C t \<and> 0 < idx \<and> idx \<le> length cands \<and> (\<forall>a\<in>set cands. address_ok C (fst a)))"
| "phase_ok C (Relaying t v a) = (tunnel_ok C t \<and> address_ok C a)"
| "phase_ok C Finished = True"

fun early :: "phase \<Rightarrow> bool" where  \<comment> \<open>before admission\<close>
  "early (Reading b) = True"
| "early (Verifying t v) = True"
| "early p = False"

definition conn_ok :: "gw_cfg \<Rightarrow> conn \<Rightarrow> bool" where
  "conn_ok C c \<longleftrightarrow> phase_ok C (ph c) \<and> (early (ph c) \<longrightarrow> holds_null c = None \<and> holds_budget c = None)
     \<and> (closed c \<longrightarrow> destroyed c \<and> \<not> holds_conn c \<and> holds_null c = None \<and> holds_budget c = None)"

definition books_ok :: "conn_limiter \<Rightarrow> payload_budget \<Rightarrow> (nat, conn) jmap \<Rightarrow> bool" where
  "books_ok l b m \<longleftrightarrow> conns l = cnt holds_conn m
     \<and> (\<forall>n. nullifierCount l n = cnt (\<lambda>c. holds_null c = Some n) m)
     \<and> (maxBytes b \<noteq> 0 \<longrightarrow> (\<forall>k. active_of k b = cnt (\<lambda>c. holds_budget c = Some k) m))"

definition gw_inv :: "gw_cfg \<Rightarrow> gw \<Rightarrow> bool" where
  "gw_inv C g \<longleftrightarrow> limiter_inv (gw_limiter g) \<and> budget_inv (gw_budget g) \<and> spent_inv (gw_spent g) \<and> tally_inv (gw_tally g)
     \<and> jmap_wf (socks g) \<and> books_ok (gw_limiter g) (gw_budget g) (socks g)
     \<and> (\<forall>i c. map_of (socks g) i = Some c \<longrightarrow> conn_ok C c) \<and> set (drops g) \<subseteq> set DROP_LABELS"

definition same_holds :: "conn \<Rightarrow> conn \<Rightarrow> bool" where
  "same_holds c c' \<longleftrightarrow> holds_conn c = holds_conn c' \<and> holds_null c = holds_null c' \<and> holds_budget c = holds_budget c'"

lemma books_same:
  assumes "jmap_wf m" "map_of m i = Some c" "same_holds c c'" "books_ok l b m"
  shows "books_ok l b (AList.update i c' m)"
  using assms by (auto simp: books_ok_def cnt_update same_holds_def)

lemma gw_inv_put:
  assumes "gw_inv C g" "map_of (socks g) i = Some c" "same_holds c c'" "conn_ok C c'"
  shows "gw_inv C (put_conn i c' g)"
  using assms books_same [of "socks g" i c c']
  by (auto simp: gw_inv_def put_conn_def simp del: map_of_eq_Some_iff)

lemma gw_inv_frame:
  "gw_inv C g \<Longrightarrow> gw_inv C (g\<lparr>replies := r\<rparr>)" "gw_inv C g \<Longrightarrow> gw_inv C (g\<lparr>relayed := rl\<rparr>)"
  "gw_inv C g \<Longrightarrow> gw_inv C (g\<lparr>tunnel_closes := tc\<rparr>)" "gw_inv C g \<Longrightarrow> gw_inv C (g\<lparr>slashes := sl\<rparr>)"
  "gw_inv C g \<Longrightarrow> gw_inv C (g\<lparr>published := pb\<rparr>)" "gw_inv C g \<Longrightarrow> gw_inv C (g\<lparr>passes := ps\<rparr>)"
  "gw_inv C g \<Longrightarrow> gw_inv C (g\<lparr>gw_roots := rs\<rparr>)"
  "gw_inv C g \<Longrightarrow> d \<in> set DROP_LABELS \<Longrightarrow> gw_inv C (g\<lparr>drops := d # drops g\<rparr>)"
  "gw_inv C g \<Longrightarrow> spent_inv ss \<Longrightarrow> gw_inv C (g\<lparr>gw_spent := ss\<rparr>)"
  "gw_inv C g \<Longrightarrow> tally_inv ty \<Longrightarrow> gw_inv C (g\<lparr>gw_tally := ty\<rparr>)"
  by (simp_all add: gw_inv_def)

lemma gw_inv_budget:
  assumes "gw_inv C g" "budget_inv b" "maxBytes b = maxBytes (gw_budget g)" "\<And>k. active_of k b = active_of k (gw_budget g)"
  shows "gw_inv C (g\<lparr>gw_budget := b\<rparr>)"
  using assms by (simp add: gw_inv_def books_ok_def)

lemma conn_ok_end: "conn_ok C c \<Longrightarrow> conn_ok C (c\<lparr>ph := Finished, destroyed := True\<rparr>)"
  by (simp add: conn_ok_def)

lemma gw_inv_conn: "gw_inv C g \<Longrightarrow> map_of (socks g) i = Some c \<Longrightarrow> conn_ok C c"
  by (simp add: gw_inv_def del: map_of_eq_Some_iff)

lemma gw_inv_refuse:
  assumes "gw_inv C g" "map_of (socks g) i = Some c" "label \<in> set DROP_LABELS"
  shows "gw_inv C (refuse i c label obj g)"
  unfolding refuse_def
  by (rule gw_inv_put [of C _ i c]) (use assms in \<open>auto intro: gw_inv_frame conn_ok_end gw_inv_conn simp: same_holds_def gw_inv_def\<close>)

subsection \<open>Preservation, one callback at a time\<close>

lemma gw_inv_new:
  assumes "gw_inv C g" "map_of (socks g) i = None" "conn_ok C c" "limiter_inv l"
    and "holds_null c = None" "holds_budget c = None" "conns l = conns (gw_limiter g) + (if holds_conn c then 1 else 0)"
    and "\<And>n. nullifierCount l n = nullifierCount (gw_limiter g) n"
  shows "gw_inv C (put_conn i c (g\<lparr>gw_limiter := l\<rparr>))"
  using assms by (auto simp: gw_inv_def put_conn_def books_ok_def cnt_update simp del: map_of_eq_Some_iff)

lemma inv_accept:
  assumes g: "gw_inv C g" and i: "map_of (socks g) i = None"
  shows "gw_inv C (on_accept i g)"
proof -
  obtain ok l where a: "acquire (gw_limiter g) = (ok, l)" by fastforce
  have l: "limiter_inv l" using g a by (auto simp: gw_inv_def intro: limiter_inv_acquire)
  have ln: "nullifierCount l n = nullifierCount (gw_limiter g) n" for n
    using a by (auto simp: acquire_def nullifierCount_def split: if_split_asm)
  show ?thesis
  proof (cases ok)
    case True
    with a have "conns l = conns (gw_limiter g) + 1" by (auto simp: acquire_def split: if_split_asm)
    then have "gw_inv C (put_conn i fresh_conn (g\<lparr>gw_limiter := l\<rparr>))"
      by (intro gw_inv_new [OF g i _ l]) (simp_all add: ln fresh_conn_def conn_ok_def)
    with a True show ?thesis by (simp add: on_accept_def)
  next
    case False
    with a have "conns l = conns (gw_limiter g)" by (auto simp: acquire_def split: if_split_asm)
    let ?c = "fresh_conn\<lparr>holds_conn := False, ph := Finished, destroyed := True\<rparr>"
    let ?g = "g\<lparr>drops := ''too-many-connections'' # drops g, replies := (i, err_reply ''too-many-connections'') # replies g\<rparr>"
    have "gw_inv C ?g" using g by (intro gw_inv_frame) (auto intro: gw_inv_frame drop_labels_mem)
    then have "gw_inv C (put_conn i ?c (?g\<lparr>gw_limiter := l\<rparr>))"
      by (rule gw_inv_new) (use i l ln \<open>conns l = _\<close> in \<open>simp_all add: fresh_conn_def conn_ok_def\<close>)
    moreover have "put_conn i ?c (?g\<lparr>gw_limiter := l\<rparr>) = on_accept i g"
      using a False by (simp add: on_accept_def refuse_def put_conn_def fresh_conn_def)
    ultimately show ?thesis by simp
  qed
qed

lemma validTarget_reason: "validTarget pol v = BadTarget r \<Longrightarrow> r \<in> set DROP_LABELS"
  by (auto simp: validTarget_def Let_def drop_labels_mem split: jsval.splits option.splits if_split_asm)

lemma resolve_reason: "resolveEgressTarget pr ans h p = Refused r \<Longrightarrow> r \<in> set DROP_LABELS"
  by (auto simp: resolveEgressTarget_def drop_labels_mem split: if_split_asm dns_result.splits)

lemma read_reason: "read_step ev (Pending b) = ReadError m r \<Longrightarrow> r \<in> set DROP_LABELS"
  by (cases ev) (auto simp: Let_def drop_labels_mem split: if_split_asm)

lemma inv_line:
  assumes g: "gw_inv C g" and c: "map_of (socks g) i = Some c" and e: "early (ph c)"
  shows "gw_inv C (on_line C now i c line rest g)"
proof -
  note refuse = gw_inv_refuse [OF g c]
  show ?thesis
  proof (cases "g_json C line")
    case None
    then show ?thesis by (simp add: on_line_def refuse drop_labels_mem)
  next
    case env: (Some env)
    show ?thesis
    proof (cases "is_object env")
      case False
      with env show ?thesis by (simp add: on_line_def refuse drop_labels_mem)
    next
      case obj: True
      show ?thesis
      proof (cases "acceptEnvelopeVersion (getp env ''v'') (PROTO_MIN, PROTO_MAX)")
        case (VersionBad r l)
        with env obj show ?thesis by (simp add: on_line_def refuse gatewayDropLabel_mem)
      next
        case ver: (VersionOk n)
        show ?thesis
        proof (cases "validTarget (g_policy C) (getp env ''target'')")
          case (BadTarget r)
          with env obj ver show ?thesis by (simp add: on_line_def refuse validTarget_reason)
        next
          case tg: (Target h p)
          let ?t = "\<lparr>tn_env = env, tn_rest = rest, tn_host = h, tn_port = p\<rparr>"
          have "gw_inv C (put_conn i (c\<lparr>ph := Verifying ?t (verifyEnvelope (g_lib C) (g_rln C) (g_artifacts C) env (gw_roots g) now)\<rparr>) g)"
            by (rule gw_inv_put [OF g c])
              (use gw_inv_conn [OF g c] tg e in \<open>simp_all add: same_holds_def conn_ok_def tunnel_ok_def\<close>)
          with env obj ver tg show ?thesis by (simp add: on_line_def)
        qed
      qed
    qed
  qed
qed

lemma inv_read:
  assumes g: "gw_inv C g"
  shows "gw_inv C (on_read C now i ev g)"
proof (cases "map_of (socks g) i")
  case (Some c)
  show ?thesis
  proof (cases "ph c")
    case (Reading b)
    show ?thesis
    proof (cases "read_step ev (Pending b)")
      case (Pending b')
      have "gw_inv C (put_conn i (c\<lparr>ph := Reading b'\<rparr>) g)"
        by (rule gw_inv_put [OF g Some]) (use gw_inv_conn [OF g Some] Reading in \<open>simp_all add: same_holds_def conn_ok_def\<close>)
      with Some Reading Pending g show ?thesis by (simp add: on_read_def)
    next
      case (Line l r)
      with Some Reading g inv_line [OF g Some, of now l r] show ?thesis by (simp add: on_read_def)
    next
      case (ReadError m r)
      with Some Reading g gw_inv_refuse [OF g Some read_reason [OF ReadError]] show ?thesis by (simp add: on_read_def)
    qed
  qed (use Some g in \<open>simp_all add: on_read_def\<close>)
qed (use g in \<open>simp add: on_read_def\<close>)

lemma inv_admitted:
  assumes g: "gw_inv C g" and c: "map_of (socks g) i = Some c"
    and nh: "holds_null c = None" "holds_budget c = None" and ok: "tunnel_ok C t"
  shows "gw_inv C (on_admitted now i c t v g)"
proof -
  let ?n = "vf_nullifier v" and ?k = "budget_key (vf_nullifier v) (vf_externalNullifier v)"
  obtain ok' l where a: "acquireNullifier ?n (gw_limiter g) = (ok', l)" by fastforce
  have linv: "limiter_inv (gw_limiter g)" and binv: "budget_inv (gw_budget g)" and wf: "jmap_wf (socks g)"
    and books: "books_ok (gw_limiter g) (gw_budget g) (socks g)" using g by (simp_all add: gw_inv_def)
  have l: "limiter_inv l" using linv a by (rule limiter_inv_acquireNullifier)
  have lc: "conns l = conns (gw_limiter g)" using a by (auto simp: acquireNullifier_def Let_def split: if_split_asm)
  show ?thesis
  proof (cases ok')
    case False
    with a have "l = gw_limiter g" by (auto simp: acquireNullifier_def Let_def split: if_split_asm)
    with a False gw_inv_refuse [OF g c drop_labels_mem(19)] show ?thesis by (simp add: on_admitted_def)
  next
    case True
    with a have a': "acquireNullifier ?n (gw_limiter g) = (True, l)" by simp
    note cnt_n = nullifierCount_acquire [OF a']
    show ?thesis
    proof (cases "destroyed c")
      case dead: True
      let ?l = "releaseNullifier ?n l"
      have n0: "0 \<le> nullifierCount (gw_limiter g) ?n" using nullifierCount_bounds(1) [OF linv] .
      have "nullifierCount ?l m = nullifierCount (gw_limiter g) m" for m
        using nullifierCount_release [OF l, of ?n m] cnt_n n0 by auto
      moreover have "conns ?l = conns (gw_limiter g)" using lc by (simp add: releaseNullifier_def Let_def)
      ultimately have "gw_inv C (g\<lparr>gw_limiter := ?l\<rparr>)"
        using g limiter_inv_releaseNullifier [OF l] by (simp add: gw_inv_def books_ok_def)
      then have "gw_inv C (put_conn i (c\<lparr>ph := Finished\<rparr>) (g\<lparr>gw_limiter := ?l\<rparr>))"
        by (rule gw_inv_put) (use c gw_inv_conn [OF g c] in \<open>simp_all add: same_holds_def conn_ok_def\<close>)
      with a True dead show ?thesis by (simp add: on_admitted_def)
    next
      case alive: False
      obtain left b where b: "budget_acquire now ?k (gw_budget g) = (left, b)" by fastforce
      note B = budget_acquire_spec [OF binv b]
      let ?c = "c\<lparr>holds_null := Some ?n, holds_budget := Some ?k\<rparr>"
      have notclosed: "\<not> closed c" using gw_inv_conn [OF g c] alive by (auto simp: conn_ok_def)
      have put: "gw_inv C (put_conn i c' (g\<lparr>gw_limiter := l, gw_budget := b\<rparr>))"
        if h: "holds_null c' = Some ?n" "holds_budget c' = Some ?k" "holds_conn c' = holds_conn c"
          and p: "\<not> closed c'" "phase_ok C (ph c')" "\<not> early (ph c')" for c'
      proof -
        have "books_ok l b (AList.update i c' (socks g))"
          using books lc cnt_n B c nh wf h by (auto simp: books_ok_def cnt_update simp del: map_of_eq_Some_iff)
        with g l B p show ?thesis
          by (auto simp: gw_inv_def put_conn_def conn_ok_def simp del: map_of_eq_Some_iff)
      qed
      have put1: "gw_inv C (put_conn i (?c\<lparr>ph := Resolving t v\<rparr>) (g\<lparr>gw_limiter := l, gw_budget := b\<rparr>))"
        by (rule put) (use ok notclosed in simp_all)
      have "gw_inv C (refuse i ?c ''payload-limit'' obj (g\<lparr>gw_limiter := l, gw_budget := b\<rparr>))" for obj
      proof -
        have "gw_inv C (put_conn i (?c\<lparr>ph := Finished, destroyed := True\<rparr>) (g\<lparr>gw_limiter := l, gw_budget := b\<rparr>))"
          by (rule put) (use notclosed in simp_all)
        then show ?thesis
          using drop_labels_mem(20) by (simp add: gw_inv_def refuse_def put_conn_def del: map_of_eq_Some_iff)
      qed
      with a True alive b put1 show ?thesis by (simp add: on_admitted_def Let_def)
    qed
  qed
qed

lemma inv_verified:
  assumes g: "gw_inv C g"
  shows "gw_inv C (on_verified C now i g)"
proof (cases "map_of (socks g) i")
  case (Some c)
  show ?thesis
  proof (cases "ph c")
    case (Verifying t vd)
    with gw_inv_conn [OF g Some] have ok: "tunnel_ok C t" and nh: "holds_null c = None" "holds_budget c = None"
      by (simp_all add: conn_ok_def)
    show ?thesis
    proof (cases vd)
      case (Reject r l a)
      with Some Verifying gw_inv_refuse [OF g Some gatewayDropLabel_mem] show ?thesis by (simp add: on_verified_def)
    next
      case (Accept v)
      obtain r call ss ty where a: "admit reconstructSecret (derive_of C) (tally_of C) now (vf_nullifier v) (Some (vf_share v))
          (nonce_of (tn_env t)) (vf_externalNullifier v) (gw_spent g, gw_tally g) = (r, call, ss, ty)"
        by (metis prod_cases4)
      have ss: "spent_inv ss" using g a by (auto simp: gw_inv_def intro: spent_inv_admit)
      have ty: "tally_inv ty"
        using g a fleet.admit_wf [of "gw_tally g" reconstructSecret "derive_of C" now "vf_nullifier v" "Some (vf_share v)"
            "nonce_of (tn_env t)" "vf_externalNullifier v" "gw_spent g"] admit_no_tally [of reconstructSecret "derive_of C" now "vf_nullifier v" "Some (vf_share v)"
            "nonce_of (tn_env t)" "vf_externalNullifier v" "gw_spent g" "gw_tally g"]
        by (cases "g_shared C") (auto simp: tally_of_def gw_inv_def)
      let ?g = "g\<lparr>gw_spent := ss, gw_tally := ty, slashes := (case call of Some s \<Rightarrow> s # slashes g | None \<Rightarrow> slashes g)\<rparr>"
      have g': "gw_inv C ?g" using g ss ty by (simp add: gw_inv_def)
      have c': "map_of (socks ?g) i = Some c" using Some by simp
      show ?thesis
      proof (cases "adm_ok r")
        case False
        with Some Verifying Accept a gw_inv_refuse [OF g' c' gatewayDropLabel_mem] show ?thesis
          by (simp add: on_verified_def Let_def)
      next
        case True
        from inv_admitted [OF g' c' nh ok] True Some Verifying Accept a show ?thesis
          by (simp add: on_verified_def Let_def)
      qed
    qed
  qed (use Some g in \<open>simp_all add: on_verified_def\<close>)
qed (use g in \<open>simp add: on_verified_def\<close>)

lemma inv_dialNext:
  assumes g: "gw_inv C g" and c: "map_of (socks g) i = Some c"
    and ok: "tunnel_ok C t" "idx < length cands" "\<forall>a\<in>set cands. address_ok C (fst a)"
  shows "gw_inv C (dialNext now i c t v cands idx dl g)"
proof (cases "deadline_passed now dl")
  case True
  then show ?thesis by (simp add: dialNext_def gw_inv_refuse [OF g c] drop_labels_mem)
next
  case False
  have "gw_inv C (put_conn i (c\<lparr>ph := Dialing t v cands (Suc idx) dl\<rparr>) g)"
    by (rule gw_inv_put [OF g c]) (use gw_inv_conn [OF g c] ok in \<open>auto simp: same_holds_def conn_ok_def\<close>)
  with False show ?thesis by (simp add: dialNext_def)
qed

lemma resolved_addresses:
  "resolveEgressTarget (g_private C) ans h p = Pinned h' p' addrs \<Longrightarrow> addrs \<noteq> [] \<and> (\<forall>a\<in>set addrs. address_ok C (fst a))"
  using resolve_pinned_public [of ans h p h' p' addrs] resolve_pinned_nonempty [of "g_private C" ans h p h' p' addrs]
  by (auto simp: address_ok_def)

lemma inv_resolved:
  assumes g: "gw_inv C g"
  shows "gw_inv C (on_resolved C now i ans g)"
proof (cases "map_of (socks g) i")
  case (Some c)
  show ?thesis
  proof (cases "ph c")
    case (Resolving t v)
    with gw_inv_conn [OF g Some] have ok: "tunnel_ok C t" by (simp add: conn_ok_def)
    show ?thesis
    proof (cases "resolveEgressTarget (g_private C) ans (tn_host t) (tn_port t)")
      case (Refused r)
      with Some Resolving gw_inv_refuse [OF g Some resolve_reason [OF Refused]] show ?thesis by (simp add: on_resolved_def)
    next
      case (Pinned h p addrs)
      have "gw_inv C (put_conn i (c\<lparr>ph := Finished\<rparr>) g)"
        by (rule gw_inv_put [OF g Some]) (use gw_inv_conn [OF g Some] in \<open>simp_all add: same_holds_def conn_ok_def\<close>)
      moreover have "gw_inv C (dialNext now i c t v addrs 0 dl g)" for dl
        by (rule inv_dialNext [OF g Some ok]) (use resolved_addresses [OF Pinned] in auto)
      ultimately show ?thesis using Some Resolving Pinned by (simp add: on_resolved_def)
    qed
  qed (use Some g in \<open>simp_all add: on_resolved_def\<close>)
qed (use g in \<open>simp add: on_resolved_def\<close>)

lemma inv_relay_chunk:
  assumes g: "gw_inv C g" and i: "map_of (socks g) i = Some c0" and c: "same_holds c0 c" "conn_ok C c"
  shows "gw_inv C (relay_chunk now i c v up chunk g)"
proof -
  let ?k = "budget_key (vf_nullifier v) (vf_externalNullifier v)"
  obtain r b where p: "payloadTransform now ?k chunk (gw_budget g) = (r, b)" by fastforce
  have binv: "budget_inv (gw_budget g)" using g by (simp add: gw_inv_def)
  note keeps = payloadTransform_keeps [OF binv p]
  let ?gb = "g\<lparr>gw_budget := b\<rparr>"
  have gb: "gw_inv C ?gb" using gw_inv_budget [OF g] keeps by blast
  have put: "gw_inv C (put_conn i c' (g\<lparr>gw_budget := b, relayed := rl, tunnel_closes := tc\<rparr>))"
    if "same_holds c0 c'" "conn_ok C c'" for c' rl tc
  proof -
    have "gw_inv C (?gb\<lparr>relayed := rl, tunnel_closes := tc\<rparr>)" using gb by (intro gw_inv_frame)
    then show ?thesis by (rule gw_inv_put [of C _ i c0]) (use i that in simp_all)
  qed
  have dead: "same_holds c0 (c\<lparr>destroyed := True\<rparr>)" "conn_ok C (c\<lparr>destroyed := True\<rparr>)"
    using c by (simp_all add: same_holds_def conn_ok_def)
  show ?thesis
  proof (cases r)
    case (Inl e)
    with p gw_inv_put [of C ?gb i c0] gb i dead show ?thesis by (simp add: relay_chunk_def)
  next
    case (Inr out)
    note put1 = put [OF dead] and put2 = gw_inv_put [OF gw_inv_frame(2) [OF gb] _ c]
    show ?thesis
      using p Inr put1 put2 i by (cases "ro_limit out") (simp_all add: relay_chunk_def Let_def)
  qed
qed

lemma tally_inv_commit: "tally_inv ty \<Longrightarrow> tally_inv (snd (commit (tally_of C) now n ep (ss, ty)))"
  by (auto simp: commit_def tally_of_def fleet_ops_def snd_tally_record split: option.splits intro: tally_inv_ingest)

lemma inv_connected:
  assumes g: "gw_inv C g"
  shows "gw_inv C (on_connected C now i g)"
proof (cases "map_of (socks g) i")
  case (Some c)
  show ?thesis
  proof (cases "ph c")
    case (Dialing t v cands idx dl)
    with gw_inv_conn [OF g Some] have ok: "tunnel_ok C t" "0 < idx" "idx \<le> length cands"
      "\<forall>a\<in>set cands. address_ok C (fst a)" by (simp_all add: conn_ok_def)
    then have a: "address_ok C (fst (cands ! (idx - 1)))" by (auto simp: Suc_le_eq)
    obtain ss ty where cm: "commit (tally_of C) now (vf_nullifier v) (vf_externalNullifier v) (gw_spent g, gw_tally g) = (ss, ty)"
      by fastforce
    have ss: "spent_inv ss" using g cm by (auto simp: commit_def gw_inv_def split: option.splits if_split_asm)
    have ty: "tally_inv ty" using g tally_inv_commit [of "gw_tally g" C now "vf_nullifier v" "vf_externalNullifier v" "gw_spent g"] cm
      by (simp add: gw_inv_def)
    let ?c = "c\<lparr>ph := Relaying t v (fst (cands ! (idx - 1))), tunnel_open := True\<rparr>"
    have c': "same_holds c ?c" "conn_ok C ?c"
      using gw_inv_conn [OF g Some] ok a by (simp_all add: same_holds_def conn_ok_def)
    have g': "gw_inv C (g\<lparr>gw_spent := ss, gw_tally := ty, passes := p, replies := rp, published := pb\<rparr>)" for p rp pb
      using g ss ty by (simp add: gw_inv_def)
    show ?thesis
    proof (cases "destroyed c")
      case False
      with Some Dialing cm gw_inv_put [OF g' _ c'] inv_relay_chunk [OF g' _ c'] show ?thesis
        by (simp add: on_connected_def Let_def)
    qed (use Some Dialing g in \<open>simp add: on_connected_def\<close>)
  qed (use Some g in \<open>simp_all add: on_connected_def\<close>)
qed (use g in \<open>simp add: on_connected_def\<close>)

lemma inv_upstream_error:
  assumes g: "gw_inv C g"
  shows "gw_inv C (on_upstream_error now i code g)"
proof (cases "map_of (socks g) i")
  case (Some c)
  have dead: "gw_inv C (put_conn i (c\<lparr>destroyed := True\<rparr>) (g\<lparr>tunnel_closes := tc\<rparr>))" for tc
    by (rule gw_inv_put [OF gw_inv_frame(3) [OF g]]) (use Some gw_inv_conn [OF g Some] in \<open>simp_all add: same_holds_def conn_ok_def\<close>)
  show ?thesis
  proof (cases "ph c")
    case (Dialing t v cands idx dl)
    with gw_inv_conn [OF g Some] have ok: "tunnel_ok C t" "\<forall>a\<in>set cands. address_ok C (fst a)"
      by (simp_all add: conn_ok_def)
    with Some Dialing inv_dialNext [OF g Some ok(1) _ ok(2)] gw_inv_refuse [OF g Some upstreamDropLabel_mem] show ?thesis
      by (simp add: on_upstream_error_def)
  next
    case (Relaying t v a)
    with Some g dead show ?thesis by (simp add: on_upstream_error_def)
  qed (use Some g in \<open>simp_all add: on_upstream_error_def\<close>)
qed (use g in \<open>simp add: on_upstream_error_def\<close>)

lemma inv_upstream_timeout:
  assumes g: "gw_inv C g"
  shows "gw_inv C (on_upstream_timeout now i g)"
proof (cases "map_of (socks g) i")
  case (Some c)
  have dead: "gw_inv C (put_conn i (c\<lparr>destroyed := True\<rparr>) (g\<lparr>tunnel_closes := tc\<rparr>))" for tc
    by (rule gw_inv_put [OF gw_inv_frame(3) [OF g]]) (use Some gw_inv_conn [OF g Some] in \<open>simp_all add: same_holds_def conn_ok_def\<close>)
  show ?thesis
  proof (cases "ph c")
    case (Dialing t v cands idx dl)
    with gw_inv_conn [OF g Some] have ok: "tunnel_ok C t" "\<forall>a\<in>set cands. address_ok C (fst a)"
      by (simp_all add: conn_ok_def)
    have "''upstream-timeout'' \<in> set DROP_LABELS" by (simp add: drop_labels_mem)
    with Some Dialing inv_dialNext [OF g Some ok(1) _ ok(2)] gw_inv_refuse [OF g Some] show ?thesis
      by (simp add: on_upstream_timeout_def)
  next
    case (Relaying t v a)
    with Some g dead show ?thesis by (simp add: on_upstream_timeout_def)
  qed (use Some g in \<open>simp_all add: on_upstream_timeout_def\<close>)
qed (use g in \<open>simp add: on_upstream_timeout_def\<close>)

lemma inv_chunk:
  assumes g: "gw_inv C g"
  shows "gw_inv C (on_chunk now i up chunk g)"
proof (cases "map_of (socks g) i")
  case (Some c)
  have "same_holds c c" by (simp add: same_holds_def)
  from inv_relay_chunk [OF g Some this gw_inv_conn [OF g Some]] Some g show ?thesis
    by (cases "ph c") (simp_all add: on_chunk_def)
qed (use g in \<open>simp add: on_chunk_def\<close>)

text \<open>Closing gives back exactly what the socket held.\<close>

lemma conn_ok_closed:
  assumes "conn_ok C c"
  shows "conn_ok C (c\<lparr>destroyed := True, closed := True, holds_conn := False, holds_null := None,
    holds_budget := None, tunnel_open := False,
    ph := (case ph c of Reading b \<Rightarrow> Reading b | Verifying t v \<Rightarrow> Verifying t v | Resolving t v \<Rightarrow> Resolving t v | _ \<Rightarrow> Finished)\<rparr>)"
  using assms by (cases "ph c") (simp_all add: conn_ok_def)

lemma inv_close:
  assumes g: "gw_inv C g"
  shows "gw_inv C (on_close now i g)"
proof (cases "map_of (socks g) i")
  case (Some c)
  let ?m = "socks g" and ?l = "gw_limiter g" and ?b = "gw_budget g"
  let ?l1 = "(if holds_conn c then release else id) ?l"
  let ?l2 = "(case holds_null c of Some n \<Rightarrow> releaseNullifier n | None \<Rightarrow> id) ?l1"
  let ?b2 = "(case holds_budget c of Some k \<Rightarrow> budget_release now k | None \<Rightarrow> id) ?b"
  from g have li: "limiter_inv ?l" and bi: "budget_inv ?b" and wf: "jmap_wf ?m" and bk: "books_ok ?l ?b ?m"
    by (simp_all add: gw_inv_def)
  have l1: "limiter_inv ?l1" using li by (auto intro: inv_intros)
  have l2: "limiter_inv ?l2" using l1 by (auto intro: inv_intros split: option.splits)
  have b2: "budget_inv ?b2 \<and> maxBytes ?b2 = maxBytes ?b"
    using budget_release_spec [OF bi] bi by (auto split: option.splits)
  have c1: "conns ?l2 = conns ?l - (if holds_conn c then 1 else 0)"
    using bk cnt_pos [OF Some, of holds_conn] by (auto simp: books_ok_def release_def releaseNullifier_def Let_def split: option.splits)
  have n1: "nullifierCount ?l1 n = nullifierCount ?l n" for n by (auto simp: release_def nullifierCount_def)
  have n2: "nullifierCount ?l2 n = nullifierCount ?l n - (if holds_null c = Some n then 1 else 0)" for n
  proof (cases "holds_null c")
    case (Some m)
    have "m = n \<Longrightarrow> 1 \<le> nullifierCount ?l n"
      using bk cnt_pos [OF \<open>map_of ?m i = Some c\<close>, of "\<lambda>c. holds_null c = Some n"] Some by (simp add: books_ok_def)
    with nullifierCount_release [OF l1, of m n] n1 [of n] n1 [of m] Some show ?thesis by auto
  qed (use n1 in simp)
  have a2: "active_of k ?b2 = active_of k ?b - (if holds_budget c = Some k then 1 else 0)" if "maxBytes ?b \<noteq> 0" for k
    using bk that cnt_pos [OF Some, of "\<lambda>c. holds_budget c = Some k"] budget_release_spec [OF bi, of now _ k]
    by (auto simp: books_ok_def split: option.splits)
  have books: "books_ok ?l2 ?b2 (AList.update i c' ?m)"
    if "\<not> holds_conn c'" "holds_null c' = None" "holds_budget c' = None" for c'
    using bk c1 n2 a2 b2 that Some wf by (simp add: books_ok_def cnt_update)
  show ?thesis
  proof (cases "closed c")
    case False
    with Some g l2 b2 books conn_ok_closed [OF gw_inv_conn [OF g Some]] show ?thesis
      by (simp add: on_close_def gw_inv_def put_conn_def del: map_of_eq_Some_iff)
  qed (use Some g in \<open>simp add: on_close_def\<close>)
qed (use g in \<open>simp add: on_close_def\<close>)

section \<open>Runs\<close>

lemma budget_sweep_max [simp]: "maxBytes (budget_sweep now b) = maxBytes b"
  by (simp add: budget_sweep_def)

lemma gw_inv_step: "gw_inv C g \<Longrightarrow> gw_inv C (gw_step C e g)"
proof (induction C e g rule: gw_step.induct)
  case (11 C now g)
  then have "budget_inv (gw_budget g)" by (simp add: gw_inv_def)
  with 11 show ?case by (auto intro!: gw_inv_budget inv_intros)
next
  case (10 C now g)
  then have "spent_inv (gw_spent g)" by (simp add: gw_inv_def)
  with 10 show ?case by (simp add: gw_inv_frame spent_inv_sweep)
next
  case (13 C now n e g)
  then have "tally_inv (gw_tally g)" by (simp add: gw_inv_def)
  with 13 show ?case by (simp add: gw_inv_frame tally_inv_ingest)
qed (auto intro: inv_accept inv_read inv_verified inv_resolved inv_connected inv_upstream_error inv_upstream_timeout
      inv_chunk inv_close gw_inv_frame)

definition gw_run :: "gw_cfg \<Rightarrow> (int \<times> gw_event) list \<Rightarrow> gw \<Rightarrow> gw" where
  "gw_run C es g = fold (gw_step C) es g"

lemma gw_inv_run: "gw_inv C g \<Longrightarrow> gw_inv C (gw_run C es g)"
  unfolding gw_run_def by (induction es arbitrary: g) (auto intro: gw_inv_step)

lemma gw_inv_start:
  assumes s: "start_gateway C mc mn mb w rs = Inr g" and "0 \<le> mc" and e: "0 < EPOCH_SECONDS (g_rln C)"
  shows "gw_inv C g"
proof -
  let ?ttl = "2 * EPOCH_SECONDS (g_rln C) * 1000"
  let ?ty = "makeFleetTally ?ttl JUndef JUndef JUndef JUndef"
  from s obtain b where b: "makePayloadBudget mb (JNum ?ttl) = Inr b"
    and g: "g = gw_init (makeConnLimiter mc mn) b (makeSpentSet ?ttl w) ?ty rs"
    by (auto simp: start_gateway_def Let_def split: sum.splits)
  from b have "budget_inv b" "entries b = []"
    by (auto simp: makePayloadBudget_def budget_inv_def split: jsval.splits if_split_asm)
  moreover have "tally_inv ?ty" using e by (intro tally_inv_make) simp
  ultimately show ?thesis
    using assms(2) by (simp add: g gw_init_def gw_inv_def books_ok_def nullifierCount_def makeConnLimiter_def limiter_inv_def active_of_def)
qed

lemma gw_inv_reached:
  assumes "start_gateway C mc mn mb w rs = Inr g0" "0 \<le> mc" "0 < EPOCH_SECONDS (g_rln C)"
  shows "gw_inv C (gw_run C es g0)"
  using gw_inv_run [OF gw_inv_start [OF assms]] .

lemma gw_inv_all_closed:
  assumes inv: "gw_inv C g" and closed: "\<forall>i c. map_of (socks g) i = Some c \<longrightarrow> closed c"
  shows "conns (gw_limiter g) = 0" "nullifierCount (gw_limiter g) n = 0" "maxBytes (gw_budget g) \<noteq> 0 \<Longrightarrow> active_of k (gw_budget g) = 0"
proof -
  have wf: "jmap_wf (socks g)" and bk: "books_ok (gw_limiter g) (gw_budget g) (socks g)"
    using inv by (simp_all add: gw_inv_def)
  have "\<not> holds_conn c \<and> holds_null c = None \<and> holds_budget c = None" if "(i, c) \<in> set (socks g)" for i c
  proof -
    have m: "map_of (socks g) i = Some c" using that wf by simp
    with closed gw_inv_conn [OF inv m] show ?thesis by (auto simp: conn_ok_def)
  qed
  then have "cnt holds_conn (socks g) = 0" "cnt (\<lambda>c. holds_null c = Some n) (socks g) = 0"
    "cnt (\<lambda>c. holds_budget c = Some k) (socks g) = 0"
    unfolding cnt_zero by fastforce+
  with bk show "conns (gw_limiter g) = 0" "nullifierCount (gw_limiter g) n = 0"
    "maxBytes (gw_budget g) \<noteq> 0 \<Longrightarrow> active_of k (gw_budget g) = 0"
    by (simp_all add: books_ok_def)
qed

section \<open>History: which line a tunnel comes from\<close>

text \<open>
  The tunnel and the verdict a socket carries through its phases, the roots a sequence of events
  leaves trusted, and what it means that a read callback completed the line \<open>env\<close> was parsed from.
\<close>

fun claim_of :: "phase \<Rightarrow> (tunnel \<times> verdict) option" where
  "claim_of (Verifying t vd) = Some (t, vd)"
| "claim_of (Resolving t v) = Some (t, Accept v)"
| "claim_of (Dialing t v cands idx dl) = Some (t, Accept v)"
| "claim_of (Relaying t v a) = Some (t, Accept v)"
| "claim_of _ = None"

definition claim_at :: "gw \<Rightarrow> nat \<Rightarrow> (tunnel \<times> verdict) option" where
  "claim_at g i = (case map_of (socks g) i of Some c \<Rightarrow> claim_of (ph c) | None \<Rightarrow> None)"

fun trusted_roots :: "string list \<Rightarrow> (int \<times> gw_event) list \<Rightarrow> string list" where
  "trusted_roots rs [] = rs"
| "trusted_roots rs ((now, RootsEv rs') # es) = trusted_roots rs' es"
| "trusted_roots rs (e # es) = trusted_roots rs es"

definition line_read :: "gw_cfg \<Rightarrow> gw \<Rightarrow> nat \<Rightarrow> read_event \<Rightarrow> tunnel \<Rightarrow> bool" where
  "line_read C g i ev t \<longleftrightarrow> (case map_of (socks g) i of
     Some c \<Rightarrow> (case ph c of
         Reading buf \<Rightarrow> (case read_step ev (Pending buf) of
             Line line rest \<Rightarrow> g_json C line = Some (tn_env t) \<and> tn_rest t = rest
           | _ \<Rightarrow> False)
       | _ \<Rightarrow> False)
   | None \<Rightarrow> False)"

lemma claim_put [simp]: "claim_at (put_conn i c g) j = (if j = i then claim_of (ph c) else claim_at g j)"
  by (simp add: claim_at_def put_conn_def del: map_of_eq_Some_iff)

lemma claim_refuse [simp]: "claim_at (refuse i c l obj g) j = (if j = i then None else claim_at g j)"
  by (simp add: refuse_def) (simp add: claim_at_def)

lemma claim_at_phase: "map_of (socks g) i = Some c \<Longrightarrow> claim_at g i = claim_of (ph c)"
  by (simp add: claim_at_def del: map_of_eq_Some_iff)

lemma claim_frame:
  "claim_at (g\<lparr>gw_limiter := l\<rparr>) j = claim_at g j" "claim_at (g\<lparr>gw_budget := b\<rparr>) j = claim_at g j"
  "claim_at (g\<lparr>gw_spent := ss\<rparr>) j = claim_at g j" "claim_at (g\<lparr>gw_tally := ty\<rparr>) j = claim_at g j"
  "claim_at (g\<lparr>slashes := sl\<rparr>) j = claim_at g j" "claim_at (g\<lparr>relayed := rl\<rparr>) j = claim_at g j"
  "claim_at (g\<lparr>tunnel_closes := tc\<rparr>) j = claim_at g j" "claim_at (g\<lparr>passes := ps\<rparr>) j = claim_at g j"
  "claim_at (g\<lparr>replies := rp\<rparr>) j = claim_at g j" "claim_at (g\<lparr>published := pb\<rparr>) j = claim_at g j"
  "claim_at (g\<lparr>gw_roots := rs\<rparr>) j = claim_at g j"
  by (simp_all add: claim_at_def)

lemma claim_accept: "claim_at (on_accept i g) j = Some z \<Longrightarrow> claim_at g j = Some z"
  by (auto simp: on_accept_def fresh_conn_def claim_frame split: prod.splits bool.splits if_split_asm)

lemma claim_line:
  "claim_at (on_line C now i c line rest g) j = Some (t, vd) \<Longrightarrow> claim_at g j = Some (t, vd) \<or>
     j = i \<and> g_json C line = Some (tn_env t) \<and> tn_rest t = rest
       \<and> verifyEnvelope (g_lib C) (g_rln C) (g_artifacts C) (tn_env t) (gw_roots g) now = vd"
  by (auto simp: on_line_def split: option.splits if_split_asm version_check.splits target_check.splits)

lemma claim_read:
  assumes "claim_at (on_read C now i ev g) j = Some (t, vd)"
  shows "claim_at g j = Some (t, vd) \<or> j = i \<and> line_read C g i ev t
    \<and> verifyEnvelope (g_lib C) (g_rln C) (g_artifacts C) (tn_env t) (gw_roots g) now = vd"
proof (cases "map_of (socks g) i")
  case (Some c)
  with assms claim_line [of C now i c _ _ g j t vd] show ?thesis
    by (auto simp: on_read_def line_read_def simp del: map_of_eq_Some_iff read_step.simps split: phase.splits read_state.splits if_split_asm)
qed (use assms in \<open>simp add: on_read_def\<close>)

lemma claim_admitted:
  "claim_at (on_admitted now i c t v g) j = Some z \<Longrightarrow> claim_at g j = Some z \<or> j = i \<and> z = (t, Accept v)"
  by (auto simp: on_admitted_def Let_def claim_frame split: prod.splits bool.splits if_split_asm)

lemma claim_verified: "claim_at (on_verified C now i g) j = Some z \<Longrightarrow> claim_at g j = Some z"
  using claim_at_phase [of g i]
  by (auto simp: on_verified_def Let_def claim_frame simp del: map_of_eq_Some_iff dest!: claim_admitted
      split: option.splits phase.splits verdict.splits prod.splits if_split_asm)

lemma claim_dialNext:
  "claim_at (dialNext now i c t v cands idx dl g) j = Some z \<Longrightarrow> claim_at g j = Some z \<or> j = i \<and> z = (t, Accept v)"
  by (auto simp: dialNext_def split: if_split_asm)

lemma claim_resolved: "claim_at (on_resolved C now i ans g) j = Some z \<Longrightarrow> claim_at g j = Some z"
  using claim_at_phase [of g i]
  by (auto simp: on_resolved_def simp del: map_of_eq_Some_iff dest!: claim_dialNext
      split: option.splits phase.splits resolved.splits if_split_asm)

lemma claim_relay_chunk:
  "claim_at (relay_chunk now i c v up chunk g) j = Some z \<Longrightarrow> claim_at g j = Some z \<or> j = i \<and> claim_of (ph c) = Some z"
  by (auto simp: relay_chunk_def Let_def claim_frame split: prod.splits sum.splits option.splits if_split_asm)

lemma claim_connected: "claim_at (on_connected C now i g) j = Some z \<Longrightarrow> claim_at g j = Some z"
  using claim_at_phase [of g i]
  by (auto simp: on_connected_def Let_def claim_frame simp del: map_of_eq_Some_iff dest!: claim_relay_chunk
      split: option.splits phase.splits prod.splits if_split_asm)

lemma claim_upstream:
  "claim_at (on_upstream_error now i code g) j = Some z \<Longrightarrow> claim_at g j = Some z"
  "claim_at (on_upstream_timeout now i g) j = Some z \<Longrightarrow> claim_at g j = Some z"
  using claim_at_phase [of g i]
  by (auto simp: on_upstream_error_def on_upstream_timeout_def claim_frame simp del: map_of_eq_Some_iff dest!: claim_dialNext
      split: option.splits phase.splits if_split_asm)

lemma claim_chunk: "claim_at (on_chunk now i up chunk g) j = Some z \<Longrightarrow> claim_at g j = Some z"
  using claim_at_phase [of g i]
  by (auto simp: on_chunk_def simp del: map_of_eq_Some_iff dest!: claim_relay_chunk split: option.splits phase.splits if_split_asm)

lemma claim_close: "claim_at (on_close now i g) j = Some z \<Longrightarrow> claim_at g j = Some z"
  using claim_at_phase [of g i]
  by (auto simp: on_close_def claim_frame simp del: map_of_eq_Some_iff split: option.splits phase.splits if_split_asm)

lemma claim_step:
  "claim_at (gw_step C e g) j = Some (t, vd) \<Longrightarrow> claim_at g j = Some (t, vd) \<or>
     (\<exists>now ev. e = (now, ReadEv j ev) \<and> line_read C g j ev t
       \<and> verifyEnvelope (g_lib C) (g_rln C) (g_artifacts C) (tn_env t) (gw_roots g) now = vd)"
  by (induction C e g rule: gw_step.induct)
    (auto simp: claim_frame split: if_split_asm dest: claim_accept claim_read claim_verified claim_resolved claim_connected
      claim_upstream claim_chunk claim_close)

lemma claim_run:
  "claim_at (gw_run C es g) j = Some (t, vd) \<Longrightarrow> claim_at g j = Some (t, vd) \<or>
     (\<exists>es1 now ev es2. es = es1 @ (now, ReadEv j ev) # es2 \<and> line_read C (gw_run C es1 g) j ev t
       \<and> verifyEnvelope (g_lib C) (g_rln C) (g_artifacts C) (tn_env t) (gw_roots (gw_run C es1 g)) now = vd)"
proof (induction es rule: rev_induct)
  case (snoc e es)
  then have "claim_at (gw_step C e (gw_run C es g)) j = Some (t, vd)" by (simp add: gw_run_def)
  from claim_step [OF this] show ?case
  proof
    assume "claim_at (gw_run C es g) j = Some (t, vd)"
    with snoc.IH show ?thesis by (metis append_Cons append_assoc)
  qed blast
qed (simp add: gw_run_def)

subsection \<open>The trusted roots are the last ones delivered\<close>

lemma roots_put [simp]: "gw_roots (put_conn i c g) = gw_roots g" "gw_roots (refuse i c l obj g) = gw_roots g"
  by (simp_all add: put_conn_def refuse_def)

lemma roots_parts [simp]:
  "gw_roots (on_line C now i c line rest g) = gw_roots g" "gw_roots (on_admitted now i c t v g) = gw_roots g"
  "gw_roots (dialNext now i c t v cands idx dl g) = gw_roots g" "gw_roots (relay_chunk now i c v up chunk g) = gw_roots g"
  by (auto simp: on_line_def on_admitted_def dialNext_def relay_chunk_def Let_def
      split: option.splits version_check.splits target_check.splits prod.splits bool.splits sum.splits)

lemma roots_handlers [simp]:
  "gw_roots (on_accept i g) = gw_roots g" "gw_roots (on_read C now i ev g) = gw_roots g"
  "gw_roots (on_verified C now i g) = gw_roots g" "gw_roots (on_resolved C now i ans g) = gw_roots g"
  "gw_roots (on_connected C now i g) = gw_roots g" "gw_roots (on_upstream_error now i code g) = gw_roots g"
  "gw_roots (on_upstream_timeout now i g) = gw_roots g" "gw_roots (on_chunk now i up chunk g) = gw_roots g"
  "gw_roots (on_close now i g) = gw_roots g"
  by (auto simp: on_accept_def on_read_def on_verified_def on_resolved_def on_connected_def on_upstream_error_def
      on_upstream_timeout_def on_chunk_def on_close_def Let_def simp del: read_step.simps
      split: prod.splits bool.splits option.splits phase.splits verdict.splits read_state.splits resolved.splits)

lemma gw_roots_run: "gw_roots (gw_run C es g) = trusted_roots (gw_roots g) es"
proof (induction es arbitrary: g)
  case (Cons e es)
  obtain now ev where "e = (now, ev)" by fastforce
  with Cons [of "gw_step C e g"] show ?case by (cases ev) (simp_all add: gw_run_def)
qed (simp add: gw_run_def)

subsection \<open>The caps never change\<close>

definition caps_of :: "conn_limiter \<Rightarrow> int \<times> int" where
  "caps_of l = (maxConns l, maxPerNullifier l)"

lemma caps_ops [simp]:
  "caps_of (release l) = caps_of l" "caps_of (releaseNullifier n l) = caps_of l"
  "caps_of (snd (acquire l)) = caps_of l" "caps_of (snd (acquireNullifier n l)) = caps_of l"
  by (simp_all add: caps_of_def release_def releaseNullifier_def acquire_def acquireNullifier_def Let_def)

abbreviation gw_caps :: "gw \<Rightarrow> int \<times> int" where
  "gw_caps g \<equiv> caps_of (gw_limiter g)"

lemma caps_put [simp]: "gw_caps (put_conn i c g) = gw_caps g" "gw_caps (refuse i c l obj g) = gw_caps g"
  by (simp_all add: put_conn_def refuse_def)

lemma caps_admitted [simp]: "gw_caps (on_admitted now i c t v g) = gw_caps g"
proof -
  obtain b l where a: "acquireNullifier (vf_nullifier v) (gw_limiter g) = (b, l)" by fastforce
  then have "caps_of l = gw_caps g" using caps_ops(4) [of "vf_nullifier v" "gw_limiter g"] by simp
  with a show ?thesis by (auto simp: on_admitted_def Let_def split: prod.splits bool.splits)
qed

lemma caps_accept [simp]: "gw_caps (on_accept i g) = gw_caps g"
proof -
  obtain b l where a: "acquire (gw_limiter g) = (b, l)" by fastforce
  then have "caps_of l = gw_caps g" using caps_ops(3) [of "gw_limiter g"] by simp
  with a show ?thesis by (auto simp: on_accept_def split: bool.splits)
qed

lemma caps_parts [simp]:
  "gw_caps (on_line C now i c line rest g) = gw_caps g"
  "gw_caps (dialNext now i c t v cands idx dl g) = gw_caps g" "gw_caps (relay_chunk now i c v up chunk g) = gw_caps g"
  by (auto simp: on_line_def dialNext_def relay_chunk_def Let_def
      split: option.splits version_check.splits target_check.splits prod.splits sum.splits)

lemma caps_handlers [simp]:
  "gw_caps (on_read C now i ev g) = gw_caps g"
  "gw_caps (on_verified C now i g) = gw_caps g" "gw_caps (on_resolved C now i ans g) = gw_caps g"
  "gw_caps (on_connected C now i g) = gw_caps g" "gw_caps (on_upstream_error now i code g) = gw_caps g"
  "gw_caps (on_upstream_timeout now i g) = gw_caps g" "gw_caps (on_chunk now i up chunk g) = gw_caps g"
  "gw_caps (on_close now i g) = gw_caps g"
  by (auto simp: on_read_def on_verified_def on_resolved_def on_connected_def on_upstream_error_def
      on_upstream_timeout_def on_chunk_def on_close_def Let_def simp del: read_step.simps
      split: prod.splits option.splits phase.splits verdict.splits read_state.splits resolved.splits)

lemma gw_caps_run: "gw_caps (gw_run C es g) = gw_caps g"
proof (induction es arbitrary: g)
  case (Cons e es)
  obtain now ev where "e = (now, ev)" by fastforce
  with Cons [of "gw_step C e g"] show ?case by (cases ev) (simp_all add: gw_run_def)
qed (simp add: gw_run_def)

lemma start_gateway_state:
  assumes "start_gateway C mc mn mb w rs = Inr g"
  shows "gw_caps g = (mc, mn)" "gw_roots g = rs" "claim_at g i = None"
  using assms by (auto simp: start_gateway_def Let_def gw_init_def makeConnLimiter_def caps_of_def claim_at_def split: sum.splits)

section \<open>An honest tunnel opens\<close>

lemma read_opens:
  assumes "map_of (socks g) i = Some c" "ph c = Reading []" "\<not> closed c"
    and "newline \<notin> set line" "length line \<le> MAX_ENVELOPE" "g_json C line = Some env" "is_object env"
    and "acceptEnvelopeVersion (getp env ''v'') (PROTO_MIN, PROTO_MAX) = VersionOk n"
    and "validTarget (g_policy C) (getp env ''target'') = Target h p"
    and "verifyEnvelope (g_lib C) (g_rln C) (g_artifacts C) env (gw_roots g) now = Accept v"
  shows "on_read C now i (Chunk (line @ [newline])) g = put_conn i (c\<lparr>ph := Verifying
    \<lparr>tn_env = env, tn_rest = [], tn_host = h, tn_port = p\<rparr> (Accept v)\<rparr>) g"
proof -
  have "takeWhile (\<lambda>x. x \<noteq> newline) (line @ [newline]) = line"
    using assms(4) by (subst takeWhile_append2) auto
  then show ?thesis using assms by (simp add: on_read_def on_line_def)
qed

lemma verified_opens:
  assumes c: "map_of (socks g) i = Some c" "ph c = Verifying t (Accept v)" "\<not> destroyed c"
    and adm: "adm_ok (fst (admit reconstructSecret (derive_of C) (tally_of C) now (vf_nullifier v) (Some (vf_share v))
          (nonce_of (tn_env t)) (vf_externalNullifier v) (gw_spent g, gw_tally g)))"
    and lim: "fst (acquireNullifier (vf_nullifier v) (gw_limiter g))"
    and bud: "case fst (budget_acquire now (budget_key (vf_nullifier v) (vf_externalNullifier v)) (gw_budget g)) of Some r \<Rightarrow> 0 < r | None \<Rightarrow> True"
  shows "\<exists>c'. socks (on_verified C now i g) = AList.update i c' (socks g) \<and> ph c' = Resolving t v \<and> \<not> destroyed c'"
proof -
  obtain r call ss ty where a: "admit reconstructSecret (derive_of C) (tally_of C) now (vf_nullifier v) (Some (vf_share v))
      (nonce_of (tn_env t)) (vf_externalNullifier v) (gw_spent g, gw_tally g) = (r, call, ss, ty)" by (metis prod_cases4)
  obtain l where l: "acquireNullifier (vf_nullifier v) (gw_limiter g) = (True, l)"
    using lim by (cases "acquireNullifier (vf_nullifier v) (gw_limiter g)") simp
  obtain left b where b: "budget_acquire now (budget_key (vf_nullifier v) (vf_externalNullifier v)) (gw_budget g) = (left, b)" by fastforce
  have "\<not> (case left of Some r \<Rightarrow> r \<le> 0 | None \<Rightarrow> False)" using bud b by (auto split: option.splits)
  with c a adm l b show ?thesis by (auto simp add: on_verified_def on_admitted_def Let_def put_conn_def)
qed

lemma resolved_opens:
  assumes "map_of (socks g) i = Some c" "ph c = Resolving t v" "\<not> destroyed c"
    and "resolveEgressTarget (g_private C) ans (tn_host t) (tn_port t) = Pinned h p (a # as)"
  shows "\<exists>c' dl. socks (on_resolved C now i ans g) = AList.update i c' (socks g) \<and> ph c' = Dialing t v (a # as) 1 dl \<and> \<not> destroyed c'"
  using assms by (auto simp: on_resolved_def dialNext_def deadline_passed_def put_conn_def)

lemma connected_opens:
  assumes "map_of (socks g) i = Some c" "ph c = Dialing t v ((a, fam) # as) 1 dl" "\<not> destroyed c" "tn_rest t = []"
  shows "\<exists>c'. map_of (socks (on_connected C now i g)) i = Some c' \<and> ph c' = Relaying t v a \<and> \<not> destroyed c' \<and> tunnel_open c'
    \<and> (i, successAck (g_receipt C)) \<in> set (replies (on_connected C now i g)) \<and> passes (on_connected C now i g) = Suc (passes g)"
  using assms by (auto simp: on_connected_def put_conn_def Let_def split: prod.split)

lemma tunnel_opens:
  assumes c: "map_of (socks g) i = Some c" "ph c = Reading []" "\<not> closed c" "\<not> destroyed c"
    and line: "newline \<notin> set line" "length line \<le> MAX_ENVELOPE" "g_json C line = Some env" "is_object env"
    and env: "acceptEnvelopeVersion (getp env ''v'') (PROTO_MIN, PROTO_MAX) = VersionOk n"
      "validTarget (g_policy C) (getp env ''target'') = Target h p"
      "verifyEnvelope (g_lib C) (g_rln C) (g_artifacts C) env (gw_roots g) t1 = Accept v"
    and adm: "adm_ok (fst (admit reconstructSecret (derive_of C) (tally_of C) t2 (vf_nullifier v) (Some (vf_share v))
          (nonce_of env) (vf_externalNullifier v) (gw_spent g, gw_tally g)))"
    and lim: "fst (acquireNullifier (vf_nullifier v) (gw_limiter g))"
    and bud: "case fst (budget_acquire t2 (budget_key (vf_nullifier v) (vf_externalNullifier v)) (gw_budget g)) of Some r \<Rightarrow> 0 < r | None \<Rightarrow> True"
    and dns: "resolveEgressTarget (g_private C) ans h p = Pinned h' p' ((a, fam) # as)"
    and g': "g' = gw_run C [(t1, ReadEv i (Chunk (line @ [newline]))), (t2, VerifiedEv i), (t3, ResolvedEv i ans), (t4, ConnectedEv i)] g"
  shows "\<exists>c' t. map_of (socks g') i = Some c' \<and> ph c' = Relaying t v a \<and> tunnel_open c' \<and> \<not> destroyed c'
    \<and> tn_env t = env \<and> tn_host t = h \<and> tn_port t = p \<and> (i, successAck (g_receipt C)) \<in> set (replies g')"
proof -
  let ?t = "\<lparr>tn_env = env, tn_rest = [], tn_host = h, tn_port = p\<rparr>"
  let ?g1 = "on_read C t1 i (Chunk (line @ [newline])) g"
  have g1: "?g1 = put_conn i (c\<lparr>ph := Verifying ?t (Accept v)\<rparr>) g"
    by (rule read_opens [OF c(1-3) line env])
  have m1: "map_of (socks ?g1) i = Some (c\<lparr>ph := Verifying ?t (Accept v)\<rparr>)" by (simp add: g1 put_conn_def)
  let ?g2 = "on_verified C t2 i ?g1"
  obtain c2 where c2: "map_of (socks ?g2) i = Some c2" "ph c2 = Resolving ?t v" "\<not> destroyed c2"
    using verified_opens [OF m1, of ?t v C t2] c(4) adm lim bud by (auto simp: g1 put_conn_def)
  let ?g3 = "on_resolved C t3 i ans ?g2"
  obtain c3 dl where c3: "map_of (socks ?g3) i = Some c3" "ph c3 = Dialing ?t v ((a, fam) # as) 1 dl" "\<not> destroyed c3"
    using resolved_opens [OF c2, of C ans h' p' "(a, fam)" as t3] dns by auto
  show ?thesis
    using connected_opens [OF c3, of C t4] by (auto simp: g' gw_run_def)
qed

section \<open>Properties\<close>

text \<open>A gateway on the stand-ins of \<open>Rln\<close>, and one tunnel from its envelope on.\<close>

definition demo_gw :: gw_cfg where
  "demo_gw = \<lparr>g_lib = demo_lib, g_rln = demo_cfg, g_artifacts = demo_set, g_policy = makeEgressPolicy None None,
     g_private = False, g_idleMs = 1000, g_tiers = [8], g_leaves = None, g_shared = False,
     g_json = (\<lambda>s. Some (demo_env ''5'')), g_receipt = None\<rparr>"

definition demo_budget :: payload_budget where
  "demo_budget = \<lparr>maxBytes = 1000, ttlMs = 240000, entries = []\<rparr>"

definition demo_start :: gw where
  "demo_start = gw_init (makeConnLimiter 4 2) demo_budget (makeSpentSet 240000 5000)
     (makeFleetTally 240000 JUndef JUndef JUndef JUndef) [''9'']"

definition demo_socket :: gw where
  "demo_socket = gw_step demo_gw (1200000, AcceptEv 1) demo_start"

definition demo_answer :: dns_result where
  "demo_answer = Answers [Some \<lparr>an_address = dotted 93 184 216 34, an_family = 4\<rparr>]"

definition demo_events :: "(int \<times> gw_event) list" where
  "demo_events = [(1200000, ReadEv 1 (Chunk (''e'' @ [newline]))), (1200000, VerifiedEv 1),
     (1200000, ResolvedEv 1 demo_answer), (1200000, ConnectedEv 1)]"

lemma demo_started: "start_gateway demo_gw 4 2 (JNum 1000) 5000 [''9''] = Inr demo_start"
  by (simp add: start_gateway_def demo_gw_def demo_cfg_def makePayloadBudget_def demo_start_def demo_budget_def
      MAX_SAFE_INTEGER_def)

lemma demo_socket_state:
  "socks demo_socket = [(1, fresh_conn)]" "gw_roots demo_socket = [''9'']" "gw_spent demo_socket = makeSpentSet 240000 5000"
  "gw_budget demo_socket = demo_budget" "gw_limiter demo_socket = (makeConnLimiter 4 2)\<lparr>conns := 1\<rparr>"
  by (simp_all add: demo_socket_def demo_start_def gw_init_def on_accept_def acquire_def makeConnLimiter_def put_conn_def)

lemma demo_socket_ok:
  "map_of (socks demo_socket) 1 = Some fresh_conn" "ph fresh_conn = Reading []" "\<not> closed fresh_conn" "\<not> destroyed fresh_conn"
  by (simp_all add: demo_socket_state fresh_conn_def)

lemma demo_line_ok:
  "newline \<notin> set ''e''" "length ''e'' \<le> MAX_ENVELOPE" "g_json demo_gw ''e'' = Some (demo_env ''5'')" "is_object (demo_env ''5'')"
  by (simp_all add: newline_def MAX_ENVELOPE_def demo_gw_def demo_env_def)

lemma demo_target: "validTarget (makeEgressPolicy None None) (JStr ''a.io:443'') = Target ''a.io'' 443"
  by code_simp

lemma demo_version: "acceptEnvelopeVersion (JNum 4) (PROTO_MIN, PROTO_MAX) = VersionOk 4"
  by code_simp

lemma demo_envelope_ok:
  "acceptEnvelopeVersion (getp (demo_env ''5'') ''v'') (PROTO_MIN, PROTO_MAX) = VersionOk 4"
  "validTarget (g_policy demo_gw) (getp (demo_env ''5'') ''target'') = Target ''a.io'' 443"
  "verifyEnvelope (g_lib demo_gw) (g_rln demo_gw) (g_artifacts demo_gw) (demo_env ''5'') (gw_roots demo_socket) 1200000 = Accept demo_verified"
  using demo_target demo_version demo_accepts by (simp_all add: demo_gw_def demo_env_def demo_socket_state)

lemma demo_room:
  "adm_ok (fst (admit reconstructSecret (derive_of demo_gw) (tally_of demo_gw) 1200000 (vf_nullifier demo_verified)
     (Some (vf_share demo_verified)) (nonce_of (demo_env ''5'')) (vf_externalNullifier demo_verified) (gw_spent demo_socket, gw_tally demo_socket)))"
  "fst (acquireNullifier (vf_nullifier demo_verified) (gw_limiter demo_socket))"
  "case fst (budget_acquire 1200000 (budget_key (vf_nullifier demo_verified) (vf_externalNullifier demo_verified)) (gw_budget demo_socket)) of
     Some r \<Rightarrow> 0 < r | None \<Rightarrow> True"
  by (simp_all add: demo_socket_state admit_def tally_of_def demo_gw_def makeSpentSet_def Let_def acquireNullifier_def
      nullifierCount_def makeConnLimiter_def budget_acquire_def demo_budget_def entryFor_def)

lemma demo_resolves:
  "resolveEgressTarget (g_private demo_gw) demo_answer ''a.io'' 443 = Pinned ''a.io'' 443 [(dotted 93 184 216 34, 4)]"
proof -
  have "isIP ''a.io'' = 0" by code_simp
  moreover have "isPublicEgressAddress (dotted 93 184 216 34)" by (simp add: isPublic_dotted special_v4_def)
  ultimately show ?thesis
    by (simp add: demo_gw_def demo_answer_def resolveEgressTarget_def answer_ok_def isIP_dotted pinned_addresses_def
        first_occurrences_def List.map_filter_simps MAX_EGRESS_ADDRESSES_def)
qed

lemma demo_relays:
  obtains c t where "map_of (socks (gw_run demo_gw ((1200000, AcceptEv 1) # demo_events) demo_start)) 1 = Some c"
    "ph c = Relaying t demo_verified (dotted 93 184 216 34)" "tn_env t = demo_env ''5''"
  using tunnel_opens [OF demo_socket_ok demo_line_ok demo_envelope_ok demo_room demo_resolves refl, of 1200000 1200000]
  by (auto simp: demo_events_def gw_run_def demo_socket_def)

text \<open>
  C5: the service works for an honest client. On an accepted socket that sends one good envelope
  line, with a nullifier the spent set admits, room under the per-nullifier cap and in the payload
  allowance, and a name that resolves, the handler answers the success acknowledgement and relays
  to the first pinned address.
\<close>

theorem honest_tunnel_opens:
  assumes c: "map_of (socks g) i = Some c" "ph c = Reading []" "\<not> closed c" "\<not> destroyed c"
    and line: "newline \<notin> set line" "length line \<le> MAX_ENVELOPE" "g_json C line = Some env" "is_object env"
    and env: "acceptEnvelopeVersion (getp env ''v'') (PROTO_MIN, PROTO_MAX) = VersionOk n"
      "validTarget (g_policy C) (getp env ''target'') = Target h p"
      "verifyEnvelope (g_lib C) (g_rln C) (g_artifacts C) env (gw_roots g) t1 = Accept v"
    and adm: "adm_ok (fst (admit reconstructSecret (derive_of C) (tally_of C) t2 (vf_nullifier v) (Some (vf_share v))
          (nonce_of env) (vf_externalNullifier v) (gw_spent g, gw_tally g)))"
    and lim: "fst (acquireNullifier (vf_nullifier v) (gw_limiter g))"
    and bud: "case fst (budget_acquire t2 (budget_key (vf_nullifier v) (vf_externalNullifier v)) (gw_budget g)) of Some r \<Rightarrow> 0 < r | None \<Rightarrow> True"
    and dns: "resolveEgressTarget (g_private C) ans h p = Pinned h' p' ((a, fam) # as)"
    and g': "g' = gw_run C [(t1, ReadEv i (Chunk (line @ [newline]))), (t2, VerifiedEv i), (t3, ResolvedEv i ans), (t4, ConnectedEv i)] g"
  shows "\<exists>c' t. map_of (socks g') i = Some c' \<and> ph c' = Relaying t v a \<and> tunnel_open c' \<and> \<not> destroyed c'
    \<and> tn_env t = env \<and> tn_host t = h \<and> tn_port t = p \<and> (i, successAck (g_receipt C)) \<in> set (replies g')"
  by (rule tunnel_opens [OF assms])

theorem honest_tunnel_opens_witness:
  "\<exists>c t. map_of (socks (gw_run demo_gw demo_events demo_socket)) 1 = Some c \<and> ph c = Relaying t demo_verified (dotted 93 184 216 34)
     \<and> tn_host t = ''a.io''"
  using honest_tunnel_opens [OF demo_socket_ok demo_line_ok demo_envelope_ok demo_room demo_resolves refl, of 1200000 1200000]
  unfolding demo_events_def by blast

text \<open>
  C4: the gateway leaks no resource. After any sequence of events the connection count, the
  tunnels per nullifier and the active users of every payload allowance are exactly what the open
  sockets hold; at most \<open>mc\<close> sockets hold a connection and at most \<open>mn\<close> tunnels hold one
  nullifier, when those caps are set; and once every socket has closed all counts are zero,
  whichever path each handler took.
\<close>

theorem gateway_no_leak:
  assumes "start_gateway C mc mn mb w rs = Inr g0" "0 \<le> mc" "0 < EPOCH_SECONDS (g_rln C)" and g: "g = gw_run C es g0"
  shows "books_ok (gw_limiter g) (gw_budget g) (socks g)
    \<and> (0 < mc \<longrightarrow> cnt holds_conn (socks g) \<le> mc)
    \<and> (0 < mn \<longrightarrow> cnt (\<lambda>c. holds_null c = Some n) (socks g) \<le> mn)
    \<and> ((\<forall>i c. map_of (socks g) i = Some c \<longrightarrow> closed c) \<longrightarrow>
        conns (gw_limiter g) = 0 \<and> nullifierCount (gw_limiter g) n = 0 \<and>
        (maxBytes (gw_budget g) \<noteq> 0 \<longrightarrow> active_of k (gw_budget g) = 0))"
proof -
  have inv: "gw_inv C g" using gw_inv_reached [OF assms(1-3)] g by simp
  then have b: "books_ok (gw_limiter g) (gw_budget g) (socks g)" and l: "limiter_inv (gw_limiter g)" by (simp_all add: gw_inv_def)
  have caps: "maxConns (gw_limiter g) = mc" "maxPerNullifier (gw_limiter g) = mn"
    using gw_caps_run [of C es g0] start_gateway_state(1) [OF assms(1)] by (simp_all add: g caps_of_def)
  from b l caps have "0 < mc \<longrightarrow> cnt holds_conn (socks g) \<le> mc"
    by (simp add: books_ok_def limiter_inv_def)
  moreover from b caps nullifierCount_bounds(2) [OF l] have "0 < mn \<longrightarrow> cnt (\<lambda>c. holds_null c = Some n) (socks g) \<le> mn"
    by (simp add: books_ok_def)
  ultimately show ?thesis using b gw_inv_all_closed [OF inv] by blast
qed

lemma demo_closed:
  "socks (gw_run demo_gw [(0, AcceptEv 1), (1, AcceptEv 2), (2, CloseEv 2), (3, CloseEv 1)] demo_start) =
     [(1, fresh_conn\<lparr>destroyed := True, closed := True, holds_conn := False\<rparr>),
      (2, fresh_conn\<lparr>destroyed := True, closed := True, holds_conn := False\<rparr>)]"
  by (simp add: gw_run_def demo_start_def gw_init_def on_accept_def acquire_def makeConnLimiter_def put_conn_def on_close_def fresh_conn_def)

theorem gateway_no_leak_witness:
  "conns (gw_limiter (gw_run demo_gw [(0, AcceptEv 1), (1, AcceptEv 2), (2, CloseEv 2), (3, CloseEv 1)] demo_start)) = 0"
proof -
  let ?g = "gw_run demo_gw [(0, AcceptEv 1), (1, AcceptEv 2), (2, CloseEv 2), (3, CloseEv 1)] demo_start"
  have "closed c" if "map_of (socks ?g) i = Some c" for i c
    using that unfolding demo_closed by (auto simp: fresh_conn_def split: if_split_asm)
  with gateway_no_leak [OF demo_started _ _ refl, of "[(0, AcceptEv 1), (1, AcceptEv 2), (2, CloseEv 2), (3, CloseEv 1)]"]
  show ?thesis by (simp add: demo_gw_def demo_cfg_def)
qed

text \<open>
  C3: a tunnel carries bytes only for an envelope line that this very socket delivered and that
  \<open>verifyEnvelope\<close> accepted against the roots last delivered by the root provider before that
  line, at the time it was read; to the target that envelope names and the egress policy allows;
  and over an address that is public unless the operator allowed private targets. The same holds
  of every address a socket is dialling. This is kept through every interleaving of handlers, root
  updates and sweeps.
\<close>

theorem gateway_authorised_egress:
  assumes "start_gateway C mc mn mb w rs = Inr g0" "0 \<le> mc" "0 < EPOCH_SECONDS (g_rln C)"
    and c: "map_of (socks (gw_run C es g0)) i = Some c"
    and p: "ph c = Relaying t v a \<or> (\<exists>cands idx dl fam. ph c = Dialing t v cands idx dl \<and> (a, fam) \<in> set cands)"
  shows "(\<exists>es1 now ev es2. es = es1 @ (now, ReadEv i ev) # es2 \<and> line_read C (gw_run C es1 g0) i ev t
      \<and> verifyEnvelope (g_lib C) (g_rln C) (g_artifacts C) (tn_env t) (trusted_roots rs es1) now = Accept v)
    \<and> validTarget (g_policy C) (getp (tn_env t) ''target'') = Target (tn_host t) (tn_port t)
    \<and> (g_private C \<or> isPublicEgressAddress a)"
proof -
  note st = start_gateway_state [OF assms(1)]
  have "claim_at (gw_run C es g0) i = Some (t, Accept v)" using claim_at_phase [OF c] p by auto
  with claim_run [of C es g0 i t "Accept v"] st(3) [of i] have "\<exists>es1 now ev es2. es = es1 @ (now, ReadEv i ev) # es2
      \<and> line_read C (gw_run C es1 g0) i ev t
      \<and> verifyEnvelope (g_lib C) (g_rln C) (g_artifacts C) (tn_env t) (trusted_roots rs es1) now = Accept v"
    by (simp add: gw_roots_run st(2))
  moreover have "conn_ok C c" using gw_inv_conn [OF gw_inv_reached [OF assms(1-3)] c] .
  with p have "validTarget (g_policy C) (getp (tn_env t) ''target'') = Target (tn_host t) (tn_port t)
    \<and> (g_private C \<or> isPublicEgressAddress a)"
    by (fastforce simp: conn_ok_def tunnel_ok_def address_ok_def)
  ultimately show ?thesis by blast
qed

theorem gateway_authorised_egress_witness:
  "\<exists>es1 now. verifyEnvelope demo_lib demo_cfg demo_set (demo_env ''5'') (trusted_roots [''9''] es1) now = Accept demo_verified
   \<and> isPublicEgressAddress (dotted 93 184 216 34)"
proof -
  obtain c t where c: "map_of (socks (gw_run demo_gw ((1200000, AcceptEv 1) # demo_events) demo_start)) 1 = Some c"
      and p: "ph c = Relaying t demo_verified (dotted 93 184 216 34)" and t: "tn_env t = demo_env ''5''"
    by (rule demo_relays)
  from gateway_authorised_egress [OF demo_started _ _ c disjI1 [OF p]] t show ?thesis
    by (auto simp: demo_gw_def demo_cfg_def)
qed

text \<open>
  whatever a peer sends, every refusal is counted under one of the labels of
  \<^verbatim>\<open>DROP_LABELS\<close>, so the metric's cardinality is fixed.
\<close>

theorem gateway_drops_labelled:
  assumes "start_gateway C mc mn mb w rs = Inr g0" "0 \<le> mc" "0 < EPOCH_SECONDS (g_rln C)"
  shows "set (drops (gw_run C es g0)) \<subseteq> set DROP_LABELS"
  using gw_inv_reached [OF assms] by (simp add: gw_inv_def)

theorem gateway_drops_labelled_witness:
  "set (drops (gw_run demo_gw [(0, AcceptEv 1), (1, ReadEv 1 StreamEnd)] demo_start)) \<subseteq> set DROP_LABELS
   \<and> drops (gw_run demo_gw [(0, AcceptEv 1), (1, ReadEv 1 StreamEnd)] demo_start) = [''bad-envelope'']"
proof -
  have "drops (gw_run demo_gw [(0, AcceptEv 1), (1, ReadEv 1 StreamEnd)] demo_start) = [''bad-envelope'']"
    by (simp add: gw_run_def demo_start_def gw_init_def on_accept_def acquire_def makeConnLimiter_def put_conn_def
        on_read_def refuse_def fresh_conn_def)
  with gateway_drops_labelled [OF demo_started, of "[(0, AcceptEv 1), (1, ReadEv 1 StreamEnd)]"] show ?thesis
    by (simp add: demo_gw_def demo_cfg_def)
qed

end
