(* ===== verification/MemberSet.thy ===== *)
theory MemberSet
  imports Prelude
begin

text \<open>
  The two membership sets on chain, \<^verbatim>\<open>src/contracts/StakedReputationSet.sol\<close> and
  \<^verbatim>\<open>src/contracts/PaidAccessSet.sol\<close>: what the root provider of the gateway and of the client
  reads. Both keep an append-only array of leaves in an incremental Merkle tree; a removed member's
  leaf is set to the tree's zero value in place. The theory has the tree and the proof that updating
  one path keeps the stored root equal to the root of the whole array, the operations of the two
  contracts, and the interface through which the replay of their events is verified: an abstract set
  of leaves on which every event acts.

  A \<open>uint256\<close> is a natural number; the conversions to narrower types are written out, and the
  checked arithmetic of Solidity reverts. Poseidon, the exit-proof verifier, the commitment hasher
  and the receiver of a payout are the environment.
\<close>

section \<open>The incremental Merkle tree\<close>

definition TREE_DEPTH :: nat where "TREE_DEPTH = 20"

type_synonym tree_nodes = "nat \<Rightarrow> nat \<Rightarrow> nat"  \<comment> \<open>\<open>_treeNode[level][index]\<close>, 0 when unset\<close>

fun zeroes :: "(nat \<Rightarrow> nat \<Rightarrow> nat) \<Rightarrow> nat \<Rightarrow> nat \<Rightarrow> nat" where
  "zeroes h z 0 = z"
| "zeroes h z (Suc l) = h (zeroes h z l) (zeroes h z l)"

definition nodeAt :: "(nat \<Rightarrow> nat) \<Rightarrow> tree_nodes \<Rightarrow> nat \<Rightarrow> nat \<Rightarrow> nat" where
  "nodeAt zs T level idx = (if T level idx = 0 then zs level else T level idx)"

definition set_node :: "nat \<Rightarrow> nat \<Rightarrow> nat \<Rightarrow> tree_nodes \<Rightarrow> tree_nodes" where
  "set_node level idx v T = T(level := (T level)(idx := v))"

text \<open>The loop of \<open>_updateLeaf\<close>, with the number of levels left; it ends with the new root.\<close>

fun update_levels ::
  "(nat \<Rightarrow> nat \<Rightarrow> nat) \<Rightarrow> (nat \<Rightarrow> nat) \<Rightarrow> nat \<Rightarrow> nat \<Rightarrow> tree_nodes \<Rightarrow> nat \<Rightarrow> nat \<Rightarrow> tree_nodes \<times> nat" where
  "update_levels h zs 0 level T idx node = (T, node)"
| "update_levels h zs (Suc n) level T idx node =
     (let T' = set_node level idx node T;
          up = (if even idx then h node (nodeAt zs T' level (idx + 1)) else h (nodeAt zs T' level (idx - 1)) node)
      in update_levels h zs n (Suc level) T' (idx div 2) up)"

definition updateLeaf :: "(nat \<Rightarrow> nat \<Rightarrow> nat) \<Rightarrow> (nat \<Rightarrow> nat) \<Rightarrow> tree_nodes \<Rightarrow> nat \<Rightarrow> nat \<Rightarrow> tree_nodes \<times> nat" where
  "updateLeaf h zs T idx v = update_levels h zs TREE_DEPTH 0 T idx v"

text \<open>The reference: the root of a complete tree over an array of leaves, padded with the zero value.\<close>

fun merkle_node :: "(nat \<Rightarrow> nat \<Rightarrow> nat) \<Rightarrow> (nat \<Rightarrow> nat) \<Rightarrow> nat \<Rightarrow> nat \<Rightarrow> nat" where
  "merkle_node h f 0 i = f i"
| "merkle_node h f (Suc l) i = h (merkle_node h f l (2 * i)) (merkle_node h f l (2 * i + 1))"

definition leaf_at :: "nat \<Rightarrow> nat list \<Rightarrow> nat \<Rightarrow> nat" where
  "leaf_at z ls i = (if i < length ls then ls ! i else z)"

definition merkle_root :: "(nat \<Rightarrow> nat \<Rightarrow> nat) \<Rightarrow> nat \<Rightarrow> nat list \<Rightarrow> nat" where
  "merkle_root h z ls = merkle_node h (leaf_at z ls) TREE_DEPTH 0"

subsection \<open>Updating a path computes the reference root\<close>

lemma merkle_node_zero: "merkle_node h (\<lambda>_. z) l i = zeroes h z l"
  by (induction l arbitrary: i) auto

lemma div_pow_Suc: "(n :: nat) div 2 ^ Suc l = n div 2 ^ l div 2"
  by (simp only: power_Suc2 div_mult2_eq)

lemma merkle_node_other: "i \<noteq> idx div 2 ^ l \<Longrightarrow> merkle_node h (f(idx := v)) l i = merkle_node h f l i"
proof (induction l arbitrary: i)
  case (Suc l)
  have "2 * i \<noteq> idx div 2 ^ l" "2 * i + 1 \<noteq> idx div 2 ^ l"
    using Suc.prems by (auto simp only: div_pow_Suc)
  then show ?case by (simp add: Suc.IH del: fun_upd_apply)
qed simp

definition tree_ok :: "(nat \<Rightarrow> nat \<Rightarrow> nat) \<Rightarrow> (nat \<Rightarrow> nat) \<Rightarrow> nat \<Rightarrow> nat \<Rightarrow> tree_nodes \<Rightarrow> (nat \<Rightarrow> nat) \<Rightarrow> bool" where
  "tree_ok h zs lo hi T f \<longleftrightarrow> (\<forall>l i. lo \<le> l \<longrightarrow> l < hi \<longrightarrow> nodeAt zs T l i = merkle_node h f l i)"

lemma tree_okD: "tree_ok h zs lo hi T f \<Longrightarrow> lo \<le> l \<Longrightarrow> l < hi \<Longrightarrow> nodeAt zs T l i = merkle_node h f l i"
  by (simp add: tree_ok_def)

lemma nodeAt_set_node:
  "nodeAt zs (set_node level idx v T) l i =
     (if l = level \<and> i = idx then (if v = 0 then zs level else v) else nodeAt zs T l i)"
  by (simp add: nodeAt_def set_node_def)

lemma update_levels_ok:
  assumes "\<And>a b. h a b \<noteq> 0" "node \<noteq> 0" "level + n = d"
    and "node = merkle_node h (f(idx := v)) level (idx div 2 ^ level)"
    and "tree_ok h zs 0 level T (f(idx := v))" "tree_ok h zs level d T f"
    and "update_levels h zs n level T (idx div 2 ^ level) node = (T', r)"
  shows "tree_ok h zs 0 d T' (f(idx := v)) \<and> r = merkle_node h (f(idx := v)) d (idx div 2 ^ d)"
  using assms(2-)
proof (induction n arbitrary: level T node)
  case 0
  then show ?case by simp
next
  case (Suc n)
  define j where "j = idx div 2 ^ level"
  define g where "g = f(idx := v)"
  define T1 where "T1 = set_node level j node T"
  define up where "up = (if even j then h node (nodeAt zs T1 level (j + 1)) else h (nodeAt zs T1 level (j - 1)) node)"
  have old: "nodeAt zs T level i = merkle_node h f level i" for i
    using Suc.prems tree_okD [of h zs level d T f level i] by simp
  have lev: "nodeAt zs T1 level i = merkle_node h g level i" for i
    using Suc.prems(1,3) old [of i] merkle_node_other [of i idx level h f v]
    by (auto simp: T1_def nodeAt_set_node j_def g_def simp del: fun_upd_apply)
  have node: "node = merkle_node h g level j" using Suc.prems(3) by (simp only: j_def g_def)
  have next': "idx div 2 ^ Suc level = j div 2" by (simp only: j_def div_pow_Suc)
  have up: "up = merkle_node h g (Suc level) (j div 2)"
  proof (cases "even j")
    case True
    then have "2 * (j div 2) = j" by simp
    with True show ?thesis by (simp add: up_def lev node)
  next
    case False
    then have "2 * (j div 2) = j - 1" "Suc (j - 1) = j" by (simp_all add: odd_two_times_div_two_nat)
    with False show ?thesis by (simp add: up_def lev node)
  qed
  have below: "tree_ok h zs 0 (Suc level) T1 g"
    unfolding tree_ok_def
  proof (intro allI impI)
    fix l i assume "l < Suc level"
    then consider "l = level" | "l < level" by linarith
    then show "nodeAt zs T1 l i = merkle_node h g l i"
    proof cases
      case 1
      then show ?thesis by (simp add: lev)
    next
      case 2
      then show ?thesis using tree_okD [OF Suc.prems(4), of l i] by (simp add: T1_def nodeAt_set_node g_def del: fun_upd_apply)
    qed
  qed
  have above: "tree_ok h zs (Suc level) d T1 f"
    using Suc.prems(5) by (auto simp: tree_ok_def T1_def nodeAt_set_node)
  have run: "update_levels h zs n (Suc level) T1 (idx div 2 ^ Suc level) up = (T', r)"
    using Suc.prems(6) unfolding next' by (simp only: update_levels.simps Let_def T1_def up_def j_def)
  have "up \<noteq> 0" using up assms(1) by simp
  moreover have "Suc level + n = d" using Suc.prems(2) by simp
  moreover have "up = merkle_node h (f(idx := v)) (Suc level) (idx div 2 ^ Suc level)"
    using up unfolding next' g_def .
  ultimately show ?case using below above run unfolding g_def by (rule Suc.IH)
qed

lemma updateLeaf_ok:
  assumes "\<And>a b. h a b \<noteq> 0" "v \<noteq> 0" "idx < 2 ^ TREE_DEPTH" "tree_ok h zs 0 TREE_DEPTH T f"
    and "updateLeaf h zs T idx v = (T', r)"
  shows "tree_ok h zs 0 TREE_DEPTH T' (f(idx := v)) \<and> r = merkle_node h (f(idx := v)) TREE_DEPTH 0"
  using update_levels_ok [of h v 0 TREE_DEPTH TREE_DEPTH f idx v zs T T' r] assms
  by (auto simp: updateLeaf_def tree_ok_def)

lemma tree_ok_empty: "tree_ok h (zeroes h z) 0 d (\<lambda>_ _. 0) (\<lambda>_. z)"
  by (simp add: tree_ok_def nodeAt_def merkle_node_zero)


section \<open>The abstract set of leaves\<close>

text \<open>
  What both contracts promise of their events: an append takes the next index, a removal vacates the
  member's own index and moves nobody.
\<close>

record leaf_set =
  ls_leaves :: "nat list"
  ls_live :: "nat \<rightharpoonup> nat"

datatype set_event = Append nat | Vacate nat

fun apply_event :: "nat \<Rightarrow> set_event \<Rightarrow> leaf_set \<Rightarrow> leaf_set" where
  "apply_event z (Append c) A =
     (case ls_live A c of Some _ \<Rightarrow> A
      | None \<Rightarrow> A\<lparr>ls_leaves := ls_leaves A @ [c], ls_live := (ls_live A)(c \<mapsto> length (ls_leaves A))\<rparr>)"
| "apply_event z (Vacate c) A =
     (case ls_live A c of None \<Rightarrow> A
      | Some i \<Rightarrow> A\<lparr>ls_leaves := (ls_leaves A)[i := z], ls_live := (ls_live A)(c := None)\<rparr>)"

definition empty_set :: leaf_set where
  "empty_set = \<lparr>ls_leaves = [], ls_live = Map.empty\<rparr>"

definition leaf_set_inv :: "leaf_set \<Rightarrow> bool" where
  "leaf_set_inv A \<longleftrightarrow> finite (dom (ls_live A)) \<and>
     (\<forall>c i. ls_live A c = Some i \<longrightarrow> i < length (ls_leaves A) \<and> ls_leaves A ! i = c)"

lemma leaf_set_inv_empty [inv_intros]: "leaf_set_inv empty_set"
  by (simp add: leaf_set_inv_def empty_set_def)

lemma leaf_set_inv_event [inv_intros]: "leaf_set_inv A \<Longrightarrow> leaf_set_inv (apply_event z ev A)"
proof (cases ev)
  case (Append c)
  assume "leaf_set_inv A"
  then show ?thesis using Append
    by (cases "ls_live A c") (auto simp: leaf_set_inv_def nth_append less_Suc_eq_le less_imp_le)
next
  case (Vacate c)
  assume inv: "leaf_set_inv A"
  show ?thesis
  proof (cases "ls_live A c")
    case None
    then show ?thesis using inv Vacate by simp
  next
    case (Some i)
    have "finite (dom ((ls_live A)(c := None)))" using inv by (simp add: leaf_set_inv_def)
    moreover have "d < length (ls_leaves A) \<and> (ls_leaves A)[i := z] ! d = e" if "ls_live A e = Some d" "e \<noteq> c" for d e
    proof -
      have "d < length (ls_leaves A)" "ls_leaves A ! d = e" "ls_leaves A ! i = c"
        using inv that Some by (auto simp: leaf_set_inv_def)
      with that show ?thesis by (metis nth_list_update_neq)
    qed
    ultimately show ?thesis using Some Vacate by (simp add: leaf_set_inv_def)
  qed
qed

section \<open>State shared by the two contracts\<close>

record set_env =
  se_hash :: "nat \<Rightarrow> nat \<Rightarrow> nat"            \<comment> \<open>\<open>PoseidonT3.hash\<close>\<close>
  se_zero :: nat                             \<comment> \<open>\<open>keccak256(GROUP_ID) >> 8\<close>\<close>
  se_verify :: "nat \<Rightarrow> nat \<Rightarrow> string \<Rightarrow> string \<Rightarrow> bool"  \<comment> \<open>\<open>withdrawVerifier.verify\<close>\<close>
  se_context :: "string \<Rightarrow> nat list \<Rightarrow> string" \<comment> \<open>\<open>keccak256(abi.encodePacked(...))\<close>\<close>
  se_commitmentOf :: "nat \<Rightarrow> nat \<Rightarrow> nat"     \<comment> \<open>\<open>hasher.commitmentOf(secret, limit)\<close>\<close>

text \<open>The tree's storage reads 0 as unset: a hash or zero value of 0 would be mistaken for it.\<close>

definition env_ok :: "set_env \<Rightarrow> bool" where
  "env_ok e \<longleftrightarrow> (\<forall>a b. se_hash e a b \<noteq> 0) \<and> se_zero e \<noteq> 0"

abbreviation env_zeroes :: "set_env \<Rightarrow> nat \<Rightarrow> nat" where
  "env_zeroes e \<equiv> zeroes (se_hash e) (se_zero e)"

datatype sol_error =
    BadBond | BadLimit | BadTierTable | UnbondingTooShort | AlreadyMember | NotMember | NotExiting
  | AlreadyExiting | StillBonded | BadProof | BadSecret | PayoutFailed | BadBatch | AlreadyInserted
  | NotInserted | NotOperator | NotPendingOperator | BadHasher | Panic

datatype member_event =
    MemberRegistered nat nat nat
  | MemberExiting nat nat nat
  | MemberWithdrawn nat nat
  | MemberSlashed nat nat nat
  | Inserted nat nat nat nat
  | Slashed nat nat nat nat

fun set_event_of :: "member_event \<Rightarrow> set_event" where
  "set_event_of (MemberRegistered c _ _) = Append c"
| "set_event_of (MemberExiting c _ _) = Vacate c"
| "set_event_of (MemberWithdrawn c _) = Vacate c"
| "set_event_of (MemberSlashed c _ _) = Vacate c"
| "set_event_of (Inserted c _ _ _) = Append c"
| "set_event_of (Slashed c _ _ _) = Vacate c"

abbreviation apply_events :: "nat \<Rightarrow> member_event list \<Rightarrow> leaf_set \<Rightarrow> leaf_set" where
  "apply_events z evs A \<equiv> fold (apply_event z) (map set_event_of evs) A"

definition tree_leaves :: "set_env \<Rightarrow> nat \<Rightarrow> tree_nodes \<Rightarrow> nat list" where
  "tree_leaves e n T = map (nodeAt (env_zeroes e) T 0) [0..<n]"

definition set_tree_ok :: "set_env \<Rightarrow> nat \<Rightarrow> tree_nodes \<Rightarrow> nat \<Rightarrow> bool" where
  "set_tree_ok e n T r \<longleftrightarrow> n \<le> 2 ^ TREE_DEPTH
     \<and> tree_ok (se_hash e) (env_zeroes e) 0 TREE_DEPTH T (nodeAt (env_zeroes e) T 0)
     \<and> (\<forall>i\<ge>n. nodeAt (env_zeroes e) T 0 i = se_zero e)
     \<and> r = merkle_node (se_hash e) (nodeAt (env_zeroes e) T 0) TREE_DEPTH 0"

lemma length_tree_leaves [simp]: "length (tree_leaves e n T) = n"
  by (simp add: tree_leaves_def)

lemma set_tree_ok_empty: "set_tree_ok e 0 (\<lambda>_ _. 0) (env_zeroes e TREE_DEPTH)"
proof -
  have "nodeAt (env_zeroes e) (\<lambda>_ _. 0) 0 = (\<lambda>_. se_zero e)" by (auto simp: nodeAt_def)
  then show ?thesis by (simp add: set_tree_ok_def tree_ok_empty merkle_node_zero)
qed

lemma set_tree_root:
  assumes "set_tree_ok e n T r"
  shows "r = merkle_root (se_hash e) (se_zero e) (tree_leaves e n T)"
proof -
  have "leaf_at (se_zero e) (tree_leaves e n T) = nodeAt (env_zeroes e) T 0"
    using assms by (auto simp: leaf_at_def tree_leaves_def set_tree_ok_def)
  with assms show ?thesis by (simp add: merkle_root_def set_tree_ok_def)
qed

lemma set_tree_update:
  assumes "env_ok e" "set_tree_ok e n T r" "i < 2 ^ TREE_DEPTH" "v \<noteq> 0"
    and "updateLeaf (se_hash e) (env_zeroes e) T i v = (T', r')"
  shows "nodeAt (env_zeroes e) T' 0 = (nodeAt (env_zeroes e) T 0)(i := v)"
    and "tree_ok (se_hash e) (env_zeroes e) 0 TREE_DEPTH T' (nodeAt (env_zeroes e) T' 0)"
    and "r' = merkle_node (se_hash e) (nodeAt (env_zeroes e) T' 0) TREE_DEPTH 0"
proof -
  let ?g = "(nodeAt (env_zeroes e) T 0)(i := v)"
  have g: "tree_ok (se_hash e) (env_zeroes e) 0 TREE_DEPTH T' ?g \<and> r' = merkle_node (se_hash e) ?g TREE_DEPTH 0"
    by (rule updateLeaf_ok) (use assms in \<open>simp_all add: env_ok_def set_tree_ok_def\<close>)
  have "nodeAt (env_zeroes e) T' 0 j = ?g j" for j
    using tree_okD [OF conjunct1 [OF g], of 0 j] by (simp add: TREE_DEPTH_def del: fun_upd_apply)
  then show eq: "nodeAt (env_zeroes e) T' 0 = ?g" by (rule ext)
  show "tree_ok (se_hash e) (env_zeroes e) 0 TREE_DEPTH T' (nodeAt (env_zeroes e) T' 0)"
    and "r' = merkle_node (se_hash e) (nodeAt (env_zeroes e) T' 0) TREE_DEPTH 0"
    using g unfolding eq by simp_all
qed

lemma set_tree_append:
  assumes "env_ok e" "set_tree_ok e n T r" "Suc n \<le> 2 ^ TREE_DEPTH" "v \<noteq> 0"
    and "updateLeaf (se_hash e) (env_zeroes e) T n v = (T', r')"
  shows "set_tree_ok e (Suc n) T' r' \<and> tree_leaves e (Suc n) T' = tree_leaves e n T @ [v]"
  using set_tree_update [of e n T r n v T' r'] assms by (simp add: set_tree_ok_def tree_leaves_def)

lemma set_tree_vacate:
  assumes "env_ok e" "set_tree_ok e n T r" "i < n"
    and "updateLeaf (se_hash e) (env_zeroes e) T i (se_zero e) = (T', r')"
  shows "set_tree_ok e n T' r' \<and> tree_leaves e n T' = (tree_leaves e n T)[i := se_zero e]"
proof -
  have "i < 2 ^ TREE_DEPTH" "se_zero e \<noteq> 0" using assms by (auto simp: set_tree_ok_def env_ok_def)
  note upd = set_tree_update [OF assms(1,2) this assms(4)]
  have "tree_leaves e n T' = (tree_leaves e n T)[i := se_zero e]"
    unfolding tree_leaves_def upd(1) by (rule nth_equalityI) (auto simp: nth_list_update)
  with upd assms show ?thesis by (auto simp: set_tree_ok_def)
qed

section \<open>Interface: a contract whose events describe its set\<close>

text \<open>A sequence of transactions; a reverted one changes nothing and emits nothing.\<close>

fun chain_run :: "('op \<Rightarrow> 's \<Rightarrow> sol_error + 's \<times> member_event list) \<Rightarrow> 'op list \<Rightarrow> 's \<Rightarrow> 's \<times> member_event list" where
  "chain_run f [] st = (st, [])"
| "chain_run f (t # ts) st =
     (case f t st of
        Inl _ \<Rightarrow> chain_run f ts st
      | Inr (st', evs) \<Rightarrow> let (st'', evs') = chain_run f ts st' in (st'', evs @ evs'))"

locale member_chain =
  fixes transact :: "set_env \<Rightarrow> 'op \<Rightarrow> 's \<Rightarrow> sol_error + 's \<times> member_event list"
    and inv :: "set_env \<Rightarrow> 's \<Rightarrow> bool"
    and view :: "set_env \<Rightarrow> 's \<Rightarrow> leaf_set"
    and next_index :: "'s \<Rightarrow> nat"
    and count :: "'s \<Rightarrow> nat"
    and root :: "'s \<Rightarrow> nat"
    and op_ok :: "'op \<Rightarrow> bool"
  assumes refines: "env_ok e \<Longrightarrow> inv e st \<Longrightarrow> op_ok t \<Longrightarrow> transact e t st = Inr (st', evs)
      \<Longrightarrow> next_index st' \<le> 2 ^ TREE_DEPTH
      \<Longrightarrow> inv e st' \<and> view e st' = apply_events (se_zero e) evs (view e st)"
    and next_mono: "transact e t st = Inr (st', evs) \<Longrightarrow> next_index st \<le> next_index st'"
    and count_view: "inv e st \<Longrightarrow> count st = card (dom (ls_live (view e st)))"
    and root_view: "inv e st \<Longrightarrow> root st = merkle_root (se_hash e) (se_zero e) (ls_leaves (view e st))"
begin

lemma run_next_mono: "chain_run (transact e) ts st = (st', evs) \<Longrightarrow> next_index st \<le> next_index st'"
proof (induction ts arbitrary: st evs)
  case (Cons t ts)
  show ?case
  proof (cases "transact e t st")
    case (Inl err)
    with Cons show ?thesis by simp
  next
    case (Inr r)
    obtain s1 e1 where r: "r = (s1, e1)" by (cases r)
    obtain s2 e2 where run: "chain_run (transact e) ts s1 = (s2, e2)" by (metis surj_pair)
    with Cons.prems Inr r have "s2 = st'" by simp
    with Cons.IH [of s1 e2] run next_mono [of e t st s1 e1] Inr r show ?thesis by simp
  qed
qed simp

lemma run_refines:
  assumes "env_ok e" "inv e st" "list_all op_ok ts" "chain_run (transact e) ts st = (st', evs)"
    and "next_index st' \<le> 2 ^ TREE_DEPTH"
  shows "inv e st' \<and> view e st' = apply_events (se_zero e) evs (view e st)"
  using assms(2-4)
proof (induction ts arbitrary: st evs)
  case (Cons t ts)
  show ?case
  proof (cases "transact e t st")
    case (Inl err)
    with Cons show ?thesis by simp
  next
    case (Inr r)
    obtain s1 e1 where r: "r = (s1, e1)" by (cases r)
    obtain s2 e2 where run: "chain_run (transact e) ts s1 = (s2, e2)" by (metis surj_pair)
    with Cons.prems Inr r have eq: "s2 = st'" "evs = e1 @ e2" by simp_all
    have "next_index s1 \<le> 2 ^ TREE_DEPTH" using run_next_mono [OF run] assms(5) eq by simp
    with refines [of e st t s1 e1] Cons.prems Inr r assms(1)
    have "inv e s1 \<and> view e s1 = apply_events (se_zero e) e1 (view e st)" by simp
    with Cons.IH [of s1 e2] Cons.prems run eq show ?thesis by simp
  qed
qed simp

text \<open>What an event log determines: the leaves, the live members, their number, the root.\<close>

lemma log_determines:
  assumes "env_ok e" "inv e st" "view e st = empty_set" "list_all op_ok ts"
    and "chain_run (transact e) ts st = (st', evs)" "next_index st' \<le> 2 ^ TREE_DEPTH"
  shows "apply_events (se_zero e) evs empty_set = view e st'"
    and "count st' = card (dom (ls_live (view e st')))"
    and "root st' = merkle_root (se_hash e) (se_zero e) (ls_leaves (view e st'))"
  using run_refines [OF assms(1,2,4,5,6)] count_view [of e st'] root_view [of e st'] assms(3) by auto

end

section \<open>StakedReputationSet\<close>

definition DEFAULT_TIER :: nat where "DEFAULT_TIER = 8"  \<comment> \<open>\<open>DEFAULT_LIMIT\<close>\<close>
definition MAX_TIER :: nat where "MAX_TIER = 65535"       \<comment> \<open>\<open>MAX_LIMIT\<close>\<close>

record member =
  m_bond :: nat
  m_index :: nat
  m_exitInitiatedAt :: nat
  m_limit :: nat

record staked_set =
  ss_unbonding :: nat
  ss_members :: "nat \<Rightarrow> member"
  ss_nextIndex :: nat
  ss_activeCount :: nat
  ss_currentRoot :: nat
  ss_treeNode :: tree_nodes
  ss_bondOf :: "nat \<Rightarrow> nat"
  ss_allowedLimits :: "nat list"

definition no_member :: member where  \<comment> \<open>the zero struct of a mapping\<close>
  "no_member = \<lparr>m_bond = 0, m_index = 0, m_exitInitiatedAt = 0, m_limit = 0\<rparr>"

text \<open>The constructor's tier loop: (bond table, allowed limits, whether the default was listed).\<close>

fun staked_tiers :: "(nat \<times> nat) list \<Rightarrow> nat \<Rightarrow> (nat \<Rightarrow> nat) \<Rightarrow> nat list \<Rightarrow> bool \<Rightarrow> sol_error + (nat \<Rightarrow> nat) \<times> nat list \<times> bool" where
  "staked_tiers [] prev bo al pushed = Inr (bo, al, pushed)"
| "staked_tiers ((lim, b) # ts) prev bo al pushed =
     (if lim = 0 \<or> lim > MAX_TIER \<or> lim = DEFAULT_TIER then Inl BadLimit
      else if lim \<le> prev \<or> bo lim \<noteq> 0 then Inl BadTierTable
      else if b = 0 then Inl BadBond
      else let add = \<not> pushed \<and> lim > DEFAULT_TIER
           in staked_tiers ts lim (bo(lim := b)) (al @ (if add then [DEFAULT_TIER] else []) @ [lim]) (pushed \<or> add))"

definition staked_constructor ::
  "set_env \<Rightarrow> nat \<Rightarrow> nat \<Rightarrow> nat \<Rightarrow> nat list \<Rightarrow> nat list \<Rightarrow> sol_error + staked_set" where
  "staked_constructor e bond unbonding minUnbonding extraLimits extraBonds =
     (if bond = 0 then Inl BadBond
      else if unbonding < minUnbonding then Inl UnbondingTooShort
      else if length extraLimits \<noteq> length extraBonds then Inl BadTierTable
      else (case staked_tiers (zip extraLimits extraBonds) 0 ((\<lambda>_. 0)(DEFAULT_TIER := bond)) [] False of
              Inl err \<Rightarrow> Inl err
            | Inr (bo, al, pushed) \<Rightarrow>
                Inr \<lparr>ss_unbonding = unbonding, ss_members = (\<lambda>_. no_member), ss_nextIndex = 0, ss_activeCount = 0,
                  ss_currentRoot = env_zeroes e TREE_DEPTH, ss_treeNode = (\<lambda>_ _. 0), ss_bondOf = bo,
                  ss_allowedLimits = (if pushed then al else al @ [DEFAULT_TIER])\<rparr>))"

definition staked_update :: "set_env \<Rightarrow> nat \<Rightarrow> nat \<Rightarrow> staked_set \<Rightarrow> staked_set" where
  "staked_update e idx v st =
     (let (T, r) = updateLeaf (se_hash e) (env_zeroes e) (ss_treeNode st) idx v
      in st\<lparr>ss_treeNode := T, ss_currentRoot := r\<rparr>)"

definition staked_register :: "set_env \<Rightarrow> nat \<Rightarrow> nat \<Rightarrow> nat \<Rightarrow> staked_set \<Rightarrow> sol_error + staked_set \<times> member_event list" where
  "staked_register e c limit val st =
     (let bond = ss_bondOf st limit; idx = ss_nextIndex st in
      if bond = 0 then Inl BadLimit
      else if val \<noteq> bond then Inl BadBond
      else if m_bond (ss_members st c) \<noteq> 0 then Inl AlreadyMember
      else if idx + 1 \<ge> 2 ^ 64 then Inl Panic
      else Inr (staked_update e idx c (st\<lparr>ss_nextIndex := idx + 1,
             ss_members := (ss_members st)(c := \<lparr>m_bond = bond, m_index = idx, m_exitInitiatedAt = 0, m_limit = limit mod 2 ^ 32\<rparr>),
             ss_activeCount := ss_activeCount st + 1\<rparr>),
           [MemberRegistered c idx limit]))"

definition staked_initiateExit :: "set_env \<Rightarrow> nat \<Rightarrow> string \<Rightarrow> nat \<Rightarrow> staked_set \<Rightarrow> sol_error + staked_set \<times> member_event list" where
  "staked_initiateExit e c proof ts st =
     (let m = ss_members st c in
      if m_bond m = 0 then Inl NotMember
      else if m_exitInitiatedAt m \<noteq> 0 then Inl AlreadyExiting
      else if \<not> se_verify e c (m_limit m) (se_context e ''SHADE_TREE_EXIT'' [c]) proof then Inl BadProof
      else if ss_activeCount st = 0 \<or> ts + ss_unbonding st \<ge> 2 ^ 256 then Inl Panic
      else Inr (staked_update e (m_index m) (env_zeroes e 0) (st\<lparr>
             ss_members := (ss_members st)(c := m\<lparr>m_exitInitiatedAt := ts mod 2 ^ 64\<rparr>),
             ss_activeCount := ss_activeCount st - 1\<rparr>),
           [MemberExiting c (ts mod 2 ^ 64) ((ts + ss_unbonding st) mod 2 ^ 64)]))"

definition staked_withdraw :: "set_env \<Rightarrow> nat \<Rightarrow> nat \<Rightarrow> string \<Rightarrow> nat \<Rightarrow> bool \<Rightarrow> staked_set \<Rightarrow> sol_error + staked_set \<times> member_event list" where
  "staked_withdraw e c recipient proof ts paid st =
     (let m = ss_members st c in
      if m_bond m = 0 then Inl NotMember
      else if m_exitInitiatedAt m = 0 then Inl NotExiting
      else if m_exitInitiatedAt m + ss_unbonding st \<ge> 2 ^ 256 then Inl Panic
      else if ts < m_exitInitiatedAt m + ss_unbonding st then Inl StillBonded
      else if \<not> se_verify e c (m_limit m) (se_context e ''SHADE_TREE_WITHDRAW'' [c, recipient]) proof then Inl BadProof
      else if \<not> paid then Inl PayoutFailed
      else Inr (st\<lparr>ss_members := (ss_members st)(c := no_member)\<rparr>, [MemberWithdrawn c recipient]))"

definition staked_slash :: "set_env \<Rightarrow> nat \<Rightarrow> nat \<Rightarrow> nat \<Rightarrow> nat \<Rightarrow> bool \<Rightarrow> staked_set \<Rightarrow> sol_error + staked_set \<times> member_event list" where
  "staked_slash e c secret limit receiver paid st =
     (let m = ss_members st c; wasActive = (m_exitInitiatedAt m = 0);
          st1 = st\<lparr>ss_members := (ss_members st)(c := no_member),
                   ss_activeCount := (if wasActive then ss_activeCount st - 1 else ss_activeCount st)\<rparr> in
      if m_bond m = 0 then Inl NotMember
      else if m_limit m \<noteq> limit then Inl BadLimit
      else if se_commitmentOf e secret limit \<noteq> c then Inl BadSecret
      else if wasActive \<and> ss_activeCount st = 0 then Inl Panic
      else if \<not> paid then Inl PayoutFailed
      else Inr (if wasActive then staked_update e (m_index m) (env_zeroes e 0) st1 else st1,
           [MemberSlashed c receiver limit]))"

datatype staked_op =
    Register nat nat nat                 \<comment> \<open>commitment, limit, value sent\<close>
  | InitiateExit nat string nat          \<comment> \<open>commitment, proof, block timestamp\<close>
  | Withdraw nat nat string nat bool     \<comment> \<open>commitment, recipient, proof, timestamp, whether the payout succeeds\<close>
  | SlashMember nat nat nat nat bool     \<comment> \<open>commitment, secret, limit, receiver, whether the payout succeeds\<close>

fun staked_step :: "set_env \<Rightarrow> staked_op \<Rightarrow> staked_set \<Rightarrow> sol_error + staked_set \<times> member_event list" where
  "staked_step e (Register c limit v) st = staked_register e c limit v st"
| "staked_step e (InitiateExit c p ts) st = staked_initiateExit e c p ts st"
| "staked_step e (Withdraw c r p ts paid) st = staked_withdraw e c r p ts paid st"
| "staked_step e (SlashMember c s l r paid) st = staked_slash e c s l r paid st"

fun staked_op_ok :: "staked_op \<Rightarrow> bool" where  \<comment> \<open>a nonzero leaf, a timestamp that is not 0\<close>
  "staked_op_ok (Register c _ _) = (c \<noteq> 0)"
| "staked_op_ok (InitiateExit _ _ ts) = (ts mod 2 ^ 64 \<noteq> 0)"
| "staked_op_ok _ = True"

definition staked_active :: "staked_set \<Rightarrow> nat \<Rightarrow> bool" where  \<comment> \<open>\<open>isActive\<close>\<close>
  "staked_active st c \<longleftrightarrow> m_bond (ss_members st c) \<noteq> 0 \<and> m_exitInitiatedAt (ss_members st c) = 0"

definition staked_view :: "set_env \<Rightarrow> staked_set \<Rightarrow> leaf_set" where
  "staked_view e st = \<lparr>ls_leaves = tree_leaves e (ss_nextIndex st) (ss_treeNode st),
     ls_live = (\<lambda>c. if staked_active st c then Some (m_index (ss_members st c)) else None)\<rparr>"

definition staked_inv :: "set_env \<Rightarrow> staked_set \<Rightarrow> bool" where
  "staked_inv e st \<longleftrightarrow> set_tree_ok e (ss_nextIndex st) (ss_treeNode st) (ss_currentRoot st)
     \<and> finite {c. staked_active st c} \<and> ss_activeCount st = card {c. staked_active st c}
     \<and> (\<forall>c. staked_active st c \<longrightarrow> m_index (ss_members st c) < ss_nextIndex st)"

subsection \<open>Every transaction acts on the set as its event says\<close>

lemma staked_update_sel [simp]:
  "ss_members (staked_update e i v st) = ss_members st" "ss_nextIndex (staked_update e i v st) = ss_nextIndex st"
  "ss_activeCount (staked_update e i v st) = ss_activeCount st" "staked_active (staked_update e i v st) = staked_active st"
  "ss_bondOf (staked_update e i v st) = ss_bondOf st" "ss_unbonding (staked_update e i v st) = ss_unbonding st"
  by (auto simp: staked_update_def staked_active_def split: prod.split)

lemma staked_active_upd:
  "staked_active (st\<lparr>ss_members := (ss_members st)(c := m)\<rparr>) d
     = (if d = c then m_bond m \<noteq> 0 \<and> m_exitInitiatedAt m = 0 else staked_active st d)"
  by (simp add: staked_active_def)

lemma staked_active_frame [simp]:
  "staked_active (st\<lparr>ss_nextIndex := n\<rparr>) = staked_active st" "staked_active (st\<lparr>ss_activeCount := k\<rparr>) = staked_active st"
  by (auto simp: staked_active_def)

text \<open>Marking an active member as gone, with or without its record.\<close>

lemma staked_leave:
  assumes e: "env_ok e" and inv: "staked_inv e st" and act: "staked_active st c"
    and m': "\<not> (m_bond m' \<noteq> 0 \<and> m_exitInitiatedAt m' = 0)"
    and st': "st' = staked_update e (m_index (ss_members st c)) (se_zero e)
      (st\<lparr>ss_members := (ss_members st)(c := m'), ss_activeCount := ss_activeCount st - 1\<rparr>)"
  shows "staked_inv e st' \<and> staked_view e st' = apply_event (se_zero e) (Vacate c) (staked_view e st)"
proof -
  define i where "i = m_index (ss_members st c)"
  obtain T r where T: "updateLeaf (se_hash e) (env_zeroes e) (ss_treeNode st) i (se_zero e) = (T, r)" by (metis surj_pair)
  have i: "i < ss_nextIndex st" and ok: "set_tree_ok e (ss_nextIndex st) (ss_treeNode st) (ss_currentRoot st)"
    using inv act by (simp_all add: staked_inv_def i_def)
  note tree = set_tree_vacate [OF e ok i T]
  have sel: "ss_treeNode st' = T" "ss_currentRoot st' = r" "ss_nextIndex st' = ss_nextIndex st"
    "ss_activeCount st' = ss_activeCount st - 1" "ss_members st' = (ss_members st)(c := m')"
    using T by (simp_all add: st' staked_update_def i_def)
  have active: "staked_active st' d \<longleftrightarrow> d \<noteq> c \<and> staked_active st d" for d
    using m' by (auto simp: staked_active_def sel)
  then have set_eq: "{d. staked_active st' d} = {d. staked_active st d} - {c}" by auto
  have "finite {d. staked_active st' d} \<and> ss_activeCount st' = card {d. staked_active st' d}"
    unfolding set_eq sel using inv act by (simp add: staked_inv_def)
  then have "staked_inv e st'"
    using inv conjunct1 [OF tree] by (simp add: staked_inv_def sel) (simp add: active)
  moreover have "staked_view e st' = apply_event (se_zero e) (Vacate c) (staked_view e st)"
    using act conjunct2 [OF tree] by (auto simp: staked_view_def sel active i_def)
  ultimately show ?thesis ..
qed

lemma staked_register_refines:
  assumes e: "env_ok e" and inv: "staked_inv e st" and "c \<noteq> 0"
    and step: "staked_register e c limit v st = Inr (st', evs)" and cap: "ss_nextIndex st' \<le> 2 ^ TREE_DEPTH"
  shows "staked_inv e st' \<and> staked_view e st' = apply_events (se_zero e) evs (staked_view e st)"
proof -
  define n where "n = ss_nextIndex st"
  obtain T r where T: "updateLeaf (se_hash e) (env_zeroes e) (ss_treeNode st) n c = (T, r)" by (metis surj_pair)
  have evs: "evs = [MemberRegistered c n limit]" and fresh: "m_bond (ss_members st c) = 0" and bond: "ss_bondOf st limit \<noteq> 0"
    and sel: "ss_treeNode st' = T" "ss_currentRoot st' = r" "ss_nextIndex st' = Suc n"
    "ss_activeCount st' = ss_activeCount st + 1"
    "ss_members st' = (ss_members st)(c := \<lparr>m_bond = ss_bondOf st limit, m_index = n, m_exitInitiatedAt = 0, m_limit = limit mod 2 ^ 32\<rparr>)"
    using step T by (auto simp: staked_register_def Let_def staked_update_def n_def split: if_splits)
  have "set_tree_ok e n (ss_treeNode st) (ss_currentRoot st)" "Suc n \<le> 2 ^ TREE_DEPTH"
    using inv cap sel by (simp_all add: staked_inv_def n_def)
  note tree = set_tree_append [OF e this \<open>c \<noteq> 0\<close> T]
  have active: "staked_active st' d \<longleftrightarrow> d = c \<or> staked_active st d" for d
    using bond by (auto simp: staked_active_def sel)
  then have set_eq: "{d. staked_active st' d} = insert c {d. staked_active st d}" by auto
  have off: "\<not> staked_active st c" using fresh by (simp add: staked_active_def)
  have "finite {d. staked_active st' d} \<and> ss_activeCount st' = card {d. staked_active st' d}"
    unfolding set_eq sel using inv off by (simp add: staked_inv_def)
  then have "staked_inv e st'"
    using inv conjunct1 [OF tree] by (simp add: staked_inv_def sel) (auto simp: active n_def less_Suc_eq)
  moreover have "staked_view e st' = apply_event (se_zero e) (Append c) (staked_view e st)"
    using off conjunct2 [OF tree] by (auto simp: staked_view_def sel active n_def)
  ultimately show ?thesis by (simp add: evs)
qed

lemma staked_exit_refines:
  assumes "env_ok e" "staked_inv e st" "ts mod 2 ^ 64 \<noteq> 0" "staked_initiateExit e c p ts st = Inr (st', evs)"
  shows "staked_inv e st' \<and> staked_view e st' = apply_events (se_zero e) evs (staked_view e st)"
proof -
  let ?m = "(ss_members st c)\<lparr>m_exitInitiatedAt := ts mod 2 ^ 64\<rparr>"
  have "staked_active st c" "\<exists>a b. evs = [MemberExiting c a b]"
    and "st' = staked_update e (m_index (ss_members st c)) (se_zero e)
      (st\<lparr>ss_members := (ss_members st)(c := ?m), ss_activeCount := ss_activeCount st - 1\<rparr>)"
    using assms(4) by (auto simp: staked_initiateExit_def Let_def staked_active_def split: if_splits)
  then show ?thesis using staked_leave [of e st c ?m st'] assms(1-3) by auto
qed

text \<open>Dropping the record of a member that already left its leaf.\<close>

lemma staked_drop:
  assumes "staked_inv e st" "\<not> staked_active st c" "st' = st\<lparr>ss_members := (ss_members st)(c := no_member)\<rparr>"
  shows "staked_inv e st' \<and> staked_view e st' = apply_event (se_zero e) (Vacate c) (staked_view e st)"
proof -
  have active: "staked_active st' = staked_active st"
    using assms(2,3) by (auto simp: staked_active_upd no_member_def fun_eq_iff)
  have "m_index (ss_members st' d) = m_index (ss_members st d)" if "staked_active st d" for d
    using that assms(2,3) by auto
  with assms active show ?thesis by (auto simp: staked_inv_def staked_view_def)
qed

lemma staked_withdraw_refines:
  assumes "staked_inv e st" "staked_withdraw e c r p ts paid st = Inr (st', evs)"
  shows "staked_inv e st' \<and> staked_view e st' = apply_events (se_zero e) evs (staked_view e st)"
proof -
  have "\<not> staked_active st c" "evs = [MemberWithdrawn c r]" "st' = st\<lparr>ss_members := (ss_members st)(c := no_member)\<rparr>"
    using assms(2) by (auto simp: staked_withdraw_def Let_def staked_active_def split: if_splits)
  then show ?thesis using staked_drop [of e st c st'] assms(1) by simp
qed

lemma staked_slash_refines:
  assumes "env_ok e" "staked_inv e st" "staked_slash e c s l r paid st = Inr (st', evs)"
  shows "staked_inv e st' \<and> staked_view e st' = apply_events (se_zero e) evs (staked_view e st)"
proof (cases "staked_active st c")
  case True
  then have "evs = [MemberSlashed c r l]"
    and "st' = staked_update e (m_index (ss_members st c)) (se_zero e)
      (st\<lparr>ss_members := (ss_members st)(c := no_member), ss_activeCount := ss_activeCount st - 1\<rparr>)"
    using assms(3) by (auto simp: staked_slash_def Let_def staked_active_def split: if_splits)
  then show ?thesis using staked_leave [of e st c no_member st'] True assms(1,2) by (simp add: no_member_def)
next
  case False
  then have "evs = [MemberSlashed c r l]" "st' = st\<lparr>ss_members := (ss_members st)(c := no_member)\<rparr>"
    using assms(3) by (auto simp: staked_slash_def Let_def staked_active_def split: if_splits)
  then show ?thesis using staked_drop [of e st c st'] False assms(2) by simp
qed

interpretation staked: member_chain staked_step staked_inv staked_view ss_nextIndex ss_activeCount ss_currentRoot staked_op_ok
proof
  fix e st t st' evs
  assume *: "env_ok e" "staked_inv e st" "staked_op_ok t" "staked_step e t st = Inr (st', evs)" "ss_nextIndex st' \<le> 2 ^ TREE_DEPTH"
  show "staked_inv e st' \<and> staked_view e st' = apply_events (se_zero e) evs (staked_view e st)"
  proof (cases t)
    case (Register c l v)
    then show ?thesis using * by (intro staked_register_refines [of e st c l v]) simp_all
  next
    case (InitiateExit c p ts)
    then show ?thesis using * by (intro staked_exit_refines [of e st ts c p]) simp_all
  next
    case (Withdraw c r p ts paid)
    then show ?thesis using * by (intro staked_withdraw_refines [of e st c r p ts paid]) simp_all
  next
    case (SlashMember c s l r paid)
    then show ?thesis using * by (intro staked_slash_refines [of e st c s l r paid]) simp_all
  qed
next
  fix e t st st' evs
  assume "staked_step e t st = Inr (st', evs)"
  then show "ss_nextIndex st \<le> ss_nextIndex st'"
    by (cases t) (auto simp: staked_register_def staked_initiateExit_def staked_withdraw_def staked_slash_def Let_def split: if_splits)
next
  fix e st assume "staked_inv e st"
  moreover have "dom (ls_live (staked_view e st)) = {c. staked_active st c}" by (auto simp: staked_view_def split: if_splits)
  ultimately show "ss_activeCount st = card (dom (ls_live (staked_view e st)))" by (simp add: staked_inv_def)
next
  fix e st assume "staked_inv e st"
  then show "ss_currentRoot st = merkle_root (se_hash e) (se_zero e) (ls_leaves (staked_view e st))"
    using set_tree_root by (simp add: staked_inv_def staked_view_def)
qed

lemma staked_constructed:
  assumes "staked_constructor e b u mu els ebs = Inr st"
  shows "staked_inv e st" "staked_view e st = empty_set"
proof -
  have st: "ss_members st = (\<lambda>_. no_member)" "ss_nextIndex st = 0" "ss_activeCount st = 0"
    "ss_currentRoot st = env_zeroes e TREE_DEPTH" "ss_treeNode st = (\<lambda>_ _. 0)"
    using assms by (auto simp: staked_constructor_def split: if_splits sum.splits prod.splits)
  then have "staked_active st = (\<lambda>_. False)" by (auto simp: staked_active_def no_member_def)
  then show "staked_inv e st" "staked_view e st = empty_set"
    using set_tree_ok_empty [of e] by (simp_all add: staked_inv_def st staked_view_def empty_set_def tree_leaves_def)
qed

section \<open>PaidAccessSet\<close>

record paid_leaf =
  pl_index :: nat
  pl_limit :: nat  \<comment> \<open>0 when not live\<close>

record paid_set =
  ps_leaves :: "nat \<Rightarrow> paid_leaf"
  ps_nextIndex :: nat
  ps_liveCount :: nat
  ps_currentRoot :: nat
  ps_treeNode :: tree_nodes
  ps_allowed :: "nat list"
  ps_operator :: nat
  ps_pendingOperator :: nat

definition no_leaf :: paid_leaf where "no_leaf = \<lparr>pl_index = 0, pl_limit = 0\<rparr>"

fun paid_tiers :: "nat list \<Rightarrow> nat \<Rightarrow> nat list \<Rightarrow> bool \<Rightarrow> sol_error + nat list \<times> bool" where
  "paid_tiers [] prev al hasDefault = Inr (al, hasDefault)"
| "paid_tiers (lim # ls) prev al hasDefault =
     (if lim = 0 \<or> lim > MAX_TIER then Inl BadLimit
      else if lim \<le> prev then Inl BadTierTable
      else paid_tiers ls lim (al @ [lim]) (hasDefault \<or> lim = DEFAULT_TIER))"

definition paid_constructor :: "set_env \<Rightarrow> nat \<Rightarrow> nat \<Rightarrow> nat \<Rightarrow> nat list \<Rightarrow> sol_error + paid_set" where
  "paid_constructor e sender operator hasher limits =
     (if hasher = 0 then Inl BadHasher
      else if limits = [] then Inl BadTierTable
      else (case paid_tiers limits 0 [] False of
              Inl err \<Rightarrow> Inl err
            | Inr (al, hasDefault) \<Rightarrow>
                if \<not> hasDefault then Inl BadTierTable
                else Inr \<lparr>ps_leaves = (\<lambda>_. no_leaf), ps_nextIndex = 0, ps_liveCount = 0,
                  ps_currentRoot = env_zeroes e TREE_DEPTH, ps_treeNode = (\<lambda>_ _. 0), ps_allowed = al,
                  ps_operator = (if operator = 0 then sender else operator), ps_pendingOperator = 0\<rparr>))"

definition paid_update :: "set_env \<Rightarrow> nat \<Rightarrow> nat \<Rightarrow> paid_set \<Rightarrow> paid_set" where
  "paid_update e idx v st =
     (let (T, r) = updateLeaf (se_hash e) (env_zeroes e) (ps_treeNode st) idx v
      in st\<lparr>ps_treeNode := T, ps_currentRoot := r\<rparr>)"

definition paid_insert :: "set_env \<Rightarrow> nat \<Rightarrow> nat \<Rightarrow> paid_set \<Rightarrow> sol_error + paid_set \<times> member_event list" where  \<comment> \<open>\<open>_insert\<close>\<close>
  "paid_insert e c limit st =
     (let idx = ps_nextIndex st in
      if limit \<notin> set (ps_allowed st) then Inl BadLimit
      else if pl_limit (ps_leaves st c) \<noteq> 0 then Inl AlreadyInserted
      else if idx + 1 \<ge> 2 ^ 64 then Inl Panic
      else let st1 = paid_update e idx c (st\<lparr>ps_nextIndex := idx + 1,
                 ps_leaves := (ps_leaves st)(c := \<lparr>pl_index = idx, pl_limit = limit mod 2 ^ 32\<rparr>),
                 ps_liveCount := ps_liveCount st + 1\<rparr>)
           in Inr (st1, [Inserted c limit idx (ps_currentRoot st1)]))"

text \<open>\<open>insertBatch\<close>: one revert undoes the whole batch.\<close>

fun paid_inserts :: "set_env \<Rightarrow> (nat \<times> nat) list \<Rightarrow> paid_set \<Rightarrow> sol_error + paid_set \<times> member_event list" where
  "paid_inserts e [] st = Inr (st, [])"
| "paid_inserts e ((c, l) # cls) st =
     (case paid_insert e c l st of
        Inl err \<Rightarrow> Inl err
      | Inr (st1, evs) \<Rightarrow> (case paid_inserts e cls st1 of Inl err \<Rightarrow> Inl err | Inr (st2, evs') \<Rightarrow> Inr (st2, evs @ evs')))"

definition paid_slash :: "set_env \<Rightarrow> nat \<Rightarrow> nat \<Rightarrow> nat \<Rightarrow> paid_set \<Rightarrow> sol_error + paid_set \<times> member_event list" where
  "paid_slash e c secret limit st =
     (let l = ps_leaves st c in
      if pl_limit l = 0 then Inl NotInserted
      else if pl_limit l \<noteq> limit then Inl BadLimit
      else if se_commitmentOf e secret limit \<noteq> c then Inl BadSecret
      else if ps_liveCount st = 0 then Inl Panic
      else let st1 = paid_update e (pl_index l) (env_zeroes e 0) (st\<lparr>
                 ps_leaves := (ps_leaves st)(c := no_leaf), ps_liveCount := ps_liveCount st - 1\<rparr>)
           in Inr (st1, [Slashed c limit (pl_index l) (ps_currentRoot st1)]))"

datatype paid_op =
    Insert nat nat nat                  \<comment> \<open>sender, commitment, limit\<close>
  | InsertBatch nat "nat list" "nat list"
  | SlashLeaf nat nat nat               \<comment> \<open>commitment, secret, limit; anybody may call it\<close>
  | SetOperator nat nat
  | AcceptOperator nat

definition onlyOperator :: "nat \<Rightarrow> paid_set \<Rightarrow> (sol_error + 'a) \<Rightarrow> sol_error + 'a" where
  "onlyOperator sender st body = (if sender \<noteq> ps_operator st then Inl NotOperator else body)"

fun paid_step :: "set_env \<Rightarrow> paid_op \<Rightarrow> paid_set \<Rightarrow> sol_error + paid_set \<times> member_event list" where
  "paid_step e (Insert sender c l) st = onlyOperator sender st (paid_insert e c l st)"
| "paid_step e (InsertBatch sender cs ls) st = onlyOperator sender st
     (if cs = [] \<or> length cs \<noteq> length ls then Inl BadBatch else paid_inserts e (zip cs ls) st)"
| "paid_step e (SlashLeaf c secret l) st = paid_slash e c secret l st"
| "paid_step e (SetOperator sender to) st = onlyOperator sender st (Inr (st\<lparr>ps_pendingOperator := to\<rparr>, []))"
| "paid_step e (AcceptOperator sender) st =
     (if sender = 0 \<or> sender \<noteq> ps_pendingOperator st then Inl NotPendingOperator
      else Inr (st\<lparr>ps_operator := sender, ps_pendingOperator := 0\<rparr>, []))"

fun paid_op_ok :: "paid_op \<Rightarrow> bool" where
  "paid_op_ok (Insert _ c _) = (c \<noteq> 0)"
| "paid_op_ok (InsertBatch _ cs _) = (0 \<notin> set cs)"
| "paid_op_ok _ = True"

definition paid_live :: "paid_set \<Rightarrow> nat \<Rightarrow> bool" where
  "paid_live st c \<longleftrightarrow> pl_limit (ps_leaves st c) \<noteq> 0"

definition paid_view :: "set_env \<Rightarrow> paid_set \<Rightarrow> leaf_set" where
  "paid_view e st = \<lparr>ls_leaves = tree_leaves e (ps_nextIndex st) (ps_treeNode st),
     ls_live = (\<lambda>c. if paid_live st c then Some (pl_index (ps_leaves st c)) else None)\<rparr>"

text \<open>The tier table admits no limit whose 32-bit form is 0, so an inserted leaf is live.\<close>

definition paid_inv :: "set_env \<Rightarrow> paid_set \<Rightarrow> bool" where
  "paid_inv e st \<longleftrightarrow> set_tree_ok e (ps_nextIndex st) (ps_treeNode st) (ps_currentRoot st)
     \<and> finite {c. paid_live st c} \<and> ps_liveCount st = card {c. paid_live st c}
     \<and> (\<forall>c. paid_live st c \<longrightarrow> pl_index (ps_leaves st c) < ps_nextIndex st)
     \<and> (\<forall>l\<in>set (ps_allowed st). 0 < l \<and> l \<le> MAX_TIER)"

lemma paid_update_sel [simp]:
  "ps_leaves (paid_update e i v st) = ps_leaves st" "ps_nextIndex (paid_update e i v st) = ps_nextIndex st"
  "ps_liveCount (paid_update e i v st) = ps_liveCount st" "ps_allowed (paid_update e i v st) = ps_allowed st"
  by (auto simp: paid_update_def split: prod.split)

lemma paid_insert_refines:
  assumes e: "env_ok e" and inv: "paid_inv e st" and "c \<noteq> 0"
    and step: "paid_insert e c limit st = Inr (st', evs)" and cap: "ps_nextIndex st' \<le> 2 ^ TREE_DEPTH"
  shows "paid_inv e st' \<and> paid_view e st' = apply_events (se_zero e) evs (paid_view e st)"
proof -
  define n where "n = ps_nextIndex st"
  obtain T r where T: "updateLeaf (se_hash e) (env_zeroes e) (ps_treeNode st) n c = (T, r)" by (metis surj_pair)
  have evs: "\<exists>r. evs = [Inserted c limit n r]" and off: "\<not> paid_live st c" and lim: "limit \<in> set (ps_allowed st)"
    and sel: "ps_treeNode st' = T" "ps_currentRoot st' = r" "ps_nextIndex st' = Suc n" "ps_allowed st' = ps_allowed st"
    "ps_liveCount st' = ps_liveCount st + 1" "ps_leaves st' = (ps_leaves st)(c := \<lparr>pl_index = n, pl_limit = limit mod 2 ^ 32\<rparr>)"
    using step T by (auto simp: paid_insert_def Let_def paid_update_def n_def paid_live_def split: if_splits)
  have "set_tree_ok e n (ps_treeNode st) (ps_currentRoot st)" "Suc n \<le> 2 ^ TREE_DEPTH"
    using inv cap sel by (simp_all add: paid_inv_def n_def)
  note tree = set_tree_append [OF e this \<open>c \<noteq> 0\<close> T]
  have "0 < limit" "limit \<le> MAX_TIER" using inv lim by (auto simp: paid_inv_def)
  then have "limit mod 2 ^ 32 \<noteq> 0" by (simp add: MAX_TIER_def)
  then have live: "paid_live st' d \<longleftrightarrow> d = c \<or> paid_live st d" for d
    by (auto simp: paid_live_def sel)
  then have set_eq: "{d. paid_live st' d} = insert c {d. paid_live st d}" by auto
  have "finite {d. paid_live st' d} \<and> ps_liveCount st' = card {d. paid_live st' d}"
    unfolding set_eq sel using inv off by (simp add: paid_inv_def)
  then have "paid_inv e st'"
    using inv conjunct1 [OF tree] by (simp add: paid_inv_def sel) (auto simp: live n_def less_Suc_eq)
  moreover have "paid_view e st' = apply_event (se_zero e) (Append c) (paid_view e st)"
    using off conjunct2 [OF tree] by (auto simp: paid_view_def sel live n_def)
  ultimately show ?thesis using evs by auto
qed

lemma paid_insert_next: "paid_insert e c l st = Inr (st', evs) \<Longrightarrow> ps_nextIndex st \<le> ps_nextIndex st'"
  by (auto simp: paid_insert_def Let_def split: if_splits)

lemma paid_inserts_next: "paid_inserts e cls st = Inr (st', evs) \<Longrightarrow> ps_nextIndex st \<le> ps_nextIndex st'"
proof (induction cls arbitrary: st evs)
  case (Cons cl cls)
  obtain c l where cl: "cl = (c, l)" by (cases cl)
  from Cons.prems obtain s1 e1 e2 where "paid_insert e c l st = Inr (s1, e1)" "paid_inserts e cls s1 = Inr (st', e2)"
    by (auto simp: cl split: sum.splits prod.splits)
  with Cons.IH [of s1 e2] paid_insert_next [of e c l st s1 e1] show ?case by simp
qed simp

lemma paid_inserts_refines:
  assumes e: "env_ok e" and cap: "ps_nextIndex st' \<le> 2 ^ TREE_DEPTH"
  shows "paid_inv e st \<Longrightarrow> 0 \<notin> fst ` set cls \<Longrightarrow> paid_inserts e cls st = Inr (st', evs)
     \<Longrightarrow> paid_inv e st' \<and> paid_view e st' = apply_events (se_zero e) evs (paid_view e st)"
proof (induction cls arbitrary: st evs)
  case (Cons cl cls)
  obtain c l where cl: "cl = (c, l)" by (cases cl)
  from Cons.prems obtain s1 e1 e2 where one: "paid_insert e c l st = Inr (s1, e1)"
    and rest: "paid_inserts e cls s1 = Inr (st', e2)" "evs = e1 @ e2"
    by (auto simp: cl split: sum.splits prod.splits)
  have "c \<noteq> 0" "ps_nextIndex s1 \<le> 2 ^ TREE_DEPTH" using Cons.prems cl paid_inserts_next [OF rest(1)] cap by auto
  from paid_insert_refines [OF e Cons.prems(1) this(1) one this(2)] Cons.IH [of s1 e2] Cons.prems rest
  show ?case by simp
qed simp

lemma paid_slash_refines:
  assumes e: "env_ok e" and inv: "paid_inv e st" and step: "paid_slash e c secret limit st = Inr (st', evs)"
  shows "paid_inv e st' \<and> paid_view e st' = apply_events (se_zero e) evs (paid_view e st)"
proof -
  define i where "i = pl_index (ps_leaves st c)"
  obtain T r where T: "updateLeaf (se_hash e) (env_zeroes e) (ps_treeNode st) i (se_zero e) = (T, r)" by (metis surj_pair)
  have evs: "\<exists>r. evs = [Slashed c limit i r]" and on: "paid_live st c"
    and sel: "ps_treeNode st' = T" "ps_currentRoot st' = r" "ps_nextIndex st' = ps_nextIndex st" "ps_allowed st' = ps_allowed st"
    "ps_liveCount st' = ps_liveCount st - 1" "ps_leaves st' = (ps_leaves st)(c := no_leaf)"
    using step T by (auto simp: paid_slash_def Let_def paid_update_def i_def paid_live_def split: if_splits)
  have i: "i < ps_nextIndex st" and ok: "set_tree_ok e (ps_nextIndex st) (ps_treeNode st) (ps_currentRoot st)"
    using inv on by (simp_all add: paid_inv_def i_def)
  note tree = set_tree_vacate [OF e ok i T]
  have live: "paid_live st' d \<longleftrightarrow> d \<noteq> c \<and> paid_live st d" for d
    by (auto simp: paid_live_def sel no_leaf_def)
  then have set_eq: "{d. paid_live st' d} = {d. paid_live st d} - {c}" by auto
  have "finite {d. paid_live st' d} \<and> ps_liveCount st' = card {d. paid_live st' d}"
    unfolding set_eq sel using inv on by (simp add: paid_inv_def)
  then have "paid_inv e st'"
    using inv conjunct1 [OF tree] by (simp add: paid_inv_def sel) (simp add: live)
  moreover have "paid_view e st' = apply_event (se_zero e) (Vacate c) (paid_view e st)"
    using on conjunct2 [OF tree] by (auto simp: paid_view_def sel live i_def)
  ultimately show ?thesis using evs by auto
qed

lemma paid_operator_frame:
  "paid_inv e (st\<lparr>ps_pendingOperator := a\<rparr>) = paid_inv e st" "paid_view e (st\<lparr>ps_pendingOperator := a\<rparr>) = paid_view e st"
  "paid_inv e (st\<lparr>ps_operator := b\<rparr>) = paid_inv e st" "paid_view e (st\<lparr>ps_operator := b\<rparr>) = paid_view e st"
  by (simp_all add: paid_inv_def paid_view_def paid_live_def cong: if_cong)

lemma onlyOperator_Inr: "onlyOperator s st r = Inr x \<longleftrightarrow> s = ps_operator st \<and> r = Inr x"
  by (auto simp: onlyOperator_def)

interpretation paid: member_chain paid_step paid_inv paid_view ps_nextIndex ps_liveCount ps_currentRoot paid_op_ok
proof
  fix e st t st' evs
  assume *: "env_ok e" "paid_inv e st" "paid_op_ok t" "paid_step e t st = Inr (st', evs)" "ps_nextIndex st' \<le> 2 ^ TREE_DEPTH"
  show "paid_inv e st' \<and> paid_view e st' = apply_events (se_zero e) evs (paid_view e st)"
  proof (cases t)
    case (Insert s c l)
    then show ?thesis using * by (intro paid_insert_refines [of e st c l]) (simp_all add: onlyOperator_Inr)
  next
    case (InsertBatch s cs ls)
    then have "0 \<notin> fst ` set (zip cs ls)" "paid_inserts e (zip cs ls) st = Inr (st', evs)"
      using * by (auto simp: onlyOperator_Inr dest: set_zip_leftD split: if_splits)
    then show ?thesis using * paid_inserts_refines [of e st' st "zip cs ls" evs] by simp
  next
    case (SlashLeaf c s l)
    then show ?thesis using * by (intro paid_slash_refines [of e st c s l]) simp_all
  next
    case (SetOperator s to)
    then show ?thesis using * by (auto simp: onlyOperator_Inr paid_operator_frame)
  next
    case (AcceptOperator s)
    then show ?thesis using * by (auto simp: paid_operator_frame split: if_splits)
  qed
next
  fix e t st st' evs
  assume "paid_step e t st = Inr (st', evs)"
  then show "ps_nextIndex st \<le> ps_nextIndex st'"
    by (cases t) (auto simp: onlyOperator_Inr paid_slash_def Let_def split: if_splits dest: paid_insert_next paid_inserts_next)
next
  fix e st assume "paid_inv e st"
  moreover have "dom (ls_live (paid_view e st)) = {c. paid_live st c}" by (auto simp: paid_view_def split: if_splits)
  ultimately show "ps_liveCount st = card (dom (ls_live (paid_view e st)))" by (simp add: paid_inv_def)
next
  fix e st assume "paid_inv e st"
  then show "ps_currentRoot st = merkle_root (se_hash e) (se_zero e) (ls_leaves (paid_view e st))"
    using set_tree_root by (simp add: paid_inv_def paid_view_def)
qed

lemma paid_tiers_bounds:
  "paid_tiers ls prev al d = Inr (al', d') \<Longrightarrow> \<forall>l\<in>set al. 0 < l \<and> l \<le> MAX_TIER \<Longrightarrow> \<forall>l\<in>set al'. 0 < l \<and> l \<le> MAX_TIER"
  by (induction ls prev al d rule: paid_tiers.induct) (auto split: if_splits)

lemma paid_constructed:
  assumes "paid_constructor e s op h ls = Inr st"
  shows "paid_inv e st" "paid_view e st = empty_set"
proof -
  from assms obtain al d where tiers: "paid_tiers ls 0 [] False = Inr (al, d)" and al: "ps_allowed st = al"
    and st: "ps_leaves st = (\<lambda>_. no_leaf)" "ps_nextIndex st = 0" "ps_liveCount st = 0"
    "ps_currentRoot st = env_zeroes e TREE_DEPTH" "ps_treeNode st = (\<lambda>_ _. 0)"
    by (auto simp: paid_constructor_def split: if_splits sum.splits prod.splits)
  then have "paid_live st = (\<lambda>_. False)" by (auto simp: paid_live_def no_leaf_def)
  then show "paid_inv e st" "paid_view e st = empty_set"
    using set_tree_ok_empty [of e] paid_tiers_bounds [OF tiers]
    by (simp_all add: paid_inv_def st al paid_view_def empty_set_def tree_leaves_def)
qed

end
