(* ===== verification/Replay.thy ===== *)
theory Replay
  imports MemberSet "HOL-Library.Multiset" "HOL-Library.Product_Lexorder" "HOL-Library.Countable"
begin

text \<open>
  Reading a membership set from its event log: the paged \<open>eth_getLogs\<close> and \<open>reconstructGroup\<close>
  of \<^verbatim>\<open>src/lib/root-provider.mjs\<close>. The RPC endpoint is an argument: its answer to the k-th call for
  a block range. So is the RLN group of the third-party package, as its three operations. The main
  results are that paging returns what one unbounded call would have returned, and that replaying the
  log of either contract of \<open>MemberSet\<close> gives back the contract's leaves, live members and root.
\<close>

section \<open>Logs and topics\<close>

record chain_log =
  lg_block :: nat          \<comment> \<open>\<open>BigInt(log.blockNumber)\<close>\<close>
  lg_index :: nat          \<comment> \<open>\<open>BigInt(log.logIndex)\<close>\<close>
  lg_topic0 :: string
  lg_commitment :: nat     \<comment> \<open>\<open>BigInt(log.topics[1])\<close>\<close>

text \<open>An entry of a log array that is \<open>null\<close>, or whose fields \<open>BigInt\<close> rejects, is \<open>None\<close>.\<close>

type_synonym raw_log = "chain_log option"

definition REGISTERED_TOPICS :: "string list" where
  "REGISTERED_TOPICS =
    [''0x0dbb6a3ed41d8f3d21e481b86d0e8bbf65a630b7dc4c5ee6c2c1a74561841e6d'',
     ''0x509c8735bf3647b16c92625a43b5459d0b51845aa0f3ec846f9d24594e7b824b'',
     ''0x829b3fd9a2105b78eea5138f4d692eb507be107a9b265a9456ea94fb2db9f992'',
     ''0x9b776d199f09c774f5b205c9bc2ac6f40d508c347aaea919867eeaf06ebef0e9'']"

definition REMOVED_TOPICS :: "string list" where
  "REMOVED_TOPICS =
    [''0x971e754215411b0ec07054d759063d876d53872b7d4b37294744e5a776604f37'',
     ''0x8f2d81dd61a3f7ff90ea7265e45192f03f643615dd2458e287d84aaac222ffe9'',
     ''0x707cd9719d0c14265b9e456f7add99095401f907e570e5cdd65a92920947c450'',
     ''0x0a39eb0fcb6a37e10a529e106ae887cbd1721626fa57900170ed0c2437af3797'',
     ''0xac0c8be2061774c705c517af2a774ab5cb33a2d7fe7054dd4a2728433026029c'']"

definition log_event :: "chain_log \<Rightarrow> set_event option" where
  "log_event l =
     (if js_lower (lg_topic0 l) \<in> set REGISTERED_TOPICS then Some (Append (lg_commitment l))
      else if js_lower (lg_topic0 l) \<in> set REMOVED_TOPICS then Some (Vacate (lg_commitment l))
      else None)"

section \<open>Replaying the log\<close>

record group_lib =  \<comment> \<open>\<open>RLNGroup\<close>: its leaf array, \<open>addMember\<close>, \<open>removeMember\<close>, \<open>root\<close>\<close>
  gl_add :: "nat list \<Rightarrow> nat \<Rightarrow> nat list res"
  gl_remove :: "nat list \<Rightarrow> nat \<Rightarrow> nat list"
  gl_root :: "nat list \<Rightarrow> nat"

record replay =
  rp_members :: "nat list"
  rp_liveIndex :: "(nat, nat) jmap"
  rp_active :: int
  rp_transitions :: "string option list"

definition replay_root :: "group_lib \<Rightarrow> replay \<Rightarrow> string option" where
  "replay_root gl g = (if rp_active g = 0 then None else Some (nat_dec (gl_root gl (rp_members g))))"

definition track :: "group_lib \<Rightarrow> nat option \<Rightarrow> nat \<Rightarrow> replay \<Rightarrow> replay" where  \<comment> \<open>\<open>position >= trackFrom\<close>; \<open>None\<close> is infinity\<close>
  "track gl trackFrom pos g =
     (case trackFrom of
        Some k \<Rightarrow> if k \<le> pos then g\<lparr>rp_transitions := rp_transitions g @ [replay_root gl g]\<rparr> else g
      | None \<Rightarrow> g)"

definition replay_log :: "group_lib \<Rightarrow> nat option \<Rightarrow> nat \<Rightarrow> chain_log \<Rightarrow> replay \<Rightarrow> replay res" where
  "replay_log gl trackFrom pos l g =
     (let topic0 = js_lower (lg_topic0 l); c = lg_commitment l in
      if topic0 \<in> set REGISTERED_TOPICS then
        (if map_of (rp_liveIndex g) c \<noteq> None then Inr g
         else bind_res (gl_add gl (rp_members g) c) (\<lambda>ms.
           Inr (track gl trackFrom pos (g\<lparr>rp_members := ms,
             rp_liveIndex := AList.update c (length (rp_members g)) (rp_liveIndex g), rp_active := rp_active g + 1\<rparr>))))
      else if topic0 \<in> set REMOVED_TOPICS then
        (case map_of (rp_liveIndex g) c of
           None \<Rightarrow> Inr g
         | Some idx \<Rightarrow> Inr (track gl trackFrom pos (g\<lparr>rp_members := gl_remove gl (rp_members g) idx,
             rp_liveIndex := AList.delete c (rp_liveIndex g), rp_active := rp_active g - 1\<rparr>)))
      else Inr g)"

fun replay_from :: "group_lib \<Rightarrow> nat option \<Rightarrow> nat \<Rightarrow> chain_log list \<Rightarrow> replay \<Rightarrow> replay res" where
  "replay_from gl trackFrom pos [] g = Inr g"
| "replay_from gl trackFrom pos (l # ls) g =
     bind_res (replay_log gl trackFrom pos l g) (replay_from gl trackFrom (Suc pos) ls)"

definition empty_replay :: replay where
  "empty_replay = \<lparr>rp_members = [], rp_liveIndex = [], rp_active = 0, rp_transitions = []\<rparr>"

definition log_key :: "chain_log \<Rightarrow> nat \<times> nat" where
  "log_key l = (lg_block l, lg_index l)"

text \<open>
  \<open>[...logs].sort(...)\<close> is a stable sort on block and log index. A \<open>null\<close> or undecodable entry makes
  the comparison or the loop throw.
\<close>

definition reconstructGroup :: "group_lib \<Rightarrow> nat option \<Rightarrow> raw_log list \<Rightarrow> replay res" where
  "reconstructGroup gl trackFrom logs =
     (if None \<in> set logs then Inl TypeError
      else replay_from gl trackFrom 0 (sort_key log_key (map the logs)) empty_replay)"

definition reconstructRoot :: "group_lib \<Rightarrow> raw_log list \<Rightarrow> string option res" where
  "reconstructRoot gl logs = bind_res (reconstructGroup gl None logs) (\<lambda>g. Inr (replay_root gl g))"

subsection \<open>The replay acts on the abstract set\<close>

text \<open>
  What the group package documents: a member is appended while the tree has room, a removed leaf
  becomes the zero value at its index, the root is the Merkle root of the leaves.
\<close>

definition group_ok :: "set_env \<Rightarrow> group_lib \<Rightarrow> bool" where
  "group_ok e gl \<longleftrightarrow>
     (\<forall>ms c. length ms < 2 ^ TREE_DEPTH \<longrightarrow> gl_add gl ms c = Inr (ms @ [c]))
   \<and> (\<forall>ms i. i < length ms \<longrightarrow> gl_remove gl ms i = ms[i := se_zero e])
   \<and> (\<forall>ms. gl_root gl ms = merkle_root (se_hash e) (se_zero e) ms)"

definition replay_view :: "replay \<Rightarrow> leaf_set" where
  "replay_view g = \<lparr>ls_leaves = rp_members g, ls_live = map_of (rp_liveIndex g)\<rparr>"

definition replay_ok :: "replay \<Rightarrow> bool" where
  "replay_ok g \<longleftrightarrow> jmap_wf (rp_liveIndex g) \<and> rp_active g = int (length (rp_liveIndex g)) \<and> leaf_set_inv (replay_view g)"

lemma track_sel [simp]:
  "rp_members (track gl tf p g) = rp_members g" "rp_liveIndex (track gl tf p g) = rp_liveIndex g"
  "rp_active (track gl tf p g) = rp_active g" "replay_view (track gl tf p g) = replay_view g"
  "replay_ok (track gl tf p g) = replay_ok g"
  by (simp_all add: track_def replay_view_def replay_ok_def split: option.split)

lemma length_delete_mem: "jmap_wf m \<Longrightarrow> map_of m k = Some v \<Longrightarrow> length m = Suc (length (AList.delete k m))"
proof (induction m)
  case (Cons kv m)
  show ?case
  proof (cases "fst kv = k")
    case True
    with Cons.prems have "AList.delete k m = m" by (intro delete_id) auto
    with True show ?thesis by (cases kv) simp
  next
    case False
    with Cons show ?thesis by (cases kv) auto
  qed
qed simp

lemma apply_event_grows: "length (ls_leaves A) \<le> length (ls_leaves (apply_event z ev A))"
  by (cases ev) (auto split: option.split)

lemma apply_events_grow: "length (ls_leaves A) \<le> length (ls_leaves (fold (apply_event z) evs A))"
proof (induction evs arbitrary: A)
  case (Cons ev evs)
  show ?case using Cons [of "apply_event z ev A"] apply_event_grows [of A z ev] by simp
qed simp

lemma replay_log_refines:
  assumes gl: "group_ok e gl" and ok: "replay_ok g" and ev: "log_event l = Some ev"
    and cap: "length (ls_leaves (apply_event (se_zero e) ev (replay_view g))) \<le> 2 ^ TREE_DEPTH"
  shows "\<exists>g'. replay_log gl tf p l g = Inr g' \<and> replay_ok g' \<and> replay_view g' = apply_event (se_zero e) ev (replay_view g)"
proof (cases "js_lower (lg_topic0 l) \<in> set REGISTERED_TOPICS")
  case True
  let ?c = "lg_commitment l"
  have ev': "ev = Append ?c" using True ev by (simp add: log_event_def)
  show ?thesis
  proof (cases "map_of (rp_liveIndex g) ?c")
    case None
    then have "length (rp_members g) < 2 ^ TREE_DEPTH" using cap by (simp add: ev' replay_view_def)
    then have add: "gl_add gl (rp_members g) ?c = Inr (rp_members g @ [?c])" using gl by (simp add: group_ok_def)
    let ?g = "g\<lparr>rp_members := rp_members g @ [?c],
      rp_liveIndex := AList.update ?c (length (rp_members g)) (rp_liveIndex g), rp_active := rp_active g + 1\<rparr>"
    have view: "replay_view ?g = apply_event (se_zero e) ev (replay_view g)"
      using None by (auto simp: ev' replay_view_def update_conv')
    have "?c \<notin> fst ` set (rp_liveIndex g)" using None by (simp add: map_of_eq_None_iff)
    then have "replay_ok ?g"
      using ok view leaf_set_inv_event [of "replay_view g" "se_zero e" ev]
      by (auto simp: replay_ok_def length_update simp del: apply_event.simps)
    with view add None True show ?thesis by (simp add: replay_log_def Let_def)
  next
    case (Some i)
    then show ?thesis using True ok by (simp add: replay_log_def Let_def ev' replay_view_def)
  qed
next
  case False
  let ?c = "lg_commitment l"
  have rem: "js_lower (lg_topic0 l) \<in> set REMOVED_TOPICS" and ev': "ev = Vacate ?c"
    using False ev by (auto simp: log_event_def split: if_splits)
  show ?thesis
  proof (cases "map_of (rp_liveIndex g) ?c")
    case None
    then show ?thesis using False rem ok by (simp add: replay_log_def Let_def ev' replay_view_def)
  next
    case (Some i)
    have "i < length (rp_members g)" using ok Some by (auto simp: replay_ok_def leaf_set_inv_def replay_view_def)
    then have del: "gl_remove gl (rp_members g) i = (rp_members g)[i := se_zero e]" using gl by (simp add: group_ok_def)
    let ?g = "g\<lparr>rp_members := (rp_members g)[i := se_zero e],
      rp_liveIndex := AList.delete ?c (rp_liveIndex g), rp_active := rp_active g - 1\<rparr>"
    have view: "replay_view ?g = apply_event (se_zero e) ev (replay_view g)"
      using Some by (auto simp: ev' replay_view_def delete_conv')
    have "replay_ok ?g"
      using ok view leaf_set_inv_event [of "replay_view g" "se_zero e" ev] length_delete_mem [of "rp_liveIndex g" ?c i] Some
      by (auto simp: replay_ok_def simp del: apply_event.simps)
    with view del Some False rem show ?thesis by (simp add: replay_log_def Let_def)
  qed
qed

lemma replay_log_other: "log_event l = None \<Longrightarrow> replay_log gl tf p l g = Inr g"
  by (auto simp: replay_log_def log_event_def Let_def split: if_splits)

lemma replay_refines:
  assumes gl: "group_ok e gl"
  shows "replay_ok g \<Longrightarrow> length (ls_leaves (fold (apply_event (se_zero e)) (List.map_filter log_event ls) (replay_view g))) \<le> 2 ^ TREE_DEPTH
    \<Longrightarrow> \<exists>g'. replay_from gl tf p ls g = Inr g' \<and> replay_ok g'
       \<and> replay_view g' = fold (apply_event (se_zero e)) (List.map_filter log_event ls) (replay_view g)"
proof (induction ls arbitrary: p g)
  case Nil
  then show ?case by (simp add: List.map_filter_simps)
next
  case (Cons l ls)
  show ?case
  proof (cases "log_event l")
    case None
    with Cons show ?thesis by (simp add: replay_log_other List.map_filter_simps)
  next
    case (Some ev)
    have cap: "length (ls_leaves (fold (apply_event (se_zero e)) (List.map_filter log_event ls)
        (apply_event (se_zero e) ev (replay_view g)))) \<le> 2 ^ TREE_DEPTH"
      using Cons.prems(2) Some by (simp add: List.map_filter_simps)
    then have "length (ls_leaves (apply_event (se_zero e) ev (replay_view g))) \<le> 2 ^ TREE_DEPTH"
      using apply_events_grow order_trans by blast
    from replay_log_refines [OF gl Cons.prems(1) Some this] obtain g1
      where g1: "replay_log gl tf p l g = Inr g1" "replay_ok g1" "replay_view g1 = apply_event (se_zero e) ev (replay_view g)"
      by blast
    with Cons.IH [of g1 "Suc p"] cap Some show ?thesis by (simp add: List.map_filter_simps)
  qed
qed

section \<open>The log a contract leaves\<close>

fun event_topic :: "member_event \<Rightarrow> string" where  \<comment> \<open>topic 0 of the deployed generation\<close>
  "event_topic (MemberRegistered _ _ _) = ''0x509c8735bf3647b16c92625a43b5459d0b51845aa0f3ec846f9d24594e7b824b''"
| "event_topic (MemberExiting _ _ _) = ''0x971e754215411b0ec07054d759063d876d53872b7d4b37294744e5a776604f37''"
| "event_topic (MemberWithdrawn _ _) = ''0x8f2d81dd61a3f7ff90ea7265e45192f03f643615dd2458e287d84aaac222ffe9''"
| "event_topic (MemberSlashed _ _ _) = ''0x0a39eb0fcb6a37e10a529e106ae887cbd1721626fa57900170ed0c2437af3797''"
| "event_topic (Inserted _ _ _ _) = ''0x829b3fd9a2105b78eea5138f4d692eb507be107a9b265a9456ea94fb2db9f992''"
| "event_topic (Slashed _ _ _ _) = ''0xac0c8be2061774c705c517af2a774ab5cb33a2d7fe7054dd4a2728433026029c''"

fun event_commitment :: "member_event \<Rightarrow> nat" where
  "event_commitment (MemberRegistered c _ _) = c"
| "event_commitment (MemberExiting c _ _) = c"
| "event_commitment (MemberWithdrawn c _) = c"
| "event_commitment (MemberSlashed c _ _) = c"
| "event_commitment (Inserted c _ _ _) = c"
| "event_commitment (Slashed c _ _ _) = c"

definition mk_log :: "nat \<times> nat \<Rightarrow> member_event \<Rightarrow> chain_log" where
  "mk_log p ev = \<lparr>lg_block = fst p, lg_index = snd p, lg_topic0 = event_topic ev, lg_commitment = event_commitment ev\<rparr>"

text \<open>The events in the order they were emitted, at increasing positions, delivered in any order.\<close>

definition mined :: "(nat \<times> nat) list \<Rightarrow> member_event list \<Rightarrow> raw_log list \<Rightarrow> bool" where
  "mined ps evs logs \<longleftrightarrow> length ps = length evs \<and> sorted_wrt (<) ps \<and> mset logs = mset (map Some (map2 mk_log ps evs))"

lemma lower_topics:
  "js_lower (event_topic ev) = event_topic ev"
  by (cases ev) (simp_all add: js_lower_def lower_char_def Let_def)

lemma log_event_mk_log: "log_event (mk_log p ev) = Some (set_event_of ev)"
  by (cases ev) (simp_all add: log_event_def mk_log_def lower_topics REGISTERED_TOPICS_def REMOVED_TOPICS_def
      del: event_topic.simps, simp_all)

lemma events_of_mined: "length ps = length evs \<Longrightarrow> List.map_filter log_event (map2 mk_log ps evs) = map set_event_of evs"
  by (induction ps evs rule: list_induct2) (simp_all add: List.map_filter_simps log_event_mk_log)

lemma log_key_map2: "length ps = length evs \<Longrightarrow> map log_key (map2 mk_log ps evs) = ps"
  by (induction ps evs rule: list_induct2) (simp_all add: log_key_def mk_log_def)

lemma mined_sorts:
  assumes "mined ps evs logs"
  shows "None \<notin> set logs" "sort_key log_key (map the logs) = map2 mk_log ps evs"
proof -
  let ?ls = "map2 mk_log ps evs"
  have len: "length ps = length evs" and sorted: "sorted_wrt (<) ps" and ms: "mset logs = mset (map Some ?ls)"
    using assms by (auto simp: mined_def)
  have "set logs = set (map Some ?ls)" using ms by (rule mset_eq_setD)
  then show "None \<notin> set logs" by auto
  have "mset (map the logs) = mset (map the (map Some ?ls))" by (simp only: mset_map ms)
  then have perm: "mset (map the logs) = mset ?ls" by (simp add: comp_def)
  have keys: "map log_key ?ls = ps" by (rule log_key_map2 [OF len])
  have "distinct (map log_key ?ls)" "sorted (map log_key ?ls)"
    unfolding keys using sorted by (simp_all add: strict_sorted_iff)
  moreover have "inj_on log_key (set (map the logs))"
    using calculation(1) mset_eq_setD [OF perm] by (simp only: distinct_map)
  ultimately show "sort_key log_key (map the logs) = ?ls"
    using perm by (intro sort_key_inj_key_eq)
qed

lemma reconstruct_mined:
  assumes "group_ok e gl" "mined ps evs logs"
    and "length (ls_leaves (apply_events (se_zero e) evs empty_set)) \<le> 2 ^ TREE_DEPTH"
  shows "\<exists>g. reconstructGroup gl tf logs = Inr g \<and> replay_ok g \<and> replay_view g = apply_events (se_zero e) evs empty_set"
proof -
  have "replay_ok empty_replay" "replay_view empty_replay = empty_set"
    by (simp_all add: replay_ok_def empty_replay_def replay_view_def leaf_set_inv_def empty_set_def)
  with replay_refines [OF assms(1), of empty_replay "map2 mk_log ps evs"] assms(2,3) mined_sorts [OF assms(2)]
  show ?thesis by (simp add: reconstructGroup_def events_of_mined mined_def)
qed

text \<open>The replay of a log whose abstract set is known: members, live indices, count and root.\<close>

lemma replay_results:
  assumes "group_ok e gl" "replay_ok g" "replay_view g = A" "n = card (dom (ls_live A))"
    and "r = merkle_root (se_hash e) (se_zero e) (ls_leaves A)"
  shows "rp_members g = ls_leaves A \<and> map_of (rp_liveIndex g) = ls_live A \<and> rp_active g = int n
    \<and> replay_root gl g = (if n = 0 then None else Some (nat_dec r))"
proof -
  have "length (rp_liveIndex g) = card (dom (map_of (rp_liveIndex g)))"
    using assms(2) distinct_card [of "map fst (rp_liveIndex g)"] by (simp add: replay_ok_def dom_map_of_conv_image_fst)
  with assms show ?thesis by (auto simp: replay_view_def replay_root_def replay_ok_def group_ok_def)
qed

context member_chain
begin

lemma replay_chain:
  assumes "env_ok e" "group_ok e gl" "inv e st0" "view e st0 = empty_set" "list_all op_ok ts"
    and "chain_run (transact e) ts st0 = (st, evs)" "next_index st \<le> 2 ^ TREE_DEPTH" "mined ps evs logs"
    and "length (ls_leaves (view e st)) = next_index st"
  shows "\<exists>g. reconstructGroup gl tf logs = Inr g
     \<and> rp_members g = ls_leaves (view e st) \<and> map_of (rp_liveIndex g) = ls_live (view e st)
     \<and> rp_active g = int (count st)
     \<and> replay_root gl g = (if count st = 0 then None else Some (nat_dec (root st)))"
proof -
  note det = log_determines [OF assms(1,3-7)]
  with reconstruct_mined [OF assms(2,8), of tf] assms(7,9) obtain g
    where g: "reconstructGroup gl tf logs = Inr g" "replay_ok g" "replay_view g = view e st" by auto
  from replay_results [OF assms(2) g(2,3) det(2,3)] g(1) show ?thesis by auto
qed

end

text \<open>
  C8: For every history of \<open>StakedReputationSet\<close> from its constructor (registrations, exits,
  withdrawals, slashings, and reverted calls) in which no registration has the commitment 0
  (\<open>zero_commitment_splits_roots\<close> shows what happens then), block times are not 0 modulo
  \<open>2\<^sup>6\<^sup>4\<close>, and the tree is not filled beyond its \<open>2\<^sup>2\<^sup>0\<close> leaves: whatever order the RPC returns
  the event log in, replaying it gives the contract's own leaf array, the active members at their
  contract indices, the contract's active count, and as root exactly the \<open>currentRoot\<close> the contract
  maintains (none when no member is active).
\<close>

theorem replay_refines_staked_set:
  assumes "env_ok e" "group_ok e gl" "staked_constructor e b u mu els ebs = Inr st0" "list_all staked_op_ok ts"
    and "chain_run (staked_step e) ts st0 = (st, evs)" "ss_nextIndex st \<le> 2 ^ TREE_DEPTH" "mined ps evs logs"
  shows "\<exists>g. reconstructGroup gl tf logs = Inr g
     \<and> rp_members g = ls_leaves (staked_view e st)
     \<and> (\<forall>c. map_of (rp_liveIndex g) c = (if staked_active st c then Some (m_index (ss_members st c)) else None))
     \<and> rp_active g = int (ss_activeCount st)
     \<and> replay_root gl g = (if ss_activeCount st = 0 then None else Some (nat_dec (ss_currentRoot st)))"
  using staked.replay_chain [OF assms(1,2) staked_constructed [OF assms(3)] assms(4-7), of tf] by (auto simp: staked_view_def)

definition demo_env :: set_env where
  "demo_env = \<lparr>se_hash = (\<lambda>a b. Suc (a + 2 * b)), se_zero = 7, se_verify = (\<lambda>_ _ _ _. True),
     se_context = (\<lambda>s _. s), se_commitmentOf = (\<lambda>s l. s + l)\<rparr>"

definition demo_group :: group_lib where
  "demo_group = \<lparr>gl_add = (\<lambda>ms c. if length ms < 2 ^ TREE_DEPTH then Inr (ms @ [c]) else Inl (Error ''full'')),
     gl_remove = (\<lambda>ms i. ms[i := se_zero demo_env]), gl_root = merkle_root (se_hash demo_env) (se_zero demo_env)\<rparr>"

definition demo_set :: staked_set where
  "demo_set = projr (staked_constructor demo_env 100 60 60 [] [])"

definition demo_ops :: "staked_op list" where
  "demo_ops = [Register 5 8 100, Register 6 8 99, Register 6 8 100, InitiateExit 5 [] 9]"

definition demo_run :: "staked_set \<times> member_event list" where
  "demo_run = chain_run (staked_step demo_env) demo_ops demo_set"

lemma demo_ok [simp]: "env_ok demo_env" "group_ok demo_env demo_group"
  by (simp_all add: env_ok_def demo_env_def group_ok_def demo_group_def)

lemma se_verify_demo: "se_verify demo_env c l x p"
  by (simp add: demo_env_def)

lemma demo_constructed: "staked_constructor demo_env 100 60 60 [] [] = Inr demo_set"
  by (simp add: demo_set_def staked_constructor_def)

lemma demo_facts:
  "snd demo_run = [MemberRegistered 5 0 8, MemberRegistered 6 1 8, MemberExiting 5 9 69]"
  "ss_nextIndex (fst demo_run) = 2" "ss_activeCount (fst demo_run) = 1"
  by (simp_all add: demo_run_def demo_ops_def demo_set_def staked_register_def staked_initiateExit_def Let_def
      staked_constructor_def no_member_def DEFAULT_TIER_def se_verify_demo)

theorem replay_refines_staked_set_witness:
  "\<exists>g. reconstructGroup demo_group None (rev (map Some (map2 mk_log [(4, 1), (4, 2), (9, 0)] (snd demo_run)))) = Inr g
     \<and> rp_active g = 1 \<and> replay_root demo_group g = Some (nat_dec (ss_currentRoot (fst demo_run)))"
proof -
  have "mined [(4, 1), (4, 2), (9, 0)] (snd demo_run) (rev (map Some (map2 mk_log [(4, 1), (4, 2), (9, 0)] (snd demo_run))))"
    by (simp add: mined_def demo_facts)
  moreover have "list_all staked_op_ok demo_ops" by (simp add: demo_ops_def)
  moreover have "ss_nextIndex (fst demo_run) \<le> 2 ^ TREE_DEPTH" by (simp add: demo_facts TREE_DEPTH_def)
  moreover have "chain_run (staked_step demo_env) demo_ops demo_set = (fst demo_run, snd demo_run)" by (simp add: demo_run_def)
  ultimately show ?thesis
    using replay_refines_staked_set [OF demo_ok demo_constructed, of demo_ops "fst demo_run" "snd demo_run"] demo_facts(3)
    by fastforce
qed

text \<open>The same for the paid set.\<close>

theorem replay_refines_paid_set:
  assumes "env_ok e" "group_ok e gl" "paid_constructor e sender op hsh limits = Inr st0" "list_all paid_op_ok ts"
    and "chain_run (paid_step e) ts st0 = (st, evs)" "ps_nextIndex st \<le> 2 ^ TREE_DEPTH" "mined ps evs logs"
  shows "\<exists>g. reconstructGroup gl tf logs = Inr g
     \<and> rp_members g = ls_leaves (paid_view e st)
     \<and> (\<forall>c. map_of (rp_liveIndex g) c = (if paid_live st c then Some (pl_index (ps_leaves st c)) else None))
     \<and> rp_active g = int (ps_liveCount st)
     \<and> replay_root gl g = (if ps_liveCount st = 0 then None else Some (nat_dec (ps_currentRoot st)))"
  using paid.replay_chain [OF assms(1,2) paid_constructed [OF assms(3)] assms(4-7), of tf] by (auto simp: paid_view_def)

section \<open>A zero commitment splits the two trees\<close>

text \<open>
  The contract stores a leaf of value 0 as it stores an empty one. The path from a left-most node,
  with empty siblings on its right:
\<close>

fun spine :: "(nat \<Rightarrow> nat \<Rightarrow> nat) \<Rightarrow> (nat \<Rightarrow> nat) \<Rightarrow> nat \<Rightarrow> nat \<Rightarrow> nat \<Rightarrow> nat" where
  "spine h zs 0 l a = a"
| "spine h zs (Suc n) l a = spine h zs n (Suc l) (h a (zs l))"

lemma spine_inj:
  assumes "\<And>a b a' b'. h a b = h a' b' \<Longrightarrow> a = a' \<and> b = b'"
  shows "spine h zs n l a = spine h zs n l b \<Longrightarrow> a = b"
proof (induction n arbitrary: l a b)
  case (Suc n)
  then have "h a (zs l) = h b (zs l)" by simp
  with assms show ?case by blast
qed simp

lemma update_levels_spine:
  "(\<And>l. level \<le> l \<Longrightarrow> T l 1 = 0) \<Longrightarrow> snd (update_levels h zs n level T 0 node) = spine h zs n level node"
proof (induction n arbitrary: level T node)
  case (Suc n)
  have "nodeAt zs (set_node level 0 node T) level 1 = zs level"
    using Suc.prems [of level] by (simp add: nodeAt_def set_node_def)
  moreover have "set_node level 0 node T l 1 = 0" if "Suc level \<le> l" for l
    using Suc.prems [of l] that by (simp add: set_node_def)
  ultimately show ?case using Suc.IH [of "Suc level" "set_node level 0 node T"] by (simp add: Let_def)
qed simp

lemma update_levels_frame: "i \<noteq> 0 \<Longrightarrow> fst (update_levels h zs n level T 0 node) l i = T l i"
  by (induction n arbitrary: level T node) (simp_all add: Let_def set_node_def)

lemma update_levels_below: "l < level \<Longrightarrow> fst (update_levels h zs n level T j node) l i = T l i"
  by (induction n arbitrary: level T j node) (simp_all add: Let_def set_node_def)

lemma merkle_node_outside: "(\<And>j. i * 2 ^ l \<le> j \<Longrightarrow> f j = z) \<Longrightarrow> merkle_node h f l i = zeroes h z l"
proof (induction l arbitrary: i)
  case (Suc l)
  have "merkle_node h f l (2 * i) = zeroes h z l"
    by (rule Suc.IH) (rule Suc.prems, simp add: algebra_simps)
  moreover have "merkle_node h f l (2 * i + 1) = zeroes h z l"
    by (rule Suc.IH) (rule Suc.prems, simp add: algebra_simps)
  ultimately show ?case by simp
qed simp

lemma merkle_spine:
  assumes "\<And>j. 2 \<le> j \<Longrightarrow> f j = z"
  shows "merkle_node h f (Suc l + n) 0 = spine h (zeroes h z) n (Suc l) (merkle_node h f (Suc l) 0)"
proof (induction n arbitrary: l)
  case (Suc n)
  have "(2 :: nat) \<le> 2 ^ Suc l" by simp
  then have "merkle_node h f (Suc l) 1 = zeroes h z (Suc l)"
    by (intro merkle_node_outside assms) (metis mult_1 order_trans)
  then have "merkle_node h f (Suc (Suc l)) 0 = h (merkle_node h f (Suc l) 0) (zeroes h z (Suc l))" by simp
  with Suc [of "Suc l"] show ?case by (simp only: spine.simps add_Suc add_Suc_right)
qed simp

lemma zero_leaf_root:
  assumes "T0 = (\<lambda>_ _. 0)" "c \<noteq> 0"
    and "updateLeaf h (zeroes h z) T0 0 0 = (T1, r1)" "updateLeaf h (zeroes h z) T1 1 c = (T2, r2)"
  shows "r2 = spine h (zeroes h z) 19 1 (h z c)"
proof -
  define zs where "zs = zeroes h z"
  have depth: "TREE_DEPTH = Suc 19" by (simp add: TREE_DEPTH_def)
  have D: "updateLeaf h zs T i v = update_levels h zs 19 1 (set_node 0 i v T) (i div 2)
      (if even i then h v (nodeAt zs (set_node 0 i v T) 0 (i + 1)) else h (nodeAt zs (set_node 0 i v T) 0 (i - 1)) v)" for T i v
    unfolding updateLeaf_def depth by (simp only: update_levels.simps Let_def One_nat_def)
  have T1: "T1 = fst (update_levels h zs 19 1 (set_node 0 0 0 T0) 0 (h 0 (nodeAt zs (set_node 0 0 0 T0) 0 1)))"
    using arg_cong [OF assms(3), of fst] D [of T0 0 0] by (simp add: zs_def)
  have "T1 0 0 = 0" unfolding T1 by (simp add: update_levels_below assms(1) set_node_def)
  then have left: "nodeAt zs (set_node 0 1 c T1) 0 0 = z" by (simp add: nodeAt_def set_node_def zs_def)
  have "T1 l 1 = 0" for l
    unfolding T1 by (subst update_levels_frame) (simp_all add: assms(1) set_node_def)
  then have "set_node 0 1 c T1 l 1 = 0" if "1 \<le> l" for l using that by (simp add: set_node_def)
  then have "snd (update_levels h zs 19 1 (set_node 0 1 c T1) 0 (h z c)) = spine h zs 19 1 (h z c)"
    by (rule update_levels_spine)
  moreover have "r2 = snd (update_levels h zs 19 1 (set_node 0 1 c T1) 0 (h z c))"
    using arg_cong [OF assms(4), of snd] left D [of T1 1 c] by (simp add: zs_def)
  ultimately show ?thesis by (simp add: zs_def)
qed

text \<open>
  C27: The contract accepts the commitment 0, and reads a stored 0 as an empty leaf. After it has been
  registered, the next registration makes \<open>currentRoot\<close> differ from the root every replaying gateway
  and client computes, for any collision-free hash: the storage-proof provider and the event-log
  provider then trust disjoint roots.
\<close>

theorem zero_commitment_splits_roots:
  assumes "\<And>a b a' b'. se_hash e a b = se_hash e a' b' \<Longrightarrow> a = a' \<and> b = b'" "se_zero e \<noteq> 0"
    and "group_ok e gl" "staked_constructor e b u mu [] [] = Inr st0" "c \<noteq> 0"
    and "chain_run (staked_step e) [Register 0 DEFAULT_TIER b, Register c DEFAULT_TIER b] st0 = (st, evs)" "mined ps evs logs"
  shows "\<exists>r. reconstructRoot gl logs = Inr (Some r) \<and> r \<noteq> nat_dec (ss_currentRoot st)"
proof -
  let ?h = "se_hash e" and ?z = "se_zero e" and ?T0 = "\<lambda>_ _. 0 :: nat"
  obtain T1 r1 T2 r2 where upd: "updateLeaf ?h (zeroes ?h ?z) ?T0 0 0 = (T1, r1)" "updateLeaf ?h (zeroes ?h ?z) T1 1 c = (T2, r2)"
    by (metis surj_pair)
  have st0: "ss_bondOf st0 DEFAULT_TIER = b" "b \<noteq> 0" "ss_nextIndex st0 = 0" "ss_members st0 = (\<lambda>_. no_member)" "ss_treeNode st0 = ?T0"
    using assms(4) by (auto simp: staked_constructor_def split: if_splits)
  have evs: "evs = [MemberRegistered 0 0 DEFAULT_TIER, MemberRegistered c 1 DEFAULT_TIER]" and root: "ss_currentRoot st = r2"
    using assms(5,6) upd st0 by (auto simp: staked_register_def staked_update_def no_member_def Let_def)
  have leaves: "apply_events ?z evs empty_set = \<lparr>ls_leaves = [0, c], ls_live = [0 \<mapsto> 0, c \<mapsto> 1]\<rparr>"
    using assms(5) by (simp add: evs empty_set_def)
  obtain g where g: "reconstructGroup gl None logs = Inr g" "replay_ok g" "replay_view g = \<lparr>ls_leaves = [0, c], ls_live = [0 \<mapsto> 0, c \<mapsto> 1]\<rparr>"
    using reconstruct_mined [OF assms(3,7), of None] leaves by (auto simp: TREE_DEPTH_def)
  have "rp_members g = [0, c]" "map_of (rp_liveIndex g) 0 = Some 0" using g(3) assms(5) by (simp_all add: replay_view_def)
  then have "replay_root gl g = Some (nat_dec (merkle_root ?h ?z [0, c]))"
    using g(2) assms(3) by (auto simp: replay_root_def replay_ok_def group_ok_def)
  moreover have "merkle_root ?h ?z [0, c] = spine ?h (zeroes ?h ?z) 19 1 (?h 0 c)"
    using merkle_spine [of "leaf_at ?z [0, c]" ?z ?h 0 19] by (simp add: merkle_root_def TREE_DEPTH_def leaf_at_def)
  moreover have "r2 = spine ?h (zeroes ?h ?z) 19 1 (?h ?z c)"
    using zero_leaf_root [OF refl assms(5) upd] .
  moreover have "spine ?h (zeroes ?h ?z) 19 1 (?h 0 c) \<noteq> spine ?h (zeroes ?h ?z) 19 1 (?h ?z c)"
  proof
    assume "spine ?h (zeroes ?h ?z) 19 1 (?h 0 c) = spine ?h (zeroes ?h ?z) 19 1 (?h ?z c)"
    then have "?h 0 c = ?h ?z c" by (rule spine_inj [of ?h, rotated]) (rule assms(1))
    then show False using assms(1) [of 0 c ?z c] assms(2) by simp
  qed
  ultimately show ?thesis using g(1) root by (simp add: reconstructRoot_def)
qed

definition pair_env :: set_env where  \<comment> \<open>an injective hash\<close>
  "pair_env = demo_env\<lparr>se_hash := (\<lambda>a b. Suc (prod_encode (a, b)))\<rparr>"

definition pair_group :: group_lib where
  "pair_group = demo_group\<lparr>gl_root := merkle_root (se_hash pair_env) (se_zero pair_env)\<rparr>"

definition zero_run :: "staked_set \<times> member_event list" where
  "zero_run = chain_run (staked_step pair_env) [Register 0 DEFAULT_TIER 100, Register 6 DEFAULT_TIER 100]
     (projr (staked_constructor pair_env 100 60 60 [] []))"

theorem zero_commitment_splits_roots_witness:
  "\<exists>r. reconstructRoot pair_group (map Some (map2 mk_log [(1, 0), (2, 0)] (snd zero_run))) = Inr (Some r)
     \<and> r \<noteq> nat_dec (ss_currentRoot (fst zero_run))"
proof -
  have con: "staked_constructor pair_env 100 60 60 [] [] = Inr (projr (staked_constructor pair_env 100 60 60 [] []))"
    by (simp add: staked_constructor_def)
  have evs: "snd zero_run = [MemberRegistered 0 0 DEFAULT_TIER, MemberRegistered 6 1 DEFAULT_TIER]"
    by (simp add: zero_run_def staked_constructor_def staked_register_def no_member_def Let_def)
  have lib: "group_ok pair_env pair_group" by (simp add: pair_env_def pair_group_def demo_env_def demo_group_def group_ok_def)
  have inj: "a = a' \<and> b = b'" if "se_hash pair_env a b = se_hash pair_env a' b'" for a b a' b'
    using that by (simp add: pair_env_def)
  have z: "se_zero pair_env \<noteq> 0" by (simp add: pair_env_def demo_env_def)
  have run: "chain_run (staked_step pair_env) [Register 0 DEFAULT_TIER 100, Register 6 DEFAULT_TIER 100]
      (projr (staked_constructor pair_env 100 60 60 [] [])) = (fst zero_run, snd zero_run)"
    unfolding zero_run_def by (rule prod.collapse [symmetric])
  have min: "mined [(1, 0), (2, 0)] (snd zero_run) (map Some (map2 mk_log [(1, 0), (2, 0)] (snd zero_run)))"
    by (simp add: mined_def evs)
  have six: "(6 :: nat) \<noteq> 0" by simp
  show ?thesis by (rule zero_commitment_splits_roots [OF inj z lib con six run min])
qed

end
