(* ===== verification/LogFetch.thy ===== *)
theory LogFetch
  imports Replay
begin

text \<open>
  The paged \<open>eth_getLogs\<close> of \<^verbatim>\<open>src/lib/root-provider.mjs\<close>: which errors mean that a block range
  was too wide, the loop that halves the window on such an error, and \<open>fetchMemberLogs\<close>, which
  resolves the end of the range once. The endpoint is a function from the number of the call and the
  range to its answer, so it may change its mind between calls; \<open>None\<close> is a JSON \<open>null\<close>.
\<close>

section \<open>Range errors\<close>

text \<open>The regular expressions of \<open>LOG_RANGE_ERROR_PATTERNS\<close>: literals, alternatives, and \<open>[\d,]+\<close>.\<close>

datatype rx = Lit string | Alt "string list" | Digits

definition digit_or_comma :: "char \<Rightarrow> bool" where
  "digit_or_comma c \<longleftrightarrow> is_digit c \<or> c = CHR '',''"

function rx_match :: "rx list \<Rightarrow> string \<Rightarrow> bool" where
  "rx_match [] s = True"
| "rx_match (Lit p # rs) s = (starts_with s p \<and> rx_match rs (drop (length p) s))"
| "rx_match (Alt ps # rs) s = list_ex (\<lambda>p. starts_with s p \<and> rx_match rs (drop (length p) s)) ps"
| "rx_match (Digits # rs) [] = False"
| "rx_match (Digits # rs) (c # s) = (digit_or_comma c \<and> (rx_match rs s \<or> rx_match (Digits # rs) s))"
  by pat_completeness auto
termination by (relation "measures [\<lambda>(rs, s). length rs, \<lambda>(rs, s). length s]") auto

fun rx_test :: "rx list \<Rightarrow> string \<Rightarrow> bool" where  \<comment> \<open>\<open>re.test(s)\<close>: a match at any position\<close>
  "rx_test rs [] = rx_match rs []"
| "rx_test rs (c # s) = (rx_match rs (c # s) \<or> rx_test rs s)"

definition LOG_RANGE_ERROR_PATTERNS :: "rx list list" where
  "LOG_RANGE_ERROR_PATTERNS =
    [[Lit ''block range''],
     [Lit ''exceed'', Alt [''s'', ''ed'', ''''], Lit '' max'', Alt [''imum'', '''']],
     [Lit ''range '', Alt [''is '', ''''], Lit ''too '', Alt [''large'', ''wide'', ''big'']],
     [Alt [''more than'', ''over''], Lit '' '', Digits, Lit '' '', Alt [''results'', ''logs'']],
     [Lit ''response size '', Alt [''exceeded'', ''should not'', ''too large'', ''limit'']],
     [Lit ''too many '', Alt [''results'', ''logs'', ''blocks'']],
     [Lit ''query timeout''],
     [Lit ''limited to '', Alt [''a'', ''''], Alt ['' '', ''''], Digits, Lit '' '', Alt [''blocks '', ''block '', ''''], Lit ''range''],
     [Lit ''limit exceeded'']]"

fun rpc_message :: "exn \<Rightarrow> string" where
  "rpc_message (Error m) = m"
| "rpc_message _ = ''''"

definition isLogRangeError :: "exn \<Rightarrow> bool" where  \<comment> \<open>the patterns are case-insensitive\<close>
  "isLogRangeError e \<longleftrightarrow> list_ex (\<lambda>re. rx_test re (js_lower (rpc_message e))) LOG_RANGE_ERROR_PATTERNS"

section \<open>The paging loop\<close>

type_synonym logs_rpc = "nat \<Rightarrow> nat \<Rightarrow> nat \<Rightarrow> raw_log list option res"  \<comment> \<open>call number, first and last block\<close>

definition LOGS_CHUNK_FLOOR :: nat where "LOGS_CHUNK_FLOOR = 8"

definition or_empty :: "'a list option \<Rightarrow> 'a list" where  \<comment> \<open>\<open>part || []\<close>\<close>
  "or_empty p = (case p of Some xs \<Rightarrow> xs | None \<Rightarrow> [])"

text \<open>The window is at least one block, so its last block is \<open>cursor + (size - 1)\<close>.\<close>

function fetch_windows :: "logs_rpc \<Rightarrow> nat \<Rightarrow> nat \<Rightarrow> nat \<Rightarrow> nat \<Rightarrow> raw_log list res" where
  "fetch_windows rpc to k cursor win =
     (if to < cursor then Inr []
      else let hi = min to (cursor + (win - 1)) in
        case rpc k cursor hi of
          Inr part \<Rightarrow> bind_res (fetch_windows rpc to (Suc k) (hi + 1) win) (\<lambda>rest. Inr (or_empty part @ rest))
        | Inl e \<Rightarrow>
            if \<not> isLogRangeError e \<or> win \<le> LOGS_CHUNK_FLOOR then Inl e
            else fetch_windows rpc to (Suc k) cursor (max LOGS_CHUNK_FLOOR (win div 2)))"
  by pat_completeness auto
termination
  by (relation "measures [\<lambda>(rpc, to, k, cursor, win). Suc to - cursor, \<lambda>(rpc, to, k, cursor, win). win]")
    (auto simp: LOGS_CHUNK_FLOOR_def)

declare fetch_windows.simps [simp del]

definition fetchLogsChunked :: "logs_rpc \<Rightarrow> nat \<Rightarrow> nat \<Rightarrow> nat \<Rightarrow> nat \<Rightarrow> raw_log list res" where
  "fetchLogsChunked rpc k from to chunk = fetch_windows rpc to k from (max 1 chunk)"

datatype block_arg = BNum nat | BStr string

definition asBlockNumber :: "block_arg \<Rightarrow> nat option" where
  "asBlockNumber v = (case v of
       BNum n \<Rightarrow> Some n
     | BStr t \<Rightarrow> (let s = js_trim t in
         if (starts_with s ''0x'' \<and> drop 2 s \<noteq> [] \<and> list_all (\<lambda>c. radix_digit c < 16) (drop 2 s)) \<or> all_digits s
         then map_option nat (bigint_of_string s)
         else if s = ''earliest'' then Some 0 else None))"

text \<open>
  \<open>fetchMemberLogs\<close>: the head is read (\<open>resolve\<close>, \<open>None\<close> when that fails or finds no block)
  only for a tag. \<open>tagged\<close> is the single call made when the tag stays unresolved. A single window
  returns the RPC's value as it is, \<open>null\<close> included.
\<close>

definition fetchMemberLogs ::
  "logs_rpc \<Rightarrow> raw_log list option res \<Rightarrow> nat option \<Rightarrow> block_arg \<Rightarrow> block_arg \<Rightarrow> nat \<Rightarrow> raw_log list option res" where
  "fetchMemberLogs rpc tagged resolve fromBlock toBlock chunk =
     (let from = (case asBlockNumber fromBlock of Some n \<Rightarrow> n | None \<Rightarrow> 0);
          to = (case asBlockNumber toBlock of Some n \<Rightarrow> Some n | None \<Rightarrow> resolve)
      in case to of
           None \<Rightarrow> tagged
         | Some t \<Rightarrow>
             if int t - int from + 1 \<le> int chunk then
               (case rpc 0 from t of
                  Inr single \<Rightarrow> Inr single
                | Inl e \<Rightarrow>
                    if \<not> isLogRangeError e \<or> chunk \<le> LOGS_CHUNK_FLOOR then Inl e
                    else bind_res (fetchLogsChunked rpc 1 from t (max LOGS_CHUNK_FLOOR (chunk div 2))) (\<lambda>ls. Inr (Some ls)))
             else bind_res (fetchLogsChunked rpc 0 from t chunk) (\<lambda>ls. Inr (Some ls)))"

section \<open>Paging returns what one call would\<close>

definition in_blocks :: "nat \<Rightarrow> nat \<Rightarrow> raw_log \<Rightarrow> bool" where
  "in_blocks a b l \<longleftrightarrow> (case l of Some x \<Rightarrow> a \<le> lg_block x \<and> lg_block x \<le> b | None \<Rightarrow> False)"

definition block_ordered :: "raw_log list \<Rightarrow> bool" where
  "block_ordered chain \<longleftrightarrow> None \<notin> set chain \<and> sorted (map (lg_block \<circ> the) chain)"

text \<open>An endpoint that, whenever it answers, answers with the logs of the range.\<close>

definition honest :: "logs_rpc \<Rightarrow> raw_log list \<Rightarrow> bool" where
  "honest rpc chain \<longleftrightarrow> (\<forall>k a b part. rpc k a b = Inr part \<longrightarrow> or_empty part = filter (in_blocks a b) chain)"

text \<open>An endpoint that refuses only with a range error, and never a window of at most 8 blocks.\<close>

definition accepts_small :: "logs_rpc \<Rightarrow> bool" where
  "accepts_small rpc \<longleftrightarrow> (\<forall>k a b e. rpc k a b = Inl e \<longrightarrow> isLogRangeError e \<and> a + LOGS_CHUNK_FLOOR \<le> b)"

lemma in_blocks_simps [simp]:
  "in_blocks a b (Some x) \<longleftrightarrow> a \<le> lg_block x \<and> lg_block x \<le> b" "\<not> in_blocks a b None"
  by (simp_all add: in_blocks_def)

lemma filter_blocks_split:
  assumes "block_ordered chain" "a \<le> m" "m \<le> b"
  shows "filter (in_blocks a m) chain @ filter (in_blocks (Suc m) b) chain = filter (in_blocks a b) chain"
  using assms(1)
proof (induction chain)
  case (Cons l chain)
  then obtain x where x: "l = Some x" and rest: "block_ordered chain" and least: "\<forall>y\<in>set chain. lg_block x \<le> lg_block (the y)"
    by (cases l) (auto simp: block_ordered_def)
  show ?case
  proof (cases "lg_block x \<le> m")
    case True
    then show ?thesis using Cons.IH [OF rest] assms(2,3) by (auto simp: x)
  next
    case False
    have "filter (in_blocks a m) chain = []"
      using False least by (auto simp: filter_empty_conv in_blocks_def split: option.splits)
    then show ?thesis using Cons.IH [OF rest] assms(2,3) False by (auto simp: x)
  qed
qed simp

lemma honestD: "honest rpc chain \<Longrightarrow> rpc k a b = Inr part \<Longrightarrow> or_empty part = filter (in_blocks a b) chain"
  by (simp add: honest_def)

lemma filter_blocks_empty: "to < cursor \<Longrightarrow> filter (in_blocks cursor to) chain = []"
  by (auto simp: filter_empty_conv in_blocks_def split: option.splits)

lemma fetch_windows_sound:
  assumes "honest rpc chain" "block_ordered chain"
  shows "fetch_windows rpc to k cursor win = Inr ls \<Longrightarrow> ls = filter (in_blocks cursor to) chain"
  using assms(1)
proof (induction rpc to k cursor win arbitrary: ls rule: fetch_windows.induct)
  case (1 rpc to k cursor win)
  show ?case
  proof (cases "to < cursor")
    case True
    then show ?thesis using "1.prems" by (simp add: fetch_windows.simps filter_blocks_empty)
  next
    case False
    define hi where "hi = min to (cursor + (win - 1))"
    have bounds: "cursor \<le> hi" "hi \<le> to" using False by (simp_all add: hi_def)
    show ?thesis
    proof (cases "rpc k cursor hi")
      case (Inr part)
      with "1.prems" False obtain rest where rest: "fetch_windows rpc to (Suc k) (Suc hi) win = Inr rest" "ls = or_empty part @ rest"
        by (auto simp: fetch_windows.simps [of rpc to k] Let_def hi_def bind_res_Inr_iff)
      have "rest = filter (in_blocks (Suc hi) to) chain"
        using "1.IH"(2) [OF False hi_def, of part rest] Inr rest(1) "1.prems"(2) by simp
      then show ?thesis
        using rest(2) honestD [OF "1.prems"(2) Inr] filter_blocks_split [OF assms(2) bounds] by simp
    next
      case (Inl e)
      with "1.prems" False have "\<not> (\<not> isLogRangeError e \<or> win \<le> LOGS_CHUNK_FLOOR)"
        and again: "fetch_windows rpc to (Suc k) cursor (max LOGS_CHUNK_FLOOR (win div 2)) = Inr ls"
        by (auto simp: fetch_windows.simps [of rpc to k] Let_def hi_def split: if_splits)
      then show ?thesis using "1.IH"(1) [OF False hi_def, of e ls] Inl "1.prems"(2) by simp
    qed
  qed
qed

lemma fetch_windows_total:
  assumes "accepts_small rpc"
  shows "1 \<le> win \<Longrightarrow> \<exists>ls. fetch_windows rpc to k cursor win = Inr ls"
  using assms
proof (induction rpc to k cursor win rule: fetch_windows.induct)
  case (1 rpc to k cursor win)
  show ?case
  proof (cases "to < cursor")
    case True
    then show ?thesis by (simp add: fetch_windows.simps)
  next
    case False
    define hi where "hi = min to (cursor + (win - 1))"
    show ?thesis
    proof (cases "rpc k cursor hi")
      case (Inr part)
      with "1.IH"(2) [OF False hi_def] "1.prems" False show ?thesis
        by (auto simp: fetch_windows.simps [of rpc to k] Let_def hi_def)
    next
      case (Inl e)
      then have "isLogRangeError e" "cursor + LOGS_CHUNK_FLOOR \<le> hi" using "1.prems"(2) by (auto simp: accepts_small_def)
      then have big: "isLogRangeError e" "\<not> win \<le> LOGS_CHUNK_FLOOR" by (auto simp: hi_def LOGS_CHUNK_FLOOR_def)
      with "1.IH"(1) [OF False hi_def] Inl "1.prems"(2)
      have "\<exists>ls. fetch_windows rpc to (Suc k) cursor (max LOGS_CHUNK_FLOOR (win div 2)) = Inr ls"
        by (auto simp: LOGS_CHUNK_FLOOR_def)
      with Inl big False show ?thesis by (simp add: fetch_windows.simps [of rpc to k] Let_def hi_def)
    qed
  qed
qed

text \<open>
  C24: Paging is invisible. Against an endpoint that answers with the logs of the range it is asked
  for, refuses windows for their size only, in one of the known wordings, and never refuses one of 8
  blocks or fewer, \<open>fetchMemberLogs\<close> returns exactly the logs of the whole range in chain order, for
  every configured window of at least 9 blocks: the halving loop ends, loses nothing at a window
  boundary and repeats nothing.
\<close>

theorem paged_fetch_complete:
  assumes "honest rpc chain" "block_ordered chain" "accepts_small rpc" "LOGS_CHUNK_FLOOR < chunk"
    and "asBlockNumber fromBlock = Some a" "asBlockNumber toBlock = Some b"
  shows "\<exists>r. fetchMemberLogs rpc tagged resolve fromBlock toBlock chunk = Inr r \<and> or_empty r = filter (in_blocks a b) chain"
proof -
  have pages: "\<exists>ls. fetchLogsChunked rpc k a b c = Inr ls \<and> ls = filter (in_blocks a b) chain" for k c
    using fetch_windows_total [OF assms(3), of "max 1 c" b k a] fetch_windows_sound [OF assms(1,2), of b k a "max 1 c"]
    by (auto simp: fetchLogsChunked_def)
  show ?thesis
  proof (cases "rpc 0 a b")
    case (Inl e)
    then have "isLogRangeError e" using assms(3) by (auto simp: accepts_small_def)
    with Inl pages [of 1 "max LOGS_CHUNK_FLOOR (chunk div 2)"] pages [of 0 chunk] assms(4-6)
    show ?thesis by (auto simp: fetchMemberLogs_def or_empty_def)
  next
    case (Inr r)
    then show ?thesis using honestD [OF assms(1) Inr] pages [of 0 chunk] assms(5,6)
      by (auto simp: fetchMemberLogs_def or_empty_def)
  qed
qed

definition demo_chain :: "raw_log list" where
  "demo_chain = map (\<lambda>b. Some (mk_log (b, 0) (MemberRegistered b 0 8))) [3, 20, 41]"

definition capped_rpc :: logs_rpc where
  "capped_rpc k a b = (if a + 10 \<le> b then Inl (Error ''exceed maximum block range: 10'') else Inr (Some (filter (in_blocks a b) demo_chain)))"

theorem paged_fetch_complete_witness:
  "\<exists>r. fetchMemberLogs capped_rpc (Inl TypeError) None (BNum 2) (BStr ''0x28'') 10000 = Inr r \<and> map (lg_block \<circ> the) (or_empty r) = [3, 20]"
proof -
  have "isLogRangeError (Error ''exceed maximum block range: 10'')"
    by (simp add: isLogRangeError_def LOG_RANGE_ERROR_PATTERNS_def js_lower_def lower_char_def Let_def starts_with_def)
  then have "accepts_small capped_rpc" by (auto simp: accepts_small_def capped_rpc_def LOGS_CHUNK_FLOOR_def split: if_splits)
  moreover have "honest capped_rpc demo_chain" by (auto simp: honest_def capped_rpc_def or_empty_def split: if_splits)
  moreover have "block_ordered demo_chain" by (simp add: block_ordered_def demo_chain_def mk_log_def)
  moreover have "asBlockNumber (BStr ''0x28'') = Some 40" by code_simp
  moreover have "asBlockNumber (BNum 2) = Some 2" by (simp add: asBlockNumber_def)
  ultimately show ?thesis
    using paged_fetch_complete [of capped_rpc demo_chain 10000 "BNum 2" 2 "BStr ''0x28''" 40 "Inl TypeError" None]
    by (auto simp: LOGS_CHUNK_FLOOR_def demo_chain_def in_blocks_def mk_log_def)
qed

end
