(* ===== verification/RootProvider.thy ===== *)
theory RootProvider
  imports LogFetch Roots
begin

text \<open>
  The providers of admission roots, \<^verbatim>\<open>src/lib/root-provider.mjs\<close>: the configured contracts, the
  ring of recently superseded roots, the last-known-good cache, the event-log provider with its
  incremental scan, the union of several providers and the polling that notifies the gateway. Every
  reading of the clock is an argument: \<open>clk i\<close> is the i-th reading of one refresh.
\<close>

section \<open>Configuration\<close>

fun dedupe_addresses :: "string list \<Rightarrow> string list \<Rightarrow> string list" where
  "dedupe_addresses seen [] = []"
| "dedupe_addresses seen (part # parts) =
     (let a = js_trim part in
      if a = [] \<or> js_lower a \<in> set seen then dedupe_addresses seen parts
      else a # dedupe_addresses (js_lower a # seen) parts)"

definition parseContractList :: "string option \<Rightarrow> string list" where
  "parseContractList spec = dedupe_addresses [] (split_on CHR '','' (case spec of Some s \<Rightarrow> s | None \<Rightarrow> []))"

definition same_address :: "string \<Rightarrow> string \<Rightarrow> bool" where
  "same_address a b \<longleftrightarrow> js_lower a = js_lower b"

fun tag_paid :: "string \<Rightarrow> root_contract list \<Rightarrow> root_contract list" where  \<comment> \<open>retag the first duplicate, else append\<close>
  "tag_paid a [] = [\<lparr>rc_address = a, rc_kind = ''paid''\<rparr>]"
| "tag_paid a (c # cs) = (if same_address (rc_address c) a then c\<lparr>rc_kind := ''paid''\<rparr> # cs else c # tag_paid a cs)"

definition configuredContracts :: "env \<Rightarrow> root_contract list" where
  "configuredContracts env = fold tag_paid (parseContractList (env ''SHADE_TREE_PAID_ACCESS_CONTRACT''))
     (map (\<lambda>a. \<lparr>rc_address = a, rc_kind = ''staked''\<rparr>) (parseContractList (env ''SHADE_TREE_GROUP_CONTRACT'')))"

text \<open>\<open>deployed\<close> is the parsed \<open>deployed.local.json\<close>, an error when it cannot be read.\<close>

definition resolveContract :: "env \<Rightarrow> jsval res \<Rightarrow> string option \<Rightarrow> jsval" where
  "resolveContract env deployed explicit =
     (case explicit of
        Some (c # cs) \<Rightarrow> JStr (c # cs)
      | _ \<Rightarrow>
        if truthy (env_val env ''SHADE_TREE_GROUP_CONTRACT'')
        then JStr (case parseContractList (env ''SHADE_TREE_GROUP_CONTRACT'') of a # _ \<Rightarrow> a | [] \<Rightarrow> [])
        else (case deployed of
            Inl _ \<Rightarrow> JStr []
          | Inr raw \<Rightarrow>
              if nullish raw then JStr []
              else let cs = getp raw ''contracts'' in
                js_or (getp raw ''stakedReputationSet'') (js_or (getp raw ''StakedReputationSet'') (js_or (getp raw ''address'')
                  (js_or (getp raw ''group'') (js_or
                    (if truthy cs then js_or (getp cs ''StakedReputationSet'') (getp cs ''stakedReputationSet'') else cs) (JStr [])))))))"

datatype root_mode = NodeProvider | LightProvider

definition makeSingleProvider :: "env \<Rightarrow> string \<Rightarrow> root_mode res" where
  "makeSingleProvider env mode =
     (if mode = ''light'' then Inr LightProvider
      else if mode = ''node'' then
        (if truthy (env_val env ''SHADE_TREE_HELIOS_RPC_URL'')
         then Inl (Error ''SHADE_TREE_HELIOS_RPC_URL is set but SHADE_TREE_ROOT_PROVIDER=node'')
         else Inr NodeProvider)
      else Inl (Error (''unknown SHADE_TREE_ROOT_PROVIDER: '' @ mode)))"

datatype root_provider = Single root_mode "string option" | Composite "(root_mode \<times> string) list"

definition makeRootProvider :: "env \<Rightarrow> string \<Rightarrow> string list option \<Rightarrow> root_provider res" where
  "makeRootProvider env mode contracts =
     (let xs = (case contracts of Some l \<Rightarrow> l | None \<Rightarrow> map rc_address (configuredContracts env)) in
      if length xs \<le> 1 then bind_res (makeSingleProvider env mode) (\<lambda>k. Inr (Single k (case xs of a # _ \<Rightarrow> Some a | [] \<Rightarrow> None)))
      else bind_res (map_res (\<lambda>a. bind_res (makeSingleProvider env mode) (\<lambda>k. Inr (k, a))) xs) (\<lambda>ks. Inr (Composite ks)))"

section \<open>The ring of fresh roots\<close>

record root_ring =
  rr_initialized :: bool
  rr_current :: "string option"
  rr_retired :: "(string \<times> int) list"  \<comment> \<open>newest first, with the time of retirement\<close>

definition makeFreshRootRing :: root_ring where
  "makeFreshRootRing = \<lparr>rr_initialized = False, rr_current = None, rr_retired = []\<rparr>"

fun collect_roots :: "int option \<Rightarrow> string list \<Rightarrow> (string \<times> int) list \<Rightarrow> string list" where
  "collect_roots maxRoots roots [] = roots"
| "collect_roots maxRoots roots ((r, _) # es) =
     (if (case maxRoots of Some m \<Rightarrow> m \<le> int (length roots) | None \<Rightarrow> False) then roots
      else collect_roots maxRoots (if r \<in> set roots then roots else roots @ [r]) es)"

definition ring_next :: "string option \<Rightarrow> string option" where  \<comment> \<open>\<open>root == null || root === ""\<close>\<close>
  "ring_next root = (case root of Some [] \<Rightarrow> None | r \<Rightarrow> r)"

definition still_fresh :: "int \<Rightarrow> int \<Rightarrow> string \<times> int \<Rightarrow> bool" where
  "still_fresh F now' entry \<longleftrightarrow> now' - snd entry \<le> F"

definition retire :: "int \<Rightarrow> string option \<Rightarrow> root_ring \<Rightarrow> (string \<times> int) list" where  \<comment> \<open>\<open>retired.unshift(...)\<close> when the root moved\<close>
  "retire now' nxt ring =
     (case rr_current ring of
        Some c \<Rightarrow> if rr_initialized ring \<and> nxt \<noteq> Some c then (c, now') # rr_retired ring else rr_retired ring
      | None \<Rightarrow> rr_retired ring)"

definition pushRoot :: "int option \<Rightarrow> int \<Rightarrow> int \<Rightarrow> string option \<Rightarrow> root_ring \<Rightarrow> root_ring \<times> string list" where
  "pushRoot maxRoots F now' root ring =
     (let nxt = ring_next root; kept = filter (still_fresh F now') (retire now' nxt ring)
      in (\<lparr>rr_initialized = True, rr_current = nxt, rr_retired = kept\<rparr>,
          collect_roots maxRoots (case nxt of Some c \<Rightarrow> [c] | None \<Rightarrow> []) kept))"

text \<open>The abstract view: which root was superseded when, in a sequence of observations.\<close>

type_synonym observations = "(int \<times> string option) list"  \<comment> \<open>oldest first\<close>

fun superseded :: "observations \<Rightarrow> (string \<times> int) list" where
  "superseded ((t, x) # (u, y) # H) =
     (case x of Some r \<Rightarrow> if y = Some r then [] else [(r, u)] | None \<Rightarrow> []) @ superseded ((u, y) # H)"
| "superseded _ = []"

definition ring_pushes :: "int option \<Rightarrow> int \<Rightarrow> observations \<Rightarrow> root_ring \<times> string list \<Rightarrow> root_ring \<times> string list" where
  "ring_pushes maxRoots F H s = fold (\<lambda>(t, x) (ring, _). pushRoot maxRoots F t x ring) H s"

lemma superseded_snoc:
  "H \<noteq> [] \<Longrightarrow> superseded (H @ [(u, y)]) =
     superseded H @ (case snd (last H) of Some r \<Rightarrow> if y = Some r then [] else [(r, u)] | None \<Rightarrow> [])"
  by (induction H rule: superseded.induct) auto

lemma set_collect: "set (collect_roots maxRoots roots es) \<subseteq> set roots \<union> fst ` set es"
  by (induction maxRoots roots es rule: collect_roots.induct) (fastforce split: option.splits if_splits)+

lemma set_collect_uncapped: "set (collect_roots None roots es) = set roots \<union> fst ` set es"
  by (induction "None :: int option" roots es rule: collect_roots.induct) (auto split: if_splits)

lemma collect_head: "roots \<noteq> [] \<Longrightarrow> collect_roots maxRoots roots es \<noteq> [] \<and> hd (collect_roots maxRoots roots es) = hd roots"
  by (induction maxRoots roots es rule: collect_roots.induct) (auto split: option.splits)

lemma pushRoot_fields:
  "rr_initialized (fst (pushRoot m F t x ring)) \<and> rr_current (fst (pushRoot m F t x ring)) = ring_next x"
  by (simp add: pushRoot_def Let_def)

lemma ring_next_id: "x \<noteq> Some [] \<Longrightarrow> ring_next x = x"
  by (auto simp: ring_next_def split: option.split list.split)

text \<open>The ring of a sequence of observations at non-decreasing times, exactly.\<close>

lemma ring_exact_state:
  assumes "H \<noteq> []" "sorted (map fst H)" "\<And>t. (t, Some []) \<notin> set H"
  shows "ring_pushes m F H (makeFreshRootRing, roots0) =
    (\<lparr>rr_initialized = True, rr_current = snd (last H), rr_retired = filter (still_fresh F (fst (last H))) (rev (superseded H))\<rparr>,
     collect_roots m (case snd (last H) of Some c \<Rightarrow> [c] | None \<Rightarrow> []) (filter (still_fresh F (fst (last H))) (rev (superseded H))))"
  using assms
proof (induction H rule: rev_nonempty_induct)
  case (single x)
  obtain u y where x: "x = (u, y)" by (cases x)
  with single have "ring_next y = y" by (auto intro: ring_next_id)
  then show ?case by (simp add: x ring_pushes_def pushRoot_def retire_def makeFreshRootRing_def Let_def)
next
  case (snoc x H)
  obtain u y where x: "x = (u, y)" by (cases x)
  have y: "ring_next y = y" using snoc.prems(2) [of u] by (auto simp: x intro: ring_next_id)
  have le: "fst (last H) \<le> u" using snoc.prems(1) snoc.hyps by (simp add: x sorted_append)
  have IH: "fst (ring_pushes m F H (makeFreshRootRing, roots0)) = \<lparr>rr_initialized = True, rr_current = snd (last H),
      rr_retired = filter (still_fresh F (fst (last H))) (rev (superseded H))\<rparr>"
    using snoc by (simp add: sorted_append)
  have drop: "filter (\<lambda>x. still_fresh F (fst (last H)) x \<and> still_fresh F u x) es = filter (still_fresh F u) es" for es
    using le by (auto simp: still_fresh_def intro!: filter_cong)
  have kept: "filter (still_fresh F u) (retire u y (fst (ring_pushes m F H (makeFreshRootRing, roots0))))
      = filter (still_fresh F u) (rev (superseded (H @ [(u, y)])))"
    unfolding IH by (cases "snd (last H)") (simp_all add: retire_def superseded_snoc [OF snoc.hyps] drop)
  have "ring_pushes m F (H @ [x]) (makeFreshRootRing, roots0)
      = pushRoot m F u y (fst (ring_pushes m F H (makeFreshRootRing, roots0)))"
    by (simp add: ring_pushes_def x split: prod.split)
  then show ?case
    by (simp add: pushRoot_def Let_def y kept) (simp add: x)
qed

text \<open>
  C23: The ring implements its abstract specification. After any sequence of observed roots at
  non-decreasing times it offers, with no count cap, exactly the current root and every root that was
  superseded at most \<open>F\<close> ago: none is kept longer when the chain is quiet, none is evicted by a
  burst of changes.
\<close>

theorem ring_refines_window:
  assumes "H \<noteq> []" "sorted (map fst H)" "\<And>t. (t, Some []) \<notin> set H"
  shows "set (snd (ring_pushes None F H (makeFreshRootRing, []))) =
    {r. snd (last H) = Some r} \<union> {r. \<exists>\<rho>. (r, \<rho>) \<in> set (superseded H) \<and> fst (last H) - \<rho> \<le> F}"
  unfolding ring_exact_state [OF assms] by (force simp: set_collect_uncapped still_fresh_def split: option.splits)

definition demo_observations :: observations where
  "demo_observations = [(0, Some ''A''), (10, Some ''B''), (30, Some ''C''), (80, Some ''D'')]"

theorem ring_refines_window_witness:
  "''B'' \<in> set (snd (ring_pushes None 60 demo_observations (makeFreshRootRing, [])))
   \<and> ''A'' \<notin> set (snd (ring_pushes None 60 demo_observations (makeFreshRootRing, [])))"
proof -
  have "superseded demo_observations = [(''A'', 10), (''B'', 30), (''C'', 80)]" by (simp add: demo_observations_def)
  moreover have "last demo_observations = (80, Some ''D'')" by (simp add: demo_observations_def)
  ultimately show ?thesis
    using ring_refines_window [of demo_observations 60] by (simp add: demo_observations_def)
qed

section \<open>Snapshots and the last-known-good cache\<close>

record root_snapshot =
  sn_roots :: "string list"
  sn_observedAtBlock :: "nat option"
  sn_finalized :: bool
  sn_leafCount :: "int option"
  sn_stale :: bool
  sn_error :: "string option"
  sn_perSource :: "root_source list option"
  sn_errors :: "(string \<times> string) list"

definition withCache ::
  "int \<Rightarrow> root_snapshot res \<Rightarrow> int \<Rightarrow> (root_snapshot \<times> int) option \<Rightarrow> (root_snapshot \<times> int) option \<times> root_snapshot res" where
  "withCache maxStale fresh now' lkg =
     (case fresh of
        Inr s \<Rightarrow> (Some (s, now'), Inr s)
      | Inl e \<Rightarrow>
          (case lkg of
             Some (s, fetchedAt) \<Rightarrow>
               if now' - fetchedAt \<le> maxStale
               then (lkg, Inr (s\<lparr>sn_roots := take 1 (sn_roots s), sn_stale := True, sn_error := Some (rpc_message e)\<rparr>))
               else (lkg, Inl e)
           | None \<Rightarrow> (None, Inl e)))"

section \<open>NodeRootProvider\<close>

datatype block_tag = Finalized | LatestTag | AtBlock nat

definition confirmedBlockTag :: "int \<Rightarrow> nat option res \<Rightarrow> block_tag res" where
  "confirmedBlockTag confirmations head =
     (if confirmations \<le> 0 then Inr Finalized
      else bind_res head (\<lambda>h. Inr (case h of None \<Rightarrow> LatestTag | Some n \<Rightarrow> AtBlock (nat (max 0 (int n - confirmations))))))"

record node_cfg =
  nc_confirmations :: int
  nc_maxRoots :: "int option"
  nc_freshness :: int
  nc_from :: block_arg
  nc_chunk :: nat
  nc_group :: group_lib

record node_env =  \<comment> \<open>what one refresh reads: the head, the block at the tag, the logs, the clock\<close>
  ne_head :: "nat option res"
  ne_block :: "nat option res"
  ne_rpc :: logs_rpc
  ne_tagged :: "raw_log list option res"
  ne_resolve :: "nat option"
  ne_clk :: "nat \<Rightarrow> int"

type_synonym scan = "(nat \<times> raw_log list option) option"  \<comment> \<open>\<open>scanned\<close>: the last block, the logs up to it\<close>

record node_state =
  nd_ring :: root_ring
  nd_scanned :: scan
  nd_lastSuccessfulAt :: "int option"
  nd_lkg :: "(root_snapshot \<times> int) option"

definition node_init :: node_state where
  "node_init = \<lparr>nd_ring = makeFreshRootRing, nd_scanned = None, nd_lastSuccessfulAt = None, nd_lkg = None\<rparr>"

definition incremental :: "block_tag \<Rightarrow> nat option \<Rightarrow> scan \<Rightarrow> (nat \<times> nat \<times> raw_log list option) option" where
  "incremental tag observed scanned =
     (case (tag, observed, scanned) of
        (Finalized, Some b, Some (to, logs)) \<Rightarrow> if to \<le> b then Some (b, to, logs) else None
      | _ \<Rightarrow> None)"

definition scan_record :: "block_tag \<Rightarrow> nat option \<Rightarrow> raw_log list option \<Rightarrow> scan" where
  "scan_record tag observed logs = (case (tag, observed) of (Finalized, Some b) \<Rightarrow> Some (b, logs) | _ \<Rightarrow> None)"

text \<open>
  The logs of one refresh, with the number already replayed. An error of the fetch drops the scan;
  \<open>scanned.logs.length\<close> on a \<open>null\<close> throws before the \<open>try\<close> and keeps it. \<open>concat(null)\<close>
  appends a \<open>null\<close> entry.
\<close>

definition node_scan :: "node_cfg \<Rightarrow> node_env \<Rightarrow> block_tag \<Rightarrow> nat option \<Rightarrow> scan \<Rightarrow> scan \<times> (raw_log list option \<times> nat option) res" where
  "node_scan cfg env tag observed scanned =
     (let toB = (case observed of Some b \<Rightarrow> BNum b | None \<Rightarrow> (case tag of Finalized \<Rightarrow> BStr ''finalized'' | LatestTag \<Rightarrow> BStr ''latest'' | AtBlock n \<Rightarrow> BNum n));
          fetch = (\<lambda>from. fetchMemberLogs (ne_rpc env) (ne_tagged env) (ne_resolve env) from toB (nc_chunk cfg))
      in case incremental tag observed scanned of
           Some (b, to, None) \<Rightarrow> (scanned, Inl TypeError)
         | Some (b, to, Some old) \<Rightarrow>
             (case (if to < b then fetch (BNum (to + 1)) else Inr (Some [])) of
                Inl e \<Rightarrow> (None, Inl e)
              | Inr fresh \<Rightarrow>
                  let logs = Some (old @ (case fresh of Some f \<Rightarrow> f | None \<Rightarrow> [None]))
                  in (scan_record tag observed logs, Inr (logs, Some (length old))))
         | None \<Rightarrow>
             (case fetch (nc_from cfg) of
                Inl e \<Rightarrow> (None, Inl e)
              | Inr logs \<Rightarrow> (scan_record tag observed logs, Inr (logs, None))))"

definition resetToCurrent :: "node_cfg \<Rightarrow> int \<Rightarrow> block_tag \<Rightarrow> nat option \<Rightarrow> nat option \<Rightarrow> int option \<Rightarrow> bool" where
  "resetToCurrent cfg startedAt tag observed previous lastAt =
     (case lastAt of
        None \<Rightarrow> False
      | Some t \<Rightarrow> startedAt - t > nc_freshness cfg \<or> (tag = Finalized \<and> observed \<noteq> None \<and> previous = None))"

definition to_push :: "group_lib \<Rightarrow> bool \<Rightarrow> replay \<Rightarrow> string option list" where
  "to_push gl reset g = (if reset \<or> rp_transitions g = [] then [replay_root gl g] else rp_transitions g)"

definition stamp :: "(nat \<Rightarrow> int) \<Rightarrow> string option list \<Rightarrow> observations" where  \<comment> \<open>each \<open>pushRoot\<close> reads the clock\<close>
  "stamp clk xs = zip (map (\<lambda>i. clk (Suc i)) [0..<length xs]) xs"

definition node_refresh :: "node_cfg \<Rightarrow> node_env \<Rightarrow> node_state \<Rightarrow> node_state \<times> root_snapshot res \<times> observations" where
  "node_refresh cfg env st =
     (case confirmedBlockTag (nc_confirmations cfg) (ne_head env) of
        Inl e \<Rightarrow> (st, Inl e, [])
      | Inr tag \<Rightarrow>
     (case ne_block env of
        Inl e \<Rightarrow> (st, Inl e, [])
      | Inr observed \<Rightarrow>
     (case node_scan cfg env tag observed (nd_scanned st) of
        (sc, Inl e) \<Rightarrow> (st\<lparr>nd_scanned := sc\<rparr>, Inl e, [])
      | (sc, Inr (None, _)) \<Rightarrow> (st\<lparr>nd_scanned := sc\<rparr>, Inl TypeError, [])
      | (sc, Inr (Some logs, previous)) \<Rightarrow>
     (case reconstructGroup (nc_group cfg) previous logs of
        Inl e \<Rightarrow> (st\<lparr>nd_scanned := sc\<rparr>, Inl e, [])
      | Inr g \<Rightarrow>
          let reset = resetToCurrent cfg (ne_clk env 0) tag observed previous (nd_lastSuccessfulAt st);
              obs = stamp (ne_clk env) (to_push (nc_group cfg) reset g);
              (ring, roots) = ring_pushes (nc_maxRoots cfg) (nc_freshness cfg) obs (if reset then makeFreshRootRing else nd_ring st, [])
          in (st\<lparr>nd_scanned := sc, nd_ring := ring, nd_lastSuccessfulAt := Some (ne_clk env (Suc (length obs)))\<rparr>,
              Inr \<lparr>sn_roots = roots, sn_observedAtBlock = observed, sn_finalized = (tag = Finalized), sn_leafCount = Some (rp_active g),
                sn_stale = False, sn_error = None, sn_perSource = None, sn_errors = []\<rparr>, obs)))))"

definition node_poll :: "node_cfg \<Rightarrow> node_env \<Rightarrow> node_state \<Rightarrow> node_state \<times> root_snapshot res \<times> observations" where  \<comment> \<open>\<open>currentRoots\<close>\<close>
  "node_poll cfg env st =
     (case node_refresh cfg env st of (st1, r, obs) \<Rightarrow>
        let (lkg, out) = withCache (nc_freshness cfg) r
              (case r of Inr _ \<Rightarrow> ne_clk env (2 + length obs) | Inl _ \<Rightarrow> ne_clk env 1) (nd_lkg st1)
        in (st1\<lparr>nd_lkg := lkg\<rparr>, out, obs))"

fun node_run :: "node_cfg \<Rightarrow> node_env list \<Rightarrow> node_state \<times> observations \<Rightarrow> node_state \<times> observations" where
  "node_run cfg [] s = s"
| "node_run cfg (e # es) (st, H) = (case node_poll cfg e st of (st', _, obs) \<Rightarrow> node_run cfg es (st', H @ obs))"

subsection \<open>Which roots are served\<close>

definition window_root :: "int \<Rightarrow> observations \<Rightarrow> string \<Rightarrow> bool" where  \<comment> \<open>current, or superseded at most \<open>F\<close> ago\<close>
  "window_root F H r \<longleftrightarrow> snd (last H) = Some r \<or> (\<exists>\<rho>. (r, \<rho>) \<in> set (superseded H) \<and> fst (last H) - \<rho> \<le> F)"

definition ring_ok :: "observations \<Rightarrow> root_ring \<Rightarrow> bool" where
  "ring_ok H R \<longleftrightarrow> set (rr_retired R) \<subseteq> set (superseded H) \<and> (rr_initialized R \<longrightarrow> H \<noteq> [] \<and> rr_current R = snd (last H))"

definition served_ok :: "int \<Rightarrow> observations \<Rightarrow> string list \<Rightarrow> bool" where
  "served_ok F H roots \<longleftrightarrow> H \<noteq> [] \<and> (\<forall>r\<in>set roots. window_root F H r)
     \<and> (\<forall>c. snd (last H) = Some c \<longrightarrow> roots \<noteq> [] \<and> hd roots = c)"

lemma superseded_mono: "set (superseded H) \<subseteq> set (superseded (H @ [(t, x)]))"
  by (cases "H = []") (auto simp: superseded_snoc)

lemma retire_superseded:
  assumes "ring_ok H R" shows "set (retire t x R) \<subseteq> set (superseded (H @ [(t, x)]))"
proof -
  have old: "set (rr_retired R) \<subseteq> set (superseded (H @ [(t, x)]))"
    using assms superseded_mono [of H t x] by (auto simp: ring_ok_def)
  have "(c, t) \<in> set (superseded (H @ [(t, x)]))" if "rr_initialized R" "rr_current R = Some c" "x \<noteq> Some c" for c
  proof -
    have "H \<noteq> []" "snd (last H) = Some c" using assms that by (simp_all add: ring_ok_def)
    then show ?thesis using that(3) by (simp add: superseded_snoc)
  qed
  with old show ?thesis by (auto simp: retire_def split: option.splits if_splits)
qed

lemma push_ok:
  assumes ok: "ring_ok H R" and x: "x \<noteq> Some []"
  shows "ring_ok (H @ [(t, x)]) (fst (pushRoot m F t x R)) \<and> served_ok F (H @ [(t, x)]) (snd (pushRoot m F t x R))"
proof -
  let ?kept = "filter (still_fresh F t) (retire t x R)"
  have kept: "set ?kept \<subseteq> set (superseded (H @ [(t, x)]))" using retire_superseded [OF ok, of t x] by auto
  have push: "pushRoot m F t x R = (\<lparr>rr_initialized = True, rr_current = x, rr_retired = ?kept\<rparr>,
      collect_roots m (case x of Some c \<Rightarrow> [c] | None \<Rightarrow> []) ?kept)"
    by (simp only: pushRoot_def Let_def ring_next_id [OF x])
  have "window_root F (H @ [(t, x)]) r" if "r \<in> set (collect_roots m (case x of Some c \<Rightarrow> [c] | None \<Rightarrow> []) ?kept)" for r
  proof -
    have "x = Some r \<or> r \<in> fst ` set ?kept" using set_collect that by (fastforce split: option.splits)
    then show ?thesis using kept by (auto simp: window_root_def still_fresh_def)
  qed
  moreover have "snd (pushRoot m F t x R) \<noteq> [] \<and> hd (snd (pushRoot m F t x R)) = c" if "x = Some c" for c
    unfolding push using that collect_head [of "[c]" m ?kept] by simp
  ultimately show ?thesis using kept unfolding push ring_ok_def served_ok_def by simp
qed

lemma ring_pushes_ok:
  assumes "ring_ok H R" "obs \<noteq> []" "Some [] \<notin> snd ` set obs"
  shows "ring_ok (H @ obs) (fst (ring_pushes m F obs (R, roots0))) \<and> served_ok F (H @ obs) (snd (ring_pushes m F obs (R, roots0)))"
  using assms(2,3)
proof (induction obs rule: rev_nonempty_induct)
  case (single x)
  obtain t y where x: "x = (t, y)" by (cases x)
  show ?case using push_ok [OF assms(1), of y t m F] single by (auto simp: x ring_pushes_def)
next
  case (snoc x obs)
  obtain t y where x: "x = (t, y)" by (cases x)
  have "ring_pushes m F (obs @ [x]) (R, roots0) = pushRoot m F t y (fst (ring_pushes m F obs (R, roots0)))"
    by (simp add: ring_pushes_def x split: prod.split)
  moreover have "ring_ok (H @ obs) (fst (ring_pushes m F obs (R, roots0)))" using snoc by (simp add: x)
  moreover have "y \<noteq> Some []" using snoc.prems by (auto simp: x)
  ultimately show ?case using push_ok [of "H @ obs" "fst (ring_pushes m F obs (R, roots0))" y t m F] by (simp add: x)
qed

lemma replay_root_nonempty: "replay_root gl g \<noteq> Some []"
  by (simp add: replay_root_def)

lemma track_nonempty: "Some [] \<notin> set (rp_transitions g) \<Longrightarrow> Some [] \<notin> set (rp_transitions (track gl tf p g))"
  using replay_root_nonempty [of gl g] by (auto simp: track_def split: option.split)

lemma replay_log_nonempty:
  "replay_log gl tf p l g = Inr g' \<Longrightarrow> Some [] \<notin> set (rp_transitions g) \<Longrightarrow> Some [] \<notin> set (rp_transitions g')"
  by (auto simp: replay_log_def Let_def bind_res_Inr_iff track_nonempty split: if_splits option.splits)

lemma replay_from_nonempty:
  "replay_from gl tf p ls g = Inr g' \<Longrightarrow> Some [] \<notin> set (rp_transitions g) \<Longrightarrow> Some [] \<notin> set (rp_transitions g')"
  by (induction gl tf p ls g rule: replay_from.induct) (auto simp: bind_res_Inr_iff dest: replay_log_nonempty)

lemma stamped_roots:
  assumes "reconstructGroup gl tf logs = Inr g"
  shows "stamp clk (to_push gl reset g) \<noteq> [] \<and> Some [] \<notin> snd ` set (stamp clk (to_push gl reset g))"
proof -
  have "Some [] \<notin> set (rp_transitions g)"
    using assms replay_from_nonempty [of gl tf 0 _ empty_replay g]
    by (auto simp: reconstructGroup_def empty_replay_def split: if_splits)
  then have "Some [] \<notin> set (to_push gl reset g)" "to_push gl reset g \<noteq> []"
    using replay_root_nonempty [of gl g] by (auto simp: to_push_def)
  moreover have snds: "map snd (stamp clk xs) = xs" for xs by (simp add: stamp_def)
  moreover have "snd ` set (stamp clk xs) = set xs" for xs using arg_cong [OF snds [of xs], of set] by simp
  ultimately show ?thesis by (metis list.map_disc_iff)
qed

text \<open>A refresh either fails, observing nothing and keeping the ring and the cache, or pushes what it observed.\<close>

lemma node_refresh_cases:
  obtains (failed) sc e where "node_refresh cfg env st = (st\<lparr>nd_scanned := sc\<rparr>, Inl e, [])"
  | (fresh) sc R obs ring roots t s where "obs \<noteq> []" "Some [] \<notin> snd ` set obs" "R = makeFreshRootRing \<or> R = nd_ring st"
      "ring_pushes (nc_maxRoots cfg) (nc_freshness cfg) obs (R, []) = (ring, roots)"
      "node_refresh cfg env st = (st\<lparr>nd_scanned := sc, nd_ring := ring, nd_lastSuccessfulAt := Some t\<rparr>, Inr s, obs)"
      "sn_roots s = roots" "\<not> sn_stale s"
proof (cases "confirmedBlockTag (nc_confirmations cfg) (ne_head env)")
  case (Inl e)
  then have "node_refresh cfg env st = (st\<lparr>nd_scanned := nd_scanned st\<rparr>, Inl e, [])" by (simp add: node_refresh_def)
  then show thesis by (rule failed)
next
  case tag: (Inr tag)
  show thesis
  proof (cases "ne_block env")
    case (Inl e)
    then have "node_refresh cfg env st = (st\<lparr>nd_scanned := nd_scanned st\<rparr>, Inl e, [])" using tag by (simp add: node_refresh_def)
    then show thesis by (rule failed)
  next
    case blk: (Inr observed)
    obtain sc r where scan: "node_scan cfg env tag observed (nd_scanned st) = (sc, r)" by (metis surj_pair)
    show thesis
    proof (cases "\<exists>logs previous g. r = Inr (Some logs, previous) \<and> reconstructGroup (nc_group cfg) previous logs = Inr g")
      case True
      then obtain logs previous g where r: "r = Inr (Some logs, previous)" and g: "reconstructGroup (nc_group cfg) previous logs = Inr g" by blast
      define reset where "reset = resetToCurrent cfg (ne_clk env 0) tag observed previous (nd_lastSuccessfulAt st)"
      define obs where "obs = stamp (ne_clk env) (to_push (nc_group cfg) reset g)"
      define R where "R = (if reset then makeFreshRootRing else nd_ring st)"
      obtain ring roots where push: "ring_pushes (nc_maxRoots cfg) (nc_freshness cfg) obs (R, []) = (ring, roots)" by (metis surj_pair)
      have obs: "obs \<noteq> []" "Some [] \<notin> snd ` set obs" using stamped_roots [OF g, of "ne_clk env" reset] by (simp_all add: obs_def)
      have R: "R = makeFreshRootRing \<or> R = nd_ring st" by (simp add: R_def)
      define s where "s = \<lparr>sn_roots = roots, sn_observedAtBlock = observed, sn_finalized = (tag = Finalized), sn_leafCount = Some (rp_active g),
                sn_stale = False, sn_error = None, sn_perSource = None, sn_errors = []\<rparr>"
      have "node_refresh cfg env st = (st\<lparr>nd_scanned := sc, nd_ring := ring,
          nd_lastSuccessfulAt := Some (ne_clk env (Suc (length obs)))\<rparr>, Inr s, obs)"
        using tag blk scan r g push by (simp add: node_refresh_def Let_def reset_def [symmetric] obs_def [symmetric] R_def [symmetric] s_def)
      then show thesis by (rule fresh [OF obs R push]) (simp_all add: s_def)
    next
      case False
      have "\<exists>e. node_refresh cfg env st = (st\<lparr>nd_scanned := sc\<rparr>, Inl e, [])"
      proof (cases r)
        case (Inl e)
        then show ?thesis using tag blk scan by (simp add: node_refresh_def)
      next
        case (Inr lp)
        obtain lo previous where lp: "lp = (lo, previous)" by (cases lp)
        show ?thesis
        proof (cases lo)
          case None
          then show ?thesis using tag blk scan Inr lp by (simp add: node_refresh_def)
        next
          case (Some logs)
          with False Inr lp obtain e where "reconstructGroup (nc_group cfg) previous logs = Inl e"
            by (cases "reconstructGroup (nc_group cfg) previous logs") auto
          then show ?thesis using tag blk scan Inr lp Some by (simp add: node_refresh_def)
        qed
      qed
      then show thesis using failed by blast
    qed
  qed
qed

definition node_inv :: "int \<Rightarrow> observations \<Rightarrow> node_state \<Rightarrow> bool" where
  "node_inv F H st \<longleftrightarrow> ring_ok H (nd_ring st) \<and> (\<forall>s t. nd_lkg st = Some (s, t) \<longrightarrow> served_ok F H (sn_roots s))"

definition stale_ok :: "int \<Rightarrow> int \<Rightarrow> observations \<Rightarrow> node_state \<Rightarrow> root_snapshot \<Rightarrow> bool" where
  "stale_ok F now' H st s \<longleftrightarrow> (\<exists>s0 fetchedAt. nd_lkg st = Some (s0, fetchedAt) \<and> now' - fetchedAt \<le> F \<and> sn_roots s = take 1 (sn_roots s0))"

lemma ring_ok_fresh: "ring_ok H makeFreshRootRing"
  by (simp add: ring_ok_def makeFreshRootRing_def)

lemma node_poll_ok:
  assumes inv: "node_inv (nc_freshness cfg) H st" and poll: "node_poll cfg env st = (st', out, obs)"
  shows "node_inv (nc_freshness cfg) (H @ obs) st'
    \<and> (\<forall>s. out = Inr s \<longrightarrow> (if sn_stale s then obs = [] \<and> stale_ok (nc_freshness cfg) (ne_clk env 1) H st s
          else served_ok (nc_freshness cfg) (H @ obs) (sn_roots s)))"
proof (cases cfg env st rule: node_refresh_cases)
  case (failed sc e)
  let ?F = "nc_freshness cfg"
  have parts: "obs = []" "st' = st\<lparr>nd_scanned := sc, nd_lkg := nd_lkg st\<rparr>"
    "out = snd (withCache ?F (Inl e) (ne_clk env 1) (nd_lkg st))"
    using poll failed by (auto simp: node_poll_def withCache_def split: option.splits if_splits)
  have "sn_stale s \<and> stale_ok ?F (ne_clk env 1) H st s" if "out = Inr s" for s
    using that parts(3) by (auto simp: withCache_def stale_ok_def split: option.splits if_splits prod.splits)
  moreover have "node_inv ?F (H @ obs) st'" using inv by (simp add: parts node_inv_def)
  ultimately show ?thesis using parts(1) by auto
next
  case (fresh sc R obs' ring roots t s)
  let ?F = "nc_freshness cfg"
  have ok: "ring_ok H R" using fresh(3) inv ring_ok_fresh by (auto simp: node_inv_def)
  have push: "ring_ok (H @ obs') ring" "served_ok ?F (H @ obs') roots"
    using ring_pushes_ok [OF ok fresh(1,2), of "nc_maxRoots cfg" ?F "[]"] by (simp_all add: fresh(4))
  have parts: "obs = obs'" "out = Inr s" "nd_ring st' = ring" "nd_lkg st' = Some (s, ne_clk env (2 + length obs'))"
    using poll fresh(5) by (auto simp: node_poll_def withCache_def)
  show ?thesis using push fresh(6,7) by (auto simp: parts node_inv_def)
qed

lemma node_run_ok: "node_inv (nc_freshness cfg) H st \<Longrightarrow> node_run cfg es (st, H) = (st', H') \<Longrightarrow> node_inv (nc_freshness cfg) H' st'"
proof (induction es arbitrary: st H)
  case (Cons e es)
  obtain st1 out obs where poll: "node_poll cfg e st = (st1, out, obs)" by (metis surj_pair)
  have "node_inv (nc_freshness cfg) (H @ obs) st1" using node_poll_ok [OF Cons.prems(1) poll] ..
  then show ?case using Cons.IH [of "H @ obs" st1] Cons.prems(2) poll by simp
qed simp

lemma node_init_inv: "node_inv F [] node_init"
  by (simp add: node_inv_def node_init_def ring_ok_fresh)

text \<open>Where a cached snapshot comes from: the last good read, stamped by the clock after it returned.\<close>

lemma node_poll_lkg:
  assumes "node_poll cfg env st = (st', out, obs)"
  shows "(nd_lkg st' = nd_lkg st \<and> obs = []) \<or>
    (\<exists>s. out = Inr s \<and> \<not> sn_stale s \<and> nd_lkg st' = Some (s, ne_clk env (2 + length obs)))"
proof (cases cfg env st rule: node_refresh_cases)
  case (failed sc e)
  then show ?thesis using assms by (auto simp: node_poll_def withCache_def split: option.splits if_splits)
next
  case (fresh sc R obs' ring roots t s)
  then show ?thesis using assms by (auto simp: node_poll_def withCache_def)
qed

lemma node_run_lkg:
  "node_run cfg es (st, H) = (st', H') \<Longrightarrow> nd_lkg st' = Some (s0, t) \<Longrightarrow>
     (nd_lkg st = Some (s0, t) \<and> H' = H) \<or>
     (\<exists>es1 env0 es2 st0 H0 st1 obs0. es = es1 @ env0 # es2 \<and> node_run cfg es1 (st, H) = (st0, H0)
        \<and> node_poll cfg env0 st0 = (st1, Inr s0, obs0) \<and> \<not> sn_stale s0 \<and> t = ne_clk env0 (2 + length obs0) \<and> H' = H0 @ obs0)"
proof (induction es arbitrary: st H)
  case (Cons e es)
  obtain st1 out obs where poll: "node_poll cfg e st = (st1, out, obs)" by (metis surj_pair)
  then have run: "node_run cfg es (st1, H @ obs) = (st', H')" using Cons.prems(1) by simp
  from Cons.IH [OF run Cons.prems(2)] show ?case
  proof (elim disjE exE conjE)
    assume kept: "nd_lkg st1 = Some (s0, t)" "H' = H @ obs"
    from node_poll_lkg [OF poll] show ?thesis
    proof (elim disjE exE conjE)
      assume "nd_lkg st1 = nd_lkg st" "obs = []"
      with kept show ?thesis by simp
    next
      fix s assume "out = Inr s" "\<not> sn_stale s" "nd_lkg st1 = Some (s, ne_clk e (2 + length obs))"
      with kept poll have "e # es = [] @ e # es \<and> node_run cfg [] (st, H) = (st, H) \<and> node_poll cfg e st = (st1, Inr s0, obs)
        \<and> \<not> sn_stale s0 \<and> t = ne_clk e (2 + length obs) \<and> H' = H @ obs" by simp
      then show ?thesis by blast
    qed
  next
    fix es1 env0 es2 st0 H0 st2 obs0
    assume "es = es1 @ env0 # es2" "node_run cfg es1 (st1, H @ obs) = (st0, H0)" "node_poll cfg env0 st0 = (st2, Inr s0, obs0)"
      "\<not> sn_stale s0" "t = ne_clk env0 (2 + length obs0)" "H' = H0 @ obs0"
    moreover from this(1,2) poll have "e # es = (e # es1) @ env0 # es2" "node_run cfg (e # es1) (st, H) = (st0, H0)" by simp_all
    ultimately show ?thesis by blast
  qed
qed simp

text \<open>
  C9: No served root outlives the freshness window by more than one cached read. After any sequence
  of polls (failures, head changes, resets), a successful refresh returns only roots that are current
  in its own read of the chain or that it saw superseded at most \<open>F\<close> before. A stale answer is one
  root of the last good read: a poll of the sequence itself, after which no poll observed anything
  (\<open>H = H0 @ obs0\<close>), and whose return lies at most \<open>F\<close> before the stale answer. That root is the
  current root of that read, or, only when that read found the set empty, one that was superseded at
  most \<open>F\<close> before it.
\<close>

theorem served_roots_recent:
  assumes "node_run cfg es (node_init, []) = (st, H)" "node_poll cfg env st = (st', Inr s, obs)" "r \<in> set (sn_roots s)"
  shows "if sn_stale s
    then obs = [] \<and> sn_roots s = [r]
       \<and> (\<exists>es1 env0 es2 st0 H0 st1 s0 obs0. es = es1 @ env0 # es2 \<and> node_run cfg es1 (node_init, []) = (st0, H0)
            \<and> node_poll cfg env0 st0 = (st1, Inr s0, obs0) \<and> \<not> sn_stale s0 \<and> r = hd (sn_roots s0) \<and> H = H0 @ obs0
            \<and> ne_clk env 1 - ne_clk env0 (2 + length obs0) \<le> nc_freshness cfg)
       \<and> (snd (last H) = Some r \<or> snd (last H) = None \<and> (\<exists>\<rho>. (r, \<rho>) \<in> set (superseded H) \<and> fst (last H) - \<rho> \<le> nc_freshness cfg))
    else snd (last (H @ obs)) = Some r
       \<or> (\<exists>\<rho>. (r, \<rho>) \<in> set (superseded (H @ obs)) \<and> fst (last (H @ obs)) - \<rho> \<le> nc_freshness cfg)"
proof -
  let ?F = "nc_freshness cfg"
  have inv: "node_inv ?F H st" using node_run_ok [OF node_init_inv assms(1)] .
  note poll = node_poll_ok [OF inv assms(2)]
  show ?thesis
  proof (cases "sn_stale s")
    case False
    then show ?thesis using poll assms(3) by (auto simp: served_ok_def window_root_def)
  next
    case True
    then obtain s0 t where lkg: "nd_lkg st = Some (s0, t)" "ne_clk env 1 - t \<le> ?F" "sn_roots s = take 1 (sn_roots s0)"
      using poll by (auto simp: stale_ok_def)
    have served: "served_ok ?F H (sn_roots s0)" using inv lkg(1) by (simp add: node_inv_def)
    obtain rest where roots: "sn_roots s0 = r # rest" using assms(3) lkg(3) by (cases "sn_roots s0") auto
    then have root: "snd (last H) = Some r \<or> snd (last H) = None \<and> window_root ?F H r"
      using served by (cases "snd (last H)") (auto simp: served_ok_def)
    have "nd_lkg node_init = None" by (simp add: node_init_def)
    with node_run_lkg [OF assms(1) lkg(1)] lkg(2) roots have
      "\<exists>es1 env0 es2 st0 H0 st1 s0 obs0. es = es1 @ env0 # es2 \<and> node_run cfg es1 (node_init, []) = (st0, H0)
            \<and> node_poll cfg env0 st0 = (st1, Inr s0, obs0) \<and> \<not> sn_stale s0 \<and> r = hd (sn_roots s0) \<and> H = H0 @ obs0
            \<and> ne_clk env 1 - ne_clk env0 (2 + length obs0) \<le> nc_freshness cfg"
      by fastforce
    with root show ?thesis using True poll lkg roots by (auto simp: window_root_def)
  qed
qed

definition tiny_group :: group_lib where
  "tiny_group = \<lparr>gl_add = (\<lambda>ms c. Inr (ms @ [c])), gl_remove = (\<lambda>ms i. ms[i := 0]), gl_root = sum_list\<rparr>"

definition exit_log :: "raw_log list" where  \<comment> \<open>one member registers in block 1 and exits in block 2\<close>
  "exit_log = [Some (mk_log (1, 0) (MemberRegistered 5 0 8)), Some (mk_log (2, 0) (MemberExiting 5 7 8))]"

definition demo_cfg :: node_cfg where
  "demo_cfg = \<lparr>nc_confirmations = 0, nc_maxRoots = None, nc_freshness = 60, nc_from = BNum 0, nc_chunk = 100, nc_group = tiny_group\<rparr>"

definition up_at :: "int \<Rightarrow> nat \<Rightarrow> node_env" where
  "up_at t b = \<lparr>ne_head = Inr None, ne_block = Inr (Some b), ne_rpc = (\<lambda>k x y. Inr (Some (filter (in_blocks x y) exit_log))),
     ne_tagged = Inr None, ne_resolve = None, ne_clk = (\<lambda>_. t)\<rparr>"

definition down_at :: "int \<Rightarrow> node_env" where
  "down_at t = (up_at t 2)\<lparr>ne_block := Inl (Error ''down'')\<rparr>"

definition demo_polls :: "node_state \<times> observations" where
  "demo_polls = node_run demo_cfg [up_at 0 1, up_at 10 2, up_at 69 2] (node_init, [])"

lemma demo_polls_values:
  "snd demo_polls = [(0, Some ''5''), (10, None), (69, None)]"
  "nd_lkg (fst demo_polls) = Some (\<lparr>sn_roots = [''5''], sn_observedAtBlock = Some 2, sn_finalized = True, sn_leafCount = Some 0,
     sn_stale = False, sn_error = None, sn_perSource = None, sn_errors = []\<rparr>, 69)"
  by code_simp+

lemma demo_polls_run: "node_run demo_cfg [up_at 0 1, up_at 10 2, up_at 69 2] (node_init, []) = (fst demo_polls, snd demo_polls)"
  by (simp add: demo_polls_def)

theorem served_roots_recent_witness:
  "snd (node_poll demo_cfg (up_at 70 2) (fst demo_polls)) = (Inr \<lparr>sn_roots = [''5''], sn_observedAtBlock = Some 2, sn_finalized = True,
     sn_leafCount = Some 0, sn_stale = False, sn_error = None, sn_perSource = None, sn_errors = []\<rparr>, [(70, None)])
   \<and> (\<exists>\<rho>. (''5'', \<rho>) \<in> set (superseded (snd demo_polls @ [(70, None)])) \<and> 70 - \<rho> \<le> 60)"
proof -
  let ?s = "\<lparr>sn_roots = [''5''], sn_observedAtBlock = Some 2, sn_finalized = True, sn_leafCount = Some 0, sn_stale = False,
    sn_error = None, sn_perSource = None, sn_errors = []\<rparr>"
  have out: "snd (node_poll demo_cfg (up_at 70 2) (fst demo_polls)) = (Inr ?s, [(70, None)])" by code_simp
  then have poll: "node_poll demo_cfg (up_at 70 2) (fst demo_polls) = (fst (node_poll demo_cfg (up_at 70 2) (fst demo_polls)), Inr ?s, [(70, None)])"
    by (metis prod.collapse)
  show ?thesis
    using served_roots_recent [OF demo_polls_run poll, of "''5''"] out by (simp add: demo_cfg_def)
qed

text \<open>
  C26: The bridge over an outage can revive a superseded root. When the last good read found the set
  empty, its first root is not the current one but a root already superseded, and a failing refresh
  within \<open>F\<close> of that read serves it again: up to nearly \<open>2 * F\<close> after it was superseded.
\<close>

theorem outage_revives_superseded_root:
  assumes "node_run cfg es (node_init, []) = (st, H)" "nd_lkg st = Some (s0, fetchedAt)" "sn_roots s0 = r # rest"
    and "snd (last H) = None" "fst (snd (node_refresh cfg env st)) = Inl e"
    and "ne_clk env 1 - fetchedAt \<le> nc_freshness cfg"
  shows "\<exists>st' s \<rho>. node_poll cfg env st = (st', Inr s, []) \<and> sn_roots s = [r] \<and> (r, \<rho>) \<in> set (superseded H)"
proof -
  have "node_inv (nc_freshness cfg) H st" using node_run_ok [OF node_init_inv assms(1)] .
  then have "window_root (nc_freshness cfg) H r" using assms(2,3) by (auto simp: node_inv_def served_ok_def)
  then obtain \<rho> where "(r, \<rho>) \<in> set (superseded H)" using assms(4) by (auto simp: window_root_def)
  moreover obtain sc where "node_refresh cfg env st = (st\<lparr>nd_scanned := sc\<rparr>, Inl e, [])"
    using assms(5) by (cases cfg env st rule: node_refresh_cases) auto
  ultimately show ?thesis using assms(2,3,6) by (auto simp: node_poll_def withCache_def)
qed

theorem outage_revives_superseded_root_witness:
  "(\<exists>st' s \<rho>. node_poll demo_cfg (down_at 129) (fst demo_polls) = (st', Inr s, []) \<and> sn_roots s = [''5'']
      \<and> (''5'', \<rho>) \<in> set (superseded (snd demo_polls)))
   \<and> superseded (snd demo_polls) = [(''5'', 10)] \<and> nc_freshness demo_cfg = 60 \<and> ne_clk (down_at 129) 1 = 129"
proof -
  have "fst (snd (node_refresh demo_cfg (down_at 129) (fst demo_polls))) = Inl (Error ''down'')"
    by (simp add: node_refresh_def demo_cfg_def down_at_def up_at_def confirmedBlockTag_def)
  moreover have "ne_clk (down_at 129) 1 = 129" "nc_freshness demo_cfg = 60" by (simp_all add: down_at_def up_at_def demo_cfg_def)
  moreover have "superseded (snd demo_polls) = [(''5'', 10)]" "snd (last (snd demo_polls)) = None"
    by (simp_all add: demo_polls_values(1))
  ultimately show ?thesis
    using outage_revives_superseded_root [OF demo_polls_run demo_polls_values(2), of "''5''" "[]" "down_at 129"] by simp
qed

subsection \<open>One null answer disables the incremental scan\<close>

definition poisoned :: "nat \<Rightarrow> node_state \<Rightarrow> bool" where
  "poisoned b st \<longleftrightarrow> (\<exists>logs. nd_scanned st = Some (b, logs) \<and> (case logs of None \<Rightarrow> True | Some ls \<Rightarrow> None \<in> set ls))"

text \<open>A finalized read at block \<open>b\<close> from an endpoint that answers every log query.\<close>

definition answers_at :: "node_cfg \<Rightarrow> nat \<Rightarrow> node_env \<Rightarrow> bool" where
  "answers_at cfg b env \<longleftrightarrow> nc_confirmations cfg \<le> 0 \<and> ne_block env = Inr (Some b) \<and> (\<forall>k x y. \<exists>p. ne_rpc env k x y = Inr p)"

lemma fetch_windows_answers: "(\<And>k x y. \<exists>p. rpc k x y = Inr p) \<Longrightarrow> \<exists>ls. fetch_windows rpc to k cursor win = Inr ls"
proof (induction rpc to k cursor win rule: fetch_windows.induct)
  case (1 rpc to k cursor win)
  obtain p where p: "rpc k cursor (min to (cursor + (win - 1))) = Inr p" using "1.prems" by blast
  show ?case
  proof (cases "to < cursor")
    case True
    then show ?thesis by (simp add: fetch_windows.simps)
  next
    case False
    with "1.IH"(2) [OF False refl p "1.prems"] p show ?thesis by (auto simp: fetch_windows.simps [of rpc to k] Let_def)
  qed
qed

lemma fetchMemberLogs_answers:
  assumes "\<And>k x y. \<exists>p. rpc k x y = Inr p"
  shows "\<exists>r. fetchMemberLogs rpc tagged resolve start (BNum b) chunk = Inr r"
proof -
  obtain p where "rpc 0 (case asBlockNumber start of Some n \<Rightarrow> n | None \<Rightarrow> 0) b = Inr p" using assms by blast
  moreover obtain ls where "fetchLogsChunked rpc 0 (case asBlockNumber start of Some n \<Rightarrow> n | None \<Rightarrow> 0) b chunk = Inr ls"
    using fetch_windows_answers [of rpc, OF assms] unfolding fetchLogsChunked_def by blast
  moreover have "asBlockNumber (BNum b) = Some b" by (simp add: asBlockNumber_def)
  ultimately show ?thesis by (simp add: fetchMemberLogs_def Let_def)
qed

lemma poisoned_refresh:
  assumes "poisoned b st" "answers_at cfg b' env" "b \<le> b'"
  shows "\<exists>sc. node_refresh cfg env st = (st\<lparr>nd_scanned := sc\<rparr>, Inl TypeError, []) \<and> (\<exists>b''\<le>b'. poisoned b'' (st\<lparr>nd_scanned := sc\<rparr>))"
proof -
  have tag: "confirmedBlockTag (nc_confirmations cfg) (ne_head env) = Inr Finalized" and blk: "ne_block env = Inr (Some b')"
    and rpc: "\<And>k x y. \<exists>p. ne_rpc env k x y = Inr p"
    using assms(2) by (simp_all add: answers_at_def confirmedBlockTag_def)
  obtain logs where sc: "nd_scanned st = Some (b, logs)" and bad: "case logs of None \<Rightarrow> True | Some ls \<Rightarrow> None \<in> set ls"
    using assms(1) by (auto simp: poisoned_def)
  have inc: "incremental Finalized (Some b') (nd_scanned st) = Some (b', b, logs)" using assms(3) by (simp add: incremental_def sc)
  show ?thesis
  proof (cases logs)
    case None
    then have "node_scan cfg env Finalized (Some b') (nd_scanned st) = (nd_scanned st, Inl TypeError)"
      by (simp add: node_scan_def inc Let_def)
    then have "node_refresh cfg env st = (st\<lparr>nd_scanned := nd_scanned st\<rparr>, Inl TypeError, [])" by (simp add: node_refresh_def tag blk)
    moreover have "\<exists>b''\<le>b'. poisoned b'' (st\<lparr>nd_scanned := nd_scanned st\<rparr>)" using assms(1,3) by auto
    ultimately show ?thesis by blast
  next
    case (Some old)
    obtain r where "fetchMemberLogs (ne_rpc env) (ne_tagged env) (ne_resolve env) (BNum (b + 1)) (BNum b') (nc_chunk cfg) = Inr r"
      using fetchMemberLogs_answers [of "ne_rpc env" "ne_tagged env" "ne_resolve env" "BNum (b + 1)" b' "nc_chunk cfg"] rpc by blast
    then have "\<exists>fresh. (if b < b' then fetchMemberLogs (ne_rpc env) (ne_tagged env) (ne_resolve env) (BNum (b + 1)) (BNum b') (nc_chunk cfg)
        else Inr (Some [])) = Inr fresh" by simp
    then obtain fresh where fresh: "(if b < b' then fetchMemberLogs (ne_rpc env) (ne_tagged env) (ne_resolve env) (BNum (b + 1)) (BNum b') (nc_chunk cfg)
        else Inr (Some [])) = Inr fresh" ..
    define all where "all = old @ (case fresh of Some f \<Rightarrow> f | None \<Rightarrow> [None])"
    have scan: "node_scan cfg env Finalized (Some b') (nd_scanned st) = (Some (b', Some all), Inr (Some all, Some (length old)))"
      using fresh by (simp add: node_scan_def inc Let_def Some scan_record_def all_def)
    have null: "None \<in> set all" using bad by (simp add: all_def Some)
    then have "node_refresh cfg env st = (st\<lparr>nd_scanned := Some (b', Some all)\<rparr>, Inl TypeError, [])"
      by (simp add: node_refresh_def tag blk scan reconstructGroup_def)
    then show ?thesis using null by (auto simp: poisoned_def)
  qed
qed

lemma node_poll_scanned: "nd_scanned (fst (node_poll cfg env st)) = nd_scanned (fst (node_refresh cfg env st))"
  by (simp add: node_poll_def split: prod.split)

lemma poisoned_run:
  assumes "poisoned b st" "sorted (b # map fst bes)" "\<forall>(c, env)\<in>set bes. answers_at cfg c env"
  shows "\<exists>b'. poisoned b' (fst (node_run cfg (map snd bes) (st, H))) \<and> (\<forall>c. (\<forall>d\<in>set (b # map fst bes). d \<le> c) \<longrightarrow> b' \<le> c)"
  using assms
proof (induction bes arbitrary: b st H)
  case (Cons be bes)
  obtain c env where be: "be = (c, env)" by (cases be)
  obtain st1 out obs where poll: "node_poll cfg env st = (st1, out, obs)" by (metis surj_pair)
  have "answers_at cfg c env" "b \<le> c" using Cons.prems(2,3) by (auto simp: be)
  then obtain b'' where b'': "b'' \<le> c" "poisoned b'' st1"
    using poisoned_refresh [OF Cons.prems(1), of cfg c env] node_poll_scanned [of cfg env st] poll by (auto simp: poisoned_def)
  moreover have "sorted (b'' # map fst bes)" using Cons.prems(2) b''(1) by (auto simp: be)
  ultimately obtain b' where "poisoned b' (fst (node_run cfg (map snd bes) (st1, H @ obs)))"
    "\<forall>d. (\<forall>x\<in>set (b'' # map fst bes). x \<le> d) \<longrightarrow> b' \<le> d"
    using Cons.IH [of b'' st1 "H @ obs"] Cons.prems(3) by auto
  then show ?case using poll b''(1) by (intro exI [of _ b']) (auto simp: be)
qed auto

lemma null_answer_poisons:
  assumes "nd_scanned st = Some (b, Some old)" "b < b'" "b' - b \<le> nc_chunk cfg" "nc_confirmations cfg \<le> 0"
    and "ne_block env = Inr (Some b')" "ne_rpc env 0 (b + 1) b' = Inr None"
  shows "poisoned b' (fst (node_poll cfg env st))"
proof -
  have fetch: "fetchMemberLogs (ne_rpc env) (ne_tagged env) (ne_resolve env) (BNum (b + 1)) (BNum b') (nc_chunk cfg) = Inr None"
  proof -
    have "int b' - int b \<le> int (nc_chunk cfg)" using assms(2,3) by linarith
    then show ?thesis using assms(6) by (simp add: fetchMemberLogs_def asBlockNumber_def)
  qed
  have "node_scan cfg env Finalized (Some b') (nd_scanned st) = (Some (b', Some (old @ [None])), Inr (Some (old @ [None]), Some (length old)))"
    using assms(1,2) fetch by (simp add: node_scan_def incremental_def Let_def scan_record_def)
  then have "nd_scanned (fst (node_refresh cfg env st)) = Some (b', Some (old @ [None]))"
    using assms(4,5) by (simp add: node_refresh_def confirmedBlockTag_def reconstructGroup_def)
  then show ?thesis by (simp add: poisoned_def node_poll_scanned)
qed

text \<open>
  C25: A single \<open>null\<close> answer to an incremental log query disables the provider. The \<open>null\<close> is
  appended to the scanned logs before they are replayed, so the replay throws with the scan kept, and
  every later refresh throws as well for as long as the endpoint keeps answering and the finalized
  head does not move back. (Only an error of the endpoint would drop the scan.)
\<close>

theorem null_answer_disables_provider:
  assumes "nd_scanned st = Some (b, Some old)" "b < b'" "b' - b \<le> nc_chunk cfg" "nc_confirmations cfg \<le> 0"
    and "ne_block env0 = Inr (Some b')" "ne_rpc env0 0 (b + 1) b' = Inr None"
    and "sorted (b' # map fst bes)" "\<forall>(c, env)\<in>set bes. answers_at cfg c env"
    and "answers_at cfg b2 env" "\<forall>c\<in>set (b' # map fst bes). c \<le> b2"
  shows "fst (snd (node_refresh cfg env (fst (node_run cfg (env0 # map snd bes) (st, H))))) = Inl TypeError"
proof -
  obtain st1 out obs where poll: "node_poll cfg env0 st = (st1, out, obs)" by (metis surj_pair)
  with null_answer_poisons [OF assms(1-6)] have "poisoned b' st1" by simp
  from poisoned_run [OF this assms(7,8), of "H @ obs"] assms(10) obtain b''
    where "poisoned b'' (fst (node_run cfg (map snd bes) (st1, H @ obs)))" "b'' \<le> b2" by blast
  from poisoned_refresh [OF this(1) assms(9) this(2)] show ?thesis by (auto simp: poll)
qed

definition null_at :: "int \<Rightarrow> nat \<Rightarrow> node_env" where
  "null_at t b = (up_at t b)\<lparr>ne_rpc := (\<lambda>k x y. Inr None)\<rparr>"

theorem null_answer_disables_provider_witness:
  "fst (snd (node_refresh demo_cfg (up_at 90 9) (fst (node_run demo_cfg [null_at 75 3, up_at 80 4] demo_polls)))) = Inl TypeError"
proof -
  have "nd_scanned (fst demo_polls) = Some (2, Some exit_log)" by code_simp
  moreover have "answers_at demo_cfg b (up_at t b)" for t b by (simp add: answers_at_def demo_cfg_def up_at_def)
  ultimately show ?thesis
    using null_answer_disables_provider [of "fst demo_polls" 2 exit_log 3 demo_cfg "null_at 75 3" "[(4, up_at 80 4)]" 9 "up_at 90 9" "snd demo_polls"]
    by (simp add: null_at_def up_at_def demo_cfg_def)
qed

end
