(* ===== verification/LightClient.thy ===== *)
theory LightClient
  imports RootProvider
begin

text \<open>
  The storage-proof provider of \<^verbatim>\<open>src/lib/root-provider.mjs\<close>: the Merkle-Patricia verifier, the
  reading of the contract's root slot against a state root, and \<open>LightClientRootProvider\<close>, with the
  Helios anchor of \<^verbatim>\<open>src/lib/helios-root.mjs\<close>. Keccak, RLP decoding and hex decoding come from
  the \<open>ethers\<close> package and are an argument; everything an RPC endpoint returns is an argument too. The
  main result is that two endpoints, honest or not, cannot make the provider read two different roots
  under one state root without a collision of the hash.
\<close>

section \<open>Merkle-Patricia proofs\<close>

datatype rlp = RStr string | RList "rlp list"  \<comment> \<open>what \<open>decodeRlp\<close> returns: 0x-hex or nested arrays\<close>

record eth_lib =
  el_keccak256 :: "string \<Rightarrow> string"
  el_decodeRlp :: "string \<Rightarrow> rlp res"
  el_getBytes :: "string \<Rightarrow> nat list res"

definition toNibbles :: "nat list \<Rightarrow> nat list" where
  "toNibbles bytes = concat (map (\<lambda>b. [b div 16, b mod 16]) bytes)"

definition decodeCompactPath :: "eth_lib \<Rightarrow> string \<Rightarrow> (nat list \<times> bool) res" where
  "decodeCompactPath lib hex = bind_res (el_getBytes lib hex) (\<lambda>bytes. Inr
     (case bytes of
        [] \<Rightarrow> ([], False)
      | b # bs \<Rightarrow> let flag = b div 16 in ((if odd flag then [b mod 16] else []) @ toNibbles bs, odd (flag div 2))))"

fun index_nodes :: "eth_lib \<Rightarrow> (string, rlp) jmap \<Rightarrow> string list \<Rightarrow> (string, rlp) jmap res" where
  "index_nodes lib m [] = Inr m"
| "index_nodes lib m (n # ns) =
     bind_res (el_decodeRlp lib n) (\<lambda>d. index_nodes lib (AList.update (js_lower (el_keccak256 lib n)) d m) ns)"

definition empty_ref :: "rlp \<Rightarrow> bool" where
  "empty_ref x \<longleftrightarrow> x = RStr ''0x'' \<or> x = RStr ''0x0''"

text \<open>The node a reference stands for: an indexed node for a hash, itself when embedded.\<close>

definition resolve_node :: "(string, rlp) jmap \<Rightarrow> rlp \<Rightarrow> rlp res" where
  "resolve_node m x = (case x of
       RStr h \<Rightarrow> (case map_of m h of Some n \<Rightarrow> Inr n | None \<Rightarrow> Inl (Error ''mpt: proof node missing for referenced hash''))
     | RList xs \<Rightarrow> Inr x)"

definition rlp_text :: "rlp \<Rightarrow> string res" where  \<comment> \<open>an array where \<open>ethers\<close> or \<open>toLowerCase\<close> needs a string\<close>
  "rlp_text x = (case x of RStr s \<Rightarrow> Inr s | RList _ \<Rightarrow> Inl TypeError)"

text \<open>The walk with its step budget; \<open>Inr None\<close> is a proof of absence.\<close>

fun walk :: "eth_lib \<Rightarrow> (string, rlp) jmap \<Rightarrow> nat list \<Rightarrow> nat \<Rightarrow> rlp \<Rightarrow> nat \<Rightarrow> rlp option res" where
  "walk lib m key 0 x i = Inl (Error ''mpt: proof did not terminate'')"
| "walk lib m key (Suc n) x i =
     (if empty_ref x then Inr None
      else bind_res (resolve_node m x) (\<lambda>node. case node of
          RStr _ \<Rightarrow> Inl (Error ''mpt: malformed node'')
        | RList xs \<Rightarrow>
            if length xs = 17 then
              (if i = length key then Inr (Some (xs ! 16))
               else if empty_ref (xs ! (key ! i)) then Inr None
               else walk lib m key n (xs ! (key ! i)) (i + 1))
            else if length xs = 2 then
              bind_res (rlp_text (xs ! 0)) (\<lambda>h. bind_res (decodeCompactPath lib h) (\<lambda>(path, leaf).
                if take (length path) (drop i key) \<noteq> path then Inr None
                else if leaf then Inr (if i + length path = length key then Some (xs ! 1) else None)
                else walk lib m key n (xs ! 1) (i + length path)))
            else Inl (Error ''mpt: malformed node'')))"

definition verifyMptProof :: "eth_lib \<Rightarrow> string \<Rightarrow> string \<Rightarrow> string list \<Rightarrow> rlp option res" where
  "verifyMptProof lib root keyBytes nodes =
     bind_res (index_nodes lib [] nodes) (\<lambda>m.
     bind_res (el_getBytes lib (el_keccak256 lib keyBytes)) (\<lambda>kb.
       walk lib m (toNibbles kb) (length (toNibbles kb) + 4) (RStr (js_lower root)) 0))"

subsection \<open>A root and a key determine the value\<close>

text \<open>Two supplied nodes with one hash decode to the same value; two spellings of one node do.\<close>

definition collision_free :: "eth_lib \<Rightarrow> string list \<Rightarrow> string list \<Rightarrow> bool" where
  "collision_free lib ns ns' \<longleftrightarrow>
     (\<forall>a\<in>set ns. \<forall>b\<in>set ns'. js_lower (el_keccak256 lib a) = js_lower (el_keccak256 lib b) \<longrightarrow> el_decodeRlp lib a = el_decodeRlp lib b)"

lemma index_nodes_origin:
  "index_nodes lib m ns = Inr m' \<Longrightarrow> map_of m' h = Some d
     \<Longrightarrow> map_of m h = Some d \<or> (\<exists>n\<in>set ns. js_lower (el_keccak256 lib n) = h \<and> el_decodeRlp lib n = Inr d)"
proof (induction ns arbitrary: m)
  case (Cons n ns)
  then obtain d0 where "el_decodeRlp lib n = Inr d0"
    and "index_nodes lib (AList.update (js_lower (el_keccak256 lib n)) d0 m) ns = Inr m'"
    by (auto simp: bind_res_Inr_iff)
  with Cons.IH [OF this(2) Cons.prems(2)] show ?case by (auto split: if_splits)
qed simp

lemma resolve_agree:
  assumes "collision_free lib ns ns'" "index_nodes lib [] ns = Inr m" "index_nodes lib [] ns' = Inr m'"
    and "resolve_node m x = Inr a" "resolve_node m' x = Inr b"
  shows "a = b"
proof (cases x)
  case (RStr h)
  with assms(4,5) have "map_of m h = Some a" "map_of m' h = Some b" by (auto simp: resolve_node_def split: option.splits)
  with index_nodes_origin [OF assms(2), of h a] index_nodes_origin [OF assms(3), of h b] obtain n n'
    where "n \<in> set ns" "n' \<in> set ns'" "js_lower (el_keccak256 lib n) = h" "js_lower (el_keccak256 lib n') = h"
      "el_decodeRlp lib n = Inr a" "el_decodeRlp lib n' = Inr b" by auto
  moreover from this have "el_decodeRlp lib n = el_decodeRlp lib n'" using assms(1) by (auto simp: collision_free_def)
  ultimately show ?thesis by simp
next
  case (RList xs)
  then have "resolve_node m x = Inr x" "resolve_node m' x = Inr x" by (simp_all add: resolve_node_def)
  then show ?thesis using assms(4,5) by simp
qed

lemma walk_agree:
  assumes "collision_free lib ns ns'" "index_nodes lib [] ns = Inr m" "index_nodes lib [] ns' = Inr m'"
  shows "walk lib m key n x i = Inr v \<Longrightarrow> walk lib m' key n x i = Inr v' \<Longrightarrow> v = v'"
proof (induction n arbitrary: x i)
  case (Suc n)
  show ?case
  proof (cases "empty_ref x")
    case False
    with Suc.prems obtain a b where "resolve_node m x = Inr a" "resolve_node m' x = Inr b" by (auto simp: bind_res_Inr_iff)
    with resolve_agree [OF assms] have ab: "resolve_node m x = Inr a" "resolve_node m' x = Inr a" by blast+
    show ?thesis
      using Suc.prems Suc.IH False ab by (auto simp: bind_res_Inr_iff split: rlp.splits if_splits)
  qed (use Suc.prems in simp)
qed simp

lemma mpt_agree:
  assumes "collision_free lib ns ns'" "verifyMptProof lib root k ns = Inr v" "verifyMptProof lib root k ns' = Inr v'"
  shows "v = v'"
  using assms walk_agree [OF assms(1)] by (auto simp: verifyMptProof_def bind_res_Inr_iff)

section \<open>The root slot under a state root\<close>

record eth_proof =
  ep_accountProof :: "string list"
  ep_storageHash :: "string option"
  ep_value :: "string option"          \<comment> \<open>\<open>storageProof[0].value\<close>\<close>
  ep_storageProof :: "string list"     \<comment> \<open>\<open>storageProof[0].proof\<close>\<close>

fun rlp_string :: "rlp \<Rightarrow> string" where  \<comment> \<open>\<open>String(v)\<close>: an array joins its elements\<close>
  "rlp_string (RStr s) = s"
| "rlp_string (RList xs) = join_with '','' (map rlp_string xs)"

definition to_bigint :: "string \<Rightarrow> int res" where
  "to_bigint s = (case bigint_of_string s of Some n \<Rightarrow> Inr n | None \<Rightarrow> Inl SyntaxError)"

definition decode_field :: "eth_lib \<Rightarrow> rlp \<Rightarrow> rlp res" where
  "decode_field lib f = bind_res (rlp_text f) (el_decodeRlp lib)"

definition slot_value :: "eth_lib \<Rightarrow> rlp option \<Rightarrow> int res" where
  "slot_value lib f = (case f of None \<Rightarrow> Inr 0 | Some x \<Rightarrow> bind_res (decode_field lib x) (\<lambda>d. to_bigint (rlp_string d)))"

definition account_storage :: "eth_lib \<Rightarrow> rlp option \<Rightarrow> string res" where  \<comment> \<open>the account leaf's storage hash\<close>
  "account_storage lib f = (case f of
       None \<Rightarrow> Inl (Error ''account absent in state proof'')
     | Some x \<Rightarrow> bind_res (decode_field lib x) (\<lambda>account. case account of
           RList xs \<Rightarrow> if length xs = 4 then bind_res (rlp_text (xs ! 2)) (\<lambda>h. Inr (js_lower h))
                       else Inl (Error ''malformed account node'')
         | RStr _ \<Rightarrow> Inl (Error ''malformed account node'')))"

definition check_reported :: "string option \<Rightarrow> int \<Rightarrow> unit res" where
  "check_reported reported proven = (case reported of
       None \<Rightarrow> Inr ()
     | Some v \<Rightarrow> bind_res (to_bigint v) (\<lambda>n. if n \<noteq> proven then Inl (Error ''proven slot value != reported value'') else Inr ()))"

definition proven_slot :: "eth_lib \<Rightarrow> string \<Rightarrow> string \<Rightarrow> string \<Rightarrow> eth_proof \<Rightarrow> int res" where
  "proven_slot lib stateRoot addr slotHex p =
     bind_res (verifyMptProof lib stateRoot addr (ep_accountProof p)) (\<lambda>accountField.
     bind_res (account_storage lib accountField) (\<lambda>storageHash.
       if (case ep_storageHash p of Some h \<Rightarrow> h \<noteq> [] \<and> js_lower h \<noteq> storageHash | None \<Rightarrow> False)
       then Inl (Error ''storageHash mismatch vs proof'')
       else bind_res (verifyMptProof lib storageHash slotHex (ep_storageProof p)) (\<lambda>valueField.
         bind_res (slot_value lib valueField) (\<lambda>proven.
         bind_res (check_reported (ep_value p) proven) (\<lambda>_. Inr proven)))))"

definition root_of_slot :: "int \<Rightarrow> string option" where
  "root_of_slot v = (if v = 0 then None else Some (int_dec v))"

lemma proven_slot_agree:
  assumes "collision_free lib (ep_accountProof p) (ep_accountProof q)" "collision_free lib (ep_storageProof p) (ep_storageProof q)"
    and "proven_slot lib sr addr slot p = Inr v" "proven_slot lib sr addr slot q = Inr w"
  shows "v = w"
proof -
  from assms(3) obtain a h f where p: "verifyMptProof lib sr addr (ep_accountProof p) = Inr a" "account_storage lib a = Inr h"
    "verifyMptProof lib h slot (ep_storageProof p) = Inr f" "slot_value lib f = Inr v"
    by (auto simp: proven_slot_def bind_res_Inr_iff split: if_splits)
  from assms(4) obtain b k g where q: "verifyMptProof lib sr addr (ep_accountProof q) = Inr b" "account_storage lib b = Inr k"
    "verifyMptProof lib k slot (ep_storageProof q) = Inr g" "slot_value lib g = Inr w"
    by (auto simp: proven_slot_def bind_res_Inr_iff split: if_splits)
  have "a = b" using mpt_agree [OF assms(1) p(1) q(1)] .
  then have "h = k" using p(2) q(2) by simp
  then have "f = g" using mpt_agree [OF assms(2)] p(3) q(3) by blast
  with p(4) q(4) show ?thesis by simp
qed

section \<open>LightClientRootProvider\<close>

record eth_block =
  eb_number :: nat
  eb_stateRoot :: "string option"   \<comment> \<open>a string, or missing\<close>

record light_env =
  le_head :: "nat option res"
  le_trusted :: "(string option \<times> nat option) option res"  \<comment> \<open>the anchor's \<open>stateRoot\<close> and \<open>number\<close>\<close>
  le_block :: "eth_block option res"    \<comment> \<open>the RPC's header of the block in question\<close>
  le_proof :: "eth_proof option res"    \<comment> \<open>\<open>eth_getProof\<close>; \<open>None\<close> when a part is missing\<close>
  le_storage :: "string option res"     \<comment> \<open>\<open>eth_getStorageAt\<close>\<close>
  le_clk :: "nat \<Rightarrow> int"

record light_cfg =
  lc_confirmations :: int
  lc_lib :: eth_lib
  lc_address :: string
  lc_slotHex :: string
  lc_mode :: string
  lc_anchored :: bool   \<comment> \<open>whether a \<open>trustedStateRoot\<close> hook is installed\<close>
  lc_maxRoots :: "int option"
  lc_freshness :: int

definition light_anchor :: "light_cfg \<Rightarrow> light_env \<Rightarrow> (string option \<times> nat option) res" where  \<comment> \<open>state root, observed block\<close>
  "light_anchor cfg env =
     (if lc_anchored cfg then
        bind_res (le_trusted env) (\<lambda>h. case h of
          Some (Some sr, number) \<Rightarrow>
            bind_res (le_block env) (\<lambda>blk. case blk of
                None \<Rightarrow> Inl (Error ''RPC has no block that the anchor attests'')
              | Some b \<Rightarrow> (case eb_stateRoot b of
                    Some r \<Rightarrow> if js_lower r = js_lower sr then Inr (Some sr, number) else Inl (Error ''stateRoot mismatch'')
                  | None \<Rightarrow> Inl (Error ''stateRoot mismatch'')))
        | _ \<Rightarrow> Inl (Error ''trustedStateRoot returned no stateRoot''))
      else bind_res (le_block env) (\<lambda>blk. case blk of
          None \<Rightarrow> Inl (Error ''no block at tag'')
        | Some b \<Rightarrow> Inr (eb_stateRoot b, Some (eb_number b))))"

text \<open>Only the proof path reads the state root; a header without one makes it throw.\<close>

definition light_root :: "light_cfg \<Rightarrow> light_env \<Rightarrow> string option \<Rightarrow> string option res" where
  "light_root cfg env stateRoot =
     (if lc_mode cfg = ''storageat'' then
        bind_res (le_storage env) (\<lambda>v. case v of None \<Rightarrow> Inr None | Some h \<Rightarrow> bind_res (to_bigint h) (\<lambda>n. Inr (root_of_slot n)))
      else bind_res (le_proof env) (\<lambda>p. case p of
          None \<Rightarrow> Inl (Error ''eth_getProof returned no proof'')
        | Some pr \<Rightarrow> (case stateRoot of
              None \<Rightarrow> Inl TypeError
            | Some sr \<Rightarrow> bind_res (proven_slot (lc_lib cfg) sr (lc_address cfg) (lc_slotHex cfg) pr) (\<lambda>v. Inr (root_of_slot v)))))"

definition light_read :: "light_cfg \<Rightarrow> light_env \<Rightarrow> (block_tag \<times> nat option \<times> string option) res" where
  "light_read cfg env =
     bind_res (confirmedBlockTag (lc_confirmations cfg) (le_head env)) (\<lambda>tag.
     bind_res (light_anchor cfg env) (\<lambda>(stateRoot, observed).
     bind_res (light_root cfg env stateRoot) (\<lambda>root. Inr (tag, observed, root))))"

record light_state =
  lt_ring :: root_ring
  lt_lastSuccessfulAt :: "int option"
  lt_lkg :: "(root_snapshot \<times> int) option"

definition light_poll :: "light_cfg \<Rightarrow> light_env \<Rightarrow> light_state \<Rightarrow> light_state \<times> root_snapshot res \<times> observations" where
  "light_poll cfg env st =
     (case light_read cfg env of
        Inl e \<Rightarrow> (let (lkg, out) = withCache (lc_freshness cfg) (Inl e) (le_clk env 1) (lt_lkg st) in (st\<lparr>lt_lkg := lkg\<rparr>, out, []))
      | Inr (tag, observed, root) \<Rightarrow>
          let reset = (case lt_lastSuccessfulAt st of Some t \<Rightarrow> le_clk env 0 - t > lc_freshness cfg | None \<Rightarrow> False);
              (ring, roots) = pushRoot (lc_maxRoots cfg) (lc_freshness cfg) (le_clk env 1) root (if reset then makeFreshRootRing else lt_ring st);
              s = \<lparr>sn_roots = roots, sn_observedAtBlock = observed, sn_finalized = (tag = Finalized), sn_leafCount = None,
                   sn_stale = False, sn_error = None, sn_perSource = None, sn_errors = []\<rparr>;
              (lkg, out) = withCache (lc_freshness cfg) (Inr s) (le_clk env 3) (lt_lkg st)
          in (\<lparr>lt_ring = ring, lt_lastSuccessfulAt = Some (le_clk env 2), lt_lkg = lkg\<rparr>, out, [(le_clk env 1, root)]))"

text \<open>All proof nodes an endpoint supplied.\<close>

definition supplied :: "light_env \<Rightarrow> string list" where
  "supplied env = (case le_proof env of Inr (Some p) \<Rightarrow> ep_accountProof p @ ep_storageProof p | _ \<Rightarrow> [])"

lemma collision_free_parts:
  assumes "collision_free lib (a @ b) (c @ d)"
  shows "collision_free lib a c" "collision_free lib b d"
  using assms by (auto simp: collision_free_def)

lemma light_root_agree:
  assumes "lc_mode cfg \<noteq> ''storageat''" "collision_free (lc_lib cfg) (supplied e1) (supplied e2)"
    and "light_root cfg e1 (Some sr) = Inr r1" "light_root cfg e2 (Some sr) = Inr r2"
  shows "r1 = r2"
proof -
  from assms(1,3) obtain p v where p: "le_proof e1 = Inr (Some p)" "proven_slot (lc_lib cfg) sr (lc_address cfg) (lc_slotHex cfg) p = Inr v" "r1 = root_of_slot v"
    by (auto simp: light_root_def bind_res_Inr_iff split: option.splits)
  from assms(1,4) obtain q w where q: "le_proof e2 = Inr (Some q)" "proven_slot (lc_lib cfg) sr (lc_address cfg) (lc_slotHex cfg) q = Inr w" "r2 = root_of_slot w"
    by (auto simp: light_root_def bind_res_Inr_iff split: option.splits)
  have "collision_free (lc_lib cfg) (ep_accountProof p) (ep_accountProof q)" "collision_free (lc_lib cfg) (ep_storageProof p) (ep_storageProof q)"
    using collision_free_parts [of "lc_lib cfg" "ep_accountProof p" "ep_storageProof p" "ep_accountProof q" "ep_storageProof q"]
      assms(2) p(1) q(1) by (simp_all add: supplied_def)
  from proven_slot_agree [OF this p(2) q(2)] p(3) q(3) show ?thesis by simp
qed

lemma light_readD:
  assumes "light_read cfg e = Inr (t, b, r)"
  shows "\<exists>x. light_anchor cfg e = Inr (x, b) \<and> light_root cfg e x = Inr r"
  using assms by (auto simp: light_read_def bind_res_Inr_iff)

lemma light_anchor_trusted:
  assumes "lc_anchored cfg" "le_trusted e = Inr (Some (Some sr, n))" "light_anchor cfg e = Inr (x, b)"
  shows "x = Some sr \<and> b = n"
  using assms by (auto simp: light_anchor_def bind_res_Inr_iff split: option.splits if_splits)

text \<open>
  C10: With the anchor installed and proofs on, an RPC endpoint cannot choose the admission root. If
  the anchor attests one state root, two reads through any two endpoints, whatever headers and proofs
  they serve, either fail or return the same root, unless the supplied proof nodes contain a hash
  collision.
\<close>

theorem anchored_root_unforgeable:
  assumes "lc_anchored cfg" "lc_mode cfg \<noteq> ''storageat''"
    and "le_trusted e1 = Inr (Some (Some sr, n))" "le_trusted e2 = Inr (Some (Some sr, n))"
    and "collision_free (lc_lib cfg) (supplied e1) (supplied e2)"
    and "light_read cfg e1 = Inr (t1, b1, r1)" "light_read cfg e2 = Inr (t2, b2, r2)"
  shows "r1 = r2 \<and> b1 = n \<and> b2 = n"
proof -
  have one: "light_root cfg e (Some sr) = Inr r \<and> b = n" if "light_read cfg e = Inr (t, b, r)" "le_trusted e = Inr (Some (Some sr, n))" for e t b r
    using light_readD [OF that(1)] light_anchor_trusted [OF assms(1) that(2)] by blast
  show ?thesis using light_root_agree [OF assms(2,5)] one [OF assms(6,3)] one [OF assms(7,4)] by blast
qed

definition toy_lib :: eth_lib where
  "toy_lib = \<lparr>el_keccak256 = (\<lambda>x. CHR ''k'' # x),
     el_decodeRlp = (\<lambda>x. if x = ''acc'' then Inr (RList [RStr ''path'', RStr ''leaf''])
       else if x = ''leaf'' then Inr (RList [RStr ''n'', RStr ''b'', RStr ''kst'', RStr ''c''])
       else if x = ''st'' then Inr (RList [RStr ''path'', RStr ''val''])
       else if x = ''val'' then Inr (RStr ''0x2a'') else Inr (RStr ''0x'')),
     el_getBytes = (\<lambda>x. Inr (if x = ''path'' then [32, 18] else [18]))\<rparr>"

definition toy_cfg :: light_cfg where
  "toy_cfg = \<lparr>lc_confirmations = 0, lc_lib = toy_lib, lc_address = ''a'', lc_slotHex = ''s'', lc_mode = ''proof'', lc_anchored = True,
     lc_maxRoots = None, lc_freshness = 60\<rparr>"

definition toy_env :: "string list \<Rightarrow> light_env" where
  "toy_env extra = \<lparr>le_head = Inr None, le_trusted = Inr (Some (Some ''kacc'', Some 7)),
     le_block = Inr (Some \<lparr>eb_number = 7, eb_stateRoot = Some ''KACC''\<rparr>),
     le_proof = Inr (Some \<lparr>ep_accountProof = extra @ [''acc''], ep_storageHash = None, ep_value = Some ''42'', ep_storageProof = [''st''] @ extra\<rparr>),
     le_storage = Inr None, le_clk = (\<lambda>_. 0)\<rparr>"

definition read_root :: "light_env \<Rightarrow> string option" where
  "read_root e = snd (snd (projr (light_read toy_cfg e)))"

theorem anchored_root_unforgeable_witness:
  "read_root (toy_env []) = Some ''42'' \<and> read_root (toy_env []) = read_root (toy_env [''x''])"
proof -
  have reads: "light_read toy_cfg (toy_env []) = Inr (Finalized, Some 7, read_root (toy_env []))"
    "light_read toy_cfg (toy_env [''x'']) = Inr (Finalized, Some 7, read_root (toy_env [''x'']))" by code_simp+
  have "collision_free (lc_lib toy_cfg) (supplied (toy_env [])) (supplied (toy_env [''x'']))"
    by (auto simp: collision_free_def supplied_def toy_env_def toy_cfg_def toy_lib_def js_lower_def lower_char_def Let_def)
  then have "read_root (toy_env []) = read_root (toy_env [''x'']) \<and> Some 7 = Some (7 :: nat) \<and> Some 7 = Some (7 :: nat)"
    by (intro anchored_root_unforgeable [where cfg = toy_cfg and ?e1.0 = "toy_env []" and ?e2.0 = "toy_env [''x'']" and sr = "''kacc''", OF _ _ _ _ _ reads])
      (simp_all add: toy_cfg_def toy_env_def)
  moreover have "read_root (toy_env []) = Some ''42''" by code_simp
  ultimately show ?thesis by simp
qed

section \<open>The Helios anchor\<close>

record helios_cfg =
  hc_chainId :: "int option"   \<comment> \<open>the configured chain, already parsed\<close>

record helios_env =
  he_chainId :: "jsval res"           \<comment> \<open>\<open>eth_chainId\<close> of the sidecar\<close>
  he_upstreamChainId :: "jsval res"   \<comment> \<open>\<open>eth_chainId\<close> of the ordinary RPC\<close>
  he_block :: "jsval res"             \<comment> \<open>\<open>eth_getBlockByNumber\<close> of the sidecar\<close>

definition js_bigint :: "jsval \<Rightarrow> int option" where  \<comment> \<open>\<open>BigInt(v)\<close>; \<open>None\<close> when it throws\<close>
  "js_bigint v = (case v of JNum n \<Rightarrow> Some n | JBigInt n \<Rightarrow> Some n | JBool b \<Rightarrow> Some (if b then 1 else 0)
     | JStr s \<Rightarrow> bigint_of_string s | _ \<Rightarrow> None)"

definition parseChainId :: "jsval \<Rightarrow> int res" where
  "parseChainId v =
     (if nullish v then Inl (Error ''eth_chainId returned nothing'')
      else (case js_bigint v of
          None \<Rightarrow> Inl (Error ''eth_chainId returned an unparseable value'')
        | Some n \<Rightarrow> if n \<le> 0 then Inl (Error ''eth_chainId returned a non-positive chain id'') else Inr n))"

text \<open>\<open>checkChain\<close>, memoised once it succeeded: the state is whether it has.\<close>

definition checkChain :: "helios_cfg \<Rightarrow> helios_env \<Rightarrow> bool \<Rightarrow> bool \<times> unit res" where
  "checkChain cfg env checked =
     (if checked then (True, Inr ())
      else (case bind_res (bind_res (he_chainId env) parseChainId) (\<lambda>hid.
              bind_res (case hc_chainId cfg of Some n \<Rightarrow> Inr n | None \<Rightarrow> bind_res (he_upstreamChainId env) parseChainId) (\<lambda>expected.
                if hid \<noteq> expected then Inl (Error ''helios chainId mismatch'') else Inr ())) of
            Inl e \<Rightarrow> (False, Inl e)
          | Inr u \<Rightarrow> (True, Inr u)))"

definition is_hex32 :: "string \<Rightarrow> bool" where
  "is_hex32 s \<longleftrightarrow> length s = 66 \<and> starts_with s ''0x'' \<and> list_all (\<lambda>c. radix_digit c < 16) (drop 2 s)"

definition supported_tag :: "string \<Rightarrow> bool" where
  "supported_tag t \<longleftrightarrow> t = ''finalized'' \<or> t = ''latest'' \<or> t = ''safe''
     \<or> (starts_with t ''0x'' \<and> drop 2 t \<noteq> [] \<and> list_all (\<lambda>c. radix_digit c < 16) (drop 2 t))"

definition header_of :: "jsval \<Rightarrow> (string \<times> int) res" where
  "header_of blk =
     (if \<not> truthy blk then Inl (Error ''helios has no verified block for tag'')
      else (case getp blk ''stateRoot'' of
          JStr s \<Rightarrow>
            if \<not> is_hex32 s then Inl (Error ''missing/malformed stateRoot'')
            else if nullish (getp blk ''number'') then Inl (Error ''missing number'')
            else (case js_bigint (getp blk ''number'') of
                None \<Rightarrow> Inl (Error ''malformed number'')
              | Some n \<Rightarrow> Inr (js_lower s, n))
        | _ \<Rightarrow> Inl (Error ''missing/malformed stateRoot'')))"

definition trustedStateRoot :: "helios_cfg \<Rightarrow> helios_env \<Rightarrow> string \<Rightarrow> bool \<Rightarrow> bool \<times> (string \<times> int) res" where
  "trustedStateRoot cfg env tag checked =
     (case checkChain cfg env checked of
        (c, Inl e) \<Rightarrow> (c, Inl e)
      | (c, Inr _) \<Rightarrow>
          (c, if \<not> supported_tag tag then Inl (Error ''helios: unsupported block tag'')
              else bind_res (he_block env) header_of))"

text \<open>The first header the anchor hands out comes from a sidecar on the expected chain.\<close>

lemma helios_anchor_checked:
  assumes "trustedStateRoot cfg env tag False = (c, Inr (sr, n))"
  shows "\<exists>hid. bind_res (he_chainId env) parseChainId = Inr hid \<and> 0 < hid
     \<and> (case hc_chainId cfg of Some k \<Rightarrow> hid = k | None \<Rightarrow> bind_res (he_upstreamChainId env) parseChainId = Inr hid)"
proof -
  have pos: "bind_res r parseChainId = Inr k \<Longrightarrow> 0 < k" for r k
    by (auto simp: bind_res_Inr_iff parseChainId_def split: if_splits option.splits)
  from assms obtain hid expected where "bind_res (he_chainId env) parseChainId = Inr hid"
    "(case hc_chainId cfg of Some n \<Rightarrow> Inr n | None \<Rightarrow> bind_res (he_upstreamChainId env) parseChainId) = Inr expected" "hid = expected"
    unfolding trustedStateRoot_def checkChain_def
    by (cases "bind_res (he_chainId env) parseChainId";
        cases "case hc_chainId cfg of Some n \<Rightarrow> Inr n | None \<Rightarrow> bind_res (he_upstreamChainId env) parseChainId")
      (auto split: if_splits)
  then show ?thesis using pos by (auto split: option.splits)
qed

end
