(* ===== verification/PayWire.thy ===== *)
theory PayWire
  imports Admission Caps
begin

text \<open>
  The two HTTP 402 wire formats of the payment registrar: \<^verbatim>\<open>src/payments/wire.mjs\<close> and the
  authorization checks of \<^verbatim>\<open>src/payments/eip3009.mjs\<close>. Base 64, the canonical JSON of MPP
  requests, the price list, x402 requirements and payments, MPP challenges and credentials, and the
  \<open>WWW-Authenticate\<close> printer and parser.

  The digests (SHA-256, HMAC, Keccak), \<open>JSON.parse\<close>, the decoding of UTF-8 bytes and the two date
  conversions are the fields of \<open>pay_lib\<close>; random bytes and the clock are arguments. An object
  whose keys are canonical integers, like the price list, enumerates them in ascending order, so it
  is an association list kept in that order.
\<close>

section \<open>Library functions and encodings\<close>

record pay_lib =
  utf8_str :: "string \<Rightarrow> string"                \<comment> \<open>\<open>buf.toString("utf8")\<close>\<close>
  json_parse :: "string \<Rightarrow> jsval res"            \<comment> \<open>\<open>JSON.parse\<close>\<close>
  hmac_url :: "string \<Rightarrow> string \<Rightarrow> string"       \<comment> \<open>\<open>createHmac("sha256", secret)\<close>, base64url\<close>
  sha256_b64 :: "string \<Rightarrow> string"
  keccak_hex :: "string \<Rightarrow> string"               \<comment> \<open>\<open>ethers.keccak256\<close>: lower-case hexadecimal after \<open>0x\<close>\<close>
  date_parse :: "string \<Rightarrow> int option"           \<comment> \<open>\<open>Date.parse\<close>; \<open>None\<close> is \<open>NaN\<close>\<close>
  iso_string :: "int \<Rightarrow> string res"              \<comment> \<open>\<open>new Date(ms).toISOString()\<close>\<close>

definition b64_alphabet :: "bool \<Rightarrow> string" where
  "b64_alphabet url = ''ABCDEFGHIJKLMNOPQRSTUVWXYZabcdefghijklmnopqrstuvwxyz0123456789'' @ (if url then ''-_'' else ''+/'')"

definition b64_char :: "bool \<Rightarrow> nat \<Rightarrow> char" where
  "b64_char url i = b64_alphabet url ! i"

definition b64_val :: "char \<Rightarrow> nat" where
  "b64_val c = (let n = (of_char c :: nat) in
     if 65 \<le> n \<and> n \<le> 90 then n - 65 else if 97 \<le> n \<and> n \<le> 122 then n - 71
     else if 48 \<le> n \<and> n \<le> 57 then n + 4 else if n = 43 \<or> n = 45 then 62 else if n = 47 \<or> n = 95 then 63 else 64)"

definition b64_class :: "bool \<Rightarrow> char \<Rightarrow> bool" where  \<comment> \<open>\<open>[A-Za-z0-9_-]\<close> or \<open>[A-Za-z0-9+/]\<close>\<close>
  "b64_class url c \<longleftrightarrow> c \<in> set (b64_alphabet url)"

fun b64_pack :: "bool \<Rightarrow> nat list \<Rightarrow> string" where
  "b64_pack url [] = []"
| "b64_pack url [a] = [b64_char url (a div 4), b64_char url (a mod 4 * 16)] @ (if url then [] else ''=='')"
| "b64_pack url [a, b] = [b64_char url (a div 4), b64_char url (a mod 4 * 16 + b div 16), b64_char url (b mod 16 * 4)]
     @ (if url then [] else ''='')"
| "b64_pack url (a # b # c # r) = [b64_char url (a div 4), b64_char url (a mod 4 * 16 + b div 16),
     b64_char url (b mod 16 * 4 + c div 64), b64_char url (c mod 64)] @ b64_pack url r"

fun b64_unpack :: "nat list \<Rightarrow> nat list" where
  "b64_unpack (a # b # c # d # r) = (a * 4 + b div 16) # (b mod 16 * 16 + c div 4) # (c mod 4 * 64 + d) # b64_unpack r"
| "b64_unpack [a, b, c] = [a * 4 + b div 16, b mod 16 * 16 + c div 4]"
| "b64_unpack [a, b] = [a * 4 + b div 16]"
| "b64_unpack _ = []"

definition b64_of :: "bool \<Rightarrow> string \<Rightarrow> string" where  \<comment> \<open>\<open>b64\<close> and \<open>b64url\<close>\<close>
  "b64_of url s = b64_pack url (map of_char (utf8 s))"

definition buffer_b64 :: "string \<Rightarrow> string" where  \<comment> \<open>\<open>Buffer.from(s, "base64")\<close> of a string of one of the alphabets\<close>
  "buffer_b64 s = map char_of (b64_unpack (map b64_val (takeWhile (\<lambda>c. c \<noteq> CHR ''='') s)))"

definition b64_regex :: "bool \<Rightarrow> string \<Rightarrow> bool" where
  "b64_regex url s \<longleftrightarrow> (let body = takeWhile (b64_class url) s; pad = dropWhile (b64_class url) s in
     body \<noteq> [] \<and> (if url then pad = [] else pad \<in> {[], ''='', ''==''}))"

definition b64decode :: "pay_lib \<Rightarrow> bool \<Rightarrow> string \<Rightarrow> string option" where
  "b64decode L url s = (if s = [] \<or> length s > 16 * 1024 then None
     else if \<not> b64_regex url s then None else Some (utf8_str L (buffer_b64 s)))"

definition jsonParseSafe :: "pay_lib \<Rightarrow> string \<Rightarrow> jsval option" where
  "jsonParseSafe L s = (case json_parse L s of
     Inr v \<Rightarrow> if plain_object v then Some v else None | Inl _ \<Rightarrow> None)"

lemma map_res_cong [fundef_cong]:
  "xs = ys \<Longrightarrow> (\<And>x. x \<in> set ys \<Longrightarrow> f x = g x) \<Longrightarrow> map_res f xs = map_res g ys"
  by (induction xs arbitrary: ys) auto

lemma size_pair_mem [termination_simp]: "(k, v) \<in> set kvs \<Longrightarrow> size v < Suc (size_list (size_prod (\<lambda>_. 0) size) kvs)"
  by (induction kvs) auto

fun jcs :: "jsval \<Rightarrow> string res" where
  "jcs JNull = Inr ''null''"
| "jcs (JStr s) = Inr (json_quote s)"
| "jcs (JBool b) = Inr (if b then ''true'' else ''false'')"
| "jcs (JNum n) = Inr (int_dec n)"
| "jcs (JFloat _) = Inl (Error ''jcs: only integers'')"
| "jcs (JArr vs) = bind_res (map_res jcs vs) (\<lambda>ss. Inr (''['' @ join_with '','' ss @ '']''))"
| "jcs (JObj kvs) = bind_res (map_res (\<lambda>(k, v). bind_res (jcs v) (\<lambda>s. Inr (json_quote k @ '':'' @ s))) (sort_key fst kvs))
     (\<lambda>ss. Inr (''{'' @ join_with '','' ss @ ''}''))"
| "jcs JUndef = Inl (Error ''jcs: unsupported type undefined'')"
| "jcs (JBigInt _) = Inl (Error ''jcs: unsupported type bigint'')"

text \<open>The values MPP requests carry; on them \<open>jcs\<close> never throws.\<close>

fun json_plain :: "jsval \<Rightarrow> bool" where
  "json_plain (JArr vs) = list_all json_plain vs"
| "json_plain (JObj kvs) = list_all (\<lambda>(k, v). json_plain v) kvs"
| "json_plain JUndef = False"
| "json_plain (JFloat _) = False"
| "json_plain (JBigInt _) = False"
| "json_plain _ = True"

lemma map_res_ok: "(\<And>x. x \<in> set xs \<Longrightarrow> \<exists>y. f x = Inr y) \<Longrightarrow> \<exists>ys. map_res f xs = Inr ys"
  by (induction xs) (simp, metis bind_res_simps(2) list.set_intros(1,2) map_res.simps(2))

lemma jcs_total: "json_plain v \<Longrightarrow> \<exists>s. jcs v = Inr s"
proof (induction v rule: jcs.induct)
  case (6 vs)
  then have "\<exists>ss. map_res jcs vs = Inr ss" by (intro map_res_ok) (simp add: list_all_iff)
  then show ?case by auto
next
  case (7 kvs)
  then have "\<exists>y. (case x of (k, v) \<Rightarrow> bind_res (jcs v) (\<lambda>s. Inr (json_quote k @ '':'' @ s))) = Inr y" if "x \<in> set (sort_key fst kvs)" for x
    using that by (cases x) (force simp: list_all_iff)
  then have "\<exists>ss. map_res (\<lambda>(k, v). bind_res (jcs v) (\<lambda>s. Inr (json_quote k @ '':'' @ s))) (sort_key fst kvs) = Inr ss"
    by (intro map_res_ok)
  then show ?case by auto
qed auto

definition caip2 :: "int \<Rightarrow> string" where
  "caip2 chainId = ''eip155:'' @ int_dec chainId"

definition chainIdOfCaip2 :: "jsval \<Rightarrow> int option" where
  "chainIdOfCaip2 network = (case network of
     JStr s \<Rightarrow> if chain_re s then Some (int (dec_nat (drop 7 s))) else None | _ \<Rightarrow> None)"

definition strip_millis :: "string \<Rightarrow> string" where  \<comment> \<open>\<open>.replace(/\.\d{3}Z$/, "Z")\<close>\<close>
  "strip_millis s = (let n = length s - 5; e = drop n s in
     if length s \<ge> 5 \<and> e ! 0 = CHR ''.'' \<and> list_all is_digit (take 3 (drop 1 e)) \<and> e ! 4 = CHR ''Z''
     then take n s @ ''Z'' else s)"

definition rfc3339 :: "pay_lib \<Rightarrow> int \<Rightarrow> string res" where
  "rfc3339 L ms = bind_res (iso_string L ms) (\<lambda>s. Inr (strip_millis s))"

definition contentDigest :: "pay_lib \<Rightarrow> string \<Rightarrow> string" where
  "contentDigest L bytes = ''sha-256=:'' @ sha256_b64 L bytes @ '':''"

section \<open>Authorizations\<close>

definition hex0x :: "nat \<Rightarrow> string \<Rightarrow> bool" where  \<comment> \<open>\<open>/^0x[0-9a-fA-F]{n}$/\<close>\<close>
  "hex0x n s \<longleftrightarrow> take 2 s = ''0x'' \<and> length s = n + 2 \<and> list_all (\<lambda>c. radix_digit c < 16) (drop 2 s)"

fun isAddress :: "jsval \<Rightarrow> bool" where
  "isAddress (JStr s) = hex0x 40 s"
| "isAddress _ = False"

fun isBytes32 :: "jsval \<Rightarrow> bool" where
  "isBytes32 (JStr s) = hex0x 64 s"
| "isBytes32 _ = False"

fun isUintString :: "jsval \<Rightarrow> bool" where
  "isUintString (JStr s) = ((s = ''0'' \<or> all_digits s \<and> hd s \<noteq> CHR ''0'') \<and> dec_nat s < 2 ^ 256)"
| "isUintString _ = False"

fun is_signature :: "jsval \<Rightarrow> bool" where  \<comment> \<open>65 bytes of hexadecimal\<close>
  "is_signature (JStr s) = hex0x 130 s"
| "is_signature _ = False"

fun str_of :: "jsval \<Rightarrow> string" where  \<comment> \<open>the string of a value known to be one\<close>
  "str_of (JStr s) = s"
| "str_of _ = []"

definition sameAddress :: "jsval \<Rightarrow> jsval \<Rightarrow> bool" where
  "sameAddress a b \<longleftrightarrow> isAddress a \<and> isAddress b \<and> js_lower (str_of a) = js_lower (str_of b)"

record authorization =
  au_from :: string
  au_to :: string
  au_value :: string
  au_validAfter :: string
  au_validBefore :: string
  au_nonce :: string

definition checkAuthorizationShape :: "jsval \<Rightarrow> string option" where
  "checkAuthorizationShape auth =
     (if \<not> plain_object auth then Some ''authorization must be an object''
      else case find (\<lambda>k. \<not> isAddress (getp auth k)) [''from'', ''to''] of
        Some k \<Rightarrow> Some (''authorization.'' @ k @ '' must be a 0x address'')
      | None \<Rightarrow> (case find (\<lambda>k. \<not> isUintString (getp auth k)) [''value'', ''validAfter'', ''validBefore''] of
          Some k \<Rightarrow> Some (''authorization.'' @ k @ '' must be a decimal uint256 string'')
        | None \<Rightarrow> if \<not> isBytes32 (getp auth ''nonce'') then Some ''authorization.nonce must be 32 bytes hex'' else None))"

definition auth_of :: "jsval \<Rightarrow> authorization" where  \<comment> \<open>the fields of a well-shaped authorization\<close>
  "auth_of v = (let f = (\<lambda>k. str_of (getp v k)) in
     \<lparr>au_from = f ''from'', au_to = f ''to'', au_value = f ''value'', au_validAfter = f ''validAfter'',
      au_validBefore = f ''validBefore'', au_nonce = f ''nonce''\<rparr>)"

section \<open>The offer\<close>

record offer =
  of_chainId :: int
  of_asset :: string
  of_assetName :: string
  of_assetVersion :: string
  of_decimals :: int
  of_payTo :: string
  of_tiers :: "(string \<times> string) list"
  of_maxTimeoutSeconds :: int
  of_settleBufferSec :: int
  of_realm :: string
  of_resourceUrl :: string
  of_description :: string
  of_protocols :: "string list"

definition tier_entry :: "string \<Rightarrow> (string \<times> string) option" where
  "tier_entry part = (let l = takeWhile (\<lambda>c. c \<noteq> CHR ''='') part; r = dropWhile (\<lambda>c. c \<noteq> CHR ''='') part in
     if nonzero_digits 4 l \<and> r \<noteq> [] \<and> all_digits (tl r) \<and> hd (tl r) \<noteq> CHR ''0'' then Some (l, tl r) else None)"

fun price_loop :: "string list \<Rightarrow> (string \<times> string) list \<Rightarrow> (string \<times> string) list res" where
  "price_loop [] acc = Inr acc"
| "price_loop (part # parts) acc = (case tier_entry part of
     None \<Rightarrow> Inl (Error (''SHADE_TREE_PAY_PRICES: bad entry '' @ quoted part))
   | Some (l, p) \<Rightarrow>
       if dec_nat l > 65535 then Inl (Error (''SHADE_TREE_PAY_PRICES: bad entry '' @ quoted part))
       else if map_of acc l \<noteq> None then Inl (Error (''SHADE_TREE_PAY_PRICES: duplicate tier '' @ l))
       else price_loop parts (insort_key (\<lambda>e. dec_nat (fst e)) (l, p) acc))"

definition parsePrices :: "jsval \<Rightarrow> (string \<times> string) list res" where
  "parsePrices spec = bind_res
     (price_loop (filter (\<lambda>s. s \<noteq> []) (map js_trim (split_on (CHR '','') (js_string (js_or spec (JStr [])))))) [])
     (\<lambda>out. if out = [] then Inl (Error ''SHADE_TREE_PAY_PRICES: empty'') else Inr out)"

definition tierForAmount :: "offer \<Rightarrow> jsval \<Rightarrow> int option" where
  "tierForAmount F amount = map_option (\<lambda>e. int (dec_nat (fst e))) (find (\<lambda>e. JStr (snd e) = amount) (of_tiers F))"

definition priceOf :: "offer \<Rightarrow> jsval \<Rightarrow> string option" where
  "priceOf F limit = (case map_of (of_tiers F) (js_string (js_number limit)) of
     Some p \<Rightarrow> if p = [] then None else Some p | None \<Rightarrow> None)"

definition tierList :: "offer \<Rightarrow> int list" where
  "tierList F = sort (map (\<lambda>e. int (dec_nat (fst e))) (of_tiers F))"

definition price_val :: "offer \<Rightarrow> int \<Rightarrow> jsval" where
  "price_val F limit = (case priceOf F (JNum limit) of Some p \<Rightarrow> JStr p | None \<Rightarrow> JNull)"

section \<open>x402\<close>

definition x402Requirements :: "offer \<Rightarrow> int \<Rightarrow> jsval" where
  "x402Requirements F limit = JObj [(''scheme'', JStr ''exact''), (''network'', JStr (caip2 (of_chainId F))), (''amount'', price_val F limit),
     (''asset'', JStr (of_asset F)), (''payTo'', JStr (of_payTo F)), (''maxTimeoutSeconds'', JNum (of_maxTimeoutSeconds F)),
     (''extra'', JObj [(''name'', JStr (of_assetName F)), (''version'', JStr (of_assetVersion F)),
        (''assetTransferMethod'', JStr ''eip3009''), (''limit'', JNum limit)])]"

definition x402PaymentRequired :: "offer \<Rightarrow> int list \<Rightarrow> string option \<Rightarrow> jsval" where
  "x402PaymentRequired F limits err = JObj ([(''x402Version'', JNum 2)] @ (case err of Some e \<Rightarrow> [(''error'', JStr e)] | None \<Rightarrow> []) @
     [(''resource'', JObj [(''url'', JStr (of_resourceUrl F)), (''description'', JStr (of_description F)), (''mimeType'', JStr ''application/json'')]),
      (''accepts'', JArr (map (x402Requirements F) limits))])"

definition encodeX402Header :: "jsval \<Rightarrow> string" where
  "encodeX402Header obj = b64_of False (json_stringify obj)"

definition decodeX402Header :: "pay_lib \<Rightarrow> string \<Rightarrow> jsval option" where
  "decodeX402Header L h = (case b64decode L False h of None \<Rightarrow> None | Some s \<Rightarrow> jsonParseSafe L s)"

definition x402PaymentPayload :: "jsval \<Rightarrow> jsval \<Rightarrow> jsval \<Rightarrow> string \<Rightarrow> jsval" where
  "x402PaymentPayload paymentRequired accepted auth signature = JObj [(''x402Version'', JNum 2), (''resource'', getp paymentRequired ''resource''),
     (''accepted'', accepted), (''payload'', JObj [(''signature'', JStr signature), (''authorization'', auth)])]"

record x402_parsed =
  xp_limit :: int
  xp_accepted :: jsval
  xp_auth :: authorization
  xp_signature :: string
  xp_resource :: jsval

definition x402_payload :: "offer \<Rightarrow> jsval \<Rightarrow> jsval \<Rightarrow> int \<Rightarrow> string + x402_parsed" where
  "x402_payload F p a limit = (let pl = getp p ''payload''; auth = getp pl ''authorization'' in
     if \<not> is_object pl then Inl ''invalid_payment_payload''
     else if checkAuthorizationShape auth \<noteq> None then Inl ''invalid_exact_evm_payload_authorization''
     else if \<not> is_signature (getp pl ''signature'') then Inl ''invalid_exact_evm_payload_signature''
     else if \<not> sameAddress (getp auth ''to'') (JStr (of_payTo F)) then Inl ''invalid_exact_evm_payload_recipient_mismatch''
     else if getp auth ''value'' \<noteq> getp a ''amount'' then Inl ''invalid_exact_evm_payload_authorization_value_mismatch''
     else Inr \<lparr>xp_limit = limit, xp_accepted = a, xp_auth = auth_of auth, xp_signature = str_of (getp pl ''signature''),
               xp_resource = getp p ''resource''\<rparr>)"

definition parseX402Payment :: "pay_lib \<Rightarrow> string \<Rightarrow> offer \<Rightarrow> string + x402_parsed" where
  "parseX402Payment L header F = (case decodeX402Header L header of
     None \<Rightarrow> Inl ''invalid_payment_payload''
   | Some p \<Rightarrow> (let a = getp p ''accepted'' in
       if getp p ''x402Version'' \<noteq> JNum 2 then Inl ''invalid_x402_version''
       else if \<not> is_object a then Inl ''invalid_payment_requirements''
       else if getp a ''scheme'' \<noteq> JStr ''exact'' then Inl ''invalid_scheme''
       else if chainIdOfCaip2 (getp a ''network'') \<noteq> Some (of_chainId F) then Inl ''invalid_network''
       else if \<not> sameAddress (getp a ''asset'') (JStr (of_asset F)) then Inl ''invalid_exact_evm_payload_asset''
       else if \<not> sameAddress (getp a ''payTo'') (JStr (of_payTo F)) then Inl ''invalid_exact_evm_payload_recipient_mismatch''
       else if \<not> isUintString (getp a ''amount'') then Inl ''invalid_payment_requirements''
       else case tierForAmount F (getp a ''amount'') of
         None \<Rightarrow> Inl ''invalid_exact_evm_payload_authorization_value_mismatch''
       | Some limit \<Rightarrow> x402_payload F p a limit))"

definition x402Settlement :: "bool \<Rightarrow> string \<Rightarrow> string \<Rightarrow> string option \<Rightarrow> string option \<Rightarrow> jsval" where
  "x402Settlement success transaction network payer errorReason = JObj ([(''success'', JBool success)]
     @ (case errorReason of Some r \<Rightarrow> [(''errorReason'', JStr r)] | None \<Rightarrow> [])
     @ [(''transaction'', JStr transaction), (''network'', JStr network)]
     @ (case payer of Some a \<Rightarrow> [(''payer'', JStr a)] | None \<Rightarrow> []))"

section \<open>MPP\<close>

definition MPP_METHOD :: string where "MPP_METHOD = ''evm''"
definition MPP_INTENT :: string where "MPP_INTENT = ''charge''"
definition PERMIT2_CANONICAL :: string where "PERMIT2_CANONICAL = ''0x000000000022D473030F116dDEE9F6B43aC78BA3''"
definition MPP_PROBLEM_BASE :: string where "MPP_PROBLEM_BASE = ''https://paymentauth.org/problems/''"

definition tier_text :: "offer \<Rightarrow> int \<Rightarrow> string" where
  "tier_text F limit = of_description F @ '' (tier '' @ int_dec limit @ '')''"

definition mppRequest :: "offer \<Rightarrow> int \<Rightarrow> jsval" where
  "mppRequest F limit = JObj [(''amount'', price_val F limit), (''currency'', JStr (of_asset F)), (''recipient'', JStr (of_payTo F)),
     (''description'', JStr (tier_text F limit)), (''externalId'', JStr (''limit='' @ int_dec limit)),
     (''methodDetails'', JObj [(''chainId'', JNum (of_chainId F)), (''permit2Address'', JStr PERMIT2_CANONICAL),
        (''credentialTypes'', JArr [JStr ''authorization'']), (''decimals'', JNum (of_decimals F)),
        (''eip712Domain'', JObj [(''name'', JStr (of_assetName F)), (''version'', JStr (of_assetVersion F))])])]"

definition mpp_slots :: "string list \<Rightarrow> string" where
  "mpp_slots slots = join_with ''|'' slots"

text \<open>\<open>mppChallengeId\<close> over its seven slots in the order realm, method, intent, request, expires,
  digest, opaque.\<close>

definition mppChallengeId :: "pay_lib \<Rightarrow> string \<Rightarrow> string list \<Rightarrow> string" where
  "mppChallengeId L secret slots = hmac_url L secret (utf8 (mpp_slots slots))"

definition mppNonce :: "pay_lib \<Rightarrow> string \<Rightarrow> string \<Rightarrow> string" where
  "mppNonce L i realm = keccak_hex L (utf8 i @ utf8 realm)"

definition WWW_ORDER :: "string list" where
  "WWW_ORDER = [''id'', ''realm'', ''method'', ''intent'', ''request'', ''expires'', ''digest'', ''opaque'', ''description'']"

definition q_escape :: "char \<Rightarrow> string" where
  "q_escape c = (if c = CHR 0x5C \<or> c = CHR 0x22 then [CHR 0x5C, c] else [c])"

definition auth_param :: "string \<Rightarrow> string \<Rightarrow> string" where
  "auth_param k v = k @ ''='' @ [CHR 0x22] @ concat (map q_escape v) @ [CHR 0x22]"

definition www_params :: "(string \<times> string) list \<Rightarrow> (string \<times> string) list" where  \<comment> \<open>the parameters that are printed, in order\<close>
  "www_params params = concat (map (\<lambda>k. case map_of params k of Some v \<Rightarrow> if v = [] then [] else [(k, v)] | None \<Rightarrow> []) WWW_ORDER)"

definition formatWwwAuthenticate :: "(string \<times> string) list \<Rightarrow> string" where
  "formatWwwAuthenticate params = ''Payment '' @ join_with '', '' (map (\<lambda>(k, v). auth_param k v) (www_params params))"

definition mppChallenge :: "pay_lib \<Rightarrow> offer \<Rightarrow> int \<Rightarrow> string \<Rightarrow> string \<Rightarrow> int \<Rightarrow> string \<Rightarrow> ((string \<times> string) list \<times> string) res" where
  "mppChallenge L F limit secret digest nowMs rnd =
     bind_res (jcs (mppRequest F limit)) (\<lambda>rq.
     bind_res (rfc3339 L (nowMs + of_maxTimeoutSeconds F * 1000)) (\<lambda>expires.
     bind_res (jcs (JObj [(''limit'', JStr (int_dec limit)), (''nonce'', JStr rnd)])) (\<lambda>opq.
       let request = b64_of True rq; opaque = b64_of True opq;
         i = mppChallengeId L secret [of_realm F, MPP_METHOD, MPP_INTENT, request, expires, digest, opaque];
         full = [(''id'', i), (''realm'', of_realm F), (''method'', MPP_METHOD), (''intent'', MPP_INTENT), (''request'', request),
           (''expires'', expires), (''opaque'', opaque)] @ (if digest \<noteq> [] then [(''digest'', digest)] else [])
           @ [(''description'', tier_text F limit)]
       in Inr (full, formatWwwAuthenticate full))))"

definition www_blank :: "char \<Rightarrow> bool" where
  "www_blank c \<longleftrightarrow> c = CHR '' '' \<or> c = CHR 0x09"

definition token_char :: "char \<Rightarrow> bool" where
  "token_char c \<longleftrightarrow> (let n = (of_char c :: nat) in 48 \<le> n \<and> n \<le> 57 \<or> 65 \<le> n \<and> n \<le> 90 \<or> 97 \<le> n \<and> n \<le> 122
     \<or> n \<in> {33, 35, 36, 37, 38, 39, 42, 43, 45, 46, 94, 95, 96, 124, 126})"

fun quoted_string :: "string \<Rightarrow> string \<times> string" where  \<comment> \<open>value and what follows the closing quote\<close>
  "quoted_string [] = ([], [])"
| "quoted_string (c # s) =
     (if c = CHR 0x22 then ([], s)
      else if c = CHR 0x5C \<and> s \<noteq> [] then (let (v, r) = quoted_string (drop 1 s) in (s ! 0 # v, r))
      else (let (v, r) = quoted_string s in (c # v, r)))"

definition param_value :: "string \<Rightarrow> string \<times> string" where
  "param_value s = (case s of c # r \<Rightarrow> if c = CHR 0x22 then quoted_string r
       else (takeWhile token_char s, dropWhile token_char s) | [] \<Rightarrow> ([], []))"

text \<open>
  The challenge being read: none yet, a \<open>Payment\<close> challenge, which is the last element of the
  result and is filled in place, or one of another scheme, whose parameters are dropped. Assigning
  a string to \<open>__proto__\<close> adds no property.
\<close>

datatype www_cur = NoChallenge | InPayment | InOther

type_synonym www_challenge = "string \<times> (string \<times> string) list"

definition set_param :: "string \<Rightarrow> string \<Rightarrow> www_cur \<Rightarrow> www_challenge list \<Rightarrow> www_challenge list" where
  "set_param k v cur out = (if cur = InPayment \<and> out \<noteq> [] \<and> k \<noteq> ''__proto__''
     then butlast out @ [(fst (List.last out), AList.update k v (snd (List.last out)))] else out)"

lemma quoted_string_le: "length (snd (quoted_string s)) \<le> length s"
proof (induction s rule: quoted_string.induct)
  case (2 c s)
  show ?case
  proof (cases "c = CHR 0x22 \<or> c = CHR 0x5C \<and> s \<noteq> []")
    case True
    with "2.IH"(1) show ?thesis by (auto simp: split_beta)
  next
    case False
    with "2.IH"(2) show ?thesis by (auto simp: split_beta)
  qed
qed simp

lemma param_value_le: "length (snd (param_value s)) \<le> length s"
  using quoted_string_le by (cases s) (auto simp: param_value_def length_dropWhile_le le_Suc_eq)

function www_loop :: "string \<Rightarrow> www_cur \<Rightarrow> www_challenge list \<Rightarrow> www_challenge list" where
  "www_loop s cur out =
     (if s = [] then out
      else let s1 = dropWhile www_blank s; t = takeWhile token_char s1; s2 = dropWhile www_blank (dropWhile token_char s1) in
        if s1 \<noteq> [] \<and> hd s1 = CHR '','' then www_loop (drop 1 s1) cur out
        else if t = [] then www_loop (drop 1 s1) cur out
        else if s2 \<noteq> [] \<and> hd s2 = CHR ''='' then
          (let (v, r) = param_value (dropWhile www_blank (drop 1 s2)) in www_loop r cur (set_param (js_lower t) v cur out))
        else if js_lower t = ''payment'' then www_loop s2 InPayment (out @ [(t, [])])
        else www_loop s2 InOther out)"
  by pat_completeness auto

lemma length_dropWhile_less: "takeWhile P s \<noteq> [] \<Longrightarrow> length (dropWhile P s) < length s"
  by (cases s) (auto simp: length_dropWhile_le le_imp_less_Suc split: if_splits)

termination www_loop
proof (relation "measure (\<lambda>(s, cur, out). length s)", goal_cases)
  case (2 s cur out s1 t s2)
  have "length s1 \<le> length s" using 2 by (simp add: length_dropWhile_le)
  moreover have "s1 \<noteq> []" "length s \<noteq> 0" using 2 by simp_all
  ultimately show ?case by (cases s1) auto
next
  case (3 s cur out s1 t s2)
  have "length s1 \<le> length s" using 3 by (simp add: length_dropWhile_le)
  then show ?case using 3(1) by (cases s1) auto
next
  case (4 s cur out s1 t s2 x v r)
  have "length s1 \<le> length s" using 4 by (simp add: length_dropWhile_le)
  moreover have "length (dropWhile token_char s1) < length s1" using 4 by (simp add: length_dropWhile_less)
  moreover have "length s2 \<le> length (dropWhile token_char s1)" using 4 by (simp add: length_dropWhile_le)
  moreover have "length r \<le> length (dropWhile www_blank (drop 1 s2))"
    using param_value_le [of "dropWhile www_blank (drop 1 s2)"] 4(8) 4(9) by (metis snd_conv)
  moreover have "length (dropWhile www_blank (drop 1 s2)) \<le> length s2"
    using length_dropWhile_le [of www_blank "drop 1 s2"] by simp
  ultimately show ?case by simp
next
  case (5 s cur out s1 t s2)
  have "length s1 \<le> length s" "length (dropWhile token_char s1) < length s1" "length s2 \<le> length (dropWhile token_char s1)"
    using 5 by (simp_all add: length_dropWhile_le length_dropWhile_less)
  then show ?case by simp
next
  case (6 s cur out s1 t s2)
  have "length s1 \<le> length s" "length (dropWhile token_char s1) < length s1" "length s2 \<le> length (dropWhile token_char s1)"
    using 6 by (simp_all add: length_dropWhile_le length_dropWhile_less)
  then show ?case by simp
qed simp

declare www_loop.simps [simp del]

definition parseWwwAuthenticate :: "string \<Rightarrow> www_challenge list" where
  "parseWwwAuthenticate value = (if length value > 64 * 1024 then [] else www_loop value NoChallenge [])"

definition ECHO_KEYS :: "string list" where
  "ECHO_KEYS = [''id'', ''realm'', ''method'', ''intent'', ''request'', ''description'', ''opaque'', ''digest'', ''expires'']"

definition mppCredential :: "(string \<times> string) list \<Rightarrow> jsval \<Rightarrow> string option \<Rightarrow> string" where
  "mppCredential params payload source =
     b64_of True (json_stringify (JObj ([
       (''challenge'', JObj (concat (map (\<lambda>k. case map_of params k of Some v \<Rightarrow> [(k, JStr v)] | None \<Rightarrow> []) ECHO_KEYS))),
       (''payload'', payload)] @ (case source of Some s \<Rightarrow> if s = [] then [] else [(''source'', JStr s)] | None \<Rightarrow> []))))"

record mpp_parsed =
  mp_limit :: int
  mp_challenge :: jsval
  mp_request :: jsval
  mp_auth :: authorization
  mp_signature :: string
  mp_source :: "string option"

type_synonym problem = "string \<times> string"  \<comment> \<open>problem code and detail\<close>

definition credential_token :: "string \<Rightarrow> string option" where  \<comment> \<open>\<open>/^Payment[ \t]+([A-Za-z0-9_-]+)$/\<close>\<close>
  "credential_token h = (let s = js_trim h; r = drop 7 s; tok = dropWhile www_blank r in
     if take 7 s = ''Payment'' \<and> takeWhile www_blank r \<noteq> [] \<and> tok \<noteq> [] \<and> list_all (b64_class True) tok then Some tok else None)"

definition slot :: "jsval \<Rightarrow> string" where  \<comment> \<open>\<open>v || ""\<close> as an element of a joined array\<close>
  "slot v = js_string (js_or v (JStr []))"

definition challenge_slots :: "jsval \<Rightarrow> string list" where
  "challenge_slots ch = [str_of (getp ch ''realm''), str_of (getp ch ''method''), str_of (getp ch ''intent''), str_of (getp ch ''request''),
     slot (getp ch ''expires''), slot (getp ch ''digest''), slot (getp ch ''opaque'')]"

definition parse_json64 :: "pay_lib \<Rightarrow> string \<Rightarrow> jsval option" where
  "parse_json64 L s = (case b64decode L True s of None \<Rightarrow> None | Some j \<Rightarrow> jsonParseSafe L j)"

fun nonempty_string :: "jsval \<Rightarrow> bool" where
  "nonempty_string (JStr s) = (s \<noteq> [])"
| "nonempty_string _ = False"

text \<open>The checks of \<open>parseMppCredential\<close> on the echoed challenge; \<open>Inr req\<close> is its decoded request.\<close>

definition mpp_challenge_check :: "pay_lib \<Rightarrow> string \<Rightarrow> offer \<Rightarrow> string option \<Rightarrow> int \<Rightarrow> jsval \<Rightarrow> problem + jsval" where
  "mpp_challenge_check L secret F bodyDigest nowMs ch =
     (case find (\<lambda>k. \<not> nonempty_string (getp ch k)) [''id'', ''realm'', ''method'', ''intent'', ''request''] of
        Some k \<Rightarrow> Inl (''malformed-credential'', ''challenge.'' @ k @ '' missing'')
      | None \<Rightarrow>
        if getp ch ''method'' \<noteq> JStr MPP_METHOD \<or> getp ch ''intent'' \<noteq> JStr MPP_INTENT then Inl (''method-unsupported'', ''only evm/charge'')
        else if getp ch ''realm'' \<noteq> JStr (of_realm F) then Inl (''invalid-challenge'', ''realm mismatch'')
        else if mppChallengeId L secret (challenge_slots ch) \<noteq> str_of (getp ch ''id'')
        then Inl (''invalid-challenge'', ''challenge id does not verify'')
        else if \<not> truthy (getp ch ''expires'') then Inl (''invalid-challenge'', ''expires missing'')
        else case date_parse L (js_string (getp ch ''expires'')) of
          None \<Rightarrow> Inl (''invalid-challenge'', ''expires missing'')
        | Some t \<Rightarrow>
          if t \<le> nowMs then Inl (''payment-expired'', ''challenge expired'')
          else if truthy (getp ch ''digest'') \<and> (case bodyDigest of None \<Rightarrow> True | Some d \<Rightarrow> d = [] \<or> getp ch ''digest'' \<noteq> JStr d)
          then Inl (''invalid-challenge'', ''request body digest does not match the challenge'')
          else case parse_json64 L (str_of (getp ch ''request'')) of
            None \<Rightarrow> Inl (''invalid-challenge'', ''request is not base64url JSON'')
          | Some req \<Rightarrow> Inr req)"

definition mpp_auth :: "jsval \<Rightarrow> jsval" where  \<comment> \<open>the authorization assembled from the payload\<close>
  "mpp_auth pl = JObj (map (\<lambda>k. (k, getp pl k)) [''from'', ''to'', ''value'', ''validAfter'', ''validBefore'', ''nonce''])"

definition mpp_payload_check :: "pay_lib \<Rightarrow> jsval \<Rightarrow> jsval \<Rightarrow> jsval \<Rightarrow> int \<Rightarrow> problem + mpp_parsed" where
  "mpp_payload_check L cred ch req limit = (let pl = getp cred ''payload''; auth = mpp_auth pl in
     if \<not> is_object pl then Inl (''malformed-credential'', ''payload missing'')
     else if getp pl ''type'' \<noteq> JStr ''authorization''
     then Inl (''verification-failed'', ''unsupported payload type '' @ (if getp pl ''type'' = JUndef then ''undefined'' else json_stringify (getp pl ''type''))
            @ '' (this registrar accepts type=authorization only)'')
     else case checkAuthorizationShape auth of
       Some e \<Rightarrow> Inl (''malformed-credential'', e)
     | None \<Rightarrow>
       if \<not> is_signature (getp pl ''signature'') then Inl (''malformed-credential'', ''signature must be 65 bytes hex'')
       else if \<not> sameAddress (getp auth ''to'') (getp req ''recipient'') then Inl (''verification-failed'', ''to != challenge recipient'')
       else if getp auth ''value'' \<noteq> getp req ''amount'' then Inl (''verification-failed'', ''value != challenge amount'')
       else if js_lower (str_of (getp auth ''nonce'')) \<noteq> mppNonce L (str_of (getp ch ''id'')) (str_of (getp ch ''realm''))
       then Inl (''verification-failed'', ''nonce != keccak256(id, realm)'')
       else Inr \<lparr>mp_limit = limit, mp_challenge = ch, mp_request = req, mp_auth = auth_of auth, mp_signature = str_of (getp pl ''signature''),
            mp_source = (case getp cred ''source'' of JStr s \<Rightarrow> Some s | _ \<Rightarrow> None)\<rparr>)"

definition parseMppCredential :: "pay_lib \<Rightarrow> string \<Rightarrow> string \<Rightarrow> offer \<Rightarrow> string option \<Rightarrow> int \<Rightarrow> problem + mpp_parsed" where
  "parseMppCredential L header secret F bodyDigest nowMs = (case credential_token header of
     None \<Rightarrow> Inl (''malformed-credential'', ''Authorization must be `Payment <base64url>`'')
   | Some tok \<Rightarrow> (case parse_json64 L tok of
       None \<Rightarrow> Inl (''malformed-credential'', ''credential is not base64url JSON'')
     | Some cred \<Rightarrow> (let ch = getp cred ''challenge'' in
         if \<not> is_object ch then Inl (''malformed-credential'', ''credential.challenge missing'')
         else case mpp_challenge_check L secret F bodyDigest nowMs ch of
           Inl e \<Rightarrow> Inl e
         | Inr req \<Rightarrow> (case tierForAmount F (getp req ''amount'') of
             None \<Rightarrow> Inl (''invalid-challenge'', ''challenge no longer matches the current offer'')
           | Some limit \<Rightarrow>
               if \<not> sameAddress (getp req ''currency'') (JStr (of_asset F)) \<or> \<not> sameAddress (getp req ''recipient'') (JStr (of_payTo F))
               then Inl (''invalid-challenge'', ''challenge no longer matches the current offer'')
               else mpp_payload_check L cred ch req limit))))"

definition mppReceipt :: "pay_lib \<Rightarrow> string \<Rightarrow> string \<Rightarrow> int \<Rightarrow> int \<Rightarrow> (jsval \<times> string) res" where
  "mppReceipt L challengeId txHash chainId nowMs = bind_res (rfc3339 L nowMs) (\<lambda>ts.
     let r = JObj [(''status'', JStr ''success''), (''method'', JStr MPP_METHOD), (''challengeId'', JStr challengeId),
       (''reference'', JStr txHash), (''timestamp'', JStr ts), (''chainId'', JNum chainId)]
     in Inr (r, b64_of True (json_stringify r)))"

definition decodeMppReceipt :: "pay_lib \<Rightarrow> string \<Rightarrow> jsval option" where
  "decodeMppReceipt L h = parse_json64 L h"

definition PROBLEM_TITLES :: "(string \<times> string) list" where
  "PROBLEM_TITLES = [(''payment-required'', ''Payment Required''), (''payment-insufficient'', ''Payment Insufficient''),
     (''payment-expired'', ''Payment Expired''), (''verification-failed'', ''Verification Failed''), (''method-unsupported'', ''Method Unsupported''),
     (''malformed-credential'', ''Malformed Credential''), (''invalid-challenge'', ''Invalid Challenge'')]"

definition mppProblem :: "string \<Rightarrow> string \<Rightarrow> int \<Rightarrow> jsval" where
  "mppProblem code detail status = JObj [(''type'', JStr (MPP_PROBLEM_BASE @ code)),
     (''title'', JStr (case map_of PROBLEM_TITLES code of Some t \<Rightarrow> t | None \<Rightarrow> code)), (''status'', JNum status), (''detail'', JStr detail)]"

section \<open>Base 64 round trip\<close>

lemma b64_char_table:
  "map b64_val (b64_alphabet url) = [0..<64]" "CHR ''='' \<notin> set (b64_alphabet url)" "length (b64_alphabet url) = 64"
proof -
  show "map b64_val (b64_alphabet url) = [0..<64]" by (cases url; simp only:; code_simp)
  show "CHR ''='' \<notin> set (b64_alphabet url)" by (cases url; simp only:; code_simp)
  show "length (b64_alphabet url) = 64" by (simp add: b64_alphabet_def)
qed

lemma b64_char_facts:
  assumes "i < 64"
  shows "b64_val (b64_char url i) = i" "b64_class url (b64_char url i)" "b64_char url i \<noteq> CHR ''=''"
proof -
  have i: "i < length (b64_alphabet url)" using assms b64_char_table(3) by simp
  have "b64_val (b64_char url i) = map b64_val (b64_alphabet url) ! i" using i by (simp add: b64_char_def)
  then show "b64_val (b64_char url i) = i" using assms by (simp add: b64_char_table(1))
  have m: "b64_char url i \<in> set (b64_alphabet url)" using i by (simp add: b64_char_def)
  then show "b64_class url (b64_char url i)" by (simp add: b64_class_def)
  show "b64_char url i \<noteq> CHR ''=''" using m b64_char_table(2) by metis
qed

lemma b64_pad_class: "\<not> b64_class url (CHR ''='')"
  by (cases url) (simp_all add: b64_class_def b64_alphabet_def)

lemma sextet_lemmas:
  assumes "a < 256" "b < 256" "c < 256"
  shows "a div 4 < (64 :: nat)" "a mod 4 * 16 < (64 :: nat)" "a mod 4 * 16 + b div 16 < (64 :: nat)"
    "b mod 16 * 4 < (64 :: nat)" "b mod 16 * 4 + c div 64 < (64 :: nat)" "c mod 64 < (64 :: nat)"
  using assms by linarith+

lemma sextet_joins:
  assumes "b < (256 :: nat)" "c < (256 :: nat)"
  shows "a div 4 * 4 + (a mod 4 * 16 + b div 16) div 16 = a"
    "(a mod 4 * 16 + b div 16) mod 16 * 16 + (b mod 16 * 4 + c div 64) div 4 = b"
    "(b mod 16 * 4 + c div 64) mod 4 * 64 + c mod 64 = c"
proof -
  have "b div 16 < 16" "c div 64 < 4" using assms by linarith+
  then have d: "(a mod 4 * 16 + b div 16) div 16 = a mod 4" "(a mod 4 * 16 + b div 16) mod 16 = b div 16"
    "(b mod 16 * 4 + c div 64) div 4 = b mod 16" "(b mod 16 * 4 + c div 64) mod 4 = c div 64" by simp_all
  show "a div 4 * 4 + (a mod 4 * 16 + b div 16) div 16 = a" unfolding d by simp
  show "(a mod 4 * 16 + b div 16) mod 16 * 16 + (b mod 16 * 4 + c div 64) div 4 = b" unfolding d by simp
  show "(b mod 16 * 4 + c div 64) mod 4 * 64 + c mod 64 = c" unfolding d by simp
qed

lemma b64_unpack_pack:
  "list_all (\<lambda>n. n < 256) xs \<Longrightarrow> b64_unpack (map b64_val (takeWhile (\<lambda>c. c \<noteq> CHR ''='') (b64_pack url xs))) = xs"
proof (induction url xs rule: b64_pack.induct)
  case (2 url a)
  then show ?case using sextet_lemmas [of a 0 0] by (auto simp: b64_char_facts)
next
  case (3 url a b)
  then show ?case using sextet_lemmas [of a b 0]
    by (auto simp: b64_char_facts)
next
  case (4 url a b c r)
  have e: "b64_char url (a div 4) \<noteq> CHR ''=''" "b64_char url (a mod 4 * 16 + b div 16) \<noteq> CHR ''=''"
    "b64_char url (b mod 16 * 4 + c div 64) \<noteq> CHR ''=''" "b64_char url (c mod 64) \<noteq> CHR ''=''"
    using sextet_lemmas [of a b c] 4 by (simp_all add: b64_char_facts)
  have v: "b64_val (b64_char url (a div 4)) = a div 4" "b64_val (b64_char url (a mod 4 * 16 + b div 16)) = a mod 4 * 16 + b div 16"
    "b64_val (b64_char url (b mod 16 * 4 + c div 64)) = b mod 16 * 4 + c div 64" "b64_val (b64_char url (c mod 64)) = c mod 64"
    using sextet_lemmas [of a b c] 4 by (simp_all add: b64_char_facts)
  with 4 e v sextet_joins(1) [of b c a] sextet_joins(2) [of b c a] sextet_joins(3) [of b c] show ?case by simp
qed simp

lemma b64_pack_regex:
  "list_all (\<lambda>n. n < 256) xs \<Longrightarrow> xs \<noteq> [] \<Longrightarrow> b64_regex url (b64_pack url xs)"
proof (induction url xs rule: b64_pack.induct)
  case (2 url a)
  then show ?case using sextet_lemmas [of a 0 0] by (simp add: b64_regex_def b64_char_facts b64_pad_class Let_def)
next
  case (3 url a b)
  then show ?case using sextet_lemmas [of a b 0] by (simp add: b64_regex_def b64_char_facts b64_pad_class Let_def)
next
  case (4 url a b c r)
  have "b64_class url (b64_char url (a div 4))" "b64_class url (b64_char url (a mod 4 * 16 + b div 16))"
    "b64_class url (b64_char url (b mod 16 * 4 + c div 64))" "b64_class url (b64_char url (c mod 64))"
    using sextet_lemmas [of a b c] 4 by (simp_all add: b64_char_facts)
  with 4 show ?case by (cases r) (auto simp: b64_regex_def Let_def)
qed simp

lemma bytes_of_char: "list_all (\<lambda>n. n < (256 :: nat)) (map of_char s)"
  by (auto simp: list_all_iff)

lemma buffer_b64_of: "buffer_b64 (b64_of url s) = utf8 s"
  by (simp add: buffer_b64_def b64_of_def b64_unpack_pack bytes_of_char)

lemma utf8_Nil [simp]: "utf8 s = [] \<longleftrightarrow> s = []"
  by (cases s) (auto simp: utf8_def utf8_char_def Let_def)

lemma b64_of_regex: "s \<noteq> [] \<Longrightarrow> b64_regex url (b64_of url s)"
  by (simp add: b64_of_def b64_pack_regex bytes_of_char)

lemma b64_of_Nil [simp]: "b64_of url s = [] \<longleftrightarrow> s = []"
  using b64_of_regex [of s url] by (cases "s = []") (auto simp: b64_regex_def b64_of_def utf8_def Let_def)

lemma b64decode_of:
  assumes "\<And>t. utf8_str L (utf8 t) = t" "s \<noteq> []" "length (b64_of url s) \<le> 16 * 1024"
  shows "b64decode L url (b64_of url s) = Some s"
  using assms by (simp add: b64decode_def b64_of_regex buffer_b64_of)

section \<open>The challenge header\<close>

lemma quoted_string_escape: "quoted_string (concat (map q_escape v) @ CHR 0x22 # r) = (v, r)"
  by (induction v) (auto simp: q_escape_def)

definition param_name :: "string \<Rightarrow> bool" where
  "param_name k \<longleftrightarrow> k \<noteq> [] \<and> list_all token_char k \<and> js_lower k = k \<and> k \<noteq> ''__proto__''"

lemma www_order_names: "list_all param_name WWW_ORDER \<and> distinct WWW_ORDER"
  by code_simp

lemma token_not_blank: "token_char c \<Longrightarrow> \<not> www_blank c \<and> c \<noteq> CHR '',''"
  by (auto simp: token_char_def www_blank_def)

lemma token_stops: "\<not> token_char (CHR ''='')" "\<not> www_blank (CHR ''='')" "\<not> token_char (CHR '' '')"
  "\<not> www_blank (CHR 0x22)" "\<not> token_char (CHR '','')" "\<not> www_blank (CHR '','')" "www_blank (CHR '' '')"
  by (simp_all add: token_char_def www_blank_def)

lemma www_loop_comma: "www_loop (CHR '','' # s) cur out = www_loop s cur out"
  by (subst www_loop.simps) (simp add: token_stops)

lemma www_loop_blank: "s \<noteq> [] \<Longrightarrow> www_loop (CHR '' '' # s) cur out = www_loop s cur out"
  by (subst (1 2) www_loop.simps) (simp add: token_stops)

lemma www_loop_param:
  assumes k: "param_name k"
  shows "www_loop (auth_param k v @ r) InPayment (out @ [(t, ps)]) = www_loop r InPayment (out @ [(t, AList.update k v ps)])"
proof -
  obtain c k' where kc: "k = c # k'" "token_char c" using k by (cases k) (auto simp: param_name_def)
  have tok: "takeWhile token_char (auth_param k v @ r) = k"
    "dropWhile token_char (auth_param k v @ r) = CHR ''='' # CHR 0x22 # concat (map q_escape v) @ CHR 0x22 # r"
    using k by (simp_all add: auth_param_def param_name_def takeWhile_append dropWhile_append token_stops list_all_iff)
  have b: "dropWhile www_blank (auth_param k v @ r) = auth_param k v @ r"
    using token_not_blank [OF kc(2)] by (simp add: kc(1) auth_param_def)
  have h: "hd (auth_param k v @ r) \<noteq> CHR '',''" "auth_param k v \<noteq> []"
    using token_not_blank [OF kc(2)] by (simp_all add: kc(1) auth_param_def)
  show ?thesis
    using k h by (subst www_loop.simps) (simp add: b tok token_stops param_value_def quoted_string_escape set_param_def param_name_def)
qed

lemma www_loop_payment:
  assumes "dropWhile www_blank s = s" "s = [] \<or> hd s \<noteq> CHR ''=''"
  shows "www_loop (''Payment '' @ s) NoChallenge [] = www_loop s InPayment [(''Payment'', [])]"
proof -
  have tk: "takeWhile token_char (''Payment '' @ s) = ''Payment''" "dropWhile token_char (''Payment '' @ s) = CHR '' '' # s"
    "dropWhile www_blank (''Payment '' @ s) = ''Payment '' @ s" "dropWhile www_blank (CHR '' '' # s) = s"
    using assms(1) by (simp_all add: token_char_def www_blank_def)
  have low: "js_lower ''Payment'' = ''payment''" by code_simp
  have ht: "hd (''Payment '' @ s) = CHR ''P''" "''Payment'' \<noteq> []" "''Payment '' @ s \<noteq> []" by simp_all
  have nb: "s \<noteq> [] \<Longrightarrow> hd s = CHR ''='' \<longleftrightarrow> False" using assms(2) by blast
  show ?thesis
    by (subst www_loop.simps) (simp add: Let_def tk low ht nb cong: conj_cong del: append_Cons dropWhile.simps(2))
qed

lemma update_fresh: "k \<notin> fst ` set ps \<Longrightarrow> AList.update k v ps = ps @ [(k, v)]"
  by (induction ps) auto

lemma www_loop_params:
  "list_all (\<lambda>(k, v). param_name k) kvs \<Longrightarrow> distinct (map fst (ps @ kvs)) \<Longrightarrow>
     www_loop (join_with '', '' (map (\<lambda>(k, v). auth_param k v) kvs)) InPayment [(t, ps)] = [(t, ps @ kvs)]"
proof (induction kvs arbitrary: ps)
  case Nil
  then show ?case by (subst www_loop.simps) simp
next
  case (Cons kv kvs)
  obtain k v where kv: "kv = (k, v)" by (cases kv)
  have k: "param_name k" using Cons.prems kv by simp
  have up: "AList.update k v ps = ps @ [(k, v)]" using Cons.prems kv by (intro update_fresh) auto
  have IH: "www_loop (join_with '', '' (map (\<lambda>(k, v). auth_param k v) kvs)) InPayment [(t, ps @ [(k, v)])] = [(t, ps @ kv # kvs)]"
    using Cons.IH [of "ps @ [(k, v)]"] Cons.prems kv by simp
  show ?case
  proof (cases kvs)
    case Nil
    then show ?thesis using www_loop_param [OF k, of v "[]" "[]"] IH kv up by simp
  next
    case (Cons kv2 kvs2)
    then have ne: "join_with '', '' (map (\<lambda>(k, v). auth_param k v) kvs) \<noteq> []"
      by (cases kvs2; cases kv2) (simp_all add: auth_param_def)
    show ?thesis
      using www_loop_param [OF k, of v "'', '' @ join_with '', '' (map (\<lambda>(k, v). auth_param k v) kvs)" "[]"] IH ne
      by (simp add: kv up Cons www_loop_comma www_loop_blank)
  qed
qed

lemma www_params_fst: "map fst (www_params params) = filter (\<lambda>k. map_of params k \<notin> {None, Some []}) WWW_ORDER"
proof -
  have "map fst (concat (map (\<lambda>k. case map_of params k of Some v \<Rightarrow> if v = [] then [] else [(k, v)] | None \<Rightarrow> []) ks))
      = filter (\<lambda>k. map_of params k \<notin> {None, Some []}) ks" for ks
    by (induction ks) (auto split: option.splits)
  then show ?thesis by (simp add: www_params_def)
qed

lemma www_params_mem: "(k, v) \<in> set (www_params params) \<longleftrightarrow> k \<in> set WWW_ORDER \<and> map_of params k = Some v \<and> v \<noteq> []"
  by (auto simp: www_params_def split: option.splits if_splits) force+

lemma www_roundtrip:
  assumes len: "length (formatWwwAuthenticate params) \<le> 64 * 1024"
  shows "parseWwwAuthenticate (formatWwwAuthenticate params) = [(''Payment'', www_params params)]
    \<and> (\<forall>k v. map_of (www_params params) k = Some v \<longleftrightarrow> k \<in> set WWW_ORDER \<and> map_of params k = Some v \<and> v \<noteq> [])"
proof
  have names: "list_all (\<lambda>(k, v). param_name k) (www_params params)" "distinct (map fst (www_params params))"
    using www_order_names by (auto simp: www_params_mem www_params_fst list_all_iff)
  let ?body = "join_with '', '' (map (\<lambda>(k, v). auth_param k v) (www_params params))"
  have b: "dropWhile www_blank (CHR '' '' # ?body) = ?body \<and> (?body = [] \<or> hd ?body \<noteq> CHR ''='')"
  proof (cases "www_params params")
    case (Cons kv kvs)
    then obtain k v where kv: "kv = (k, v)" "param_name k" using names by (cases kv) auto
    then obtain c k' where "k = c # k'" "token_char c" by (cases k) (auto simp: param_name_def)
    then show ?thesis using Cons kv token_not_blank [of c] token_stops
      by (cases kvs) (auto simp: auth_param_def)
  qed (simp add: token_stops)
  then have "www_loop (''Payment '' @ ?body) NoChallenge [] = www_loop ?body InPayment [(''Payment'', [])]"
    by (intro www_loop_payment) (auto simp: token_stops)
  also have "\<dots> = [(''Payment'', www_params params)]" using www_loop_params [of "www_params params" "[]"] names by simp
  finally show "parseWwwAuthenticate (formatWwwAuthenticate params) = [(''Payment'', www_params params)]"
    using len by (simp add: parseWwwAuthenticate_def formatWwwAuthenticate_def)
  show "\<forall>k v. map_of (www_params params) k = Some v \<longleftrightarrow> k \<in> set WWW_ORDER \<and> map_of params k = Some v \<and> v \<noteq> []"
    using names(2) www_params_mem by (simp add: map_of_eq_Some_iff)
qed

text \<open>
  Printing a challenge and parsing the header line gives back that one \<open>Payment\<close> challenge with
  exactly its non-empty parameters, whatever characters the values hold (quotes, backslashes, commas
  and equal signs included), for every header within the parser's 64 KiB bound.
\<close>

theorem www_authenticate_roundtrip:
  assumes len: "length (formatWwwAuthenticate params) \<le> 64 * 1024"
  shows "parseWwwAuthenticate (formatWwwAuthenticate params) = [(''Payment'', www_params params)]
    \<and> (\<forall>k v. map_of (www_params params) k = Some v \<longleftrightarrow> k \<in> set WWW_ORDER \<and> map_of params k = Some v \<and> v \<noteq> [])"
  by (rule www_roundtrip [OF len])

theorem www_authenticate_roundtrip_witness:
  "length (formatWwwAuthenticate [(''id'', ''a'' @ [CHR 0x22, CHR 0x5C] @ '', b=''), (''realm'', ''r'')]) \<le> 64 * 1024
   \<and> parseWwwAuthenticate (formatWwwAuthenticate [(''id'', ''a'' @ [CHR 0x22, CHR 0x5C] @ '', b=''), (''realm'', ''r'')])
       = [(''Payment'', [(''id'', ''a'' @ [CHR 0x22, CHR 0x5C] @ '', b=''), (''realm'', ''r'')])]"
proof -
  let ?p = "[(''id'', ''a'' @ [CHR 0x22, CHR 0x5C] @ '', b=''), (''realm'', ''r'')]"
  have "length (formatWwwAuthenticate ?p) = 33" by code_simp
  then have l: "length (formatWwwAuthenticate ?p) \<le> 64 * 1024" by simp
  have w: "www_params ?p = ?p" by code_simp
  from l www_authenticate_roundtrip [OF l] show ?thesis unfolding w by blast
qed

section \<open>What an accepted payment pays\<close>

lemma checkAuthorizationShape_None:
  "checkAuthorizationShape v = None \<longleftrightarrow> plain_object v \<and> isAddress (getp v ''from'') \<and> isAddress (getp v ''to'')
     \<and> isUintString (getp v ''value'') \<and> isUintString (getp v ''validAfter'') \<and> isUintString (getp v ''validBefore'')
     \<and> isBytes32 (getp v ''nonce'')"
  by (auto simp: checkAuthorizationShape_def)

lemma string_kinds:
  "isAddress v \<Longrightarrow> v = JStr (str_of v)" "isUintString v \<Longrightarrow> v = JStr (str_of v)" "isBytes32 v \<Longrightarrow> v = JStr (str_of v)"
  "is_signature v \<Longrightarrow> v = JStr (str_of v)"
  by (cases v; simp)+

lemma str_of_kinds:
  "isUintString v \<Longrightarrow> isUintString (JStr (str_of v))" "is_signature v \<Longrightarrow> is_signature (JStr (str_of v))"
  by (cases v; simp)+

text \<open>The terms a settled authorization meets: it pays the price of an offered tier to the
  operator's address, and all its fields are well shaped.\<close>

definition pays_tier :: "offer \<Rightarrow> int \<Rightarrow> authorization \<Rightarrow> bool" where
  "pays_tier F limit a \<longleftrightarrow> (\<exists>e \<in> set (of_tiers F). snd e = au_value a \<and> limit = int (dec_nat (fst e)))
     \<and> sameAddress (JStr (au_to a)) (JStr (of_payTo F))
     \<and> hex0x 40 (au_from a) \<and> hex0x 64 (au_nonce a)
     \<and> isUintString (JStr (au_value a)) \<and> isUintString (JStr (au_validAfter a)) \<and> isUintString (JStr (au_validBefore a))"

lemma tierForAmount_SomeD:
  "tierForAmount F v = Some limit \<Longrightarrow> \<exists>l p. (l, p) \<in> set (of_tiers F) \<and> limit = int (dec_nat l) \<and> v = JStr p"
  by (auto simp: tierForAmount_def dest!: find_SomeD)

lemma pays_tierI:
  assumes "checkAuthorizationShape v = None" "tierForAmount F (getp v ''value'') = Some limit"
    "sameAddress (getp v ''to'') (JStr (of_payTo F))"
  shows "pays_tier F limit (auth_of v)"
proof -
  note sh = assms(1) [unfolded checkAuthorizationShape_None]
  have str: "getp v k = JStr (str_of (getp v k))" if "k \<in> {''from'', ''to'', ''value'', ''validAfter'', ''validBefore'', ''nonce''}" for k
    using sh that string_kinds by blast
  obtain l p where lp: "(l, p) \<in> set (of_tiers F)" "limit = int (dec_nat l)" "getp v ''value'' = JStr p"
    using tierForAmount_SomeD [OF assms(2)] by blast
  have h: "hex0x 40 (str_of (getp v ''from''))" "hex0x 64 (str_of (getp v ''nonce''))"
    using sh by (cases "getp v ''from''"; simp) (use sh in \<open>cases "getp v ''nonce''"; simp\<close>)
  have u: "isUintString (JStr (str_of (getp v ''value'')))" "isUintString (JStr (str_of (getp v ''validAfter'')))"
    "isUintString (JStr (str_of (getp v ''validBefore'')))"
    using sh by (blast intro: str_of_kinds(1))+
  have to_ok: "sameAddress (JStr (str_of (getp v ''to''))) (JStr (of_payTo F))" using assms(3) str [of "''to''"] by simp
  have "\<exists>e \<in> set (of_tiers F). snd e = str_of (getp v ''value'') \<and> limit = int (dec_nat (fst e))"
    using lp by (intro bexI [of _ "(l, p)"]) simp_all
  with h u to_ok show ?thesis
    unfolding pays_tier_def auth_of_def Let_def authorization.simps by blast
qed

lemma x402_payload_Inr:
  "x402_payload F p a limit = Inr r \<Longrightarrow>
     checkAuthorizationShape (getp (getp p ''payload'') ''authorization'') = None
     \<and> sameAddress (getp (getp (getp p ''payload'') ''authorization'') ''to'') (JStr (of_payTo F))
     \<and> getp (getp (getp p ''payload'') ''authorization'') ''value'' = getp a ''amount''
     \<and> is_signature (JStr (xp_signature r)) \<and> xp_limit r = limit \<and> xp_accepted r = a
     \<and> xp_auth r = auth_of (getp (getp p ''payload'') ''authorization'')"
  by (auto simp: x402_payload_def Let_def simp del: is_signature.simps intro: str_of_kinds split: if_splits)

lemma x402_sound:
  assumes ok: "parseX402Payment L header F = Inr r"
  shows "pays_tier F (xp_limit r) (xp_auth r) \<and> is_signature (JStr (xp_signature r))
    \<and> chainIdOfCaip2 (getp (xp_accepted r) ''network'') = Some (of_chainId F)
    \<and> sameAddress (getp (xp_accepted r) ''asset'') (JStr (of_asset F))"
proof -
  obtain p where p: "decodeX402Header L header = Some p"
    using ok by (auto simp: parseX402Payment_def split: option.splits)
  obtain limit where "chainIdOfCaip2 (getp (getp p ''accepted'') ''network'') = Some (of_chainId F)"
    "sameAddress (getp (getp p ''accepted'') ''asset'') (JStr (of_asset F))"
    "tierForAmount F (getp (getp p ''accepted'') ''amount'') = Some limit" "x402_payload F p (getp p ''accepted'') limit = Inr r"
    using ok by (auto simp: parseX402Payment_def p Let_def split: option.splits if_splits)
  with x402_payload_Inr [OF this(4)] pays_tierI show ?thesis by auto
qed

text \<open>
  An x402 payment that the registrar accepts names the offer's chain and asset, and its
  authorization transfers exactly the listed price of the tier it is accepted for to the operator's
  address; sender, nonce, validity window and signature are well shaped.
\<close>

theorem x402_payment_sound:
  assumes ok: "parseX402Payment L header F = Inr r"
  shows "pays_tier F (xp_limit r) (xp_auth r) \<and> is_signature (JStr (xp_signature r))
    \<and> chainIdOfCaip2 (getp (xp_accepted r) ''network'') = Some (of_chainId F)
    \<and> sameAddress (getp (xp_accepted r) ''asset'') (JStr (of_asset F))"
  by (rule x402_sound [OF ok])

definition demo_address :: string where
  "demo_address = ''0x'' @ replicate 40 (CHR ''a'')"

definition demo_offer :: offer where
  "demo_offer = \<lparr>of_chainId = 1, of_asset = demo_address, of_assetName = ''USDC'', of_assetVersion = ''2'', of_decimals = 6, of_payTo = demo_address,
     of_tiers = [(''8'', ''100'')], of_maxTimeoutSeconds = 600, of_settleBufferSec = 20, of_realm = ''r'', of_resourceUrl = [], of_description = [],
     of_protocols = [''x402'', ''mpp'']\<rparr>"

definition demo_auth :: "(string \<times> jsval) list" where
  "demo_auth = [(''from'', JStr demo_address), (''to'', JStr demo_address), (''value'', JStr ''100''), (''validAfter'', JStr ''0''),
     (''validBefore'', JStr ''90''), (''nonce'', JStr (''0x'' @ replicate 64 (CHR ''b'')))]"

definition demo_x402 :: jsval where
  "demo_x402 = JObj [(''x402Version'', JNum 2), (''accepted'', JObj [(''scheme'', JStr ''exact''), (''network'', JStr ''eip155:1''),
      (''amount'', JStr ''100''), (''asset'', JStr demo_address), (''payTo'', JStr demo_address)]),
     (''payload'', JObj [(''signature'', JStr (''0x'' @ replicate 130 (CHR ''c''))), (''authorization'', JObj demo_auth)])]"

definition demo_lib :: "jsval \<Rightarrow> jsval \<Rightarrow> pay_lib" where  \<comment> \<open>a library whose parser knows one text and one other value\<close>
  "demo_lib v w = \<lparr>utf8_str = (\<lambda>s. s), json_parse = (\<lambda>s. Inr (if s = ''q'' then w else v)), hmac_url = (\<lambda>_ _. ''i''), sha256_b64 = (\<lambda>_. ''d''),
     keccak_hex = (\<lambda>_. ''0x'' @ replicate 64 (CHR ''b'')), date_parse = (\<lambda>_. Some 5), iso_string = (\<lambda>_. Inr ''e'')\<rparr>"

lemma demo_address_ok: "isAddress (JStr demo_address)" "sameAddress (JStr demo_address) (JStr demo_address)"
  by (code_simp)+

lemma demo_kinds: "hex0x 64 (''0x'' @ replicate 64 (CHR ''b''))" "hex0x 130 (''0x'' @ replicate 130 (CHR ''c''))"
  "isUintString (JStr ''100'')" "isUintString (JStr ''0'')" "isUintString (JStr ''90'')" "chain_re ''eip155:1''"
  "dec_nat (drop 7 ''eip155:1'') = 1" "dec_nat ''8'' = 8"
proof -
  show "hex0x 64 (''0x'' @ replicate 64 (CHR ''b''))" "hex0x 130 (''0x'' @ replicate 130 (CHR ''c''))" "chain_re ''eip155:1''"
    "dec_nat (drop 7 ''eip155:1'') = 1" "dec_nat ''8'' = 8" by code_simp+
  show "isUintString (JStr ''100'')" "isUintString (JStr ''0'')" "isUintString (JStr ''90'')"
    by (simp_all add: all_digits_def is_digit_def dec_nat_def digit_val_def)
qed

lemma demo_b64: "b64decode L url ''YQ'' = Some (utf8_str L ''a'')" "b64decode L url ''cQ'' = Some (utf8_str L ''q'')"
proof -
  have "b64_regex url ''YQ''" "b64_regex url ''cQ''" by (cases url; simp only:; code_simp)+
  moreover have "buffer_b64 ''YQ'' = ''a''" "buffer_b64 ''cQ'' = ''q''" by code_simp+
  ultimately show "b64decode L url ''YQ'' = Some (utf8_str L ''a'')" "b64decode L url ''cQ'' = Some (utf8_str L ''q'')"
    by (simp_all add: b64decode_def)
qed

lemma demo_x402_accepted:
  "parseX402Payment (demo_lib demo_x402 w) ''YQ'' demo_offer
     = Inr \<lparr>xp_limit = 8, xp_accepted = getp demo_x402 ''accepted'', xp_auth = auth_of (JObj demo_auth),
            xp_signature = ''0x'' @ replicate 130 (CHR ''c''), xp_resource = JUndef\<rparr>"
proof -
  have sh: "checkAuthorizationShape (JObj demo_auth) = None"
    unfolding checkAuthorizationShape_None using demo_address_ok(1) demo_kinds by (simp add: demo_auth_def)
  have tier: "tierForAmount demo_offer (JStr ''100'') = Some 8" using demo_kinds(8) by (simp add: tierForAmount_def demo_offer_def)
  have ch: "chainIdOfCaip2 (JStr ''eip155:1'') = Some (of_chainId demo_offer)"
    using demo_kinds(6,7) by (simp add: chainIdOfCaip2_def demo_offer_def)
  have dec: "decodeX402Header (demo_lib demo_x402 w) ''YQ'' = Some demo_x402"
    unfolding decodeX402Header_def demo_b64(1) by (simp add: jsonParseSafe_def demo_lib_def demo_x402_def)
  have ad: "of_asset demo_offer = demo_address" "of_payTo demo_offer = demo_address" by (simp_all add: demo_offer_def)
  have pl: "x402_payload demo_offer demo_x402 (getp demo_x402 ''accepted'') 8
     = Inr \<lparr>xp_limit = 8, xp_accepted = getp demo_x402 ''accepted'', xp_auth = auth_of (JObj demo_auth),
            xp_signature = ''0x'' @ replicate 130 (CHR ''c''), xp_resource = JUndef\<rparr>"
  proof -
    have f: "getp demo_x402 ''payload'' = JObj [(''signature'', JStr (''0x'' @ replicate 130 (CHR ''c''))), (''authorization'', JObj demo_auth)]"
      "getp (getp demo_x402 ''accepted'') ''amount'' = JStr ''100''" "getp demo_x402 ''resource'' = JUndef"
      by (simp_all add: demo_x402_def)
    have g: "getp (JObj demo_auth) ''to'' = JStr demo_address" "getp (JObj demo_auth) ''value'' = JStr ''100''"
      by (simp_all add: demo_auth_def)
    show ?thesis unfolding x402_payload_def f Let_def using sh demo_address_ok demo_kinds(2) by (simp add: g [unfolded getp.simps] ad)
  qed
  show ?thesis
    unfolding parseX402Payment_def dec option.case Let_def
    using pl tier ch demo_address_ok demo_kinds(3) by (simp add: demo_x402_def ad del: isUintString.simps)
qed

theorem x402_payment_sound_witness:
  "\<exists>r. parseX402Payment (demo_lib demo_x402 JNull) ''YQ'' demo_offer = Inr r \<and> xp_limit r = 8 \<and> pays_tier demo_offer 8 (xp_auth r)"
  using x402_payment_sound [OF demo_x402_accepted] demo_x402_accepted by simp

lemma mpp_challenge_check_Inr:
  assumes "mpp_challenge_check L secret F bd now ch = Inr req"
  shows "getp ch ''realm'' = JStr (of_realm F) \<and> getp ch ''method'' = JStr MPP_METHOD \<and> getp ch ''intent'' = JStr MPP_INTENT
    \<and> getp ch ''id'' = JStr (mppChallengeId L secret (challenge_slots ch))
    \<and> (\<exists>t. date_parse L (js_string (getp ch ''expires'')) = Some t \<and> now < t) \<and> truthy (getp ch ''expires'')
    \<and> (truthy (getp ch ''digest'') \<longrightarrow> (\<exists>d. bd = Some d \<and> getp ch ''digest'' = JStr d))
    \<and> parse_json64 L (str_of (getp ch ''request'')) = Some req"
proof -
  have f: "find (\<lambda>k. \<not> nonempty_string (getp ch k)) [''id'', ''realm'', ''method'', ''intent'', ''request''] = None"
    using assms by (auto simp: mpp_challenge_check_def simp del: find.simps split: option.splits)
  have "nonempty_string (getp ch ''id'')" using f by (auto split: if_splits)
  then obtain i where i: "getp ch ''id'' = JStr i" by (cases "getp ch ''id''") auto
  show ?thesis
    using assms unfolding mpp_challenge_check_def f by (auto simp: i split: if_splits option.splits)
qed

lemma mpp_payload_check_Inr:
  assumes "mpp_payload_check L cred ch req limit = Inr r"
  shows "checkAuthorizationShape (mpp_auth (getp cred ''payload'')) = None
    \<and> sameAddress (getp (mpp_auth (getp cred ''payload'')) ''to'') (getp req ''recipient'')
    \<and> getp (mpp_auth (getp cred ''payload'')) ''value'' = getp req ''amount''
    \<and> js_lower (au_nonce (mp_auth r)) = mppNonce L (str_of (getp ch ''id'')) (str_of (getp ch ''realm''))
    \<and> is_signature (JStr (mp_signature r)) \<and> mp_limit r = limit \<and> mp_challenge r = ch \<and> mp_request r = req
    \<and> mp_auth r = auth_of (mpp_auth (getp cred ''payload''))"
  using assms by (auto simp: mpp_payload_check_def Let_def auth_of_def simp del: is_signature.simps intro: str_of_kinds split: if_splits option.splits)

lemma parseMppCredential_Inr:
  assumes "parseMppCredential L header secret F bd now = Inr r"
  obtains cred ch req limit where "mpp_challenge_check L secret F bd now ch = Inr req" "tierForAmount F (getp req ''amount'') = Some limit"
    "sameAddress (getp req ''currency'') (JStr (of_asset F))" "sameAddress (getp req ''recipient'') (JStr (of_payTo F))"
    "mpp_payload_check L cred ch req limit = Inr r"
  using assms by (auto simp: parseMppCredential_def Let_def split: option.splits if_splits sum.splits)

lemma sameAddress_trans: "sameAddress a b \<Longrightarrow> sameAddress b c \<Longrightarrow> sameAddress a c"
  by (auto simp: sameAddress_def)

lemma mpp_sound:
  assumes ok: "parseMppCredential L header secret F bodyDigest now = Inr r"
  shows "pays_tier F (mp_limit r) (mp_auth r)"
proof -
  obtain cred ch req lim where c: "tierForAmount F (getp req ''amount'') = Some lim"
    "sameAddress (getp req ''recipient'') (JStr (of_payTo F))" "mpp_payload_check L cred ch req lim = Inr r"
    using parseMppCredential_Inr [OF ok] by metis
  note pi = mpp_payload_check_Inr [OF c(3)]
  have "pays_tier F lim (auth_of (mpp_auth (getp cred ''payload'')))"
    using pi c(1,2) sameAddress_trans by (intro pays_tierI) auto
  then show ?thesis using pi by simp
qed

lemma utf8_inject: "utf8 s = utf8 t \<longleftrightarrow> s = t"
proof
  have hd8: "hd (utf8 (c # r)) = (let n = (of_char c :: nat) in if n < 128 then c else char_of (192 + n div 64))" for c r
    by (simp add: utf8_def utf8_char_def Let_def)
  show "utf8 s = utf8 t \<Longrightarrow> s = t"
  proof (induction s arbitrary: t)
    case Nil
    then show ?case by (metis utf8_Nil)
  next
    case (Cons c s)
    then obtain d t' where t: "t = d # t'" by (cases t) (metis list.distinct(1) utf8_Nil, auto)
    let ?c = "of_char c :: nat" and ?d = "of_char d :: nat"
    have lt: "?c < 256" "?d < 256" by simp_all
    have q: "of_char (char_of (192 + n div 64) :: char) = 192 + n div 64" "of_char (char_of (128 + n mod 64) :: char) = 128 + n mod 64"
      if "n < 256" for n :: nat using that by (auto intro!: mod_less)
    have same: "(?c < 128) = (?d < 128)"
    proof (rule ccontr)
      assume "(?c < 128) \<noteq> (?d < 128)"
      moreover have "of_char (hd (utf8 (c # s))) = (of_char (hd (utf8 (d # t'))) :: nat)" using Cons.prems t by simp
      ultimately show False unfolding hd8 Let_def using q [OF lt(1)] q [OF lt(2)] by (auto split: if_splits)
    qed
    show ?case
    proof (cases "?c < 128")
      case True
      with same Cons t show ?thesis by (simp add: utf8_def utf8_char_def Let_def)
    next
      case False
      with same Cons.prems t have e: "char_of (192 + ?c div 64) = (char_of (192 + ?d div 64) :: char)"
        "char_of (128 + ?c mod 64) = (char_of (128 + ?d mod 64) :: char)" "utf8 s = utf8 t'"
        by (simp_all add: utf8_def utf8_char_def Let_def)
      have "?c div 64 = ?d div 64" "?c mod 64 = ?d mod 64"
        using e(1,2) q [OF lt(1)] q [OF lt(2)] by (metis add_left_cancel)+
      then have "?c = ?d" by (metis div_mult_mod_eq)
      with Cons.IH [OF e(3)] t show ?thesis by simp
    qed
  qed
qed simp

section \<open>The challenge binding\<close>

fun pipes :: "string \<Rightarrow> nat" where
  "pipes [] = 0"
| "pipes (c # s) = (if c = CHR ''|'' then 1 else 0) + pipes s"

lemma pipes_append [simp]: "pipes (a @ b) = pipes a + pipes b"
  by (induction a) auto

lemma pipes_0: "pipes s = 0 \<longleftrightarrow> CHR ''|'' \<notin> set s"
  by (induction s) auto

lemma pipes_join: "xs \<noteq> [] \<Longrightarrow> pipes (join_with ''|'' xs) + 1 = length xs + sum_list (map pipes xs)"
  by (induction "''|''" xs rule: join_with.induct) auto

lemma split_join: "xs \<noteq> [] \<Longrightarrow> \<forall>x \<in> set xs. c \<notin> set x \<Longrightarrow> split_on c (join_with [c] xs) = xs"
  by (induction "[c]" xs rule: join_with.induct) (auto simp: split_on_single split_on_append)

lemma slots_inject:
  assumes "mpp_slots xs = mpp_slots ys" "length xs = length ys" "ys \<noteq> []" "\<forall>y \<in> set ys. CHR ''|'' \<notin> set y"
  shows "xs = ys"
proof -
  have xs: "xs \<noteq> []" using assms(2,3) by (cases xs) auto
  have j: "join_with ''|'' xs = join_with ''|'' ys" using assms(1) by (simp add: mpp_slots_def)
  have "\<forall>n \<in> set (map pipes ys). n = 0" using assms(4) pipes_0 by auto
  then have "sum_list (map pipes ys) = 0" by (simp only: sum_list_eq_0_iff)
  then have "sum_list (map pipes xs) = 0" using pipes_join [OF xs] pipes_join [OF assms(3)] j assms(2) by simp
  then have "\<forall>x \<in> set xs. CHR ''|'' \<notin> set x" using pipes_0 by auto
  then have "split_on (CHR ''|'') (join_with ''|'' xs) = xs" using xs by (simp add: split_join)
  moreover have "split_on (CHR ''|'') (join_with ''|'' ys) = ys" using assms(3,4) by (simp add: split_join)
  ultimately show ?thesis using j by metis
qed

lemma b64_url_set: "list_all (\<lambda>n. n < 256) xs \<Longrightarrow> set (b64_pack True xs) \<subseteq> set (b64_alphabet True)"
proof (induction "True" xs rule: b64_pack.induct)
  case (2 a)
  then show ?case using sextet_lemmas [of a 0 0] b64_char_facts(2) [of _ True] by (simp add: b64_class_def)
next
  case (3 a b)
  then show ?case using sextet_lemmas [of a b 0] b64_char_facts(2) [of _ True] by (simp add: b64_class_def)
next
  case (4 a b c r)
  then show ?case using sextet_lemmas [of a b c] b64_char_facts(2) [of _ True] by (simp add: b64_class_def)
qed simp

lemma b64_url_no_pipe: "CHR ''|'' \<notin> set (b64_of True s)"
proof -
  have "CHR ''|'' \<notin> set (b64_alphabet True)" by code_simp
  then show ?thesis using b64_url_set [OF bytes_of_char, of "utf8 s"] by (auto simp: b64_of_def)
qed

lemma strip_millis_set: "set (strip_millis s) \<subseteq> insert (CHR ''Z'') (set s)"
  by (auto simp: strip_millis_def Let_def dest: in_set_takeD)

definition issued_slots :: "(string \<times> string) list \<Rightarrow> string list" where
  "issued_slots params = map (\<lambda>k. case map_of params k of Some v \<Rightarrow> v | None \<Rightarrow> [])
     [''realm'', ''method'', ''intent'', ''request'', ''expires'', ''digest'', ''opaque'']"

lemma mppChallenge_Inr:
  assumes "mppChallenge L F limit secret digest nowMs rnd = Inr (params, hdr)"
  obtains rq ex opq where "jcs (mppRequest F limit) = Inr rq" "rfc3339 L (nowMs + of_maxTimeoutSeconds F * 1000) = Inr ex"
    "params = [(''id'', mppChallengeId L secret [of_realm F, MPP_METHOD, MPP_INTENT, b64_of True rq, ex, digest, b64_of True opq]),
       (''realm'', of_realm F), (''method'', MPP_METHOD), (''intent'', MPP_INTENT), (''request'', b64_of True rq),
       (''expires'', ex), (''opaque'', b64_of True opq)] @ (if digest \<noteq> [] then [(''digest'', digest)] else [])
       @ [(''description'', tier_text F limit)]"
    "issued_slots params = [of_realm F, MPP_METHOD, MPP_INTENT, b64_of True rq, ex, digest, b64_of True opq]"
    "hdr = formatWwwAuthenticate params"
    "jcs (JObj [(''limit'', JStr (int_dec limit)), (''nonce'', JStr rnd)]) = Inr opq"
proof -
  obtain rq ex opq where r: "jcs (mppRequest F limit) = Inr rq" "rfc3339 L (nowMs + of_maxTimeoutSeconds F * 1000) = Inr ex"
    and pr: "params = [(''id'', mppChallengeId L secret [of_realm F, MPP_METHOD, MPP_INTENT, b64_of True rq, ex, digest, b64_of True opq]),
       (''realm'', of_realm F), (''method'', MPP_METHOD), (''intent'', MPP_INTENT), (''request'', b64_of True rq),
       (''expires'', ex), (''opaque'', b64_of True opq)] @ (if digest \<noteq> [] then [(''digest'', digest)] else [])
       @ [(''description'', tier_text F limit)]" and h: "hdr = formatWwwAuthenticate params"
    and j: "jcs (JObj [(''limit'', JStr (int_dec limit)), (''nonce'', JStr rnd)]) = Inr opq"
    using assms by (auto simp: mppChallenge_def bind_res_Inr_iff Let_def simp del: jcs.simps)
  have "issued_slots params = [of_realm F, MPP_METHOD, MPP_INTENT, b64_of True rq, ex, digest, b64_of True opq]"
    unfolding pr issued_slots_def by (cases "digest = []") simp_all
  with that r pr h j show thesis by blast
qed

lemma mppChallenge_parts:
  assumes ch: "mppChallenge L F limit secret digest nowMs rnd = Inr (params, hdr)" and ex: "rfc3339 L (nowMs + of_maxTimeoutSeconds F * 1000) = Inr e"
  shows "\<exists>rq opq. jcs (mppRequest F limit) = Inr rq \<and> jcs (JObj [(''limit'', JStr (int_dec limit)), (''nonce'', JStr rnd)]) = Inr opq
    \<and> params = [(''id'', mppChallengeId L secret (issued_slots params)),
       (''realm'', of_realm F), (''method'', MPP_METHOD), (''intent'', MPP_INTENT), (''request'', b64_of True rq),
       (''expires'', e), (''opaque'', b64_of True opq)] @ (if digest \<noteq> [] then [(''digest'', digest)] else [])
       @ [(''description'', tier_text F limit)]
    \<and> issued_slots params = [of_realm F, MPP_METHOD, MPP_INTENT, b64_of True rq, e, digest, b64_of True opq]
    \<and> hdr = formatWwwAuthenticate params"
proof -
  show ?thesis
  proof (rule mppChallenge_Inr [OF ch])
    fix rq ex' opq'
    assume r: "jcs (mppRequest F limit) = Inr rq" "rfc3339 L (nowMs + of_maxTimeoutSeconds F * 1000) = Inr ex'"
      and pr: "params = [(''id'', mppChallengeId L secret [of_realm F, MPP_METHOD, MPP_INTENT, b64_of True rq, ex', digest, b64_of True opq']),
       (''realm'', of_realm F), (''method'', MPP_METHOD), (''intent'', MPP_INTENT), (''request'', b64_of True rq),
       (''expires'', ex'), (''opaque'', b64_of True opq')] @ (if digest \<noteq> [] then [(''digest'', digest)] else [])
       @ [(''description'', tier_text F limit)]"
      and sl: "issued_slots params = [of_realm F, MPP_METHOD, MPP_INTENT, b64_of True rq, ex', digest, b64_of True opq']"
      and h: "hdr = formatWwwAuthenticate params"
      and j: "jcs (JObj [(''limit'', JStr (int_dec limit)), (''nonce'', JStr rnd)]) = Inr opq'"
    have "ex' = e" using r(2) ex by simp
    with r pr sl h j show ?thesis by metis
  qed
qed

text \<open>
  C15: An accepted MPP credential pays exactly the listed price of its tier to the operator, is signed
  over the nonce derived from its challenge, has not expired and matches the request body. If it
  carries the id of a challenge this registrar issued, then every bound slot (request, expiry, body
  digest, opaque data) is the issued one, or two different inputs of the keyed hash collide: slots
  cannot be shifted across their separators.
\<close>

theorem mpp_credential_bound:
  assumes ok: "parseMppCredential L header secret F bodyDigest now = Inr r"
    and issued: "mppChallenge L F0 limit secret digest t0 rnd = Inr (params, hdr)"
    and same: "map_of params ''id'' = Some (str_of (getp (mp_challenge r) ''id''))"
    and clean: "CHR ''|'' \<notin> set (of_realm F0) \<union> set digest" "\<And>ms s. iso_string L ms = Inr s \<Longrightarrow> CHR ''|'' \<notin> set s"
  shows "pays_tier F (mp_limit r) (mp_auth r)
    \<and> js_lower (au_nonce (mp_auth r)) = mppNonce L (str_of (getp (mp_challenge r) ''id'')) (of_realm F)
    \<and> (\<exists>t. date_parse L (js_string (getp (mp_challenge r) ''expires'')) = Some t \<and> now < t)
    \<and> (challenge_slots (mp_challenge r) = issued_slots params \<and> (digest = [] \<or> bodyDigest = Some digest)
       \<or> (\<exists>x y. x \<noteq> y \<and> hmac_url L secret x = hmac_url L secret y))"
proof -
  obtain cred ch req lim where c: "mpp_challenge_check L secret F bodyDigest now ch = Inr req" "tierForAmount F (getp req ''amount'') = Some lim"
    "sameAddress (getp req ''recipient'') (JStr (of_payTo F))" "mpp_payload_check L cred ch req lim = Inr r"
    using parseMppCredential_Inr [OF ok] by metis
  note ci = mpp_challenge_check_Inr [OF c(1)]
  note pi = mpp_payload_check_Inr [OF c(4)]
  have pay: "pays_tier F (mp_limit r) (mp_auth r)" by (rule mpp_sound [OF ok])
  have nonce: "js_lower (au_nonce (mp_auth r)) = mppNonce L (str_of (getp (mp_challenge r) ''id'')) (of_realm F)"
  proof -
    have "js_lower (au_nonce (mp_auth r)) = mppNonce L (str_of (getp ch ''id'')) (str_of (getp ch ''realm''))" "mp_challenge r = ch"
      using pi by blast+
    moreover have "str_of (getp ch ''realm'') = of_realm F" using ci by simp
    ultimately show ?thesis by simp
  qed
  have ex: "\<exists>t. date_parse L (js_string (getp (mp_challenge r) ''expires'')) = Some t \<and> now < t" using pi ci by simp
  obtain rq e opq where i: "rfc3339 L (t0 + of_maxTimeoutSeconds F0 * 1000) = Inr e"
    "map_of params ''id'' = Some (mppChallengeId L secret (issued_slots params))"
    "issued_slots params = [of_realm F0, MPP_METHOD, MPP_INTENT, b64_of True rq, e, digest, b64_of True opq]"
    by (rule mppChallenge_Inr [OF issued]) simp
  have "CHR ''|'' \<notin> set e"
    using i(1) clean(2) strip_millis_set by (auto simp: rfc3339_def bind_res_Inr_iff)
  then have nopipe: "\<forall>y \<in> set (issued_slots params). CHR ''|'' \<notin> set y"
    using clean(1) b64_url_no_pipe by (auto simp: i(3) MPP_METHOD_def MPP_INTENT_def)
  have hm: "hmac_url L secret (utf8 (mpp_slots (challenge_slots ch))) = hmac_url L secret (utf8 (mpp_slots (issued_slots params)))"
    using i(2) same pi ci by (simp add: mppChallengeId_def)
  have "challenge_slots ch = issued_slots params \<and> (digest = [] \<or> bodyDigest = Some digest)"
    if "utf8 (mpp_slots (challenge_slots ch)) = utf8 (mpp_slots (issued_slots params))"
  proof -
    have sl: "challenge_slots ch = issued_slots params"
      using that nopipe by (intro slots_inject) (auto simp: utf8_inject challenge_slots_def i(3))
    then have d: "slot (getp ch ''digest'') = digest" by (simp add: challenge_slots_def i(3))
    have "digest = [] \<or> bodyDigest = Some digest"
    proof (cases "truthy (getp ch ''digest'')")
      case True
      with ci obtain b where "bodyDigest = Some b" "getp ch ''digest'' = JStr b" by blast
      with d True show ?thesis by (simp add: slot_def js_or_def)
    next
      case False
      with d show ?thesis by (simp add: slot_def js_or_def)
    qed
    with sl show ?thesis by blast
  qed
  with hm pay nonce ex pi show ?thesis by metis
qed

definition demo_cred :: jsval where
  "demo_cred = JObj [(''challenge'', JObj [(''id'', JStr ''i''), (''realm'', JStr ''r''), (''method'', JStr ''evm''), (''intent'', JStr ''charge''),
      (''request'', JStr ''cQ''), (''expires'', JStr ''e'')]),
     (''payload'', JObj ((''type'', JStr ''authorization'') # demo_auth @ [(''signature'', JStr (''0x'' @ replicate 130 (CHR ''c'')))]))]"

definition demo_request :: jsval where
  "demo_request = JObj [(''amount'', JStr ''100''), (''currency'', JStr demo_address), (''recipient'', JStr demo_address)]"

lemma demo_mpp_accepted:
  "\<exists>r. parseMppCredential (demo_lib demo_cred demo_request) ''Payment YQ'' ''k'' demo_offer None 4 = Inr r
     \<and> mp_limit r = 8 \<and> getp (mp_challenge r) ''id'' = JStr ''i''"
proof -
  let ?L = "demo_lib demo_cred demo_request"
  have tok: "credential_token ''Payment YQ'' = Some ''YQ''" by code_simp
  have j: "parse_json64 ?L ''YQ'' = Some demo_cred" "parse_json64 ?L ''cQ'' = Some demo_request"
    unfolding parse_json64_def demo_b64 by (simp_all add: jsonParseSafe_def demo_lib_def demo_cred_def demo_request_def)
  let ?ch = "getp demo_cred ''challenge''"
  have ck: "mpp_challenge_check ?L ''k'' demo_offer None 4 ?ch = Inr demo_request"
    using j(2) by (simp add: mpp_challenge_check_def demo_cred_def MPP_METHOD_def MPP_INTENT_def demo_offer_def mppChallengeId_def demo_lib_def)
  have tier: "tierForAmount demo_offer (JStr ''100'') = Some 8" using demo_kinds(8) by (simp add: tierForAmount_def demo_offer_def)
  have au: "mpp_auth (getp demo_cred ''payload'') = JObj demo_auth"
    by (simp add: mpp_auth_def demo_cred_def demo_auth_def)
  have sh: "checkAuthorizationShape (JObj demo_auth) = None"
    unfolding checkAuthorizationShape_None using demo_address_ok(1) demo_kinds by (simp add: demo_auth_def)
  have nn: "js_lower (''0x'' @ replicate 64 (CHR ''b'')) = ''0x'' @ replicate 64 (CHR ''b'')" by code_simp
  have g: "getp (JObj demo_auth) ''to'' = JStr demo_address" "getp (JObj demo_auth) ''value'' = JStr ''100''"
    "getp (JObj demo_auth) ''nonce'' = JStr (''0x'' @ replicate 64 (CHR ''b''))"
    "getp demo_request ''recipient'' = JStr demo_address" "getp demo_request ''currency'' = JStr demo_address"
    "getp demo_request ''amount'' = JStr ''100''"
    "is_object (getp demo_cred ''payload'')" "getp (getp demo_cred ''payload'') ''type'' = JStr ''authorization''"
    "getp (getp demo_cred ''payload'') ''signature'' = JStr (''0x'' @ replicate 130 (CHR ''c''))" "is_object ?ch" "getp ?ch ''id'' = JStr ''i''"
    by (simp_all add: demo_auth_def demo_request_def demo_cred_def)
  have kh: "keccak_hex ?L x = ''0x'' @ replicate 64 (CHR ''b'')" for x by (simp add: demo_lib_def)
  have sig: "is_signature (JStr (''0x'' @ replicate 130 (CHR ''c'')))" using demo_kinds(2) by simp
  obtain r where r: "mpp_payload_check ?L demo_cred ?ch demo_request 8 = Inr r" "mp_limit r = 8" "mp_challenge r = ?ch"
    unfolding mpp_payload_check_def au Let_def g sh mppNonce_def kh str_of.simps nn
    using sig g(7) demo_address_ok(2) by (simp del: getp.simps is_signature.simps)
  have ad: "of_asset demo_offer = demo_address" "of_payTo demo_offer = demo_address" by (simp_all add: demo_offer_def)
  have "parseMppCredential ?L ''Payment YQ'' ''k'' demo_offer None 4 = Inr r"
    unfolding parseMppCredential_def tok option.case j Let_def ck sum.case g tier ad
    using demo_address_ok(2) g(10) r(1) by (simp del: getp.simps)
  with r g(11) show ?thesis by auto
qed

theorem mpp_credential_bound_witness:
  "\<exists>r. parseMppCredential (demo_lib demo_cred demo_request) ''Payment YQ'' ''k'' demo_offer None 4 = Inr r \<and> pays_tier demo_offer 8 (mp_auth r)"
proof -
  let ?L = "demo_lib demo_cred demo_request"
  obtain r where r: "parseMppCredential ?L ''Payment YQ'' ''k'' demo_offer None 4 = Inr r" "mp_limit r = 8"
    "getp (mp_challenge r) ''id'' = JStr ''i''" using demo_mpp_accepted by blast
  have "price_val demo_offer 8 = JStr ''100'' \<or> price_val demo_offer 8 = JNull"
  proof -
    have "js_string (js_number (JNum 8)) = ''8''" by code_simp
    then show ?thesis by (simp add: price_val_def priceOf_def demo_offer_def)
  qed
  then have "json_plain (mppRequest demo_offer 8)" by (auto simp: mppRequest_def)
  then obtain rq where rq: "jcs (mppRequest demo_offer 8) = Inr rq" using jcs_total by blast
  have "json_plain (JObj [(''limit'', JStr (int_dec 8)), (''nonce'', JStr ''n'')])" by simp
  then obtain opq where "jcs (JObj [(''limit'', JStr (int_dec 8)), (''nonce'', JStr ''n'')]) = Inr opq" using jcs_total by blast
  note rq this
  moreover have "rfc3339 ?L m = Inr (strip_millis ''e'')" for m by (simp add: rfc3339_def demo_lib_def)
  ultimately have "res_ok (mppChallenge ?L demo_offer 8 ''k'' [] 0 ''n'')" by (simp add: mppChallenge_def Let_def del: jcs.simps)
  then obtain params hdr where c: "mppChallenge ?L demo_offer 8 ''k'' [] 0 ''n'' = Inr (params, hdr)" by (auto simp: res_ok_iff)
  have same: "map_of params ''id'' = Some (str_of (getp (mp_challenge r) ''id''))"
    by (rule mppChallenge_Inr [OF c]) (simp add: r mppChallengeId_def demo_lib_def)
  have clean: "CHR ''|'' \<notin> set (of_realm demo_offer) \<union> set []" by (simp add: demo_offer_def)
  have iso: "\<And>ms s. iso_string ?L ms = Inr s \<Longrightarrow> CHR ''|'' \<notin> set s" by (auto simp: demo_lib_def)
  show ?thesis using mpp_credential_bound [OF r(1) c same clean iso] r by auto
qed

end
