(* ===== verification/PayBuyer.thy ===== *)
theory PayBuyer
  imports PayWire
begin

text \<open>
  The buyer of a membership leaf: \<open>payX402\<close> and \<open>payMpp\<close> of \<^verbatim>\<open>src/group/pay.mjs\<close> with the
  signing helpers of \<^verbatim>\<open>src/payments/eip3009.mjs\<close>, from the registrar's 402 answer to the
  payment header it sends back. The wallet's address and typed-data signature and the checksum
  function of \<open>ethers\<close> are arguments; printing and the HTTP exchange are left out.
\<close>

section \<open>Signing\<close>

record wallet =
  w_address :: string
  w_getAddress :: "string \<Rightarrow> string res"
  w_sign :: "string \<times> string \<times> int \<times> string \<Rightarrow> authorization \<Rightarrow> string res"  \<comment> \<open>domain: name, version, chain, contract\<close>

definition tokenDomain :: "wallet \<Rightarrow> string \<Rightarrow> string \<Rightarrow> int \<Rightarrow> string \<Rightarrow> (string \<times> string \<times> int \<times> string) res" where
  "tokenDomain W name version chainId asset = bind_res (w_getAddress W asset) (\<lambda>a. Inr (name, version, chainId, a))"

definition auth_val :: "authorization \<Rightarrow> (string \<times> jsval) list" where
  "auth_val a = [(''from'', JStr (au_from a)), (''to'', JStr (au_to a)), (''value'', JStr (au_value a)), (''validAfter'', JStr (au_validAfter a)),
     (''validBefore'', JStr (au_validBefore a)), (''nonce'', JStr (au_nonce a))]"

definition signAuthorization :: "wallet \<Rightarrow> string \<times> string \<times> int \<times> string \<Rightarrow> authorization \<Rightarrow> string res" where
  "signAuthorization W domain a = (case checkAuthorizationShape (JObj (auth_val a)) of
     Some e \<Rightarrow> Inl (Error e) | None \<Rightarrow> w_sign W domain a)"

text \<open>The authorization of a buyer, refused when the quote makes it ill-shaped.\<close>

definition buyer_auth :: "wallet \<Rightarrow> jsval \<Rightarrow> jsval \<Rightarrow> string \<Rightarrow> string \<Rightarrow> string \<Rightarrow> authorization res" where
  "buyer_auth W recipient amount before nonce what =
     (case recipient of JStr r \<Rightarrow> bind_res (w_getAddress W r) (\<lambda>to_addr.
        let a = \<lparr>au_from = w_address W, au_to = to_addr, au_value = js_string amount, au_validAfter = ''0'', au_validBefore = before, au_nonce = nonce\<rparr> in
        case checkAuthorizationShape (JObj (auth_val a)) of Some e \<Rightarrow> Inl (Error (what @ e)) | None \<Rightarrow> Inr a)
      | _ \<Rightarrow> Inl TypeError)"

section \<open>x402\<close>

definition x402_pick :: "jsval \<Rightarrow> int \<Rightarrow> jsval option" where
  "x402_pick pr limit = (case getp pr ''accepts'' of
     JArr vs \<Rightarrow> find (\<lambda>a. truthy a \<and> getp a ''scheme'' = JStr ''exact'' \<and> truthy (getp a ''extra'')
         \<and> js_number (getp (getp a ''extra'') ''limit'') = JNum limit \<and> chainIdOfCaip2 (getp a ''network'') \<noteq> None) vs
   | _ \<Rightarrow> None)"

definition payX402 :: "pay_lib \<Rightarrow> wallet \<Rightarrow> int \<Rightarrow> string \<Rightarrow> int \<Rightarrow> string \<Rightarrow> (authorization \<times> string) res" where
  "payX402 L W limit header nowMs nonce = (case decodeX402Header L header of
     None \<Rightarrow> Inl (Error ''registrar sent no usable PAYMENT-REQUIRED (x402 v2) header'')
   | Some pr \<Rightarrow>
       if getp pr ''x402Version'' \<noteq> JNum 2 then Inl (Error ''registrar sent no usable PAYMENT-REQUIRED (x402 v2) header'')
       else case x402_pick pr limit of
         None \<Rightarrow> Inl (Error ''no x402 'exact' requirement for the tier in the quote'')
       | Some acc \<Rightarrow> (let extra = getp acc ''extra'' in
           bind_res (tokenDomain W (js_string (getp extra ''name'')) (js_string (getp extra ''version'')) (the (chainIdOfCaip2 (getp acc ''network'')))
               (str_of (getp acc ''asset''))) (\<lambda>domain.
           bind_res (case js_number (getp acc ''maxTimeoutSeconds'') of JNum n \<Rightarrow> Inr (int_dec (nowMs div 1000 + n)) | v \<Rightarrow> Inr (js_string v)) (\<lambda>before.
           bind_res (buyer_auth W (getp acc ''payTo'') (getp acc ''amount'') before nonce ''bad quote: '') (\<lambda>a.
           bind_res (signAuthorization W domain a) (\<lambda>sig.
             Inr (a, encodeX402Header (x402PaymentPayload pr acc (JObj (auth_val a)) sig))))))))"

section \<open>MPP\<close>

definition decodeReq :: "pay_lib \<Rightarrow> (string \<times> string) list \<Rightarrow> jsval option" where
  "decodeReq L c = parse_json64 L (case map_of c ''request'' of Some r \<Rightarrow> r | None \<Rightarrow> [])"

definition mpp_pick :: "pay_lib \<Rightarrow> int \<Rightarrow> (string \<times> string) list list \<Rightarrow> ((string \<times> string) list \<times> jsval) option" where
  "mpp_pick L limit cs = map_option (\<lambda>c. (c, the (decodeReq L c)))
     (find (\<lambda>c. map_of c ''method'' = Some ''evm'' \<and> map_of c ''intent'' = Some ''charge''
        \<and> (case decodeReq L c of None \<Rightarrow> False | Some req \<Rightarrow> getp req ''externalId'' = JStr (''limit='' @ int_dec limit))) cs)"

definition param_text :: "(string \<times> string) list \<Rightarrow> string \<Rightarrow> string" where  \<comment> \<open>\<open>String(c.k)\<close>\<close>
  "param_text c k = (case map_of c k of Some v \<Rightarrow> v | None \<Rightarrow> ''undefined'')"

definition expires_sec :: "pay_lib \<Rightarrow> (string \<times> string) list \<Rightarrow> string" where
  "expires_sec L c = (case date_parse L (param_text c ''expires'') of Some t \<Rightarrow> int_dec (t div 1000) | None \<Rightarrow> ''NaN'')"

definition accepts_authorization :: "jsval \<Rightarrow> bool" where
  "accepts_authorization md = (case getp md ''credentialTypes'' of JArr vs \<Rightarrow> JStr ''authorization'' \<in> set vs | _ \<Rightarrow> False)"

definition payMpp :: "pay_lib \<Rightarrow> wallet \<Rightarrow> int \<Rightarrow> string list \<Rightarrow> jsval \<Rightarrow> (authorization \<times> string) res" where
  "payMpp L W limit headers pay = (case mpp_pick L limit (map snd (concat (map parseWwwAuthenticate headers))) of
     None \<Rightarrow> Inl (Error ''no MPP evm/charge challenge for the tier'')
   | Some (c, req) \<Rightarrow>
       (let md = js_or (getp req ''methodDetails'') (JObj []); dom = getp md ''eip712Domain'';
          name = js_or (getp dom ''name'') (getp pay ''assetName''); version = js_or (getp dom ''version'') (getp pay ''assetVersion'') in
        if \<not> accepts_authorization md then Inl (Error ''registrar's MPP challenge does not accept type=authorization (EIP-3009)'')
        else if \<not> truthy name \<or> \<not> truthy version then Inl (Error ''registrar's challenge lacks the token's EIP-712 domain'')
        else case js_number (getp md ''chainId'') of
          JNum chainId \<Rightarrow>
            bind_res (tokenDomain W (js_string name) (js_string version) chainId (str_of (getp req ''currency''))) (\<lambda>domain.
            bind_res (buyer_auth W (getp req ''recipient'') (getp req ''amount'') (expires_sec L c)
               (mppNonce L (param_text c ''id'') (param_text c ''realm'')) ''bad challenge: '') (\<lambda>a.
            bind_res (signAuthorization W domain a) (\<lambda>sig.
              Inr (a, mppCredential c (JObj ((''type'', JStr ''authorization'') # auth_val a @ [(''signature'', JStr sig)]))
                 (Some (''did:pkh:eip155:'' @ int_dec chainId @ '':'' @ w_address W))))))
        | _ \<Rightarrow> Inl (Error ''bad challenge: chainId'')))"

section \<open>Canonical JSON\<close>

text \<open>\<open>jcs\<close> prints what \<open>JSON.stringify\<close> prints for the value with its keys sorted.\<close>

fun sort_keys :: "jsval \<Rightarrow> jsval" where
  "sort_keys (JArr vs) = JArr (map sort_keys vs)"
| "sort_keys (JObj kvs) = JObj (map (\<lambda>(k, v). (k, sort_keys v)) (sort_key fst kvs))"
| "sort_keys v = v"

lemma sort_keys_undef [simp]: "sort_keys v = JUndef \<longleftrightarrow> v = JUndef"
  by (cases v) auto

lemma map_res_map: "(\<And>x y. x \<in> set xs \<Longrightarrow> f x = Inr y \<Longrightarrow> y = g x) \<Longrightarrow> map_res f xs = Inr ys \<Longrightarrow> ys = map g xs"
  by (induction xs arbitrary: ys) (auto simp: bind_res_Inr_iff)

lemma map_res_mem: "map_res f xs = Inr ys \<Longrightarrow> x \<in> set xs \<Longrightarrow> \<exists>y. f x = Inr y"
  by (induction xs arbitrary: ys) (auto simp: bind_res_Inr_iff)

lemma jcs_stringify: "jcs v = Inr s \<Longrightarrow> s = json_stringify (sort_keys v)"
proof (induction v arbitrary: s rule: jcs.induct)
  case (6 vs)
  then obtain ss where ss: "map_res jcs vs = Inr ss" "s = ''['' @ join_with '','' ss @ '']''" by (auto simp: bind_res_Inr_iff)
  have "ss = map (json_stringify \<circ> sort_keys) vs" using ss(1) 6(1) by (intro map_res_map) auto
  with ss(2) show ?case by (simp add: comp_def)
next
  case (7 kvs)
  let ?f = "\<lambda>(k, v). bind_res (jcs v) (\<lambda>s. Inr (json_quote k @ '':'' @ s))"
  obtain ss where ss: "map_res ?f (sort_key fst kvs) = Inr ss" "s = ''{'' @ join_with '','' ss @ ''}''"
    using 7(2) by (auto simp: bind_res_Inr_iff)
  let ?g = "\<lambda>(k, v). json_quote k @ '':'' @ json_stringify (sort_keys v)"
  have eq: "y = ?g x" if prem: "x \<in> set (sort_key fst kvs)" "?f x = Inr y" for x y
  proof -
    obtain k v where kv: "x = (k, v)" by (cases x)
    then obtain t where t: "jcs v = Inr t" "y = json_quote k @ '':'' @ t" using prem(2) by (auto simp: bind_res_Inr_iff)
    with 7(1) [OF prem(1)] kv have "t = json_stringify (sort_keys v)" by blast
    with t kv show ?thesis by simp
  qed
  have g: "ss = map ?g (sort_key fst kvs)" by (rule map_res_map [OF _ ss(1)]) (rule eq)
  have "snd x \<noteq> JUndef" if mem: "x \<in> set kvs" for x
  proof -
    obtain y where y: "?f x = Inr y" using map_res_mem [OF ss(1), of x] mem by auto
    obtain k v where kv: "x = (k, v)" by (cases x)
    with y have "v \<noteq> JUndef" by (cases v) simp_all
    with kv show ?thesis by simp
  qed
  then have "filter (\<lambda>(k, v). v \<noteq> JUndef) (map (\<lambda>(k, v). (k, sort_keys v)) (sort_key fst kvs)) = map (\<lambda>(k, v). (k, sort_keys v)) (sort_key fst kvs)"
    by (auto simp: filter_id_conv)
  then have js: "json_stringify (sort_keys (JObj kvs)) = ''{'' @ join_with '','' (map (\<lambda>(k, s). json_quote k @ '':'' @ s)
      (map (\<lambda>(k, v). (k, json_stringify v)) (map (\<lambda>(k, v). (k, sort_keys v)) (sort_key fst kvs)))) @ ''}''"
    by (simp only: sort_keys.simps json_stringify.simps)
  have m: "map (\<lambda>(k, s). json_quote k @ '':'' @ s) (map (\<lambda>(k, v). (k, json_stringify v)) (map (\<lambda>(k, v). (k, sort_keys v)) l)) = map ?g l" for l
    by (induction l) auto
  show ?case unfolding js ss(2) g m ..
qed auto

lemma getp_sort_keys:
  "distinct (map fst kvs) \<Longrightarrow> getp (sort_keys (JObj kvs)) k = (case map_of kvs k of Some v \<Rightarrow> sort_keys v | None \<Rightarrow> JUndef)"
proof -
  assume d: "distinct (map fst kvs)"
  have "distinct (map fst (sort_key fst kvs))"
    using d by (simp add: distinct_map) 
  then have "map_of (sort_key fst kvs) k = map_of kvs k"
    using d by (metis (no_types, opaque_lifting) map_of_eq_Some_iff not_Some_eq set_sort)
  moreover have "map_of (map (\<lambda>(k, v). (k, sort_keys v)) l) k = map_option sort_keys (map_of l k)" for l
    by (induction l) auto
  ultimately show ?thesis by (auto split: option.splits)
qed

section \<open>A quoted challenge can be paid\<close>

lemma echo_getp:
  "k \<in> set ECHO_KEYS \<Longrightarrow> getp (JObj (concat (map (\<lambda>k. case map_of params k of Some v \<Rightarrow> [(k, JStr v)] | None \<Rightarrow> []) ECHO_KEYS))) k
     = (case map_of params k of Some v \<Rightarrow> JStr v | None \<Rightarrow> JUndef)"
proof -
  have "map_of (concat (map (\<lambda>k. case map_of params k of Some v \<Rightarrow> [(k, JStr v)] | None \<Rightarrow> []) ks)) k
      = (if k \<in> set ks then map_option JStr (map_of params k) else None)" for ks
    by (induction ks) (auto split: option.splits)
  then show "k \<in> set ECHO_KEYS \<Longrightarrow> ?thesis" by (auto split: option.splits)
qed

lemma js_trim_ends: "s \<noteq> [] \<Longrightarrow> \<not> is_space (hd s) \<Longrightarrow> \<not> is_space (List.last s) \<Longrightarrow> js_trim s = s"
proof -
  assume a: "s \<noteq> []" "\<not> is_space (hd s)" "\<not> is_space (List.last s)"
  have "dropWhile is_space s = s" using a by (cases s) auto
  moreover have "dropWhile is_space (rev s) = rev s" using a by (cases s rule: rev_cases) auto
  ultimately show ?thesis by (simp add: js_trim_def)
qed

lemma b64_class_not_space: "b64_class True c \<Longrightarrow> \<not> is_space c \<and> \<not> www_blank c"
proof -
  have "list_all (\<lambda>c. \<not> is_space c \<and> \<not> www_blank c) (b64_alphabet True)"
    by (simp add: b64_alphabet_def is_space_def www_blank_def)
  then show "b64_class True c \<Longrightarrow> ?thesis" by (simp add: b64_class_def list_all_iff)
qed

lemma credential_token_of: "list_all (b64_class True) tok \<Longrightarrow> tok \<noteq> [] \<Longrightarrow> credential_token (''Payment '' @ tok) = Some tok"
proof -
  assume t: "list_all (b64_class True) tok" "tok \<noteq> []"
  then have l: "\<not> is_space (List.last tok)" "\<not> www_blank (hd tok)" using b64_class_not_space by (auto simp: list_all_iff)
  have "js_trim (''Payment '' @ tok) = ''Payment '' @ tok"
    using t l by (intro js_trim_ends) (simp_all add: is_space_def)
  then show ?thesis using t l by (cases tok) (simp_all add: credential_token_def www_blank_def Let_def)
qed

lemma b64_url_class: "list_all (b64_class True) (b64_of True s)"
  using b64_url_set [OF bytes_of_char, of "utf8 s"] by (auto simp: list_all_iff b64_class_def b64_of_def)

lemma parse_json64_of:
  assumes "\<And>s. utf8_str L (utf8 s) = s" "json_parse L s = Inr v" "plain_object v" "s \<noteq> []" "length (b64_of True s) \<le> 16 * 1024"
  shows "parse_json64 L (b64_of True s) = Some v"
  using b64decode_of [OF assms(1,4,5)] assms(2,3) by (simp add: parse_json64_def jsonParseSafe_def)

lemma mpp_request_fields:
  fixes F limit
  defines "req \<equiv> sort_keys (mppRequest F limit)"
  shows "getp req ''amount'' = price_val F limit" "getp req ''currency'' = JStr (of_asset F)" "getp req ''recipient'' = JStr (of_payTo F)"
    "getp req ''externalId'' = JStr (''limit='' @ int_dec limit)" "plain_object req"
    "truthy (getp req ''methodDetails'')" "getp (getp req ''methodDetails'') ''credentialTypes'' = JArr [JStr ''authorization'']"
    "getp (getp req ''methodDetails'') ''chainId'' = JNum (of_chainId F)"
    "getp (getp (getp req ''methodDetails'') ''eip712Domain'') ''name'' = JStr (of_assetName F)"
    "getp (getp (getp req ''methodDetails'') ''eip712Domain'') ''version'' = JStr (of_assetVersion F)"
proof -
  have pv: "sort_keys (price_val F limit) = price_val F limit" by (simp add: price_val_def split: option.splits)
  have g: "getp (sort_keys (JObj kvs)) k = (case map_of kvs k of Some v \<Rightarrow> sort_keys v | None \<Rightarrow> JUndef)"
    if "distinct (map fst kvs)" for kvs k using getp_sort_keys [OF that] .
  show "getp req ''amount'' = price_val F limit" "getp req ''currency'' = JStr (of_asset F)" "getp req ''recipient'' = JStr (of_payTo F)"
    "getp req ''externalId'' = JStr (''limit='' @ int_dec limit)"
    unfolding req_def mppRequest_def by (subst g; simp add: pv)+
  show "plain_object req" by (simp add: req_def mppRequest_def)
  have md: "getp req ''methodDetails'' = sort_keys (JObj [(''chainId'', JNum (of_chainId F)), (''permit2Address'', JStr PERMIT2_CANONICAL),
        (''credentialTypes'', JArr [JStr ''authorization'']), (''decimals'', JNum (of_decimals F)),
        (''eip712Domain'', JObj [(''name'', JStr (of_assetName F)), (''version'', JStr (of_assetVersion F))])])" (is "_ = sort_keys ?m")
    unfolding req_def mppRequest_def by (subst g; simp)
  show "truthy (getp req ''methodDetails'')" unfolding md by simp
  show "getp (getp req ''methodDetails'') ''credentialTypes'' = JArr [JStr ''authorization'']"
    "getp (getp req ''methodDetails'') ''chainId'' = JNum (of_chainId F)" unfolding md by (subst g; simp)+
  have dom: "getp (getp req ''methodDetails'') ''eip712Domain'' = sort_keys (JObj [(''name'', JStr (of_assetName F)), (''version'', JStr (of_assetVersion F))])"
    unfolding md by (subst g; simp)
  show "getp (getp (getp req ''methodDetails'') ''eip712Domain'') ''name'' = JStr (of_assetName F)"
    "getp (getp (getp req ''methodDetails'') ''eip712Domain'') ''version'' = JStr (of_assetVersion F)" unfolding dom by (subst g; simp)+
qed

lemma auth_val_fields:
  "getp (JObj (auth_val a)) ''from'' = JStr (au_from a)" "getp (JObj (auth_val a)) ''to'' = JStr (au_to a)"
  "getp (JObj (auth_val a)) ''value'' = JStr (au_value a)" "getp (JObj (auth_val a)) ''validAfter'' = JStr (au_validAfter a)"
  "getp (JObj (auth_val a)) ''validBefore'' = JStr (au_validBefore a)" "getp (JObj (auth_val a)) ''nonce'' = JStr (au_nonce a)"
  by (simp_all add: auth_val_def)

lemma auth_of_val: "auth_of (JObj (auth_val a)) = a"
  unfolding auth_of_def Let_def auth_val_fields by simp

lemma mpp_auth_val: "mpp_auth (JObj ((''type'', t) # auth_val a @ [(''signature'', sg)])) = JObj (auth_val a)"
  by (simp add: mpp_auth_def auth_val_def)

lemma jcs_object_nonempty: "jcs (JObj kvs) = Inr s \<Longrightarrow> s \<noteq> []"
  by (auto simp: bind_res_Inr_iff)

text \<open>The credential object a buyer sends for a challenge.\<close>

definition credential_value :: "(string \<times> string) list \<Rightarrow> jsval \<Rightarrow> string \<Rightarrow> jsval" where
  "credential_value params payload source = JObj [
     (''challenge'', JObj (concat (map (\<lambda>k. case map_of params k of Some v \<Rightarrow> [(k, JStr v)] | None \<Rightarrow> []) ECHO_KEYS))),
     (''payload'', payload), (''source'', JStr source)]"

lemma mppCredential_value: "source \<noteq> [] \<Longrightarrow> mppCredential params payload (Some source) = b64_of True (json_stringify (credential_value params payload source))"
  by (simp add: mppCredential_def credential_value_def)

lemma int_dec_uint: "0 \<le> n \<Longrightarrow> n < 2 ^ 256 \<Longrightarrow> isUintString (JStr (int_dec n))"
proof -
  assume n: "0 \<le> n" "n < 2 ^ 256"
  then have b: "nat n < 2 ^ 256" by (simp add: nat_less_iff)
  show ?thesis
  proof (cases "nat n = 0")
    case True
    have "nat_dec 0 = ''0''" by (simp add: nat_dec.simps digit_char_def)
    with True n(1) show ?thesis by (simp add: int_dec_def dec_nat_def digit_val_def)
  next
    case False
    with b n(1) hd_nat_dec [of "nat n"] show ?thesis by (simp add: int_dec_def)
  qed
qed

lemma buyer_shape:
  assumes "hex0x 40 (au_from a)" "hex0x 40 (au_to a)" "isUintString (JStr (au_value a))" "isUintString (JStr (au_validAfter a))"
    "isUintString (JStr (au_validBefore a))" "hex0x 64 (au_nonce a)"
  shows "checkAuthorizationShape (JObj (auth_val a)) = None"
  unfolding checkAuthorizationShape_None auth_val_fields using assms by (simp del: isUintString.simps)

definition buyer_terms :: "pay_lib \<Rightarrow> wallet \<Rightarrow> offer \<Rightarrow> (string \<times> string) list \<Rightarrow> string \<Rightarrow> string \<Rightarrow> int \<Rightarrow> authorization" where
  "buyer_terms L W F params payTo p t = \<lparr>au_from = w_address W, au_to = payTo, au_value = p, au_validAfter = ''0'',
     au_validBefore = int_dec (t div 1000), au_nonce = mppNonce L (the (map_of params ''id'')) (of_realm F)\<rparr>"

definition buyer_credential :: "wallet \<Rightarrow> offer \<Rightarrow> (string \<times> string) list \<Rightarrow> authorization \<Rightarrow> string \<Rightarrow> jsval" where
  "buyer_credential W F params a sig = credential_value (www_params params)
     (JObj ((''type'', JStr ''authorization'') # auth_val a @ [(''signature'', JStr sig)]))
     (''did:pkh:eip155:'' @ int_dec (of_chainId F) @ '':'' @ w_address W)"

text \<open>No other tier has the price of this one; \<open>parsePrices\<close> does not ask for that.\<close>

definition only_tier :: "offer \<Rightarrow> int \<Rightarrow> string \<Rightarrow> bool" where
  "only_tier F limit p \<longleftrightarrow> 0 \<le> limit \<and> (\<forall>(l, q)\<in>set (of_tiers F). q = p \<longrightarrow> l = int_dec limit)"

lemma listed_tier:
  assumes "priceOf F (JNum limit) = Some p"
  obtains l where "tierForAmount F (JStr p) = Some l" "only_tier F limit p \<Longrightarrow> l = limit"
proof -
  have m: "(int_dec limit, p) \<in> set (of_tiers F)"
    using assms by (auto simp: priceOf_def split: option.splits if_splits dest: map_of_SomeD)
  then obtain e where e: "find (\<lambda>e. JStr (snd e) = JStr p) (of_tiers F) = Some e"
    by (cases "find (\<lambda>e. JStr (snd e) = JStr p) (of_tiers F)") (auto simp: find_None_iff)
  then have "e \<in> set (of_tiers F)" "snd e = p" by (auto dest: find_SomeD)
  then have "only_tier F limit p \<Longrightarrow> int (dec_nat (fst e)) = limit"
    by (auto simp: only_tier_def int_dec_def case_prod_unfold)
  with e show thesis by (intro that [of "int (dec_nat (fst e))"]) (simp_all add: tierForAmount_def)
qed

lemma mpp_quote_payable:
  assumes ch: "mppChallenge L F limit secret digest t0 rnd = Inr (params, hdr)"
    and price: "priceOf F (JNum limit) = Some p" "isUintString (JStr p)"
    and offer: "isAddress (JStr (of_asset F))" "isAddress (JStr (of_payTo F))" "of_realm F \<noteq> []" "of_assetName F \<noteq> []" "of_assetVersion F \<noteq> []"
    and wallet: "w_getAddress W (of_asset F) = Inr asset" "w_getAddress W (of_payTo F) = Inr payTo" "hex0x 40 payTo"
      "js_lower payTo = js_lower (of_payTo F)" "hex0x 40 (w_address W)"
    and expiry: "rfc3339 L (t0 + of_maxTimeoutSeconds F * 1000) = Inr e" "e \<noteq> []" "date_parse L e = Some t" "now < t" "0 \<le> t" "t div 1000 < 2 ^ 256"
    and hashes: "\<forall>x. hmac_url L secret x \<noteq> []" "\<forall>x. hex0x 64 (keccak_hex L x) \<and> js_lower (keccak_hex L x) = keccak_hex L x"
    and sign: "w_sign W (of_assetName F, of_assetVersion F, of_chainId F, asset) (buyer_terms L W F params payTo p t) = Inr sig" "hex0x 130 sig"
    and texts: "\<forall>s. utf8_str L (utf8 s) = s"
      "json_parse L (json_stringify (sort_keys (mppRequest F limit))) = Inr (sort_keys (mppRequest F limit))"
      "json_parse L (json_stringify (buyer_credential W F params (buyer_terms L W F params payTo p t) sig))
         = Inr (buyer_credential W F params (buyer_terms L W F params payTo p t) sig)"
    and sizes: "length hdr \<le> 64 * 1024" "length (b64_of True (json_stringify (sort_keys (mppRequest F limit)))) \<le> 16 * 1024"
      "length (b64_of True (json_stringify (buyer_credential W F params (buyer_terms L W F params payTo p t) sig))) \<le> 16 * 1024"
    and body: "digest = [] \<or> bodyDigest = Some digest"
  shows "\<exists>a cred r. payMpp L W limit [hdr] pay = Inr (a, cred) \<and> parseMppCredential L (''Payment '' @ cred) secret F bodyDigest now = Inr r
    \<and> mp_auth r = a \<and> mp_signature r = sig \<and> au_from a = w_address W \<and> au_value a = p
    \<and> tierForAmount F (JStr p) = Some (mp_limit r) \<and> (only_tier F limit p \<longrightarrow> mp_limit r = limit)"
proof -
  obtain tier where tier: "tierForAmount F (JStr p) = Some tier" "only_tier F limit p \<Longrightarrow> tier = limit"
    using listed_tier [OF price(1)] by blast
  define a where "a = buyer_terms L W F params payTo p t"
  define req where "req = sort_keys (mppRequest F limit)"
  define credv where "credv = buyer_credential W F params a sig"
  define c where "c = www_params params"
  let ?cred = "b64_of True (json_stringify credv)"
  obtain rq opq where rq: "jcs (mppRequest F limit) = Inr rq" "jcs (JObj [(''limit'', JStr (int_dec limit)), (''nonce'', JStr rnd)]) = Inr opq"
    and pr: "params = [(''id'', mppChallengeId L secret (issued_slots params)),
       (''realm'', of_realm F), (''method'', MPP_METHOD), (''intent'', MPP_INTENT), (''request'', b64_of True rq),
       (''expires'', e), (''opaque'', b64_of True opq)] @ (if digest \<noteq> [] then [(''digest'', digest)] else [])
       @ [(''description'', tier_text F limit)]"
    and sl: "issued_slots params = [of_realm F, MPP_METHOD, MPP_INTENT, b64_of True rq, e, digest, b64_of True opq]"
    and hdr: "hdr = formatWwwAuthenticate params"
    using mppChallenge_parts [OF ch expiry(1)] by metis
  let ?i = "mppChallengeId L secret (issued_slots params)"
  have rs: "rq = json_stringify req" using jcs_stringify [OF rq(1)] by (simp add: req_def)
  have ne: "rq \<noteq> []" "opq \<noteq> []" "?i \<noteq> []"
    using jcs_object_nonempty [OF rq(1) [unfolded mppRequest_def]] jcs_object_nonempty [OF rq(2)] hashes(1)
    by (simp_all add: mppChallengeId_def del: jcs.simps)
  have mo: "map_of params ''id'' = Some ?i" "map_of params ''realm'' = Some (of_realm F)" "map_of params ''method'' = Some ''evm''"
    "map_of params ''intent'' = Some ''charge''" "map_of params ''request'' = Some (b64_of True rq)" "map_of params ''expires'' = Some e"
    "map_of params ''opaque'' = Some (b64_of True opq)" "map_of params ''digest'' = (if digest = [] then None else Some digest)"
    by (subst pr; simp add: MPP_METHOD_def MPP_INTENT_def)+
  have w: "parseWwwAuthenticate hdr = [(''Payment'', c)]" "map_of c k = Some v \<longleftrightarrow> k \<in> set WWW_ORDER \<and> map_of params k = Some v \<and> v \<noteq> []" for k v
    using www_roundtrip [of params] sizes(1) unfolding hdr c_def by blast+
  have cm: "map_of c ''id'' = Some ?i" "map_of c ''realm'' = Some (of_realm F)" "map_of c ''method'' = Some ''evm''"
    "map_of c ''intent'' = Some ''charge''" "map_of c ''request'' = Some (b64_of True rq)" "map_of c ''expires'' = Some e"
    "map_of c ''opaque'' = Some (b64_of True opq)"
    using mo ne offer(3) expiry(2) by (simp_all add: w(2) WWW_ORDER_def)
  have cd: "map_of c ''digest'' = (if digest = [] then None else Some digest)"
  proof (cases "digest = []")
    case True
    then have "map_of c ''digest'' \<noteq> Some v" for v by (simp add: w(2) mo(8))
    with True show ?thesis by (simp add: not_Some_eq [symmetric] del: not_Some_eq)
  next
    case False
    then have "map_of c ''digest'' = Some digest" by (simp add: w(2) mo(8) WWW_ORDER_def)
    with False show ?thesis by simp
  qed
  note rf = mpp_request_fields [of F limit, folded req_def]
  have dr: "parse_json64 L (b64_of True rq) = Some req"
    unfolding rs by (rule parse_json64_of [OF texts(1) [rule_format] texts(2) [folded req_def] rf(5) ne(1) [unfolded rs] sizes(2) [folded req_def]])
  have dq: "decodeReq L c = Some req" using dr cm(5) by (simp add: decodeReq_def)
  have pick: "mpp_pick L limit [c] = Some (c, req)" using dq cm(3,4) rf(4) by (simp add: mpp_pick_def)
  have amt: "getp req ''amount'' = JStr p" using rf(1) price(1) by (simp add: price_val_def)
  have af: "au_from a = w_address W" "au_to a = payTo" "au_value a = p" "au_validAfter a = ''0''" "au_validBefore a = int_dec (t div 1000)"
    "au_nonce a = mppNonce L ?i (of_realm F)" using mo(1) by (simp_all add: a_def buyer_terms_def)
  have "0 \<le> t div 1000" using expiry(5) by simp
  then have shape: "checkAuthorizationShape (JObj (auth_val a)) = None"
    using wallet price(2) int_dec_uint [OF _ expiry(6)] hashes(2) demo_kinds(4) by (intro buyer_shape) (simp_all add: af mppNonce_def del: isUintString.simps)
  have src: "''did:pkh:eip155:'' @ x \<noteq> []" for x by simp
  have pay: "payMpp L W limit [hdr] pay = Inr (a, ?cred)"
  proof -
    have m: "map snd (concat (map parseWwwAuthenticate [hdr])) = [c]" by (simp add: w(1))
    have au: "buyer_auth W (JStr (of_payTo F)) (JStr p) (int_dec (t div 1000)) (mppNonce L ?i (of_realm F)) what = Inr a" for what
    proof -
      have "a = \<lparr>au_from = w_address W, au_to = payTo, au_value = js_string (JStr p), au_validAfter = ''0'',
          au_validBefore = int_dec (t div 1000), au_nonce = mppNonce L ?i (of_realm F)\<rparr>" using mo(1) by (simp add: a_def buyer_terms_def)
      with shape wallet(2) show ?thesis by (simp add: buyer_auth_def Let_def)
    qed
    have sg: "signAuthorization W (of_assetName F, of_assetVersion F, of_chainId F, asset) a = Inr sig"
      using shape sign(1) by (simp add: signAuthorization_def a_def)
    have td: "tokenDomain W (of_assetName F) (of_assetVersion F) (of_chainId F) (of_asset F) = Inr (of_assetName F, of_assetVersion F, of_chainId F, asset)"
      using wallet(1) by (simp add: tokenDomain_def)
    have es: "expires_sec L c = int_dec (t div 1000)" "param_text c ''id'' = ?i" "param_text c ''realm'' = of_realm F"
      using cm expiry(3) by (simp_all add: expires_sec_def param_text_def)
    have md: "js_or (getp req ''methodDetails'') (JObj []) = getp req ''methodDetails''" using rf(6) by (simp add: js_or_def)
    have acc: "accepts_authorization (getp req ''methodDetails'')" by (simp add: accepts_authorization_def rf(7))
    have nm: "js_or (JStr (of_assetName F)) x = JStr (of_assetName F)" "js_or (JStr (of_assetVersion F)) x = JStr (of_assetVersion F)" for x
      using offer(4,5) by (simp_all add: js_or_def)
    have cv: "mppCredential c (JObj ((''type'', JStr ''authorization'') # auth_val a @ [(''signature'', JStr sig)]))
        (Some (''did:pkh:eip155:'' @ int_dec (of_chainId F) @ '':'' @ w_address W)) = ?cred"
      unfolding mppCredential_value [OF src] credv_def buyer_credential_def c_def ..
    show ?thesis unfolding payMpp_def m pick option.case prod.case Let_def md rf(2,3,8-10) nm es amt
      using acc offer(4,5) by (simp add: td au sg cv [simplified])
  qed
  have cre: "plain_object credv" "json_stringify credv \<noteq> []" by (simp_all add: credv_def buyer_credential_def credential_value_def)
  have credp: "parse_json64 L ?cred = Some credv"
    by (rule parse_json64_of [OF texts(1) [rule_format] texts(3) [folded a_def, folded credv_def] cre sizes(3) [folded a_def, folded credv_def]])
  have tok: "credential_token (''Payment '' @ ?cred) = Some ?cred"
    by (intro credential_token_of b64_url_class) (simp add: credv_def buyer_credential_def credential_value_def)
  define chv where "chv = getp credv ''challenge''"
  have chf: "chv = JObj (concat (map (\<lambda>k. case map_of c k of Some v \<Rightarrow> [(k, JStr v)] | None \<Rightarrow> []) ECHO_KEYS))"
    by (simp add: chv_def credv_def buyer_credential_def credential_value_def c_def)
  have g: "k \<in> set ECHO_KEYS \<Longrightarrow> getp chv k = (case map_of c k of Some v \<Rightarrow> JStr v | None \<Rightarrow> JUndef)" for k
    unfolding chf by (rule echo_getp)
  have cg: "getp chv ''id'' = JStr ?i" "getp chv ''realm'' = JStr (of_realm F)" "getp chv ''method'' = JStr ''evm''" "getp chv ''intent'' = JStr ''charge''"
    "getp chv ''request'' = JStr (b64_of True rq)" "getp chv ''expires'' = JStr e" "getp chv ''opaque'' = JStr (b64_of True opq)"
    "getp chv ''digest'' = (if digest = [] then JUndef else JStr digest)"
    using cm cd by (simp_all add: g ECHO_KEYS_def)
  have slots: "challenge_slots chv = issued_slots params"
    using cg expiry(2) ne(2) unfolding sl challenge_slots_def by (simp add: slot_def js_or_def MPP_METHOD_def MPP_INTENT_def)
  have ck: "mpp_challenge_check L secret F bodyDigest now chv = Inr req"
    unfolding mpp_challenge_check_def slots using cg ne offer(3) expiry body dr
    by (auto simp: MPP_METHOD_def MPP_INTENT_def split: if_splits)
  have pl: "getp credv ''payload'' = JObj ((''type'', JStr ''authorization'') # auth_val a @ [(''signature'', JStr sig)])"
    by (simp add: credv_def buyer_credential_def credential_value_def)
  have same: "sameAddress (JStr (au_to a)) (JStr (of_payTo F))" "sameAddress (JStr (of_asset F)) (JStr (of_asset F))" "sameAddress (JStr (of_payTo F)) (JStr (of_payTo F))"
    using offer(1,2) wallet(3,4) by (simp_all add: sameAddress_def af)
  have nn: "js_lower (au_nonce a) = mppNonce L ?i (of_realm F)" using hashes(2) by (simp add: af mppNonce_def)
  obtain r where r: "mpp_payload_check L credv chv req tier = Inr r" "mp_limit r = tier" "mp_auth r = a" "mp_signature r = sig"
  proof -
    have sgp: "getp (getp credv ''payload'') ''signature'' = JStr sig" "getp (getp credv ''payload'') ''type'' = JStr ''authorization''"
      "is_object (getp credv ''payload'')" unfolding pl by (simp_all add: auth_val_def)
    have "mpp_auth (getp credv ''payload'') = JObj (auth_val a)" unfolding pl by (rule mpp_auth_val)
    then show thesis using that same(1) nn shape sign(2) sgp
      unfolding mpp_payload_check_def Let_def by (simp add: auth_val_fields auth_of_val rf(3) amt af(3) cg(1,2) del: getp.simps)
  qed
  have "is_object chv" unfolding chf by simp
  then have "parseMppCredential L (''Payment '' @ ?cred) secret F bodyDigest now = Inr r"
    unfolding parseMppCredential_def tok option.case credp Let_def chv_def [symmetric]
    using ck r(1) tier(1) same(2,3) by (simp add: amt rf(2,3) del: getp.simps)
  with pay r af tier show ?thesis by blast
qed

text \<open>
  C17: Registrar and buyer speak the same protocol. Whatever challenge the registrar quotes for a tier
  it sells, the buyer finds it in the header line, signs an authorization for the tier's price over
  the nonce of that challenge, and the credential it sends is accepted by the registrar, for the
  buyer's own authorization, until the challenge expires. It is accepted for the first listed tier
  with that price: the quoted tier itself whenever no other tier costs the same. Of the library it
  uses only that parsing inverts printing on the two values sent and that UTF-8 decoding inverts
  encoding.
\<close>

theorem mpp_quote_accepted:
  assumes ch: "mppChallenge L F limit secret digest t0 rnd = Inr (params, hdr)"
    and price: "priceOf F (JNum limit) = Some p" "isUintString (JStr p)"
    and offer: "isAddress (JStr (of_asset F))" "isAddress (JStr (of_payTo F))" "of_realm F \<noteq> []" "of_assetName F \<noteq> []" "of_assetVersion F \<noteq> []"
    and wallet: "w_getAddress W (of_asset F) = Inr asset" "w_getAddress W (of_payTo F) = Inr payTo" "hex0x 40 payTo"
      "js_lower payTo = js_lower (of_payTo F)" "hex0x 40 (w_address W)"
    and expiry: "rfc3339 L (t0 + of_maxTimeoutSeconds F * 1000) = Inr e" "e \<noteq> []" "date_parse L e = Some t" "now < t" "0 \<le> t" "t div 1000 < 2 ^ 256"
    and hashes: "\<forall>x. hmac_url L secret x \<noteq> []" "\<forall>x. hex0x 64 (keccak_hex L x) \<and> js_lower (keccak_hex L x) = keccak_hex L x"
    and sign: "w_sign W (of_assetName F, of_assetVersion F, of_chainId F, asset) (buyer_terms L W F params payTo p t) = Inr sig" "hex0x 130 sig"
    and texts: "\<forall>s. utf8_str L (utf8 s) = s"
      "json_parse L (json_stringify (sort_keys (mppRequest F limit))) = Inr (sort_keys (mppRequest F limit))"
      "json_parse L (json_stringify (buyer_credential W F params (buyer_terms L W F params payTo p t) sig))
         = Inr (buyer_credential W F params (buyer_terms L W F params payTo p t) sig)"
    and sizes: "length hdr \<le> 64 * 1024" "length (b64_of True (json_stringify (sort_keys (mppRequest F limit)))) \<le> 16 * 1024"
      "length (b64_of True (json_stringify (buyer_credential W F params (buyer_terms L W F params payTo p t) sig))) \<le> 16 * 1024"
    and body: "digest = [] \<or> bodyDigest = Some digest"
  shows "\<exists>a cred r. payMpp L W limit [hdr] pay = Inr (a, cred) \<and> parseMppCredential L (''Payment '' @ cred) secret F bodyDigest now = Inr r
    \<and> mp_auth r = a \<and> mp_signature r = sig \<and> au_from a = w_address W \<and> au_value a = p
    \<and> tierForAmount F (JStr p) = Some (mp_limit r) \<and> (only_tier F limit p \<longrightarrow> mp_limit r = limit)"
  by (rule mpp_quote_payable [OF assms])

text \<open>A concrete quote of the demo offer, paid by a wallet whose signatures are constant.\<close>

definition plain_text :: "string \<Rightarrow> bool" where
  "plain_text s \<longleftrightarrow> list_all (\<lambda>c. json_escape c = [c]) s"

lemma plain_quote: "plain_text s \<Longrightarrow> length (json_quote s) = length s + 2"
  by (induction s) (simp_all add: plain_text_def json_quote_def)

lemma plain_b64: "plain_text (b64_of True s)"
proof -
  have "list_all (\<lambda>c. json_escape c = [c]) (b64_alphabet True)"
    by (simp add: b64_alphabet_def json_escape_def)
  moreover have "list_all (\<lambda>c. c \<in> set (b64_alphabet True)) (b64_of True s)"
    using b64_url_set [OF bytes_of_char, of "utf8 s"] by (auto simp: list_all_iff b64_of_def)
  ultimately show ?thesis by (simp add: plain_text_def list_all_iff)
qed

lemma utf8_length: "length (utf8 s) \<le> 2 * length s"
  by (induction s) (simp_all add: utf8_def utf8_char_def Let_def)

lemma b64_pack_length: "3 * length (b64_pack True ns) \<le> 4 * length ns + 8"
  by (induction "True" ns rule: b64_pack.induct) simp_all

lemma b64_of_length: "3 * length (b64_of True s) \<le> 8 * length s + 8"
  using b64_pack_length [of "map of_char (utf8 s)"] utf8_length [of s] by (simp add: b64_of_def)

text \<open>A bound on the printed length that does not depend on the order of the keys.\<close>

fun text_bound :: "jsval \<Rightarrow> nat" where
  "text_bound (JStr s) = length (json_quote s)"
| "text_bound (JArr vs) = 2 + sum_list (map (\<lambda>v. 1 + text_bound v) vs)"
| "text_bound (JObj kvs) = 2 + sum_list (map (\<lambda>(k, v). 2 + length (json_quote k) + text_bound v) kvs)"
| "text_bound v = length (json_stringify v)"

lemma join_length: "length (join_with [c] ss) \<le> sum_list (map (\<lambda>s. 1 + length s) ss)"
  by (induction "[c]" ss rule: join_with.induct) simp_all

lemma json_text_bound: "length (json_stringify v) \<le> text_bound v"
proof (induction v rule: text_bound.induct)
  case (2 vs)
  have "sum_list (map (\<lambda>v. 1 + length (json_stringify v)) vs) \<le> sum_list (map (\<lambda>v. 1 + text_bound v) vs)"
    using 2 by (intro sum_list_mono) simp
  then show ?case using join_length [of "CHR '',''" "map json_stringify vs"] by (simp add: comp_def)
next
  case (3 kvs)
  have f: "sum_list (map (\<lambda>(k, v). 2 + length (json_quote k) + length (json_stringify v)) (filter P kvs))
      \<le> sum_list (map (\<lambda>(k, v). 2 + length (json_quote k) + text_bound v) kvs)" for P
    using 3 by (induction kvs) fastforce+
  let ?l = "filter (\<lambda>p. snd p \<noteq> JUndef) kvs"
  have "length (join_with '','' (map (\<lambda>p. json_quote (fst p) @ CHR '':'' # json_stringify (snd p)) ?l))
      \<le> sum_list (map (\<lambda>(k, v). 2 + length (json_quote k) + length (json_stringify v)) ?l)"
    using join_length [of "CHR '',''" "map (\<lambda>p. json_quote (fst p) @ CHR '':'' # json_stringify (snd p)) ?l"]
    by (simp add: comp_def case_prod_unfold)
  from order_trans [OF this f] show ?case by (simp add: comp_def case_prod_unfold)
qed simp_all

lemma sum_list_sort_key: "sum_list (map f (sort_key g xs)) = sum_list (map f xs :: nat list)"
proof -
  have "sum_list (map f (insort_key g x ys)) = f x + sum_list (map f ys)" for x ys by (induction ys) simp_all
  then show ?thesis by (induction xs) simp_all
qed

lemma text_bound_sort: "text_bound (sort_keys v) = text_bound v"
proof (induction v rule: sort_keys.induct)
  case (1 vs)
  then show ?case by (simp add: comp_def cong: map_cong)
next
  case (2 kvs)
  let ?f = "\<lambda>(k, v). 2 + length (json_quote k) + text_bound v"
  have "map (?f \<circ> (\<lambda>(k, v). (k, sort_keys v))) kvs = map ?f kvs"
    using 2 by (intro map_cong) auto
  then show ?case by (simp only: sort_keys.simps text_bound.simps map_map sum_list_sort_key)
qed simp_all

fun utf8_back :: "string \<Rightarrow> string" where
  "utf8_back [] = []"
| "utf8_back [c] = [c]"
| "utf8_back (c # d # r) = (if of_char c < (128 :: nat) then c # utf8_back (d # r)
     else char_of ((of_char c - 192) * 64 + (of_char d - 128 :: nat)) # utf8_back r)"

lemma utf8_back_step: "utf8_back (utf8_char c @ r) = c # utf8_back r"
proof (cases "of_char c < (128 :: nat)")
  case True
  then show ?thesis by (cases r) (simp_all add: utf8_char_def Let_def)
next
  case False
  define n where "n = (of_char c :: nat)"
  have n: "n < 256" "128 \<le> n" using False by (simp_all add: n_def)
  have "of_char (char_of (192 + n div 64)) = 192 + n div 64" "of_char (char_of (128 + n mod 64)) = 128 + n mod 64"
    using n by (simp_all add: less_imp_diff_less)
  moreover have "char_of (n div 64 * 64 + n mod 64) = c" by (simp add: n_def)
  ultimately show ?thesis using False by (simp add: utf8_char_def Let_def n_def [symmetric])
qed

lemma utf8_back_utf8: "utf8_back (utf8 s) = s"
  by (induction s) (simp_all add: utf8_def utf8_back_step)

definition demo_sig :: string where
  "demo_sig = ''0x'' @ replicate 130 (CHR ''c'')"

definition demo_wallet :: wallet where
  "demo_wallet = \<lparr>w_address = demo_address, w_getAddress = Inr, w_sign = (\<lambda>_ _. Inr demo_sig)\<rparr>"

definition demo_quote :: "(string \<times> string) list \<times> string" where
  "demo_quote = (case mppChallenge (demo_lib JNull JNull) demo_offer 8 ''k'' [] 0 ''n'' of Inr x \<Rightarrow> x | Inl _ \<Rightarrow> ([], []))"

definition demo_wants :: jsval where
  "demo_wants = sort_keys (mppRequest demo_offer 8)"

definition demo_terms :: authorization where
  "demo_terms = buyer_terms (demo_lib JNull JNull) demo_wallet demo_offer (fst demo_quote) demo_address ''100'' 5"

definition demo_paid :: jsval where
  "demo_paid = buyer_credential demo_wallet demo_offer (fst demo_quote) demo_terms demo_sig"

definition demo_pay_lib :: pay_lib where
  "demo_pay_lib = (demo_lib JNull JNull)\<lparr>utf8_str := utf8_back,
     json_parse := (\<lambda>s. Inr (if s = json_stringify demo_wants then demo_wants else demo_paid))\<rparr>"

lemma demo_texts: "int_dec 8 = ''8''" "int_dec 1 = ''1''" "int_dec 6 = ''6''" "tier_text demo_offer 8 = '' (tier 8)''" "strip_millis ''e'' = ''e''"
  "priceOf demo_offer (JNum 8) = Some ''100''" "length (json_quote demo_address) = 44" "length (json_quote demo_sig) = 134"
  "take 3 (json_stringify demo_wants) = [CHR ''{'', CHR 0x22, CHR ''a'']"
  by code_simp+

lemma demo_wants_length: "length (json_stringify demo_wants) \<le> 400"
proof -
  have "text_bound (mppRequest demo_offer 8) \<le> 400"
    apply (simp add: mppRequest_def price_val_def demo_texts)
    apply (simp add: demo_offer_def demo_texts)
    apply (simp add: json_quote_def json_escape_def PERMIT2_CANONICAL_def)
    done
  then show ?thesis using json_text_bound [of demo_wants] by (simp add: demo_wants_def text_bound_sort)
qed

lemma demo_quoted: "mppChallenge demo_pay_lib demo_offer 8 ''k'' [] 0 ''n'' = Inr demo_quote"
proof -
  have eq: "mppChallenge demo_pay_lib demo_offer 8 ''k'' [] 0 ''n'' = mppChallenge (demo_lib JNull JNull) demo_offer 8 ''k'' [] 0 ''n''"
    by (simp add: mppChallenge_def rfc3339_def mppChallengeId_def demo_pay_lib_def demo_lib_def)
  have "json_plain (mppRequest demo_offer 8)" by (simp add: mppRequest_def price_val_def demo_texts)
  then obtain rq where rq: "jcs (mppRequest demo_offer 8) = Inr rq" using jcs_total by blast
  have "json_plain (JObj [(''limit'', JStr (int_dec 8)), (''nonce'', JStr ''n'')])" by simp
  then obtain opq where "jcs (JObj [(''limit'', JStr (int_dec 8)), (''nonce'', JStr ''n'')]) = Inr opq" using jcs_total by blast
  moreover have "rfc3339 (demo_lib JNull JNull) m = Inr ''e''" for m by (simp add: rfc3339_def demo_lib_def demo_texts)
  ultimately have "\<exists>x. mppChallenge (demo_lib JNull JNull) demo_offer 8 ''k'' [] 0 ''n'' = Inr x"
    using rq by (simp add: mppChallenge_def Let_def del: jcs.simps)
  then show ?thesis unfolding eq by (auto simp: demo_quote_def)
qed

lemma demo_quote_params:
  "www_params (fst demo_quote) = [(''id'', ''i''), (''realm'', ''r''), (''method'', ''evm''), (''intent'', ''charge''),
     (''request'', b64_of True (json_stringify demo_wants)), (''expires'', ''e''),
     (''opaque'', b64_of True (json_stringify (JObj [(''limit'', JStr ''8''), (''nonce'', JStr ''n'')]))), (''description'', '' (tier 8)'')]"
    "snd demo_quote = formatWwwAuthenticate (fst demo_quote)" "map_of (fst demo_quote) ''id'' = Some ''i''"
proof -
  have ex: "rfc3339 demo_pay_lib m = Inr ''e''" for m by (simp add: rfc3339_def demo_pay_lib_def demo_lib_def demo_texts)
  obtain rq opq where p: "jcs (mppRequest demo_offer 8) = Inr rq" "jcs (JObj [(''limit'', JStr (int_dec 8)), (''nonce'', JStr ''n'')]) = Inr opq"
    "fst demo_quote = [(''id'', mppChallengeId demo_pay_lib ''k'' (issued_slots (fst demo_quote))), (''realm'', of_realm demo_offer),
       (''method'', MPP_METHOD), (''intent'', MPP_INTENT), (''request'', b64_of True rq), (''expires'', ''e''), (''opaque'', b64_of True opq),
       (''description'', tier_text demo_offer 8)]" "snd demo_quote = formatWwwAuthenticate (fst demo_quote)"
    using mppChallenge_parts [of demo_pay_lib demo_offer 8 "''k''" "[]" 0 "''n''" "fst demo_quote" "snd demo_quote", OF _ ex] demo_quoted by auto
  show "snd demo_quote = formatWwwAuthenticate (fst demo_quote)" by (rule p(4))
  have i: "mppChallengeId demo_pay_lib s sl = ''i''" for s sl by (simp add: mppChallengeId_def demo_pay_lib_def demo_lib_def)
  show "map_of (fst demo_quote) ''id'' = Some ''i''" by (subst p(3)) (simp add: i)
  have r: "rq = json_stringify demo_wants" using jcs_stringify [OF p(1)] by (simp add: demo_wants_def)
  have oq: "opq = json_stringify (JObj [(''limit'', JStr ''8''), (''nonce'', JStr ''n'')])"
    using p(2) by (simp add: demo_texts)
  have "rq \<noteq> []" "opq \<noteq> []" using p(2) demo_texts(9) by (auto simp: r)
  then show "www_params (fst demo_quote) = [(''id'', ''i''), (''realm'', ''r''), (''method'', ''evm''), (''intent'', ''charge''),
     (''request'', b64_of True (json_stringify demo_wants)), (''expires'', ''e''),
     (''opaque'', b64_of True (json_stringify (JObj [(''limit'', JStr ''8''), (''nonce'', JStr ''n'')]))), (''description'', '' (tier 8)'')]"
    unfolding www_params_def oq [symmetric] r [symmetric]
    by (subst p(3)) (simp add: i WWW_ORDER_def MPP_METHOD_def MPP_INTENT_def demo_texts demo_offer_def tier_text_def)
qed

lemma demo_paid_text: "take 3 (json_stringify demo_paid) = [CHR ''{'', CHR 0x22, CHR ''c'']"
  by (simp add: demo_paid_def buyer_credential_def credential_value_def json_quote_def json_escape_def)

lemma demo_terms_fields: "demo_terms = \<lparr>au_from = demo_address, au_to = demo_address, au_value = ''100'', au_validAfter = ''0'',
    au_validBefore = ''0'', au_nonce = ''0x'' @ replicate 64 (CHR ''b'')\<rparr>"
proof -
  have "int_dec 0 = ''0''" by code_simp
  then show ?thesis by (simp add: demo_terms_def buyer_terms_def demo_wallet_def mppNonce_def demo_lib_def)
qed

lemma demo_opaque_length: "length (b64_of True (json_stringify (JObj [(''limit'', JStr ''8''), (''nonce'', JStr ''n'')]))) \<le> 100"
proof -
  let ?o = "json_stringify (JObj [(''limit'', JStr ''8''), (''nonce'', JStr ''n'')])"
  have "length ?o \<le> 30" by (simp add: json_quote_def json_escape_def)
  then show ?thesis using b64_of_length [of ?o] by linarith
qed

lemma demo_request_length: "length (b64_of True (json_stringify demo_wants)) \<le> 1100"
  using b64_of_length [of "json_stringify demo_wants"] demo_wants_length by linarith

lemma demo_paid_length: "length (json_stringify demo_paid) \<le> 3000"
proof -
  define r where "r = b64_of True (json_stringify demo_wants)"
  define opq where "opq = b64_of True (json_stringify (JObj [(''limit'', JStr ''8''), (''nonce'', JStr ''n'')]))"
  have q: "length (json_quote r) \<le> 1102" "length (json_quote opq) \<le> 102"
    using demo_request_length demo_opaque_length by (simp_all add: r_def opq_def plain_quote plain_b64 del: json_stringify.simps)
  have nonce: "length (json_quote (''0x'' @ replicate 64 (CHR ''b''))) = 68" by code_simp
  have src: "length (json_quote (''did:pkh:eip155:1:'' @ demo_address)) = 61" by code_simp
  have "text_bound demo_paid \<le> 3000"
    unfolding demo_paid_def buyer_credential_def credential_value_def demo_quote_params r_def [symmetric] opq_def [symmetric]
    using q nonce src
    apply (simp add: ECHO_KEYS_def auth_val_def demo_terms_fields demo_texts demo_wallet_def)
    apply (simp add: demo_offer_def demo_texts)
    apply (simp add: json_quote_def json_escape_def)
    done
  then show ?thesis using json_text_bound [of demo_paid] by simp
qed

lemma demo_header_length: "length (snd demo_quote) \<le> 64 * 1024"
proof -
  have q: "length (concat (map q_escape v)) \<le> 2 * length v" for v by (induction v) (simp_all add: q_escape_def)
  have "length (snd demo_quote) \<le> 2 * length (b64_of True (json_stringify demo_wants))
      + 2 * length (b64_of True (json_stringify (JObj [(''limit'', JStr ''8''), (''nonce'', JStr ''n'')]))) + 400"
    using q [of "b64_of True (json_stringify demo_wants)"]
      q [of "b64_of True (json_stringify (JObj [(''limit'', JStr ''8''), (''nonce'', JStr ''n'')]))"]
    unfolding demo_quote_params(2) formatWwwAuthenticate_def demo_quote_params(1)
    by (simp add: auth_param_def q_escape_def del: json_stringify.simps)
  then show ?thesis using demo_request_length demo_opaque_length by linarith
qed

theorem mpp_quote_accepted_witness:
  "\<exists>a cred r. payMpp demo_pay_lib demo_wallet 8 [snd demo_quote] JUndef = Inr (a, cred)
     \<and> parseMppCredential demo_pay_lib (''Payment '' @ cred) ''k'' demo_offer None 4 = Inr r
     \<and> mp_limit r = 8 \<and> mp_auth r = a \<and> mp_signature r = demo_sig \<and> au_from a = w_address demo_wallet \<and> au_value a = ''100''"
proof -
  have ad: "of_asset demo_offer = demo_address" "of_payTo demo_offer = demo_address" "hex0x 40 demo_address"
    using demo_address_ok(1) by (simp_all add: demo_offer_def)
  have terms: "buyer_terms demo_pay_lib demo_wallet demo_offer (fst demo_quote) demo_address ''100'' 5 = demo_terms"
    by (simp add: demo_terms_def buyer_terms_def mppNonce_def demo_pay_lib_def demo_lib_def)
  have diff: "json_stringify demo_paid \<noteq> json_stringify demo_wants" using demo_paid_text demo_texts(9) by auto
  have keccak: "keccak_hex demo_pay_lib x = ''0x'' @ replicate 64 (CHR ''b'')" for x by (simp add: demo_pay_lib_def demo_lib_def)
  have ch: "mppChallenge demo_pay_lib demo_offer 8 ''k'' [] 0 ''n'' = Inr (fst demo_quote, snd demo_quote)" using demo_quoted by simp
  have lower: "js_lower (''0x'' @ replicate 64 (CHR ''b'')) = ''0x'' @ replicate 64 (CHR ''b'')" by code_simp
  have "\<exists>a cred r. payMpp demo_pay_lib demo_wallet 8 [snd demo_quote] JUndef = Inr (a, cred)
     \<and> parseMppCredential demo_pay_lib (''Payment '' @ cred) ''k'' demo_offer None 4 = Inr r
     \<and> mp_auth r = a \<and> mp_signature r = demo_sig \<and> au_from a = w_address demo_wallet \<and> au_value a = ''100''
     \<and> tierForAmount demo_offer (JStr ''100'') = Some (mp_limit r) \<and> (only_tier demo_offer 8 ''100'' \<longrightarrow> mp_limit r = 8)"
  proof (rule mpp_quote_accepted [OF ch demo_texts(6) demo_kinds(3), where t = 5 and e = "''e''" and asset = demo_address and payTo = demo_address])
    show "isAddress (JStr (of_asset demo_offer))" "isAddress (JStr (of_payTo demo_offer))" using demo_address_ok(1) by (simp_all add: ad)
    show "of_realm demo_offer \<noteq> []" "of_assetName demo_offer \<noteq> []" "of_assetVersion demo_offer \<noteq> []" by (simp_all add: demo_offer_def)
    show "w_getAddress demo_wallet (of_asset demo_offer) = Inr demo_address" "w_getAddress demo_wallet (of_payTo demo_offer) = Inr demo_address"
      "hex0x 40 demo_address" "js_lower demo_address = js_lower (of_payTo demo_offer)" "hex0x 40 (w_address demo_wallet)"
      using ad by (simp_all add: demo_wallet_def)
    show "rfc3339 demo_pay_lib (0 + of_maxTimeoutSeconds demo_offer * 1000) = Inr ''e''"
      by (simp add: rfc3339_def demo_pay_lib_def demo_lib_def demo_texts)
    show "''e'' \<noteq> []" "date_parse demo_pay_lib ''e'' = Some 5" "4 < (5 :: int)" "0 \<le> (5 :: int)" "5 div 1000 < (2 :: int) ^ 256"
      by (simp_all add: demo_pay_lib_def demo_lib_def)
    show "\<forall>x. hmac_url demo_pay_lib ''k'' x \<noteq> []" by (simp add: demo_pay_lib_def demo_lib_def)
    show "\<forall>x. hex0x 64 (keccak_hex demo_pay_lib x) \<and> js_lower (keccak_hex demo_pay_lib x) = keccak_hex demo_pay_lib x"
      unfolding keccak using demo_kinds(1) lower by simp
    show "w_sign demo_wallet (of_assetName demo_offer, of_assetVersion demo_offer, of_chainId demo_offer, demo_address)
        (buyer_terms demo_pay_lib demo_wallet demo_offer (fst demo_quote) demo_address ''100'' 5) = Inr demo_sig"
      by (simp add: demo_wallet_def)
    show "hex0x 130 demo_sig" using demo_kinds(2) by (simp add: demo_sig_def)
    show "\<forall>s. utf8_str demo_pay_lib (utf8 s) = s" by (simp add: demo_pay_lib_def utf8_back_utf8)
    show "json_parse demo_pay_lib (json_stringify (sort_keys (mppRequest demo_offer 8))) = Inr (sort_keys (mppRequest demo_offer 8))"
      by (simp add: demo_pay_lib_def demo_wants_def)
    show "json_parse demo_pay_lib (json_stringify (buyer_credential demo_wallet demo_offer (fst demo_quote)
          (buyer_terms demo_pay_lib demo_wallet demo_offer (fst demo_quote) demo_address ''100'' 5) demo_sig))
        = Inr (buyer_credential demo_wallet demo_offer (fst demo_quote)
          (buyer_terms demo_pay_lib demo_wallet demo_offer (fst demo_quote) demo_address ''100'' 5) demo_sig)"
      unfolding terms demo_paid_def [symmetric] using diff by (simp add: demo_pay_lib_def)
    show "length (snd demo_quote) \<le> 64 * 1024" by (rule demo_header_length)
    show "length (b64_of True (json_stringify (sort_keys (mppRequest demo_offer 8)))) \<le> 16 * 1024"
      using demo_request_length unfolding demo_wants_def by linarith
    show "length (b64_of True (json_stringify (buyer_credential demo_wallet demo_offer (fst demo_quote)
        (buyer_terms demo_pay_lib demo_wallet demo_offer (fst demo_quote) demo_address ''100'' 5) demo_sig))) \<le> 16 * 1024"
      unfolding terms demo_paid_def [symmetric] using b64_of_length [of "json_stringify demo_paid"] demo_paid_length by linarith
    show "[] = [] \<or> None = Some []" by simp
  qed
  moreover have "int_dec 8 = ''8''" by code_simp
  then have "only_tier demo_offer 8 ''100''" by (simp add: only_tier_def demo_offer_def)
  ultimately show ?thesis by blast
qed

end
