(* ===== verification/Registrar.thy ===== *)
theory Registrar
  imports PayWire Rln_Field
begin

text \<open>
  The payment registrar: \<open>makeStore\<close>, \<open>makeEngine\<close> (settling, inserting, reconciling, recovery)
  and the metric labels of \<^verbatim>\<open>src/payments/registrar.mjs\<close>, with the receipt wait of
  \<^verbatim>\<open>src/lib/rpc-safety.mjs\<close>.

  Orders are mutable objects that the store and several requests share, so they live in a heap and
  are named by object numbers. Every \<open>await\<close> ends a step: a request is a program counter, the answer
  of the chain endpoint it waits for arrives as an event, and events of different requests interleave
  freely. A crash keeps the disk copy of the store and nothing else. A broadcast has two steps, the
  acceptance by the endpoint and the arrival of its answer. Two consecutive awaits with no access to
  shared state between them are one event. Timestamps, the \<open>meta\<close> field, counters, log lines and the
  detail texts of refusals are left out. \<open>sent\<close> and \<open>confirmed\<close> are ghosts: the transactions the
  endpoint accepted and the hashes it reported as successful at the configured depth.
\<close>

section \<open>Metric labels\<close>

definition PAYMENT_PROTOCOLS :: "string list" where
  "PAYMENT_PROTOCOLS = [''unknown'', ''x402'', ''mpp'']"

definition PAYMENT_RESULTS :: "string list" where
  "PAYMENT_RESULTS = [''challenged'', ''inserted'', ''replayed'', ''rejected'', ''failed'']"

definition PAYMENT_REASONS :: "string list" where
  "PAYMENT_REASONS = [''payment-required'', ''body-too-large'', ''bad-json'', ''bad-body'', ''unknown-limit'',
     ''rate-limited'', ''credential-too-large'', ''protocol-disabled'', ''limit-mismatch'',
     ''invalid_payment_payload'', ''invalid_x402_version'', ''invalid_payment_requirements'',
     ''invalid_scheme'', ''invalid_network'', ''invalid_exact_evm_payload_asset'',
     ''invalid_exact_evm_payload_recipient_mismatch'',
     ''invalid_exact_evm_payload_authorization_value_mismatch'',
     ''invalid_exact_evm_payload_authorization'', ''invalid_exact_evm_payload_signature'',
     ''malformed-credential'', ''method-unsupported'', ''invalid-challenge'', ''payment-expired'',
     ''verification-failed'', ''bad-commitment'', ''nonce-used'', ''in-progress'', ''insert-failed'',
     ''busy'', ''not-yet-valid'', ''expired'', ''bad-signature'', ''rpc-error'', ''insufficient_funds'',
     ''already-member'', ''settle-failed'', ''internal-error'', ''other'']"

record pay_labels =
  pl_protocol :: string
  pl_result :: string
  pl_reason :: "string option"

definition paymentMetricLabels :: "string \<Rightarrow> string \<Rightarrow> string option \<Rightarrow> pay_labels" where
  "paymentMetricLabels protocol result reason =
     (let r = (if result \<in> set PAYMENT_RESULTS then result else ''failed'') in
      \<lparr>pl_protocol = (if protocol \<in> set PAYMENT_PROTOCOLS then protocol else ''unknown''), pl_result = r,
       pl_reason = (if r \<noteq> ''inserted'' \<and> r \<noteq> ''replayed''
         then Some (case reason of Some x \<Rightarrow> if x \<in> set PAYMENT_REASONS then x else ''other'' | None \<Rightarrow> ''other'')
         else None)\<rparr>)"

section \<open>Orders, the store and requests\<close>

datatype order_state = NoState | Settling | Settled | Inserting | Inserted | Failed

record order =
  od_asset :: string
  od_from :: string
  od_nonce :: string
  od_commitment :: string
  od_limit :: int
  od_protocol :: string
  od_state :: order_state
  od_settleTx :: "string option"
  od_insertTx :: "string option"
  od_leafIndex :: "int option"
  od_root :: "string option"
  od_error :: "string option"
  od_settleBlock :: "int option"

definition FIELD_P :: int where
  "FIELD_P = 21888242871839275222246405745257275088548364400416034343698204186575808495617"

definition isCommitment :: "jsval \<Rightarrow> bool" where
  "isCommitment v \<longleftrightarrow> isUintString v \<and> int (dec_nat (str_of v)) < FIELD_P"

record pay_request =
  rq_protocol :: string
  rq_limit :: int
  rq_commitment :: string
  rq_auth :: authorization
  rq_signature :: string

type_synonym order_key = string

definition store_key :: "string \<Rightarrow> string \<Rightarrow> string \<Rightarrow> order_key" where
  "store_key asset sender nonce = js_lower asset @ '':'' @ js_lower sender @ '':'' @ js_lower nonce"

definition key_of :: "order \<Rightarrow> order_key" where
  "key_of o1 = store_key (od_asset o1) (od_from o1) (od_nonce o1)"

definition request_key :: "offer \<Rightarrow> pay_request \<Rightarrow> order_key" where
  "request_key F rq = store_key (of_asset F) (au_from (rq_auth rq)) (au_nonce (rq_auth rq))"

text \<open>Who waits for the outcome: a request that found an order in the store, one that settles a new
  payment, or the recovery at boot with the objects it has left.\<close>

datatype who = Posted pay_request | Fresh pay_request | Boot "nat list"

datatype tx_kind = SettleTx | InsertTx

record receipt =
  rc_status :: int
  rc_block :: int
  rc_inserted :: "(string \<times> int \<times> string) list"  \<comment> \<open>the \<open>Inserted\<close> events: commitment, index, root\<close>

datatype pc =
    PReconcile tx_kind who nat string   \<comment> \<open>\<open>reconcilePending\<close>: the receipt of a hash and its depth\<close>
  | PReads pay_request "nat option"     \<comment> \<open>the three chain reads before settling\<close>
  | PLimitOf who nat                    \<comment> \<open>\<open>insertLeaf\<close>: \<open>limitOf\<close>\<close>
  | PRootOf who nat                     \<comment> \<open>\<open>insertLeaf\<close>: \<open>currentRoot\<close> of a leaf found active\<close>
  | PSim tx_kind who nat                \<comment> \<open>in the queue of \<open>withTxLock\<close>, or simulating at its head\<close>
  | PSend tx_kind who nat               \<comment> \<open>broadcasting\<close>
  | PSent tx_kind who nat string        \<comment> \<open>accepted by the endpoint, answer under way\<close>
  | PWait tx_kind who nat string        \<comment> \<open>\<open>waitForTransactionReceipt\<close>\<close>
  | PCounts bool who nat                \<comment> \<open>\<open>finishInsert\<close> without an event: leaf count and root; reconciling?\<close>

text \<open>A settlement is recorded with the request it was sent for.\<close>

datatype sent_tx = SentSettle pay_request | SentInsert string int

type_synonym outcome = "(int \<times> string) + (bool \<times> order)"

record registrar =
  heap :: "nat \<Rightarrow> order"
  next_object :: nat
  orders :: "(order_key, nat) jmap"
  disk :: "(order_key \<times> order) list"
  disk_up :: bool
  inflight :: "order_key list"
  tx_queue :: "nat list"
  jobs :: "nat \<Rightarrow> pc option"
  answers :: "(nat \<times> outcome) list"
  running :: bool
  sent :: "(string \<times> sent_tx) list"
  confirmed :: "string list"

record engine =
  en_offer :: offer
  en_confirmations :: int
  en_maxInflight :: nat
  en_checksum :: "string \<Rightarrow> string"                                    \<comment> \<open>\<open>ethers.getAddress\<close>\<close>
  en_recover :: "authorization \<Rightarrow> string \<Rightarrow> string option"             \<comment> \<open>\<open>recoverAuthorization\<close> in the token's domain\<close>

section \<open>Store operations\<close>

definition change :: "nat \<Rightarrow> (order \<Rightarrow> order) \<Rightarrow> registrar \<Rightarrow> registrar" where
  "change ob f s = s\<lparr>heap := (heap s)(ob := f (heap s ob))\<rparr>"

definition persist :: "registrar \<Rightarrow> registrar" where
  "persist s = (if disk_up s then s\<lparr>disk := map (\<lambda>(k, ob). (k, heap s ob)) (orders s)\<rparr> else s)"

definition put :: "nat \<Rightarrow> registrar \<Rightarrow> registrar" where
  "put ob s = persist (s\<lparr>orders := AList.update (key_of (heap s ob)) ob (orders s)\<rparr>)"

definition load_store :: "registrar \<Rightarrow> registrar" where  \<comment> \<open>\<open>makeStore\<close> on the stored file\<close>
  "load_store s = (let n = length (disk s) in
     persist (s\<lparr>heap := (\<lambda>j. if j < n then snd (disk s ! j) else heap s j), next_object := n,
       orders := map (\<lambda>j. (fst (disk s ! j), j)) [0..<n]\<rparr>))"

definition goto :: "nat \<Rightarrow> pc \<Rightarrow> registrar \<Rightarrow> registrar" where
  "goto i p s = s\<lparr>jobs := (jobs s)(i := Some p)\<rparr>"

definition answer :: "nat \<Rightarrow> outcome \<Rightarrow> registrar \<Rightarrow> registrar" where
  "answer i out s = s\<lparr>jobs := (jobs s)(i := None), answers := answers s @ [(i, out)]\<rparr>"

definition enter_tx :: "nat \<Rightarrow> tx_kind \<Rightarrow> who \<Rightarrow> nat \<Rightarrow> registrar \<Rightarrow> registrar" where
  "enter_tx i k w ob s = goto i (PSim k w ob) (s\<lparr>tx_queue := tx_queue s @ [i]\<rparr>)"

definition leave_tx :: "registrar \<Rightarrow> registrar" where
  "leave_tx s = s\<lparr>tx_queue := drop 1 (tx_queue s)\<rparr>"

definition busy_key :: "order_key \<Rightarrow> registrar \<Rightarrow> registrar" where
  "busy_key k s = s\<lparr>inflight := List.insert k (inflight s)\<rparr>"

definition free_key :: "order_key \<Rightarrow> registrar \<Rightarrow> registrar" where
  "free_key k s = s\<lparr>inflight := removeAll k (inflight s)\<rparr>"

section \<open>Recovery, inserting and reconciling\<close>

definition pending_hash :: "order \<Rightarrow> string option" where
  "pending_hash o1 = (if od_state o1 = Settling then od_settleTx o1 else od_insertTx o1)"

definition is_pending :: "order \<Rightarrow> bool" where
  "is_pending o1 \<longleftrightarrow> od_state o1 = Settling \<or> od_state o1 = Inserting"

definition pending_kind :: "order \<Rightarrow> tx_kind" where
  "pending_kind o1 = (if od_state o1 = Settling then SettleTx else InsertTx)"

fun recover_next :: "nat \<Rightarrow> nat list \<Rightarrow> registrar \<Rightarrow> registrar" where
  "recover_next i [] s = s\<lparr>jobs := (jobs s)(i := None), running := True\<rparr>"
| "recover_next i (ob # rest) s =
     (let o1 = heap s ob in
      if is_pending o1 then
        (case pending_hash o1 of None \<Rightarrow> recover_next i rest s
         | Some h \<Rightarrow> goto i (PReconcile (pending_kind o1) (Boot rest) ob h) s)
      else if od_state o1 = Settled then goto i (PLimitOf (Boot rest) ob) s
      else recover_next i rest s)"

definition insert_ok :: "engine \<Rightarrow> nat \<Rightarrow> who \<Rightarrow> nat \<Rightarrow> registrar \<Rightarrow> registrar" where
  "insert_ok C i w ob s = (case w of
     Fresh rq \<Rightarrow> free_key (request_key (en_offer C) rq) (answer i (Inr (False, heap s ob)) s)
   | Posted rq \<Rightarrow> free_key (request_key (en_offer C) rq) (answer i (Inr (True, heap s ob)) s)
   | Boot rest \<Rightarrow> recover_next i rest s)"

definition insert_failed :: "engine \<Rightarrow> nat \<Rightarrow> who \<Rightarrow> nat \<Rightarrow> string \<Rightarrow> bool \<Rightarrow> registrar \<Rightarrow> registrar" where
  "insert_failed C i w ob err timeout s =
     (let refuse = (\<lambda>rq. free_key (request_key (en_offer C) rq)
           (answer i (Inl (if timeout then (503, ''in-progress'') else (502, ''insert-failed'')))
             (put ob (change ob (\<lambda>o1. o1\<lparr>od_error := Some err\<rparr>) s)))) in
      case w of Fresh rq \<Rightarrow> refuse rq | Posted rq \<Rightarrow> refuse rq | Boot rest \<Rightarrow> recover_next i rest s)"

definition settle_failed :: "engine \<Rightarrow> nat \<Rightarrow> pay_request \<Rightarrow> nat \<Rightarrow> string \<Rightarrow> bool \<Rightarrow> registrar \<Rightarrow> registrar" where
  "settle_failed C i rq ob err timeout s =
     free_key (request_key (en_offer C) rq)
       (answer i (Inl (if timeout then (503, ''in-progress'') else (402, ''settle-failed'')))
         (put ob (change ob (\<lambda>o1. o1\<lparr>od_state := (if od_settleTx o1 \<noteq> None then od_state o1 else Failed), od_error := Some err\<rparr>) s)))"

definition tx_failed :: "engine \<Rightarrow> nat \<Rightarrow> tx_kind \<Rightarrow> who \<Rightarrow> nat \<Rightarrow> string \<Rightarrow> bool \<Rightarrow> registrar \<Rightarrow> registrar" where
  "tx_failed C i k w ob err timeout s = (case (k, w) of
     (SettleTx, Fresh rq) \<Rightarrow> settle_failed C i rq ob err timeout s
   | _ \<Rightarrow> insert_failed C i w ob err timeout s)"

definition receiptIsFinal :: "engine \<Rightarrow> receipt \<Rightarrow> int res \<Rightarrow> bool res" where
  "receiptIsFinal C rcpt depth = (if en_confirmations C \<le> 1 then Inr True
     else bind_res depth (\<lambda>d. Inr (d \<ge> en_confirmations C)))"

section \<open>Verifying and settling\<close>

definition refuse :: "nat \<Rightarrow> int \<Rightarrow> string \<Rightarrow> registrar \<Rightarrow> registrar" where
  "refuse i status reason s = answer i (Inl (status, reason)) s"

text \<open>The checks of \<open>verifyAndSettle\<close> that need no chain read.\<close>

definition verify_offline :: "engine \<Rightarrow> int \<Rightarrow> pay_request \<Rightarrow> registrar \<Rightarrow> (int \<times> string) option" where
  "verify_offline C now rq s = (let F = en_offer C; a = rq_auth rq; nowSec = now div 1000 in
     if length (inflight s) \<ge> en_maxInflight C then Some (503, ''busy'')
     else if int (dec_nat (au_validAfter a)) > nowSec then Some (402, ''not-yet-valid'')
     else if int (dec_nat (au_validBefore a)) \<le> nowSec + of_settleBufferSec F then Some (402, ''expired'')
     else (case en_recover C a (rq_signature rq) of
       None \<Rightarrow> Some (402, ''bad-signature'')
     | Some signer \<Rightarrow> if sameAddress (JStr signer) (JStr (au_from a)) then None else Some (402, ''bad-signature'')))"

definition verify :: "engine \<Rightarrow> int \<Rightarrow> nat \<Rightarrow> pay_request \<Rightarrow> nat option \<Rightarrow> registrar \<Rightarrow> registrar" where
  "verify C now i rq existing s = (case verify_offline C now rq s of
     Some (status, reason) \<Rightarrow> refuse i status reason s
   | None \<Rightarrow> goto i (PReads rq existing) s)"

text \<open>What \<open>verifyAndSettle\<close> does with an order that is not (or no longer) waiting for a receipt.\<close>

definition after_existing :: "engine \<Rightarrow> int \<Rightarrow> nat \<Rightarrow> pay_request \<Rightarrow> nat \<Rightarrow> registrar \<Rightarrow> registrar" where
  "after_existing C now i rq ob s =
     (if od_state (heap s ob) = Inserted then answer i (Inr (True, heap s ob)) s
      else if od_state (heap s ob) = Settled
      then goto i (PLimitOf (Posted rq) ob) (busy_key (request_key (en_offer C) rq) s)
      else verify C now i rq (Some ob) s)"

definition after_reconcile :: "engine \<Rightarrow> int \<Rightarrow> nat \<Rightarrow> who \<Rightarrow> nat \<Rightarrow> registrar \<Rightarrow> registrar" where
  "after_reconcile C now i w ob s =
     (let waiting = is_pending (heap s ob) in
      case w of
        Boot rest \<Rightarrow> if \<not> waiting \<and> od_state (heap s ob) = Settled then goto i (PLimitOf w ob) s else recover_next i rest s
      | Posted rq \<Rightarrow> if waiting then refuse i 503 ''in-progress'' s else after_existing C now i rq ob s
      | Fresh rq \<Rightarrow> s)"

definition start_request :: "engine \<Rightarrow> int \<Rightarrow> nat \<Rightarrow> pay_request \<Rightarrow> registrar \<Rightarrow> registrar" where
  "start_request C now i rq s = (let F = en_offer C; k = request_key F rq in
     if \<not> isCommitment (JStr (rq_commitment rq)) then refuse i 400 ''bad-commitment'' s
     else if priceOf F (JNum (rq_limit rq)) = None then refuse i 400 ''unknown-limit'' s
     else case map_of (orders s) k of
       None \<Rightarrow> verify C now i rq None s
     | Some ob \<Rightarrow> (let o1 = heap s ob in
         if od_commitment o1 \<noteq> rq_commitment rq \<or> od_limit o1 \<noteq> rq_limit rq then refuse i 409 ''nonce-used'' s
         else if k \<in> set (inflight s) then refuse i 409 ''in-progress'' s
         else if is_pending o1 then
           (case pending_hash o1 of None \<Rightarrow> refuse i 503 ''in-progress'' s
            | Some h \<Rightarrow> goto i (PReconcile (pending_kind o1) (Posted rq) ob h) s)
         else after_existing C now i rq ob s))"

definition new_order :: "engine \<Rightarrow> pay_request \<Rightarrow> order" where
  "new_order C rq = \<lparr>od_asset = of_asset (en_offer C), od_from = en_checksum C (au_from (rq_auth rq)), od_nonce = js_lower (au_nonce (rq_auth rq)),
     od_commitment = rq_commitment rq, od_limit = rq_limit rq, od_protocol = rq_protocol rq, od_state = NoState, od_settleTx = None,
     od_insertTx = None, od_leafIndex = None, od_root = None, od_error = None, od_settleBlock = None\<rparr>"

definition begin_settle :: "engine \<Rightarrow> nat \<Rightarrow> pay_request \<Rightarrow> nat option \<Rightarrow> registrar \<Rightarrow> registrar" where
  "begin_settle C i rq existing s =
     (let ob = (case existing of Some x \<Rightarrow> x | None \<Rightarrow> next_object s);
          s1 = (case existing of Some x \<Rightarrow> s
             | None \<Rightarrow> s\<lparr>heap := (heap s)(ob := new_order C rq), next_object := Suc (next_object s)\<rparr>) in
      enter_tx i SettleTx (Fresh rq) ob
        (busy_key (request_key (en_offer C) rq) (change ob (\<lambda>o1. o1\<lparr>od_protocol := rq_protocol rq\<rparr>) s1)))"

definition got_reads :: "engine \<Rightarrow> nat \<Rightarrow> pay_request \<Rightarrow> nat option \<Rightarrow> (bool \<times> int \<times> int) res \<Rightarrow> registrar \<Rightarrow> registrar" where
  "got_reads C i rq existing r s = (case r of
     Inl e \<Rightarrow> refuse i 502 ''rpc-error'' s
   | Inr (used, bal, active) \<Rightarrow>
       if used then refuse i 402 ''nonce-used'' s
       else if bal < int (dec_nat (au_value (rq_auth rq))) then refuse i 402 ''insufficient_funds'' s
       else if active \<noteq> 0 then refuse i 409 ''already-member'' s
       else begin_settle C i rq existing s)"

section \<open>Finishing an insert\<close>

definition finish_throw :: "engine \<Rightarrow> nat \<Rightarrow> bool \<Rightarrow> who \<Rightarrow> nat \<Rightarrow> string \<Rightarrow> registrar \<Rightarrow> registrar" where
  "finish_throw C i rec w ob err s =
     (if rec then (case w of Boot rest \<Rightarrow> recover_next i rest s | _ \<Rightarrow> refuse i 502 ''rpc-error'' s)
      else insert_failed C i w ob err False s)"

definition complete_insert :: "engine \<Rightarrow> int \<Rightarrow> nat \<Rightarrow> bool \<Rightarrow> who \<Rightarrow> nat \<Rightarrow> int \<Rightarrow> string \<Rightarrow> registrar \<Rightarrow> registrar" where
  "complete_insert C now i rec w ob idx root s =
     (let s1 = put ob (change ob (\<lambda>o1. o1\<lparr>od_leafIndex := Some idx, od_root := Some root, od_state := Inserted, od_error := None\<rparr>) s) in
      if rec then after_reconcile C now i w ob s1 else insert_ok C i w ob s1)"

definition finishInsert :: "engine \<Rightarrow> int \<Rightarrow> nat \<Rightarrow> bool \<Rightarrow> who \<Rightarrow> nat \<Rightarrow> receipt option \<Rightarrow> registrar \<Rightarrow> registrar" where
  "finishInsert C now i rec w ob rcpt s = (case rcpt of
     Some r \<Rightarrow>
       if rc_status r = 1 then
         (case find (\<lambda>(c, j, root). c = od_commitment (heap s ob)) (rc_inserted r) of
            Some (c, j, root) \<Rightarrow> complete_insert C now i rec w ob j root s
          | None \<Rightarrow> goto i (PCounts rec w ob) s)
       else finish_throw C i rec w ob ''insert tx reverted''
              (put ob (change ob (\<lambda>o1. o1\<lparr>od_state := Settled, od_error := Some ''insert-reverted''\<rparr>) s))
   | None \<Rightarrow> finish_throw C i rec w ob ''insert tx reverted''
              (put ob (change ob (\<lambda>o1. o1\<lparr>od_state := Settled, od_error := Some ''insert-reverted''\<rparr>) s)))"

definition got_counts :: "engine \<Rightarrow> int \<Rightarrow> nat \<Rightarrow> bool \<Rightarrow> who \<Rightarrow> nat \<Rightarrow> int res \<Rightarrow> string res \<Rightarrow> registrar \<Rightarrow> registrar" where
  "got_counts C now i rec w ob cnt root s = (case cnt of
     Inl e \<Rightarrow> finish_throw C i rec w ob ''rpc'' s
   | Inr n \<Rightarrow> (case root of
       Inl e \<Rightarrow> finish_throw C i rec w ob ''rpc'' (change ob (\<lambda>o1. o1\<lparr>od_leafIndex := Some (n - 1)\<rparr>) s)
     | Inr r \<Rightarrow> complete_insert C now i rec w ob (n - 1) r s))"

section \<open>Steps\<close>

definition confirm :: "string \<Rightarrow> registrar \<Rightarrow> registrar" where
  "confirm h s = s\<lparr>confirmed := h # confirmed s\<rparr>"

definition got_receipt :: "engine \<Rightarrow> int \<Rightarrow> nat \<Rightarrow> tx_kind \<Rightarrow> who \<Rightarrow> nat \<Rightarrow> string \<Rightarrow> receipt option res \<Rightarrow> int res \<Rightarrow> registrar \<Rightarrow> registrar" where
  "got_receipt C now i k w ob h r depth s =
     (case bind_res r (\<lambda>ro. case ro of None \<Rightarrow> Inr None
        | Some rcpt \<Rightarrow> bind_res (receiptIsFinal C rcpt depth) (\<lambda>final. Inr (if final then Some rcpt else None))) of
        Inl e \<Rightarrow> finish_throw C i True w ob ''rpc'' s
      | Inr None \<Rightarrow> after_reconcile C now i w ob s
      | Inr (Some rcpt) \<Rightarrow>
          if k = SettleTx then after_reconcile C now i w ob
             (if rc_status rcpt \<noteq> 1 then put ob (change ob (\<lambda>o1. o1\<lparr>od_state := Failed, od_error := Some ''settle-reverted''\<rparr>) s)
              else put ob (change ob (\<lambda>o1. o1\<lparr>od_state := Settled, od_settleBlock := Some (rc_block rcpt), od_error := None\<rparr>) (confirm h s)))
          else if rc_status rcpt \<noteq> 1 then after_reconcile C now i w ob
             (put ob (change ob (\<lambda>o1. o1\<lparr>od_state := Settled, od_error := Some ''insert-reverted''\<rparr>) s))
          else finishInsert C now i True w ob (Some rcpt) (confirm h s))"

definition got_limit :: "engine \<Rightarrow> nat \<Rightarrow> who \<Rightarrow> nat \<Rightarrow> int res \<Rightarrow> registrar \<Rightarrow> registrar" where
  "got_limit C i w ob r s = (case r of
     Inl e \<Rightarrow> insert_failed C i w ob ''rpc'' False s
   | Inr already \<Rightarrow> if already \<noteq> 0 then goto i (PRootOf w ob) (change ob (\<lambda>o1. o1\<lparr>od_state := Inserted\<rparr>) s)
       else enter_tx i InsertTx w ob s)"

definition got_root :: "engine \<Rightarrow> nat \<Rightarrow> who \<Rightarrow> nat \<Rightarrow> string res \<Rightarrow> registrar \<Rightarrow> registrar" where
  "got_root C i w ob r s = (case r of
     Inl e \<Rightarrow> insert_failed C i w ob ''rpc'' False s
   | Inr root \<Rightarrow> insert_ok C i w ob (put ob (change ob (\<lambda>o1. o1\<lparr>od_root := Some root, od_error := None\<rparr>) s)))"

definition sent_of :: "tx_kind \<Rightarrow> who \<Rightarrow> order \<Rightarrow> sent_tx" where
  "sent_of k w o1 = (case (k, w) of (SettleTx, Fresh rq) \<Rightarrow> SentSettle rq | _ \<Rightarrow> SentInsert (od_commitment o1) (od_limit o1))"

definition record_hash :: "tx_kind \<Rightarrow> string \<Rightarrow> order \<Rightarrow> order" where
  "record_hash k h o1 = (if k = SettleTx then o1\<lparr>od_settleTx := Some h, od_state := Settling\<rparr>
     else o1\<lparr>od_insertTx := Some h, od_state := Inserting\<rparr>)"

datatype wait_outcome = WReceipt "receipt option" | WTimeout | WError string

definition waited :: "engine \<Rightarrow> int \<Rightarrow> nat \<Rightarrow> tx_kind \<Rightarrow> who \<Rightarrow> nat \<Rightarrow> string \<Rightarrow> wait_outcome \<Rightarrow> registrar \<Rightarrow> registrar" where
  "waited C now i k w ob h out s = (case out of
     WTimeout \<Rightarrow> tx_failed C i k w ob ''timeout'' True s
   | WError e \<Rightarrow> tx_failed C i k w ob e False s
   | WReceipt ro \<Rightarrow>
       if k = InsertTx then finishInsert C now i False w ob ro (if \<exists>r \<in> set_option ro. rc_status r = 1 then confirm h s else s)
       else (case ro of
         Some r \<Rightarrow>
           if rc_status r = 1 then goto i (PLimitOf w ob)
             (put ob (change ob (\<lambda>o1. o1\<lparr>od_state := Settled, od_settleBlock := Some (rc_block r)\<rparr>) (confirm h s)))
           else tx_failed C i k w ob ''settle tx reverted'' False
             (put ob (change ob (\<lambda>o1. o1\<lparr>od_state := Failed, od_error := Some ''settle-reverted''\<rparr>) s))
       | None \<Rightarrow> tx_failed C i k w ob ''settle tx reverted'' False
             (put ob (change ob (\<lambda>o1. o1\<lparr>od_state := Failed, od_error := Some ''settle-reverted''\<rparr>) s))))"

datatype event =
    Post nat int pay_request
  | GotReceipt nat int "receipt option res" "int res"
  | GotReads nat "(bool \<times> int \<times> int) res"
  | GotLimit nat "int res"
  | GotRoot nat "string res"
  | GotCounts nat int "int res" "string res"
  | Simulated nat "unit res"
  | Accepted nat string
  | SendReply nat
  | SendError nat string
  | Waited nat int wait_outcome
  | DiskMode bool
  | Restart nat

text \<open>An event that no program counter waits for changes nothing. A broadcast is given a hash that no
  earlier transaction has.\<close>

fun step :: "engine \<Rightarrow> event \<Rightarrow> registrar \<Rightarrow> registrar" where
  "step C (Post i now rq) s = (if running s \<and> jobs s i = None then start_request C now i rq s else s)"
| "step C (GotReceipt i now r depth) s = (case jobs s i of
     Some (PReconcile k w ob h) \<Rightarrow> got_receipt C now i k w ob h r depth s | _ \<Rightarrow> s)"
| "step C (GotReads i r) s = (case jobs s i of Some (PReads rq ex) \<Rightarrow> got_reads C i rq ex r s | _ \<Rightarrow> s)"
| "step C (GotLimit i r) s = (case jobs s i of Some (PLimitOf w ob) \<Rightarrow> got_limit C i w ob r s | _ \<Rightarrow> s)"
| "step C (GotRoot i r) s = (case jobs s i of Some (PRootOf w ob) \<Rightarrow> got_root C i w ob r s | _ \<Rightarrow> s)"
| "step C (GotCounts i now cnt root) s = (case jobs s i of
     Some (PCounts rec w ob) \<Rightarrow> got_counts C now i rec w ob cnt root s | _ \<Rightarrow> s)"
| "step C (Simulated i r) s = (case jobs s i of
     Some (PSim k w ob) \<Rightarrow>
       if take 1 (tx_queue s) \<noteq> [i] then s
       else (case r of Inr _ \<Rightarrow> goto i (PSend k w ob) s | Inl e \<Rightarrow> tx_failed C i k w ob ''simulation'' False (leave_tx s))
   | _ \<Rightarrow> s)"
| "step C (Accepted i h) s = (case jobs s i of
     Some (PSend k w ob) \<Rightarrow>
       if h \<in> set (map fst (sent s)) then s
       else goto i (PSent k w ob h) (s\<lparr>sent := (h, sent_of k w (heap s ob)) # sent s\<rparr>)
   | _ \<Rightarrow> s)"
| "step C (SendReply i) s = (case jobs s i of
     Some (PSent k w ob h) \<Rightarrow> goto i (PWait k w ob h) (put ob (change ob (record_hash k h) (leave_tx s)))
   | _ \<Rightarrow> s)"
| "step C (SendError i e) s = (case jobs s i of
     Some (PSend k w ob) \<Rightarrow> tx_failed C i k w ob e False (leave_tx s)
   | Some (PSent k w ob h) \<Rightarrow> tx_failed C i k w ob e False (leave_tx s)
   | _ \<Rightarrow> s)"
| "step C (Waited i now out) s = (case jobs s i of
     Some (PWait k w ob h) \<Rightarrow> waited C now i k w ob h out s | _ \<Rightarrow> s)"
| "step C (DiskMode up) s = s\<lparr>disk_up := up\<rparr>"
| "step C (Restart i) s = (let s1 = load_store (s\<lparr>orders := [], inflight := [], tx_queue := [], jobs := (\<lambda>_. None), running := False\<rparr>)
     in recover_next i (map snd (orders s1)) s1)"

definition run :: "engine \<Rightarrow> event list \<Rightarrow> registrar \<Rightarrow> registrar" where
  "run C es s = fold (step C) es s"

definition no_order :: order where
  "no_order = \<lparr>od_asset = [], od_from = [], od_nonce = [], od_commitment = [], od_limit = 0, od_protocol = [], od_state = NoState,
     od_settleTx = None, od_insertTx = None, od_leafIndex = None, od_root = None, od_error = None, od_settleBlock = None\<rparr>"

definition first_boot :: registrar where
  "first_boot = \<lparr>heap = (\<lambda>_. no_order), next_object = 0, orders = [], disk = [], disk_up = True, inflight = [], tx_queue = [],
     jobs = (\<lambda>_. None), answers = [], running = True, sent = [], confirmed = []\<rparr>"

section \<open>Every insert is paid for\<close>

definition core :: "order \<Rightarrow> string \<times> int" where
  "core o1 = (od_commitment o1, od_limit o1)"

definition settled_for :: "registrar \<Rightarrow> string \<Rightarrow> string \<times> int \<Rightarrow> bool" where
  "settled_for s h c \<longleftrightarrow> (\<exists>rq. (h, SentSettle rq) \<in> set (sent s) \<and> (rq_commitment rq, rq_limit rq) = c)"

definition paid :: "registrar \<Rightarrow> string \<times> int \<Rightarrow> bool" where
  "paid s c \<longleftrightarrow> (\<exists>h \<in> set (confirmed s). settled_for s h c)"

definition order_ok :: "registrar \<Rightarrow> order \<Rightarrow> bool" where
  "order_ok s o1 \<longleftrightarrow> (od_state o1 \<in> {Settled, Inserting, Inserted} \<longrightarrow> paid s (core o1))
     \<and> (\<forall>h. od_settleTx o1 = Some h \<longrightarrow> settled_for s h (core o1))"

fun who_ok :: "(pay_request \<Rightarrow> bool) \<Rightarrow> registrar \<Rightarrow> who \<Rightarrow> nat \<Rightarrow> bool" where
  "who_ok P s (Boot rest) ob = (ob < next_object s \<and> list_all (\<lambda>x. x < next_object s) rest)"
| "who_ok P s (Posted rq) ob = (ob < next_object s \<and> P rq \<and> (rq_commitment rq, rq_limit rq) = core (heap s ob))"
| "who_ok P s (Fresh rq) ob = (ob < next_object s \<and> P rq \<and> (rq_commitment rq, rq_limit rq) = core (heap s ob))"

fun tx_ok :: "registrar \<Rightarrow> tx_kind \<Rightarrow> who \<Rightarrow> nat \<Rightarrow> bool" where
  "tx_ok s SettleTx w ob = (\<exists>rq. w = Fresh rq)"
| "tx_ok s InsertTx w ob = paid s (core (heap s ob))"

fun hash_ok :: "registrar \<Rightarrow> tx_kind \<Rightarrow> nat \<Rightarrow> string \<Rightarrow> bool" where
  "hash_ok s SettleTx ob h = settled_for s h (core (heap s ob))"
| "hash_ok s InsertTx ob h = paid s (core (heap s ob))"

fun pc_ok :: "(pay_request \<Rightarrow> bool) \<Rightarrow> registrar \<Rightarrow> pc \<Rightarrow> bool" where
  "pc_ok P s (PReconcile k w ob h) = (who_ok P s w ob \<and> hash_ok s k ob h)"
| "pc_ok P s (PReads rq ex) = (P rq \<and> (case ex of None \<Rightarrow> True | Some ob \<Rightarrow> who_ok P s (Posted rq) ob))"
| "pc_ok P s (PLimitOf w ob) = (who_ok P s w ob \<and> paid s (core (heap s ob)))"
| "pc_ok P s (PRootOf w ob) = (who_ok P s w ob \<and> paid s (core (heap s ob)))"
| "pc_ok P s (PCounts rec w ob) = (who_ok P s w ob \<and> paid s (core (heap s ob)))"
| "pc_ok P s (PSim k w ob) = (who_ok P s w ob \<and> tx_ok s k w ob)"
| "pc_ok P s (PSend k w ob) = (who_ok P s w ob \<and> tx_ok s k w ob)"
| "pc_ok P s (PSent k w ob h) = (who_ok P s w ob \<and> tx_ok s k w ob \<and> hash_ok s k ob h)"
| "pc_ok P s (PWait k w ob h) = (who_ok P s w ob \<and> tx_ok s k w ob \<and> hash_ok s k ob h)"

definition reg_inv :: "(pay_request \<Rightarrow> bool) \<Rightarrow> registrar \<Rightarrow> bool" where
  "reg_inv P s \<longleftrightarrow> (\<forall>ob < next_object s. order_ok s (heap s ob)) \<and> (\<forall>(k, ob) \<in> set (orders s). ob < next_object s)
     \<and> (\<forall>(k, o1) \<in> set (disk s). order_ok s o1) \<and> (\<forall>i p. jobs s i = Some p \<longrightarrow> pc_ok P s p)
     \<and> (\<forall>(h, t) \<in> set (sent s). case t of SentSettle rq \<Rightarrow> P rq | SentInsert c l \<Rightarrow> paid s (c, l))"

text \<open>Facts about the sets of transactions survive any change of the other fields and any growth.\<close>

lemma grows:
  assumes "set (sent s) \<subseteq> set (sent s')" "set (confirmed s) \<subseteq> set (confirmed s')"
  shows "settled_for s h c \<Longrightarrow> settled_for s' h c" "paid s c \<Longrightarrow> paid s' c" "order_ok s o1 \<Longrightarrow> order_ok s' o1"
  using assms by (fastforce simp: settled_for_def paid_def order_ok_def)+

lemma pc_ok_grows:
  assumes "set (sent s) \<subseteq> set (sent s')" "set (confirmed s) \<subseteq> set (confirmed s')" "next_object s \<le> next_object s'"
    and same: "\<And>ob. ob < next_object s \<Longrightarrow> core (heap s' ob) = core (heap s ob)"
  shows "pc_ok P s p \<Longrightarrow> pc_ok P s' p"
proof -
  note g = grows [OF assms(1,2)]
  have w: "who_ok P s w ob \<Longrightarrow> who_ok P s' w ob \<and> ob < next_object s" for w ob
    using assms(3) same by (cases w) (auto simp: list_all_iff)
  have t: "tx_ok s k w ob \<Longrightarrow> ob < next_object s \<Longrightarrow> tx_ok s' k w ob" for k w ob
    using same g by (cases k) auto
  have h: "hash_ok s k ob hh \<Longrightarrow> ob < next_object s \<Longrightarrow> hash_ok s' k ob hh" for k ob hh
    using same g by (cases k) auto
  have pd: "paid s (core (heap s ob)) \<Longrightarrow> ob < next_object s \<Longrightarrow> paid s' (core (heap s' ob))" for ob
    using g(2) same by metis
  show "pc_ok P s p \<Longrightarrow> pc_ok P s' p"
  proof (cases p)
    case (PReads rq ex)
    then show "pc_ok P s p \<Longrightarrow> pc_ok P s' p" using w [of "Posted rq"] by (cases ex) (simp_all del: who_ok.simps)
  qed (use w t h pd in \<open>auto simp del: who_ok.simps tx_ok.simps hash_ok.simps\<close>)
qed

text \<open>The frame rule: what a step has to show when it leaves the rest as it was.\<close>

lemma inv_frame:
  assumes inv: "reg_inv P s"
    and sub: "set (sent s) \<subseteq> set (sent s')" "set (confirmed s) \<subseteq> set (confirmed s')" "next_object s \<le> next_object s'"
    and same: "\<And>ob. ob < next_object s \<Longrightarrow> core (heap s' ob) = core (heap s ob)"
    and ords: "\<And>ob. ob < next_object s' \<Longrightarrow> (ob < next_object s \<and> heap s' ob = heap s ob) \<or> order_ok s' (heap s' ob)"
    and keys: "\<And>k ob. (k, ob) \<in> set (orders s') \<Longrightarrow> (k, ob) \<in> set (orders s) \<or> ob < next_object s'"
    and dsk: "\<And>k o1. (k, o1) \<in> set (disk s') \<Longrightarrow> (k, o1) \<in> set (disk s) \<or> order_ok s' o1"
    and pcs: "\<And>i p. jobs s' i = Some p \<Longrightarrow> jobs s i = Some p \<or> pc_ok P s' p"
    and txs: "\<And>h t. (h, t) \<in> set (sent s') \<Longrightarrow> (h, t) \<in> set (sent s) \<or> (case t of SentSettle rq \<Rightarrow> P rq | SentInsert c l \<Rightarrow> paid s' (c, l))"
  shows "reg_inv P s'"
proof -
  note g = grows [OF sub(1,2)]
  note pg = pc_ok_grows [OF sub same]
  note d = inv [unfolded reg_inv_def]
  show ?thesis unfolding reg_inv_def
  proof (intro conjI allI impI ballI)
    show "order_ok s' (heap s' ob)" if "ob < next_object s'" for ob
      using ords [OF that] d g(3) by (metis)
    show "case x of (k, ob) \<Rightarrow> ob < next_object s'" if "x \<in> set (orders s')" for x
      using keys that d sub(3) by (cases x) fastforce
    show "case x of (k, o1) \<Rightarrow> order_ok s' o1" if "x \<in> set (disk s')" for x
      using dsk that d g(3) by (cases x) fastforce
    show "pc_ok P s' p" if "jobs s' i = Some p" for i p
      using pcs [OF that] d pg by metis
    show "case x of (h, t) \<Rightarrow> case t of SentSettle rq \<Rightarrow> P rq | SentInsert c l \<Rightarrow> paid s' (c, l)" if "x \<in> set (sent s')" for x
    proof (cases x)
      case (Pair h t)
      then show ?thesis using txs [of h t] that d g(2) by (cases t) fastforce+
    qed
  qed
qed

lemma inv_goto: "reg_inv P s \<Longrightarrow> pc_ok P s p \<Longrightarrow> reg_inv P (goto i p s)"
  by (erule inv_frame) (auto simp: goto_def split: if_splits intro: pc_ok_grows [of s])

lemma inv_answer: "reg_inv P s \<Longrightarrow> reg_inv P (answer i out s)"
  by (erule inv_frame) (auto simp: answer_def split: if_splits)

lemma inv_flags: "reg_inv P s \<Longrightarrow> reg_inv P (s\<lparr>inflight := x\<rparr>)" "reg_inv P s \<Longrightarrow> reg_inv P (s\<lparr>tx_queue := q\<rparr>)"
  "reg_inv P s \<Longrightarrow> reg_inv P (s\<lparr>disk_up := b\<rparr>)"
  by (erule inv_frame; simp)+

lemma inv_sets: "reg_inv P s \<Longrightarrow> reg_inv P (busy_key k s)" "reg_inv P s \<Longrightarrow> reg_inv P (free_key k s)" "reg_inv P s \<Longrightarrow> reg_inv P (leave_tx s)"
  "reg_inv P s \<Longrightarrow> reg_inv P (confirm h s)"
  by (simp_all add: busy_key_def free_key_def leave_tx_def inv_flags) (erule inv_frame; auto simp: confirm_def)

lemma inv_order: "reg_inv P s \<Longrightarrow> ob < next_object s \<Longrightarrow> order_ok s (heap s ob)"
  by (simp add: reg_inv_def)

lemma inv_change:
  assumes "reg_inv P s" "ob < next_object s" "core (f (heap s ob)) = core (heap s ob)" "order_ok s (f (heap s ob))"
  shows "reg_inv P (change ob f s)"
proof -
  have "order_ok (change ob f s) (f (heap s ob))"
    by (rule grows(3) [OF _ _ assms(4)]) (simp_all add: change_def)
  then show ?thesis using assms(2,3)
    by (intro inv_frame [OF assms(1)]) (auto simp: change_def)
qed

lemma inv_put: "reg_inv P s \<Longrightarrow> ob < next_object s \<Longrightarrow> reg_inv P (put ob s)"
proof -
  assume a: "reg_inv P s" "ob < next_object s"
  let ?s = "s\<lparr>orders := AList.update (key_of (heap s ob)) ob (orders s)\<rparr>"
  have 1: "reg_inv P ?s" using a by (intro inv_frame [OF a(1)]) (auto dest: update_memD)
  have 2: "order_ok (?s\<lparr>disk := d\<rparr>) o1 = order_ok ?s o1" for d o1
    by (simp add: order_ok_def paid_def settled_for_def)
  have ids: "ob' < next_object s" if "(k, ob') \<in> set (orders ?s)" for k ob'
    using 1 that unfolding reg_inv_def by auto
  show ?thesis
  proof (cases "disk_up s")
    case True
    show ?thesis unfolding put_def persist_def
    proof (rule inv_frame [OF 1], goal_cases)
      case (7 k o1)
      then obtain ob' where "(k, ob') \<in> set (orders ?s)" "o1 = heap s ob'" using True by auto
      then show ?case using ids inv_order [OF 1] True by (simp add: 2)
    qed (simp_all add: True)
  qed (use 1 in \<open>simp add: put_def persist_def\<close>)
qed

lemma store_simps [simp]:
  "next_object (change ob f s) = next_object s" "sent (change ob f s) = sent s" "confirmed (change ob f s) = confirmed s"
  "next_object (persist s) = next_object s" "sent (persist s) = sent s" "confirmed (persist s) = confirmed s" "heap (persist s) = heap s"
  "next_object (put ob s) = next_object s" "sent (put ob s) = sent s" "confirmed (put ob s) = confirmed s" "heap (put ob s) = heap s"
  "next_object (leave_tx s) = next_object s" "sent (leave_tx s) = sent s" "confirmed (leave_tx s) = confirmed s" "heap (leave_tx s) = heap s"
  "next_object (busy_key k s) = next_object s" "sent (busy_key k s) = sent s" "confirmed (busy_key k s) = confirmed s" "heap (busy_key k s) = heap s"
  "next_object (free_key k s) = next_object s" "sent (free_key k s) = sent s" "confirmed (free_key k s) = confirmed s" "heap (free_key k s) = heap s"
  "next_object (confirm h s) = next_object s" "sent (confirm h s) = sent s" "heap (confirm h s) = heap s"
  by (simp_all add: change_def put_def persist_def leave_tx_def busy_key_def free_key_def confirm_def)

lemma paid_simps [simp]:
  "paid (change ob f s) = paid s" "paid (put ob s) = paid s" "paid (leave_tx s) = paid s" "paid (busy_key k s) = paid s" "paid (free_key k s) = paid s"
  "settled_for (change ob f s) = settled_for s" "settled_for (put ob s) = settled_for s" "settled_for (leave_tx s) = settled_for s"
  "settled_for (confirm h s) = settled_for s" "settled_for (busy_key k s) = settled_for s"
  by (simp_all add: paid_def settled_for_def fun_eq_iff)

lemma order_ok_simps [simp]:
  "order_ok (change ob f s) = order_ok s" "order_ok (put ob s) = order_ok s" "order_ok (leave_tx s) = order_ok s" "order_ok (busy_key k s) = order_ok s"
  by (simp_all add: order_ok_def fun_eq_iff)

lemma paid_confirm: "paid s c \<Longrightarrow> paid (confirm h s) c" "settled_for s h c \<Longrightarrow> paid (confirm h s) c"
  by (auto simp: paid_def confirm_def settled_for_def)

lemma core_simps [simp]:
  "core (o1\<lparr>od_state := a\<rparr>) = core o1" "core (o1\<lparr>od_error := b\<rparr>) = core o1" "core (o1\<lparr>od_leafIndex := c\<rparr>) = core o1"
  "core (o1\<lparr>od_root := d\<rparr>) = core o1" "core (o1\<lparr>od_settleBlock := e\<rparr>) = core o1" "core (o1\<lparr>od_protocol := g\<rparr>) = core o1"
  "core (o1\<lparr>od_settleTx := h\<rparr>) = core o1" "core (o1\<lparr>od_insertTx := h\<rparr>) = core o1"
  by (simp_all add: core_def)

lemma core_change: "core (f (heap s ob)) = core (heap s ob) \<Longrightarrow> core (heap (change ob f s) x) = core (heap s x)"
  by (simp add: change_def)

lemma who_ok_cong: "next_object s' = next_object s \<Longrightarrow> (\<And>x. core (heap s' x) = core (heap s x)) \<Longrightarrow> who_ok P s' w ob = who_ok P s w ob"
  by (cases w) simp_all

lemma who_ok_change: "core (f (heap s ob)) = core (heap s ob) \<Longrightarrow> who_ok P (change ob f s) w x = who_ok P s w x"
  by (rule who_ok_cong) (simp_all add: core_change)

lemma who_ok_simps [simp]:
  "who_ok P (put ob s) w x = who_ok P s w x" "who_ok P (leave_tx s) w x = who_ok P s w x" "who_ok P (confirm h s) w x = who_ok P s w x"
  "who_ok P (busy_key k s) w x = who_ok P s w x"
  by (rule who_ok_cong; simp)+

lemma who_ok_next: "who_ok P s w ob \<Longrightarrow> ob < next_object s"
  by (cases w) simp_all

lemma who_ok_rest: "who_ok P s (Boot rest) ob \<Longrightarrow> list_all (\<lambda>x. x < next_object s) rest"
  by simp

text \<open>An order that is changed and stored.\<close>

lemma inv_update:
  assumes "reg_inv P s" "ob < next_object s" "core (f (heap s ob)) = core (heap s ob)" "order_ok s (f (heap s ob))"
  shows "reg_inv P (put ob (change ob f s))"
  by (rule inv_put [OF inv_change [where f = f, OF assms]]) (simp add: assms(2))

lemma order_ok_harmless:
  "order_ok s o1 \<Longrightarrow> order_ok s (o1\<lparr>od_error := e\<rparr>)" "order_ok s o1 \<Longrightarrow> order_ok s (o1\<lparr>od_leafIndex := i\<rparr>)"
  "order_ok s o1 \<Longrightarrow> order_ok s (o1\<lparr>od_protocol := p\<rparr>)" "order_ok s o1 \<Longrightarrow> order_ok s (o1\<lparr>od_root := r, od_error := e\<rparr>)"
  "order_ok s o1 \<Longrightarrow> order_ok s (o1\<lparr>od_state := (if od_settleTx o1 \<noteq> None then od_state o1 else Failed), od_error := e\<rparr>)"
  "order_ok s o1 \<Longrightarrow> order_ok s (o1\<lparr>od_state := Failed, od_error := e\<rparr>)"
  by (auto simp: order_ok_def core_def)

lemma order_ok_paid:
  assumes "order_ok s o1" "paid s (core o1)"
  shows "order_ok s (o1\<lparr>od_state := st\<rparr>)" "order_ok s (o1\<lparr>od_state := st, od_error := e\<rparr>)"
    "order_ok s (o1\<lparr>od_state := st, od_settleBlock := b\<rparr>)" "order_ok s (o1\<lparr>od_state := st, od_settleBlock := b, od_error := e\<rparr>)"
    "order_ok s (o1\<lparr>od_leafIndex := i, od_root := r, od_state := st, od_error := e\<rparr>)" "order_ok s (record_hash InsertTx h o1)"
  using assms by (auto simp: order_ok_def core_def record_hash_def)

lemma order_ok_settle_hash: "settled_for s h (core o1) \<Longrightarrow> order_ok s (record_hash SettleTx h o1)"
  by (auto simp: order_ok_def core_def record_hash_def)

lemma core_record_hash [simp]: "core (record_hash k h o1) = core o1"
  by (simp add: record_hash_def)

lemma settled_paid: "reg_inv P s \<Longrightarrow> ob < next_object s \<Longrightarrow> od_state (heap s ob) \<in> {Settled, Inserting, Inserted} \<Longrightarrow> paid s (core (heap s ob))"
  using inv_order by (auto simp: order_ok_def)

lemma pending_hash_ok:
  assumes "reg_inv P s" "ob < next_object s" "is_pending (heap s ob)" "pending_hash (heap s ob) = Some h"
  shows "hash_ok s (pending_kind (heap s ob)) ob h"
  using inv_order [OF assms(1,2)] assms(3,4)
  by (cases "od_state (heap s ob) = Settling") (auto simp: is_pending_def pending_hash_def pending_kind_def order_ok_def)

lemma inv_running: "reg_inv P s \<Longrightarrow> reg_inv P (s\<lparr>jobs := (jobs s)(i := None), running := b\<rparr>)"
  by (erule inv_frame) (auto split: if_splits)

lemma inv_recover_next: "reg_inv P s \<Longrightarrow> list_all (\<lambda>x. x < next_object s) obs \<Longrightarrow> reg_inv P (recover_next i obs s)"
proof (induction obs)
  case (Cons ob rest)
  then have r: "ob < next_object s" "list_all (\<lambda>x. x < next_object s) rest" by simp_all
  show ?case
  proof (cases "is_pending (heap s ob)")
    case True
    then show ?thesis using Cons r pending_hash_ok
      by (cases "pending_hash (heap s ob)") (auto simp: Let_def intro!: inv_goto)
  next
    case False
    then show ?thesis using Cons r settled_paid by (auto simp: Let_def intro!: inv_goto)
  qed
qed (simp add: inv_running)

lemma inv_insert_ok: "reg_inv P s \<Longrightarrow> who_ok P s w ob \<Longrightarrow> reg_inv P (insert_ok C i w ob s)"
  by (cases w) (auto simp: insert_ok_def intro!: inv_sets inv_answer inv_recover_next)

lemma inv_insert_failed: "reg_inv P s \<Longrightarrow> who_ok P s w ob \<Longrightarrow> reg_inv P (insert_failed C i w ob err t s)"
proof -
  assume a: "reg_inv P s" "who_ok P s w ob"
  have u: "reg_inv P (put ob (change ob (\<lambda>o1. o1\<lparr>od_error := Some err\<rparr>) s))"
    using a who_ok_next [OF a(2)] inv_order order_ok_harmless(1) by (intro inv_update) auto
  show ?thesis using a u by (cases w) (auto simp: insert_failed_def Let_def intro!: inv_sets inv_answer inv_recover_next)
qed

lemma inv_tx_failed: "reg_inv P s \<Longrightarrow> who_ok P s w ob \<Longrightarrow> reg_inv P (tx_failed C i k w ob err t s)"
proof -
  assume a: "reg_inv P s" "who_ok P s w ob"
  have u: "reg_inv P (put ob (change ob (\<lambda>o1. o1\<lparr>od_state := (if od_settleTx o1 \<noteq> None then od_state o1 else Failed), od_error := Some err\<rparr>) s))"
    using a who_ok_next [OF a(2)] inv_order [of P s ob] order_ok_harmless(5) [of s "heap s ob"] by (intro inv_update) auto
  show ?thesis using a u inv_insert_failed
    by (cases k; cases w) (auto simp: tx_failed_def settle_failed_def intro!: inv_sets inv_answer)
qed

lemma inv_verify: "reg_inv P s \<Longrightarrow> P rq \<Longrightarrow> (\<And>ob. ex = Some ob \<Longrightarrow> who_ok P s (Posted rq) ob) \<Longrightarrow> reg_inv P (verify C now i rq ex s)"
  by (cases ex) (auto simp: verify_def refuse_def split: option.splits intro!: inv_goto inv_answer)

lemma inv_after_existing: "reg_inv P s \<Longrightarrow> who_ok P s (Posted rq) ob \<Longrightarrow> reg_inv P (after_existing C now i rq ob s)"
proof -
  assume a: "reg_inv P s" "who_ok P s (Posted rq) ob"
  have "reg_inv P (goto i (PLimitOf (Posted rq) ob) (busy_key k s))" if "od_state (heap s ob) = Settled" for k
    using a that settled_paid [OF a(1)] by (intro inv_goto inv_sets) auto
  then show ?thesis using a by (auto simp: after_existing_def intro!: inv_verify inv_answer)
qed

lemma inv_after_reconcile: "reg_inv P s \<Longrightarrow> who_ok P s w ob \<Longrightarrow> reg_inv P (after_reconcile C now i w ob s)"
  using settled_paid [of P s ob]
  by (cases w) (auto simp: after_reconcile_def Let_def refuse_def intro!: inv_after_existing inv_answer inv_goto inv_recover_next)

lemma inv_refuse: "reg_inv P s \<Longrightarrow> reg_inv P (refuse i st r s)"
  by (simp add: refuse_def inv_answer)

lemma inv_start:
  assumes "reg_inv P s" "P rq"
  shows "reg_inv P (start_request C now i rq s)"
proof (cases "map_of (orders s) (request_key (en_offer C) rq)")
  case None
  then show ?thesis using assms by (auto simp: start_request_def Let_def intro!: inv_refuse inv_verify)
next
  case (Some ob)
  then have ob: "ob < next_object s" using assms(1) by (auto simp: reg_inv_def dest!: map_of_SomeD)
  let ?o = "heap s ob"
  have w: "who_ok P s (Posted rq) ob" if "od_commitment ?o = rq_commitment rq" "od_limit ?o = rq_limit rq"
    using that ob assms(2) by (simp add: core_def)
  have r: "reg_inv P (case pending_hash ?o of None \<Rightarrow> refuse i 503 ''in-progress'' s
            | Some h \<Rightarrow> goto i (PReconcile (pending_kind ?o) (Posted rq) ob h) s)"
    if "od_commitment ?o = rq_commitment rq" "od_limit ?o = rq_limit rq" "is_pending ?o"
    using pending_hash_ok [OF assms(1) ob that(3)] w that assms(1)
    by (cases "pending_hash ?o") (auto intro!: inv_refuse inv_goto simp del: who_ok.simps)
  show ?thesis unfolding start_request_def Let_def Some option.case
    using r w assms(1) by (auto intro!: inv_refuse inv_after_existing simp del: who_ok.simps)
qed

lemma inv_enter: "reg_inv P s \<Longrightarrow> who_ok P s w ob \<Longrightarrow> tx_ok s k w ob \<Longrightarrow> reg_inv P (enter_tx i k w ob s)"
proof -
  assume a: "reg_inv P s" "who_ok P s w ob" "tx_ok s k w ob"
  let ?s = "s\<lparr>tx_queue := tx_queue s @ [i]\<rparr>"
  have "who_ok P ?s w ob" using a(2) by (subst who_ok_cong) simp_all
  moreover have "tx_ok ?s k w ob" using a(3) by (cases k) (simp_all add: paid_def settled_for_def)
  ultimately show ?thesis unfolding enter_tx_def using a(1) by (intro inv_goto inv_flags) simp_all
qed

lemma inv_begin_settle:
  assumes "reg_inv P s" "P rq" "\<And>ob. ex = Some ob \<Longrightarrow> who_ok P s (Posted rq) ob"
  shows "reg_inv P (begin_settle C i rq ex s)"
proof -
  let ?ob = "case ex of Some x \<Rightarrow> x | None \<Rightarrow> next_object s"
  let ?s = "case ex of Some x \<Rightarrow> s | None \<Rightarrow> s\<lparr>heap := (heap s)(?ob := new_order C rq), next_object := Suc (next_object s)\<rparr>"
  have new: "order_ok s' (new_order C rq)" for s' by (simp add: order_ok_def new_order_def)
  have w: "reg_inv P ?s \<and> who_ok P ?s (Fresh rq) ?ob"
  proof (cases ex)
    case None
    have "reg_inv P (s\<lparr>heap := (heap s)(next_object s := new_order C rq), next_object := Suc (next_object s)\<rparr>)"
      using new by (intro inv_frame [OF assms(1)]) (auto simp: less_Suc_eq)
    with None assms(2) show ?thesis by (simp add: core_def new_order_def)
  qed (use assms in simp)
  let ?f = "\<lambda>o1. o1\<lparr>od_protocol := rq_protocol rq\<rparr>"
  have c: "reg_inv P (change ?ob ?f ?s)"
    using w who_ok_next [of P ?s] inv_order order_ok_harmless(3) by (intro inv_change) auto
  have "who_ok P (busy_key k (change ?ob ?f ?s)) (Fresh rq) ?ob" for k
    using w by (simp only: who_ok_simps) (subst who_ok_change; simp)
  with c show ?thesis unfolding begin_settle_def Let_def by (intro inv_enter inv_sets) auto
qed

lemma inv_got_reads: "reg_inv P s \<Longrightarrow> P rq \<Longrightarrow> (\<And>ob. ex = Some ob \<Longrightarrow> who_ok P s (Posted rq) ob) \<Longrightarrow> reg_inv P (got_reads C i rq ex r s)"
  by (auto simp: got_reads_def split: sum.splits intro!: inv_refuse inv_begin_settle)

lemma inv_finish_throw: "reg_inv P s \<Longrightarrow> who_ok P s w ob \<Longrightarrow> reg_inv P (finish_throw C i rec w ob err s)"
  by (cases w) (auto simp: finish_throw_def intro!: inv_refuse inv_recover_next inv_insert_failed)

lemma inv_complete:
  assumes "reg_inv P s" "who_ok P s w ob" "paid s (core (heap s ob))"
  shows "reg_inv P (complete_insert C now i rec w ob j root s)"
proof -
  let ?f = "\<lambda>o1. o1\<lparr>od_leafIndex := Some j, od_root := Some root, od_state := Inserted, od_error := None\<rparr>"
  note n = who_ok_next [OF assms(2)]
  have "reg_inv P (put ob (change ob ?f s))"
    using order_ok_paid(5) [OF inv_order [OF assms(1) n] assms(3)] by (intro inv_update [OF assms(1) n]) auto
  moreover have "who_ok P (put ob (change ob ?f s)) w ob" using assms(2) by (simp add: who_ok_change)
  ultimately show ?thesis by (simp add: complete_insert_def Let_def inv_after_reconcile inv_insert_ok)
qed

lemma inv_finishInsert:
  assumes "reg_inv P s" "who_ok P s w ob" "paid s (core (heap s ob))"
  shows "reg_inv P (finishInsert C now i rec w ob ro s)"
proof -
  let ?f = "\<lambda>o1. o1\<lparr>od_state := Settled, od_error := Some ''insert-reverted''\<rparr>"
  note n = who_ok_next [OF assms(2)]
  have "reg_inv P (put ob (change ob ?f s))"
    using order_ok_paid(2) [OF inv_order [OF assms(1) n] assms(3)] by (intro inv_update [OF assms(1) n]) auto
  moreover have "who_ok P (put ob (change ob ?f s)) w ob" using assms(2) by (simp add: who_ok_change)
  ultimately have t: "reg_inv P (finish_throw C i rec w ob e (put ob (change ob ?f s)))" for e by (rule inv_finish_throw)
  have "reg_inv P (goto i (PCounts rec w ob) s)" using assms by (intro inv_goto) auto
  with t assms show ?thesis
    by (auto simp: finishInsert_def split: option.splits intro!: inv_complete)
qed

lemma inv_got_counts:
  assumes "reg_inv P s" "who_ok P s w ob" "paid s (core (heap s ob))"
  shows "reg_inv P (got_counts C now i rec w ob cnt root s)"
proof -
  let ?f = "\<lambda>n o1. o1\<lparr>od_leafIndex := Some (n - 1)\<rparr>"
  note n = who_ok_next [OF assms(2)]
  have "reg_inv P (change ob (?f m) s)" for m
    using order_ok_harmless(2) [OF inv_order [OF assms(1) n]] by (intro inv_change [OF assms(1) n]) auto
  moreover have "who_ok P (change ob (?f m) s) w ob" for m using assms(2) by (simp add: who_ok_change)
  ultimately show ?thesis using assms
    by (auto simp: got_counts_def split: sum.splits intro!: inv_finish_throw inv_complete)
qed

lemma inv_got_receipt:
  assumes "reg_inv P s" "who_ok P s w ob" "hash_ok s k ob h"
  shows "reg_inv P (got_receipt C now i k w ob h r depth s)"
proof -
  note n = who_ok_next [OF assms(2)]
  have step: "reg_inv P (after_reconcile C now i w ob (put ob (change ob f s')))"
    if "reg_inv P s'" "who_ok P s' w ob" "core (f (heap s' ob)) = core (heap s' ob)" "order_ok s' (f (heap s' ob))" for f s'
    using that who_ok_next [OF that(2)] by (intro inv_after_reconcile inv_update) (simp_all add: who_ok_change)
  note ok = inv_order [OF assms(1) n]
  have c: "reg_inv P (confirm h s)" "who_ok P (confirm h s) w ob" "order_ok (confirm h s) (heap s ob)"
    using assms(1,2) inv_sets(4) inv_order [of P "confirm h s" ob] n by auto
  have kp: "k = SettleTx \<Longrightarrow> paid (confirm h s) (core (heap s ob))" "k = InsertTx \<Longrightarrow> paid s (core (heap s ob))"
    using assms(3) paid_confirm(2) by auto
  have kp2: "k = InsertTx \<Longrightarrow> paid (confirm h s) (core (heap s ob))" using kp(2) paid_confirm(1) by auto
  have k: "k \<noteq> SettleTx \<Longrightarrow> k = InsertTx" by (cases k) auto
  have 1: "reg_inv P (after_reconcile C now i w ob (put ob (change ob (\<lambda>o1. o1\<lparr>od_state := Failed, od_error := Some ''settle-reverted''\<rparr>) s)))"
    by (rule step [OF assms(1,2)]) (use order_ok_harmless(6) [OF ok] in auto)
  have 2: "k = SettleTx \<Longrightarrow> reg_inv P (after_reconcile C now i w ob (put ob (change ob
     (\<lambda>o1. o1\<lparr>od_state := Settled, od_settleBlock := b, od_error := None\<rparr>) (confirm h s))))" for b
    by (rule step [OF c(1,2)]) (use order_ok_paid(4) [OF c(3) kp(1)] in auto)
  have 3: "k = InsertTx \<Longrightarrow> reg_inv P (after_reconcile C now i w ob (put ob (change ob (\<lambda>o1. o1\<lparr>od_state := Settled, od_error := Some ''insert-reverted''\<rparr>) s)))"
    by (rule step [OF assms(1,2)]) (use order_ok_paid(2) [OF ok kp(2)] in auto)
  have 4: "k = InsertTx \<Longrightarrow> reg_inv P (finishInsert C now i True w ob ro (confirm h s))" for ro
    using kp2 by (intro inv_finishInsert c) simp
  have 5: "reg_inv P (finish_throw C i True w ob ''rpc'' s)" "reg_inv P (after_reconcile C now i w ob s)"
    using assms by (simp_all add: inv_finish_throw inv_after_reconcile)
  show ?thesis unfolding got_receipt_def using 1 2 3 4 5 k
    by (auto split: sum.splits option.splits)
qed

lemma inv_got_limit:
  assumes "reg_inv P s" "who_ok P s w ob" "paid s (core (heap s ob))"
  shows "reg_inv P (got_limit C i w ob r s)"
proof -
  let ?f = "\<lambda>o1. o1\<lparr>od_state := Inserted\<rparr>"
  note n = who_ok_next [OF assms(2)]
  have "reg_inv P (change ob ?f s)"
    using order_ok_paid(1) [OF inv_order [OF assms(1) n] assms(3)] by (intro inv_change [OF assms(1) n]) auto
  moreover have "who_ok P (change ob ?f s) w ob" "core (heap (change ob ?f s) ob) = core (heap s ob)"
    using assms(2) by (simp_all add: who_ok_change core_change)
  ultimately have "reg_inv P (goto i (PRootOf w ob) (change ob ?f s))" using assms(3) by (intro inv_goto) auto
  then show ?thesis using assms
    by (auto simp: got_limit_def split: sum.splits intro!: inv_insert_failed inv_enter)
qed

lemma inv_got_root:
  assumes "reg_inv P s" "who_ok P s w ob"
  shows "reg_inv P (got_root C i w ob r s)"
proof -
  note n = who_ok_next [OF assms(2)]
  have "reg_inv P (put ob (change ob (\<lambda>o1. o1\<lparr>od_root := Some x, od_error := None\<rparr>) s))"
    "who_ok P (put ob (change ob (\<lambda>o1. o1\<lparr>od_root := Some x, od_error := None\<rparr>) s)) w ob" for x
    using order_ok_harmless(4) [OF inv_order [OF assms(1) n]] assms(2)
    by (auto intro!: inv_update [OF assms(1) n] simp: who_ok_change)
  then show ?thesis using assms by (auto simp: got_root_def split: sum.splits intro!: inv_insert_failed inv_insert_ok)
qed

lemma inv_waited:
  assumes "reg_inv P s" "who_ok P s w ob" "tx_ok s k w ob" "hash_ok s k ob h"
  shows "reg_inv P (waited C now i k w ob h out s)"
proof -
  note n = who_ok_next [OF assms(2)]
  note ok = inv_order [OF assms(1) n]
  have c: "reg_inv P (confirm h s)" "who_ok P (confirm h s) w ob" "order_ok (confirm h s) (heap s ob)"
    using assms(1,2) inv_sets(4) inv_order [of P "confirm h s" ob] n by auto
  let ?f = "\<lambda>b o1. o1\<lparr>od_state := Settled, od_settleBlock := b\<rparr>" and ?g = "\<lambda>o1. o1\<lparr>od_state := Failed, od_error := Some ''settle-reverted''\<rparr>"
  have 1: "reg_inv P (goto i (PLimitOf w ob) (put ob (change ob (?f b) (confirm h s))))" if "k = SettleTx" for b
  proof -
    have pd: "paid (confirm h s) (core (heap s ob))" using that assms(4) paid_confirm(2) by simp
    have "reg_inv P (put ob (change ob (?f b) (confirm h s)))"
      using order_ok_paid(3) [OF c(3) pd] n by (intro inv_update c) auto
    then show ?thesis using pd c(2) by (intro inv_goto) (simp_all add: who_ok_change core_change)
  qed
  have 2: "reg_inv P (tx_failed C i k w ob e t (put ob (change ob ?g s)))" for e t
    using order_ok_harmless(6) [OF ok] assms(2) n by (intro inv_tx_failed inv_update [OF assms(1)]) (auto simp: who_ok_change)
  have 3: "reg_inv P (finishInsert C now i False w ob ro s)" "reg_inv P (finishInsert C now i False w ob ro (confirm h s))" if "k = InsertTx" for ro
    using that assms c paid_confirm(1) [of s "core (heap s ob)" h] by (auto intro!: inv_finishInsert)
  have k: "k \<noteq> InsertTx \<Longrightarrow> k = SettleTx" by (cases k) auto
  show ?thesis unfolding waited_def using 1 2 3 k assms
    by (auto split: wait_outcome.splits option.splits intro!: inv_tx_failed)
qed

lemma inv_pc: "reg_inv P s \<Longrightarrow> jobs s i = Some p \<Longrightarrow> pc_ok P s p"
  by (simp add: reg_inv_def)

lemma inv_broadcast_accepted:
  assumes "reg_inv P s" "who_ok P s w ob" "tx_ok s k w ob"
  shows "reg_inv P (goto i (PSent k w ob h) (s\<lparr>sent := (h, sent_of k w (heap s ob)) # sent s\<rparr>))"
proof -
  let ?s = "s\<lparr>sent := (h, sent_of k w (heap s ob)) # sent s\<rparr>"
  have g: "paid s c \<Longrightarrow> paid ?s c" for c by (rule grows(2)) auto
  have new: "case sent_of k w (heap s ob) of SentSettle rq \<Rightarrow> P rq | SentInsert c l \<Rightarrow> paid ?s (c, l)"
    using assms(2,3) g by (cases k) (auto simp: sent_of_def core_def split: who.splits)
  then have "reg_inv P ?s" by (intro inv_frame [OF assms(1)]) (auto split: sent_tx.splits)
  moreover have "who_ok P ?s w ob" using assms(2) by (subst who_ok_cong) simp_all
  moreover have "tx_ok ?s k w ob" using assms(3) g by (cases k) auto
  moreover have "hash_ok ?s k ob h"
    using assms(2,3) g by (cases k) (auto simp: settled_for_def sent_of_def)
  ultimately show ?thesis by (intro inv_goto) auto
qed

lemma inv_load:
  assumes "reg_inv P s"
  shows "reg_inv P (load_store (s\<lparr>orders := [], inflight := [], tx_queue := [], jobs := (\<lambda>_. None), running := False\<rparr>))
    \<and> list_all (\<lambda>x. x < next_object (load_store s')) (map snd (orders (load_store s')))"
proof
  let ?n = "length (disk s)"
  let ?s = "s\<lparr>heap := (\<lambda>j. if j < ?n then snd (disk s ! j) else heap s j), next_object := ?n, orders := map (\<lambda>j. (fst (disk s ! j), j)) [0..<?n],
      inflight := [], tx_queue := [], jobs := (\<lambda>_. None), running := False\<rparr>"
  have same: "paid ?s = paid s" "order_ok ?s = order_ok s" by (simp_all add: paid_def settled_for_def order_ok_def fun_eq_iff)
  have d: "order_ok s (snd (disk s ! j))" if "j < ?n" for j
    using assms nth_mem [OF that] unfolding reg_inv_def by (cases "disk s ! j") fastforce
  have inv: "reg_inv P ?s" unfolding reg_inv_def same using assms d by (auto simp: reg_inv_def)
  have "disk (persist ?s) = disk s"
    by (cases "disk_up s") (auto simp: persist_def intro!: nth_equalityI)
  then have "persist ?s = ?s" by (cases "disk_up s") (simp_all add: persist_def)
  moreover have "load_store (s\<lparr>orders := [], inflight := [], tx_queue := [], jobs := (\<lambda>_. None), running := False\<rparr>) = persist ?s"
    unfolding load_store_def Let_def by (rule arg_cong [of _ _ persist], rule registrar.equality) (simp_all add: fun_eq_iff)
  ultimately show "reg_inv P (load_store (s\<lparr>orders := [], inflight := [], tx_queue := [], jobs := (\<lambda>_. None), running := False\<rparr>))"
    using inv by simp
  show "list_all (\<lambda>x. x < next_object (load_store s')) (map snd (orders (load_store s')))"
    by (auto simp: load_store_def Let_def list_all_iff persist_def)
qed

lemma inv_step:
  assumes inv: "reg_inv P s" and post: "\<And>i now rq. e = Post i now rq \<Longrightarrow> P rq"
  shows "reg_inv P (step C e s)"
proof (cases e)
  case (Post i now rq)
  with inv post show ?thesis by (simp add: inv_start)
next
  case (GotReads i r)
  have "reg_inv P (got_reads C i rq ex r s)" if "jobs s i = Some (PReads rq ex)" for rq ex
    using inv_pc [OF inv that] inv by (intro inv_got_reads) (auto simp del: who_ok.simps)
  with GotReads inv show ?thesis by (auto split: option.splits pc.splits)
next
  case (Simulated i r)
  have "reg_inv P (goto i (PSend k w ob) s)" "reg_inv P (tx_failed C i k w ob err t (leave_tx s))" if "jobs s i = Some (PSim k w ob)" for k w ob err t
    using inv_pc [OF inv that] inv by (auto intro!: inv_goto inv_tx_failed inv_sets)
  with Simulated inv show ?thesis by (auto split: option.splits pc.splits sum.splits)
next
  case (Accepted i h)
  have "reg_inv P (goto i (PSent k w ob h) (s\<lparr>sent := (h, sent_of k w (heap s ob)) # sent s\<rparr>))" if "jobs s i = Some (PSend k w ob)" for k w ob
    using inv_pc [OF inv that] inv by (intro inv_broadcast_accepted) auto
  with Accepted inv show ?thesis by (auto split: option.splits pc.splits)
next
  case (SendReply i)
  have "reg_inv P (goto i (PWait k w ob h) (put ob (change ob (record_hash k h) (leave_tx s))))" if "jobs s i = Some (PSent k w ob h)" for k w ob h
  proof -
    have p: "who_ok P s w ob" "tx_ok s k w ob" "hash_ok s k ob h" using inv_pc [OF inv that] by auto
    note n = who_ok_next [OF p(1)]
    have "order_ok s (record_hash k h (heap s ob))"
      using p(3) order_ok_settle_hash order_ok_paid(6) [OF inv_order [OF inv n]] by (cases k) auto
    then have "reg_inv P (put ob (change ob (record_hash k h) (leave_tx s)))"
      using inv n by (intro inv_update inv_sets) auto
    moreover have "who_ok P (put ob (change ob (record_hash k h) (leave_tx s))) w ob" using p(1) by (simp add: who_ok_change)
    moreover have "tx_ok (put ob (change ob (record_hash k h) (leave_tx s))) k w ob" "hash_ok (put ob (change ob (record_hash k h) (leave_tx s))) k ob h"
      using p(2,3) by (cases k; simp add: core_change)+
    ultimately show ?thesis by (intro inv_goto) auto
  qed
  with SendReply inv show ?thesis by (auto split: option.splits pc.splits)
next
  case (SendError i err)
  have "reg_inv P (tx_failed C i k w ob err False (leave_tx s))"
    if "jobs s i = Some (PSend k w ob) \<or> jobs s i = Some (PSent k w ob h)" for k w ob h
    using that inv_pc [OF inv, of i "PSend k w ob"] inv_pc [OF inv, of i "PSent k w ob h"] inv
    by (intro inv_tx_failed inv_sets) auto
  with SendError inv show ?thesis by (auto split: option.splits pc.splits)
next
  case (Waited i now out)
  have "reg_inv P (waited C now i k w ob h out s)" if "jobs s i = Some (PWait k w ob h)" for k w ob h
    using inv_pc [OF inv that] inv by (intro inv_waited) auto
  with Waited inv show ?thesis by (auto split: option.splits pc.splits)
next
  case (Restart i)
  then show ?thesis using inv_load [OF inv] by (auto simp: Let_def intro!: inv_recover_next)
next
  case (GotReceipt i now r depth)
  have "reg_inv P (got_receipt C now i k w ob h r depth s)" if "jobs s i = Some (PReconcile k w ob h)" for k w ob h
    using inv_pc [OF inv that] inv by (intro inv_got_receipt) auto
  with GotReceipt inv show ?thesis by (auto split: option.splits pc.splits)
next
  case (GotLimit i r)
  have "reg_inv P (got_limit C i w ob r s)" if "jobs s i = Some (PLimitOf w ob)" for w ob
    using inv_pc [OF inv that] inv by (intro inv_got_limit) auto
  with GotLimit inv show ?thesis by (auto split: option.splits pc.splits)
next
  case (GotRoot i r)
  have "reg_inv P (got_root C i w ob r s)" if "jobs s i = Some (PRootOf w ob)" for w ob
    using inv_pc [OF inv that] inv by (intro inv_got_root) auto
  with GotRoot inv show ?thesis by (auto split: option.splits pc.splits)
next
  case (GotCounts i now cnt root)
  have "reg_inv P (got_counts C now i rec w ob cnt root s)" if "jobs s i = Some (PCounts rec w ob)" for rec w ob
    using inv_pc [OF inv that] inv by (intro inv_got_counts) auto
  with GotCounts inv show ?thesis by (auto split: option.splits pc.splits)
qed (simp add: inv inv_flags)

lemma inv_first_boot: "reg_inv P first_boot"
  by (simp add: reg_inv_def first_boot_def)

lemma inv_run: "reg_inv P s \<Longrightarrow> (\<And>i now rq. Post i now rq \<in> set es \<Longrightarrow> P rq) \<Longrightarrow> reg_inv P (run C es s)"
  unfolding run_def
proof (induction es arbitrary: s)
  case (Cons e es)
  have "reg_inv P (step C e s)" using Cons.prems by (intro inv_step) auto
  with Cons show ?case by auto
qed simp

lemma inv_sent:
  assumes "reg_inv P s"
  shows "(h, SentInsert c l) \<in> set (sent s) \<Longrightarrow> paid s (c, l)" "(h, SentSettle rq) \<in> set (sent s) \<Longrightarrow> P rq"
  using assms unfolding reg_inv_def by fastforce+

text \<open>The requests of a run are taken to pay their tier here; the HTTP side shows that they do.\<close>

lemma inserts_paid:
  assumes posts: "\<forall>i now rq. Post i now rq \<in> set es \<longrightarrow> pays_tier (en_offer C) (rq_limit rq) (rq_auth rq)"
    and ins: "(h, SentInsert c l) \<in> set (sent (run C es first_boot))"
  shows "\<exists>h' rq. (h', SentSettle rq) \<in> set (sent (run C es first_boot)) \<and> h' \<in> set (confirmed (run C es first_boot))
    \<and> rq_commitment rq = c \<and> rq_limit rq = l \<and> pays_tier (en_offer C) l (rq_auth rq)"
proof -
  let ?s = "run C es first_boot"
  have inv: "reg_inv (\<lambda>rq. pays_tier (en_offer C) (rq_limit rq) (rq_auth rq)) ?s"
    using posts by (intro inv_run inv_first_boot) blast
  then have "paid ?s (c, l)" using ins by (rule inv_sent)
  then obtain h' rq where "h' \<in> set (confirmed ?s)" "(h', SentSettle rq) \<in> set (sent ?s)" "rq_commitment rq = c" "rq_limit rq = l"
    by (auto simp: paid_def settled_for_def)
  with inv_sent [OF inv] show ?thesis by metis
qed

section \<open>An honest purchase\<close>

lemma request_key_new:
  assumes "\<And>a. js_lower (en_checksum C a) = js_lower a"
  shows "key_of (new_order C rq) = request_key (en_offer C) rq"
  using assms by (simp add: key_of_def new_order_def request_key_def store_key_def)

lemma store_fields:
  "orders (put ob s) = AList.update (key_of (heap s ob)) ob (orders s)" "inflight (put ob s) = inflight s" "answers (put ob s) = answers s"
  "tx_queue (put ob s) = tx_queue s" "running (put ob s) = running s" "jobs (put ob s) = jobs s" "disk_up (put ob s) = disk_up s"
  "disk (put ob s) = (if disk_up s then map (\<lambda>(k, x). (k, heap s x)) (AList.update (key_of (heap s ob)) ob (orders s)) else disk s)"
  "orders (change ob f s) = orders s" "inflight (change ob f s) = inflight s" "answers (change ob f s) = answers s"
  "tx_queue (change ob f s) = tx_queue s" "running (change ob f s) = running s" "jobs (change ob f s) = jobs s" "disk_up (change ob f s) = disk_up s"
  "heap (change ob f s) ob = f (heap s ob)" "disk (change ob f s) = disk s"
  "orders (confirm h s) = orders s" "inflight (confirm h s) = inflight s" "answers (confirm h s) = answers s"
  "tx_queue (confirm h s) = tx_queue s" "running (confirm h s) = running s" "jobs (confirm h s) = jobs s" "disk_up (confirm h s) = disk_up s"
  "disk (confirm h s) = disk s"
  by (simp_all add: put_def persist_def change_def confirm_def)

lemma run_simps: "run C [] s = s" "run C (e # es) s = run C es (step C e s)"
  by (simp_all add: run_def)

definition purchase :: "nat \<Rightarrow> int \<Rightarrow> pay_request \<Rightarrow> int \<Rightarrow> string \<Rightarrow> receipt \<Rightarrow> string \<Rightarrow> receipt \<Rightarrow> event list" where
  "purchase i now rq bal h1 r1 h2 r2 =
     [Post i now rq, GotReads i (Inr (False, bal, 0)), Simulated i (Inr ()), Accepted i h1, SendReply i, Waited i now (WReceipt (Some r1)),
      GotLimit i (Inr 0), Simulated i (Inr ()), Accepted i h2, SendReply i, Waited i now (WReceipt (Some r2))]"

lemma purchase_settles:
  assumes up: "running s" "jobs s i = None" "tx_queue s = []" and new: "map_of (orders s) (request_key (en_offer C) rq) = None"
    and rq: "isCommitment (JStr (rq_commitment rq))" "priceOf (en_offer C) (JNum (rq_limit rq)) \<noteq> None" "verify_offline C now rq s = None"
    and bal: "int (dec_nat (au_value (rq_auth rq))) \<le> bal" and h1: "h1 \<notin> set (map fst (sent s))"
  defines "ob \<equiv> next_object s"
  defines "o1 \<equiv> record_hash SettleTx h1 (new_order C rq)"
  shows "\<exists>s'. run C [Post i now rq, GotReads i (Inr (False, bal, 0)), Simulated i (Inr ()), Accepted i h1, SendReply i] s = s'
     \<and> jobs s' = (jobs s)(i := Some (PWait SettleTx (Fresh rq) ob h1)) \<and> heap s' ob = o1 \<and> tx_queue s' = [] \<and> running s'
     \<and> orders s' = AList.update (key_of o1) ob (orders s) \<and> sent s' = (h1, SentSettle rq) # sent s
     \<and> inflight s' = List.insert (request_key (en_offer C) rq) (inflight s) \<and> answers s' = answers s \<and> disk_up s' = disk_up s"
proof -
  let ?k = "request_key (en_offer C) rq"
  have 1: "step C (Post i now rq) s = goto i (PReads rq None) s"
    using up new rq by (auto simp: start_request_def verify_def Let_def)
  let ?s2 = "enter_tx i SettleTx (Fresh rq) ob (busy_key ?k (change ob (\<lambda>o1. o1\<lparr>od_protocol := rq_protocol rq\<rparr>)
      ((goto i (PReads rq None) s)\<lparr>heap := (heap s)(ob := new_order C rq), next_object := Suc ob\<rparr>)))"
  have 2: "step C (GotReads i (Inr (False, bal, 0))) (goto i (PReads rq None) s) = ?s2"
    using bal by (simp add: got_reads_def begin_settle_def Let_def goto_def ob_def)
  have q: "jobs ?s2 = (jobs s)(i := Some (PSim SettleTx (Fresh rq) ob))" "tx_queue ?s2 = [i]" "sent ?s2 = sent s" "heap ?s2 ob = new_order C rq"
    "orders ?s2 = orders s" "inflight ?s2 = List.insert ?k (inflight s)" "answers ?s2 = answers s" "disk_up ?s2 = disk_up s" "running ?s2"
    using up by (simp_all add: enter_tx_def goto_def busy_key_def change_def new_order_def)
  have 3: "step C (Simulated i (Inr ())) ?s2 = goto i (PSend SettleTx (Fresh rq) ob) ?s2" using q by simp
  let ?s4 = "goto i (PSent SettleTx (Fresh rq) ob h1) ((goto i (PSend SettleTx (Fresh rq) ob) ?s2)\<lparr>sent := (h1, SentSettle rq) # sent s\<rparr>)"
  have 4: "step C (Accepted i h1) (goto i (PSend SettleTx (Fresh rq) ob) ?s2) = ?s4"
    using h1 q by (simp add: goto_def sent_of_def)
  have 5: "step C (SendReply i) ?s4 = goto i (PWait SettleTx (Fresh rq) ob h1) (put ob (change ob (record_hash SettleTx h1) (leave_tx ?s4)))"
    by (simp add: goto_def)
  show ?thesis
    unfolding run_simps 1 2 3 4 5
    using q up by (auto simp: goto_def put_def persist_def change_def leave_tx_def o1_def)
qed

text \<open>An order that no request works on.\<close>

definition at_rest :: "order_key \<Rightarrow> nat \<Rightarrow> order \<Rightarrow> registrar \<Rightarrow> bool" where
  "at_rest k ob o1 s \<longleftrightarrow> running s \<and> tx_queue s = [] \<and> map_of (orders s) k = Some ob \<and> heap s ob = o1 \<and> key_of o1 = k \<and> k \<notin> set (inflight s)"

definition insert_events :: "nat \<Rightarrow> int \<Rightarrow> string \<Rightarrow> receipt \<Rightarrow> event list" where
  "insert_events i now h r = [GotLimit i (Inr 0), Simulated i (Inr ()), Accepted i h, SendReply i, Waited i now (WReceipt (Some r))]"

lemma insert_completes:
  assumes w: "jobs s i = Some (PLimitOf w ob)" "w = Fresh rq \<or> w = Posted rq" "tx_queue s = []" "running s"
    and k: "key_of (heap s ob) = request_key (en_offer C) rq" and h2: "h2 \<notin> set (map fst (sent s))"
    and r2: "rc_status r2 = 1" "find (\<lambda>(c, j, root). c = od_commitment (heap s ob)) (rc_inserted r2) = Some (c, j, root)"
  defines "o2 \<equiv> (heap s ob)\<lparr>od_state := Inserted, od_insertTx := Some h2, od_leafIndex := Some j, od_root := Some root, od_error := None\<rparr>"
  shows "\<exists>s'. run C (insert_events i now h2 r2) s = s' \<and> jobs s' = (jobs s)(i := None) \<and> at_rest (request_key (en_offer C) rq) ob o2 s'
     \<and> sent s' = (h2, SentInsert (od_commitment o2) (od_limit o2)) # sent s \<and> confirmed s' = h2 # confirmed s
     \<and> answers s' = answers s @ [(i, Inr (w = Posted rq, o2))]
     \<and> (disk_up s \<longrightarrow> map_of (disk s') (request_key (en_offer C) rq) = Some o2)"
proof -
  let ?k = "request_key (en_offer C) rq"
  let ?s2 = "enter_tx i InsertTx w ob s"
  have 2: "step C (GotLimit i (Inr 0)) s = ?s2" using w by (simp add: got_limit_def)
  have q2: "jobs ?s2 i = Some (PSim InsertTx w ob)" "tx_queue ?s2 = [i]" "sent ?s2 = sent s" "heap ?s2 = heap s" "running ?s2"
    "answers ?s2 = answers s" "disk_up ?s2 = disk_up s"
    using w by (simp_all add: enter_tx_def goto_def)
  have 3: "step C (Simulated i (Inr ())) ?s2 = goto i (PSend InsertTx w ob) ?s2" using q2 by simp
  let ?s4 = "goto i (PSent InsertTx w ob h2) ((goto i (PSend InsertTx w ob) ?s2)
      \<lparr>sent := (h2, SentInsert (od_commitment (heap s ob)) (od_limit (heap s ob))) # sent s\<rparr>)"
  have 4: "step C (Accepted i h2) (goto i (PSend InsertTx w ob) ?s2) = ?s4"
    using h2 q2 by (simp add: goto_def sent_of_def)
  let ?s5 = "goto i (PWait InsertTx w ob h2) (put ob (change ob (record_hash InsertTx h2) (leave_tx ?s4)))"
  have 5: "step C (SendReply i) ?s4 = ?s5" by (simp add: goto_def)
  have q5: "jobs ?s5 = (jobs s)(i := Some (PWait InsertTx w ob h2))" "tx_queue ?s5 = []" "heap ?s5 ob = record_hash InsertTx h2 (heap s ob)"
    "sent ?s5 = (h2, SentInsert (od_commitment (heap s ob)) (od_limit (heap s ob))) # sent s" "running ?s5" "confirmed ?s5 = confirmed s"
    "answers ?s5 = answers s" "disk_up ?s5 = disk_up s"
    using q2 by (simp_all add: goto_def put_def persist_def change_def leave_tx_def enter_tx_def)
  obtain s5 where s5: "?s5 = s5" by blast
  note q5 = q5 [unfolded s5]
  let ?f = "\<lambda>o1. o1\<lparr>od_leafIndex := Some j, od_root := Some root, od_state := Inserted, od_error := None\<rparr>"
  let ?s6 = "put ob (change ob ?f (confirm h2 s5))"
  have com: "od_commitment (heap s5 ob) = od_commitment (heap s ob)" by (simp add: q5 record_hash_def)
  have 6: "step C (Waited i now (WReceipt (Some r2))) s5 = insert_ok C i w ob ?s6"
    using r2 q5(1) com by (simp add: waited_def finishInsert_def complete_insert_def Let_def)
  have c6: "heap (change ob ?f (confirm h2 s5)) ob = o2" by (simp add: q5 change_def o2_def record_hash_def)
  have key: "key_of o2 = ?k" using k by (simp add: o2_def key_of_def)
  have "orders ?s6 = AList.update ?k ob (orders s5)" using key unfolding store_fields(1) c6 by (simp add: store_fields)
  moreover have d: "disk_up s \<Longrightarrow> disk ?s6 = map (\<lambda>(k, ob). (k, heap ?s6 ob)) (orders ?s6)"
    using q5(8) by (simp add: store_fields)
  ultimately have ord: "map_of (orders ?s6) ?k = Some ob" by simp
  have h6: "heap ?s6 ob = o2" using c6 by simp
  have dk: "disk_up s \<Longrightarrow> map_of (disk ?s6) ?k = Some o2"
    using d h6 ord by (simp add: map_of_map)
  have f6: "jobs ?s6 = (jobs s)(i := Some (PWait InsertTx w ob h2))" "answers ?s6 = answers s" "tx_queue ?s6 = []" "running ?s6"
    "sent ?s6 = (h2, SentInsert (od_commitment (heap s ob)) (od_limit (heap s ob))) # sent s" "confirmed ?s6 = h2 # confirmed s"
    using q5 by (simp_all add: store_fields) (simp add: confirm_def)
  obtain s6 where s6: "?s6 = s6" by blast
  have "run C (insert_events i now h2 r2) s = insert_ok C i w ob s6"
    unfolding insert_events_def run_simps 2 3 4 5 s5 6 s6 ..
  moreover have "od_commitment o2 = od_commitment (heap s ob)" "od_limit o2 = od_limit (heap s ob)" by (simp_all add: o2_def)
  ultimately show ?thesis using h6 ord dk f6 key w(2) unfolding s6
    by (auto simp: insert_ok_def answer_def free_key_def at_rest_def)
qed

lemma settle_confirms:
  assumes w: "jobs s i = Some (PWait SettleTx (Fresh rq) ob h1)" and r1: "rc_status r1 = 1"
  shows "\<exists>s'. step C (Waited i now (WReceipt (Some r1))) s = s' \<and> jobs s' i = Some (PLimitOf (Fresh rq) ob) \<and> tx_queue s' = tx_queue s
    \<and> running s' = running s \<and> heap s' ob = (heap s ob)\<lparr>od_state := Settled, od_settleBlock := Some (rc_block r1)\<rparr>
    \<and> sent s' = sent s \<and> answers s' = answers s \<and> disk_up s' = disk_up s"
  using w r1 by (simp add: waited_def goto_def store_fields)

lemma run_append: "run C (es @ es') s = run C es' (run C es s)"
  by (simp add: run_def)

lemma purchase_completes:
  assumes up: "running s" "jobs s i = None" "tx_queue s = []" and new: "map_of (orders s) (request_key (en_offer C) rq) = None"
    and lower: "\<And>a. js_lower (en_checksum C a) = js_lower a"
    and rq: "isCommitment (JStr (rq_commitment rq))" "priceOf (en_offer C) (JNum (rq_limit rq)) \<noteq> None" "verify_offline C now rq s = None"
    and bal: "int (dec_nat (au_value (rq_auth rq))) \<le> bal" and h: "h1 \<notin> set (map fst (sent s))" "h2 \<notin> set (map fst (sent s))" "h1 \<noteq> h2"
    and r: "rc_status r1 = 1" "rc_status r2 = 1" "find (\<lambda>(c, j, root). c = rq_commitment rq) (rc_inserted r2) = Some (c, j, root)"
  shows "\<exists>o1 s'. run C (purchase i now rq bal h1 r1 h2 r2) s = s' \<and> answers s' = answers s @ [(i, Inr (False, o1))]
    \<and> od_state o1 = Inserted \<and> od_commitment o1 = rq_commitment rq \<and> od_limit o1 = rq_limit rq
    \<and> od_settleTx o1 = Some h1 \<and> od_insertTx o1 = Some h2 \<and> od_leafIndex o1 = Some j \<and> od_root o1 = Some root
    \<and> sent s' = (h2, SentInsert (rq_commitment rq) (rq_limit rq)) # (h1, SentSettle rq) # sent s
    \<and> tx_queue s' = [] \<and> request_key (en_offer C) rq \<notin> set (inflight s')
    \<and> (disk_up s \<longrightarrow> map_of (disk s') (request_key (en_offer C) rq) = Some o1)
    \<and> (\<forall>later. answers (step C (Post i later rq) s') = answers s' @ [(i, Inr (True, o1))] \<and> sent (step C (Post i later rq) s') = sent s')"
proof -
  let ?k = "request_key (en_offer C) rq"
  obtain s1 where s1: "run C [Post i now rq, GotReads i (Inr (False, bal, 0)), Simulated i (Inr ()), Accepted i h1, SendReply i] s = s1"
    "jobs s1 = (jobs s)(i := Some (PWait SettleTx (Fresh rq) (next_object s) h1))" "heap s1 (next_object s) = record_hash SettleTx h1 (new_order C rq)"
    "tx_queue s1 = []" "running s1" "sent s1 = (h1, SentSettle rq) # sent s" "answers s1 = answers s" "disk_up s1 = disk_up s"
    using purchase_settles [OF up new rq bal h(1)] by blast
  let ?o = "record_hash SettleTx h1 (new_order C rq)"
  have o1: "key_of ?o = ?k" "od_commitment ?o = rq_commitment rq" "od_limit ?o = rq_limit rq"
    using request_key_new [OF lower, of rq] by (simp_all add: record_hash_def key_of_def) (simp_all add: new_order_def)
  obtain s1' where s1': "step C (Waited i now (WReceipt (Some r1))) s1 = s1'" "jobs s1' i = Some (PLimitOf (Fresh rq) (next_object s))"
    "tx_queue s1' = []" "running s1'" "heap s1' (next_object s) = ?o\<lparr>od_state := Settled, od_settleBlock := Some (rc_block r1)\<rparr>"
    "sent s1' = sent s1" "answers s1' = answers s1" "disk_up s1' = disk_up s1"
    using settle_confirms [of s1 i rq "next_object s" h1 r1 C now] s1 r(1) by auto
  have k1: "key_of (heap s1' (next_object s)) = ?k" "od_commitment (heap s1' (next_object s)) = rq_commitment rq" "od_limit (heap s1' (next_object s)) = rq_limit rq"
    using o1 s1'(5) by (simp_all add: key_of_def)
  have h2: "h2 \<notin> set (map fst (sent s1'))" using h s1(6) s1'(6) by simp
  have fd: "find (\<lambda>(c, j, root). c = od_commitment (heap s1' (next_object s))) (rc_inserted r2) = Some (c, j, root)" using r(3) k1(2) by simp
  obtain s2 where s2: "run C (insert_events i now h2 r2) s1' = s2" "jobs s2 i = None"
     "at_rest ?k (next_object s) ((heap s1' (next_object s))\<lparr>od_state := Inserted, od_insertTx := Some h2, od_leafIndex := Some j,
        od_root := Some root, od_error := None\<rparr>) s2"
     "sent s2 = (h2, SentInsert (rq_commitment rq) (rq_limit rq)) # sent s1"
     "answers s2 = answers s1 @ [(i, Inr (False, heap s2 (next_object s)))]"
     "disk_up s1 \<longrightarrow> map_of (disk s2) ?k = Some (heap s2 (next_object s))"
    using insert_completes [OF s1'(2) disjI1 [OF refl] s1'(3,4) k1(1) h2 r(2) fd, of now] k1(2,3) s1'(6-8) by (auto simp: at_rest_def)
  note rest = s2(3) [unfolded at_rest_def]
  let ?o2 = "heap s2 (next_object s)"
  have f: "od_state ?o2 = Inserted" "od_commitment ?o2 = rq_commitment rq" "od_limit ?o2 = rq_limit rq" "od_settleTx ?o2 = Some h1"
    "od_insertTx ?o2 = Some h2" "od_leafIndex ?o2 = Some j" "od_root ?o2 = Some root"
    using rest o1 s1'(5) by (simp_all add: record_hash_def)
  have rep: "step C (Post i later rq) s2 = answer i (Inr (True, ?o2)) s2" for later
    using s2(2) rest f rq(1,2) by (auto simp: start_request_def Let_def is_pending_def after_existing_def)
  have "purchase i now rq bal h1 r1 h2 r2 = [Post i now rq, GotReads i (Inr (False, bal, 0)), Simulated i (Inr ()), Accepted i h1, SendReply i]
      @ Waited i now (WReceipt (Some r1)) # insert_events i now h2 r2" by (simp add: purchase_def insert_events_def)
  then have run: "run C (purchase i now rq bal h1 r1 h2 r2) s = s2" by (simp only: run_append s1(1)) (simp only: run_simps(2) s1'(1) s2(1))
  have sn: "sent s2 = (h2, SentInsert (rq_commitment rq) (rq_limit rq)) # (h1, SentSettle rq) # sent s"
    "answers s2 = answers s @ [(i, Inr (False, ?o2))]" "disk_up s \<longrightarrow> map_of (disk s2) ?k = Some ?o2"
    using s2(4-6) s1(6-8) by simp_all
  have an: "answers (answer i x s2) = answers s2 @ [(i, x)]" "sent (answer i x s2) = sent s2" for x by (simp_all add: answer_def)
  have tq: "tx_queue s2 = []" "?k \<notin> set (inflight s2)" using rest by blast+
  show ?thesis by (intro exI conjI allI, rule run, rule sn(2)) (simp_all only: f sn(1,2) tq rep an not_False_eq_True, rule sn(3))
qed

text \<open>
  C16: A well-formed purchase with a funded authorization ends with the order inserted: the registrar
  broadcasts one settlement and one insert, answers with both hashes, the leaf index and the root of
  the insert's own event, keeps the order on disk, releases the key, and answers a later identical
  request with the same order and no further transaction.
\<close>

theorem honest_purchase:
  assumes up: "running s" "jobs s i = None" "tx_queue s = []" and new: "map_of (orders s) (request_key (en_offer C) rq) = None"
    and lower: "\<And>a. js_lower (en_checksum C a) = js_lower a"
    and rq: "isCommitment (JStr (rq_commitment rq))" "priceOf (en_offer C) (JNum (rq_limit rq)) \<noteq> None" "verify_offline C now rq s = None"
    and bal: "int (dec_nat (au_value (rq_auth rq))) \<le> bal" and h: "h1 \<notin> set (map fst (sent s))" "h2 \<notin> set (map fst (sent s))" "h1 \<noteq> h2"
    and r: "rc_status r1 = 1" "rc_status r2 = 1" "find (\<lambda>(c, j, root). c = rq_commitment rq) (rc_inserted r2) = Some (c, j, root)"
  shows "\<exists>o1 s'. run C (purchase i now rq bal h1 r1 h2 r2) s = s' \<and> answers s' = answers s @ [(i, Inr (False, o1))]
    \<and> od_state o1 = Inserted \<and> od_commitment o1 = rq_commitment rq \<and> od_limit o1 = rq_limit rq
    \<and> od_settleTx o1 = Some h1 \<and> od_insertTx o1 = Some h2 \<and> od_leafIndex o1 = Some j \<and> od_root o1 = Some root
    \<and> sent s' = (h2, SentInsert (rq_commitment rq) (rq_limit rq)) # (h1, SentSettle rq) # sent s
    \<and> tx_queue s' = [] \<and> request_key (en_offer C) rq \<notin> set (inflight s')
    \<and> (disk_up s \<longrightarrow> map_of (disk s') (request_key (en_offer C) rq) = Some o1)
    \<and> (\<forall>later. answers (step C (Post i later rq) s') = answers s' @ [(i, Inr (True, o1))] \<and> sent (step C (Post i later rq) s') = sent s')"
  by (rule purchase_completes [OF assms])

definition demo_engine :: engine where
  "demo_engine = \<lparr>en_offer = demo_offer, en_confirmations = 1, en_maxInflight = 8, en_checksum = (\<lambda>a. a), en_recover = (\<lambda>a _. Some (au_from a))\<rparr>"

definition demo_rq :: pay_request where
  "demo_rq = \<lparr>rq_protocol = ''x402'', rq_limit = 8, rq_commitment = ''5'', rq_auth = auth_of (JObj demo_auth),
     rq_signature = ''0x'' @ replicate 130 (CHR ''c'')\<rparr>"

lemma isUintString_code [code]:
  "isUintString (JStr s) = ((s = ''0'' \<or> all_digits s \<and> hd s \<noteq> CHR ''0'')
     \<and> int (dec_nat s) < 115792089237316195423570985008687907853269984665640564039457584007913129639936)"
  "isUintString JUndef = False" "isUintString JNull = False" "isUintString (JBool b) = False" "isUintString (JNum n) = False"
  "isUintString (JFloat f) = False" "isUintString (JBigInt n) = False" "isUintString (JArr vs) = False" "isUintString (JObj kvs) = False"
  by simp_all

lemma demo_rq_ok:
  "isCommitment (JStr (rq_commitment demo_rq))" "priceOf (en_offer demo_engine) (JNum (rq_limit demo_rq)) \<noteq> None"
  "verify_offline demo_engine 0 demo_rq first_boot = None" "int (dec_nat (au_value (rq_auth demo_rq))) \<le> 100"
  "pays_tier (en_offer demo_engine) (rq_limit demo_rq) (rq_auth demo_rq)"
proof -
  show "isCommitment (JStr (rq_commitment demo_rq))" by code_simp
  show "priceOf (en_offer demo_engine) (JNum (rq_limit demo_rq)) \<noteq> None" by code_simp
  show "verify_offline demo_engine 0 demo_rq first_boot = None" by code_simp
  show "int (dec_nat (au_value (rq_auth demo_rq))) \<le> 100" by code_simp
  show "pays_tier (en_offer demo_engine) (rq_limit demo_rq) (rq_auth demo_rq)" by code_simp
qed

definition demo_receipts :: "receipt \<times> receipt" where
  "demo_receipts = (\<lparr>rc_status = 1, rc_block = 7, rc_inserted = []\<rparr>, \<lparr>rc_status = 1, rc_block = 8, rc_inserted = [(''5'', 0, ''root'')]\<rparr>)"

lemma demo_setup:
  "running first_boot" "jobs first_boot = (\<lambda>_. None)" "tx_queue first_boot = []" "sent first_boot = []" "answers first_boot = []"
  "map_of (orders first_boot) k = None" "js_lower (en_checksum demo_engine a) = js_lower a" "en_confirmations demo_engine = 1"
  "rq_commitment demo_rq = ''5''" "rq_limit demo_rq = 8" "rc_status (fst demo_receipts) = 1" "rc_status (snd demo_receipts) = 1"
  "find (\<lambda>(c, j, root). c = rq_commitment demo_rq) (rc_inserted (snd demo_receipts)) = Some (''5'', 0, ''root'')"
  by (simp_all add: first_boot_def demo_engine_def demo_receipts_def demo_rq_def)

lemma demo_purchase:
  "jobs first_boot 1 = None" "''h1'' \<notin> set (map fst (sent first_boot))" "''h2'' \<notin> set (map fst (sent first_boot))" "''h1'' \<noteq> ''h2''"
  by (simp_all add: demo_setup)

theorem honest_purchase_witness:
  "\<exists>o1. answers (run demo_engine (purchase 1 0 demo_rq 100 ''h1'' (fst demo_receipts) ''h2'' (snd demo_receipts)) first_boot) = [(1, Inr (False, o1))]
     \<and> od_state o1 = Inserted \<and> od_settleTx o1 = Some ''h1''"
  using honest_purchase [OF demo_setup(1) demo_purchase(1) demo_setup(3,6,7) demo_rq_ok(1-4) demo_purchase(2-4) demo_setup(11-13)]
    demo_setup(5) by auto

section \<open>Lost payments and free inserts\<close>

lemma recover_done:
  "list_all (\<lambda>ob. od_state (heap s ob) \<in> {NoState, Inserted, Failed}) obs \<Longrightarrow> recover_next i obs s = s\<lparr>jobs := (jobs s)(i := None), running := True\<rparr>"
  by (induction obs) (auto simp: Let_def is_pending_def)

lemma restart_finished:
  assumes "\<forall>e \<in> set (disk s). od_state (snd e) \<in> {NoState, Inserted, Failed}"
  shows "\<exists>s'. step C (Restart j) s = s' \<and> running s' \<and> jobs s' = (\<lambda>_. None) \<and> inflight s' = [] \<and> disk s' = disk s \<and> sent s' = sent s
    \<and> answers s' = answers s \<and> map fst (orders s') = map fst (disk s)"
proof -
  let ?n = "length (disk s)"
  let ?s = "s\<lparr>heap := (\<lambda>j. if j < ?n then snd (disk s ! j) else heap s j), next_object := ?n, orders := map (\<lambda>j. (fst (disk s ! j), j)) [0..<?n],
      inflight := [], tx_queue := [], jobs := (\<lambda>_. None), running := False\<rparr>"
  have "disk (persist ?s) = disk s" by (cases "disk_up s") (auto simp: persist_def intro!: nth_equalityI)
  then have p: "persist ?s = ?s" by (cases "disk_up s") (simp_all add: persist_def)
  have "load_store (s\<lparr>orders := [], inflight := [], tx_queue := [], jobs := (\<lambda>_. None), running := False\<rparr>) = persist ?s"
    unfolding load_store_def Let_def by (rule arg_cong [of _ _ persist], rule registrar.equality) (simp_all add: fun_eq_iff)
  then have l: "step C (Restart j) s = recover_next j (map snd (orders ?s)) ?s" by (simp add: p Let_def)
  have "list_all (\<lambda>ob. od_state (heap ?s ob) \<in> {NoState, Inserted, Failed}) (map snd (orders ?s))"
    using assms nth_mem [of _ "disk s"] by (auto simp: list_all_iff)
  then have "step C (Restart j) s = ?s\<lparr>jobs := (jobs ?s)(j := None), running := True\<rparr>" unfolding l by (rule recover_done)
  moreover have "map (\<lambda>j. fst (disk s ! j)) [0..<?n] = map fst (disk s)" by (auto intro!: nth_equalityI)
  ultimately show ?thesis by (auto simp: comp_def)
qed

text \<open>
  C29: A settlement is remembered only once the answer to its broadcast has arrived. If the process
  dies before, or the answer is lost, the transfer is on its way but no order remembers it: after the
  transfer has burnt the nonce, recovery resumes nothing and the identical request is refused as
  \<open>nonce-used\<close>, so the buyer has paid and gets no leaf.
\<close>

theorem unrecorded_settlement_lost:
  assumes sending: "jobs s i = Some (PSent SettleTx (Fresh rq) ob h)" "map_of (disk s) (request_key (en_offer C) rq) = None"
    and others: "\<forall>e \<in> set (disk s). od_state (snd e) \<in> {NoState, Inserted, Failed}"
    and rq: "isCommitment (JStr (rq_commitment rq))" "priceOf (en_offer C) (JNum (rq_limit rq)) \<noteq> None"
      "\<forall>s'. inflight s' = [] \<longrightarrow> verify_offline C now rq s' = None"
  shows "let s' = run C [Restart j, Post j now rq, GotReads j (Inr (True, bal, active))] s in
     answers s' = answers s @ [(j, Inl (402, ''nonce-used''))] \<and> sent s' = sent s \<and> map_of (disk s') (request_key (en_offer C) rq) = None"
proof -
  obtain s1 where s1: "step C (Restart j) s = s1" "running s1" "jobs s1 = (\<lambda>_. None)" "inflight s1 = []" "disk s1 = disk s" "sent s1 = sent s"
    "answers s1 = answers s" "map fst (orders s1) = map fst (disk s)"
    using restart_finished [OF others] by blast
  have "map_of (orders s1) (request_key (en_offer C) rq) = None"
    using sending(2) s1(8) by (metis map_of_eq_None_iff set_map)
  then have p: "step C (Post j now rq) s1 = goto j (PReads rq None) s1"
    using s1 rq by (auto simp: start_request_def verify_def Let_def)
  show ?thesis
    unfolding run_simps s1(1) p Let_def using s1 sending(2) by (simp add: goto_def got_reads_def refuse_def answer_def)
qed

lemma demo_sending:
  "let s = run demo_engine (take 4 (purchase 1 0 demo_rq 100 ''h1'' (fst demo_receipts) ''h2'' (snd demo_receipts))) first_boot in
     jobs s 1 = Some (PSent SettleTx (Fresh demo_rq) 0 ''h1'') \<and> disk s = [] \<and> sent s = [(''h1'', SentSettle demo_rq)]"
  by code_simp

theorem unrecorded_settlement_lost_witness:
  "\<exists>s. (\<exists>es. s = run demo_engine es first_boot) \<and> (''h1'', SentSettle demo_rq) \<in> set (sent s)
     \<and> answers s = [(2, Inl (402, ''nonce-used''))] \<and> disk s = []"
proof -
  let ?es = "take 4 (purchase 1 0 demo_rq 100 ''h1'' (fst demo_receipts) ''h2'' (snd demo_receipts))"
  let ?s = "run demo_engine ?es first_boot"
  have j: "jobs ?s 1 = Some (PSent SettleTx (Fresh demo_rq) 0 ''h1'')" and d: "disk ?s = []" and t: "sent ?s = [(''h1'', SentSettle demo_rq)]"
    using demo_sending unfolding Let_def by blast+
  have a: "answers ?s = []" by code_simp
  have n: "map_of (disk ?s) (request_key (en_offer demo_engine) demo_rq) = None" unfolding d by simp
  have oth: "\<forall>e \<in> set (disk ?s). od_state (snd e) \<in> {NoState, Inserted, Failed}" unfolding d by simp
  have v: "\<forall>s'. inflight s' = [] \<longrightarrow> verify_offline demo_engine 0 demo_rq s' = None"
    using demo_rq_ok(3) by (simp add: verify_offline_def first_boot_def demo_engine_def Let_def)
  let ?s' = "run demo_engine [Restart 2, Post 2 0 demo_rq, GotReads 2 (Inr (True, 0, 0))] ?s"
  have "answers ?s' = [(2, Inl (402, ''nonce-used''))] \<and> sent ?s' = [(''h1'', SentSettle demo_rq)]"
    using unrecorded_settlement_lost [OF j n oth demo_rq_ok(1,2) v, of 2 0 0] unfolding Let_def a t by simp
  moreover have "disk ?s' = []" by code_simp
  moreover have "?s' = run demo_engine (?es @ [Restart 2, Post 2 0 demo_rq, GotReads 2 (Inr (True, 0, 0))]) first_boot" by (simp add: run_append)
  ultimately show ?thesis by (intro exI [of _ ?s']) auto
qed

text \<open>The steps of the second scenario, from an order at rest.\<close>

lemma post_pending:
  assumes "at_rest k ob o1 s" "k = request_key (en_offer C) rq" "jobs s i = None" "isCommitment (JStr (rq_commitment rq))"
    "priceOf (en_offer C) (JNum (rq_limit rq)) \<noteq> None" "od_commitment o1 = rq_commitment rq" "od_limit o1 = rq_limit rq"
    "od_state o1 = Settling" "od_settleTx o1 = Some h"
  shows "step C (Post i now rq) s = goto i (PReconcile SettleTx (Posted rq) ob h) s"
  using assms by (auto simp: at_rest_def start_request_def Let_def is_pending_def pending_hash_def pending_kind_def)

lemma post_settled:
  assumes "at_rest k ob o1 s" "k = request_key (en_offer C) rq" "jobs s i = None" "isCommitment (JStr (rq_commitment rq))"
    "priceOf (en_offer C) (JNum (rq_limit rq)) \<noteq> None" "od_commitment o1 = rq_commitment rq" "od_limit o1 = rq_limit rq" "od_state o1 = Settled"
  shows "step C (Post i now rq) s = goto i (PLimitOf (Posted rq) ob) (busy_key k s)"
  using assms by (auto simp: at_rest_def start_request_def Let_def is_pending_def after_existing_def)

lemma reconcile_settles:
  assumes "at_rest k ob o1 s" "k = request_key (en_offer C) rq" "jobs s i = Some (PReconcile SettleTx (Posted rq) ob h)"
    "en_confirmations C \<le> 1" "rc_status r = 1"
  shows "\<exists>s' o2. step C (GotReceipt i now (Inr (Some r)) d) s = s' \<and> jobs s' = (jobs s)(i := Some (PLimitOf (Posted rq) ob))
    \<and> heap s' ob = o2 \<and> od_state o2 = Settled \<and> key_of o2 = k \<and> core o2 = core o1 \<and> od_settleTx o2 = od_settleTx o1
    \<and> map_of (orders s') k = Some ob \<and> tx_queue s' = [] \<and> running s' \<and> sent s' = sent s \<and> confirmed s' = h # confirmed s"
proof -
  let ?f = "\<lambda>o1. o1\<lparr>od_state := Settled, od_settleBlock := Some (rc_block r), od_error := None\<rparr>"
  let ?s = "put ob (change ob ?f (confirm h s))"
  have hp: "heap ?s ob = ?f o1" "key_of (?f o1) = k" using assms(1) by (auto simp: store_fields at_rest_def key_of_def)
  have ord: "orders ?s = AList.update k ob (orders s)" using hp by (simp add: store_fields)
  have st: "od_state (heap ?s ob) = Settled" using hp by simp
  have e: "step C (GotReceipt i now (Inr (Some r)) d) s = goto i (PLimitOf (Posted rq) ob) (busy_key k ?s)"
    using assms(2-5) st by (simp add: got_receipt_def receiptIsFinal_def after_reconcile_def after_existing_def Let_def is_pending_def)
  have f: "jobs ?s = jobs s" "tx_queue ?s = tx_queue s" "running ?s = running s" "sent ?s = sent s" "confirmed ?s = h # confirmed s"
    by (simp_all add: store_fields) (simp add: confirm_def)
  obtain s1 where s1: "?s = s1" by blast
  show ?thesis using assms(1) ord hp f unfolding e s1 by (auto simp: goto_def busy_key_def at_rest_def core_def)
qed

lemma limit_error:
  assumes "jobs s i = Some (PLimitOf (Posted rq) ob)" "map_of (orders s) k = Some ob" "key_of (heap s ob) = k" "k = request_key (en_offer C) rq"
    "running s" "tx_queue s = []"
  shows "\<exists>s' o2. step C (GotLimit i (Inl e)) s = s' \<and> at_rest k ob o2 s' \<and> od_state o2 = od_state (heap s ob) \<and> core o2 = core (heap s ob)
    \<and> od_settleTx o2 = od_settleTx (heap s ob) \<and> jobs s' = (jobs s)(i := None) \<and> sent s' = sent s \<and> confirmed s' = confirmed s
    \<and> (disk_up s \<longrightarrow> map_of (disk s') k = Some o2)"
proof -
  let ?f = "\<lambda>o1. o1\<lparr>od_error := Some ''rpc''\<rparr>"
  let ?s = "put ob (change ob ?f s)"
  have hp: "heap ?s ob = ?f (heap s ob)" "key_of (?f (heap s ob)) = k" using assms(3) by (auto simp: store_fields key_of_def)
  have ord: "orders ?s = AList.update k ob (orders s)" using hp by (simp add: store_fields)
  have d: "disk_up s \<longrightarrow> map_of (disk ?s) k = Some (?f (heap s ob))"
    using hp by (simp add: store_fields map_of_map)
  have f: "jobs ?s = jobs s" "tx_queue ?s = tx_queue s" "running ?s = running s" "sent ?s = sent s" "confirmed ?s = confirmed s"
    by (simp_all add: store_fields)
  have e: "step C (GotLimit i (Inl e)) s = free_key k (answer i (Inl (502, ''insert-failed'')) ?s)"
    using assms(1,4) by (simp add: got_limit_def insert_failed_def Let_def)
  obtain s1 where s1: "?s = s1" by blast
  show ?thesis using assms(5,6) ord hp d f unfolding e s1 by (auto simp: free_key_def answer_def at_rest_def core_def)
qed

lemma settle_timeout:
  assumes "jobs s i = Some (PWait SettleTx (Fresh rq) ob h)" "key_of (heap s ob) = request_key (en_offer C) rq" "od_settleTx (heap s ob) = Some h"
    "running s" "tx_queue s = []"
  shows "\<exists>s' o2. step C (Waited i now WTimeout) s = s' \<and> at_rest (request_key (en_offer C) rq) ob o2 s' \<and> od_state o2 = od_state (heap s ob)
    \<and> core o2 = core (heap s ob) \<and> od_settleTx o2 = Some h \<and> jobs s' = (jobs s)(i := None) \<and> sent s' = sent s"
proof -
  let ?k = "request_key (en_offer C) rq"
  let ?f = "\<lambda>o1. o1\<lparr>od_state := (if od_settleTx o1 \<noteq> None then od_state o1 else Failed), od_error := Some ''timeout''\<rparr>"
  let ?s = "put ob (change ob ?f s)"
  have hp: "heap ?s ob = ?f (heap s ob)" "key_of (?f (heap s ob)) = ?k" using assms(2) by (auto simp: store_fields key_of_def)
  have ord: "orders ?s = AList.update ?k ob (orders s)" using hp by (simp add: store_fields)
  have f: "jobs ?s = jobs s" "tx_queue ?s = tx_queue s" "running ?s = running s" "sent ?s = sent s"
    by (simp_all add: store_fields)
  have e: "step C (Waited i now WTimeout) s = free_key ?k (answer i (Inl (503, ''in-progress'')) ?s)"
    using assms(1) by (simp add: waited_def tx_failed_def settle_failed_def)
  obtain s1 where s1: "?s = s1" by blast
  show ?thesis using assms(3-5) ord hp f unfolding e s1 by (auto simp: free_key_def answer_def at_rest_def core_def)
qed

definition settle_events :: "nat \<Rightarrow> int \<Rightarrow> pay_request \<Rightarrow> int \<Rightarrow> string \<Rightarrow> event list" where
  "settle_events i now rq bal h = [Post i now rq, GotReads i (Inr (False, bal, 0)), Simulated i (Inr ()), Accepted i h, SendReply i]"

definition late_receipt :: "nat \<Rightarrow> nat \<Rightarrow> int \<Rightarrow> pay_request \<Rightarrow> int \<Rightarrow> string \<Rightarrow> string \<Rightarrow> string \<Rightarrow> receipt \<Rightarrow> receipt \<Rightarrow> event list" where
  "late_receipt i k now rq bal h1 h2 h3 r1 r2 = settle_events i now rq bal h1 @ [Waited i now WTimeout]
     @ [Post i now rq, Post k now rq, GotReceipt i now (Inr (Some r1)) (Inr 1)] @ insert_events i now h2 r2
     @ [GotReceipt k now (Inr (Some r1)) (Inr 1), GotLimit k (Inl TypeError)]
     @ [Post i now rq] @ insert_events i now h3 r2"

text \<open>
  C28: One payment can buy two inserts. When two identical requests wait for the receipt of the same
  settlement, the later answer sets the order back from inserted to settled; if its next chain read
  fails, the order stays settled on disk although its leaf was inserted, and the next identical request
  (after the leaf has been slashed, say) inserts it again without a second payment.
\<close>

theorem late_receipt_inserts_twice:
  assumes up: "running s" "jobs s = (\<lambda>_. None)" "tx_queue s = []" and new: "map_of (orders s) (request_key (en_offer C) rq) = None"
    and lower: "\<And>a. js_lower (en_checksum C a) = js_lower a" and conf: "en_confirmations C \<le> 1"
    and rq: "isCommitment (JStr (rq_commitment rq))" "priceOf (en_offer C) (JNum (rq_limit rq)) \<noteq> None" "verify_offline C now rq s = None"
    and bal: "int (dec_nat (au_value (rq_auth rq))) \<le> bal" and ik: "i \<noteq> k"
    and h: "set [h1, h2, h3] \<inter> set (map fst (sent s)) = {}" "distinct [h1, h2, h3]"
    and r: "rc_status r1 = 1" "rc_status r2 = 1" "find (\<lambda>(c, j, root). c = rq_commitment rq) (rc_inserted r2) = Some (c, j, root)"
  shows "sent (run C (late_receipt i k now rq bal h1 h2 h3 r1 r2) s)
      = (h3, SentInsert (rq_commitment rq) (rq_limit rq)) # (h2, SentInsert (rq_commitment rq) (rq_limit rq)) # (h1, SentSettle rq) # sent s
    \<and> {h1, h2, h3} \<subseteq> set (confirmed (run C (late_receipt i k now rq bal h1 h2 h3 r1 r2) s))"
proof -
  let ?k = "request_key (en_offer C) rq" and ?ob = "next_object s"
  let ?o = "record_hash SettleTx h1 (new_order C rq)"
  have o1: "key_of ?o = ?k" "core ?o = (rq_commitment rq, rq_limit rq)" "od_settleTx ?o = Some h1" "od_state ?o = Settling"
    using request_key_new [OF lower, of rq] by (simp_all add: record_hash_def key_of_def core_def) (simp_all add: new_order_def)
  have cl: "od_commitment x = rq_commitment rq \<and> od_limit x = rq_limit rq" if "core x = core ?o" for x
    using that o1(2) by (simp add: core_def)
  have h0: "h1 \<notin> set (map fst (sent s))" "h2 \<notin> set (map fst (sent s))" "h3 \<notin> set (map fst (sent s))" using h(1) by auto
  have ji: "jobs s i = None" using up(2) by simp
  obtain s1 where s1: "run C (settle_events i now rq bal h1) s = s1" "jobs s1 = (jobs s)(i := Some (PWait SettleTx (Fresh rq) ?ob h1))"
    "heap s1 ?ob = ?o" "tx_queue s1 = []" "running s1" "sent s1 = (h1, SentSettle rq) # sent s"
    using purchase_settles [OF up(1) ji up(3) new rq bal h0(1)] unfolding settle_events_def by blast
  have w1: "jobs s1 i = Some (PWait SettleTx (Fresh rq) ?ob h1)" "key_of (heap s1 ?ob) = ?k" "od_settleTx (heap s1 ?ob) = Some h1"
    using s1(2,3) o1 by simp_all
  obtain s2 o2 where s2: "step C (Waited i now WTimeout) s1 = s2" "at_rest ?k ?ob o2 s2" "od_state o2 = Settling" "core o2 = core ?o"
    "od_settleTx o2 = Some h1" "jobs s2 = (\<lambda>_. None)" "sent s2 = sent s1"
    using settle_timeout [OF w1 s1(5,4), of now] s1(2,3) o1(4) up(2) by auto
  let ?s3 = "goto i (PReconcile SettleTx (Posted rq) ?ob h1) s2"
  let ?s4 = "goto k (PReconcile SettleTx (Posted rq) ?ob h1) ?s3"
  have 3: "step C (Post i now rq) s2 = ?s3"
    using s2 cl [OF s2(4)] rq by (intro post_pending [OF s2(2) refl]) simp_all
  have ar3: "at_rest ?k ?ob o2 ?s3" "jobs ?s3 k = None" using s2 ik by (simp_all add: at_rest_def goto_def)
  have 4: "step C (Post k now rq) ?s3 = ?s4"
    using s2 cl [OF s2(4)] rq ar3(2) by (intro post_pending [OF ar3(1) refl]) simp_all
  have ar4: "at_rest ?k ?ob o2 ?s4" "jobs ?s4 i = Some (PReconcile SettleTx (Posted rq) ?ob h1)" "jobs ?s4 k = Some (PReconcile SettleTx (Posted rq) ?ob h1)"
    "sent ?s4 = sent s1" using s2 ik by (simp_all add: at_rest_def goto_def)
  obtain s5 o5 where s5: "step C (GotReceipt i now (Inr (Some r1)) (Inr 1)) ?s4 = s5" "jobs s5 = (jobs ?s4)(i := Some (PLimitOf (Posted rq) ?ob))"
    "heap s5 ?ob = o5" "key_of o5 = ?k" "core o5 = core ?o" "tx_queue s5 = []" "running s5" "sent s5 = sent s1" "h1 \<in> set (confirmed s5)"
    using reconcile_settles [OF ar4(1) refl ar4(2) conf r(1), of now "Inr 1"] s2(4) ar4(4) by auto
  have p5: "jobs s5 i = Some (PLimitOf (Posted rq) ?ob)" "key_of (heap s5 ?ob) = ?k" "h2 \<notin> set (map fst (sent s5))"
    "find (\<lambda>(c, j, root). c = od_commitment (heap s5 ?ob)) (rc_inserted r2) = Some (c, j, root)"
    using s5 s1(6) h0 h(2) cl [OF s5(5)] r(3) by auto
  obtain s6 o6 where s6: "run C (insert_events i now h2 r2) s5 = s6" "jobs s6 = (jobs s5)(i := None)" "at_rest ?k ?ob o6 s6" "core o6 = core ?o"
    "sent s6 = (h2, SentInsert (rq_commitment rq) (rq_limit rq)) # sent s1" "h1 \<in> set (confirmed s6)" "h2 \<in> set (confirmed s6)"
    using insert_completes [OF p5(1) disjI2 [OF refl] s5(6,7) p5(2,3) r(2) p5(4), of now] s5 cl [OF s5(5)] by (auto simp: core_def)
  have j6: "jobs s6 k = Some (PReconcile SettleTx (Posted rq) ?ob h1)" "jobs s6 i = None" using s6(2) s5(2) ar4(3) ik by simp_all
  obtain s7 o7 where s7: "step C (GotReceipt k now (Inr (Some r1)) (Inr 1)) s6 = s7" "jobs s7 = (jobs s6)(k := Some (PLimitOf (Posted rq) ?ob))"
    "heap s7 ?ob = o7" "od_state o7 = Settled" "key_of o7 = ?k" "core o7 = core ?o" "map_of (orders s7) ?k = Some ?ob" "tx_queue s7 = []" "running s7"
    "sent s7 = sent s6" "confirmed s7 = h1 # confirmed s6"
    using reconcile_settles [OF s6(3) refl j6(1) conf r(1), of now "Inr 1"] s6(4) by auto
  have p7: "jobs s7 k = Some (PLimitOf (Posted rq) ?ob)" "key_of (heap s7 ?ob) = ?k" using s7 by simp_all
  obtain s8 o8 where s8: "step C (GotLimit k (Inl TypeError)) s7 = s8" "at_rest ?k ?ob o8 s8" "od_state o8 = Settled" "core o8 = core ?o"
    "jobs s8 = (jobs s7)(k := None)" "sent s8 = sent s6" "confirmed s8 = h1 # confirmed s6"
    using limit_error [OF p7(1) s7(7) p7(2) refl s7(9,8), of TypeError] s7 by auto
  have j8: "jobs s8 i = None" using s8(5) s7(2) j6(2) ik by simp
  let ?s9 = "goto i (PLimitOf (Posted rq) ?ob) (busy_key ?k s8)"
  have 9: "step C (Post i now rq) s8 = ?s9"
    using s8(3) j8 cl [OF s8(4)] rq by (intro post_settled [OF s8(2) refl]) simp_all
  have q9: "jobs ?s9 i = Some (PLimitOf (Posted rq) ?ob)" "tx_queue ?s9 = []" "running ?s9" "heap ?s9 ?ob = o8" "sent ?s9 = sent s6" "confirmed ?s9 = h1 # confirmed s6"
    "key_of o8 = ?k" using s8 by (simp_all add: goto_def busy_key_def at_rest_def)
  have p9: "key_of (heap ?s9 ?ob) = ?k" "h3 \<notin> set (map fst (sent ?s9))"
    "find (\<lambda>(c, j, root). c = od_commitment (heap ?s9 ?ob)) (rc_inserted r2) = Some (c, j, root)"
    using q9 s6(5) s1(6) h0 h(2) cl [OF s8(4)] r(3) by auto
  have core8: "od_commitment (heap ?s9 ?ob) = rq_commitment rq" "od_limit (heap ?s9 ?ob) = rq_limit rq" using cl [OF s8(4)] q9(4) by simp_all
  obtain s10 where s10: "run C (insert_events i now h3 r2) ?s9 = s10" "sent s10 = (h3, SentInsert (rq_commitment rq) (rq_limit rq)) # sent s6"
    "confirmed s10 = h3 # h1 # confirmed s6"
    using insert_completes [OF q9(1) disjI2 [OF refl] q9(2,3) p9(1,2) r(2) p9(3), of now] core8 q9(5,6) by auto
  have "run C (late_receipt i k now rq bal h1 h2 h3 r1 r2) s = s10"
    unfolding late_receipt_def by (simp only: run_append s1(1)) (simp only: run_simps s2(1) 3 4 s5(1) s6(1) s7(1) s8(1) 9 s10(1))
  with s10 s6 s1(6) show ?thesis by auto
qed

theorem late_receipt_inserts_twice_witness:
  "sent (run demo_engine (late_receipt 1 2 0 demo_rq 100 ''h1'' ''h2'' ''h3'' (fst demo_receipts) (snd demo_receipts)) first_boot)
     = [(''h3'', SentInsert ''5'' 8), (''h2'', SentInsert ''5'' 8), (''h1'', SentSettle demo_rq)]"
proof -
  have c: "en_confirmations demo_engine \<le> 1" "(1 :: nat) \<noteq> 2" "set [''h1'', ''h2'', ''h3''] \<inter> set (map fst (sent first_boot)) = {}"
    "distinct [''h1'', ''h2'', ''h3'']" by (simp_all add: demo_setup)
  show ?thesis
    using late_receipt_inserts_twice [OF demo_setup(1-3,6,7) c(1) demo_rq_ok(1-4) c(2-4) demo_setup(11-13)] demo_setup(4,9,10) by simp
qed

end
