(* ===== verification/PayHttp.thy ===== *)
theory PayHttp
  imports Registrar
begin

text \<open>
  The HTTP side of \<^verbatim>\<open>src/payments/registrar.mjs\<close>: the offer read from the environment, the
  402 challenges, the quote and status routes and \<open>POST /pay\<close>, up to the call of the settlement
  engine and from its outcome to the answer, with the metric labels of every branch. Sockets, the
  body reader, the token buckets (a flag says whether the bucket had a token) and the JSON text of
  answers are left out; an answer is its status and its error code.
\<close>

section \<open>The offer\<close>

definition offerProtocols :: "offer \<Rightarrow> string list" where
  "offerProtocols F = (if of_protocols F \<noteq> [] then of_protocols F else [''x402'', ''mpp''])"

definition offerServes :: "offer \<Rightarrow> string \<Rightarrow> bool" where
  "offerServes F protocol \<longleftrightarrow> protocol \<in> set (offerProtocols F)"

definition offerSummary :: "offer \<Rightarrow> jsval" where
  "offerSummary F = JObj [(''protocols'', JArr (map JStr (offerProtocols F))), (''chain'', JStr (caip2 (of_chainId F))), (''chainId'', JNum (of_chainId F)),
     (''asset'', JStr (of_asset F)), (''assetName'', JStr (of_assetName F)), (''assetVersion'', JStr (of_assetVersion F)),
     (''decimals'', JNum (of_decimals F)), (''payTo'', JStr (of_payTo F)), (''tiers'', JObj (map (\<lambda>(l, p). (l, JStr p)) (of_tiers F))),
     (''maxTimeoutSeconds'', JNum (of_maxTimeoutSeconds F)),
     (''routes'', JObj [(''quote'', JStr ''/pay/quote?limit=<tier>''),
        (''pay'', JStr ''POST /pay {commitment, limit} + PAYMENT-SIGNATURE | Authorization: Payment''), (''status'', JStr ''/pay/status/<nonce>'')])]"

text \<open>The limits a request asks for: all tiers, one tier, or none that is sold.\<close>

definition requested_limits :: "offer \<Rightarrow> string option \<Rightarrow> int list option" where
  "requested_limits F q = (case q of
     None \<Rightarrow> Some (tierList F)
   | Some l \<Rightarrow> if priceOf F (JStr l) = None then None else (case js_number (JStr l) of JNum n \<Rightarrow> Some [n] | _ \<Rightarrow> None))"

text \<open>
  The offer of the environment before the token has been asked. \<open>ethers.getAddress\<close> is an argument.
  Numbers are integers here: a fractional setting counts as the default.
\<close>

record raw_offer =
  ro_asset :: string
  ro_tiers :: "(string \<times> string) list"
  ro_protocols :: "string list"
  ro_payTo :: "string option"
  ro_maxTimeoutSeconds :: int
  ro_settleBufferSec :: int
  ro_realm :: string
  ro_resourceUrl :: string
  ro_description :: string
  ro_assetName :: "string option"
  ro_assetVersion :: "string option"
  ro_port :: int

definition registrar_envInt :: "env \<Rightarrow> string \<Rightarrow> int \<Rightarrow> int" where
  "registrar_envInt e name dflt = (case e name of
     None \<Rightarrow> dflt
   | Some raw \<Rightarrow> if raw = [] then dflt else (case js_number (JStr raw) of JNum n \<Rightarrow> if n \<ge> 0 then n else dflt | _ \<Rightarrow> dflt))"

definition set_var :: "env \<Rightarrow> string \<Rightarrow> string option" where  \<comment> \<open>\<open>env.NAME || null\<close>\<close>
  "set_var e name = (case e name of Some s \<Rightarrow> if s = [] then None else Some s | None \<Rightarrow> None)"

definition makeOffer :: "(string \<Rightarrow> string res) \<Rightarrow> env \<Rightarrow> raw_offer res" where
  "makeOffer getAddress e =
     (if \<not> isAddress (js_or (env_val e ''SHADE_TREE_PAY_ASSET'') (JStr [])) then Inl (Error ''SHADE_TREE_PAY_ASSET must be the EIP-3009 token address'')
      else bind_res (parsePrices (env_val e ''SHADE_TREE_PAY_PRICES'')) (\<lambda>tiers.
        let port = registrar_envInt e ''SHADE_TREE_REGISTRAR_PORT'' 8878;
          onion = map_option (\<lambda>s. strip_onion s @ ''.onion'') (set_var e ''SHADE_TREE_REGISTRAR_ONION'');
          host = (case onion of Some a \<Rightarrow> a | None \<Rightarrow> ''127.0.0.1'') @ '':'' @ int_dec port in
        bind_res (getAddress (str_of (env_val e ''SHADE_TREE_PAY_ASSET''))) (\<lambda>asset.
        bind_res (parsePayProtocols ''SHADE_TREE_PAY_PROTOCOLS'' (env_val e ''SHADE_TREE_PAY_PROTOCOLS'')) (\<lambda>protocols.
        bind_res (case set_var e ''SHADE_TREE_PAY_TO'' of Some a \<Rightarrow> bind_res (getAddress a) (\<lambda>x. Inr (Some x)) | None \<Rightarrow> Inr None) (\<lambda>payTo.
          Inr \<lparr>ro_asset = asset, ro_tiers = tiers, ro_protocols = protocols, ro_payTo = payTo,
            ro_maxTimeoutSeconds = registrar_envInt e ''SHADE_TREE_PAY_TIMEOUT'' 600, ro_settleBufferSec = registrar_envInt e ''SHADE_TREE_PAY_SETTLE_BUFFER'' 20,
            ro_realm = (case set_var e ''SHADE_TREE_REGISTRAR_REALM'' of Some r \<Rightarrow> r
               | None \<Rightarrow> (case onion of Some a \<Rightarrow> a | None \<Rightarrow> ''shade-tree-registrar'')),
            ro_resourceUrl = ''http://'' @ host @ ''/pay'', ro_description = ''shade-tree egress membership leaf (PaidAccessSet insert)'',
            ro_assetName = set_var e ''SHADE_TREE_PAY_ASSET_NAME'', ro_assetVersion = set_var e ''SHADE_TREE_PAY_ASSET_VERSION'', ro_port = port\<rparr>)))))"

text \<open>The answers of the token contract and the chain; \<open>tk_hashDomain\<close> is the EIP-712 domain hash.\<close>

record token_chain =
  tk_chainId :: "int res"
  tk_name :: "string res"
  tk_version :: "string res"
  tk_decimals :: "int res"
  tk_separator :: "string res"
  tk_zeroState :: "bool res"
  tk_hashDomain :: "string \<Rightarrow> string \<Rightarrow> int \<Rightarrow> string \<Rightarrow> string"

definition probeAsset :: "raw_offer \<Rightarrow> token_chain \<Rightarrow> string \<Rightarrow> offer res" where
  "probeAsset R T operator =
     bind_res (tk_chainId T) (\<lambda>chain.
     bind_res (case ro_assetName R of Some n \<Rightarrow> Inr n | None \<Rightarrow> tk_name T) (\<lambda>name.
     bind_res (case ro_assetVersion R of Some v \<Rightarrow> Inr v
        | None \<Rightarrow> (case tk_version T of Inr v \<Rightarrow> Inr v | Inl _ \<Rightarrow> Inl (Error ''token has no version(): set SHADE_TREE_PAY_ASSET_VERSION''))) (\<lambda>version.
     bind_res (tk_decimals T) (\<lambda>decimals.
     bind_res (tk_separator T) (\<lambda>got.
       if js_lower got \<noteq> js_lower (tk_hashDomain T name version chain (ro_asset R)) then Inl (Error ''token DOMAIN_SEPARATOR mismatch'')
       else bind_res (tk_zeroState T) (\<lambda>_.
         Inr \<lparr>of_chainId = chain, of_asset = ro_asset R, of_assetName = name, of_assetVersion = version, of_decimals = decimals,
           of_payTo = (case ro_payTo R of Some a \<Rightarrow> a | None \<Rightarrow> operator), of_tiers = ro_tiers R, of_maxTimeoutSeconds = ro_maxTimeoutSeconds R,
           of_settleBufferSec = ro_settleBufferSec R, of_realm = ro_realm R, of_resourceUrl = ro_resourceUrl R, of_description = ro_description R,
           of_protocols = ro_protocols R\<rparr>))))))"

text \<open>\<open>main\<close> refuses to start when the set does not admit a tier that is sold.\<close>

definition tiers_admitted :: "offer \<Rightarrow> int list res \<Rightarrow> bool" where
  "tiers_admitted F allowed = (case allowed of Inl _ \<Rightarrow> False | Inr a \<Rightarrow> list_all (\<lambda>l. l \<in> set a) (tierList F))"

section \<open>402 answers\<close>

text \<open>The headers of a 402: the x402 requirements and one MPP challenge per offered tier, each only
  for an enabled rail. \<open>rnds\<close> are the random bytes of the challenges.\<close>

record headers402 =
  h_required :: "string option"
  h_authenticate :: "string list"
  h_response :: "string option"

definition headers_402 :: "pay_lib \<Rightarrow> offer \<Rightarrow> string \<Rightarrow> int list \<Rightarrow> string \<Rightarrow> int \<Rightarrow> string list \<Rightarrow> string option \<Rightarrow> jsval option \<Rightarrow> headers402 res" where
  "headers_402 L F secret limits digest now rnds err x402Response =
     (let on = offerServes F ''x402'';
        want = join_with '' or '' ((if on then [''PAYMENT-SIGNATURE''] else []) @ (if offerServes F ''mpp'' then [''Authorization: Payment''] else [])) in
      bind_res (if offerServes F ''mpp''
          then map_res (\<lambda>(l, rnd). bind_res (mppChallenge L F l secret digest now rnd) (\<lambda>(params, h). Inr h)) (zip limits rnds) else Inr [])
        (\<lambda>www. Inr \<lparr>h_required = (if on then Some (encodeX402Header (x402PaymentRequired F limits
              (Some (case err of Some e \<Rightarrow> if e = [] then want @ '' header is required'' else e | None \<Rightarrow> want @ '' header is required'')))) else None),
            h_authenticate = www,
            h_response = (case x402Response of Some v \<Rightarrow> if on then Some (encodeX402Header v) else None | None \<Rightarrow> None)\<rparr>))"

section \<open>Quotes and order status\<close>

datatype reply = Reply int string | Challenge "int list" string  \<comment> \<open>status and code, or a 402 with the offered limits\<close>

definition quote_route :: "offer \<Rightarrow> bool \<Rightarrow> string option \<Rightarrow> reply" where
  "quote_route F token q =
     (if \<not> token then Reply 429 ''rate-limited''
      else case requested_limits F (case q of Some [] \<Rightarrow> None | _ \<Rightarrow> q) of
        None \<Rightarrow> Reply 400 ''unknown-limit''
      | Some limits \<Rightarrow> Challenge limits ''payment-required'')"

definition publicOrder :: "order \<Rightarrow> jsval" where
  "publicOrder o1 = (let opt = (\<lambda>v. case v of Some s \<Rightarrow> if s = [] then JNull else JStr s | None \<Rightarrow> JNull) in
     JObj [(''state'', case od_state o1 of NoState \<Rightarrow> JUndef | Settling \<Rightarrow> JStr ''settling'' | Settled \<Rightarrow> JStr ''settled''
           | Inserting \<Rightarrow> JStr ''inserting'' | Inserted \<Rightarrow> JStr ''inserted'' | Failed \<Rightarrow> JStr ''failed''),
       (''asset'', JStr (od_asset o1)), (''payer'', JStr (od_from o1)), (''nonce'', JStr (od_nonce o1)), (''commitment'', JStr (od_commitment o1)),
       (''limit'', JNum (od_limit o1)), (''settleTx'', opt (od_settleTx o1)), (''insertTx'', opt (od_insertTx o1)),
       (''leafIndex'', case od_leafIndex o1 of Some n \<Rightarrow> JNum n | None \<Rightarrow> JNull), (''root'', opt (od_root o1))])"

definition byNonce :: "registrar \<Rightarrow> string \<Rightarrow> order list" where
  "byNonce s nonce = filter (\<lambda>o1. js_lower (od_nonce o1) = js_lower nonce) (map (\<lambda>(k, ob). heap s ob) (orders s))"

definition status_route :: "registrar \<Rightarrow> string \<Rightarrow> reply + jsval list" where
  "status_route s nonce =
     (if \<not> hex0x 64 nonce then Inl (Reply 400 ''bad-nonce'')
      else if byNonce s nonce = [] then Inl (Reply 404 ''not-found'')
      else Inr (map publicOrder (byNonce s nonce)))"

section \<open>POST /pay\<close>

definition MAX_BODY :: nat where "MAX_BODY = 4096"

text \<open>\<open>readBody\<close> over the chunks of the body: it fails as soon as more than \<open>MAX_BODY\<close> bytes came in.\<close>

fun readBody :: "string list \<Rightarrow> string \<Rightarrow> string option" where
  "readBody [] acc = Some acc"
| "readBody (c # cs) acc = (if length acc + length c > MAX_BODY then None else readBody cs (acc @ c))"

text \<open>What the handler does with a request: an answer with its metric labels, or a call of the engine.\<close>

datatype pay_decision = Answer pay_labels reply | Engine pay_request "string option"

definition rejected :: "string \<Rightarrow> string \<Rightarrow> pay_labels" where
  "rejected protocol reason = paymentMetricLabels protocol ''rejected'' (Some reason)"

definition decide_x402 :: "pay_lib \<Rightarrow> offer \<Rightarrow> jsval \<Rightarrow> string \<Rightarrow> int list \<Rightarrow> string \<Rightarrow> pay_decision" where
  "decide_x402 L F body bodyLimit limits header =
     (if length header > 8192 then Answer (rejected ''x402'' ''credential-too-large'') (Reply 400 ''invalid_payment_payload'')
      else case parseX402Payment L header F of
        Inl reason \<Rightarrow> Answer (rejected ''x402'' reason) (Challenge limits reason)
      | Inr p \<Rightarrow>
          if js_number (JStr bodyLimit) \<noteq> JNum (xp_limit p) then Answer (rejected ''x402'' ''limit-mismatch'') (Challenge limits ''limit-mismatch'')
          else Engine \<lparr>rq_protocol = ''x402'', rq_limit = xp_limit p, rq_commitment = str_of (getp body ''commitment''), rq_auth = xp_auth p,
                 rq_signature = xp_signature p\<rparr> None)"

definition decide_mpp :: "pay_lib \<Rightarrow> offer \<Rightarrow> string \<Rightarrow> string \<Rightarrow> jsval \<Rightarrow> string \<Rightarrow> int list \<Rightarrow> string \<Rightarrow> int \<Rightarrow> pay_decision" where
  "decide_mpp L F secret raw body bodyLimit limits header now =
     (if length header > 8192 then Answer (rejected ''mpp'' ''credential-too-large'') (Challenge limits ''malformed-credential'')
      else case parseMppCredential L header secret F (Some (contentDigest L raw)) now of
        Inl (reason, detail) \<Rightarrow> Answer (rejected ''mpp'' reason)
          (if reason = ''method-unsupported'' then Reply 400 reason else Challenge limits reason)
      | Inr p \<Rightarrow>
          if js_number (JStr bodyLimit) \<noteq> JNum (mp_limit p) then Answer (rejected ''mpp'' ''limit-mismatch'') (Challenge limits ''verification-failed'')
          else Engine \<lparr>rq_protocol = ''mpp'', rq_limit = mp_limit p, rq_commitment = str_of (getp body ''commitment''), rq_auth = mp_auth p,
                 rq_signature = mp_signature p\<rparr> (Some (str_of (getp (mp_challenge p) ''id''))))"

text \<open>The body as parsed: \<open>None\<close> is a body that is not a JSON object.\<close>

definition parse_body :: "pay_lib \<Rightarrow> string \<Rightarrow> jsval option" where
  "parse_body L raw = (if raw = [] then Some JNull
     else case json_parse L (utf8_str L raw) of Inl e \<Rightarrow> None
       | Inr v \<Rightarrow> if v = JNull \<or> plain_object v then Some v else None)"

definition present :: "string option \<Rightarrow> bool" where
  "present h \<longleftrightarrow> h \<noteq> None \<and> h \<noteq> Some []"

definition decide_pay :: "pay_lib \<Rightarrow> offer \<Rightarrow> string \<Rightarrow> bool \<Rightarrow> string option \<Rightarrow> string option \<Rightarrow> string option \<Rightarrow> int \<Rightarrow> pay_decision" where
  "decide_pay L F secret token raw x402Header authHeader now =
     (case raw of
        None \<Rightarrow> Answer (rejected ''unknown'' ''body-too-large'') (Reply 413 ''body too large'')
      | Some raw \<Rightarrow> (case parse_body L raw of
          None \<Rightarrow> Answer (rejected ''unknown'' ''bad-json'') (Reply 400 ''bad-json'')
        | Some body \<Rightarrow>
          (let bodyLimit = (if nullish (getp body ''limit'') then None else Some (js_string (getp body ''limit''))) in
           case requested_limits F bodyLimit of
             None \<Rightarrow> Answer (rejected ''unknown'' ''unknown-limit'') (Reply 400 ''unknown-limit'')
           | Some limits \<Rightarrow>
               if \<not> present x402Header \<and> \<not> present authHeader
               then Answer (paymentMetricLabels ''unknown'' ''challenged'' (Some ''payment-required'')) (Challenge limits ''payment-required'')
               else if \<not> token then Answer (rejected ''unknown'' ''rate-limited'') (Reply 429 ''rate-limited'')
               else case bodyLimit of
                 None \<Rightarrow> Answer (rejected ''unknown'' ''bad-body'') (Reply 400 ''bad-body'')
               | Some l \<Rightarrow>
                   if \<not> isCommitment (getp body ''commitment'') then Answer (rejected ''unknown'' ''bad-body'') (Reply 400 ''bad-body'')
                   else if present x402Header \<and> \<not> offerServes F ''x402''
                   then Answer (rejected ''x402'' ''protocol-disabled'') (Reply 400 ''protocol-disabled'')
                   else if \<not> present x402Header \<and> \<not> offerServes F ''mpp''
                   then Answer (rejected ''mpp'' ''protocol-disabled'') (Reply 400 ''protocol-disabled'')
                   else if present x402Header then decide_x402 L F body l limits (the x402Header)
                   else decide_mpp L F secret raw body l limits (the authHeader) now)))"

text \<open>The answer to an outcome of the engine.\<close>

definition mpp_code :: "string \<Rightarrow> string" where
  "mpp_code reason = (if reason = ''expired'' then ''payment-expired'' else if reason = ''insufficient_funds'' then ''payment-insufficient''
     else ''verification-failed'')"

definition answer_outcome :: "string \<Rightarrow> int list \<Rightarrow> outcome \<Rightarrow> pay_labels \<times> reply" where
  "answer_outcome protocol limits out = (case out of
     Inl (status, reason) \<Rightarrow>
       (paymentMetricLabels protocol (if status \<ge> 500 then ''failed'' else ''rejected'') (Some reason),
        let code = (if protocol = ''mpp'' then mpp_code reason else reason) in
        if status = 402 then Challenge limits code else Reply status code)
   | Inr (replayed, o1) \<Rightarrow> (paymentMetricLabels protocol (if replayed then ''replayed'' else ''inserted'') None, Reply 200 ''ok''))"

section \<open>From the wire to the leaf\<close>

lemma decide_x402_Engine:
  assumes "decide_x402 L F body l limits h = Engine rq ch"
  shows "pays_tier F (rq_limit rq) (rq_auth rq)" "js_number (JStr l) = JNum (rq_limit rq)"
    "rq_commitment rq = str_of (getp body ''commitment'')" "rq_protocol rq = ''x402''"
  using assms by (auto simp: decide_x402_def split: if_splits sum.splits dest: x402_sound)

lemma decide_mpp_Engine:
  assumes "decide_mpp L F secret raw body l limits h now = Engine rq ch"
  shows "pays_tier F (rq_limit rq) (rq_auth rq)" "js_number (JStr l) = JNum (rq_limit rq)"
    "rq_commitment rq = str_of (getp body ''commitment'')" "rq_protocol rq = ''mpp''"
  using assms by (auto simp: decide_mpp_def split: if_splits sum.splits prod.splits dest: mpp_sound)

lemma decide_pay_Engine:
  assumes "decide_pay L F secret token raw hx ha now = Engine rq ch"
  shows "pays_tier F (rq_limit rq) (rq_auth rq) \<and> isCommitment (JStr (rq_commitment rq)) \<and> priceOf F (JNum (rq_limit rq)) \<noteq> None
    \<and> offerServes F (rq_protocol rq) \<and> token"
proof -
  obtain r body l limits where b: "raw = Some r" "parse_body L r = Some body" "\<not> nullish (getp body ''limit'')" "l = js_string (getp body ''limit'')"
    and lim: "requested_limits F (Some l) = Some limits" and tok: "token" and com: "isCommitment (getp body ''commitment'')"
    and d: "(offerServes F ''x402'' \<and> decide_x402 L F body l limits (the hx) = Engine rq ch)
      \<or> (offerServes F ''mpp'' \<and> decide_mpp L F secret r body l limits (the ha) now = Engine rq ch)"
    using assms unfolding decide_pay_def Let_def by (auto split: option.splits if_splits)
  have e: "pays_tier F (rq_limit rq) (rq_auth rq)" "js_number (JStr l) = JNum (rq_limit rq)" "rq_commitment rq = str_of (getp body ''commitment'')"
    "offerServes F (rq_protocol rq)"
    using d decide_x402_Engine decide_mpp_Engine by metis+
  have "priceOf F (JStr l) \<noteq> None" using lim by (auto simp: requested_limits_def split: if_splits)
  moreover have "priceOf F (JStr l) = priceOf F (JNum (rq_limit rq))" using e(2) by (simp add: priceOf_def)
  moreover have "isCommitment (JStr (rq_commitment rq))"
    using com e(3) string_kinds(2) [of "getp body ''commitment''"] by (simp add: isCommitment_def)
  ultimately show ?thesis using e tok by simp
qed

text \<open>
  C6: Whatever arrives on the wire, every insert of a registrar whose settlements come from its
  \<open>POST /pay\<close> handler is paid for: a settlement for that commitment and tier, which the endpoint
  reported successful, moved the tier's listed price to the operator's address. It holds for every
  request body, header, interleaving, endpoint answer, failed write, crash and recovery.
\<close>

theorem served_inserts_are_paid:
  assumes posts: "\<forall>i now rq. Post i now rq \<in> set es \<longrightarrow>
      (\<exists>secret token raw hx ha ch. decide_pay L (en_offer C) secret token raw hx ha now = Engine rq ch)"
    and ins: "(h, SentInsert c l) \<in> set (sent (run C es first_boot))"
  shows "\<exists>h' rq. (h', SentSettle rq) \<in> set (sent (run C es first_boot)) \<and> h' \<in> set (confirmed (run C es first_boot))
    \<and> rq_commitment rq = c \<and> rq_limit rq = l \<and> pays_tier (en_offer C) l (rq_auth rq)"
  using inserts_paid [OF _ ins] posts decide_pay_Engine by metis

lemma demo_decision:
  "decide_pay (demo_lib demo_x402 (JObj [(''commitment'', JStr ''5''), (''limit'', JNum 8)])) (en_offer demo_engine) [] True (Some ''q'') (Some ''YQ'') None 0
     = Engine demo_rq None"
proof -
  let ?b = "JObj [(''commitment'', JStr ''5''), (''limit'', JNum 8)]"
  let ?L = "demo_lib demo_x402 ?b"
  have F: "en_offer demo_engine = demo_offer" by (simp add: demo_engine_def)
  have b: "parse_body ?L ''q'' = Some ?b" by (simp add: parse_body_def demo_lib_def)
  have g: "getp ?b ''limit'' = JNum 8" "getp ?b ''commitment'' = JStr ''5''" by simp_all
  have l: "js_string (JNum 8) = ''8''" "js_number (JStr ''8'') = JNum 8" "requested_limits demo_offer (Some ''8'') = Some [8]" by code_simp+
  have c: "isCommitment (JStr ''5'')" by code_simp
  have sv: "offerServes demo_offer ''x402''" by code_simp
  have pr: "present (Some ''YQ'')" "\<not> present None" by (simp_all add: present_def)
  have x: "decide_x402 ?L demo_offer ?b ''8'' [8] ''YQ'' = Engine demo_rq None"
    unfolding decide_x402_def demo_x402_accepted using l(2) by (simp add: demo_rq_def)
  show ?thesis unfolding decide_pay_def F option.case b Let_def g using l c sv pr x by simp
qed

theorem served_inserts_are_paid_witness:
  "\<exists>h' rq. (h', SentSettle rq) \<in> set (sent (run demo_engine (purchase 1 0 demo_rq 100 ''h1'' (fst demo_receipts) ''h2'' (snd demo_receipts)) first_boot))
     \<and> rq_commitment rq = ''5'' \<and> pays_tier (en_offer demo_engine) 8 (rq_auth rq)"
proof -
  let ?es = "purchase 1 0 demo_rq 100 ''h1'' (fst demo_receipts) ''h2'' (snd demo_receipts)"
  let ?L = "demo_lib demo_x402 (JObj [(''commitment'', JStr ''5''), (''limit'', JNum 8)])"
  have posts: "\<forall>i now rq. Post i now rq \<in> set ?es \<longrightarrow>
      (\<exists>secret token raw hx ha ch. decide_pay ?L (en_offer demo_engine) secret token raw hx ha now = Engine rq ch)"
  proof -
    have "\<exists>secret token raw hx ha ch. decide_pay ?L (en_offer demo_engine) secret token raw hx ha 0 = Engine demo_rq ch"
      by (intro exI) (rule demo_decision)
    then show ?thesis by (auto simp: purchase_def)
  qed
  have "(''h2'', SentInsert ''5'' 8) \<in> set (sent (run demo_engine ?es first_boot))"
    using purchase_completes [OF demo_setup(1) demo_purchase(1) demo_setup(3,6,7) demo_rq_ok(1-4) demo_purchase(2-4) demo_setup(11-13)]
      demo_setup(9,10) by auto
  from served_inserts_are_paid [OF posts this] show ?thesis by blast
qed

section \<open>The label set is closed\<close>

definition ENGINE_REASONS :: "string list" where
  "ENGINE_REASONS = [''bad-commitment'', ''unknown-limit'', ''nonce-used'', ''in-progress'', ''insert-failed'', ''busy'', ''not-yet-valid'', ''expired'',
     ''bad-signature'', ''rpc-error'', ''insufficient_funds'', ''already-member'', ''settle-failed'']"

fun outcome_ok :: "outcome \<Rightarrow> bool" where
  "outcome_ok (Inl (st, r)) = (st \<in> {400, 402, 409, 502, 503} \<and> r \<in> set ENGINE_REASONS)"
| "outcome_ok (Inr _) = True"

definition answers_ok :: "registrar \<Rightarrow> bool" where
  "answers_ok s \<longleftrightarrow> list_all (\<lambda>e. outcome_ok (snd e)) (answers s)"

named_theorems answers_simps

lemma answers_fields [answers_simps]:
  "answers (change ob f s) = answers s" "answers (persist s) = answers s" "answers (put ob s) = answers s" "answers (goto i p s) = answers s"
  "answers (enter_tx i k w ob s) = answers s" "answers (leave_tx s) = answers s" "answers (busy_key x s) = answers s" "answers (free_key x s) = answers s"
  "answers (confirm h s) = answers s" "answers (answer i out s) = answers s @ [(i, out)]" "answers (load_store s) = answers s"
  by (simp_all add: change_def persist_def put_def goto_def enter_tx_def leave_tx_def busy_key_def free_key_def confirm_def answer_def load_store_def Let_def)

lemma answers_recover [answers_simps]: "answers (recover_next i obs s) = answers s"
  by (induction obs) (auto simp: Let_def answers_simps split: option.splits)

lemma answers_ok_cong: "answers s' = answers s \<Longrightarrow> answers_ok s' = answers_ok s"
  by (simp add: answers_ok_def)

lemma answers_ok_frame [answers_simps]:
  "answers_ok (change ob f s) = answers_ok s" "answers_ok (put ob s) = answers_ok s" "answers_ok (goto i p s) = answers_ok s"
  "answers_ok (enter_tx i k w ob s) = answers_ok s" "answers_ok (leave_tx s) = answers_ok s" "answers_ok (busy_key x s) = answers_ok s"
  "answers_ok (free_key x s) = answers_ok s" "answers_ok (confirm h s) = answers_ok s" "answers_ok (recover_next i obs s) = answers_ok s"
  by (rule answers_ok_cong, simp add: answers_simps)+

lemma answers_ok_answer [answers_simps]:
  "answers_ok (answer i (Inr x) s) = answers_ok s"
  "answers_ok (answer i (Inl (st, r)) s) = (answers_ok s \<and> st \<in> {400, 402, 409, 502, 503} \<and> r \<in> set ENGINE_REASONS)"
  by (simp_all add: answers_ok_def answers_simps)

lemma reasons_member [answers_simps]:
  "''bad-commitment'' \<in> set ENGINE_REASONS" "''unknown-limit'' \<in> set ENGINE_REASONS" "''nonce-used'' \<in> set ENGINE_REASONS"
  "''in-progress'' \<in> set ENGINE_REASONS" "''insert-failed'' \<in> set ENGINE_REASONS" "''busy'' \<in> set ENGINE_REASONS"
  "''not-yet-valid'' \<in> set ENGINE_REASONS" "''expired'' \<in> set ENGINE_REASONS" "''bad-signature'' \<in> set ENGINE_REASONS"
  "''rpc-error'' \<in> set ENGINE_REASONS" "''insufficient_funds'' \<in> set ENGINE_REASONS" "''already-member'' \<in> set ENGINE_REASONS"
  "''settle-failed'' \<in> set ENGINE_REASONS"
  by (simp_all add: ENGINE_REASONS_def)

lemma ok_refuse [answers_simps]: "answers_ok (refuse i st r s) = (answers_ok s \<and> st \<in> {400, 402, 409, 502, 503} \<and> r \<in> set ENGINE_REASONS)"
  by (simp only: refuse_def answers_ok_answer)

lemma ok_insert [answers_simps]:
  "answers_ok (insert_ok C i w ob s) = answers_ok s" "answers_ok (insert_failed C i w ob e t s) = answers_ok s"
  "answers_ok (settle_failed C i rq ob e t s) = answers_ok s"
proof -
  show "answers_ok (insert_ok C i w ob s) = answers_ok s" by (cases w) (simp_all add: insert_ok_def answers_simps)
  show "answers_ok (insert_failed C i w ob e t s) = answers_ok s" by (cases w) (simp_all add: insert_failed_def answers_simps)
  show "answers_ok (settle_failed C i rq ob e t s) = answers_ok s" by (simp add: settle_failed_def answers_simps)
qed

lemma ok_tx_failed [answers_simps]: "answers_ok (tx_failed C i k w ob e t s) = answers_ok s"
  by (cases k; cases w) (simp_all add: tx_failed_def answers_simps)

lemma ok_verify [answers_simps]: "answers_ok (verify C now i rq ex s) = answers_ok s"
  by (auto simp: verify_def verify_offline_def Let_def answers_simps split: option.splits if_splits)

lemma ok_existing [answers_simps]: "answers_ok (after_existing C now i rq ob s) = answers_ok s"
  by (simp add: after_existing_def answers_simps)

lemma ok_reconcile [answers_simps]: "answers_ok (after_reconcile C now i w ob s) = answers_ok s"
  by (cases w) (simp_all add: after_reconcile_def Let_def answers_simps)

lemma ok_start [answers_simps]: "answers_ok (start_request C now i rq s) = answers_ok s"
  by (simp add: start_request_def Let_def answers_simps split: option.splits)

lemma ok_begin [answers_simps]: "answers_ok (begin_settle C i rq ex s) = answers_ok s"
  by (cases ex) (simp_all add: begin_settle_def Let_def answers_simps, rule answers_ok_cong, simp)

lemma ok_reads [answers_simps]: "answers_ok (got_reads C i rq ex r s) = answers_ok s"
  by (auto simp: got_reads_def answers_simps split: sum.splits)

lemma ok_throw [answers_simps]: "answers_ok (finish_throw C i rec w ob e s) = answers_ok s"
  by (cases w) (simp_all add: finish_throw_def answers_simps)

lemma ok_complete [answers_simps]: "answers_ok (complete_insert C now i rec w ob j root s) = answers_ok s"
  by (simp add: complete_insert_def Let_def answers_simps)

lemma ok_finish [answers_simps]: "answers_ok (finishInsert C now i rec w ob ro s) = answers_ok s"
  by (auto simp: finishInsert_def answers_simps split: option.splits)

lemma ok_counts [answers_simps]: "answers_ok (got_counts C now i rec w ob cnt root s) = answers_ok s"
  by (auto simp: got_counts_def answers_simps split: sum.splits)

lemma ok_receipt [answers_simps]: "answers_ok (got_receipt C now i k w ob h r d s) = answers_ok s"
  by (auto simp: got_receipt_def answers_simps split: sum.splits option.splits)

lemma ok_limit [answers_simps]: "answers_ok (got_limit C i w ob r s) = answers_ok s" "answers_ok (got_root C i w ob r' s) = answers_ok s"
  by (auto simp: got_limit_def got_root_def answers_simps split: sum.splits)

lemma ok_waited [answers_simps]: "answers_ok (waited C now i k w ob h out s) = answers_ok s"
  by (auto simp: waited_def answers_simps split: wait_outcome.splits option.splits)

lemma ok_step: "answers_ok s \<Longrightarrow> answers_ok (step C e s)"
  by (cases e) (auto simp: answers_simps Let_def split: option.splits pc.splits sum.splits intro: answers_ok_cong [THEN iffD2, rotated])

lemma ok_run: "answers_ok s \<Longrightarrow> answers_ok (run C es s)"
  unfolding run_def by (induction es arbitrary: s) (simp_all add: ok_step)

definition WIRE_REASONS :: "string list" where
  "WIRE_REASONS = [''invalid_payment_payload'', ''invalid_x402_version'', ''invalid_payment_requirements'', ''invalid_scheme'', ''invalid_network'',
     ''invalid_exact_evm_payload_asset'', ''invalid_exact_evm_payload_recipient_mismatch'',
     ''invalid_exact_evm_payload_authorization_value_mismatch'', ''invalid_exact_evm_payload_authorization'', ''invalid_exact_evm_payload_signature'',
     ''malformed-credential'', ''method-unsupported'', ''invalid-challenge'', ''payment-expired'', ''verification-failed'']"

lemma x402_reasons: "parseX402Payment L h F = Inl e \<Longrightarrow> e \<in> set WIRE_REASONS"
  unfolding parseX402Payment_def x402_payload_def Let_def
  by (simp add: WIRE_REASONS_def split: option.splits if_splits; elim disjE; simp)

lemma mpp_reasons: "parseMppCredential L h secret F bd now = Inl (e, d) \<Longrightarrow> e \<in> set WIRE_REASONS"
proof -
  have c: "mpp_challenge_check L secret F bd now ch = Inl (e, d) \<Longrightarrow> e \<in> set WIRE_REASONS" for ch
    by (auto simp: mpp_challenge_check_def WIRE_REASONS_def split: option.splits if_splits)
  have p: "mpp_payload_check L cred ch req limit = Inl (e, d) \<Longrightarrow> e \<in> set WIRE_REASONS" for cred ch req limit
    by (auto simp: mpp_payload_check_def Let_def WIRE_REASONS_def split: option.splits if_splits)
  have m: "''malformed-credential'' \<in> set WIRE_REASONS" "''invalid-challenge'' \<in> set WIRE_REASONS" by (simp_all add: WIRE_REASONS_def)
  assume "parseMppCredential L h secret F bd now = Inl (e, d)"
  then show ?thesis using c p m by (auto simp: parseMppCredential_def Let_def split: option.splits if_splits sum.splits)
qed

definition known_reasons :: "string list" where
  "known_reasons = filter (\<lambda>r. r \<noteq> ''other'') PAYMENT_REASONS"

lemma reasons_known:
  "set WIRE_REASONS \<subseteq> set known_reasons" "set ENGINE_REASONS \<subseteq> set known_reasons"
  "set [''payment-required'', ''body-too-large'', ''bad-json'', ''bad-body'', ''unknown-limit'', ''rate-limited'', ''credential-too-large'',
     ''protocol-disabled'', ''limit-mismatch''] \<subseteq> set known_reasons"
  by code_simp+

lemma labels_known:
  assumes "r \<in> set known_reasons" "p \<in> set PAYMENT_PROTOCOLS" "res \<in> {''challenged'', ''rejected'', ''failed''}"
  shows "paymentMetricLabels p res (Some r) = \<lparr>pl_protocol = p, pl_result = res, pl_reason = Some r\<rparr>"
proof -
  have "res \<in> set PAYMENT_RESULTS" "res \<noteq> ''inserted''" "res \<noteq> ''replayed''" using assms(3) by (auto simp: PAYMENT_RESULTS_def)
  moreover have "r \<in> set PAYMENT_REASONS" using assms(1) by (simp add: known_reasons_def)
  ultimately show ?thesis using assms(2) by (simp add: paymentMetricLabels_def)
qed

definition label_ok :: "pay_labels \<Rightarrow> bool" where
  "label_ok l \<longleftrightarrow> pl_protocol l \<in> set PAYMENT_PROTOCOLS \<and> pl_result l \<in> {''challenged'', ''rejected'', ''failed''}
     \<and> (\<exists>r \<in> set known_reasons. pl_reason l = Some r)"

lemma label_ok_rejected: "r \<in> set known_reasons \<Longrightarrow> p \<in> set PAYMENT_PROTOCOLS \<Longrightarrow> label_ok (rejected p r)"
  by (simp add: rejected_def labels_known label_ok_def)

lemma protocols_known: "''unknown'' \<in> set PAYMENT_PROTOCOLS" "''x402'' \<in> set PAYMENT_PROTOCOLS" "''mpp'' \<in> set PAYMENT_PROTOCOLS"
  by (simp_all add: PAYMENT_PROTOCOLS_def)

lemma handler_known:
  "''payment-required'' \<in> set known_reasons" "''body-too-large'' \<in> set known_reasons" "''bad-json'' \<in> set known_reasons"
  "''bad-body'' \<in> set known_reasons" "''unknown-limit'' \<in> set known_reasons" "''rate-limited'' \<in> set known_reasons"
  "''credential-too-large'' \<in> set known_reasons" "''protocol-disabled'' \<in> set known_reasons" "''limit-mismatch'' \<in> set known_reasons"
  using reasons_known(3) by auto

lemma decide_labels: "decide_pay L F secret token raw hx ha now = Answer l rep \<Longrightarrow> label_ok l"
proof -
  have x: "decide_x402 L F body b limits h = Answer l rep \<Longrightarrow> label_ok l" for body b limits h
    using x402_reasons [of L h F] reasons_known(1) handler_known protocols_known
    by (auto simp: decide_x402_def split: if_splits sum.splits intro!: label_ok_rejected)
  have m: "decide_mpp L F secret r body b limits h now = Answer l rep \<Longrightarrow> label_ok l" for r body b limits h
    using mpp_reasons [of L h secret F "Some (contentDigest L r)" now] reasons_known(1) handler_known protocols_known
    by (auto simp: decide_mpp_def split: if_splits sum.splits prod.splits intro!: label_ok_rejected)
  have c: "label_ok (paymentMetricLabels ''unknown'' ''challenged'' (Some ''payment-required''))"
    using handler_known protocols_known by (simp add: labels_known label_ok_def)
  assume "decide_pay L F secret token raw hx ha now = Answer l rep"
  then show ?thesis unfolding decide_pay_def Let_def
    using x m c handler_known protocols_known by (auto split: option.splits if_splits intro!: label_ok_rejected)
qed

text \<open>
  The metric labels of \<open>POST /pay\<close> form a closed set that no request can extend, and no refusal
  is folded into \<open>other\<close>: every answer before the engine carries one of the listed reasons, and every
  outcome of the engine, over any run, is labelled with exactly its own reason, or with none when a
  leaf was inserted or replayed.
\<close>

theorem payment_labels_closed:
  "(decide_pay L F secret token raw hx ha now = Answer l rep \<longrightarrow> label_ok l)
   \<and> (protocol \<in> {''x402'', ''mpp''} \<and> (i, out) \<in> set (answers (run C es first_boot)) \<longrightarrow>
       (case out of
          Inl (st, r) \<Rightarrow> label_ok (fst (answer_outcome protocol limits out)) \<and> pl_reason (fst (answer_outcome protocol limits out)) = Some r
        | Inr (replayed, o1) \<Rightarrow> fst (answer_outcome protocol limits out)
            = \<lparr>pl_protocol = protocol, pl_result = (if replayed then ''replayed'' else ''inserted''), pl_reason = None\<rparr>))"
proof (intro conjI impI)
  show "decide_pay L F secret token raw hx ha now = Answer l rep \<Longrightarrow> label_ok l" by (rule decide_labels)
  assume a: "protocol \<in> {''x402'', ''mpp''} \<and> (i, out) \<in> set (answers (run C es first_boot))"
  then have p: "protocol \<in> set PAYMENT_PROTOCOLS" using protocols_known by blast
  have "answers_ok first_boot" by (simp add: answers_ok_def first_boot_def)
  then have "answers_ok (run C es first_boot)" by (rule ok_run)
  with a have ok: "outcome_ok out" unfolding answers_ok_def list_all_iff by force
  show "case out of
          Inl (st, r) \<Rightarrow> label_ok (fst (answer_outcome protocol limits out)) \<and> pl_reason (fst (answer_outcome protocol limits out)) = Some r
        | Inr (replayed, o1) \<Rightarrow> fst (answer_outcome protocol limits out)
            = \<lparr>pl_protocol = protocol, pl_result = (if replayed then ''replayed'' else ''inserted''), pl_reason = None\<rparr>"
  proof (cases out)
    case (Inl e)
    obtain st r where e: "e = (st, r)" by (cases e)
    then have "r \<in> set known_reasons" using ok Inl reasons_known(2) by auto
    with Inl e p show ?thesis by (simp add: answer_outcome_def labels_known label_ok_def)
  next
    case (Inr e)
    then show ?thesis using p by (cases e) (simp add: answer_outcome_def paymentMetricLabels_def PAYMENT_RESULTS_def)
  qed
qed

theorem payment_labels_closed_witness:
  "decide_pay (demo_lib demo_x402 JNull) (en_offer demo_engine) [] False (Some []) (Some ''YQ'') None 0 = Answer (rejected ''unknown'' ''rate-limited'') (Reply 429 ''rate-limited'')
   \<and> label_ok (rejected ''unknown'' ''rate-limited'')"
proof -
  have d: "decide_pay (demo_lib demo_x402 JNull) (en_offer demo_engine) [] False (Some []) (Some ''YQ'') None 0
      = Answer (rejected ''unknown'' ''rate-limited'') (Reply 429 ''rate-limited'')"
    by (simp add: decide_pay_def parse_body_def requested_limits_def present_def)
  with payment_labels_closed [of "demo_lib demo_x402 JNull" "en_offer demo_engine" "[]" False "Some []" "Some ''YQ''" None 0] show ?thesis by blast
qed

end
