(* ===== verification/Reputation.thy ===== *)
theory Reputation
  imports Directory
begin

text \<open>
  What the client remembers about gateways, from \<^verbatim>\<open>src/client/selection.mjs\<close>: the persisted
  health cache, the receipt tally with the weight it earns, and the smooth weighted round robin that
  picks the first gateway of a tunnel. Doubles are rationals with the rounding \<open>fl\<close> of
  \<open>float_env\<close>; \<open>jnum\<close> adds NaN and the infinities. A cache is the map of its file's
  \<open>entries\<close>; its entries are objects, as this module writes them. The file system is the
  record \<open>disk\<close>: what \<open>JSON.parse(readFileSync(p))\<close> gives, and which paths can be written.
\<close>

section \<open>Numbers with NaN and infinities\<close>

datatype jnum = NNaN | NInf bool | NFin rat  \<comment> \<open>\<open>NInf True\<close> is positive\<close>

definition nval :: "float_env \<Rightarrow> jsval \<Rightarrow> jnum" where  \<comment> \<open>\<open>Number(v)\<close> as a value\<close>
  "nval F v = (case js_number v of
     JNum n \<Rightarrow> NFin (of_int n)
   | JFloat s \<Rightarrow> if s = ''NaN'' then NNaN else if s = ''Infinity'' then NInf True
       else if s = ''-Infinity'' then NInf False else NFin (flt F s)
   | _ \<Rightarrow> NNaN)"

fun nadd :: "float_env \<Rightarrow> jnum \<Rightarrow> jnum \<Rightarrow> jnum" where
  "nadd F (NFin a) (NFin b) = NFin (fl F (a + b))"
| "nadd F (NInf s) (NFin b) = NInf s"
| "nadd F (NFin a) (NInf s) = NInf s"
| "nadd F (NInf s) (NInf t) = (if s = t then NInf s else NNaN)"
| "nadd F _ _ = NNaN"

fun nneg :: "jnum \<Rightarrow> jnum" where
  "nneg NNaN = NNaN"
| "nneg (NInf s) = NInf (\<not> s)"
| "nneg (NFin a) = NFin (- a)"

abbreviation nsub :: "float_env \<Rightarrow> jnum \<Rightarrow> jnum \<Rightarrow> jnum" where
  "nsub F a b \<equiv> nadd F a (nneg b)"

fun nmul :: "float_env \<Rightarrow> jnum \<Rightarrow> jnum \<Rightarrow> jnum" where
  "nmul F (NFin a) (NFin b) = NFin (fl F (a * b))"
| "nmul F (NInf s) (NFin b) = (if b = 0 then NNaN else NInf (s = (0 < b)))"
| "nmul F (NFin a) (NInf s) = (if a = 0 then NNaN else NInf (s = (0 < a)))"
| "nmul F (NInf s) (NInf t) = NInf (s = t)"
| "nmul F _ _ = NNaN"

fun ndiv :: "float_env \<Rightarrow> jnum \<Rightarrow> jnum \<Rightarrow> jnum" where
  "ndiv F (NFin a) (NFin b) =
     (if b = 0 then (if a = 0 then NNaN else NInf (0 < a)) else NFin (fl F (a / b)))"
| "ndiv F (NFin a) (NInf s) = NFin 0"
| "ndiv F (NInf s) (NFin b) = NInf (s = (0 \<le> b))"
| "ndiv F _ _ = NNaN"

fun nle :: "jnum \<Rightarrow> jnum \<Rightarrow> bool" where  \<comment> \<open>\<open>a <= b\<close>: false on NaN\<close>
  "nle (NFin a) (NFin b) = (a \<le> b)"
| "nle (NInf s) (NInf t) = (s \<le> t)"
| "nle (NInf s) (NFin b) = (\<not> s)"
| "nle (NFin a) (NInf t) = t"
| "nle _ _ = False"

definition nlt :: "jnum \<Rightarrow> jnum \<Rightarrow> bool" where
  "nlt a b \<longleftrightarrow> nle a b \<and> a \<noteq> b"

fun nmin :: "jnum \<Rightarrow> jnum \<Rightarrow> jnum" where
  "nmin a b = (if a = NNaN \<or> b = NNaN then NNaN else if nle a b then a else b)"

fun nmax :: "jnum \<Rightarrow> jnum \<Rightarrow> jnum" where
  "nmax a b = (if a = NNaN \<or> b = NNaN then NNaN else if nle a b then b else a)"

fun nround :: "jnum \<Rightarrow> jnum" where  \<comment> \<open>\<open>Math.round\<close>\<close>
  "nround (NFin a) = NFin (of_int \<lfloor>a + 1 / 2\<rfloor>)"
| "nround a = a"

fun num_js :: "(rat \<Rightarrow> string) \<Rightarrow> jnum \<Rightarrow> jsval" where  \<comment> \<open>the value of a number; \<open>dtoa\<close> prints a double\<close>
  "num_js dtoa NNaN = JFloat ''NaN''"
| "num_js dtoa (NInf s) = JFloat (if s then ''Infinity'' else ''-Infinity'')"
| "num_js dtoa (NFin q) = (if of_int \<lfloor>q\<rfloor> = q then JNum \<lfloor>q\<rfloor> else JFloat (dtoa q))"

definition clamp01 :: "jnum \<Rightarrow> rat" where
  "clamp01 x = (case x of NFin q \<Rightarrow> max 0 (min 1 q) | _ \<Rightarrow> 0)"

text \<open>\<open>v + 1\<close>: a string and the text of an object are appended to.\<close>

definition js_plus_one :: "float_env \<Rightarrow> (rat \<Rightarrow> string) \<Rightarrow> jsval \<Rightarrow> jsval" where
  "js_plus_one F dtoa v = (case v of
     JStr s \<Rightarrow> JStr (s @ ''1'') | JArr _ \<Rightarrow> JStr (js_string v @ ''1'') | JObj _ \<Rightarrow> JStr (js_string v @ ''1'')
   | _ \<Rightarrow> num_js dtoa (nadd F (nval F v) (NFin 1)))"

section \<open>Configuration\<close>

record rep_cfg =
  num :: float_env
  dtoa :: "rat \<Rightarrow> string"
  health_path :: "string option"
  health_max :: jnum
  health_decay :: jnum
  receipt_scoring :: bool
  receipt_path :: "string option"
  receipt_max :: jnum
  receipt_decay :: jnum
  receipt_alpha :: rat
  receipt_bonus :: jnum
  receipt_conf :: jnum
  rotation_spread :: bool

definition resolve_cache_path :: "string \<Rightarrow> string option \<Rightarrow> string option" where
  "resolve_cache_path dflt raw = (case raw of
     None \<Rightarrow> Some dflt
   | Some r \<Rightarrow> let v = js_trim r in if v = [] \<or> v = ''0'' \<or> js_lower v = ''off'' then None else Some v)"

definition resolveHealthCachePath :: "string \<Rightarrow> env \<Rightarrow> string option" where
  "resolveHealthCachePath here e = resolve_cache_path (here @ ''/../cache/gateway-health.json'') (e ''SHADE_TREE_HEALTH_CACHE'')"

definition resolveReceiptCachePath :: "string \<Rightarrow> env \<Rightarrow> string option" where
  "resolveReceiptCachePath here e = resolve_cache_path (here @ ''/../cache/gateway-receipts.json'') (e ''SHADE_TREE_RECEIPT_CACHE'')"

definition parseReceiptScoring :: "string option \<Rightarrow> bool" where
  "parseReceiptScoring raw = (case raw of None \<Rightarrow> False
     | Some r \<Rightarrow> js_lower (js_trim r) \<in> {''1'', ''on'', ''true'', ''yes''})"

definition parseRotationSpread :: "string option \<Rightarrow> bool" where
  "parseRotationSpread raw = (case raw of None \<Rightarrow> True
     | Some r \<Rightarrow> js_trim r = [] \<or> js_lower (js_trim r) \<notin> {''0'', ''off'', ''false'', ''no''})"

definition rep_config :: "float_env \<Rightarrow> (rat \<Rightarrow> string) \<Rightarrow> string \<Rightarrow> env \<Rightarrow> rep_cfg" where
  "rep_config F t here e =
     (let number = (\<lambda>k dflt. nval F (js_or (env_val e k) (JNum dflt)));
          number_set = (\<lambda>k dflt. case e k of None \<Rightarrow> NFin dflt | Some s \<Rightarrow> nval F (JStr s)) in
      \<lparr>num = F, dtoa = t,
       health_path = resolveHealthCachePath here e,
       health_max = nmax (NFin 1) (number ''SHADE_TREE_HEALTH_MAX'' 512),
       health_decay = number ''SHADE_TREE_HEALTH_DECAY_MS'' 1209600000,
       receipt_scoring = parseReceiptScoring (e ''SHADE_TREE_RECEIPT_SCORING''),
       receipt_path = resolveReceiptCachePath here e,
       receipt_max = nmax (NFin 1) (number ''SHADE_TREE_RECEIPT_MAX'' 512),
       receipt_decay = number ''SHADE_TREE_RECEIPT_DECAY_MS'' 1209600000,
       receipt_alpha = clamp01 (number_set ''SHADE_TREE_RECEIPT_ALPHA'' (3 / 10)),
       receipt_bonus = nmax (NFin 0) (number_set ''SHADE_TREE_RECEIPT_BONUS'' (1 / 2)),
       receipt_conf = nmax (NFin 1) (number ''SHADE_TREE_RECEIPT_CONFIDENCE_N'' 4),
       rotation_spread = parseRotationSpread (e ''SHADE_TREE_ROTATION_SPREAD'')\<rparr>)"

definition HEALTH_FAIL_THRESHOLD :: rat where "HEALTH_FAIL_THRESHOLD = 2"

section \<open>The caches\<close>

type_synonym cache = "(string, jsval) jmap"

record disk =
  files :: "string \<Rightarrow> jsval res"
  writable :: "string \<Rightarrow> bool"

definition loadHealthCache :: "disk \<Rightarrow> string option \<Rightarrow> jsval" where
  "loadHealthCache D path = (case path of
     None \<Rightarrow> JObj []
   | Some p \<Rightarrow> if p = [] then JObj [] else (case files D p of
       Inl _ \<Rightarrow> JObj []
     | Inr raw \<Rightarrow> if is_object raw then
           (if is_object (getp raw ''entries'') then getp raw ''entries''
            else if \<not> truthy (getp raw ''version'') then raw else JObj [])
         else JObj []))"

fun cache_of :: "jsval \<Rightarrow> cache" where
  "cache_of (JObj kvs) = kvs"
| "cache_of _ = []"

text \<open>\<open>cache[k]?.lastSeen || 0\<close> as the sort compares it; entries carry numbers there.\<close>

definition seen_key :: "float_env \<Rightarrow> cache \<Rightarrow> string \<Rightarrow> rat" where
  "seen_key F c k = (case map_of c k of None \<Rightarrow> 0
     | Some e \<Rightarrow> (case nval F (js_or (getp e ''lastSeen'') (JNum 0)) of NFin q \<Rightarrow> q | _ \<Rightarrow> 0))"

text \<open>\<open>keys.slice(0, keys.length - max)\<close>: the index is truncated, and 0 when it is NaN.\<close>

definition evict_count :: "nat \<Rightarrow> jnum \<Rightarrow> nat" where
  "evict_count n m = (case m of NFin q \<Rightarrow> nat \<lfloor>of_nat n - q\<rfloor> | _ \<Rightarrow> 0)"

definition boundHealthCache :: "float_env \<Rightarrow> jnum \<Rightarrow> cache \<Rightarrow> cache" where
  "boundHealthCache F m c =
     (let keys = map fst c in
      if nle (NFin (of_nat (length keys))) m then c
      else fold AList.delete (take (evict_count (length keys) m) (sort_key (seen_key F c) keys)) c)"

definition save_cache :: "float_env \<Rightarrow> jnum \<Rightarrow> string option \<Rightarrow> cache \<Rightarrow> disk \<Rightarrow> bool \<times> cache \<times> disk" where
  "save_cache F m path c D = (case path of
     None \<Rightarrow> (False, c, D)
   | Some p \<Rightarrow> if p = [] then (False, c, D)
       else let c' = boundHealthCache F m c in
         if writable D p then (True, c', D\<lparr>files := (files D)(p := Inr (JObj [(''version'', JNum 1), (''entries'', JObj c')]))\<rparr>)
         else (False, c', D))"

definition saveHealthCache :: "rep_cfg \<Rightarrow> cache \<Rightarrow> disk \<Rightarrow> bool \<times> cache \<times> disk" where
  "saveHealthCache C = save_cache (num C) (health_max C) (health_path C)"

definition loadReceiptCache :: "disk \<Rightarrow> string option \<Rightarrow> jsval" where
  "loadReceiptCache = loadHealthCache"

definition saveReceiptCache :: "rep_cfg \<Rightarrow> cache \<Rightarrow> disk \<Rightarrow> bool \<times> cache \<times> disk" where
  "saveReceiptCache C = save_cache (num C) (receipt_max C) (receipt_path C)"

definition gw_key :: "jsval \<Rightarrow> string" where  \<comment> \<open>\<open>g.onion\<close> as a property name\<close>
  "gw_key g = js_string (getp g ''onion'')"

definition seed_entry :: "rep_cfg \<Rightarrow> int \<Rightarrow> jsval \<Rightarrow> cache \<Rightarrow> jsval \<times> cache" where
  "seed_entry C now g c = (case map_of c (gw_key g) of
     None \<Rightarrow> (g, c)
   | Some e \<Rightarrow>
       if \<not> truthy e then (g, c)
       else if typeof (getp e ''lastSeen'') = ''number'' \<and> nle (health_decay C) (nsub (num C) (NFin (of_int now)) (nval (num C) (getp e ''lastSeen'')))
       then (g, AList.delete (gw_key g) c)
       else let fails = js_or (js_number (getp e ''fails'')) (JNum 0); n = nval (num C) fails;
                g1 = (if nlt (NFin 0) n then setp g ''_fails'' fails else g);
                g2 = (if nle (NFin HEALTH_FAIL_THRESHOLD) n then setp g1 ''health'' (JStr ''down'') else g1) in
            (if typeof (getp e ''latencyMs'') = ''number'' then setp g2 ''_latencyMs'' (getp e ''latencyMs'') else g2, c))"

fun seed_loop :: "rep_cfg \<Rightarrow> int \<Rightarrow> jsval list \<Rightarrow> cache \<Rightarrow> jsval list \<times> cache" where
  "seed_loop C now [] c = ([], c)"
| "seed_loop C now (g # gs) c = (let (g', c1) = seed_entry C now g c; (gs', c2) = seed_loop C now gs c1 in (g' # gs', c2))"

definition seedHealthFromCache :: "rep_cfg \<Rightarrow> jsval \<Rightarrow> cache \<Rightarrow> int \<Rightarrow> jsval \<times> cache" where
  "seedHealthFromCache C dir c now = (case getp dir ''gateways'' of
     JArr gs \<Rightarrow> let (gs', c') = seed_loop C now gs c in (setp dir ''gateways'' (JArr gs'), c')
   | _ \<Rightarrow> (dir, c))"

definition fold_result :: "rep_cfg \<Rightarrow> int \<Rightarrow> bool option \<Rightarrow> jsval \<Rightarrow> jsval \<Rightarrow> jsval" where
  "fold_result C now ok latencyMs e0 =
     (let e1 = (case ok of
         Some False \<Rightarrow> setp (setp e0 ''fails'' (js_plus_one (num C) (dtoa C) (js_or (getp e0 ''fails'') (JNum 0)))) ''lastFail'' (JNum now)
       | Some True \<Rightarrow>
           let e = setp e0 ''fails'' (JNum 0); old = getp e0 ''latencyMs''; F = num C in
           if typeof latencyMs \<noteq> ''number'' then e
           else setp e ''latencyMs'' (if nullish old then latencyMs
             else num_js (dtoa C) (nround (nadd F (nmul F (NFin (7 / 10)) (nval F old)) (nmul F (NFin (3 / 10)) (nval F latencyMs)))))
       | None \<Rightarrow> e0)
      in setp e1 ''lastSeen'' (JNum now))"

definition fresh_health :: jsval where
  "fresh_health = JObj [(''fails'', JNum 0), (''lastFail'', JNum 0), (''latencyMs'', JNull), (''lastSeen'', JNum 0)]"

definition cached_or :: "cache \<Rightarrow> string \<Rightarrow> jsval \<Rightarrow> jsval" where
  "cached_or c k d = (case map_of c k of Some e \<Rightarrow> if truthy e then e else d | None \<Rightarrow> d)"

definition updateHealthCache :: "rep_cfg \<Rightarrow> jsval list \<Rightarrow> string \<Rightarrow> bool option \<Rightarrow> jsval \<Rightarrow> int \<Rightarrow> cache \<Rightarrow> disk \<Rightarrow> cache \<times> disk" where
  "updateHealthCache C gateways onion ok latencyMs now c D =
     (if health_path C = None \<or> \<not> list_ex (\<lambda>x. getp x ''onion'' = JStr onion) gateways then (c, D)
      else snd (saveHealthCache C (AList.update onion (fold_result C now ok latencyMs (cached_or c onion fresh_health)) c) D))"

section \<open>The receipt tally\<close>

text \<open>\<open>now - (e.lastSeen || 0) >= RECEIPT_DECAY_MS\<close>\<close>

definition tally_decayed :: "rep_cfg \<Rightarrow> int \<Rightarrow> jsval \<Rightarrow> bool" where
  "tally_decayed C now e \<longleftrightarrow>
     nle (receipt_decay C) (nsub (num C) (NFin (of_int now)) (nval (num C) (js_or (getp e ''lastSeen'') (JNum 0))))"

definition tally_samples :: "float_env \<Rightarrow> jsval \<Rightarrow> jnum" where  \<comment> \<open>\<open>e.samples || 0\<close>\<close>
  "tally_samples F e = nval F (js_or (getp e ''samples'') (JNum 0))"

definition receiptFactor :: "rep_cfg \<Rightarrow> cache \<Rightarrow> string \<Rightarrow> int \<Rightarrow> jnum" where
  "receiptFactor C c onion now = (case map_of c onion of
     None \<Rightarrow> NFin 1
   | Some e \<Rightarrow>
       if \<not> truthy e \<or> tally_decayed C now e then NFin 1
       else let F = num C; confidence = nmin (NFin 1) (ndiv F (tally_samples F e) (receipt_conf C));
                centered = nsub F (nmul F (NFin 2) (NFin (clamp01 (nval F (getp e ''score''))))) (NFin 1) in
            nadd F (NFin 1) (nmul F (nmul F (receipt_bonus C) centered) confidence))"

definition receipt_weight :: "rep_cfg \<Rightarrow> jnum \<Rightarrow> jsval \<Rightarrow> jsval" where
  "receipt_weight C f g = (let w = nval (num C) (getp g ''weight''); base = (case w of NFin _ \<Rightarrow> w | _ \<Rightarrow> NFin 1) in
     setp g ''weight'' (num_js (dtoa C) (nmax (NFin 0) (nmul (num C) base f))))"

definition applyReceiptWeights :: "rep_cfg \<Rightarrow> cache \<Rightarrow> int \<Rightarrow> jsval list \<Rightarrow> jsval list" where
  "applyReceiptWeights C c now gateways =
     (if \<not> receipt_scoring C then gateways
      else map (\<lambda>g. let f = receiptFactor C c (gw_key g) now in if f = NFin 1 then g else receipt_weight C f g) gateways)"

definition full_onion :: "string \<Rightarrow> string" where
  "full_onion onion = (if ends_with onion ''.onion'' then onion else onion @ ''.onion'')"

definition fold_receipt :: "rep_cfg \<Rightarrow> int \<Rightarrow> bool \<Rightarrow> jsval option \<Rightarrow> jsval" where
  "fold_receipt C now valid old =
     (let signal = (if valid then 1 else 0); F = num C;
          fresh = JObj [(''score'', JNum (if valid then 1 else 0)), (''samples'', JNum 0), (''lastSeen'', JNum 0)];
          e = (case old of None \<Rightarrow> fresh | Some o' \<Rightarrow> if \<not> truthy o' \<or> tally_decayed C now o' then fresh else o');
          score = nadd F (nmul F (NFin (receipt_alpha C)) (NFin signal))
            (nmul F (NFin (fl F (1 - receipt_alpha C))) (NFin (clamp01 (nval F (getp e ''score''))))) in
      setp (setp (setp e ''score'' (num_js (dtoa C) score))
        ''samples'' (num_js (dtoa C) (nmin (receipt_conf C) (nadd F (tally_samples F e) (NFin 1)))))
        ''lastSeen'' (JNum now))"

definition reportReceipt :: "rep_cfg \<Rightarrow> jsval list option \<Rightarrow> string \<Rightarrow> bool \<Rightarrow> int \<Rightarrow> cache \<Rightarrow> disk \<Rightarrow> cache \<times> disk" where
  "reportReceipt C loaded onion valid now c D =
     (if \<not> receipt_scoring C then (c, D)
      else case loaded of
        None \<Rightarrow> (c, D)
      | Some gateways \<Rightarrow>
          let full = full_onion onion in
          if \<not> list_ex (\<lambda>x. getp x ''onion'' = JStr full) gateways then (c, D)
          else snd (saveReceiptCache C (AList.update full (fold_receipt C now valid (map_of c full)) c) D))"

section \<open>Smooth weighted round robin\<close>

type_synonym swrr = "(jsval, rat) jmap"  \<comment> \<open>the deficit of each onion\<close>

definition effWeight :: "float_env \<Rightarrow> jsval \<Rightarrow> rat" where
  "effWeight F g = (case nval F (getp g ''weight'') of NFin w \<Rightarrow> max 0 (min MAX_WEIGHT w) | _ \<Rightarrow> 1)"

fun swrr_loop :: "float_env \<Rightarrow> (nat \<Rightarrow> rat) \<Rightarrow> jsval list \<Rightarrow> nat \<Rightarrow> swrr \<Rightarrow> (jsval \<times> rat) option \<Rightarrow> (jsval \<times> rat) option \<times> swrr \<times> nat" where
  "swrr_loop F rng [] k m best = (best, m, k)"
| "swrr_loop F rng (g # gs) k m best =
     (let w = effWeight F g; onion = getp g ''onion'';
          (cur0, k1) = (case map_of m onion of Some d \<Rightarrow> (d, k) | None \<Rightarrow> (fl F (rng k * w), Suc k));
          cur = fl F (cur0 + w);
          best' = (case best of Some (b, bc) \<Rightarrow> if cur > bc then Some (g, cur) else best | None \<Rightarrow> Some (g, cur))
      in swrr_loop F rng gs k1 (AList.update onion cur m) best')"

definition pool_total :: "float_env \<Rightarrow> jsval list \<Rightarrow> rat" where
  "pool_total F pool = foldl (\<lambda>s g. fl F (s + effWeight F g)) 0 pool"

text \<open>The winner, the deficits and the number of draws consumed; no winner is \<open>undefined\<close>.\<close>

definition swrrPick :: "float_env \<Rightarrow> (nat \<Rightarrow> rat) \<Rightarrow> jsval list \<Rightarrow> nat \<Rightarrow> swrr \<Rightarrow> jsval option \<times> swrr \<times> nat" where
  "swrrPick F rng pool k m =
     (let total = pool_total F pool in
      if total \<le> 0 then
        (let i = \<lfloor>fl F (rng k * of_nat (length pool))\<rfloor> in (if 0 \<le> i \<and> i < int (length pool) then Some (pool ! nat i) else None, m, Suc k))
      else case swrr_loop F rng pool k m None of
        (Some (b, _), m1, k1) \<Rightarrow>
          (Some b, (case map_of m1 (getp b ''onion'') of Some d \<Rightarrow> AList.update (getp b ''onion'') (fl F (d - total)) m1 | None \<Rightarrow> m1), k1)
      | (None, m1, k1) \<Rightarrow> (None, m1, k1))"

definition spread_pool :: "float_env \<Rightarrow> jsval list \<Rightarrow> jsval list" where
  "spread_pool F all =
     (let healthy = filter (\<lambda>g. getp g ''health'' \<noteq> JStr ''down'') all;
          pool = (if healthy \<noteq> [] then healthy else all);
          positive = filter (\<lambda>g. effWeight F g > 0) pool
      in if positive \<noteq> [] then positive else pool)"

definition prune_swrr :: "jsval list \<Rightarrow> swrr \<Rightarrow> swrr" where
  "prune_swrr all m = filter (\<lambda>(k, _). k \<in> (\<lambda>g. getp g ''onion'') ` set all) m"

text \<open>\<open>first.onion\<close> of an \<open>undefined\<close> winner is the \<open>TypeError\<close>.\<close>

definition spreadSelectionOrder :: "float_env \<Rightarrow> (nat \<Rightarrow> rat) \<Rightarrow> jsval \<Rightarrow> swrr \<Rightarrow> jsval list res \<times> swrr" where
  "spreadSelectionOrder F rng view m =
     (let all = gateway_list view; pool = spread_pool F all in
      if length pool < 2 then (Inr (selectionOrder F rng view), m)
      else case swrrPick F rng pool 0 (prune_swrr all m) of
        (Some first, m', k) \<Rightarrow>
          (Inr (first # selectionOrder F (\<lambda>i. rng (k + i))
             (setp view ''gateways'' (JArr (filter (\<lambda>g. getp g ''onion'' \<noteq> getp first ''onion'') all)))), m')
      | (None, m', k) \<Rightarrow> (Inl TypeError, m'))"

section \<open>Round robin keeps the weighted share\<close>

definition is_num :: "jsval \<Rightarrow> bool" where
  "is_num v \<longleftrightarrow> (\<exists>n. v = JNum n) \<or> (\<exists>s. v = JFloat s)"

lemma is_num_intros:
  "is_num (JNum n)" "is_num (JFloat s)" "is_num x \<Longrightarrow> is_num y \<Longrightarrow> is_num (if b then x else y)"
  "(\<And>a b. is_num (f a b)) \<Longrightarrow> is_num (case p of (a, b) \<Rightarrow> f a b)"
  "(\<And>a. is_num (h a)) \<Longrightarrow> is_num z \<Longrightarrow> is_num (case r of Some a \<Rightarrow> h a | None \<Rightarrow> z)"
  by (simp_all add: is_num_def split: prod.split option.split)

lemma is_num_decimal: "is_num (decimal_num r b m n)"
  unfolding decimal_num_def Let_def by (intro is_num_intros)

lemma is_num_str: "is_num (js_number_str s)"
  unfolding js_number_str_def Let_def by (intro is_num_intros is_num_decimal)

lemma js_number_range: "is_num (js_number v)"
  by (cases v) (simp_all add: is_num_intros is_num_str)

lemma effWeight_clampWeight: "effWeight F g = clampWeight F g"
  using js_number_range [of "getp g ''weight''"] by (auto simp: effWeight_def clampWeight_def nval_def is_num_def)

lemma effWeight_range: "0 \<le> effWeight F g" "effWeight F g \<le> MAX_WEIGHT"
  by (auto simp: effWeight_def MAX_WEIGHT_def split: jnum.split)

abbreviation gw_onion :: "jsval \<Rightarrow> jsval" where
  "gw_onion g \<equiv> getp g ''onion''"

definition exact :: "float_env \<Rightarrow> bool" where  \<comment> \<open>no rounding\<close>
  "exact F \<longleftrightarrow> (\<forall>x. fl F x = x)"

definition draws01 :: "(nat \<Rightarrow> rat) \<Rightarrow> bool" where
  "draws01 rng \<longleftrightarrow> (\<forall>k. 0 \<le> rng k \<and> rng k < 1)"

text \<open>The deficits \<open>d\<close> that a map stands for before a round: stored, or a jitter below the weight.\<close>

definition start1 :: "float_env \<Rightarrow> swrr \<Rightarrow> jsval \<Rightarrow> rat \<Rightarrow> bool" where
  "start1 F m g c \<longleftrightarrow> (case map_of m (gw_onion g) of Some x \<Rightarrow> c = x | None \<Rightarrow> 0 \<le> c \<and> c \<le> effWeight F g)"

definition starts :: "float_env \<Rightarrow> swrr \<Rightarrow> jsval list \<Rightarrow> (jsval \<Rightarrow> rat) \<Rightarrow> bool" where
  "starts F m gs d \<longleftrightarrow> (\<forall>g\<in>set gs. start1 F m g (d g))"

definition top_of :: "float_env \<Rightarrow> jsval list \<Rightarrow> (jsval \<Rightarrow> rat) \<Rightarrow> (jsval \<times> rat) option \<Rightarrow> (jsval \<times> rat) option \<Rightarrow> bool" where
  "top_of F gs d best r \<longleftrightarrow> (\<exists>b bc. r = Some (b, bc) \<and> (best = r \<or> b \<in> set gs \<and> bc = d b + effWeight F b)
     \<and> (\<forall>g\<in>set gs. d g + effWeight F g \<le> bc) \<and> (\<forall>b' c'. best = Some (b', c') \<longrightarrow> c' \<le> bc))"

lemma jitter_range:
  assumes "draws01 rng"
  shows "0 \<le> rng k * effWeight F g" "rng k * effWeight F g \<le> effWeight F g"
  using assms effWeight_range(1) [of F g] mult_right_mono [of "rng k" 1 "effWeight F g"] by (auto simp: draws01_def less_imp_le)

lemma swrr_loop_spec:
  assumes "exact F" "draws01 rng" "distinct (map gw_onion gs)" "swrr_loop F rng gs k m best = (r, m', k')"
  shows "\<exists>d. starts F m gs d \<and> (\<forall>g\<in>set gs. map_of m' (gw_onion g) = Some (d g + effWeight F g))
    \<and> (\<forall>x. x \<notin> gw_onion ` set gs \<longrightarrow> map_of m' x = map_of m x)
    \<and> (if gs = [] then r = best else top_of F gs d best r)"
  using assms(3,4)
proof (induction gs arbitrary: k m best)
  case Nil
  then show ?case by (simp add: starts_def)
next
  case (Cons g gs)
  define c0 where "c0 = (case map_of m (gw_onion g) of Some x \<Rightarrow> x | None \<Rightarrow> rng k * effWeight F g)"
  define k1 where "k1 = (case map_of m (gw_onion g) of Some x \<Rightarrow> k | None \<Rightarrow> Suc k)"
  define c where "c = c0 + effWeight F g"
  define best' where "best' = (case best of Some (b, bc) \<Rightarrow> if c > bc then Some (g, c) else best | None \<Rightarrow> Some (g, c))"
  have "swrr_loop F rng gs k1 (AList.update (gw_onion g) c m) best' = (r, m', k')"
    using Cons.prems(2) assms(1)
    by (cases best; cases "map_of m (gw_onion g)") (auto simp: Let_def exact_def c_def c0_def k1_def best'_def)
  from Cons.IH [OF _ this] Cons.prems(1) obtain d where
    d: "starts F (AList.update (gw_onion g) c m) gs d" "\<forall>h\<in>set gs. map_of m' (gw_onion h) = Some (d h + effWeight F h)"
      "\<forall>x. x \<notin> gw_onion ` set gs \<longrightarrow> map_of m' x = map_of (AList.update (gw_onion g) c m) x"
      "if gs = [] then r = best' else top_of F gs d best' r" by auto
  have new: "g \<notin> set gs" "gw_onion g \<notin> gw_onion ` set gs" using Cons.prems(1) by auto
  let ?d = "d(g := c0)"
  have eq: "?d h = d h" if "h \<in> set gs" for h using that new by auto
  have neq: "gw_onion h \<noteq> gw_onion g" if "h \<in> set gs" for h
    using imageI [OF that, of gw_onion] new(2) by (intro notI) simp
  have "starts F m gs d" using d(1) neq by (simp add: starts_def start1_def)
  moreover have "start1 F m g c0"
    using jitter_range [OF assms(2)] by (simp add: start1_def c0_def split: option.split)
  ultimately have "starts F m (g # gs) ?d" using eq by (simp add: starts_def)
  moreover have "\<forall>h\<in>set (g # gs). map_of m' (gw_onion h) = Some (?d h + effWeight F h)"
    using d(2,3) new eq by (simp add: c_def)
  moreover have "\<forall>x. x \<notin> gw_onion ` set (g # gs) \<longrightarrow> map_of m' x = map_of m x" using d(3) by simp
  moreover have "top_of F (g # gs) ?d best r"
  proof (cases "gs = []")
    case True
    with d(4) show ?thesis by (auto simp: top_of_def best'_def c_def split: option.splits)
  next
    case False
    with d(4) obtain b bc where r: "r = Some (b, bc)" "best' = r \<or> b \<in> set gs \<and> bc = d b + effWeight F b"
      "\<forall>h\<in>set gs. d h + effWeight F h \<le> bc" "\<forall>b' c'. best' = Some (b', c') \<longrightarrow> c' \<le> bc" by (auto simp: top_of_def)
    from r(4) have "c \<le> bc" "\<forall>b' c'. best = Some (b', c') \<longrightarrow> c' \<le> bc"
      by (auto simp: best'_def split: option.splits if_split_asm)
    moreover from r(1,2) have "best = r \<or> b \<in> set (g # gs) \<and> bc = ?d b + effWeight F b"
      using new(1) by (auto simp: best'_def c_def split: option.splits if_split_asm)
    moreover have "\<forall>h\<in>set (g # gs). ?d h + effWeight F h \<le> bc"
      using r(3) eq calculation(1) by (simp add: c_def)
    ultimately show ?thesis unfolding top_of_def using r(1) by blast
  qed
  ultimately show ?case by auto
qed

definition total_weight :: "float_env \<Rightarrow> jsval list \<Rightarrow> rat" where
  "total_weight F pool = (\<Sum>g\<leftarrow>pool. effWeight F g)"

lemma pool_total_exact: "exact F \<Longrightarrow> pool_total F pool = total_weight F pool"
proof -
  assume "exact F"
  then have "foldl (\<lambda>s g. fl F (s + effWeight F g)) a pool = a + (\<Sum>g\<leftarrow>pool. effWeight F g)" for a
    by (induction pool arbitrary: a) (simp_all add: exact_def)
  then show ?thesis by (simp add: pool_total_def total_weight_def)
qed

text \<open>One pick: every deficit grows by its weight, and the largest pays the total.\<close>

lemma swrrPick_spec:
  assumes "exact F" "draws01 rng" "distinct (map gw_onion pool)" "0 < total_weight F pool"
  shows "\<exists>b d m' k'. swrrPick F rng pool k m = (Some b, m', k') \<and> b \<in> set pool \<and> starts F m pool d
    \<and> (\<forall>g\<in>set pool. d g + effWeight F g \<le> d b + effWeight F b)
    \<and> (\<forall>g\<in>set pool. map_of m' (gw_onion g) = Some (d g + effWeight F g - (if g = b then total_weight F pool else 0)))"
proof -
  obtain r m1 k1 where l: "swrr_loop F rng pool k m None = (r, m1, k1)" by (cases "swrr_loop F rng pool k m None") auto
  have ne: "pool \<noteq> []" using assms(4) by (auto simp: total_weight_def)
  from swrr_loop_spec [OF assms(1-3) l] ne obtain d where d: "starts F m pool d"
    "\<forall>g\<in>set pool. map_of m1 (gw_onion g) = Some (d g + effWeight F g)" "top_of F pool d None r" by auto
  then obtain b where b: "r = Some (b, d b + effWeight F b)" "b \<in> set pool" "\<forall>g\<in>set pool. d g + effWeight F g \<le> d b + effWeight F b"
    by (auto simp: top_of_def)
  let ?m = "AList.update (gw_onion b) (d b + effWeight F b - total_weight F pool) m1"
  have "swrrPick F rng pool k m = (Some b, ?m, k1)"
    using assms(1,4) l b d(2) by (simp add: swrrPick_def pool_total_exact exact_def)
  moreover have "gw_onion g = gw_onion b \<longleftrightarrow> g = b" if "g \<in> set pool" for g
    using assms(3) b(2) that by (auto simp: distinct_map inj_on_def)
  ultimately show ?thesis using b d(1,2) by (intro exI [of _ b] exI [of _ d] exI [of _ ?m] exI [of _ k1]) auto
qed

fun swrr_run :: "float_env \<Rightarrow> (nat \<Rightarrow> rat) \<Rightarrow> jsval list \<Rightarrow> nat \<Rightarrow> nat \<Rightarrow> swrr \<Rightarrow> jsval option list \<times> swrr" where
  "swrr_run F rng pool 0 k m = ([], m)"
| "swrr_run F rng pool (Suc n) k m = (case swrrPick F rng pool k m of (w, m1, k1) \<Rightarrow>
     case swrr_run F rng pool n k1 m1 of (ws, m2) \<Rightarrow> (w # ws, m2))"

text \<open>Deficits after a run, and how often each gateway won.\<close>

definition run_from :: "float_env \<Rightarrow> jsval list \<Rightarrow> (jsval \<Rightarrow> rat) \<Rightarrow> jsval option list \<Rightarrow> (jsval \<Rightarrow> rat) \<Rightarrow> bool" where
  "run_from F pool d ws e \<longleftrightarrow> (\<forall>g\<in>set pool.
     e g = d g + of_nat (length ws) * effWeight F g - of_nat (count_list ws (Some g)) * total_weight F pool)"

definition deficits_ok :: "float_env \<Rightarrow> jsval list \<Rightarrow> (jsval \<Rightarrow> rat) \<Rightarrow> bool" where
  "deficits_ok F pool d \<longleftrightarrow> (\<forall>g\<in>set pool. - total_weight F pool \<le> d g) \<and> 0 \<le> (\<Sum>g\<leftarrow>pool. d g) \<and> (\<Sum>g\<leftarrow>pool. d g) \<le> total_weight F pool"

lemma sum_one_changed:
  "distinct xs \<Longrightarrow> b \<in> set xs \<Longrightarrow> (\<Sum>g\<leftarrow>xs. f g - (if g = b then t else 0)) = (\<Sum>g\<leftarrow>xs. f g) - (t::rat)"
proof -
  have none: "b \<notin> set ys \<Longrightarrow> (\<Sum>g\<leftarrow>ys. if g = b then t else 0) = 0" for ys by (induction ys) auto
  have "distinct xs \<Longrightarrow> b \<in> set xs \<Longrightarrow> (\<Sum>g\<leftarrow>xs. if g = b then t else 0) = t" by (induction xs) (use none in auto)
  then show "distinct xs \<Longrightarrow> b \<in> set xs \<Longrightarrow> ?thesis" by (simp add: sum_list_subtractf)
qed

lemma sum_le_length: "(\<And>g. g \<in> set xs \<Longrightarrow> f g \<le> (c::rat)) \<Longrightarrow> (\<Sum>g\<leftarrow>xs. f g) \<le> of_nat (length xs) * c"
proof (induction xs)
  case (Cons x xs)
  then have "f x \<le> c" "(\<Sum>g\<leftarrow>xs. f g) \<le> of_nat (length xs) * c" by auto
  then show ?case by (simp add: algebra_simps)
qed simp

lemma pick_deficits:
  assumes "distinct pool" "b \<in> set pool" "deficits_ok F pool d" "0 < total_weight F pool"
    and "\<forall>g\<in>set pool. d g + effWeight F g \<le> d b + effWeight F b"
    and e: "\<forall>g\<in>set pool. e g = d g + effWeight F g - (if g = b then total_weight F pool else 0)"
  shows "deficits_ok F pool e"
proof -
  let ?T = "total_weight F pool" and ?f = "\<lambda>g. d g + effWeight F g"
  have sf: "(\<Sum>g\<leftarrow>pool. ?f g) = (\<Sum>g\<leftarrow>pool. d g) + ?T" by (simp add: sum_list_addf total_weight_def)
  have "map e pool = map (\<lambda>g. ?f g - (if g = b then ?T else 0)) pool" using e by simp
  then have s: "(\<Sum>g\<leftarrow>pool. e g) = (\<Sum>g\<leftarrow>pool. d g)" using sum_one_changed [OF assms(1,2), of ?f ?T] sf by (simp only: add_diff_cancel_right')
  have "(\<Sum>g\<leftarrow>pool. ?f g) \<le> of_nat (length pool) * ?f b" by (rule sum_le_length) (use assms(5) in simp)
  then have "0 < of_nat (length pool) * ?f b" using sf assms(3,4) by (simp add: deficits_ok_def)
  then have "0 < ?f b" by (simp add: zero_less_mult_iff)
  then have "- ?T \<le> e g" if "g \<in> set pool" for g
    using e that assms(3) effWeight_range(1) [of F g] by (cases "g = b") (auto simp: deficits_ok_def)
  with s assms(3) show ?thesis by (simp add: deficits_ok_def)
qed

lemma run_from_Cons:
  assumes "run_from F pool d' ws e" "\<forall>g\<in>set pool. d' g = d g + effWeight F g - (if g = b then total_weight F pool else 0)"
  shows "run_from F pool d (Some b # ws) e"
  unfolding run_from_def
proof
  fix g assume g: "g \<in> set pool"
  with assms have "e g = d' g + of_nat (length ws) * effWeight F g - of_nat (count_list ws (Some g)) * total_weight F pool"
    by (simp add: run_from_def)
  moreover have "d' g = d g + effWeight F g - (if g = b then total_weight F pool else 0)" using assms(2) g by blast
  ultimately show "e g = d g + of_nat (length (Some b # ws)) * effWeight F g - of_nat (count_list (Some b # ws) (Some g)) * total_weight F pool"
    by (cases "g = b") (simp_all add: algebra_simps)
qed

lemma swrr_run_spec:
  assumes "exact F" "draws01 rng" "distinct (map gw_onion pool)" "0 < total_weight F pool"
    and "swrr_run F rng pool n k m = (ws, m')"
  shows "\<exists>d e. starts F m pool d \<and> run_from F pool d ws e \<and> (deficits_ok F pool d \<longrightarrow> deficits_ok F pool e)
    \<and> length ws = n \<and> set ws \<subseteq> Some ` set pool"
  using assms(5)
proof (induction n arbitrary: k m ws)
  case 0
  have "start1 F m g (case map_of m (gw_onion g) of Some x \<Rightarrow> x | None \<Rightarrow> 0)" for g
    by (simp add: start1_def effWeight_range split: option.split)
  with 0 show ?case by (intro exI [of _ "\<lambda>g. case map_of m (gw_onion g) of Some x \<Rightarrow> x | None \<Rightarrow> 0"]) (simp add: starts_def run_from_def)
next
  case (Suc n)
  from swrrPick_spec [OF assms(1-4)] obtain b d m1 k1 where
    p: "swrrPick F rng pool k m = (Some b, m1, k1)" "b \<in> set pool" "starts F m pool d"
      "\<forall>g\<in>set pool. d g + effWeight F g \<le> d b + effWeight F b"
      "\<forall>g\<in>set pool. map_of m1 (gw_onion g) = Some (d g + effWeight F g - (if g = b then total_weight F pool else 0))" by blast
  obtain vs where r: "swrr_run F rng pool n k1 m1 = (vs, m')" "ws = Some b # vs"
    using Suc.prems p(1) by (auto split: prod.splits)
  from Suc.IH [OF r(1)] obtain d' e where
    i: "starts F m1 pool d'" "run_from F pool d' vs e" "deficits_ok F pool d' \<longrightarrow> deficits_ok F pool e" "length vs = n" "set vs \<subseteq> Some ` set pool" by blast
  have d': "\<forall>g\<in>set pool. d' g = d g + effWeight F g - (if g = b then total_weight F pool else 0)"
    using i(1) p(5) by (auto simp: starts_def start1_def)
  have "distinct pool" using assms(3) by (simp add: distinct_map)
  then have "deficits_ok F pool d \<Longrightarrow> deficits_ok F pool d'" using pick_deficits [OF _ p(2) _ assms(4) p(4) d'] by blast
  with i run_from_Cons [OF i(2) d'] p(2,3) r(2) show ?case by (intro exI [of _ d] exI [of _ e]) auto
qed

lemma start_deficits:
  assumes "starts F [] pool d"
  shows "deficits_ok F pool d" "g \<in> set pool \<Longrightarrow> 0 \<le> d g \<and> d g \<le> effWeight F g"
proof -
  show r: "g \<in> set pool \<Longrightarrow> 0 \<le> d g \<and> d g \<le> effWeight F g" for g using assms by (auto simp: starts_def start1_def)
  have "0 \<le> (\<Sum>g\<leftarrow>pool. d g)" by (rule sum_list_nonneg) (use r in auto)
  moreover have "(\<Sum>g\<leftarrow>pool. d g) \<le> total_weight F pool" unfolding total_weight_def by (rule sum_list_mono) (use r in auto)
  ultimately show "deficits_ok F pool d" using r by (force simp: deficits_ok_def)
qed

lemma deficit_upper:
  assumes "deficits_ok F pool e" "g \<in> set pool" "0 \<le> total_weight F pool"
  shows "e g \<le> of_nat (length pool) * total_weight F pool"
proof -
  let ?T = "total_weight F pool"
  from assms(2) obtain xs ys where p: "pool = xs @ g # ys" by (auto simp: in_set_conv_decomp)
  have low: "(\<Sum>h\<leftarrow>zs. - e h) \<le> of_nat (length zs) * ?T" if "set zs \<subseteq> set pool" for zs
    by (rule sum_le_length) (use that assms(1) in \<open>fastforce simp: deficits_ok_def\<close>)
  have part: "(\<Sum>h\<leftarrow>xs. - e h) + (\<Sum>h\<leftarrow>ys. - e h) \<le> of_nat (length xs + length ys) * ?T"
    using add_mono [OF low [of xs] low [of ys]] p by (simp add: distrib_right subset_iff)
  have neg: "(\<Sum>h\<leftarrow>zs. - e h) = - (\<Sum>h\<leftarrow>zs. e h)" for zs by (induction zs) simp_all
  have "e g = (\<Sum>h\<leftarrow>pool. e h) + (\<Sum>h\<leftarrow>xs. - e h) + (\<Sum>h\<leftarrow>ys. - e h)" by (simp add: p neg)
  moreover have "(\<Sum>h\<leftarrow>pool. e h) \<le> ?T" using assms(1) by (simp add: deficits_ok_def)
  moreover have "of_nat (length pool) * ?T = of_nat (length xs + length ys) * ?T + ?T" by (simp add: p algebra_simps)
  ultimately show ?thesis using part by linarith
qed

section \<open>The spread order\<close>

lemma swrr_loop_mem:
  "swrr_loop F rng gs k m best = (r, m', k') \<Longrightarrow>
     (gs \<noteq> [] \<or> best \<noteq> None \<longrightarrow> (\<exists>b c. r = Some (b, c) \<and> (b \<in> set gs \<or> best = r))) \<and> fst ` set m' \<subseteq> fst ` set m \<union> gw_onion ` set gs"
proof (induction gs arbitrary: k m best)
  case Nil
  then show ?case by auto
next
  case (Cons g gs)
  obtain k1 c best' where s: "swrr_loop F rng gs k1 (AList.update (gw_onion g) c m) best' = (r, m', k')"
    "best' = Some (g, c) \<or> best' = best \<and> best \<noteq> None"
    using Cons.prems by (cases "map_of m (gw_onion g)"; cases best) (auto simp: Let_def split: if_split_asm)
  from Cons.IH [OF s(1)] s(2) obtain b e where r: "r = Some (b, e)" "b \<in> set gs \<or> best' = r"
    and sub: "fst ` set m' \<subseteq> fst ` set (AList.update (gw_onion g) c m) \<union> gw_onion ` set gs" by auto
  from r s(2) have "b \<in> set (g # gs) \<or> best = r" by auto
  moreover have "fst ` set m' \<subseteq> fst ` set m \<union> gw_onion ` set (g # gs)" using sub by (auto simp: dom_update)
  ultimately show ?case using r(1) by blast
qed

lemma swrrPick_mem:
  assumes "draws_ok F rng" "pool \<noteq> []"
  shows "\<exists>b m' k'. swrrPick F rng pool k m = (Some b, m', k') \<and> b \<in> set pool \<and> fst ` set m' \<subseteq> fst ` set m \<union> gw_onion ` set pool"
proof (cases "pool_total F pool \<le> 0")
  case True
  let ?x = "fl F (rng k * of_nat (length pool))"
  have "0 \<le> ?x" "?x < of_nat (length pool)" using assms unfolding draws_ok_def by auto
  then have "0 \<le> \<lfloor>?x\<rfloor>" "\<lfloor>?x\<rfloor> < int (length pool)" by (simp_all add: floor_less_iff)
  with True show ?thesis by (auto simp: swrrPick_def Let_def nat_less_iff)
next
  case False
  obtain r m1 k1 where l: "swrr_loop F rng pool k m None = (r, m1, k1)" by (cases "swrr_loop F rng pool k m None") auto
  from swrr_loop_mem [OF l] assms(2) obtain b c where b: "r = Some (b, c)" "b \<in> set pool" "fst ` set m1 \<subseteq> fst ` set m \<union> gw_onion ` set pool" by auto
  have "fst ` set (AList.update (gw_onion b) d m1) \<subseteq> fst ` set m \<union> gw_onion ` set pool" for d
    using b(2,3) by (auto simp: dom_update)
  with False l b show ?thesis by (auto simp: swrrPick_def Let_def split: option.split)
qed

lemma selectionOrder_covers:
  assumes "draws_ok F rng"
  shows "set (selectionOrder F rng v) \<subseteq> set (gateway_list v)" "distinct (map gw_onion (selectionOrder F rng v))"
    "gw_onion ` set (selectionOrder F rng v) = gw_onion ` set (gateway_list v)"
    "selectionOrder F rng v = d # ys \<Longrightarrow> g \<in> set (gateway_list v) \<Longrightarrow> getp g ''health'' \<noteq> JStr ''down'' \<Longrightarrow> getp d ''health'' \<noteq> JStr ''down''"
proof -
  note P = selection_loop_props [of F rng "gateway_list v" 0 "[]"]
  show s: "set (selectionOrder F rng v) \<subseteq> set (gateway_list v)" "distinct (map gw_onion (selectionOrder F rng v))"
    using P by (auto simp: selectionOrder_def)
  show "gw_onion ` set (selectionOrder F rng v) = gw_onion ` set (gateway_list v)"
    using s(1) selection_loop_complete [OF assms, of _ "gateway_list v" "[]" 0] by (auto simp: selectionOrder_def)
  show "selectionOrder F rng v = d # ys \<Longrightarrow> g \<in> set (gateway_list v) \<Longrightarrow> getp g ''health'' \<noteq> JStr ''down'' \<Longrightarrow> getp d ''health'' \<noteq> JStr ''down''"
    using selection_loop_down_last [of F rng "gateway_list v" 0 "[]" "[]" d ys g] by (auto simp: selectionOrder_def)
qed

lemma spread_pool_mem: "set (spread_pool F all) \<subseteq> set all"
  by (auto simp: spread_pool_def Let_def split: if_split_asm)

lemma spread_pool_healthy: "b \<in> set (spread_pool F all) \<Longrightarrow> g \<in> set all \<Longrightarrow> getp g ''health'' \<noteq> JStr ''down'' \<Longrightarrow> getp b ''health'' \<noteq> JStr ''down''"
  by (auto simp: spread_pool_def Let_def filter_empty_conv split: if_split_asm)

lemma gateway_list_setp [simp]: "plain_object v \<Longrightarrow> gateway_list (setp v ''gateways'' (JArr gs)) = gs"
  by (cases v) (simp_all add: gateway_list_def gateways_of_def js_or_def)

definition first_healthy :: "jsval list \<Rightarrow> jsval list \<Rightarrow> bool" where
  "first_healthy all order \<longleftrightarrow> (\<forall>d ys g. order = d # ys \<longrightarrow> g \<in> set all \<longrightarrow> getp g ''health'' \<noteq> JStr ''down'' \<longrightarrow> getp d ''health'' \<noteq> JStr ''down'')"

lemma spread_order:
  assumes "draws_ok F rng" "plain_object view"
  shows "\<exists>order m'. spreadSelectionOrder F rng view m = (Inr order, m')
    \<and> set order \<subseteq> set (gateway_list view) \<and> distinct (map gw_onion order) \<and> gw_onion ` set order = gw_onion ` set (gateway_list view)
    \<and> first_healthy (gateway_list view) order \<and> fst ` set m' \<subseteq> fst ` set m \<union> gw_onion ` set (gateway_list view)
    \<and> (2 \<le> length (spread_pool F (gateway_list view)) \<longrightarrow> fst ` set m' \<subseteq> gw_onion ` set (gateway_list view))"
proof (cases "length (spread_pool F (gateway_list view)) < 2")
  case True
  then have "spreadSelectionOrder F rng view m = (Inr (selectionOrder F rng view), m)" by (simp add: spreadSelectionOrder_def)
  moreover have "first_healthy (gateway_list view) (selectionOrder F rng view)"
    unfolding first_healthy_def using selectionOrder_covers(4) [OF assms(1)] by blast
  ultimately show ?thesis using True selectionOrder_covers(1-3) [OF assms(1), of view] by auto
next
  case False
  let ?all = "gateway_list view" and ?pool = "spread_pool F (gateway_list view)"
  have "?pool \<noteq> []" using False by auto
  from swrrPick_mem [OF assms(1) this, of 0 "prune_swrr ?all m"] obtain b m' k where
    b: "swrrPick F rng ?pool 0 (prune_swrr ?all m) = (Some b, m', k)" "b \<in> set ?pool"
      "fst ` set m' \<subseteq> fst ` set (prune_swrr ?all m) \<union> gw_onion ` set ?pool" by blast
  let ?v = "setp view ''gateways'' (JArr (filter (\<lambda>g. gw_onion g \<noteq> gw_onion b) ?all))"
  let ?rest = "selectionOrder F (\<lambda>i. rng (k + i)) ?v"
  have ok: "draws_ok F (\<lambda>i. rng (k + i))" using assms(1) by (simp add: draws_ok_def)
  have e: "spreadSelectionOrder F rng view m = (Inr (b # ?rest), m')"
    using False b(1) by (simp add: spreadSelectionOrder_def Let_def)
  note R = selectionOrder_covers(1-3) [OF ok, of ?v]
  have gl: "gateway_list ?v = filter (\<lambda>g. gw_onion g \<noteq> gw_onion b) ?all" using assms(2) by simp
  have ball: "b \<in> set ?all" using b(2) spread_pool_mem by blast
  have "gw_onion ` set ?rest = gw_onion ` {g \<in> set ?all. gw_onion g \<noteq> gw_onion b}" using R(3) gl by simp
  then have im: "gw_onion b \<notin> gw_onion ` set ?rest" "insert (gw_onion b) (gw_onion ` set ?rest) = gw_onion ` set ?all" using ball by auto
  have "fst ` set (prune_swrr ?all m) \<subseteq> gw_onion ` set ?all" by (auto simp: prune_swrr_def)
  from subset_trans [OF b(3) Un_mono [OF this image_mono [OF spread_pool_mem [of F ?all], of gw_onion]]]
  have "fst ` set m' \<subseteq> gw_onion ` set ?all" by (simp only: Un_absorb)
  moreover have "first_healthy ?all (b # ?rest)"
    unfolding first_healthy_def using spread_pool_healthy [OF b(2)] by blast
  moreover have "set (b # ?rest) \<subseteq> set ?all" using ball R(1) gl by auto
  moreover have "distinct (map gw_onion (b # ?rest))" using im(1) R(2) by simp
  moreover have "gw_onion ` set (b # ?rest) = gw_onion ` set ?all" using im(2) by simp
  ultimately show ?thesis using e by blast
qed

section \<open>Properties\<close>

text \<open>
  smooth weighted round robin honours the weights. From a fresh start, over any number \<open>n\<close> of
  picks on a fixed pool of gateways with distinct onions, in exact arithmetic and for any jitter,
  every pick is a gateway of the pool and each gateway's number of wins stays within a constant of
  its proportional share \<open>n * weight / total\<close>: at most 2 above, at most the pool's size below.
\<close>

theorem swrr_share:
  assumes "exact F" "draws01 rng" "distinct (map gw_onion pool)" "0 < total_weight F pool"
    and "swrr_run F rng pool n 0 [] = (ws, m')" "g \<in> set pool"
  shows "length ws = n \<and> set ws \<subseteq> Some ` set pool
    \<and> of_nat n * effWeight F g - of_nat (length pool) * total_weight F pool \<le> of_nat (count_list ws (Some g)) * total_weight F pool
    \<and> of_nat (count_list ws (Some g)) * total_weight F pool \<le> of_nat n * effWeight F g + 2 * total_weight F pool"
proof -
  let ?T = "total_weight F pool"
  from swrr_run_spec [OF assms(1-5)] obtain d e where
    r: "starts F [] pool d" "run_from F pool d ws e" "deficits_ok F pool d \<longrightarrow> deficits_ok F pool e" "length ws = n" "set ws \<subseteq> Some ` set pool" by blast
  from start_deficits [OF r(1)] assms(6) r(3) have ok: "deficits_ok F pool e" "0 \<le> d g" "d g \<le> effWeight F g" by auto
  have w: "effWeight F g \<le> ?T" unfolding total_weight_def
    by (rule member_le_sum_list) (use assms(6) effWeight_range(1) in auto)
  have c: "of_nat (count_list ws (Some g)) * ?T = d g + of_nat n * effWeight F g - e g"
    using r(2,4) assms(6) by (simp add: run_from_def)
  have "- ?T \<le> e g" using ok(1) assms(6) by (simp add: deficits_ok_def)
  moreover have "e g \<le> of_nat (length pool) * ?T" by (rule deficit_upper [OF ok(1) assms(6)]) (use assms(4) in simp)
  ultimately show ?thesis using c w ok(2,3) r(4,5) by auto
qed

definition demo_gw :: "string \<Rightarrow> int \<Rightarrow> jsval" where
  "demo_gw onion w = JObj [(''onion'', JStr onion), (''weight'', JNum w)]"

definition exact_env :: float_env where
  "exact_env = \<lparr>fl = (\<lambda>x. x), flt = (\<lambda>_. 0)\<rparr>"

lemma demo_gw_sel [simp]: "getp (demo_gw onion w) ''onion'' = JStr onion" "getp (demo_gw onion w) ''weight'' = JNum w" "getp (demo_gw onion w) ''health'' = JUndef"
  by (simp_all add: demo_gw_def)

lemma exact_env_exact [simp]: "exact exact_env" by (simp add: exact_def exact_env_def)

lemma demo_weight [simp]: "0 \<le> w \<Longrightarrow> w \<le> 1000 \<Longrightarrow> effWeight F (demo_gw onion w) = of_int w"
  by (simp add: effWeight_def nval_def MAX_WEIGHT_def)

theorem swrr_share_witness:
  "\<exists>ws m'. swrr_run exact_env (\<lambda>_. 1 / 2) [demo_gw ''a'' 2, demo_gw ''b'' 1] 30 0 [] = (ws, m')
     \<and> length ws = 30 \<and> 18 \<le> count_list ws (Some (demo_gw ''a'' 2)) \<and> count_list ws (Some (demo_gw ''a'' 2)) \<le> 22"
proof -
  let ?p = "[demo_gw ''a'' 2, demo_gw ''b'' 1]"
  obtain ws m' where r: "swrr_run exact_env (\<lambda>_. 1 / 2) ?p 30 0 [] = (ws, m')" by (cases "swrr_run exact_env (\<lambda>_. 1 / 2) ?p 30 0 []") auto
  have T: "total_weight exact_env ?p = 3" by (simp add: total_weight_def)
  have "length ws = 30 \<and> set ws \<subseteq> Some ` set ?p
    \<and> of_nat 30 * effWeight exact_env (demo_gw ''a'' 2) - of_nat (length ?p) * total_weight exact_env ?p \<le> of_nat (count_list ws (Some (demo_gw ''a'' 2))) * total_weight exact_env ?p
    \<and> of_nat (count_list ws (Some (demo_gw ''a'' 2))) * total_weight exact_env ?p \<le> of_nat 30 * effWeight exact_env (demo_gw ''a'' 2) + 2 * total_weight exact_env ?p"
    by (rule swrr_share [OF exact_env_exact _ _ _ r]) (simp_all add: T draws01_def)
  then have "length ws = 30" "(54::rat) \<le> of_nat (count_list ws (Some (demo_gw ''a'' 2))) * 3" "of_nat (count_list ws (Some (demo_gw ''a'' 2))) * 3 \<le> (66::rat)"
    by (simp_all add: T)
  then have "(18::rat) \<le> of_nat (count_list ws (Some (demo_gw ''a'' 2)))" "of_nat (count_list ws (Some (demo_gw ''a'' 2))) \<le> (22::rat)" by simp_all
  then have "18 \<le> count_list ws (Some (demo_gw ''a'' 2))" "count_list ws (Some (demo_gw ''a'' 2)) \<le> 22"
    by linarith+
  with r \<open>length ws = 30\<close> show ?thesis by blast
qed

text \<open>
  rotation never loses a gateway. Whatever the draws, weights and rounding, the spread order
  exists, holds every onion of the directory exactly once and nothing else, starts with a gateway
  that is not marked down when there is one, and the deficit map stays within the fleet.
\<close>

theorem spread_order_complete:
  assumes "draws_ok F rng" "plain_object view"
  shows "\<exists>order m'. spreadSelectionOrder F rng view m = (Inr order, m')
    \<and> set order \<subseteq> set (gateway_list view) \<and> distinct (map gw_onion order) \<and> gw_onion ` set order = gw_onion ` set (gateway_list view)
    \<and> first_healthy (gateway_list view) order \<and> fst ` set m' \<subseteq> fst ` set m \<union> gw_onion ` set (gateway_list view)
    \<and> (2 \<le> length (spread_pool F (gateway_list view)) \<longrightarrow> fst ` set m' \<subseteq> gw_onion ` set (gateway_list view))"
  by (rule spread_order [OF assms])

theorem spread_order_complete_witness:
  "\<exists>order m'. spreadSelectionOrder exact_env (\<lambda>_. 0) (JObj [(''gateways'', JArr [demo_gw ''a'' 2, demo_gw ''b'' 1])]) [] = (Inr order, m')
     \<and> gw_onion ` set order = {JStr ''a'', JStr ''b''} \<and> distinct (map gw_onion order)"
proof -
  let ?v = "JObj [(''gateways'', JArr [demo_gw ''a'' 2, demo_gw ''b'' 1])]"
  have "draws_ok exact_env (\<lambda>_. 0)" "plain_object ?v" by (simp_all add: draws_ok_def exact_env_def)
  from spread_order_complete [OF this, of "[]"] obtain order m' where
    "spreadSelectionOrder exact_env (\<lambda>_. 0) ?v [] = (Inr order, m')" "gw_onion ` set order = gw_onion ` set (gateway_list ?v)" "distinct (map gw_onion order)"
    by (elim exE conjE)
  moreover have "gateway_list ?v = [demo_gw ''a'' 2, demo_gw ''b'' 1]" by (simp add: gateway_list_def gateways_of_def js_or_def)
  ultimately show ?thesis by (intro exI conjI) (assumption, simp only: list.set image_insert image_empty demo_gw_sel, assumption)
qed

section \<open>Bounds of the caches and of the receipt bonus\<close>

lemma fold_delete_filter: "fold AList.delete ks c = filter (\<lambda>(k, _). k \<notin> set ks) c"
proof (induction ks arbitrary: c)
  case Nil
  have "filter (\<lambda>(k, _). True) c = c" by (induction c) auto
  then show ?case by simp
next
  case (Cons k ks)
  have "AList.delete k c = filter (\<lambda>(k', _). k' \<noteq> k) c" by (auto simp: AList.delete_eq intro: filter_cong)
  with Cons show ?case by (simp add: case_prod_beta' conj_commute)
qed

lemma bound_length:
  assumes "jmap_wf c" "set ks \<subseteq> fst ` set c" "distinct ks"
  shows "length (fold AList.delete ks c) = length c - length ks"
proof -
  have "map fst (filter (\<lambda>(k, _). k \<notin> set ks) c) = filter (\<lambda>k. k \<notin> set ks) (map fst c)" by (induction c) auto
  then have "length (fold AList.delete ks c) = length (filter (\<lambda>k. k \<notin> set ks) (map fst c))"
    by (metis fold_delete_filter length_map)
  also have "\<dots> = card (fst ` set c - set ks)" using assms(1) by (subst distinct_card [symmetric]) (auto simp: set_diff_eq)
  also have "\<dots> = length c - length ks"
    using assms card_Diff_subset [of "set ks" "fst ` set c"] distinct_card [of ks] distinct_card [of "map fst c"] by simp
  finally show ?thesis .
qed

lemma bound_cache:
  assumes "jmap_wf c" "m = NFin (of_nat n)"
  shows "length (boundHealthCache F m c) \<le> n" "set (boundHealthCache F m c) \<subseteq> set c" "jmap_wf (boundHealthCache F m c)"
    "k \<in> fst ` set c \<Longrightarrow> k \<notin> fst ` set (boundHealthCache F m c) \<Longrightarrow> k' \<in> fst ` set (boundHealthCache F m c) \<Longrightarrow> seen_key F c k \<le> seen_key F c k'"
proof -
  define ss where "ss = sort_key (seen_key F c) (map fst c)"
  define ks where "ks = take (length c - n) ss"
  have ss: "distinct ss" "set ss = fst ` set c" "length ss = length c" "sorted (map (seen_key F c) ss)" using assms(1) by (simp_all add: ss_def)
  have ks: "distinct ks" "set ks \<subseteq> fst ` set c" "length ks = length c - n"
    using ss set_take_subset [of "length c - n" ss] by (auto simp: ks_def)
  have ev: "evict_count (length c) m = length c - n"
  proof -
    have "of_nat (length c) - (of_nat n :: rat) = of_int (int (length c) - int n)" by simp
    then show ?thesis by (simp only: evict_count_def assms(2) jnum.case floor_of_int nat_minus_as_int [symmetric])
  qed
  have b: "boundHealthCache F m c = (if length c \<le> n then c else fold AList.delete ks c)"
    using ev by (simp add: boundHealthCache_def assms(2) ks_def ss_def)
  show "length (boundHealthCache F m c) \<le> n" using bound_length [OF assms(1) ks(2,1)] ks(3) by (simp add: b)
  show "set (boundHealthCache F m c) \<subseteq> set c" by (auto simp: b fold_delete_filter)
  have "distinct (map fst (filter P c))" for P using assms(1) by (rule distinct_map_filter)
  with assms(1) show "jmap_wf (boundHealthCache F m c)" by (simp add: b fold_delete_filter)
  assume k: "k \<in> fst ` set c" "k \<notin> fst ` set (boundHealthCache F m c)" "k' \<in> fst ` set (boundHealthCache F m c)"
  then have big: "\<not> length c \<le> n" by (auto simp: b)
  then have "k \<in> set ks" "k' \<notin> set ks" "k' \<in> set ss" using k ss(2) by (force simp: b fold_delete_filter)+
  moreover have sp: "ss = ks @ drop (length c - n) ss" by (simp add: ks_def)
  ultimately have "k' \<in> set (drop (length c - n) ss)" by (metis Un_iff set_append)
  moreover have "sorted (map (seen_key F c) ks @ map (seen_key F c) (drop (length c - n) ss))" using ss(4) sp by (metis map_append)
  ultimately show "seen_key F c k \<le> seen_key F c k'" using \<open>k \<in> set ks\<close> by (simp add: sorted_append)
qed

definition rounding :: "float_env \<Rightarrow> bool" where  \<comment> \<open>what rounding to the nearest double keeps\<close>
  "rounding F \<longleftrightarrow> (\<forall>x y. x \<le> y \<longrightarrow> fl F x \<le> fl F y) \<and> (\<forall>x. fl F (- x) = - fl F x) \<and> (\<forall>x. fl F (fl F x) = fl F x) \<and> fl F 1 = 1 \<and> fl F 2 = 2"

lemma rounding_sandwich:
  assumes "rounding F" "fl F a = a" "\<bar>x\<bar> \<le> a"
  shows "\<bar>fl F x\<bar> \<le> a"
proof -
  have mono: "y \<le> z \<Longrightarrow> fl F y \<le> fl F z" and odd: "fl F (- y) = - fl F y" for y z using assms(1) by (simp_all add: rounding_def)
  have "- a \<le> x" "x \<le> a" using assms(3) by auto
  then have "- a \<le> fl F x" "fl F x \<le> a" using mono [of "- a" x] mono [of x a] assms(2) odd [of a] by auto
  then show ?thesis by (simp add: abs_le_iff)
qed

lemma rounding_nonneg: "rounding F \<Longrightarrow> 0 \<le> x \<Longrightarrow> 0 \<le> fl F x"
proof -
  assume r: "rounding F" "0 \<le> x"
  then have "fl F 0 \<le> fl F x" "fl F (- 0) = - fl F 0" by (auto simp only: rounding_def)
  then show ?thesis by simp
qed

lemma abs_mult_le: "\<bar>x\<bar> \<le> a \<Longrightarrow> \<bar>y\<bar> \<le> 1 \<Longrightarrow> \<bar>x * y\<bar> \<le> (a::rat)"
proof -
  assume a: "\<bar>x\<bar> \<le> a" "\<bar>y\<bar> \<le> 1"
  then have "\<bar>x\<bar> * \<bar>y\<bar> \<le> a * 1" by (intro mult_mono) auto
  then show ?thesis by (simp add: abs_mult)
qed

lemma factor_range:
  assumes "rounding F" "0 \<le> B" "fl F B = B" "0 \<le> s" "s \<le> 1" "0 \<le> c" "c \<le> 1"
  defines "v \<equiv> fl F (1 + fl F (fl F (B * fl F (fl F (2 * s) - 1)) * c))"
  shows "fl F (1 - B) \<le> v \<and> v \<le> fl F (1 + B)"
proof -
  have fl12: "fl F 1 = 1" "fl F 2 = 2" and mono: "x \<le> y \<Longrightarrow> fl F x \<le> fl F y" for x y using assms(1) by (simp_all add: rounding_def)
  let ?p = "fl F (2 * s)" and ?q = "fl F (fl F (2 * s) - 1)"
  have "0 \<le> ?p" "?p \<le> 2" using assms(4,5) rounding_nonneg [OF assms(1)] mono [of "2 * s" 2] fl12 by auto
  then have q: "\<bar>?q\<bar> \<le> 1" by (intro rounding_sandwich [OF assms(1) fl12(1)]) auto
  have "\<bar>B * ?q\<bar> \<le> B" using abs_mult_le [OF _ q, of B B] assms(2) by simp
  from rounding_sandwich [OF assms(1,3) this] have "\<bar>fl F (B * ?q) * c\<bar> \<le> B" using abs_mult_le [of _ B c] assms(6,7) by simp
  from rounding_sandwich [OF assms(1,3) this] have "\<bar>fl F (fl F (B * ?q) * c)\<bar> \<le> B" .
  then show ?thesis unfolding v_def by (intro conjI mono) auto
qed

definition dtoa_ok :: "rep_cfg \<Rightarrow> bool" where  \<comment> \<open>a printed double reads back\<close>
  "dtoa_ok C \<longleftrightarrow> (\<forall>q. fl (num C) q = q \<and> of_int \<lfloor>q\<rfloor> \<noteq> q \<longrightarrow>
     flt (num C) (dtoa C q) = q \<and> dtoa C q \<notin> {''NaN'', ''Infinity'', ''-Infinity''})"

lemma nval_num_js: "dtoa_ok C \<Longrightarrow> fl (num C) q = q \<Longrightarrow> nval (num C) (num_js (dtoa C) (NFin q)) = NFin q"
proof (cases "of_int \<lfloor>q\<rfloor> = q")
  case False
  assume "dtoa_ok C" "fl (num C) q = q"
  with False have "flt (num C) (dtoa C q) = q" "dtoa C q \<noteq> ''NaN''" "dtoa C q \<noteq> ''Infinity''" "dtoa C q \<noteq> ''-Infinity''" by (auto simp: dtoa_ok_def)
  with False show ?thesis by (simp add: nval_def)
qed (simp add: nval_def)

lemma nval_num_js_or: "dtoa_ok C \<Longrightarrow> fl (num C) q = q \<Longrightarrow> nval (num C) (js_or (num_js (dtoa C) (NFin q)) (JNum 0)) = NFin q"
proof -
  assume ok: "dtoa_ok C" "fl (num C) q = q"
  show ?thesis
  proof (cases "truthy (num_js (dtoa C) (NFin q))")
    case True
    then show ?thesis using nval_num_js [OF ok] by (simp add: js_or_def)
  next
    case False
    have "of_int \<lfloor>q\<rfloor> \<noteq> q \<Longrightarrow> dtoa C q \<noteq> ''NaN''" using ok by (auto simp: dtoa_ok_def)
    with False have "of_int \<lfloor>q\<rfloor> = q" "\<lfloor>q\<rfloor> = 0" by (auto split: if_split_asm)
    then have "q = 0" by simp
    with False show ?thesis by (simp add: js_or_def nval_def)
  qed
qed

definition tally_entry_ok :: "float_env \<Rightarrow> jsval \<Rightarrow> bool" where
  "tally_entry_ok F e \<longleftrightarrow> plain_object e \<and> (\<exists>q\<ge>0. tally_samples F e = NFin q)"

definition tally_ok :: "rep_cfg \<Rightarrow> cache \<Rightarrow> bool" where
  "tally_ok C c \<longleftrightarrow> jmap_wf c \<and> (\<forall>(k, e)\<in>set c. tally_entry_ok (num C) e)"

definition scoring_ok :: "rep_cfg \<Rightarrow> rat \<Rightarrow> rat \<Rightarrow> bool" where
  "scoring_ok C B N \<longleftrightarrow> rounding (num C) \<and> dtoa_ok C \<and> receipt_bonus C = NFin B \<and> 0 \<le> B \<and> fl (num C) B = B
     \<and> receipt_conf C = NFin N \<and> 1 \<le> N \<and> fl (num C) N = N"

lemma plain_setp [simp]: "plain_object v \<Longrightarrow> plain_object (setp v k x)"
  by (cases v) simp_all

lemma fold_receipt_ok:
  assumes "scoring_ok C B N" "\<And>e. old = Some e \<Longrightarrow> tally_entry_ok (num C) e"
  shows "tally_entry_ok (num C) (fold_receipt C now valid old)"
proof -
  define fresh where "fresh = JObj [(''score'', JNum (if valid then 1 else 0)), (''samples'', JNum 0), (''lastSeen'', JNum 0)]"
  define e where "e = (case old of None \<Rightarrow> fresh | Some o' \<Rightarrow> if \<not> truthy o' \<or> tally_decayed C now o' then fresh else o')"
  have "tally_samples (num C) fresh = NFin 0" by (simp add: fresh_def tally_samples_def js_or_def nval_def)
  then have "tally_entry_ok (num C) fresh" by (auto simp: tally_entry_ok_def fresh_def)
  then have "tally_entry_ok (num C) e" using assms(2) by (simp add: e_def split: option.split)
  then obtain q where q: "plain_object e" "0 \<le> q" "tally_samples (num C) e = NFin q" by (auto simp: tally_entry_ok_def)
  define x where "x = min N (fl (num C) (q + 1))"
  have "0 \<le> fl (num C) (q + 1)" using assms(1) q(2) by (intro rounding_nonneg) (simp_all add: scoring_ok_def)
  then have x: "0 \<le> x" "fl (num C) x = x" using assms(1) by (simp_all add: x_def scoring_ok_def rounding_def min_def)
  have m: "nmin (receipt_conf C) (nadd (num C) (tally_samples (num C) e) (NFin 1)) = NFin x"
    using assms(1) q(3) by (simp add: scoring_ok_def x_def min_def)
  obtain sc where f: "fold_receipt C now valid old = setp (setp (setp e ''score'' sc) ''samples'' (num_js (dtoa C) (NFin x))) ''lastSeen'' (JNum now)"
    using m unfolding fold_receipt_def Let_def e_def fresh_def by metis
  have "tally_samples (num C) (fold_receipt C now valid old) = NFin x"
    using assms(1) q(1) x(2) by (simp add: f tally_samples_def getp_setp getp_setp_same nval_num_js_or scoring_ok_def del: num_js.simps)
  with x(1) q(1) f show ?thesis by (auto simp: tally_entry_ok_def)
qed

lemma bound_subset: "set (boundHealthCache F m c) \<subseteq> set c" "jmap_wf c \<Longrightarrow> jmap_wf (boundHealthCache F m c)"
  by (auto simp: boundHealthCache_def Let_def fold_delete_filter intro: distinct_map_filter)

lemma save_cache_cases:
  "fst (snd (save_cache F m path c D)) = c \<or> fst (snd (save_cache F m path c D)) = boundHealthCache F m c"
  by (simp add: save_cache_def Let_def split: option.split)

lemma reportReceipt_ok:
  assumes "scoring_ok C B N" "tally_ok C c"
  shows "tally_ok C (fst (reportReceipt C gws onion valid now c D))"
proof -
  let ?full = "full_onion onion"
  let ?u = "AList.update ?full (fold_receipt C now valid (map_of c ?full)) c"
  have "tally_entry_ok (num C) (fold_receipt C now valid (map_of c ?full))"
    by (rule fold_receipt_ok [OF assms(1)]) (use assms(2) map_of_SomeD in \<open>fastforce simp: tally_ok_def\<close>)
  then have u: "tally_ok C ?u" using assms(2) by (auto simp: tally_ok_def dest!: update_memD)
  have "tally_ok C (boundHealthCache F m d)" if "tally_ok C d" for F m d
    using that bound_subset [where F = F and m = m and c = d] by (auto simp: tally_ok_def)
  with u have "tally_ok C (fst (snd (saveReceiptCache C ?u D)))"
    using save_cache_cases [of "num C" "receipt_max C" "receipt_path C" ?u D] by (metis saveReceiptCache_def)
  with assms(2) show ?thesis by (simp add: reportReceipt_def Let_def split: option.split)
qed

lemma receiptFactor_range:
  assumes "scoring_ok C B N" "tally_ok C c"
  shows "\<exists>q. receiptFactor C c onion now = NFin q \<and> fl (num C) (1 - B) \<le> q \<and> q \<le> fl (num C) (1 + B)"
proof -
  let ?F = "num C"
  have r: "rounding ?F" "0 \<le> B" "fl ?F B = B" "1 \<le> N" "receipt_bonus C = NFin B" "receipt_conf C = NFin N" using assms(1) by (simp_all add: scoring_ok_def)
  then have mono: "x \<le> y \<Longrightarrow> fl ?F x \<le> fl ?F y" and one: "fl ?F 1 = 1" for x y by (simp_all add: rounding_def)
  have neutral: ?thesis if "receiptFactor C c onion now = NFin 1"
    using that mono [of "1 - B" 1] mono [of 1 "1 + B"] one r(2) by simp
  show ?thesis
  proof (cases "\<exists>e. map_of c onion = Some e \<and> truthy e \<and> \<not> tally_decayed C now e")
    case False
    then have "receiptFactor C c onion now = NFin 1" by (auto simp: receiptFactor_def split: option.split)
    then show ?thesis by (rule neutral)
  next
    case True
    then obtain e where e: "map_of c onion = Some e" "truthy e" "\<not> tally_decayed C now e" by blast
    with assms(2) obtain q where q: "0 \<le> q" "tally_samples ?F e = NFin q" by (fastforce simp: tally_ok_def tally_entry_ok_def dest: map_of_SomeD)
    define s where "s = clamp01 (nval ?F (getp e ''score''))"
    define cf where "cf = min 1 (fl ?F (q / N))"
    have s: "0 \<le> s" "s \<le> 1" by (simp_all add: s_def clamp01_def split: jnum.split)
    have cf: "0 \<le> cf" "cf \<le> 1" using rounding_nonneg [OF r(1), of "q / N"] q(1) r(4) by (simp_all add: cf_def)
    have N: "N \<noteq> 0" using r(4) by auto
    have "receiptFactor C c onion now = NFin (fl ?F (1 + fl ?F (fl ?F (B * fl ?F (fl ?F (2 * s) - 1)) * cf)))"
      using e q(2) N by (simp add: receiptFactor_def Let_def r(5,6) s_def [symmetric] cf_def min_def)
    with factor_range [OF r(1-3) s cf] show ?thesis by simp
  qed
qed

section \<open>Remembering failures across sessions\<close>

definition keeps_down :: "rep_cfg \<Rightarrow> int \<Rightarrow> jsval \<Rightarrow> bool" where  \<comment> \<open>an entry not decayed that holds enough failures\<close>
  "keeps_down C now e \<longleftrightarrow> plain_object e \<and> \<not> (typeof (getp e ''lastSeen'') = ''number'' \<and> nle (health_decay C) (nsub (num C) (NFin (of_int now)) (nval (num C) (getp e ''lastSeen''))))
     \<and> nle (NFin HEALTH_FAIL_THRESHOLD) (nval (num C) (js_or (js_number (getp e ''fails'')) (JNum 0)))"

lemma seed_entry_down:
  assumes "keeps_down C now e" "map_of c onion = Some e"
  shows "map_of (snd (seed_entry C now g c)) onion = Some e"
    "getp g ''onion'' = JStr onion \<Longrightarrow> plain_object g \<Longrightarrow> getp (fst (seed_entry C now g c)) ''health'' = JStr ''down''"
proof -
  have t: "truthy e" using assms(1) by (cases e) (simp_all add: keeps_down_def)
  show "map_of (snd (seed_entry C now g c)) onion = Some e"
  proof (cases "gw_key g = onion")
    case True
    with assms t show ?thesis by (auto simp: seed_entry_def keeps_down_def Let_def)
  next
    case False
    with assms(2) show ?thesis by (auto simp: seed_entry_def Let_def split: option.split)
  qed
  assume g: "getp g ''onion'' = JStr onion" "plain_object g"
  then have "gw_key g = onion" by (simp add: gw_key_def)
  with assms t g(2) show "getp (fst (seed_entry C now g c)) ''health'' = JStr ''down''"
    by (auto simp: seed_entry_def keeps_down_def Let_def getp_setp getp_setp_same)
qed

lemma seed_loop_down:
  assumes "keeps_down C now e" "map_of c onion = Some e"
  shows "length (fst (seed_loop C now gs c)) = length gs \<and> (\<forall>i<length gs. getp (gs ! i) ''onion'' = JStr onion \<longrightarrow> plain_object (gs ! i)
    \<longrightarrow> getp (fst (seed_loop C now gs c) ! i) ''health'' = JStr ''down'')"
  using assms(2)
proof (induction gs arbitrary: c)
  case (Cons g gs)
  obtain g' c1 gs' c2 where e: "seed_entry C now g c = (g', c1)" "seed_loop C now gs c1 = (gs', c2)" by (metis surj_pair)
  from seed_entry_down [OF assms(1) Cons.prems, of g] e(1) have s: "map_of c1 onion = Some e"
    "getp g ''onion'' = JStr onion \<Longrightarrow> plain_object g \<Longrightarrow> getp g' ''health'' = JStr ''down''" by simp_all
  from Cons.IH [OF s(1)] e(2) s(2) show ?case by (auto simp: e nth_Cons split: nat.split)
qed simp

definition store_ok :: "rep_cfg \<Rightarrow> nat \<Rightarrow> string \<Rightarrow> disk \<Rightarrow> bool" where
  "store_ok C n p D \<longleftrightarrow> rounding (num C) \<and> health_max C = NFin (of_nat n) \<and> health_path C = Some p \<and> p \<noteq> [] \<and> writable D p"

lemma update_stores:
  assumes "store_ok C n p D" "list_ex (\<lambda>x. getp x ''onion'' = JStr onion) gws" "length c < n \<or> map_of c onion \<noteq> None \<and> length c \<le> n"
    and c': "c' = AList.update onion (fold_result C now ok lat (cached_or c onion fresh_health)) c"
  shows "updateHealthCache C gws onion ok lat now c D = (c', D\<lparr>files := (files D)(p := Inr (JObj [(''version'', JNum 1), (''entries'', JObj c')]))\<rparr>)"
    "length c' \<le> n"
proof -
  have "onion \<in> fst ` set c \<longleftrightarrow> map_of c onion \<noteq> None" by (simp add: map_of_eq_None_iff)
  then show l: "length c' \<le> n" using assms(3) by (auto simp: c' length_update)
  then have "boundHealthCache (num C) (health_max C) c' = c'" using assms(1) by (simp add: boundHealthCache_def store_ok_def)
  then show "updateHealthCache C gws onion ok lat now c D = (c', D\<lparr>files := (files D)(p := Inr (JObj [(''version'', JNum 1), (''entries'', JObj c')]))\<rparr>)"
    using assms(1,2) by (simp add: updateHealthCache_def saveHealthCache_def save_cache_def store_ok_def c' [symmetric])
qed

lemma fail_entry:
  assumes "rounding (num C)" "plain_object e" "getp e ''fails'' = JNum n" "n \<in> {0, 1}"
  shows "plain_object (fold_result C now (Some False) lat e)" "getp (fold_result C now (Some False) lat e) ''fails'' = JNum (n + 1)"
    "getp (fold_result C now (Some False) lat e) ''lastSeen'' = JNum now"
proof -
  have fl: "fl (num C) (of_int n + 1) = of_int n + 1" using assms(1,4) by (auto simp: rounding_def)
  have "js_or (JNum n) (JNum 0) = JNum n" using assms(4) by (auto simp: js_or_def)
  moreover have "js_plus_one (num C) (dtoa C) (JNum n) = JNum (n + 1)"
    using fl assms(4) by (auto simp: js_plus_one_def nval_def)
  ultimately show "getp (fold_result C now (Some False) lat e) ''fails'' = JNum (n + 1)"
    using assms(2,3) by (simp add: fold_result_def Let_def getp_setp getp_setp_same)
  show "plain_object (fold_result C now (Some False) lat e)" "getp (fold_result C now (Some False) lat e) ''lastSeen'' = JNum now"
    using assms(2) by (simp_all add: fold_result_def Let_def getp_setp_same)
qed

lemma two_failures_stored:
  assumes "store_ok C n p D" "list_ex (\<lambda>x. getp x ''onion'' = JStr onion) gws" "length c < n" "map_of c onion = None"
    and "updateHealthCache C gws onion (Some False) lat1 t1 c D = (c1, D1)"
    and "updateHealthCache C gws onion (Some False) lat2 t2 c1 D1 = (c2, D2)"
  shows "\<exists>e. loadHealthCache D2 (health_path C) = JObj c2 \<and> map_of c2 onion = Some e \<and> plain_object e
    \<and> getp e ''fails'' = JNum 2 \<and> getp e ''lastSeen'' = JNum t2"
proof -
  let ?e1 = "fold_result C t1 (Some False) lat1 fresh_health"
  have r: "rounding (num C)" "health_path C = Some p" "p \<noteq> []" using assms(1) by (simp_all add: store_ok_def)
  have f: "plain_object fresh_health" "getp fresh_health ''fails'' = JNum 0" by (simp_all add: fresh_health_def)
  have co: "cached_or c onion fresh_health = fresh_health" using assms(4) by (simp add: cached_or_def)
  from update_stores [OF assms(1,2) disjI1 [OF assms(3)] refl, where now = t1 and ok = "Some False" and lat = lat1] assms(5) co
  have u1: "c1 = AList.update onion ?e1 c" "D1 = D\<lparr>files := (files D)(p := Inr (JObj [(''version'', JNum 1), (''entries'', JObj c1)]))\<rparr>" "length c1 \<le> n" by auto
  from fail_entry [OF r(1) f, of t1 lat1] have e1: "plain_object ?e1" "getp ?e1 ''fails'' = JNum 1" by simp_all
  then have "truthy ?e1" by (cases ?e1) simp_all
  then have co1: "cached_or c1 onion fresh_health = ?e1" by (simp add: cached_or_def u1(1))
  have "store_ok C n p D1" using assms(1) by (simp add: store_ok_def u1(2))
  from update_stores [OF this assms(2) _ refl, where c = c1 and now = t2 and ok = "Some False" and lat = lat2] u1(1,3) assms(6) co1
  have u2: "c2 = AList.update onion (fold_result C t2 (Some False) lat2 ?e1) c1"
    "D2 = D1\<lparr>files := (files D1)(p := Inr (JObj [(''version'', JNum 1), (''entries'', JObj c2)]))\<rparr>" by auto
  have "loadHealthCache D2 (health_path C) = JObj c2" using r(2,3) by (simp add: loadHealthCache_def u2(2))
  moreover have "map_of c2 onion = Some (fold_result C t2 (Some False) lat2 ?e1)" by (simp add: u2(1))
  ultimately show ?thesis using fail_entry [OF r(1) e1, of t2 lat2] by simp
qed

text \<open>A configuration over doubles truncated to integers.\<close>

definition trunc_env :: float_env where
  "trunc_env = \<lparr>fl = (\<lambda>x. if 0 \<le> x then of_int \<lfloor>x\<rfloor> else - of_int \<lfloor>- x\<rfloor>), flt = (\<lambda>_. 0)\<rparr>"

definition demo_rep :: rep_cfg where
  "demo_rep = \<lparr>num = trunc_env, dtoa = (\<lambda>_. []), health_path = Some ''h'', health_max = NFin 2, health_decay = NFin 100,
     receipt_scoring = True, receipt_path = None, receipt_max = NFin 2, receipt_decay = NFin 100, receipt_alpha = 1,
     receipt_bonus = NFin 1, receipt_conf = NFin 1, rotation_spread = True\<rparr>"

lemma demo_rep_sel [simp]: "num demo_rep = trunc_env" "health_path demo_rep = Some ''h''" "health_max demo_rep = NFin 2" "health_decay demo_rep = NFin 100"
    "receipt_bonus demo_rep = NFin 1" "receipt_conf demo_rep = NFin 1" "receipt_scoring demo_rep" "receipt_alpha demo_rep = 1"
  by (simp_all add: demo_rep_def)

lemma fl_trunc: "fl trunc_env x = (if 0 \<le> x then of_int \<lfloor>x\<rfloor> else - of_int \<lfloor>- x\<rfloor>)"
  by (simp add: trunc_env_def)

lemma trunc_rounding: "rounding trunc_env"
proof -
  have "fl trunc_env x \<le> fl trunc_env y" if le: "x \<le> y" for x y
  proof -
    consider "0 \<le> x" "0 \<le> y" | "x < 0" "0 \<le> y" | "x < 0" "y < 0"
      using le by (cases "0 \<le> x"; cases "0 \<le> y") auto
    then show ?thesis
    proof cases
      case 1
      then show ?thesis using floor_mono [OF le] by (simp add: fl_trunc)
    next
      case 2
      then have "0 \<le> \<lfloor>- x\<rfloor>" "0 \<le> \<lfloor>y\<rfloor>" by simp_all
      then have "- of_int \<lfloor>- x\<rfloor> \<le> (0::rat)" "(0::rat) \<le> of_int \<lfloor>y\<rfloor>" by (simp_all only: neg_le_0_iff_le of_int_0_le_iff)
      then have "- of_int \<lfloor>- x\<rfloor> \<le> (of_int \<lfloor>y\<rfloor> :: rat)" by (rule order_trans)
      with 2 show ?thesis by (simp add: fl_trunc)
    next
      case 3
      then show ?thesis using floor_mono [of "- y" "- x"] le by (simp add: fl_trunc)
    qed
  qed
  moreover have "fl trunc_env (- x) = - fl trunc_env x" for x by (auto simp: fl_trunc)
  moreover have "fl trunc_env (of_int n) = of_int n" for n by (auto simp: fl_trunc)
  moreover from this have "fl trunc_env (fl trunc_env x) = fl trunc_env x" for x by (metis fl_trunc of_int_minus)
  ultimately show ?thesis by (simp add: rounding_def fl_trunc)
qed

lemma demo_scoring: "scoring_ok demo_rep 1 1"
proof -
  have "fl trunc_env q = q \<Longrightarrow> of_int \<lfloor>q\<rfloor> = q" for q by (metis fl_trunc floor_of_int of_int_minus)
  then have "dtoa_ok demo_rep" by (auto simp: dtoa_ok_def)
  then show ?thesis using trunc_rounding by (simp add: scoring_ok_def rounding_def)
qed

definition demo_disk :: disk where
  "demo_disk = \<lparr>files = (\<lambda>_. Inl SyntaxError), writable = (\<lambda>_. True)\<rparr>"

section \<open>Properties of the caches\<close>

text \<open>
  failures outlive the session. A gateway of the directory that fails two dials in a row, with
  room in the cache and a writable file, is stored with two failures; the next session reads the
  same cache back and, unless the entry has decayed, starts with every entry of that onion marked
  down.
\<close>

theorem health_survives_restart:
  assumes "store_ok C n p D" "list_ex (\<lambda>x. getp x ''onion'' = JStr onion) gws" "length c < n" "map_of c onion = None"
    and "updateHealthCache C gws onion (Some False) lat1 t1 c D = (c1, D1)"
    and "updateHealthCache C gws onion (Some False) lat2 t2 c1 D1 = (c2, D2)"
    and "\<not> nle (health_decay C) (NFin (fl (num C) (of_int now - of_int t2)))"
    and "getp dir ''gateways'' = JArr gs" "plain_object dir"
  shows "\<exists>gs'. getp (fst (seedHealthFromCache C dir (cache_of (loadHealthCache D2 (health_path C))) now)) ''gateways'' = JArr gs'
    \<and> length gs' = length gs \<and> (\<forall>i<length gs. getp (gs ! i) ''onion'' = JStr onion \<longrightarrow> plain_object (gs ! i) \<longrightarrow> getp (gs' ! i) ''health'' = JStr ''down'')"
proof -
  from two_failures_stored [OF assms(1-6)] obtain e where
    e: "loadHealthCache D2 (health_path C) = JObj c2" "map_of c2 onion = Some e" "plain_object e" "getp e ''fails'' = JNum 2" "getp e ''lastSeen'' = JNum t2" by blast
  have "keeps_down C now e"
    using assms(7) e(3-5) by (simp add: keeps_down_def nval_def js_or_def HEALTH_FAIL_THRESHOLD_def)
  from seed_loop_down [OF this e(2), of gs] assms(8,9) e(1) show ?thesis
    by (cases "seed_loop C now gs c2") (auto simp: seedHealthFromCache_def getp_setp_same)
qed

theorem health_survives_restart_witness:
  "\<exists>gs'. getp (fst (seedHealthFromCache demo_rep (JObj [(''gateways'', JArr [demo_gw ''a.onion'' 2])])
       (cache_of (loadHealthCache (snd (case updateHealthCache demo_rep [demo_gw ''a.onion'' 2] ''a.onion'' (Some False) JUndef 5 [] demo_disk of
          (c1, D1) \<Rightarrow> updateHealthCache demo_rep [demo_gw ''a.onion'' 2] ''a.onion'' (Some False) JUndef 6 c1 D1)) (Some ''h''))) 7)) ''gateways'' = JArr gs'
     \<and> getp (gs' ! 0) ''health'' = JStr ''down''"
proof -
  let ?gws = "[demo_gw ''a.onion'' 2]" and ?dir = "JObj [(''gateways'', JArr [demo_gw ''a.onion'' 2])]"
  obtain c1 D1 where u1: "updateHealthCache demo_rep ?gws ''a.onion'' (Some False) JUndef 5 [] demo_disk = (c1, D1)" by (metis surj_pair)
  obtain c2 D2 where u2: "updateHealthCache demo_rep ?gws ''a.onion'' (Some False) JUndef 6 c1 D1 = (c2, D2)" by (metis surj_pair)
  have st: "store_ok demo_rep 2 ''h'' demo_disk" using trunc_rounding by (simp add: store_ok_def demo_disk_def)
  have li: "list_ex (\<lambda>x. getp x ''onion'' = JStr ''a.onion'') ?gws" "length ([]::cache) < 2" "map_of ([]::cache) ''a.onion'' = None" by simp_all
  have nd: "\<not> nle (health_decay demo_rep) (NFin (fl (num demo_rep) (of_int 7 - of_int 6)))" by (simp add: fl_trunc)
  have g: "getp ?dir ''gateways'' = JArr ?gws" "plain_object ?dir" by simp_all
  from health_survives_restart [OF st li u1 u2 nd g] obtain gs' where
    r: "getp (fst (seedHealthFromCache demo_rep ?dir (cache_of (loadHealthCache D2 (health_path demo_rep))) 7)) ''gateways'' = JArr gs'"
      "\<forall>i<length ?gws. getp (?gws ! i) ''onion'' = JStr ''a.onion'' \<longrightarrow> plain_object (?gws ! i) \<longrightarrow> getp (gs' ! i) ''health'' = JStr ''down''" by blast
  have "plain_object (demo_gw ''a.onion'' 2)" by (simp add: demo_gw_def)
  with r(2) have "getp (gs' ! 0) ''health'' = JStr ''down''" by simp
  with r(1) show ?thesis by (simp only: u1 u2 prod.case snd_conv demo_rep_sel) blast
qed

fun report_all :: "rep_cfg \<Rightarrow> jsval list option \<Rightarrow> (string \<times> bool \<times> int) list \<Rightarrow> cache \<Rightarrow> disk \<Rightarrow> cache \<times> disk" where
  "report_all C gws [] c D = (c, D)"
| "report_all C gws ((onion, valid, now) # rs) c D = (case reportReceipt C gws onion valid now c D of (c1, D1) \<Rightarrow> report_all C gws rs c1 D1)"

lemma report_all_ok: "scoring_ok C B N \<Longrightarrow> tally_ok C c \<Longrightarrow> tally_ok C (fst (report_all C gws rs c D))"
proof (induction rs arbitrary: c D)
  case (Cons r rs)
  obtain onion valid now where r: "r = (onion, valid, now)" by (cases r) auto
  from reportReceipt_ok [OF Cons.prems, of gws onion valid now D] Cons.IH [OF Cons.prems(1)] show ?case by (auto simp: r split: prod.split)
qed simp

text \<open>
  receipts move a weight by at most the configured bonus. After any sequence of receipt reports
  the factor of every gateway is a number between \<open>1 - B\<close> and \<open>1 + B\<close>, rounded, whatever the
  outcomes, the times and the evictions, for any monotone odd rounding that is exact on small
  integers.
\<close>

theorem receipt_factor_bounded:
  assumes "scoring_ok C B N"
  shows "\<exists>q. receiptFactor C (fst (report_all C gws rs [] D)) onion now = NFin q \<and> fl (num C) (1 - B) \<le> q \<and> q \<le> fl (num C) (1 + B)"
  by (rule receiptFactor_range [OF assms report_all_ok [OF assms]]) (simp add: tally_ok_def)

theorem receipt_factor_bounded_witness:
  "\<exists>q. receiptFactor demo_rep (fst (report_all demo_rep (Some [demo_gw ''a.onion'' 2]) [(''a'', False, 5)] [] demo_disk)) ''a.onion'' 6 = NFin q
     \<and> 0 \<le> q \<and> q \<le> 2"
  using receipt_factor_bounded [OF demo_scoring, of "Some [demo_gw ''a.onion'' 2]" "[(''a'', False, 5)]" demo_disk "''a.onion''" 6]
  by (simp add: fl_trunc del: report_all.simps)


text \<open>
  a stored cache is bounded and forgets the oldest first. For an integer limit \<open>n\<close> the bounded
  cache holds at most \<open>n\<close> entries, all unchanged, and an evicted onion was last seen no later than
  any kept one.
\<close>

theorem health_cache_bounded:
  assumes "jmap_wf c" "m = NFin (of_nat n)"
  shows "length (boundHealthCache F m c) \<le> n \<and> set (boundHealthCache F m c) \<subseteq> set c \<and> jmap_wf (boundHealthCache F m c)
    \<and> (\<forall>k k'. k \<in> fst ` set c \<and> k \<notin> fst ` set (boundHealthCache F m c) \<and> k' \<in> fst ` set (boundHealthCache F m c)
         \<longrightarrow> seen_key F c k \<le> seen_key F c k')"
  using bound_cache(1-3) [OF assms] bound_cache(4) [OF assms] by blast

theorem health_cache_bounded_witness:
  "length (boundHealthCache exact_env (NFin 1) [(''a'', JNull), (''b'', JNull), (''c'', JNull)]) \<le> 1"
proof -
  have "jmap_wf [(''a'', JNull), (''b'', JNull), (''c'', JNull)]" "NFin 1 = NFin (of_nat 1)" by simp_all
  from health_cache_bounded [OF this] show ?thesis by blast
qed

end
