(* ===== verification/RootUnion.thy ===== *)
theory RootUnion
  imports RootProvider
begin

text \<open>
  Several root providers at once and the polling of a provider: \<open>CompositeRootProvider\<close>,
  \<open>pollSnapshotKey\<close> and \<open>pollOnChange\<close> of \<^verbatim>\<open>src/lib/root-provider.mjs\<close>, and
  \<open>loadGroupOnchain\<close> of \<^verbatim>\<open>src/lib/rln.mjs\<close>, through which the gateway's root trust (theory
  \<open>Roots\<close>) reads them. A child provider is its contract and the result of its own \<open>currentRoots\<close>.
\<close>

section \<open>CompositeRootProvider\<close>

record union_acc =
  ua_roots :: "string list"
  ua_perSource :: "root_source list"
  ua_errors :: "(string \<times> string) list"
  ua_observedAtBlock :: "nat option"
  ua_finalized :: bool

fun add_roots :: "string list \<Rightarrow> string list \<Rightarrow> string list" where  \<comment> \<open>push the unseen ones in order\<close>
  "add_roots roots [] = roots"
| "add_roots roots (r # rs) = add_roots (if r \<in> set roots then roots else roots @ [r]) rs"

definition min_block :: "nat option \<Rightarrow> nat option \<Rightarrow> nat option" where
  "min_block acc b = (case b of None \<Rightarrow> acc | Some n \<Rightarrow> (case acc of None \<Rightarrow> Some n | Some m \<Rightarrow> Some (min m n)))"

definition union_child :: "string \<times> root_snapshot res \<Rightarrow> union_acc \<Rightarrow> union_acc" where
  "union_child child acc = (case child of
       (c, Inr r) \<Rightarrow> acc\<lparr>
         ua_roots := add_roots (ua_roots acc) (sn_roots r),
         ua_perSource := ua_perSource acc @ [\<lparr>rs_contract = c, rs_roots = sn_roots r, rs_leafCount = sn_leafCount r,
            rs_stale = sn_stale r, rs_error = sn_error r\<rparr>],
         ua_observedAtBlock := min_block (ua_observedAtBlock acc) (sn_observedAtBlock r),
         ua_finalized := ua_finalized acc \<and> sn_finalized r\<rparr>
     | (c, Inl e) \<Rightarrow> acc\<lparr>
         ua_errors := ua_errors acc @ [(c, rpc_message e)],
         ua_perSource := ua_perSource acc @ [\<lparr>rs_contract = c, rs_roots = [], rs_leafCount = None, rs_stale = False,
            rs_error = Some (rpc_message e)\<rparr>]\<rparr>)"

definition union_init :: union_acc where
  "union_init = \<lparr>ua_roots = [], ua_perSource = [], ua_errors = [], ua_observedAtBlock = None, ua_finalized = True\<rparr>"

definition composite_roots :: "(string \<times> root_snapshot res) list \<Rightarrow> root_snapshot res" where
  "composite_roots children =
     (let acc = fold union_child children union_init in
      if length (ua_errors acc) = length children
      then Inl (Error (''all root providers failed: '' @ join_with ''; '' (map (\<lambda>(c, m). c @ '': '' @ m) (ua_errors acc))))
      else Inr \<lparr>sn_roots = ua_roots acc, sn_observedAtBlock = ua_observedAtBlock acc, sn_finalized = ua_finalized acc,
        sn_leafCount = None, sn_stale = False, sn_error = None, sn_perSource = Some (ua_perSource acc), sn_errors = ua_errors acc\<rparr>)"

definition makeComposite :: "(string \<times> root_snapshot res) list \<Rightarrow> root_snapshot res" where  \<comment> \<open>constructing without children throws\<close>
  "makeComposite children =
     (if children = [] then Inl (Error ''CompositeRootProvider needs at least one child provider'') else composite_roots children)"

lemma set_add_roots: "set (add_roots roots rs) = set roots \<union> set rs"
  by (induction roots rs rule: add_roots.induct) auto

lemma distinct_add_roots: "distinct roots \<Longrightarrow> distinct (add_roots roots rs)"
  by (induction roots rs rule: add_roots.induct) auto

fun ok_snapshots :: "(string \<times> root_snapshot res) list \<Rightarrow> root_snapshot list" where
  "ok_snapshots [] = []"
| "ok_snapshots ((_, Inr s) # cs) = s # ok_snapshots cs"
| "ok_snapshots ((_, Inl _) # cs) = ok_snapshots cs"

fun failures :: "(string \<times> root_snapshot res) list \<Rightarrow> (string \<times> string) list" where
  "failures [] = []"
| "failures ((_, Inr _) # cs) = failures cs"
| "failures ((c, Inl e) # cs) = (c, rpc_message e) # failures cs"

lemma length_failures: "length (failures cs) + length (ok_snapshots cs) = length cs"
  by (induction cs rule: failures.induct) auto

lemma union_children:
  "set (ua_roots (fold union_child cs acc)) = set (ua_roots acc) \<union> \<Union> (set ` sn_roots ` set (ok_snapshots cs))"
  "distinct (ua_roots acc) \<Longrightarrow> distinct (ua_roots (fold union_child cs acc))"
  "ua_errors (fold union_child cs acc) = ua_errors acc @ failures cs"
  "map rs_contract (ua_perSource (fold union_child cs acc)) = map rs_contract (ua_perSource acc) @ map fst cs"
  "ua_finalized (fold union_child cs acc) \<longleftrightarrow> ua_finalized acc \<and> list_all sn_finalized (ok_snapshots cs)"
proof (induction cs arbitrary: acc rule: failures.induct)
  case (2 c s cs)
  { case 1 then show ?case using 2 by (auto simp: union_child_def set_add_roots) }
  { case 2 then show ?case using "2.IH"(2) by (simp add: union_child_def distinct_add_roots) }
  { case 3 then show ?case using 2 by (simp add: union_child_def) }
  { case 4 then show ?case using 2 by (simp add: union_child_def) }
  { case 5 then show ?case using 2 by (auto simp: union_child_def) }
next
  case (3 c e cs)
  { case 1 then show ?case using 3 by (auto simp: union_child_def) }
  { case 2 then show ?case using "3.IH"(2) by (simp add: union_child_def) }
  { case 3 then show ?case using "3.IH" by (simp add: union_child_def) }
  { case 4 then show ?case using "3.IH" by (simp add: union_child_def) }
  { case 5 then show ?case using "3.IH" by (auto simp: union_child_def) }
qed simp_all

text \<open>
  A composite provider trusts exactly the union of its sources. It fails only when every source
  failed; otherwise its roots are, without repetition, the roots of the sources that answered, each
  source that failed is reported with its error, every source is listed once in order, and the result
  is final only if every answer was.
\<close>

theorem composite_union_exact:
  "case composite_roots children of
     Inl _ \<Rightarrow> ok_snapshots children = []
   | Inr s \<Rightarrow> ok_snapshots children \<noteq> []
       \<and> set (sn_roots s) = \<Union> (set ` sn_roots ` set (ok_snapshots children)) \<and> distinct (sn_roots s)
       \<and> sn_errors s = failures children
       \<and> (\<exists>ps. sn_perSource s = Some ps \<and> map rs_contract ps = map fst children)
       \<and> (sn_finalized s \<longleftrightarrow> list_all sn_finalized (ok_snapshots children))"
  using length_failures [of children] union_children [where cs = children and acc = union_init]
  by (auto simp: composite_roots_def Let_def union_init_def)

section \<open>Polling\<close>

record poll_state =
  po_last :: "(string list \<times> (string \<times> string list \<times> bool \<times> bool) list \<times> string list) option"
  po_failed :: bool

text \<open>\<open>JSON.stringify\<close> of the compared fields; the model keeps them as a value.\<close>

definition pollSnapshotKey :: "root_snapshot \<Rightarrow> string list \<times> (string \<times> string list \<times> bool \<times> bool) list \<times> string list" where
  "pollSnapshotKey s = (sn_roots s,
     map (\<lambda>p. (js_lower (rs_contract p), rs_roots p, rs_stale p, (case rs_error p of None \<Rightarrow> False | Some m \<Rightarrow> m \<noteq> [])))
       (case sn_perSource s of Some ps \<Rightarrow> ps | None \<Rightarrow> []),
     sort (map (\<lambda>(c, _). js_lower c) (sn_errors s)))"

datatype root_callback = Changed "string list" | Expired exn

fun poll_run :: "root_snapshot res \<Rightarrow> poll_state \<Rightarrow> poll_state \<times> root_callback list" where
  "poll_run (Inl e) st = (\<lparr>po_last = None, po_failed = True\<rparr>, if po_failed st then [] else [Expired e])"
| "poll_run (Inr s) st =
     (let k = pollSnapshotKey s in
      if po_last st = Some k then (st\<lparr>po_failed := False\<rparr>, [])
      else (\<lparr>po_last = Some k, po_failed = False\<rparr>, [Changed (sn_roots s)]))"

definition poll_init :: poll_state where
  "poll_init = \<lparr>po_last = None, po_failed = False\<rparr>"

fun pollOnChange :: "root_snapshot res list \<Rightarrow> poll_state \<Rightarrow> poll_state \<times> root_callback list" where
  "pollOnChange [] st = (st, [])"
| "pollOnChange (r # rs) st = (case poll_run r st of (st1, cbs) \<Rightarrow> case pollOnChange rs st1 of (st2, cbs') \<Rightarrow> (st2, cbs @ cbs'))"

text \<open>What a consumer that follows the callbacks holds: the roots of the last one, none when expired.\<close>

fun callback_roots :: "root_callback \<Rightarrow> string list" where
  "callback_roots (Changed rs) = rs"
| "callback_roots (Expired _) = []"

definition consumer_view :: "root_callback list \<Rightarrow> string list \<Rightarrow> string list" where
  "consumer_view cbs start = (if cbs = [] then start else callback_roots (last cbs))"

definition result_roots :: "root_snapshot res \<Rightarrow> string list" where
  "result_roots r = (case r of Inr s \<Rightarrow> sn_roots s | Inl _ \<Rightarrow> [])"

definition poll_ok :: "poll_state \<Rightarrow> string list \<Rightarrow> bool" where  \<comment> \<open>the consumer holds the roots of the last poll\<close>
  "poll_ok st held \<longleftrightarrow> (po_failed st \<longrightarrow> held = [] \<and> po_last st = None) \<and> (\<forall>k. po_last st = Some k \<longrightarrow> held = fst k)"

lemma poll_run_ok:
  assumes "poll_ok st held" "poll_run r st = (st', cbs)"
  shows "poll_ok st' (consumer_view cbs held) \<and> consumer_view cbs held = result_roots r"
  using assms by (cases r) (auto simp: poll_ok_def consumer_view_def result_roots_def pollSnapshotKey_def Let_def split: if_splits)

lemma consumer_view_append: "consumer_view (a @ b) held = consumer_view b (consumer_view a held)"
  by (simp add: consumer_view_def)

lemma pollOnChange_ok:
  "poll_ok st held \<Longrightarrow> pollOnChange rs st = (st', cbs)
     \<Longrightarrow> poll_ok st' (consumer_view cbs held) \<and> (rs \<noteq> [] \<longrightarrow> consumer_view cbs held = result_roots (last rs))"
proof (induction rs arbitrary: st held cbs)
  case (Cons r rs)
  obtain st1 c1 where one: "poll_run r st = (st1, c1)" by (metis surj_pair)
  obtain st2 c2 where rest: "pollOnChange rs st1 = (st2, c2)" by (metis surj_pair)
  have eq: "st' = st2" "cbs = c1 @ c2" using Cons.prems(2) one rest by simp_all
  from poll_run_ok [OF Cons.prems(1) one] Cons.IH [of st1 "consumer_view c1 held" c2] rest
  show ?case by (cases rs) (auto simp: eq consumer_view_append)
qed (auto simp: consumer_view_def)

text \<open>An outage is notified once: no two expiries in a row.\<close>

fun expiries_apart :: "root_callback list \<Rightarrow> bool" where
  "expiries_apart (Expired _ # cs) = (expiries_apart cs \<and> (case cs of Expired _ # _ \<Rightarrow> False | _ \<Rightarrow> True))"
| "expiries_apart (Changed _ # cs) = expiries_apart cs"
| "expiries_apart [] = True"

lemma pollOnChange_apart:
  "pollOnChange rs st = (st', cbs) \<Longrightarrow> po_failed st \<longrightarrow> po_last st = None \<Longrightarrow> expiries_apart cbs \<and> (po_failed st \<longrightarrow> (case cbs of Expired _ # _ \<Rightarrow> False | _ \<Rightarrow> True))"
proof (induction rs arbitrary: st cbs)
  case (Cons r rs)
  obtain st1 c1 where one: "poll_run r st = (st1, c1)" by (metis surj_pair)
  obtain st2 c2 where rest: "pollOnChange rs st1 = (st2, c2)" by (metis surj_pair)
  have eq: "cbs = c1 @ c2" using Cons.prems(1) one rest by simp
  show ?case using Cons.IH [of st1 c2] Cons.prems rest one by (cases r) (auto simp: eq Let_def split: if_splits)
qed simp

text \<open>
  The gateway is never left with roots the provider no longer vouches for. After any sequence of
  polls, the consumer that follows the notifications holds exactly the roots of the last poll, and
  none if that poll failed, although equal snapshots are not notified again and an outage is notified
  once.
\<close>

theorem poll_consumer_current:
  assumes "pollOnChange (rs @ [r]) poll_init = (st, cbs)"
  shows "consumer_view cbs [] = result_roots r \<and> expiries_apart cbs"
  using pollOnChange_ok [OF _ assms, of "[]"] pollOnChange_apart [OF assms] by (simp add: poll_ok_def poll_init_def)

definition demo_snapshot :: "string list \<Rightarrow> root_snapshot" where
  "demo_snapshot roots = \<lparr>sn_roots = roots, sn_observedAtBlock = Some 7, sn_finalized = True, sn_leafCount = Some 1, sn_stale = False,
     sn_error = None, sn_perSource = None, sn_errors = []\<rparr>"

theorem poll_consumer_current_witness:
  "snd (pollOnChange [Inr (demo_snapshot [''A'']), Inl TypeError, Inl TypeError, Inr (demo_snapshot [''A''])] poll_init)
     = [Changed [''A''], Expired TypeError, Changed [''A'']]
   \<and> consumer_view [Changed [''A''], Expired TypeError, Changed [''A'']] [] = [''A'']"
proof -
  let ?rs = "[Inr (demo_snapshot [''A'']), Inl TypeError, Inl TypeError]"
  obtain st where run: "pollOnChange (?rs @ [Inr (demo_snapshot [''A''])]) poll_init = (st, [Changed [''A''], Expired TypeError, Changed [''A'']])"
    by (simp add: poll_init_def demo_snapshot_def pollSnapshotKey_def)
  from poll_consumer_current [OF run] run show ?thesis by (simp add: result_roots_def demo_snapshot_def)
qed

section \<open>Feeding the gateway\<close>

definition loadGroupOnchain :: "root_snapshot res \<Rightarrow> chain_read res" where
  "loadGroupOnchain r = bind_res r (\<lambda>s. Inr \<lparr>cr_recentRoots = sn_roots s, cr_perSource = sn_perSource s, cr_errors = sn_errors s,
     cr_leafCount = sn_leafCount s, cr_stale = sn_stale s, cr_error = sn_error s\<rparr>)"

fun gateway_event :: "root_snapshot res \<Rightarrow> root_callback \<Rightarrow> root_event" where
  \<comment> \<open>the consumer re-reads on a change, and drops the chain roots when the window expired\<close>
  "gateway_event reread (Changed _) = Polled (loadGroupOnchain reread)"
| "gateway_event reread (Expired e) = PollExpired (rpc_message e)"

end
