(* ===== verification/Selection.thy ===== *)
theory Selection
  imports Reputation Announce
begin

text \<open>
  The client's router, \<^verbatim>\<open>src/client/selection.mjs\<close>: loading and refreshing the signed directory
  with the rollback guard and the freshness bound, stake re-verification, the capability and
  admission filters, and the candidate order of a tunnel. A refresh is one step given what the fetch
  returned: the code reads the module's state only after its \<open>await\<close>, and callers that arrive
  meanwhile share the result. The Tor fetch, the stake reader and signer recovery are arguments.
\<close>

section \<open>Configuration and state\<close>

record sel_cfg =
  lib :: dir_lib
  rep :: rep_cfg
  bootnode_onion :: "string option"
  directory_path :: "string option"
  cache_path :: "string option"
  pinned :: pinned_arg
  verify_stake :: bool
  refresh_ms :: jnum
  max_age :: "rat option"
  max_age_skew :: jnum

record sel_state =
  loaded :: "(jsval \<times> string) option"
  loaded_at :: int
  last_issued :: jnum
  hcache :: cache
  rcache :: cache
  deficits :: swrr
  fs :: disk
  polling :: bool
  warned :: bool

definition nonempty_env :: "string option \<Rightarrow> string option" where  \<comment> \<open>\<open>process.env.X || null\<close>\<close>
  "nonempty_env v = (case v of Some s \<Rightarrow> if s = [] then None else Some s | None \<Rightarrow> None)"

definition parsePinnedSigners :: "string option \<Rightarrow> pinned_arg" where
  "parsePinnedSigners raw = (case nonempty_env raw of
     None \<Rightarrow> NoPin
   | Some r \<Rightarrow> let list = filter (\<lambda>s. s \<noteq> []) (map js_trim (split_on (CHR '','') r)) in
       if list = [] then NoPin else Pins (map JStr list))"

definition parseMaxAgeMs :: "float_env \<Rightarrow> string option \<Rightarrow> rat option" where
  "parseMaxAgeMs F raw = (case raw of None \<Rightarrow> None
     | Some s \<Rightarrow> (case nval F (JStr s) of NFin v \<Rightarrow> if v > 0 then Some v else None | _ \<Rightarrow> None))"

definition directory_cache_path :: "string \<Rightarrow> env \<Rightarrow> string option" where
  "directory_cache_path here e = (case nonempty_env (e ''SHADE_TREE_DIRECTORY_CACHE'') of
     Some p \<Rightarrow> Some p
   | None \<Rightarrow> if nonempty_env (e ''SHADE_TREE_BOOTNODE_ONION'') \<noteq> None then Some (here @ ''/../cache/bootnode-directory.lkg'')
       else map_option (\<lambda>p. p @ ''.lkg'') (nonempty_env (e ''SHADE_TREE_DIRECTORY'')))"

definition sel_config :: "dir_lib \<Rightarrow> float_env \<Rightarrow> (rat \<Rightarrow> string) \<Rightarrow> string \<Rightarrow> env \<Rightarrow> sel_cfg" where
  "sel_config L F t here e =
     \<lparr>lib = L, rep = rep_config F t here e,
      bootnode_onion = nonempty_env (e ''SHADE_TREE_BOOTNODE_ONION''), directory_path = nonempty_env (e ''SHADE_TREE_DIRECTORY''),
      cache_path = directory_cache_path here e, pinned = parsePinnedSigners (e ''SHADE_TREE_DIR_SIGNER''),
      verify_stake = (e ''SHADE_TREE_VERIFY_STAKE'' = Some ''1''),
      refresh_ms = nval F (js_or (env_val e ''SHADE_TREE_DIRECTORY_REFRESH_MS'') (JNum 300000)),
      max_age = parseMaxAgeMs F (e ''SHADE_TREE_DIRECTORY_MAX_AGE_MS''),
      max_age_skew = nmax (NFin 0) (nval F (js_or (env_val e ''SHADE_TREE_DIRECTORY_MAX_AGE_SKEW_MS'') (JNum 300000)))\<rparr>"

definition sel_init :: "sel_cfg \<Rightarrow> disk \<Rightarrow> sel_state" where
  "sel_init C D = \<lparr>loaded = None, loaded_at = 0, last_issued = NFin 0,
     hcache = cache_of (loadHealthCache D (health_path (rep C))),
     rcache = (if receipt_scoring (rep C) then cache_of (loadReceiptCache D (receipt_path (rep C))) else []),
     deficits = [], fs = D, polling = False, warned = False\<rparr>"

definition directoryEnabled :: "sel_cfg \<Rightarrow> bool" where
  "directoryEnabled C \<longleftrightarrow> (bootnode_onion C \<noteq> None \<or> directory_path C \<noteq> None) \<and> pinned C \<noteq> NoPin"

section \<open>Loading the directory\<close>

datatype canopy_event = Query | Verified jsval nat | Cached jsval nat | CanopyError

definition issued_of :: "float_env \<Rightarrow> jsval \<Rightarrow> jsval" where  \<comment> \<open>\<open>Number(dir.issued) || 0\<close>\<close>
  "issued_of F dir = js_or (js_number (getp dir ''issued'')) (JNum 0)"

definition canopyFields :: "float_env \<Rightarrow> jsval \<Rightarrow> jsval \<times> nat" where
  "canopyFields F dir = (issued_of F dir, case getp dir ''gateways'' of JArr gs \<Rightarrow> length gs | _ \<Rightarrow> 0)"

definition write_file :: "disk \<Rightarrow> string option \<Rightarrow> jsval \<Rightarrow> disk" where  \<comment> \<open>best effort\<close>
  "write_file D path v = (case path of Some p \<Rightarrow> if writable D p then D\<lparr>files := (files D)(p := Inr v)\<rparr> else D | None \<Rightarrow> D)"

definition loadFromBootnode :: "sel_cfg \<Rightarrow> jsval res \<Rightarrow> disk \<Rightarrow> (jsval \<times> string) res \<times> disk \<times> canopy_event list" where
  "loadFromBootnode C fetched D = (case verified_read (lib C) (pinned C) fetched of
     Inr dir \<Rightarrow> (Inr (dir, ''bootnode''), write_file D (cache_path C) dir, [Query])
   | Inl e \<Rightarrow> (case (case cache_path C of Some p \<Rightarrow> verified_read (lib C) (pinned C) (files D p) | None \<Rightarrow> Inl e) of
       Inr cached \<Rightarrow> (Inr (cached, ''cache''), D, [Query, case_prod Cached (canopyFields (num (rep C)) cached)])
     | Inl _ \<Rightarrow> (Inl (Error (''no verifiable bootnode directory (fresh: '' @ exn_message e @ '', no valid cache)'')), D, [Query, CanopyError])))"

definition load_static :: "sel_cfg \<Rightarrow> disk \<Rightarrow> (jsval \<times> string) res \<times> disk" where
  "load_static C D = (case loadDirectory (lib C) (pinned C) (map_option (files D) (directory_path C)) (map_option (files D) (cache_path C)) of
     (r, w) \<Rightarrow> (r, case w of Some v \<Rightarrow> write_file D (cache_path C) v | None \<Rightarrow> D))"

definition array_of :: "jsval \<Rightarrow> jsval list res" where
  "array_of v = (case v of JArr gs \<Rightarrow> Inr gs | _ \<Rightarrow> Inl TypeError)"

definition carry_entry :: "jsval list \<Rightarrow> jsval \<Rightarrow> jsval" where
  "carry_entry old g = (case find (\<lambda>p. getp p ''onion'' = getp g ''onion'') (rev old) of
     Some p \<Rightarrow> setp (setp (setp g ''health'' (getp p ''health'')) ''_fails'' (getp p ''_fails'')) ''_latencyMs'' (getp p ''_latencyMs'')
   | None \<Rightarrow> g)"

definition carry_health :: "jsval \<Rightarrow> jsval \<Rightarrow> jsval res" where
  "carry_health old dir = bind_res (array_of (getp old ''gateways'')) (\<lambda>os.
     bind_res (array_of (getp dir ''gateways'')) (\<lambda>gs. Inr (setp dir ''gateways'' (JArr (map (carry_entry os) gs)))))"

definition number_text :: "sel_cfg \<Rightarrow> jnum \<Rightarrow> string" where
  "number_text C x = js_string (num_js (dtoa (rep C)) x)"

definition too_stale :: "sel_cfg \<Rightarrow> int \<Rightarrow> jnum \<Rightarrow> bool" where
  "too_stale C now issued = (case max_age C of
     None \<Rightarrow> False
   | Some a \<Rightarrow> let F = num (rep C) in nlt (nadd F (NFin a) (max_age_skew C)) (nsub F (NFin (of_int now)) (nmul F issued (NFin 1000))))"

definition stale_message :: "sel_cfg \<Rightarrow> int \<Rightarrow> jnum \<Rightarrow> string" where
  "stale_message C now issued = (let F = num (rep C);
       secs = (\<lambda>ms. number_text C (nround (ndiv F ms (NFin 1000))));
       age = nsub F (NFin (of_int now)) (nmul F issued (NFin 1000));
       bound = nadd F (NFin (case max_age C of Some a \<Rightarrow> a | None \<Rightarrow> 0)) (max_age_skew C) in
     ''directory too stale: issued '' @ number_text C issued @ ''s is '' @ secs age @ ''s old > max-age '' @ secs bound @ ''s (bound + skew)'')"

text \<open>The part of a refresh after the load, up to \<open>loaded = next\<close>.\<close>

definition accept_directory :: "sel_cfg \<Rightarrow> int \<Rightarrow> jsval \<times> string \<Rightarrow> sel_state \<Rightarrow> unit res \<times> sel_state" where
  "accept_directory C now next st = (case next of (dir, source) \<Rightarrow>
     let F = num (rep C); issued = nval F (issued_of F dir) in
     if source \<noteq> ''cache'' \<and> nlt issued (last_issued st)
     then (Inl (Error (''directory rollback rejected: issued '' @ number_text C issued @ '' < last accepted '' @ number_text C (last_issued st))), st)
     else if source \<noteq> ''cache'' \<and> too_stale C now issued
     then (Inl (Error (stale_message C now issued)), st)
     else let st1 = st\<lparr>last_issued := (if nlt (last_issued st) issued then issued else last_issued st)\<rparr> in
       case loaded st of
         Some (old, _) \<Rightarrow> (case carry_health old dir of
             Inl e \<Rightarrow> (Inl e, st1)
           | Inr dir' \<Rightarrow> (Inr (), st1\<lparr>loaded := Some (dir', source), loaded_at := now\<rparr>))
       | None \<Rightarrow> (case seedHealthFromCache (rep C) dir (hcache st) now of (dir', c') \<Rightarrow>
             (Inr (), st1\<lparr>loaded := Some (dir', source), loaded_at := now, hcache := c'\<rparr>)))"

definition refresh_directory :: "sel_cfg \<Rightarrow> int \<Rightarrow> jsval res \<Rightarrow> sel_state \<Rightarrow> (jsval \<times> string) res \<times> sel_state \<times> canopy_event list" where
  "refresh_directory C now fetched st =
     (case (if bootnode_onion C \<noteq> None then loadFromBootnode C fetched (fs st) else case load_static C (fs st) of (r, D) \<Rightarrow> (r, D, [])) of
        (r, D, ev) \<Rightarrow>
          let st0 = st\<lparr>fs := D\<rparr>; keep = (\<lambda>e st. case loaded st of Some l \<Rightarrow> Inr l | None \<Rightarrow> Inl e) in
          (case r of
             Inl e \<Rightarrow> (keep e st0, st0, ev)
           | Inr next \<Rightarrow> (case accept_directory C now next st0 of
               (Inl e, st1) \<Rightarrow> (keep e st1, st1, ev @ (if bootnode_onion C \<noteq> None then [CanopyError] else []))
             | (Inr _, st1) \<Rightarrow> (case loaded st1 of
                 Some l \<Rightarrow> (Inr l, st1, ev @ (if bootnode_onion C \<noteq> None \<and> snd next = ''bootnode''
                   then [case_prod Verified (canopyFields (num (rep C)) (fst l))] else []))
               | None \<Rightarrow> (Inl TypeError, st1, ev)))))"

definition ensureLoaded :: "sel_cfg \<Rightarrow> int \<Rightarrow> bool \<Rightarrow> jsval res \<Rightarrow> sel_state \<Rightarrow> (jsval \<times> string) res \<times> sel_state \<times> canopy_event list" where
  "ensureLoaded C now force fetched st =
     (case loaded st of
        Some l \<Rightarrow> if \<not> force \<and> nlt (NFin (of_int (now - loaded_at st))) (refresh_ms C) then (Inr l, st, []) else refresh_directory C now fetched st
      | None \<Rightarrow> refresh_directory C now fetched st)"

section \<open>Polling\<close>

definition POLL_JITTER :: rat where "POLL_JITTER = 1 / 5"

definition nextPollDelay :: "sel_cfg \<Rightarrow> rat \<Rightarrow> jnum" where
  "nextPollDelay C u = (let F = num (rep C) in
     nmax (NFin 1) (nround (nmul F (refresh_ms C) (NFin (fl F (fl F (1 - POLL_JITTER) + fl F (2 * POLL_JITTER * u)))))))"

definition scheduleDirectoryPoll :: "sel_cfg \<Rightarrow> sel_state \<Rightarrow> sel_state" where
  "scheduleDirectoryPoll C st =
     (if polling st \<or> bootnode_onion C = None \<or> nle (refresh_ms C) (NFin 0) then st else st\<lparr>polling := True\<rparr>)"

definition stopDirectoryPolling :: "sel_state \<Rightarrow> sel_state" where
  "stopDirectoryPolling st = st\<lparr>polling := False\<rparr>"

definition poll_tick :: "sel_cfg \<Rightarrow> int \<Rightarrow> jsval res \<Rightarrow> sel_state \<Rightarrow> sel_state" where
  "poll_tick C now fetched st =
     (if polling st then scheduleDirectoryPoll C (fst (snd (ensureLoaded C now True fetched (st\<lparr>polling := False\<rparr>)))) else st)"

section \<open>Stake re-verification\<close>

text \<open>A call reads the clock once here.\<close>

record stake_env =
  se_ethers :: "(string \<Rightarrow> jsval \<Rightarrow> string res) option"
  se_staked :: "string \<Rightarrow> bool res"
  se_fetch :: "jsval \<Rightarrow> jsval res"  \<comment> \<open>\<open>fetchAnnounce(entry.onion)\<close>\<close>
  se_now :: int

definition defaultFetchAnnounce :: "sel_cfg \<Rightarrow> (string \<Rightarrow> jsval res) \<Rightarrow> string \<Rightarrow> jsval res" where
  "defaultFetchAnnounce C tor onion =
     (if bootnode_onion C = None then Inl (Error ''stake re-verification needs SHADE_TREE_BOOTNODE_ONION (no bootnode to fetch the signed announce from)'')
      else tor (''/gateway/'' @ full_onion onion))"

definition reverifyGateway :: "sel_cfg \<Rightarrow> stake_env \<Rightarrow> jsval \<Rightarrow> string option" where  \<comment> \<open>\<open>None\<close> is \<open>{ ok: true }\<close>, otherwise the reason\<close>
  "reverifyGateway C S entry =
     (if \<not> truthy entry \<or> \<not> truthy (getp entry ''operator'') then None
      else case se_fetch S (getp entry ''onion'') of
        Inl e \<Rightarrow> Some (''announce-fetch-failed:'' @ exn_message e)
      | Inr rec \<Rightarrow>
          if strip_onion (js_string (js_or (getp rec ''onion'') (JStr []))) \<noteq> strip_onion (js_string (getp entry ''onion''))
          then Some ''announce-onion-mismatch''
          else (case verifyAnnounce (lib C) (num (rep C)) (se_ethers S) (Some (se_staked S)) True (se_now S) None None rec of
              Inl reason \<Rightarrow> Some reason | Inr _ \<Rightarrow> None))"

definition filterReverified :: "sel_cfg \<Rightarrow> stake_env \<Rightarrow> jsval list \<Rightarrow> jsval list" where
  "filterReverified C S gateways = filter (\<lambda>g. \<not> truthy (getp g ''operator'') \<or> reverifyGateway C S g = None) gateways"

section \<open>Capability and admission filters\<close>

definition DEFAULT_EGRESS_PORT :: int where "DEFAULT_EGRESS_PORT = 443"
definition DEFAULT_PROTO_VERSION :: int where "DEFAULT_PROTO_VERSION = 4"

definition gatewayMeetsRequirement :: "float_env \<Rightarrow> jsval \<Rightarrow> jsval \<Rightarrow> bool" where
  "gatewayMeetsRequirement F entry req =
     (if \<not> is_object req then True
      else let caps = canonicalCaps (getp entry ''caps'') in
        (nullish (getp req ''port'') \<or> (case getp caps ''ports'' of
             JArr ps \<Rightarrow> js_number (getp req ''port'') \<in> set ps
           | _ \<Rightarrow> js_number (getp req ''port'') = JNum DEFAULT_EGRESS_PORT))
      \<and> (nullish (getp req ''proto'') \<or> (let v = js_number (getp req ''proto''); pr = getp caps ''proto'' in
           if truthy pr then nle (nval F (getp pr ''min'')) (nval F v) \<and> nle (nval F v) (nval F (getp pr ''max''))
           else v = JNum DEFAULT_PROTO_VERSION))
      \<and> (nullish (getp req ''region'') \<or> truthy (getp caps ''region'') \<and> getp caps ''region'' = getp req ''region'')
      \<and> (nullish (getp req ''rate'') \<or> truthy (getp caps ''rate'')
           \<and> json_stringify (getp caps ''rate'') = json_stringify (getp (canonicalCaps (JObj [(''rate'', getp req ''rate'')])) ''rate'')))"

definition requirementActive :: "jsval \<Rightarrow> bool" where
  "requirementActive req \<longleftrightarrow> is_object req \<and> list_ex (\<lambda>k. \<not> nullish (getp req k)) [''port'', ''proto'', ''region'', ''rate'']"

definition describeRequirement :: "jsval \<Rightarrow> string" where
  "describeRequirement req = join_with '',''
     (concat (map (\<lambda>k. if nullish (getp req k) then [] else [k @ ''='' @ js_string (getp req k)]) [''port'', ''proto'', ''region''])
      @ (if nullish (getp req ''rate'') then []
         else [''rate='' @ js_string (getp (getp req ''rate'') ''epochSeconds'') @ ''s/'' @ js_string (getp (getp req ''rate'') ''payloadBytesPerSlot'') @ ''B'']))"

definition filterByCapability :: "float_env \<Rightarrow> jsval list \<Rightarrow> jsval \<Rightarrow> jsval list" where
  "filterByCapability F gateways req =
     (if \<not> requirementActive req then gateways else filter (\<lambda>g. gatewayMeetsRequirement F g req) gateways)"

definition admitsOf :: "jsval \<Rightarrow> jsval list option" where
  "admitsOf entry = (case getp (canonicalCaps (getp entry ''caps'')) ''admits'' of JArr a \<Rightarrow> Some a | _ \<Rightarrow> None)"

definition leaf_source :: "jsval \<Rightarrow> jsval option" where
  "leaf_source adm = (let s = getp adm ''leafSource'' in if truthy s \<and> s \<noteq> JStr ''auto'' then Some s else None)"

definition admissionActive :: "jsval \<Rightarrow> bool" where
  "admissionActive adm \<longleftrightarrow> is_object adm \<and> (leaf_source adm \<noteq> None \<or> truthy (getp adm ''maxAnon''))"

definition admits_ok :: "jsval \<Rightarrow> jsval \<Rightarrow> bool" where
  "admits_ok adm g = (if truthy (getp adm ''maxAnon'') then admitsOf g = Some [JStr ''invited'']
     else case admitsOf g of None \<Rightarrow> True | Some a \<Rightarrow> (case leaf_source adm of Some s \<Rightarrow> s \<in> set a | None \<Rightarrow> JNull \<in> set a))"

text \<open>The kept gateways, and whether the legacy warning has been logged.\<close>

definition filterByAdmission :: "jsval list \<Rightarrow> jsval \<Rightarrow> bool \<Rightarrow> jsval list \<times> bool" where
  "filterByAdmission gateways adm was =
     (if \<not> admissionActive adm then (gateways, was)
      else (filter (admits_ok adm) gateways,
            was \<or> \<not> truthy (getp adm ''maxAnon'') \<and> list_ex (\<lambda>g. admitsOf g = None) gateways))"

definition describeFleetAdmits :: "jsval list \<Rightarrow> string" where
  "describeFleetAdmits gateways =
     (if gateways = [] then ''(empty directory)''
      else join_with '' '' (map (\<lambda>g. take 12 (js_string (js_or (getp g ''onion'') (JStr []))) @ ''..='' @
        (case admitsOf g of Some a \<Rightarrow> ''['' @ join_with '','' (map js_string a) @ '']'' | None \<Rightarrow> ''(no policy advertised)'')) gateways))"

section \<open>Candidates\<close>

record candidate =
  cd_onion :: string
  cd_artifacts :: "jsval option"
  cd_admits :: "jsval list option"
  cd_rate :: "jsval option"

definition truthy_opt :: "jsval \<Rightarrow> jsval option" where
  "truthy_opt v = (if truthy v then Some v else None)"

definition candidate_of :: "jsval \<Rightarrow> candidate" where
  "candidate_of g = (let caps = canonicalCaps (getp g ''caps'') in
     \<lparr>cd_onion = strip_onion (gw_key g), cd_artifacts = truthy_opt (getp caps ''artifacts''), cd_admits = admitsOf g,
      cd_rate = truthy_opt (getp caps ''rate'')\<rparr>)"

definition admission_error :: "jsval \<Rightarrow> jsval list \<Rightarrow> string" where
  "admission_error adm before =
     (if truthy (getp adm ''maxAnon'')
      then ''--max-anon: no invited-only gateway in the directory (a gateway qualifies only when its signed caps say admits=[invited]); fleet: '' @ describeFleetAdmits before
      else let s = js_string (getp adm ''leafSource'') in
        ''no gateway admits a '' @ s @ '' leaf (your leaf source); fleet: '' @ describeFleetAdmits before @ '' -- pick a gateway that admits '' @ s
        @ '', or obtain a leaf in a set the fleet admits (docs/CLIENTS.md '' @ [CHR 0x22] @ ''Leaf source'' @ [CHR 0x22] @ '')'')"

text \<open>The filters, on a fleet that is an array.\<close>

definition eligible :: "sel_cfg \<Rightarrow> stake_env \<Rightarrow> jsval \<Rightarrow> jsval \<Rightarrow> int \<Rightarrow> sel_state \<Rightarrow> jsval list \<Rightarrow> jsval list res \<times> bool" where
  "eligible C S req adm now st gateways =
     (let g1 = (if verify_stake C then filterReverified C S gateways else gateways) in
      case filterByAdmission g1 adm (warned st) of (g2, w) \<Rightarrow>
        if admissionActive adm \<and> g2 = [] then (Inl (Error (admission_error adm g1)), w)
        else let g3 = applyReceiptWeights (rep C) (rcache st) now g2;
                 g4 = filterByCapability (num (rep C)) g3 req in
          if requirementActive req \<and> g4 = [] then (Inl (Error (''no gateway meets capability requirement: '' @ describeRequirement req)), w)
          else (Inr g4, w))"

definition order_of :: "sel_cfg \<Rightarrow> (nat \<Rightarrow> rat) \<Rightarrow> jsval \<Rightarrow> sel_state \<Rightarrow> candidate list res \<times> sel_state" where
  "order_of C rng view st =
     (if rotation_spread (rep C)
      then (case spreadSelectionOrder (num (rep C)) rng view (deficits st) of (r, m) \<Rightarrow>
        (bind_res r (\<lambda>gs. Inr (map candidate_of gs)), st\<lparr>deficits := m\<rparr>))
      else (Inr (map candidate_of (selectionOrder (num (rep C)) rng view)), st))"

text \<open>A directory without a gateway array passes through only when no filter touches it.\<close>

definition selectCandidates :: "sel_cfg \<Rightarrow> stake_env \<Rightarrow> jsval \<Rightarrow> jsval \<Rightarrow> int \<Rightarrow> jsval res \<Rightarrow> (nat \<Rightarrow> rat) \<Rightarrow> sel_state \<Rightarrow>
    candidate list res \<times> sel_state \<times> canopy_event list" where
  "selectCandidates C S req adm now fetched rng st =
     (case ensureLoaded C now False fetched st of
        (Inl e, st1, ev) \<Rightarrow> (Inl e, st1, ev)
      | (Inr (dir, _), st1, ev) \<Rightarrow>
          let st2 = scheduleDirectoryPoll C st1 in
          (case getp dir ''gateways'' of
             JArr gs \<Rightarrow> (case eligible C S req adm now st2 gs of
                 (Inl e, w) \<Rightarrow> (Inl e, st2\<lparr>warned := w\<rparr>, ev)
               | (Inr gs', w) \<Rightarrow> (case order_of C rng (setp dir ''gateways'' (JArr gs')) (st2\<lparr>warned := w\<rparr>) of (r, st3) \<Rightarrow> (r, st3, ev)))
           | _ \<Rightarrow> if verify_stake C \<or> admissionActive adm \<or> receipt_scoring (rep C) \<or> requirementActive req then (Inl TypeError, st2, ev)
               else (case order_of C rng dir st2 of (r, st3) \<Rightarrow> (r, st3, ev))))"

definition reportResult :: "sel_cfg \<Rightarrow> string \<Rightarrow> bool option \<Rightarrow> jsval \<Rightarrow> int \<Rightarrow> sel_state \<Rightarrow> sel_state" where
  "reportResult C onion ok latencyMs now st = (case loaded st of
     None \<Rightarrow> st
   | Some (dir, src) \<Rightarrow>
       let full = full_onion onion;
           gs = reportHealth (num (rep C)) (gateway_list dir) (JStr full) ok latencyMs;
           dir' = (case getp dir ''gateways'' of JArr _ \<Rightarrow> setp dir ''gateways'' (JArr gs) | _ \<Rightarrow> dir) in
       case updateHealthCache (rep C) gs full ok latencyMs now (hcache st) (fs st) of (c, D) \<Rightarrow>
         st\<lparr>loaded := Some (dir', src), hcache := c, fs := D\<rparr>)"

definition report_receipt :: "sel_cfg \<Rightarrow> string \<Rightarrow> bool \<Rightarrow> int \<Rightarrow> sel_state \<Rightarrow> sel_state" where
  "report_receipt C onion valid now st =
     (case reportReceipt (rep C) (map_option (\<lambda>l. gateway_list (fst l)) (loaded st)) onion valid now (rcache st) (fs st) of (c, D) \<Rightarrow>
        st\<lparr>rcache := c, fs := D\<rparr>)"

section \<open>Runs of the router\<close>

datatype sel_event =
    EEnsure int bool "jsval res"
  | ESelect stake_env jsval jsval int "jsval res" "nat \<Rightarrow> rat"
  | EResult string "bool option" jsval int
  | EReceipt string bool int
  | EPoll int "jsval res"
  | EStop

fun sel_step :: "sel_cfg \<Rightarrow> sel_event \<Rightarrow> sel_state \<Rightarrow> sel_state" where
  "sel_step C (EEnsure now force fetched) st = fst (snd (ensureLoaded C now force fetched st))"
| "sel_step C (ESelect S req adm now fetched rng) st = fst (snd (selectCandidates C S req adm now fetched rng st))"
| "sel_step C (EResult onion ok lat now) st = reportResult C onion ok lat now st"
| "sel_step C (EReceipt onion valid now) st = report_receipt C onion valid now st"
| "sel_step C (EPoll now fetched) st = poll_tick C now fetched st"
| "sel_step C EStop st = stopDirectoryPolling st"

inductive sel_reach :: "sel_cfg \<Rightarrow> sel_state \<Rightarrow> bool" for C where
  sel_start: "sel_reach C (sel_init C D)"
| sel_next: "sel_reach C st \<Longrightarrow> sel_reach C (sel_step C e st)"

definition live_keys :: "string set" where
  "live_keys = {''health'', ''_fails'', ''_latencyMs''}"

definition same_gw :: "jsval \<Rightarrow> jsval \<Rightarrow> bool" where  \<comment> \<open>equal but for the client's own liveness notes\<close>
  "same_gw g h \<longleftrightarrow> (plain_object g \<longrightarrow> plain_object h) \<and> (\<forall>k. k \<notin> live_keys \<longrightarrow> getp h k = getp g k)"

definition dir_verified :: "sel_cfg \<Rightarrow> jsval \<Rightarrow> bool" where
  "dir_verified C dir \<longleftrightarrow> (\<exists>v. verifyDirectory (lib C) False dir (pinned C) = Inr v \<and> dir_ok v)"

definition live_copy :: "jsval \<Rightarrow> jsval \<Rightarrow> bool" where  \<comment> \<open>the same directory, entry by entry, but for the liveness notes\<close>
  "live_copy orig dir \<longleftrightarrow> plain_object dir \<and> (\<forall>k. k \<noteq> ''gateways'' \<longrightarrow> getp dir k = getp orig k)
     \<and> list_all2 same_gw (gateway_list orig) (gateway_list dir)"

definition from_verified :: "sel_cfg \<Rightarrow> jsval \<Rightarrow> bool" where
  "from_verified C dir \<longleftrightarrow> (\<exists>orig. dir_verified C orig \<and> live_copy orig dir)"

definition dir_issued :: "sel_cfg \<Rightarrow> jsval \<Rightarrow> jnum" where
  "dir_issued C dir = nval (num (rep C)) (issued_of (num (rep C)) dir)"

definition sel_inv :: "sel_cfg \<Rightarrow> sel_state \<Rightarrow> bool" where
  "sel_inv C st \<longleftrightarrow> last_issued st \<noteq> NNaN
     \<and> (\<forall>dir src. loaded st = Some (dir, src) \<longrightarrow> from_verified C dir \<and> nle (dir_issued C dir) (last_issued st))"

lemma same_gw_refl [simp]: "same_gw g g" by (simp add: same_gw_def)

lemma same_gw_trans: "same_gw a b \<Longrightarrow> same_gw b c \<Longrightarrow> same_gw a c" by (simp add: same_gw_def)

lemma same_gw_setp: "k \<in> live_keys \<Longrightarrow> same_gw g h \<Longrightarrow> same_gw g (setp h k x)"
proof -
  assume a: "k \<in> live_keys" "same_gw g h"
  have "getp (setp h k x) k' = getp g k'" if "k' \<notin> live_keys" for k'
    using a that getp_setp [of k k' h x] by (auto simp: same_gw_def)
  with a show ?thesis by (simp add: same_gw_def)
qed

lemma live_keys_mem [simp]: "''health'' \<in> live_keys" "''_fails'' \<in> live_keys" "''_latencyMs'' \<in> live_keys"
  by (simp_all add: live_keys_def)

lemma same_gw_carry: "same_gw g (carry_entry os g)"
  by (simp add: carry_entry_def same_gw_setp split: option.split)

lemma same_gw_seed: "same_gw g (fst (seed_entry C now g c))"
  by (simp add: seed_entry_def Let_def same_gw_setp split: option.split)

lemma same_gw_health: "same_gw g (health_entry F ok lat g)"
  by (simp add: health_entry_def Let_def same_gw_setp split: option.split bool.split)

lemma list_all2_map_same: "(\<And>g. same_gw g (f g)) \<Longrightarrow> list_all2 same_gw gs (map f gs)"
  by (simp add: list_all2_conv_all_nth)

lemma list_all2_seed: "list_all2 same_gw gs (fst (seed_loop C now gs c))"
proof (induction gs arbitrary: c)
  case (Cons g gs)
  obtain g' c1 gs' c2 where e: "seed_entry C now g c = (g', c1)" "seed_loop C now gs c1 = (gs', c2)" by (metis surj_pair)
  with Cons [of c1] same_gw_seed [of g C now c] show ?case by simp
qed simp

lemma list_all2_report: "list_all2 same_gw gs (reportHealth F gs onion ok lat)"
proof -
  have "list_all2 same_gw gs (update_first P (health_entry F ok lat) gs)" for P
    by (induction gs) (auto simp: same_gw_health list_all2_same)
  then show ?thesis by (simp add: reportHealth_def)
qed

lemma verified_plain: "dir_verified C dir \<Longrightarrow> plain_object dir"
proof -
  assume "dir_verified C dir"
  then obtain v where v: "verifyDirectory (lib C) False dir (pinned C) = Inr v" "dir_ok v" by (auto simp: dir_verified_def)
  show ?thesis
  proof (cases dir)
    case (JArr x)
    with v show ?thesis by (auto simp: verifyDirectory_def isThresholdDirectory_def)
  qed (use v in \<open>auto simp: verifyDirectory_def\<close>)
qed

lemma live_copy_self: "plain_object dir \<Longrightarrow> live_copy dir dir"
  by (auto simp: live_copy_def intro: list.rel_refl)

lemma live_copy_setp:
  assumes "live_copy orig dir" "list_all2 same_gw (gateway_list dir) gs"
  shows "live_copy orig (setp dir ''gateways'' (JArr gs))"
proof -
  from assms(1) have o': "\<forall>k. k \<noteq> ''gateways'' \<longrightarrow> getp dir k = getp orig k"
    "list_all2 same_gw (gateway_list orig) (gateway_list dir)" "plain_object dir" by (auto simp: live_copy_def)
  have "list_all2 same_gw (gateway_list orig) gs"
    by (rule list_all2_trans [OF same_gw_trans o'(2) assms(2)])
  moreover have "getp (setp dir ''gateways'' (JArr gs)) k = getp orig k" if "k \<noteq> ''gateways''" for k
    using that o'(1) getp_setp [of "''gateways''" k dir "JArr gs"] by simp
  ultimately show ?thesis using o'(3) unfolding live_copy_def by auto
qed

lemma live_copy_issued: "live_copy orig dir \<Longrightarrow> dir_issued C dir = dir_issued C orig"
  by (simp add: live_copy_def dir_issued_def issued_of_def)

lemma from_verified_setp:
  assumes "from_verified C dir" "list_all2 same_gw (gateway_list dir) gs"
  shows "from_verified C (setp dir ''gateways'' (JArr gs))" "dir_issued C (setp dir ''gateways'' (JArr gs)) = dir_issued C dir"
proof -
  obtain orig where o': "dir_verified C orig" "live_copy orig dir" using assms(1) by (auto simp: from_verified_def)
  note copy = live_copy_setp [OF o'(2) assms(2)]
  show "from_verified C (setp dir ''gateways'' (JArr gs))" using o'(1) copy by (auto simp: from_verified_def)
  show "dir_issued C (setp dir ''gateways'' (JArr gs)) = dir_issued C dir"
    using live_copy_issued [OF copy] live_copy_issued [OF o'(2)] by simp
qed

lemma gateway_list_arr: "getp dir ''gateways'' = JArr gs \<Longrightarrow> gateway_list dir = gs"
  by (simp add: gateway_list_def gateways_of_def js_or_def)

lemma dir_issued_num: "dir_issued C dir \<noteq> NNaN"
proof -
  let ?x = "js_number (getp dir ''issued'')"
  have n: "is_num ?x" by (rule js_number_range)
  show ?thesis
  proof (cases "truthy ?x")
    case True
    with n show ?thesis by (auto simp: dir_issued_def issued_of_def js_or_def nval_def is_num_def split: if_split_asm)
  next
    case False
    then show ?thesis by (simp add: dir_issued_def issued_of_def js_or_def nval_def)
  qed
qed

lemma nle_total: "a \<noteq> NNaN \<Longrightarrow> b \<noteq> NNaN \<Longrightarrow> \<not> nlt b a \<Longrightarrow> nle a b"
  by (cases a; cases b) (auto simp: nlt_def)

lemma nle_refl: "a \<noteq> NNaN \<Longrightarrow> nle a a"
  by (cases a) auto

lemma nle_trans: "nle a b \<Longrightarrow> nle b c \<Longrightarrow> nle a c"
  by (cases a; cases b; cases c) auto

text \<open>
  \<open>next\<close> was installed: the loaded directory is the verified one, field by field and gateway by
  gateway, and a fresh one is no older than any accepted before and within the age bound.
\<close>

definition accepted :: "sel_cfg \<Rightarrow> int \<Rightarrow> jsval \<times> string \<Rightarrow> sel_state \<Rightarrow> sel_state \<Rightarrow> bool" where
  "accepted C now next st st' \<longleftrightarrow> (\<exists>dir'. loaded st' = Some (dir', snd next) \<and> live_copy (fst next) dir'
     \<and> dir_issued C dir' = dir_issued C (fst next)
     \<and> (snd next \<noteq> ''cache'' \<longrightarrow> nle (last_issued st) (dir_issued C dir') \<and> \<not> too_stale C now (dir_issued C dir')))"

lemma seed_live_copy:
  assumes "plain_object dir"
  shows "live_copy dir (fst (seedHealthFromCache R dir c now))"
proof (cases "getp dir ''gateways''")
  case (JArr gs)
  with live_copy_setp [OF live_copy_self [OF assms], of "fst (seed_loop R now gs c)"] list_all2_seed [of gs R now c]
  show ?thesis by (cases "seed_loop R now gs c") (simp add: seedHealthFromCache_def gateway_list_arr)
qed (use live_copy_self [OF assms] in \<open>simp_all add: seedHealthFromCache_def\<close>)

lemma carry_live_copy:
  assumes "plain_object dir" "carry_health old dir = Inr dir'"
  shows "live_copy dir dir'"
proof -
  from assms(2) obtain os gs where g: "getp dir ''gateways'' = JArr gs" "dir' = setp dir ''gateways'' (JArr (map (carry_entry os) gs))"
    by (auto simp: carry_health_def array_of_def bind_res_Inr_iff split: jsval.splits)
  have "list_all2 same_gw (gateway_list dir) (map (carry_entry os) gs)"
    using g(1) by (simp add: gateway_list_arr list_all2_map_same same_gw_carry)
  from live_copy_setp [OF live_copy_self [OF assms(1)] this] g(2) show ?thesis by simp
qed

lemma accept_directory_spec:
  assumes inv: "sel_inv C st" and ver: "dir_verified C dir" and acc: "accept_directory C now (dir, src) st = (r, st')"
  shows "sel_inv C st'" "nle (last_issued st) (last_issued st')" "fs st' = fs st" "polling st' = polling st"
    "(\<exists>e. r = Inl e) \<and> loaded st' = loaded st \<or> r = Inr () \<and> accepted C now (dir, src) st st'"
proof -
  let ?i = "dir_issued C dir" and ?l = "last_issued st"
  define st1 where "st1 = st\<lparr>last_issued := (if nlt ?l ?i then ?i else ?l)\<rparr>"
  have nn: "?l \<noteq> NNaN" using inv by (simp add: sel_inv_def)
  have up: "nle ?l (last_issued st1)" "nle ?i (last_issued st1)" "last_issued st1 \<noteq> NNaN"
    using nle_refl [OF nn] nle_refl [OF dir_issued_num, of C dir] nle_total [OF dir_issued_num nn, of C dir] dir_issued_num nn
    by (auto simp: st1_def nlt_def)
  have i1: "sel_inv C st1"
    using inv up(1,3) unfolding sel_inv_def by (auto simp: st1_def intro: nle_trans)
  have pl: "plain_object dir" by (rule verified_plain [OF ver])
  have new: "sel_inv C (st1\<lparr>loaded := Some (dir', src), loaded_at := now, hcache := c\<rparr>)" "accepted C now (dir, src) st (st1\<lparr>loaded := Some (dir', src), loaded_at := now, hcache := c\<rparr>)"
    if "live_copy dir dir'" "src = ''cache'' \<or> \<not> nlt ?i ?l" "src = ''cache'' \<or> \<not> too_stale C now ?i" for dir' c
  proof -
    have "from_verified C dir'" using ver that(1) by (auto simp: from_verified_def)
    then show "sel_inv C (st1\<lparr>loaded := Some (dir', src), loaded_at := now, hcache := c\<rparr>)"
      "accepted C now (dir, src) st (st1\<lparr>loaded := Some (dir', src), loaded_at := now, hcache := c\<rparr>)"
      using that live_copy_issued [OF that(1), of C] up nle_total [OF nn dir_issued_num, of C dir] by (auto simp: sel_inv_def accepted_def)
  qed
  have def: "accept_directory C now (dir, src) st =
     (if src \<noteq> ''cache'' \<and> nlt ?i ?l
      then (Inl (Error (''directory rollback rejected: issued '' @ number_text C ?i @ '' < last accepted '' @ number_text C ?l)), st)
      else if src \<noteq> ''cache'' \<and> too_stale C now ?i then (Inl (Error (stale_message C now ?i)), st)
      else (case loaded st of
         Some (old, _) \<Rightarrow> (case carry_health old dir of Inl e \<Rightarrow> (Inl e, st1)
           | Inr dir' \<Rightarrow> (Inr (), st1\<lparr>loaded := Some (dir', src), loaded_at := now\<rparr>))
       | None \<Rightarrow> (case seedHealthFromCache (rep C) dir (hcache st) now of (dir', c') \<Rightarrow>
             (Inr (), st1\<lparr>loaded := Some (dir', src), loaded_at := now, hcache := c'\<rparr>))))"
    by (simp only: accept_directory_def Let_def dir_issued_def st1_def prod.case)
  consider (bad) e where "r = Inl e" "st' = st \<or> st' = st1"
    | (ok) dir' c where "r = Inr ()" "st' = st1\<lparr>loaded := Some (dir', src), loaded_at := now, hcache := c\<rparr>" "live_copy dir dir'"
        "src = ''cache'' \<or> \<not> nlt ?i ?l" "src = ''cache'' \<or> \<not> too_stale C now ?i"
  proof (cases "src \<noteq> ''cache'' \<and> nlt ?i ?l \<or> src \<noteq> ''cache'' \<and> too_stale C now ?i")
    case True
    then show ?thesis using acc bad by (auto simp: def split: if_split_asm)
  next
    case False
    then have g: "src = ''cache'' \<or> \<not> nlt ?i ?l" "src = ''cache'' \<or> \<not> too_stale C now ?i" by auto
    show ?thesis
    proof (cases "loaded st")
      case None
      let ?s = "seedHealthFromCache (rep C) dir (hcache st) now"
      have e: "r = Inr ()" "st' = st1\<lparr>loaded := Some (fst ?s, src), loaded_at := now, hcache := snd ?s\<rparr>"
        using acc False None by (auto simp: def split: prod.splits if_split_asm)
      show ?thesis by (rule ok [OF e seed_live_copy [OF pl] g])
    next
      case (Some l)
      obtain old s where l: "l = (old, s)" by (cases l)
      show ?thesis
      proof (cases "carry_health old dir")
        case (Inl e)
        then show ?thesis using acc False Some l bad by (auto simp: def split: if_split_asm)
      next
        case (Inr dir')
        have e: "r = Inr ()" "st' = st1\<lparr>loaded := Some (dir', src), loaded_at := now, hcache := hcache st1\<rparr>"
          using acc False Some l Inr by (auto simp: def split: if_split_asm)
        show ?thesis by (rule ok [OF e carry_live_copy [OF pl Inr] g])
      qed
    qed
  qed
  then have "sel_inv C st' \<and> nle ?l (last_issued st') \<and> fs st' = fs st \<and> polling st' = polling st
    \<and> ((\<exists>e. r = Inl e) \<and> loaded st' = loaded st \<or> r = Inr () \<and> accepted C now (dir, src) st st')"
  proof cases
    case bad
    then show ?thesis using inv i1 up nle_refl [OF nn] by (auto simp: st1_def)
  next
    case ok
    then show ?thesis using new [OF ok(3-5), of c] up(1) by (simp add: st1_def)
  qed
  then show "sel_inv C st'" "nle (last_issued st) (last_issued st')" "fs st' = fs st" "polling st' = polling st"
    "(\<exists>e. r = Inl e) \<and> loaded st' = loaded st \<or> r = Inr () \<and> accepted C now (dir, src) st st'" by blast+
qed

lemma verified_read_Inr: "verified_read (lib C) (pinned C) r = Inr d \<longleftrightarrow> r = Inr d \<and> dir_verified C d"
proof (cases r)
  case (Inr b)
  show ?thesis
  proof (cases "verifyDirectory (lib C) False b (pinned C)")
    case (Inr v)
    with \<open>r = Inr b\<close> show ?thesis by (cases v) (auto simp: verified_read_def dir_verified_def)
  qed (use Inr in \<open>auto simp: verified_read_def dir_verified_def\<close>)
qed (simp add: verified_read_def)

lemma loadFromBootnode_verified: "loadFromBootnode C fetched D = (Inr (dir, src), D', ev) \<Longrightarrow> dir_verified C dir"
  by (auto simp: loadFromBootnode_def verified_read_Inr split: sum.splits option.splits)

lemma load_static_verified: "load_static C D = (Inr (dir, src), D') \<Longrightarrow> dir_verified C dir"
  by (auto simp: load_static_def loadDirectory_def Let_def verified_read_Inr split: sum.splits option.splits prod.splits if_split_asm)

definition load_result :: "sel_cfg \<Rightarrow> jsval res \<Rightarrow> sel_state \<Rightarrow> (jsval \<times> string) res \<times> disk \<times> canopy_event list" where
  "load_result C fetched st = (if bootnode_onion C \<noteq> None then loadFromBootnode C fetched (fs st) else case load_static C (fs st) of (r, D) \<Rightarrow> (r, D, []))"

lemma load_result_verified: "load_result C fetched st = (Inr (dir, src), D', ev) \<Longrightarrow> dir_verified C dir"
  using loadFromBootnode_verified load_static_verified by (auto simp: load_result_def split: if_split_asm prod.splits)

lemma sel_inv_fs [simp]: "sel_inv C (st\<lparr>fs := D\<rparr>) = sel_inv C st" "sel_inv C (st\<lparr>polling := b\<rparr>) = sel_inv C st"
  "sel_inv C (st\<lparr>warned := b\<rparr>) = sel_inv C st" "sel_inv C (st\<lparr>deficits := m\<rparr>) = sel_inv C st"
  "sel_inv C (st\<lparr>rcache := c, fs := D\<rparr>) = sel_inv C st"
  by (simp_all add: sel_inv_def)

lemma refresh_spec:
  assumes "sel_inv C st" "refresh_directory C now fetched st = (r, st', ev)"
  shows "sel_inv C st' \<and> nle (last_issued st) (last_issued st')
    \<and> (loaded st' = loaded st \<or> (\<exists>next. fst (load_result C fetched st) = Inr next \<and> dir_verified C (fst next) \<and> accepted C now next st st'))
    \<and> (case loaded st' of Some l \<Rightarrow> r = Inr l | None \<Rightarrow> \<exists>e. r = Inl e)"
proof -
  have nn: "nle (last_issued st) (last_issued st)" using assms(1) nle_refl by (simp add: sel_inv_def)
  obtain lr D ev0 where l: "load_result C fetched st = (lr, D, ev0)" by (metis surj_pair)
  have i0: "sel_inv C (st\<lparr>fs := D\<rparr>)" using assms(1) by simp
  show ?thesis
  proof (cases lr)
    case (Inl e)
    with l assms(2) have "st' = st\<lparr>fs := D\<rparr>" "r = (case loaded st of Some l \<Rightarrow> Inr l | None \<Rightarrow> Inl e)"
      by (auto simp: refresh_directory_def load_result_def Let_def)
    with i0 nn show ?thesis by (simp split: option.split)
  next
    case (Inr nx)
    obtain dir src where n: "nx = (dir, src)" by (cases nx)
    with l Inr have v: "dir_verified C dir" using load_result_verified by blast
    obtain q st1 where a: "accept_directory C now (dir, src) (st\<lparr>fs := D\<rparr>) = (q, st1)" by (metis surj_pair)
    note A = accept_directory_spec [OF i0 v a]
    have acc: "accepted C now nx (st\<lparr>fs := D\<rparr>) st1 = accepted C now nx st st1" by (simp add: accepted_def)
    show ?thesis
    proof (cases q)
      case (Inl e)
      with l Inr n a \<open>lr = Inr nx\<close> assms(2) have "st' = st1" "r = (case loaded st1 of Some l \<Rightarrow> Inr l | None \<Rightarrow> Inl e)"
        by (auto simp: refresh_directory_def load_result_def Let_def)
      with A Inl show ?thesis by (auto split: option.split)
    next
      case (Inr u)
      then have "accepted C now nx st st1" using A(5) n acc by auto
      moreover from this obtain dir' where l1: "loaded st1 = Some (dir', src)" by (auto simp: accepted_def n)
      moreover have "st' = st1" "r = Inr (dir', src)"
        using l Inr n a \<open>lr = Inr nx\<close> assms(2) l1 by (auto simp: refresh_directory_def load_result_def Let_def)
      ultimately show ?thesis using A(1,2) v n l Inr \<open>lr = Inr nx\<close> by auto
    qed
  qed
qed

lemma ensureLoaded_spec:
  assumes "sel_inv C st" "ensureLoaded C now force fetched st = (r, st', ev)"
  shows "sel_inv C st'" "nle (last_issued st) (last_issued st')"
    "loaded st' = loaded st \<or> (\<exists>next. fst (load_result C fetched st) = Inr next \<and> dir_verified C (fst next) \<and> accepted C now next st st')"
    "case loaded st' of Some l \<Rightarrow> r = Inr l | None \<Rightarrow> \<exists>e. r = Inl e"
proof -
  have nn: "nle (last_issued st) (last_issued st)" using assms(1) nle_refl by (simp add: sel_inv_def)
  consider "refresh_directory C now fetched st = (r, st', ev)" | l where "loaded st = Some l" "r = Inr l" "st' = st"
    using assms(2) by (auto simp: ensureLoaded_def split: option.splits if_split_asm)
  then have "sel_inv C st' \<and> nle (last_issued st) (last_issued st')
    \<and> (loaded st' = loaded st \<or> (\<exists>next. fst (load_result C fetched st) = Inr next \<and> dir_verified C (fst next) \<and> accepted C now next st st'))
    \<and> (case loaded st' of Some l \<Rightarrow> r = Inr l | None \<Rightarrow> \<exists>e. r = Inl e)"
    by cases (use refresh_spec [OF assms(1)] assms(1) nn in auto)
  then show "sel_inv C st'" "nle (last_issued st) (last_issued st')"
    "loaded st' = loaded st \<or> (\<exists>next. fst (load_result C fetched st) = Inr next \<and> dir_verified C (fst next) \<and> accepted C now next st st')"
    "case loaded st' of Some l \<Rightarrow> r = Inr l | None \<Rightarrow> \<exists>e. r = Inl e" by blast+
qed

lemma schedule_inv [simp]: "sel_inv C (scheduleDirectoryPoll C st) = sel_inv C st" "loaded (scheduleDirectoryPoll C st) = loaded st"
  "last_issued (scheduleDirectoryPoll C st) = last_issued st"
  by (simp_all add: scheduleDirectoryPoll_def)

lemma order_of_frame: "loaded (snd (order_of C rng view s)) = loaded s" "last_issued (snd (order_of C rng view s)) = last_issued s"
  by (simp_all add: order_of_def split: prod.split)

lemma select_tail:
  "loaded (fst (snd (case order_of C rng view s of (r, st3) \<Rightarrow> (r, st3, ev)))) = loaded s"
  "last_issued (fst (snd (case order_of C rng view s of (r, st3) \<Rightarrow> (r, st3, ev)))) = last_issued s"
  using order_of_frame [of C rng view s] by (cases "order_of C rng view s", simp)+

lemma selectCandidates_frame:
  assumes "ensureLoaded C now False fetched st = (l, st1, ev1)"
  shows "loaded (fst (snd (selectCandidates C S req adm now fetched rng st))) = loaded st1"
    "last_issued (fst (snd (selectCandidates C S req adm now fetched rng st))) = last_issued st1"
proof -
  let ?Q = "\<lambda>z :: candidate list res \<times> sel_state \<times> canopy_event list. loaded (fst (snd z)) = loaded st1 \<and> last_issued (fst (snd z)) = last_issued st1"
  have e: "?Q (case eligible C S req adm now (scheduleDirectoryPoll C st1) gs of
       (Inl e, w) \<Rightarrow> (Inl e, (scheduleDirectoryPoll C st1)\<lparr>warned := w\<rparr>, ev1)
     | (Inr gs', w) \<Rightarrow> (case order_of C rng (v gs') ((scheduleDirectoryPoll C st1)\<lparr>warned := w\<rparr>) of (r, st3) \<Rightarrow> (r, st3, ev1)))" for gs v
    by (cases "eligible C S req adm now (scheduleDirectoryPoll C st1) gs"; cases "fst (eligible C S req adm now (scheduleDirectoryPoll C st1) gs)")
       (simp_all add: select_tail)
  have t: "?Q (if b then (Inl TypeError, scheduleDirectoryPoll C st1, ev1) else case order_of C rng v (scheduleDirectoryPoll C st1) of (r, st3) \<Rightarrow> (r, st3, ev1))" for b v
    by (simp add: select_tail)
  have "?Q (selectCandidates C S req adm now fetched rng st)"
  proof (cases l)
    case (Inl x)
    with assms show ?thesis by (simp add: selectCandidates_def)
  next
    case (Inr p)
    obtain dir src where p: "p = (dir, src)" by (cases p)
    show ?thesis
      by (cases "getp dir ''gateways''") (simp_all only: selectCandidates_def Let_def assms Inr p prod.case sum.case jsval.case e t simp_thms)
  qed
  then show "loaded (fst (snd (selectCandidates C S req adm now fetched rng st))) = loaded st1"
    "last_issued (fst (snd (selectCandidates C S req adm now fetched rng st))) = last_issued st1" by simp_all
qed

lemma sel_inv_cong: "loaded s = loaded s' \<Longrightarrow> last_issued s = last_issued s' \<Longrightarrow> sel_inv C s = sel_inv C s'"
  by (simp add: sel_inv_def)

lemma reportResult_inv: "sel_inv C st \<Longrightarrow> sel_inv C (reportResult C onion ok lat now st)"
proof (cases "loaded st")
  case None
  assume "sel_inv C st"
  with None show ?thesis by (simp add: reportResult_def)
next
  case (Some l)
  assume inv: "sel_inv C st"
  obtain dir src where l: "l = (dir, src)" by (cases l)
  let ?gs = "reportHealth (num (rep C)) (gateway_list dir) (JStr (full_onion onion)) ok lat"
  define dir' where "dir' = (case getp dir ''gateways'' of JArr _ \<Rightarrow> setp dir ''gateways'' (JArr ?gs) | _ \<Rightarrow> dir)"
  obtain c D where u: "updateHealthCache (rep C) ?gs (full_onion onion) ok lat now (hcache st) (fs st) = (c, D)" by (metis surj_pair)
  have r: "reportResult C onion ok lat now st = st\<lparr>loaded := Some (dir', src), hcache := c, fs := D\<rparr>"
    unfolding reportResult_def by (simp only: Some l option.case prod.case Let_def u dir'_def [symmetric])
  have fv: "from_verified C dir" "nle (dir_issued C dir) (last_issued st)" using inv Some l by (auto simp: sel_inv_def)
  from from_verified_setp [OF fv(1) list_all2_report] fv have "from_verified C dir' \<and> dir_issued C dir' = dir_issued C dir"
    by (simp add: dir'_def split: jsval.split)
  with fv(2) inv show ?thesis by (simp add: r sel_inv_def)
qed

lemma sel_step_inv: "sel_inv C st \<Longrightarrow> sel_inv C (sel_step C e st) \<and> nle (last_issued st) (last_issued (sel_step C e st))"
proof (cases e)
  case (EEnsure now force fetched)
  assume inv: "sel_inv C st"
  obtain r st' ev where "ensureLoaded C now force fetched st = (r, st', ev)" by (metis surj_pair)
  with ensureLoaded_spec(1,2) [OF inv this] EEnsure show ?thesis by simp
next
  case (ESelect S req adm now fetched rng)
  assume inv: "sel_inv C st"
  obtain r st' ev where e: "ensureLoaded C now False fetched st = (r, st', ev)" by (metis surj_pair)
  note f = selectCandidates_frame [OF e, of S req adm rng]
  from ensureLoaded_spec(1,2) [OF inv e] sel_inv_cong [OF f, of C] f ESelect show ?thesis by simp
next
  case (EResult onion ok lat now)
  assume inv: "sel_inv C st"
  have "last_issued (reportResult C onion ok lat now st) = last_issued st"
    by (simp add: reportResult_def Let_def split: option.split prod.split)
  moreover have "nle (last_issued st) (last_issued st)" using inv nle_refl by (simp add: sel_inv_def)
  ultimately show ?thesis using EResult reportResult_inv [OF inv] by simp
next
  case (EReceipt onion valid now)
  assume inv: "sel_inv C st"
  then show ?thesis using EReceipt nle_refl [of "last_issued st"]
    by (simp add: report_receipt_def split: prod.split) (simp add: sel_inv_def)
next
  case (EPoll now fetched)
  assume inv: "sel_inv C st"
  then have i: "sel_inv C (st\<lparr>polling := False\<rparr>)" by simp
  obtain r st' ev where "ensureLoaded C now True fetched (st\<lparr>polling := False\<rparr>) = (r, st', ev)" by (metis surj_pair)
  with ensureLoaded_spec(1,2) [OF i this] EPoll inv nle_refl [of "last_issued st"] show ?thesis
    by (simp add: poll_tick_def sel_inv_def)
next
  case EStop
  assume "sel_inv C st"
  with EStop nle_refl [of "last_issued st"] show ?thesis by (simp add: stopDirectoryPolling_def) (simp add: sel_inv_def)
qed

lemma sel_reach_inv: "sel_reach C st \<Longrightarrow> sel_inv C st"
proof (induction rule: sel_reach.induct)
  case (sel_start D)
  show ?case by (simp add: sel_inv_def sel_init_def)
next
  case (sel_next st e)
  then show ?case using sel_step_inv by blast
qed

section \<open>What a candidate satisfies\<close>

definition same_but_weight :: "jsval \<Rightarrow> jsval \<Rightarrow> bool" where
  "same_but_weight g h \<longleftrightarrow> (\<forall>k. k \<noteq> ''weight'' \<longrightarrow> getp h k = getp g k)"

lemma applyReceiptWeights_mem:
  assumes "h \<in> set (applyReceiptWeights R c now gs)"
  shows "\<exists>g\<in>set gs. same_but_weight g h"
proof -
  have "same_but_weight g (receipt_weight R f g)" for f g by (simp add: same_but_weight_def receipt_weight_def Let_def getp_setp)
  moreover have "same_but_weight g g" for g by (simp add: same_but_weight_def)
  ultimately show ?thesis using assms by (auto simp: applyReceiptWeights_def Let_def split: if_split_asm)
qed

lemma gatewayMeetsRequirement_caps: "getp g ''caps'' = getp h ''caps'' \<Longrightarrow> gatewayMeetsRequirement F g req = gatewayMeetsRequirement F h req"
  by (simp add: gatewayMeetsRequirement_def)

lemma admits_ok_caps: "getp g ''caps'' = getp h ''caps'' \<Longrightarrow> admits_ok adm g = admits_ok adm h"
  by (simp add: admits_ok_def admitsOf_def)

lemma inactive_meets: "\<not> requirementActive req \<Longrightarrow> gatewayMeetsRequirement F g req"
  by (simp add: gatewayMeetsRequirement_def requirementActive_def)

definition suitable :: "sel_cfg \<Rightarrow> stake_env \<Rightarrow> jsval \<Rightarrow> jsval \<Rightarrow> jsval \<Rightarrow> bool" where
  "suitable C S req adm g \<longleftrightarrow> (verify_stake C \<and> truthy (getp g ''operator'') \<longrightarrow> reverifyGateway C S g = None)
     \<and> (admissionActive adm \<longrightarrow> admits_ok adm g) \<and> gatewayMeetsRequirement (num (rep C)) g req"

lemma eligible_spec:
  assumes "eligible C S req adm now st gs = (Inr gs', w)" "h \<in> set gs'"
  shows "\<exists>g\<in>set gs. same_but_weight g h \<and> suitable C S req adm g"
proof -
  let ?F = "num (rep C)"
  define g1 where "g1 = (if verify_stake C then filterReverified C S gs else gs)"
  define g2 where "g2 = fst (filterByAdmission g1 adm (warned st))"
  have g': "gs' = filterByCapability ?F (applyReceiptWeights (rep C) (rcache st) now g2) req"
    using assms(1) by (auto simp: eligible_def Let_def g1_def g2_def split: prod.splits if_split_asm)
  with assms(2) have h: "h \<in> set (applyReceiptWeights (rep C) (rcache st) now g2)" "gatewayMeetsRequirement ?F h req"
    by (auto simp: filterByCapability_def inactive_meets split: if_split_asm)
  from applyReceiptWeights_mem [OF h(1)] obtain g where g: "g \<in> set g2" "same_but_weight g h" by blast
  then have "getp g ''caps'' = getp h ''caps''" by (simp add: same_but_weight_def)
  with h(2) have "gatewayMeetsRequirement ?F g req" using gatewayMeetsRequirement_caps by blast
  moreover have "g \<in> set g1" "admissionActive adm \<longrightarrow> admits_ok adm g"
    using g(1) by (auto simp: g2_def filterByAdmission_def split: if_split_asm)
  moreover have "g \<in> set gs" "verify_stake C \<and> truthy (getp g ''operator'') \<longrightarrow> reverifyGateway C S g = None"
    using \<open>g \<in> set g1\<close> by (auto simp: g1_def filterReverified_def split: if_split_asm)
  ultimately show ?thesis using g(2) by (auto simp: suitable_def)
qed

lemma suitable_same:
  assumes "same_gw g h" "plain_object g" "suitable C S req adm h"
  shows "suitable C S req adm g"
proof -
  have e: "getp h ''caps'' = getp g ''caps''" "getp h ''operator'' = getp g ''operator''" "getp h ''onion'' = getp g ''onion''"
    using assms(1) by (simp_all add: same_gw_def live_keys_def)
  have "plain_object h" using assms(1,2) by (simp add: same_gw_def)
  then have "truthy g" "truthy h" using assms(2) by (cases g; cases h; simp)+
  then have "reverifyGateway C S h = reverifyGateway C S g" by (simp only: reverifyGateway_def e)
  moreover have "admits_ok adm h = admits_ok adm g" "gatewayMeetsRequirement F h req = gatewayMeetsRequirement F g req" for F
    using admits_ok_caps gatewayMeetsRequirement_caps e(1) by blast+
  ultimately show ?thesis using assms(3) by (simp add: suitable_def e)
qed

lemma selectionOrder_subset: "set (selectionOrder F rng v) \<subseteq> set (gateway_list v)"
  using selection_loop_props [of F rng "gateway_list v" 0 "[]"] by (simp add: selectionOrder_def)

lemma swrrPick_in: "swrrPick F rng pool k m = (Some b, m', k') \<Longrightarrow> b \<in> set pool"
proof -
  assume a: "swrrPick F rng pool k m = (Some b, m', k')"
  show ?thesis
  proof (cases "pool_total F pool \<le> 0")
    case True
    with a show ?thesis by (auto simp: swrrPick_def Let_def nat_less_iff intro!: nth_mem split: if_split_asm)
  next
    case False
    obtain r m1 k1 where l: "swrr_loop F rng pool k m None = (r, m1, k1)" by (metis surj_pair)
    from a False l obtain c where r: "r = Some (b, c)" by (auto simp: swrrPick_def Let_def split: option.splits)
    then have "pool \<noteq> []" using l by auto
    with swrr_loop_mem [OF l] r show ?thesis by auto
  qed
qed

lemma spread_subset:
  assumes "spreadSelectionOrder F rng view m = (Inr order, m')" "plain_object view"
  shows "set order \<subseteq> set (gateway_list view)"
proof (cases "length (spread_pool F (gateway_list view)) < 2")
  case True
  with assms(1) selectionOrder_subset show ?thesis by (auto simp: spreadSelectionOrder_def Let_def)
next
  case False
  obtain w m1 k where p: "swrrPick F rng (spread_pool F (gateway_list view)) 0 (prune_swrr (gateway_list view) m) = (w, m1, k)" by (metis surj_pair)
  with False assms(1) obtain b where b: "w = Some b"
    "order = b # selectionOrder F (\<lambda>i. rng (k + i)) (setp view ''gateways'' (JArr (filter (\<lambda>g. gw_onion g \<noteq> gw_onion b) (gateway_list view))))"
    by (auto simp: spreadSelectionOrder_def Let_def split: option.splits)
  have "b \<in> set (gateway_list view)" using swrrPick_in p b(1) spread_pool_mem by blast
  with b(2) selectionOrder_subset [of F "\<lambda>i. rng (k + i)" "setp view ''gateways'' (JArr (filter (\<lambda>g. gw_onion g \<noteq> gw_onion b) (gateway_list view)))"] assms(2)
  show ?thesis by auto
qed

lemma order_of_subset:
  assumes "order_of C rng view st = (Inr cs, st')" "plain_object view"
  shows "set cs \<subseteq> candidate_of ` set (gateway_list view)"
proof (cases "rotation_spread (rep C)")
  case True
  obtain r m where s: "spreadSelectionOrder (num (rep C)) rng view (deficits st) = (r, m)" by (metis surj_pair)
  with True assms(1) obtain gs where "r = Inr gs" "cs = map candidate_of gs" by (auto simp: order_of_def bind_res_Inr_iff)
  with spread_subset [of "num (rep C)" rng view "deficits st" gs m] s assms(2) show ?thesis by auto
next
  case False
  with assms(1) image_mono [OF selectionOrder_subset [of "num (rep C)" rng view], of candidate_of] show ?thesis by (auto simp: order_of_def)
qed

lemma verified_bound: "dir_verified C dir \<Longrightarrow> g \<in> set (gateway_list dir) \<Longrightarrow> entry_bound (lib C) False g"
proof -
  assume a: "dir_verified C dir" "g \<in> set (gateway_list dir)"
  then obtain v where v: "verifyDirectory (lib C) False dir (pinned C) = Inr v" "dir_ok v" by (auto simp: dir_verified_def)
  have "\<exists>gs. gateways_of dir = JArr gs \<and> (\<forall>g\<in>set gs. entry_bound (lib C) False g)"
  proof (cases "isThresholdDirectory dir")
    case True
    with v have "verifyDirectoryThreshold (lib C) False dir (pinned C) = Inr v" by (auto simp: verifyDirectory_def split: if_split_asm)
    from threshold_ok_D [OF this v(2)] show ?thesis by blast
  next
    case False
    from single_ok_D [OF v False] show ?thesis by blast
  qed
  with a(2) show ?thesis by (auto simp: gateway_list_def)
qed

lemma entry_bound_plain: "entry_bound L pre g \<Longrightarrow> plain_object g"
  by (cases g) (auto simp: entry_bound_def)

lemma selected_spec:
  assumes inv: "sel_inv C st" and sel: "selectCandidates C S req adm now fetched rng st = (Inr cs, st', ev)" and c: "c \<in> set cs"
  shows "\<exists>orig g. dir_verified C orig \<and> g \<in> set (gateway_list orig) \<and> entry_bound (lib C) False g
    \<and> cd_onion c = strip_onion (gw_key g) \<and> suitable C S req adm g"
proof -
  obtain l st1 ev1 where e: "ensureLoaded C now False fetched st = (l, st1, ev1)" by (metis surj_pair)
  note E = ensureLoaded_spec [OF inv e]
  from sel e obtain dir src where l: "l = Inr (dir, src)" by (cases l) (auto simp: selectCandidates_def)
  with E(4) have "loaded st1 = Some (dir, src)" by (auto split: option.splits)
  with E(1) have fv: "from_verified C dir" by (simp add: sel_inv_def)
  then obtain orig where o': "dir_verified C orig" "list_all2 same_gw (gateway_list orig) (gateway_list dir)" "plain_object dir"
    by (auto simp: from_verified_def live_copy_def)
  show ?thesis
  proof (cases "\<exists>gs. getp dir ''gateways'' = JArr gs")
    case True
    then obtain gs where gs: "getp dir ''gateways'' = JArr gs" by blast
    let ?s2 = "scheduleDirectoryPoll C st1"
    obtain r w where el: "eligible C S req adm now ?s2 gs = (r, w)" by (metis surj_pair)
    from sel e l gs el obtain gs' where r: "r = Inr gs'" by (cases r) (auto simp: selectCandidates_def Let_def)
    obtain q st3 where ord: "order_of C rng (setp dir ''gateways'' (JArr gs')) (?s2\<lparr>warned := w\<rparr>) = (q, st3)" by (metis surj_pair)
    with sel e l gs el r have "q = Inr cs" by (simp add: selectCandidates_def Let_def)
    with ord order_of_subset [of C rng "setp dir ''gateways'' (JArr gs')" "?s2\<lparr>warned := w\<rparr>" cs st3] c o'(3)
    obtain h where h: "h \<in> set gs'" "c = candidate_of h" by auto
    from eligible_spec [of C S req adm now ?s2 gs gs' w h] el r h(1) obtain g where g: "g \<in> set gs" "same_but_weight g h" "suitable C S req adm g" by blast
    from g(1) gs have "g \<in> set (gateway_list dir)" by (simp add: gateway_list_arr)
    with o'(2) obtain g0 where g0: "g0 \<in> set (gateway_list orig)" "same_gw g0 g"
      by (metis list_all2_conv_all_nth in_set_conv_nth)
    have b: "entry_bound (lib C) False g0" by (rule verified_bound [OF o'(1) g0(1)])
    have "gw_onion g = gw_onion g0" using g0(2) by (simp add: same_gw_def live_keys_def)
    moreover have "gw_onion h = gw_onion g" using g(2) by (simp add: same_but_weight_def)
    ultimately have "cd_onion c = strip_onion (gw_key g0)" by (simp add: h(2) candidate_of_def Let_def gw_key_def)
    with o'(1) g0(1) b suitable_same [OF g0(2) entry_bound_plain [OF b] g(3)] show ?thesis by blast
  next
    case False
    then have "gateways_of dir \<noteq> JArr x \<or> x = []" for x
      by (cases "getp dir ''gateways''") (auto simp: gateways_of_def js_or_def)
    then have gl: "gateway_list dir = []" by (auto simp: gateway_list_def split: jsval.split)
    have "set cs \<subseteq> candidate_of ` set (gateway_list dir)"
    proof -
      obtain q st3 where ord: "order_of C rng dir (scheduleDirectoryPoll C st1) = (q, st3)" by (metis surj_pair)
      have "q = Inr cs" using sel e l False ord
        by (cases "getp dir ''gateways''") (auto simp: selectCandidates_def Let_def split: if_split_asm)
      with ord order_of_subset [OF _ o'(3)] show ?thesis by blast
    qed
    with gl c show ?thesis by simp
  qed
qed

section \<open>Properties\<close>

text \<open>
  C34: a tunnel dials only what the pinned signer listed. In every reachable state of the router,
  each candidate is an entry of a directory that verified against the pinned signers, its key is the
  one its onion encodes, its capabilities are signed by that key, and it satisfies the capability
  requirement, the admission policy (under max-anon, exactly invited-only) and, when stake
  verification is armed and the entry names an operator, the re-verification of its signed announce.
\<close>

theorem candidates_verified:
  assumes "sel_reach C st" "selectCandidates C S req adm now fetched rng st = (Inr cs, st', ev)" "c \<in> set cs"
  shows "\<exists>orig g. dir_verified C orig \<and> g \<in> set (gateway_list orig) \<and> entry_bound (lib C) False g
    \<and> cd_onion c = strip_onion (gw_key g) \<and> suitable C S req adm g"
  by (rule selected_spec [OF sel_reach_inv [OF assms(1)] assms(2,3)])

text \<open>
  C35: refreshing never forgets and never goes back on a fresh directory. In every reachable state a
  refresh keeps the highest issue time from falling; what it installs is the directory this refresh
  loaded, which verified against the pinned signers, with every field and every gateway entry
  unchanged except the client's own liveness notes; a fresh directory it installs is no older than
  any accepted before and within the age bound; and a failed refresh serves the directory already
  loaded, failing only when there is none.
\<close>

theorem refresh_monotone:
  assumes "sel_reach C st" "ensureLoaded C now force fetched st = (r, st', ev)"
  shows "nle (last_issued st) (last_issued st')
    \<and> (loaded st' = loaded st \<or> (\<exists>next. fst (load_result C fetched st) = Inr next \<and> dir_verified C (fst next) \<and> accepted C now next st st'))
    \<and> (case loaded st' of Some l \<Rightarrow> r = Inr l | None \<Rightarrow> (\<exists>e. r = Inl e) \<and> loaded st = None)"
proof -
  note E = ensureLoaded_spec [OF sel_reach_inv [OF assms(1)] assms(2)]
  have "loaded st' = None \<Longrightarrow> loaded st = None" using E(3) by (auto simp: accepted_def)
  with E(2-4) show ?thesis by (auto split: option.splits)
qed

text \<open>A concrete client: toy signatures, one gateway, a bootnode and a cache file.\<close>

definition toy_entry :: jsval where
  "toy_entry = JObj [(''onion'', JStr toy_onion), (''pubkey'', JStr (hex_encode toy_seed))]"

definition toy_fleet :: "int \<Rightarrow> jsval" where
  "toy_fleet n = JObj [(''version'', JNum 1), (''issued'', JNum n), (''gateways'', JArr [toy_entry])]"

definition toy_sel :: sel_cfg where
  "toy_sel = \<lparr>lib = toy_lib, rep = demo_rep, bootnode_onion = Some ''b'', directory_path = None, cache_path = Some ''c'',
     pinned = OnePin (hex_encode toy_seed), verify_stake = False, refresh_ms = NFin 1, max_age = None, max_age_skew = NFin 0\<rparr>"

definition toy_stake :: stake_env where
  "toy_stake = \<lparr>se_ethers = None, se_staked = (\<lambda>_. Inr False), se_fetch = (\<lambda>_. Inl SyntaxError), se_now = 0\<rparr>"

lemma toy_sel_sel [simp]: "lib toy_sel = toy_lib" "rep toy_sel = demo_rep" "bootnode_onion toy_sel = Some ''b''" "cache_path toy_sel = Some ''c''"
  "pinned toy_sel = OnePin (hex_encode toy_seed)" "\<not> verify_stake toy_sel" "refresh_ms toy_sel = NFin 1" "max_age toy_sel = None"
  by (simp_all add: toy_sel_def)

lemma toy_no_caps: "\<not> hasCaps JUndef"
  by (simp add: hasCaps_def canonicalCaps_def list_field_def opt_field_def caps_ports_def caps_region_def caps_proto_def
      caps_artifacts_def canonicalAdmits_def canonicalPay_def canonicalRate_def strings_of.simps Let_def)

lemma toy_pub: "ed_pub toy_lib toy_seed = toy_seed" by (simp add: toy_lib_def toy_seed_def)

lemma toy_entry_sel [simp]: "getp toy_entry ''onion'' = JStr toy_onion" "getp toy_entry ''pubkey'' = JStr (hex_encode toy_seed)"
  "getp toy_entry ''caps'' = JUndef" "\<not> nullish toy_entry" "plain_object toy_entry"
  by (simp_all add: toy_entry_def)

lemma toy_entry_ok: "checkGatewayBindings toy_lib False (toy_fleet n) = Inr None"
proof -
  have "onionToPubkey (sha3 toy_lib) toy_onion = Inr (hex_encode toy_seed)" using seed_onion_key [OF toy_keys] toy_pub by simp
  then have "entry_bound toy_lib False toy_entry" by (simp add: entry_bound_def toy_no_caps)
  then have "binding_loop toy_lib False [toy_entry] = Inr None" by (subst binding_loop_None) simp
  then show ?thesis by (simp add: checkGatewayBindings_def toy_fleet_def gateways_of_def js_or_def)
qed

lemma toy_fleet_verified: "\<exists>d. dir_verified toy_sel d \<and> getp d ''gateways'' = JArr [toy_entry] \<and> getp d ''issued'' = JNum n"
proof -
  have b: "\<exists>b. canonicalDirectoryBytes (toy_fleet n) = Inr b"
    by (simp add: canonicalDirectoryBytes_def toy_fleet_def gateways_of_def js_or_def directory_entry_def)
  then obtain b where b: "canonicalDirectoryBytes (toy_fleet n) = Inr b" by blast
  have f: "plain_object (toy_fleet n)" "\<not> isThresholdDirectory (toy_fleet n)" "nullish (getp (toy_fleet n) ''signer'') \<or> getp (toy_fleet n) ''signer'' = JStr (hex_encode (ed_pub toy_lib toy_seed))"
    by (simp_all add: toy_fleet_def isThresholdDirectory_def)
  from signed_directory_verifies [OF toy_facts(1,2) f(1,2) b f(3) toy_entry_ok toy_facts(7)] obtain d where
    d: "signDirectory toy_lib (toy_fleet n) (hex_encode toy_seed) = Inr d" "dir_verified toy_sel d" by (auto simp: toy_pub dir_verified_def)
  then obtain sig where "d = setp (toy_fleet n) ''signature'' (JStr sig)" by (auto simp: signDirectory_def bind_res_Inr_iff)
  with d(2) show ?thesis by (auto simp: getp_setp intro!: exI [of _ d]) (simp_all add: toy_fleet_def)
qed

lemma toy_first_load:
  assumes "dir_verified toy_sel d" "getp d ''gateways'' = JArr [toy_entry]" "getp d ''issued'' = JNum n" "0 \<le> n"
  shows "\<exists>st. ensureLoaded toy_sel now force (Inr d) (sel_init toy_sel demo_disk) = (Inr (setp d ''gateways'' (JArr [toy_entry]), ''bootnode''), st,
      [Query, Verified (issued_of trunc_env (setp d ''gateways'' (JArr [toy_entry]))) 1])
    \<and> loaded st = Some (setp d ''gateways'' (JArr [toy_entry]), ''bootnode'') \<and> last_issued st = NFin (of_int n) \<and> writable (fs st) ''c''"
proof -
  have p: "plain_object d" by (rule verified_plain [OF assms(1)])
  have v: "verified_read toy_lib (OnePin (hex_encode toy_seed)) (Inr d) = Inr d" using verified_read_Inr [of toy_sel "Inr d" d] assms(1) by simp
  have h: "loadHealthCache demo_disk (Some ''h'') = JObj []" by (simp add: loadHealthCache_def demo_disk_def)
  have s: "seedHealthFromCache demo_rep d [] now = (setp d ''gateways'' (JArr [toy_entry]), [])"
    using assms(2) by (simp add: seedHealthFromCache_def seed_entry_def)
  have i: "nval trunc_env (issued_of trunc_env d) = NFin (of_int n)" using assms(3) by (simp add: issued_of_def js_or_def nval_def)
  have g: "getp (setp d ''gateways'' (JArr [toy_entry])) ''gateways'' = JArr [toy_entry]" using p by (rule getp_setp_same)
  show ?thesis using v s i h g assms(4)
    by (auto simp: ensureLoaded_def sel_init_def refresh_directory_def loadFromBootnode_def accept_directory_def Let_def too_stale_def nlt_def write_file_def
        canopyFields_def demo_disk_def)
qed

theorem refresh_monotone_witness:
  "\<exists>d st ev l. ensureLoaded toy_sel 5 False (Inr d) (sel_init toy_sel demo_disk) = (Inr l, st, ev) \<and> loaded st = Some l
     \<and> nle (NFin 0) (last_issued st) \<and> last_issued st = NFin 9"
proof -
  obtain d where d: "dir_verified toy_sel d" "getp d ''gateways'' = JArr [toy_entry]" "getp d ''issued'' = JNum 9" using toy_fleet_verified by blast
  from toy_first_load [OF d, of 5 False] obtain l st ev where
    e: "ensureLoaded toy_sel 5 False (Inr d) (sel_init toy_sel demo_disk) = (Inr l, st, ev)" "loaded st = Some l" "last_issued st = NFin 9" by auto
  from refresh_monotone [OF sel_start e(1)] have "nle (NFin 0) (last_issued st)" by (simp add: sel_init_def)
  with e show ?thesis by blast
qed

theorem candidates_verified_witness:
  "\<exists>d cs st ev orig g. selectCandidates toy_sel toy_stake JNull JNull 5 (Inr d) (\<lambda>_. 0) (sel_init toy_sel demo_disk) = (Inr cs, st, ev)
     \<and> cs \<noteq> [] \<and> dir_verified toy_sel orig \<and> g \<in> set (gateway_list orig) \<and> cd_onion (hd cs) = strip_onion (gw_key g)"
proof -
  obtain d where d: "dir_verified toy_sel d" "getp d ''gateways'' = JArr [toy_entry]" "getp d ''issued'' = JNum 9" using toy_fleet_verified by blast
  let ?v = "setp d ''gateways'' (JArr [toy_entry])"
  from toy_first_load [OF d, of 5 False] obtain st ev where
    e: "ensureLoaded toy_sel 5 False (Inr d) (sel_init toy_sel demo_disk) = (Inr (?v, ''bootnode''), st, ev)" by auto
  have p: "plain_object d" by (rule verified_plain [OF d(1)])
  then have g: "getp ?v ''gateways'' = JArr [toy_entry]" "setp ?v ''gateways'' (JArr [toy_entry]) = ?v" "plain_object ?v"
    by (cases d; simp add: update_Some_unfold)+
  have inact: "\<not> admissionActive JNull" "\<not> requirementActive JNull" by (simp_all add: admissionActive_def requirementActive_def)
  have "\<exists>h. fst (eligible toy_sel toy_stake JNull JNull 5 s [toy_entry]) = Inr [h]" for s
    using inact by (simp add: eligible_def Let_def filterByAdmission_def filterByCapability_def applyReceiptWeights_def)
  then obtain h w where h: "eligible toy_sel toy_stake JNull JNull 5 (scheduleDirectoryPoll toy_sel st) [toy_entry] = (Inr [h], w)"
    by (metis prod.collapse)
  let ?u = "setp ?v ''gateways'' (JArr [h])" and ?s = "(scheduleDirectoryPoll toy_sel st)\<lparr>warned := w\<rparr>"
  have "draws_ok trunc_env (\<lambda>_. 0)" by (simp add: draws_ok_def fl_trunc)
  from spread_order [OF this, of ?u "deficits ?s"] g(3) obtain order m where
    o': "spreadSelectionOrder trunc_env (\<lambda>_. 0) ?u (deficits ?s) = (Inr order, m)" "gw_onion ` set order = gw_onion ` {h}" by auto
  then have ne: "order \<noteq> []" by auto
  have "rotation_spread demo_rep" by (simp add: demo_rep_def)
  then have "order_of toy_sel (\<lambda>_. 0) ?u ?s = (Inr (map candidate_of order), ?s\<lparr>deficits := m\<rparr>)" using o'(1) by (simp add: order_of_def)
  then have sel: "selectCandidates toy_sel toy_stake JNull JNull 5 (Inr d) (\<lambda>_. 0) (sel_init toy_sel demo_disk) = (Inr (map candidate_of order), ?s\<lparr>deficits := m\<rparr>, ev)"
    using e g(1) h by (simp add: selectCandidates_def Let_def)
  have "hd (map candidate_of order) \<in> set (map candidate_of order)" using ne by (intro hd_in_set) simp
  from candidates_verified [OF sel_start sel this] sel ne show ?thesis by blast
qed

section \<open>A replay that the rollback guard misses\<close>

lemma carry_arrays:
  assumes "getp old ''gateways'' = JArr os" "getp dir ''gateways'' = JArr gs"
  shows "carry_health old dir = Inr (setp dir ''gateways'' (JArr (map (carry_entry os) gs)))"
  using assms by (simp add: carry_health_def array_of_def)

lemma rollback_rejected:
  assumes "bootnode_onion C \<noteq> None" "cache_path C = Some p" "writable (fs st) p" "loaded st = Some (cur, src)"
    and "dir_verified C old" "nlt (dir_issued C old) (last_issued st)"
  shows "\<exists>ev. ensureLoaded C now True (Inr old) st = (Inr (cur, src), st\<lparr>fs := (fs st)\<lparr>files := (files (fs st))(p := Inr old)\<rparr>\<rparr>, ev)"
proof -
  have "verified_read (lib C) (pinned C) (Inr old) = Inr old" using assms(5) verified_read_Inr by blast
  then show ?thesis using assms
    by (simp add: ensureLoaded_def refresh_directory_def loadFromBootnode_def write_file_def accept_directory_def Let_def dir_issued_def)
qed

lemma cache_installed:
  assumes "bootnode_onion C \<noteq> None" "cache_path C = Some p" "files (fs st) p = Inr old" "loaded st = Some (cur, src)"
    and "dir_verified C old" "getp cur ''gateways'' = JArr os" "getp old ''gateways'' = JArr gs"
  defines "dir \<equiv> setp old ''gateways'' (JArr (map (carry_entry os) gs))"
  shows "\<exists>ev st'. ensureLoaded C now True (Inl e) st = (Inr (dir, ''cache''), st', ev) \<and> loaded st' = Some (dir, ''cache'')"
proof -
  have v: "verified_read (lib C) (pinned C) (Inr old) = Inr old" using assms(5) verified_read_Inr by blast
  have w: "verified_read (lib C) (pinned C) (Inl e) = Inl e" by (simp add: verified_read_def)
  have c: "carry_health cur old = Inr dir" unfolding dir_def by (rule carry_arrays [OF assms(6,7)])
  show ?thesis using assms(1-4) v w c
    by (auto simp: ensureLoaded_def refresh_directory_def loadFromBootnode_def accept_directory_def Let_def)
qed

text \<open>
  C36: the rollback guard can be walked around in two fetches. A bootnode that replays an older
  signed directory is refused, but the replayed copy has already been written to the last-known-good
  cache; when the next fetch fails, the cache is exempt from the guard and the older directory
  replaces the newer one in memory.
\<close>

theorem rollback_through_cache:
  assumes "bootnode_onion C \<noteq> None" "cache_path C = Some p" "writable (fs st) p" "loaded st = Some (cur, src)"
    and "dir_verified C old" "nlt (dir_issued C old) (last_issued st)"
    and "getp cur ''gateways'' = JArr os" "getp old ''gateways'' = JArr gs"
  shows "\<exists>st1 ev1 st2 ev2 dir. ensureLoaded C t1 True (Inr old) st = (Inr (cur, src), st1, ev1)
    \<and> ensureLoaded C t2 True (Inl e) st1 = (Inr (dir, ''cache''), st2, ev2) \<and> loaded st2 = Some (dir, ''cache'')
    \<and> dir_issued C dir = dir_issued C old"
proof -
  let ?st1 = "st\<lparr>fs := (fs st)\<lparr>files := (files (fs st))(p := Inr old)\<rparr>\<rparr>"
  let ?dir = "setp old ''gateways'' (JArr (map (carry_entry os) gs))"
  from rollback_rejected [OF assms(1-6), of t1] obtain ev1 where e1: "ensureLoaded C t1 True (Inr old) st = (Inr (cur, src), ?st1, ev1)" by blast
  have s: "files (fs ?st1) p = Inr old" "loaded ?st1 = Some (cur, src)" using assms(4) by simp_all
  from cache_installed [OF assms(1,2) s assms(5,7,8), of t2 e] obtain ev2 st2 where
    e2: "ensureLoaded C t2 True (Inl e) ?st1 = (Inr (?dir, ''cache''), st2, ev2)" "loaded st2 = Some (?dir, ''cache'')" by blast
  have "dir_issued C ?dir = dir_issued C old" by (simp add: dir_issued_def issued_of_def getp_setp)
  with e1 e2 show ?thesis by blast
qed

theorem rollback_through_cache_witness:
  "\<exists>new old st0 ev0 l0 st1 ev1 st2 ev2 dir. ensureLoaded toy_sel 1 False (Inr new) (sel_init toy_sel demo_disk) = (Inr l0, st0, ev0)
    \<and> last_issued st0 = NFin 9 \<and> ensureLoaded toy_sel 2 True (Inr old) st0 = (Inr l0, st1, ev1)
    \<and> ensureLoaded toy_sel 3 True (Inl SyntaxError) st1 = (Inr (dir, ''cache''), st2, ev2) \<and> dir_issued toy_sel dir = NFin 4"
proof -
  obtain new where n: "dir_verified toy_sel new" "getp new ''gateways'' = JArr [toy_entry]" "getp new ''issued'' = JNum 9" using toy_fleet_verified by blast
  obtain old where o': "dir_verified toy_sel old" "getp old ''gateways'' = JArr [toy_entry]" "getp old ''issued'' = JNum 4" using toy_fleet_verified by blast
  let ?v = "setp new ''gateways'' (JArr [toy_entry])"
  from toy_first_load [OF n, of 1 False] obtain st0 ev0 where
    e0: "ensureLoaded toy_sel 1 False (Inr new) (sel_init toy_sel demo_disk) = (Inr (?v, ''bootnode''), st0, ev0)"
      "loaded st0 = Some (?v, ''bootnode'')" "last_issued st0 = NFin 9" "writable (fs st0) ''c''" by auto
  have i: "dir_issued toy_sel old = NFin 4" using o'(3) by (simp add: dir_issued_def issued_of_def js_or_def nval_def)
  have g: "getp ?v ''gateways'' = JArr [toy_entry]" by (rule getp_setp_same [OF verified_plain [OF n(1)]])
  have "bootnode_onion toy_sel \<noteq> None" "nlt (dir_issued toy_sel old) (last_issued st0)" using e0(3) i by (simp_all add: nlt_def)
  from rollback_through_cache [OF this(1) toy_sel_sel(4) e0(4,2) o'(1) this(2) g o'(2), of 2 3 SyntaxError] obtain st1 ev1 st2 ev2 dir where
    r: "ensureLoaded toy_sel 2 True (Inr old) st0 = (Inr (?v, ''bootnode''), st1, ev1)"
      "ensureLoaded toy_sel 3 True (Inl SyntaxError) st1 = (Inr (dir, ''cache''), st2, ev2)" "dir_issued toy_sel dir = dir_issued toy_sel old" by blast
  show ?thesis by (intro exI conjI) (rule e0(1), rule e0(3), rule r(1), rule r(2), simp only: r(3) i)
qed

end
