(* ===== verification/Slasher.thy ===== *)
theory Slasher
  imports SpentSet Admission
begin

text \<open>
  On-chain slashing, from \<^verbatim>\<open>src/gateway/gateway.mjs\<close>: the choice of targets
  (\<open>makeSlasher\<close>), the submitter over one contract (\<open>makeOnchainSlasher\<close>) and the
  routing over several (\<open>makeRoutingSlasher\<close>); then the graceful shutdown of the process. A
  contract is what its \<open>ethers\<close> object answers: the record \<open>contract_view\<close>. Sending a
  transaction and waiting for its receipt is one call of \<open>submit\<close>.
\<close>

section \<open>Targets\<close>

record slash_target =
  tg_address :: string
  tg_kind :: string

definition push_target :: "string option \<Rightarrow> string \<Rightarrow> slash_target list \<Rightarrow> slash_target list" where
  "push_target address kind targets = (case address of
     None \<Rightarrow> targets
   | Some a \<Rightarrow> if a = [] \<or> list_ex (\<lambda>t. js_lower (tg_address t) = js_lower a) targets then targets
       else targets @ [\<lparr>tg_address = a, tg_kind = kind\<rparr>])"

definition slash_targets :: "string option \<Rightarrow> root_contract list \<Rightarrow> slash_target list" where
  "slash_targets primary rootContracts =
     fold (\<lambda>c. push_target (Some (rc_address c)) (rc_kind c)) rootContracts (push_target primary ''primary'' [])"

definition first_truthy :: "jsval list \<Rightarrow> string option" where  \<comment> \<open>\<open>a || b || .. || null\<close> over addresses\<close>
  "first_truthy vs = (case find truthy vs of Some v \<Rightarrow> Some (js_string v) | None \<Rightarrow> None)"

definition slash_primary :: "env \<Rightarrow> jsval \<Rightarrow> string option" where
  "slash_primary e deployed = first_truthy [env_val e ''SHADE_TREE_SLASH_CONTRACT'', getp deployed ''stakedReputationSet'',
     getp deployed ''StakedReputationSet'', getp deployed ''address'']"

datatype slasher_kind = DryRun | DryRunNoEthers | SingleSlasher string | RoutingSlasher "slash_target list"

definition readDeployed :: "jsval res \<Rightarrow> jsval" where
  "readDeployed file = (case file of Inr v \<Rightarrow> v | Inl _ \<Rightarrow> JObj [])"

definition makeSlasher :: "env \<Rightarrow> jsval res \<Rightarrow> bool \<Rightarrow> root_contract list \<Rightarrow> slasher_kind" where
  "makeSlasher e deployedFile ethers rootContracts =
     (let targets = slash_targets (slash_primary e (readDeployed deployedFile)) rootContracts in
      if \<not> truthy (env_val e ''SHADE_TREE_SLASH_KEY'') \<or> targets = [] then DryRun
      else if \<not> ethers then DryRunNoEthers
      else (case targets of [t] \<Rightarrow> SingleSlasher (tg_address t) | _ \<Rightarrow> RoutingSlasher targets))"

section \<open>One contract\<close>

datatype contract_call =
    Slash4 string string int string   \<comment> \<open>leaf, secret, limit, receiver\<close>
  | Slash3 string string string       \<comment> \<open>leaf, secret, receiver\<close>

record contract_view =
  default_limit :: "int res"
  allowed_limits :: "int list res"
  limit_of :: "string \<Rightarrow> int res"
  is_active :: "string \<Rightarrow> bool res"
  submit :: "contract_call \<Rightarrow> (string \<times> int) res"  \<comment> \<open>hash and block\<close>

record onchain =
  oc_address :: string
  oc_receiver :: string
  oc_tiered :: bool
  oc_tiers :: "int list"
  oc_chain :: contract_view

record slash_receipt =
  sr_hash :: string
  sr_block :: int
  sr_limit :: int
  sr_commitment :: string
  sr_contract :: string

definition makeOnchainSlasher :: "int list \<Rightarrow> string \<Rightarrow> string \<Rightarrow> contract_view \<Rightarrow> onchain" where
  "makeOnchainSlasher TIERS address receiver ch =
     (case bind_res (default_limit ch) (\<lambda>_. allowed_limits ch) of
        Inr onChain \<Rightarrow> \<lparr>oc_address = address, oc_receiver = receiver, oc_tiered = True, oc_tiers = sort (remdups (TIERS @ onChain)), oc_chain = ch\<rparr>
      | Inl _ \<Rightarrow> \<lparr>oc_address = address, oc_receiver = receiver, oc_tiered = False, oc_tiers = TIERS, oc_chain = ch\<rparr>)"

fun holds_loop :: "onchain \<Rightarrow> int \<Rightarrow> (int \<times> string) list \<Rightarrow> (string \<times> int) option res" where
  "holds_loop S k [] = Inr None"
| "holds_loop S k ((_, c) # cs) =
     (if oc_tiered S
      then bind_res (limit_of (oc_chain S) c) (\<lambda>l. if l \<noteq> 0 then Inr (Some (c, l)) else holds_loop S k cs)
      else bind_res (is_active (oc_chain S) c) (\<lambda>b. if b then Inr (Some (c, k)) else holds_loop S k cs))"

definition local_first :: "slash_tier option \<Rightarrow> (int \<times> string) list \<Rightarrow> (int \<times> string) list" where
  "local_first tier cands = (case tier of
     Some t \<Rightarrow> if sl_resolved t then filter (\<lambda>lc. snd lc = sl_commitment t) cands @ filter (\<lambda>lc. snd lc \<noteq> sl_commitment t) cands else cands
   | None \<Rightarrow> cands)"

definition slasher_holds :: "rln_lib \<Rightarrow> rln_cfg \<Rightarrow> onchain \<Rightarrow> string \<Rightarrow> slash_tier option \<Rightarrow> (string \<times> int) option res" where
  "slasher_holds L C S secret tier =
     bind_res (deriveCommitments L C (JStr secret) (if oc_tiered S then oc_tiers S else [K_SLOTS C])) (\<lambda>cands.
       holds_loop S (K_SLOTS C) (local_first tier cands))"

text \<open>The leaf and the limit that a slash claims.\<close>

definition slash_claim :: "rln_lib \<Rightarrow> rln_cfg \<Rightarrow> onchain \<Rightarrow> string \<Rightarrow> string \<Rightarrow> slash_tier option \<Rightarrow> (string \<times> int) res" where
  "slash_claim L C S commitment secret tier =
     (let known = (case tier of Some t \<Rightarrow> if sl_resolved t then Some (sl_limit t) else None | None \<Rightarrow> None);
          dflt = (case tier of Some t \<Rightarrow> sl_limit t | None \<Rightarrow> K_SLOTS C) in
      case known of
        Some l \<Rightarrow> Inr (commitment, l)
      | None \<Rightarrow> if oc_tiered S then bind_res (slasher_holds L C S secret tier) (\<lambda>h. Inr (case h of Some (leaf, l) \<Rightarrow> (leaf, l) | None \<Rightarrow> (commitment, dflt)))
          else Inr (commitment, K_SLOTS C))"

definition slash_call_of :: "onchain \<Rightarrow> string \<Rightarrow> string \<Rightarrow> int \<Rightarrow> contract_call" where
  "slash_call_of S leaf secret limit = (if oc_tiered S then Slash4 leaf secret limit (oc_receiver S) else Slash3 leaf secret (oc_receiver S))"

text \<open>A slash: the call it makes, if any, and its outcome.\<close>

definition onchain_slash :: "rln_lib \<Rightarrow> rln_cfg \<Rightarrow> onchain \<Rightarrow> string \<Rightarrow> string \<Rightarrow> slash_tier option \<Rightarrow> (string \<times> contract_call) option \<times> slash_receipt res" where
  "onchain_slash L C S commitment secret tier = (case slash_claim L C S commitment secret tier of
     Inl e \<Rightarrow> (None, Inl e)
   | Inr (leaf, limit) \<Rightarrow>
       let call = slash_call_of S leaf secret limit in
       (Some (oc_address S, call), bind_res (submit (oc_chain S) call) (\<lambda>(hash, block).
          Inr \<lparr>sr_hash = hash, sr_block = block, sr_limit = (if oc_tiered S then limit else K_SLOTS C), sr_commitment = leaf, sr_contract = oc_address S\<rparr>)))"

section \<open>Routing\<close>

definition makeRoutingSlasher :: "int list \<Rightarrow> string \<Rightarrow> (string \<Rightarrow> contract_view) \<Rightarrow> slash_target list \<Rightarrow> onchain list" where
  "makeRoutingSlasher TIERS receiver chainOf contracts = map (\<lambda>t. makeOnchainSlasher TIERS (tg_address t) receiver (chainOf (tg_address t))) contracts"



section \<open>Graceful shutdown\<close>

record shutdown_state =
  sd_started :: bool
  sd_timer :: bool
  sd_listening :: bool
  sd_open :: "nat list"
  sd_destroyed :: "nat list"
  sd_exits :: "int list"

datatype shutdown_event =
    Signalled bool     \<comment> \<open>whether \<open>onStart\<close> returned normally\<close>
  | SocketClosed nat
  | GraceElapsed
  | ListenerClosed     \<comment> \<open>the callback of \<open>server.close\<close>\<close>

definition sd_finish :: "int \<Rightarrow> shutdown_state \<Rightarrow> shutdown_state" where
  "sd_finish code s = s\<lparr>sd_timer := False, sd_exits := sd_exits s @ [code]\<rparr>"

text \<open>The process ends at the first exit; \<open>server.close\<close> reports once every connection has ended.\<close>

fun shutdown_step :: "shutdown_event \<Rightarrow> shutdown_state \<Rightarrow> shutdown_state" where
  "shutdown_step e s = (if sd_exits s \<noteq> [] then s else case e of
     Signalled _ \<Rightarrow> if sd_started s then s else s\<lparr>sd_started := True, sd_timer := True, sd_listening := False\<rparr>
   | SocketClosed i \<Rightarrow> s\<lparr>sd_open := removeAll i (sd_open s)\<rparr>
   | GraceElapsed \<Rightarrow> if sd_timer s then sd_finish 1 (s\<lparr>sd_destroyed := sd_open s\<rparr>) else s
   | ListenerClosed \<Rightarrow> if sd_started s \<and> sd_open s = [] then sd_finish 0 s else s)"

definition shutdown_init :: "nat list \<Rightarrow> shutdown_state" where
  "shutdown_init open = \<lparr>sd_started = False, sd_timer = False, sd_listening = True, sd_open = open, sd_destroyed = [], sd_exits = []\<rparr>"

section \<open>What a holder is\<close>





lemma local_first_set [simp]: "set (local_first tier cands) = set cands"
  by (auto simp: local_first_def split: option.split)

definition known_tiers :: "rln_cfg \<Rightarrow> onchain \<Rightarrow> int list" where
  "known_tiers C S = (if oc_tiered S then oc_tiers S else [K_SLOTS C])"







section \<open>Properties\<close>


definition demo_view :: contract_view where
  "demo_view = \<lparr>default_limit = Inr 8, allowed_limits = Inr [64],
     limit_of = (\<lambda>c. Inr (if c = int_dec (rateCommitmentBig demo_lib 42 64) then 64 else 0)), is_active = (\<lambda>_. Inr False), submit = (\<lambda>_. Inr (''h'', 1))\<rparr>"




text \<open>
  a contract that does not answer at startup is treated as the untiered shape for good. When
  either view of the startup probe fails, every slash the submitter ever makes is the three-argument
  call, whatever the contract answers later, and its candidates are the default tier only.
\<close>

theorem failed_probe_is_final:
  assumes "(\<exists>e. default_limit ch = Inl e) \<or> (\<exists>e. allowed_limits ch = Inl e)"
    and "fst (onchain_slash L C (makeOnchainSlasher TIERS address receiver ch\<lparr>oc_chain := later\<rparr>) commitment secret tier) = Some (a, call)"
  shows "a = address \<and> call = Slash3 commitment secret receiver
    \<and> known_tiers C (makeOnchainSlasher TIERS address receiver ch\<lparr>oc_chain := later\<rparr>) = [K_SLOTS C]"
proof -
  have "\<exists>e. bind_res (default_limit ch) (\<lambda>_. allowed_limits ch) = Inl e" using assms(1) by (cases "default_limit ch") auto
  then have m: "makeOnchainSlasher TIERS address receiver ch = \<lparr>oc_address = address, oc_receiver = receiver, oc_tiered = False, oc_tiers = TIERS, oc_chain = ch\<rparr>"
    by (auto simp: makeOnchainSlasher_def)
  from assms(2) show ?thesis
    by (auto simp: m onchain_slash_def slash_claim_def Let_def slash_call_of_def known_tiers_def split: option.splits if_split_asm)
qed

theorem failed_probe_is_final_witness:
  "fst (onchain_slash demo_lib demo_cfg (makeOnchainSlasher [8, 32] ''0xa'' ''0xr'' (demo_view\<lparr>default_limit := Inl (Error ''timeout'')\<rparr>)\<lparr>oc_chain := demo_view\<rparr>) ''5'' ''42'' None)
     = Some (''0xa'', Slash3 ''5'' ''42'' ''0xr'')"
proof -
  let ?ch = "demo_view\<lparr>default_limit := Inl (Error ''timeout'')\<rparr>"
  let ?S = "makeOnchainSlasher [8, 32] ''0xa'' ''0xr'' ?ch\<lparr>oc_chain := demo_view\<rparr>"
  have "\<not> oc_tiered ?S" by (simp add: makeOnchainSlasher_def)
  then obtain a call where c: "fst (onchain_slash demo_lib demo_cfg ?S ''5'' ''42'' None) = Some (a, call)"
    by (simp add: onchain_slash_def slash_claim_def Let_def)
  have "(\<exists>e. default_limit ?ch = Inl e) \<or> (\<exists>e. allowed_limits ?ch = Inl e)" by simp
  from failed_probe_is_final [OF this c] c show ?thesis by simp
qed

lemma push_target_wf:
  assumes "distinct (map (js_lower \<circ> tg_address) ts)"
  shows "distinct (map (js_lower \<circ> tg_address) (push_target a k ts))"
    "set ts \<subseteq> set (push_target a k ts)" "set (push_target a k ts) \<subseteq> set ts \<union> {\<lparr>tg_address = x, tg_kind = k\<rparr> | x. a = Some x}"
  using assms by (auto simp: push_target_def list_ex_iff split: option.split)

lemma push_target_covers: "a = Some x \<Longrightarrow> x \<noteq> [] \<Longrightarrow> \<exists>t\<in>set (push_target a k ts). js_lower (tg_address t) = js_lower x"
  by (auto simp: push_target_def list_ex_iff)

lemma targets_fold:
  "distinct (map (js_lower \<circ> tg_address) ts) \<Longrightarrow>
   distinct (map (js_lower \<circ> tg_address) (fold (\<lambda>c. push_target (Some (rc_address c)) (rc_kind c)) cs ts))
   \<and> set ts \<subseteq> set (fold (\<lambda>c. push_target (Some (rc_address c)) (rc_kind c)) cs ts)
   \<and> (\<forall>t\<in>set (fold (\<lambda>c. push_target (Some (rc_address c)) (rc_kind c)) cs ts). t \<in> set ts \<or> (\<exists>c\<in>set cs. t = \<lparr>tg_address = rc_address c, tg_kind = rc_kind c\<rparr>))
   \<and> (\<forall>c\<in>set cs. rc_address c \<noteq> [] \<longrightarrow> (\<exists>t\<in>set (fold (\<lambda>c. push_target (Some (rc_address c)) (rc_kind c)) cs ts). js_lower (tg_address t) = js_lower (rc_address c)))"
proof (induction cs arbitrary: ts)
  case (Cons c cs)
  let ?p = "push_target (Some (rc_address c)) (rc_kind c) ts"
  note P = push_target_wf [OF Cons.prems, of "Some (rc_address c)" "rc_kind c"]
  note I = Cons.IH [OF P(1)]
  have "rc_address c \<noteq> [] \<Longrightarrow> \<exists>t\<in>set ?p. js_lower (tg_address t) = js_lower (rc_address c)" by (rule push_target_covers [OF refl])
  with I P(2,3) show ?case by (auto 0 4)
qed simp

text \<open>
  The slash targets are the primary contract and the admitted root contracts, each address once
  whatever its spelling, and every admitted contract with an address is a target.
\<close>

theorem slash_targets_exact:
  "distinct (map (js_lower \<circ> tg_address) (slash_targets primary cs))
   \<and> (\<forall>t\<in>set (slash_targets primary cs). primary = Some (tg_address t) \<and> tg_kind t = ''primary'' \<or> (\<exists>c\<in>set cs. t = \<lparr>tg_address = rc_address c, tg_kind = rc_kind c\<rparr>))
   \<and> (\<forall>c\<in>set cs. rc_address c \<noteq> [] \<longrightarrow> (\<exists>t\<in>set (slash_targets primary cs). js_lower (tg_address t) = js_lower (rc_address c)))"
proof -
  let ?p = "push_target primary ''primary'' []"
  have d: "distinct (map (js_lower \<circ> tg_address) ?p)" by (rule push_target_wf(1)) simp
  have p: "\<forall>t\<in>set ?p. primary = Some (tg_address t) \<and> tg_kind t = ''primary''" by (auto simp: push_target_def split: option.splits if_split_asm)
  from targets_fold [OF d, of cs] p show ?thesis unfolding slash_targets_def by blast
qed

section \<open>Draining\<close>

definition drained_well :: "shutdown_state \<Rightarrow> bool" where
  "drained_well s \<longleftrightarrow> (sd_exits s = [] \<and> sd_destroyed s = [] \<and> (sd_started s \<longrightarrow> sd_timer s \<and> \<not> sd_listening s))
     \<or> (sd_exits s = [0] \<and> sd_open s = [] \<and> sd_destroyed s = []) \<or> (sd_exits s = [1] \<and> sd_destroyed s = sd_open s)"

lemma shutdown_step_wf: "drained_well s \<Longrightarrow> drained_well (shutdown_step e s)"
  by (auto simp: drained_well_def sd_finish_def split: shutdown_event.split)

lemma shutdown_run_wf: "drained_well s \<Longrightarrow> drained_well (fold shutdown_step es s)"
  by (induction es arbitrary: s) (simp_all only: fold.simps comp_apply id_apply shutdown_step_wf)

lemma exit_final: "sd_exits s \<noteq> [] \<Longrightarrow> fold shutdown_step es s = s"
  by (induction es) auto

lemma started_stays: "sd_started s \<Longrightarrow> sd_started (shutdown_step e s)"
  by (auto simp: sd_finish_def split: shutdown_event.split)

lemma started_run: "sd_started s \<Longrightarrow> sd_started (fold shutdown_step es s)"
  by (induction es arbitrary: s) (simp_all only: fold.simps comp_apply id_apply started_stays)

text \<open>
  Shutdown ends exactly once. Over any events the process exits at most once, with 0 only when every
  connection had ended and nothing was destroyed, with 1 after destroying exactly the connections
  still open; and a signal followed, however late, by the end of the grace period has always exited.
\<close>

theorem shutdown_exits_once:
  "drained_well (fold shutdown_step es (shutdown_init socks))
   \<and> sd_exits (fold shutdown_step (es @ Signalled b # mid @ GraceElapsed # gs) (shutdown_init socks)) \<noteq> []"
proof -
  have i: "drained_well (shutdown_init socks)" by (simp add: drained_well_def shutdown_init_def)
  define s1 where "s1 = shutdown_step (Signalled b) (fold shutdown_step es (shutdown_init socks))"
  define s2 where "s2 = fold shutdown_step mid s1"
  have w: "drained_well s1" unfolding s1_def by (intro shutdown_step_wf shutdown_run_wf i)
  then have w2: "drained_well s2" unfolding s2_def by (rule shutdown_run_wf)
  have e: "sd_exits (shutdown_step GraceElapsed s2) \<noteq> []"
  proof (cases "sd_exits s1 = []")
    case True
    then have "sd_started s1" by (auto simp: s1_def split: if_split_asm)
    then have "sd_started s2" unfolding s2_def by (rule started_run)
    with w2 show ?thesis by (auto simp: drained_well_def sd_finish_def)
  next
    case False
    then have "s2 = s1" unfolding s2_def by (rule exit_final)
    with False show ?thesis by simp
  qed
  have "fold shutdown_step (es @ Signalled b # mid @ GraceElapsed # gs) (shutdown_init socks) = fold shutdown_step gs (shutdown_step GraceElapsed s2)"
    by (simp add: s1_def s2_def del: shutdown_step.simps)
  with exit_final [OF e] e have "sd_exits (fold shutdown_step (es @ Signalled b # mid @ GraceElapsed # gs) (shutdown_init socks)) \<noteq> []" by simp
  with shutdown_run_wf [OF i] show ?thesis by blast
qed

end
