(* ===== verification/Spec2Isabelle.thy ===== *)
theory Spec2Isabelle
  imports Admission Announce Artifacts Bootnode Caps Client ClientAck Directory Egress FleetTally Gateway ConnLimits LightClient LogFetch
    MemberSet Onion PayBuyer PayHttp PayWire Prelude Receipt Registrar Replay Reputation Rln Rln_Field RootProvider Roots RootUnion Selection Slasher SlotState SpentSet
    Ttl Wire
begin

text \<open>
  \<^bold>\<open>Shade Tree Node\<close> is an anonymous, rate-limited egress network over Tor. Members hold a
  leaf in a membership set. A client proves membership in zero knowledge (RLN) once per tunnel and
  slot, sends the proof in an envelope to a gateway onion, and the gateway relays one TCP tunnel to
  the requested target. Using a slot twice reveals the member's secret, and the gateway slashes the
  leaf. Gateways announce themselves to a bootnode, which serves a signed directory; clients pick
  gateways from it. This development is a shallow embedding of that JavaScript code and of the
  properties that make it correct. One theory models one component; the sources named below are
  under \<^verbatim>\<open>src/\<close>.

  \<^bold>\<open>Values.\<close> \<open>Prelude\<close> has the JavaScript values the sources pass around (\<open>jsval\<close>), exceptions as
  the left side of \<open>'a res\<close>, truthiness, property access, \<open>Number\<close>, \<open>String\<close>, \<open>BigInt\<close> and
  \<open>JSON.stringify\<close>, decimal numerals with their round trip, string splitting, and association lists
  for \<open>Map\<close> (insertion order, no duplicate keys) with the eviction of old entries. Strings are
  sequences of characters below 256. A number that is not an integer is \<open>JFloat\<close> with its text.
  Where arithmetic on doubles matters, numbers are rationals and every operation is rounded by a
  function \<open>fl\<close>; the theorems state what they need of it. The messages of engine errors are
  abstracted to their class.

  \<^bold>\<open>Proofs and over-spending.\<close>
  \<^item> \<open>Rln_Field\<close>, \<open>Rln\<close>: \<^verbatim>\<open>lib/rln.mjs\<close>. Field arithmetic with the extended
    Euclidean inverse, \<open>reconstructSecret\<close>, tiers, request signals, the leaf to slash, and
    \<open>verifyEnvelope\<close>. Poseidon, the identity package and Groth16 are the record \<open>rln_lib\<close>.
    Reconstruction from two points of a line is exact; an accepted envelope is fresh, bound to its
    target and nonce, under a trusted root and proved.
  \<^item> \<open>Artifacts\<close>: \<^verbatim>\<open>lib/zk-artifacts.mjs\<close>. The accepted verification-key set, its
    configuration and the resolution of an envelope's artifact.
  \<^item> \<open>SlotState\<close>: \<^verbatim>\<open>client/slot-state.mjs\<close>. Lock file, atomic save and slot allocation,
    under crashes and interleavings of processes: no slot is handed out twice.
  \<^item> \<open>SpentSet\<close>: the gateway's \<open>makeSpentSet\<close>. A nullifier is first once; a second share is
    slashed once, with the right leaf. \<open>Slasher\<close>: target choice, submission to one contract, routing
    over contracts, and the graceful shutdown. Together: two shares of one member end in one slash
    call for that member's live leaf.
  \<^item> \<open>FleetTally\<close>: \<^verbatim>\<open>gateway/fleet-tally.mjs\<close>. The bounded tally of announced
    nullifiers, its HTTP transport and endpoint. Its interface to the spent set is a record of
    operations, its laws a locale interpreted on the model.

  \<^bold>\<open>The gateway\<close> (\<^verbatim>\<open>gateway/gateway.mjs\<close>).
  \<^item> \<open>ConnLimits\<close>: connection limiter, payload budget and the byte-counting relay transform.
  \<^item> \<open>Admission\<close>, \<open>Roots\<close>: which membership paths are admitted (also
    \<^verbatim>\<open>lib/admission.mjs\<close>), and the roots trusted at each moment.
  \<^item> \<open>Egress\<close>: target patterns, public-address filter with 32-bit CIDR arithmetic, and DNS
    pinning. \<open>Wire\<close>: version gate, framing, labels, acknowledgement, hardening knobs.
  \<^item> \<open>Gateway\<close>: the connection handler, one definition per callback over one shared state; a run
    is any sequence of callbacks of any number of sockets and of root updates. No resource leaks, every
    cap holds, a socket egresses only after an envelope line of its own was verified against the roots
    last delivered before that line was read, to a vetted address, and an honest tunnel opens.

  \<^bold>\<open>Membership roots\<close> (\<^verbatim>\<open>lib/root-provider.mjs\<close>).
  \<^item> \<open>MemberSet\<close>: the two membership contracts, \<^verbatim>\<open>contracts/StakedReputationSet.sol\<close> and
    \<^verbatim>\<open>contracts/PaidAccessSet.sol\<close>, with their incremental Merkle tree. Updating one path keeps
    the stored root equal to the root of the whole leaf array; every transaction acts on the abstract
    set of leaves as its event says (locale \<open>member_chain\<close>, interpreted on both contracts).
  \<^item> \<open>Replay\<close>: \<open>reconstructGroup\<close>. Replaying the event log of either contract, in any delivery
    order, gives back the contract's leaves, live members and root; commitment 0 is the exception, and
    the theorem about it shows what goes wrong.
  \<^item> \<open>LogFetch\<close>: the paged \<open>eth_getLogs\<close> with its range-error patterns. Paging returns what one
    unbounded call would.
  \<^item> \<open>RootProvider\<close>: configuration, the ring of fresh roots (a refinement of a timed window), the
    last-known-good cache and the event-log provider with its incremental scan. Served roots come from
    a good read of the run that is recent; two behaviours that contradict the comments are proved as theorems.
  \<^item> \<open>RootUnion\<close>: the composite provider, polling, and the feed into the gateway's \<open>Roots\<close>.
  \<^item> \<open>LightClient\<close>: Merkle-Patricia proofs, the storage-proof provider and the Helios anchor
    (\<^verbatim>\<open>lib/helios-root.mjs\<close>). An anchored root cannot be forged short of a hash collision.

  \<^bold>\<open>Discovery and selection.\<close>
  \<^item> \<open>Onion\<close>, \<open>Caps\<close>, \<open>Directory\<close>: \<^verbatim>\<open>lib/directory.mjs\<close>. Base 32 and v3 onion
    addresses, capability advertisements and their canonical form, directory signing and (threshold)
    verification, cached loading, weighted order. ed25519 and SHA3 are the record \<open>dir_lib\<close>.
  \<^item> \<open>Announce\<close>, \<open>Bootnode\<close>: \<^verbatim>\<open>bootnode/announce.mjs\<close> and the registry of
    \<^verbatim>\<open>bootnode/server.mjs\<close>. A verification is split at its \<open>await\<close>, so runs interleave
    overlapping announcements. The registry is bounded, its verification rate is bounded, and the
    directory it serves always verifies.
  \<^item> \<open>Reputation\<close>, \<open>Selection\<close>: \<^verbatim>\<open>client/selection.mjs\<close>. Health cache, receipt
    tally, smooth weighted round robin; directory refresh with the rollback and age guards, stake
    re-verification, capability and admission filters, candidate order. Every candidate is an entry
    of a verified directory that passes the filters; round robin keeps every gateway within a
    constant of its weighted share.

  \<^bold>\<open>The client\<close> (\<^verbatim>\<open>client/shade-tree-client.mjs\<close>).
  \<^item> \<open>Receipt\<close>: \<^verbatim>\<open>lib/receipt.mjs\<close>. The egress receipts of a gateway, their round trip,
    and that no other statement the onion key signs has a receipt's bytes.
  \<^item> \<open>ClientAck\<close>: the bounded reader of the acknowledgement line over any events of the socket, the
    refusals the client learns from, and the protocol version and artifact it plans an envelope with.
  \<^item> \<open>Client\<close>: the search for the member's tree, the slot pool, \<open>buildEnvelope\<close>, and \<open>connect\<close> with
    its failover over gateways. One slot carries one envelope whatever the gateways do, and the envelope
    a member builds is one the gateway accepts. The prover is an argument; what the proof system
    promises is \<open>prover_correct\<close>. The Tor dial, the socket, the group loader and the answer of the
    selection are arguments too. Progress events, the warm-up proof and the test-only slot reuse are
    left out.

  \<^bold>\<open>Payments\<close> (\<^verbatim>\<open>payments/\<close>, \<^verbatim>\<open>group/pay.mjs\<close>). A buyer pays for a leaf with a signed
  token transfer, over x402 or MPP.
  \<^item> \<open>PayWire\<close>: \<^verbatim>\<open>payments/wire.mjs\<close> and the checks of \<^verbatim>\<open>payments/eip3009.mjs\<close>.
    Base 64, canonical JSON, the price list, the messages of both protocols, and the
    \<open>WWW-Authenticate\<close> printer and parser with their round trip. An accepted payment pays the listed
    price of its tier to the operator; an accepted MPP credential is bound to the challenge it names.
  \<^item> \<open>Registrar\<close>: the store and the settlement engine of \<^verbatim>\<open>payments/registrar.mjs\<close>. Orders are
    shared mutable objects, so they live in a heap; every \<open>await\<close> ends a step; a broadcast is accepted
    in one step and answered in another; a crash keeps the disk copy only. Every insert follows a
    confirmed settlement that pays for it, a funded purchase completes, and two behaviours that
    contradict the comments are proved as theorems. \<open>sent\<close> and \<open>confirmed\<close> are ghosts.
  \<^item> \<open>PayHttp\<close>: the offer, the quote and status routes and \<open>POST /pay\<close>, from the request to the
    engine and from its outcome to the answer, with closed metric labels.
  \<^item> \<open>PayBuyer\<close>: \<open>payX402\<close> and \<open>payMpp\<close>. What the registrar quotes the buyer can pay, and the
    registrar accepts what the buyer sends, for the first listed tier of the quoted price.
  Timestamps, the \<open>meta\<close> field and the detail texts of refusals are left out. Digests, \<open>JSON.parse\<close>,
  UTF-8 decoding and dates are the record \<open>pay_lib\<close>.

  \<^bold>\<open>Time, loops and concurrency.\<close> Clocks, random draws, file systems, networks and chain reads are
  arguments of the steps that use them. A step is a stretch of code between two suspension points,
  so theorems over lists of steps or over an \<open>inductive\<close> reachability predicate cover every
  interleaving. Loops are structural or come with a termination proof; the lock wait has its
  deadline as measure, the selection order the entries not yet excluded, the paging loop the blocks
  left and the window. The one step budget, of the Merkle-Patricia walk, is the source's own.

  \<^bold>\<open>Interfaces.\<close> Where a component relies on another through a few laws, the laws are a locale
  interpreted on the model's definitions, and the client's facts come from the interpretation:
  \<open>ttl_store\<close> of \<open>Ttl\<close> (a store that drops old entries) on the spent set, the payload budget and
  the tally; \<open>slot_allocator\<close> on the slot file; \<open>shared_tally\<close> on the fleet tally as the spent set
  calls it; \<open>member_chain\<close> on the two membership contracts.

  \<^bold>\<open>Not modelled.\<close> Logging, metrics, command lines and process wiring; the Tor dialler, the HTTP
  servers' sockets, routes of the bootnode and TLS; the client's
  \<open>fetch\<close>, the HTTP-CONNECT shim, the SOCKS credential, the group command lines and the network records; the verifier and registry contracts and the Rust node (other languages, generated code); pages, demos,
  deployment scripts and the self-tests.
\<close>

end
